(* ===== verification/Prelude.thy ===== *)
theory Prelude
  imports Main "HOL-Library.Word" "HOL-Library.Sublist"
begin

text \<open>
  Shared vocabulary of the development: the result type of Go code that may panic or
  return an error, the loops that stop at the first panic, checked slices and indices,
  and the generic lemmas on lists, numbers and words that the components use.
\<close>

unbundle bit_operations_syntax

section \<open>Results\<close>

type_synonym byte = "8 word"

text \<open>
  A Go function may return a value, return a non-nil \<open>error\<close>, or panic. The two
  failures are kept apart because a returned error is handled by the caller, while a
  panic unwinds it. \<open>Diverge\<close> is the outcome of a loop that does not return; a theorem that
  a function yields \<open>Inr\<close> excludes all three.
\<close>

datatype go_error = Panic string | Err string | Diverge

type_synonym 'a go = "go_error + 'a"

definition bindE :: "'e + 'a \<Rightarrow> ('a \<Rightarrow> 'e + 'b) \<Rightarrow> 'e + 'b" where
  "bindE m f = (case m of Inl e \<Rightarrow> Inl e | Inr x \<Rightarrow> f x)"

definition returned :: "'a go option \<Rightarrow> 'a go" where
  "returned r = (case r of None \<Rightarrow> Inl Diverge | Some m \<Rightarrow> m)"

lemma returned_Some [simp]: "returned (Some m) = m"
  by (simp add: returned_def)

text \<open>A loop over the elements of a list that stops at the first failure of its body.\<close>

fun foldE :: "('s \<Rightarrow> 'a \<Rightarrow> 'e + 's) \<Rightarrow> 's \<Rightarrow> 'a list \<Rightarrow> 'e + 's" where
  "foldE f s [] = Inr s"
| "foldE f s (x # xs) = bindE (f s x) (\<lambda>s'. foldE f s' xs)"

text \<open>A list comprehension whose element function may fail.\<close>

fun mapE :: "('a \<Rightarrow> 'e + 'b) \<Rightarrow> 'a list \<Rightarrow> 'e + 'b list" where
  "mapE f [] = Inr []"
| "mapE f (x # xs) = bindE (f x) (\<lambda>y. bindE (mapE f xs) (\<lambda>ys. Inr (y # ys)))"

lemma bindE_simps [simp]:
  "bindE (Inl e) f = Inl e"
  "bindE (Inr x) f = f x"
  by (simp_all add: bindE_def)

lemma bindE_eq_Inr [simp]: "bindE m f = Inr y \<longleftrightarrow> (\<exists>x. m = Inr x \<and> f x = Inr y)"
  by (cases m) auto

lemma bindE_assoc: "bindE (bindE m f) g = bindE m (\<lambda>x. bindE (f x) g)"
  by (cases m) auto

lemma bindE_Inr_right [simp]: "bindE m Inr = m"
  by (cases m) auto

lemma bindE_cong [fundef_cong]:
  "m = m' \<Longrightarrow> (\<And>x. m' = Inr x \<Longrightarrow> f x = g x) \<Longrightarrow> bindE m f = bindE m' g"
  by (cases m') auto

lemma foldE_append: "foldE f s (xs @ ys) = bindE (foldE f s xs) (\<lambda>s'. foldE f s' ys)"
  by (induction xs arbitrary: s) (auto simp: bindE_assoc)

text \<open>
  The rule for loops that never fail: an invariant that every iteration keeps while
  succeeding makes the whole loop succeed.
\<close>

lemma foldE_total:
  assumes "P s"
    and "\<And>s x. P s \<Longrightarrow> x \<in> set xs \<Longrightarrow> \<exists>s'. f s x = Inr s' \<and> P s'"
  shows "\<exists>s'. foldE f s xs = Inr s' \<and> P s'"
  using assms
proof (induction xs arbitrary: s)
  case Nil
  then show ?case by simp
next
  case (Cons x xs)
  then obtain s1 where "f s x = Inr s1" "P s1" by fastforce
  with Cons show ?case by simp
qed

lemma foldE_invariant:
  assumes "foldE f s xs = Inr s'" and "P s"
    and "\<And>s x t. P s \<Longrightarrow> x \<in> set xs \<Longrightarrow> f s x = Inr t \<Longrightarrow> P t"
  shows "P s'"
  using assms
proof (induction xs arbitrary: s)
  case Nil
  then show ?case by simp
next
  case (Cons x xs)
  from Cons.prems(1) obtain s1 where s1: "f s x = Inr s1" "foldE f s1 xs = Inr s'" by auto
  have "P s1" using Cons.prems(3)[OF Cons.prems(2) _ s1(1)] by simp
  then show ?case using Cons.IH[OF s1(2)] Cons.prems(3) by (metis list.set_intros(2))
qed

lemma foldE_pure: "(\<And>s x. f s x = Inr (g s x)) \<Longrightarrow> foldE f s xs = Inr (foldl g s xs)"
  by (induction xs arbitrary: s) auto

lemma mapE_Inr_iff: "mapE f xs = Inr ys \<longleftrightarrow> list_all2 (\<lambda>x y. f x = Inr y) xs ys"
  by (induction xs arbitrary: ys) (auto simp: list_all2_Cons1)

lemma mapE_member: "mapE f xs = Inr ys \<Longrightarrow> x \<in> set xs \<Longrightarrow> \<exists>y \<in> set ys. f x = Inr y"
  by (induction xs arbitrary: ys) auto

lemma mapE_length: "mapE f xs = Inr ys \<Longrightarrow> length ys = length xs"
  by (auto simp: mapE_Inr_iff dest: list_all2_lengthD)

lemma mapE_total: "(\<And>x. x \<in> set xs \<Longrightarrow> f x = Inr (g x)) \<Longrightarrow> mapE f xs = Inr (map g xs)"
  by (induction xs) auto

section \<open>Checked access\<close>

text \<open>Go panics on an index or a slice bound outside the sequence.\<close>

definition idx :: "'a list \<Rightarrow> int \<Rightarrow> 'a go" where
  "idx xs i = (if 0 \<le> i \<and> i < int (length xs) then Inr (xs ! nat i)
               else Inl (Panic ''index out of range''))"

definition upd :: "'a list \<Rightarrow> int \<Rightarrow> 'a \<Rightarrow> 'a list go" where
  "upd xs i v = (if 0 \<le> i \<and> i < int (length xs) then Inr (xs[nat i := v])
                 else Inl (Panic ''index out of range''))"

definition slice :: "'a list \<Rightarrow> int \<Rightarrow> int \<Rightarrow> 'a list go" where
  "slice xs lo hi =
     (if 0 \<le> lo \<and> lo \<le> hi \<and> hi \<le> int (length xs)
      then Inr (take (nat hi - nat lo) (drop (nat lo) xs))
      else Inl (Panic ''slice bounds out of range''))"

lemma idx_in [simp]: "0 \<le> i \<Longrightarrow> i < int (length xs) \<Longrightarrow> idx xs i = Inr (xs ! nat i)"
  by (simp add: idx_def)

lemma upd_in [simp]: "0 \<le> i \<Longrightarrow> i < int (length xs) \<Longrightarrow> upd xs i v = Inr (xs[nat i := v])"
  by (simp add: upd_def)

lemma slice_Inr:
  "slice xs lo hi = Inr ys \<longleftrightarrow>
     0 \<le> lo \<and> lo \<le> hi \<and> hi \<le> int (length xs) \<and> ys = take (nat hi - nat lo) (drop (nat lo) xs)"
  by (auto simp: slice_def)

lemma slice_append_mid: "slice (xs @ ys @ zs) (int (length xs)) (int (length xs + length ys)) = Inr ys"
  by (simp add: slice_def)

section \<open>Bytes and strings\<close>

text \<open>A Go string and a byte slice hold the same bytes; the conversions copy them.\<close>

definition bytes_of :: "string \<Rightarrow> byte list" where
  "bytes_of s = map of_char s"

definition string_of :: "byte list \<Rightarrow> string" where
  "string_of bs = map (\<lambda>b. char_of (unat b)) bs"

lemma of_char_nat_less: "(of_char c :: nat) < 256"
  by (cases c) (simp add: of_char_def horner_sum_simps)

lemma unat_of_char: "unat (of_char c :: byte) = of_char c"
proof -
  have "(of_char c :: byte) = of_nat (of_char c)"
    by (simp add: of_char_def horner_sum_simps split: char.splits)
  then show ?thesis
    using of_char_nat_less[of c] by (simp add: unsigned_of_nat take_bit_eq_mod)
qed

lemma string_of_bytes_of [simp]: "string_of (bytes_of s) = s"
  by (simp add: string_of_def bytes_of_def comp_def unat_of_char)

lemma length_bytes_of [simp]: "length (bytes_of s) = length s"
  by (simp add: bytes_of_def)

lemma length_string_of [simp]: "length (string_of bs) = length bs"
  by (simp add: string_of_def)

lemma string_of_append: "string_of (xs @ ys) = string_of xs @ string_of ys"
  by (simp add: string_of_def)

lemma bytes_of_append: "bytes_of (xs @ ys) = bytes_of xs @ bytes_of ys"
  by (simp add: bytes_of_def)

lemma bytes_of_string_of [simp]: "bytes_of (string_of bs) = bs"
proof -
  have "(of_char (char_of (unat b)) :: byte) = b" for b :: byte
  proof -
    have "unat b < 256" using unsigned_less[where 'a = nat, of b] by simp
    then have "unat (of_char (char_of (unat b)) :: byte) = unat b" by (simp add: unat_of_char)
    then show ?thesis by (simp add: word_unat_eq_iff)
  qed
  then show ?thesis by (simp add: string_of_def bytes_of_def comp_def)
qed

lemma word_of_nat_unat_id: "of_nat (unat w) = w"
  by (simp add: word_unat_eq_iff)

lemma string_of_replicate:
  "k < 256 \<Longrightarrow> string_of (replicate n (of_nat k)) = replicate n (char_of k)"
  by (simp add: string_of_def unsigned_of_nat take_bit_eq_mod)

section \<open>Lists and sums\<close>

text \<open>Cutting a list into blocks of \<open>n\<close> elements, the last one possibly shorter.\<close>

fun chunks :: "nat \<Rightarrow> 'a list \<Rightarrow> 'a list list" where
  "chunks n [] = []"
| "chunks n (x # xs) = take (Suc (n - 1)) (x # xs) # chunks n (drop (n - 1) xs)"

lemma concat_chunks [simp]: "concat (chunks n xs) = xs"
  by (induction n xs rule: chunks.induct) auto

lemma chunks_append:
  "0 < n \<Longrightarrow> length xs = n \<Longrightarrow> chunks n (xs @ ys) = xs # chunks n ys"
  by (cases xs) auto

lemma chunks_concat:
  "0 < n \<Longrightarrow> (\<And>c. c \<in> set cs \<Longrightarrow> length c = n) \<Longrightarrow> chunks n (concat cs) = cs"
  by (induction cs) (simp_all add: chunks_append)

lemma chunks_length_dvd:
  assumes "0 < n" "n dvd length xs" "c \<in> set (chunks n xs)"
  shows "length c = n"
  using assms
proof (induction n xs rule: chunks.induct)
  case (1 n)
  then show ?case by simp
next
  case (2 n x xs)
  from 2(2,3) have le: "n \<le> Suc (length xs)"
    by (metis dvd_imp_le length_Cons zero_less_Suc)
  with 2(2,3) have "n dvd length (drop (n - 1) xs)"
    by (metis Suc_diff_1 Suc_diff_le diff_Suc_Suc dvd_diff_nat dvd_refl length_Cons
        length_drop diff_diff_cancel)
  then show ?case using 2 le by auto
qed

end
