(* ===== verification/Go_Std.thy ===== *)
theory Go_Std
  imports Prelude "HOL-Library.Code_Target_Nat" "HOL-Library.Code_Target_Int"
begin

text \<open>
  The functions of Go's standard library that the program calls, as far as it uses them:
  package \<open>strings\<close> (Index, Contains, Split, HasPrefix), \<open>strconv\<close> (Itoa, Atoi), the
  \<open>%x\<close> verb of \<open>fmt\<close> on bytes, and \<open>encoding/base64\<close> (StdEncoding). Strings are byte
  sequences, as in Go.
\<close>

section \<open>Package strings\<close>

text \<open>\<open>strings.Index(s, sep)\<close>: the position of the first occurrence, -1 without one.\<close>

fun strings_Index :: "string \<Rightarrow> string \<Rightarrow> int" where
  "strings_Index s sep =
     (if prefix sep s then 0
      else case s of [] \<Rightarrow> -1
        | c # t \<Rightarrow> (let r = strings_Index t sep in if r = -1 then -1 else r + 1))"

declare strings_Index.simps [simp del]

definition strings_Contains :: "string \<Rightarrow> string \<Rightarrow> bool" where
  "strings_Contains s sep = (strings_Index s sep \<noteq> -1)"

definition strings_HasPrefix :: "string \<Rightarrow> string \<Rightarrow> bool" where
  "strings_HasPrefix s p = prefix p s"

text \<open>\<open>strings.Split\<close> with a separator of one character.\<close>

fun strings_Split :: "char \<Rightarrow> string \<Rightarrow> string list" where
  "strings_Split sep [] = [[]]"
| "strings_Split sep (c # cs) =
     (if c = sep then [] # strings_Split sep cs
      else (case strings_Split sep cs of [] \<Rightarrow> [[c]] | p # ps \<Rightarrow> (c # p) # ps))"

lemma strings_Index_Nil: "strings_Index [] [c] = -1"
  by (simp add: strings_Index.simps)

lemma strings_Index_Cons:
  "strings_Index (d # t) [c] =
     (if d = c then 0 else if strings_Index t [c] = -1 then -1 else strings_Index t [c] + 1)"
  by (simp add: strings_Index.simps[of "d # t"] Let_def)

lemma strings_Index_ge: "-1 \<le> strings_Index s [c]"
  by (induction s) (auto simp: strings_Index_Nil strings_Index_Cons)

lemma strings_Index_absent: "strings_Index s [c] = -1 \<longleftrightarrow> c \<notin> set s"
proof (induction s)
  case Nil
  then show ?case by (simp add: strings_Index_Nil)
next
  case (Cons d s)
  then show ?case using strings_Index_ge[of s c] by (auto simp: strings_Index_Cons)
qed

lemma strings_Index_first:
  "c \<notin> set xs \<Longrightarrow> strings_Index (xs @ c # ys) [c] = int (length xs)"
  by (induction xs) (auto simp: strings_Index_Cons)

lemma strings_Index_split:
  assumes "c \<in> set s"
  obtains xs ys where "s = xs @ c # ys" "c \<notin> set xs" "strings_Index s [c] = int (length xs)"
proof -
  from assms obtain xs ys where "s = xs @ c # ys" "c \<notin> set xs"
    by (metis split_list_first)
  then show ?thesis using that strings_Index_first by blast
qed

lemma strings_Split_nonempty [simp]: "strings_Split c s \<noteq> []"
  by (induction s) (auto split: list.splits)

lemma strings_Split_absent: "c \<notin> set s \<Longrightarrow> strings_Split c s = [s]"
  by (induction s) auto

lemma strings_Split_append:
  "c \<notin> set xs \<Longrightarrow> strings_Split c (xs @ c # ys) = xs # strings_Split c ys"
  by (induction xs) auto

section \<open>Package strconv\<close>

definition digit :: "nat \<Rightarrow> char" where
  "digit d = char_of (48 + d)"

definition is_digit :: "char \<Rightarrow> bool" where
  "is_digit c = (48 \<le> (of_char c :: nat) \<and> (of_char c :: nat) \<le> 57)"

definition digit_val :: "char \<Rightarrow> nat" where
  "digit_val c = of_char c - 48"

fun nat_to_dec :: "nat \<Rightarrow> string" where
  "nat_to_dec n = (if n < 10 then [digit n] else nat_to_dec (n div 10) @ [digit (n mod 10)])"

declare nat_to_dec.simps [simp del]

definition Itoa :: "int \<Rightarrow> string" where
  "Itoa i = (if i < 0 then CHR ''-'' # nat_to_dec (nat (- i)) else nat_to_dec (nat i))"

definition dec_val :: "string \<Rightarrow> nat" where
  "dec_val s = foldl (\<lambda>n c. 10 * n + digit_val c) 0 s"

definition maxInt :: int where "maxInt = 2 ^ 63 - 1"
definition minInt :: int where "minInt = - (2 ^ 63)"

text \<open>
  \<open>strconv.Atoi\<close>: an optional sign and at least one digit. A syntax error yields 0, a value
  outside the 64-bit range the nearest bound; the Boolean says that the error is nil.
\<close>

definition Atoi :: "string \<Rightarrow> int \<times> bool" where
  "Atoi s =
     (let (neg, ds) = (case s of [] \<Rightarrow> (False, [])
            | c # t \<Rightarrow> if c = CHR ''-'' then (True, t)
                       else if c = CHR ''+'' then (False, t) else (False, s))
      in if ds = [] \<or> \<not> list_all is_digit ds then (0, False)
         else let v = (if neg then - int (dec_val ds) else int (dec_val ds))
              in if v < minInt then (minInt, False)
                 else if maxInt < v then (maxInt, False) else (v, True))"

lemma of_char_digit: "d < 10 \<Longrightarrow> (of_char (digit d) :: nat) = 48 + d"
  by (simp add: digit_def)

lemma is_digit_digit [simp]: "d < 10 \<Longrightarrow> is_digit (digit d)"
  by (simp add: is_digit_def of_char_digit)

lemma digit_val_digit [simp]: "d < 10 \<Longrightarrow> digit_val (digit d) = d"
  by (simp add: digit_val_def of_char_digit)

lemma nat_to_dec_digits: "list_all is_digit (nat_to_dec n)"
proof (induction n rule: nat_to_dec.induct)
  case (1 n)
  then show ?case by (subst nat_to_dec.simps) auto
qed

lemma nat_to_dec_nonempty [simp]: "nat_to_dec n \<noteq> []"
  by (subst nat_to_dec.simps) simp

lemma dec_val_nat_to_dec [simp]: "dec_val (nat_to_dec n) = n"
proof (induction n rule: nat_to_dec.induct)
  case (1 n)
  then show ?case by (subst nat_to_dec.simps) (auto simp: dec_val_def)
qed

lemma is_digit_no_sign: "is_digit c \<Longrightarrow> c \<noteq> CHR ''-'' \<and> c \<noteq> CHR ''+''"
  by (auto simp: is_digit_def)

lemma nat_to_dec_no_sign: "c \<in> set (nat_to_dec n) \<Longrightarrow> is_digit c"
  using nat_to_dec_digits[of n] by (simp add: list_all_iff)

lemma Atoi_digits:
  assumes "list_all is_digit s" "s \<noteq> []"
  shows "Atoi s = (if maxInt < int (dec_val s) then (maxInt, False) else (int (dec_val s), True))"
proof -
  obtain c t where s: "s = c # t" using assms(2) by (cases s) auto
  with assms(1) have "c \<noteq> CHR ''-''" "c \<noteq> CHR ''+''" by (auto dest: is_digit_no_sign)
  with assms show ?thesis by (simp add: Atoi_def s minInt_def)
qed

lemma Atoi_nat_to_dec:
  "Atoi (nat_to_dec n) = (if maxInt < int n then (maxInt, False) else (int n, True))"
  using Atoi_digits[OF nat_to_dec_digits[of n]] by simp

lemma Atoi_Itoa:
  assumes "minInt \<le> i" "i \<le> maxInt"
  shows "Atoi (Itoa i) = (i, True)"
proof (cases "i < 0")
  case True
  have "list_all is_digit (nat_to_dec (nat (- i)))" by (rule nat_to_dec_digits)
  with True assms show ?thesis by (simp add: Atoi_def Itoa_def)
next
  case False
  with assms show ?thesis by (simp add: Itoa_def Atoi_nat_to_dec)
qed

section \<open>Hexadecimal\<close>

definition hex_digit :: "nat \<Rightarrow> char" where
  "hex_digit d = (if d < 10 then char_of (48 + d) else char_of (87 + d))"

text \<open>\<open>fmt.Sprintf("%x", bs)\<close>: two lower-case digits a byte.\<close>

definition hex_byte :: "byte \<Rightarrow> string" where
  "hex_byte b = [hex_digit (unat b div 16), hex_digit (unat b mod 16)]"

definition fmt_x :: "byte list \<Rightarrow> string" where
  "fmt_x bs = concat (map hex_byte bs)"

lemma length_fmt_x: "length (fmt_x bs) = 2 * length bs"
  by (induction bs) (auto simp: fmt_x_def hex_byte_def)

section \<open>Base64, standard encoding\<close>

definition b64_char :: "nat \<Rightarrow> char" where
  "b64_char n = (if n < 26 then char_of (65 + n) else if n < 52 then char_of (71 + n)
     else if n < 62 then char_of (n - 4) else if n = 62 then CHR ''+'' else CHR ''/'')"

definition b64_val :: "char \<Rightarrow> nat option" where
  "b64_val c = (let k = of_char c :: nat in
     if 65 \<le> k \<and> k \<le> 90 then Some (k - 65) else if 97 \<le> k \<and> k \<le> 122 then Some (k - 71)
     else if 48 \<le> k \<and> k \<le> 57 then Some (k + 4) else if k = 43 then Some 62
     else if k = 47 then Some 63 else None)"

text \<open>Three bytes as four six-bit values, and back.\<close>

definition sextet0 :: "byte \<Rightarrow> nat" where "sextet0 a = unat a div 4"
definition sextet1 :: "byte \<Rightarrow> byte \<Rightarrow> nat" where "sextet1 a b = unat a mod 4 * 16 + unat b div 16"
definition sextet2 :: "byte \<Rightarrow> byte \<Rightarrow> nat" where "sextet2 b c = unat b mod 16 * 4 + unat c div 64"
definition sextet3 :: "byte \<Rightarrow> nat" where "sextet3 c = unat c mod 64"

definition octet0 :: "nat \<Rightarrow> nat \<Rightarrow> byte" where "octet0 p q = of_nat (p * 4 + q div 16)"
definition octet1 :: "nat \<Rightarrow> nat \<Rightarrow> byte" where "octet1 q r = of_nat (q mod 16 * 16 + r div 4)"
definition octet2 :: "nat \<Rightarrow> nat \<Rightarrow> byte" where "octet2 r s = of_nat (r mod 4 * 64 + s)"

fun EncodeToString :: "byte list \<Rightarrow> string" where
  "EncodeToString [] = []"
| "EncodeToString [a] = [b64_char (sextet0 a), b64_char (sextet1 a 0), CHR ''='', CHR ''='']"
| "EncodeToString [a, b] =
     [b64_char (sextet0 a), b64_char (sextet1 a b), b64_char (sextet2 b 0), CHR ''='']"
| "EncodeToString (a # b # c # bs) =
     [b64_char (sextet0 a), b64_char (sextet1 a b), b64_char (sextet2 b c), b64_char (sextet3 c)]
       @ EncodeToString bs"

text \<open>
  \<open>DecodeString\<close> skips line breaks and decodes groups of four characters; at the first
  corrupt group it stops and returns what it has decoded with an error. Padding is only
  accepted at the very end. The Boolean says that the error is nil: the callers here drop
  the error and use the bytes.
\<close>

fun decode_groups :: "string \<Rightarrow> byte list \<times> bool" where
  "decode_groups [] = ([], True)"
| "decode_groups (p # q # r # s # cs) =
     (case (b64_val p, b64_val q) of
        (Some x, Some y) \<Rightarrow>
          (case (b64_val r, b64_val s) of
             (Some z, Some w) \<Rightarrow>
               (let (bs, ok) = decode_groups cs in
                (octet0 x y # octet1 y z # octet2 z w # bs, ok))
           | (Some z, None) \<Rightarrow>
               if s = CHR ''='' then ([octet0 x y, octet1 y z], cs = []) else ([], False)
           | (None, _) \<Rightarrow>
               if r = CHR ''='' \<and> s = CHR ''='' then ([octet0 x y], cs = []) else ([], False))
      | _ \<Rightarrow> ([], False))"
| "decode_groups _ = ([], False)"

definition DecodeString :: "string \<Rightarrow> byte list \<times> bool" where
  "DecodeString s = decode_groups (filter (\<lambda>c. c \<noteq> CHR 0x0A \<and> c \<noteq> CHR 0x0D) s)"

lemma b64_val_char: "n < 64 \<Longrightarrow> b64_val (b64_char n) = Some n"
  by (auto simp: b64_val_def b64_char_def Let_def)

lemma b64_val_pad: "b64_val (CHR ''='') = None"
  by (simp add: b64_val_def)

lemma b64_char_no_break: "n < 64 \<Longrightarrow> b64_char n \<noteq> CHR 0x0A \<and> b64_char n \<noteq> CHR 0x0D"
proof -
  have "b64_val (CHR 0x0A) = None" "b64_val (CHR 0x0D) = None"
    by (simp_all add: b64_val_def)
  moreover assume "n < 64"
  ultimately show ?thesis using b64_val_char[of n] by force
qed

lemma unat_byte_less: "unat (b :: byte) < 256"
  using unsigned_less[where 'a = nat, of b] by simp

lemma sextet_less [simp]:
  "sextet0 a < 64" "sextet1 a b < 64" "sextet2 b c < 64" "sextet3 c < 64"
proof -
  have "unat a < 256" "unat b < 256" "unat c < 256" by (rule unat_byte_less)+
  then have "unat a div 4 < 64" "unat b div 16 < 16" "unat c div 64 < 4" by simp_all
  moreover have "unat a mod 4 < 4" "unat b mod 16 < 16" "unat c mod 64 < 64" by simp_all
  ultimately show "sextet0 a < 64" "sextet1 a b < 64" "sextet2 b c < 64" "sextet3 c < 64"
    unfolding sextet0_def sextet1_def sextet2_def sextet3_def by linarith+
qed

lemma octet0_sextet [simp]: "octet0 (sextet0 a) (sextet1 a b) = a"
proof -
  have "unat b div 16 < 16" using unat_byte_less[of b] by simp
  then have "unat a div 4 * 4 + (unat a mod 4 * 16 + unat b div 16) div 16 = unat a" by simp
  then show ?thesis by (simp only: octet0_def sextet0_def sextet1_def word_of_nat_unat_id)
qed

lemma octet1_sextet [simp]: "octet1 (sextet1 a b) (sextet2 b c) = b"
proof -
  have "unat b div 16 < 16" "unat c div 64 < 4"
    using unat_byte_less[of b] unat_byte_less[of c] by simp_all
  then have "(unat a mod 4 * 16 + unat b div 16) mod 16 * 16
      + (unat b mod 16 * 4 + unat c div 64) div 4 = unat b"
    by simp
  then show ?thesis by (simp only: octet1_def sextet2_def sextet1_def word_of_nat_unat_id)
qed

lemma octet2_sextet [simp]: "octet2 (sextet2 b c) (sextet3 c) = c"
proof -
  have "unat c div 64 < 4" using unat_byte_less[of c] by simp
  then have "(unat b mod 16 * 4 + unat c div 64) mod 4 * 64 + unat c mod 64 = unat c" by simp
  then show ?thesis by (simp only: octet2_def sextet2_def sextet3_def word_of_nat_unat_id)
qed

lemma decode_groups_EncodeToString: "decode_groups (EncodeToString bs) = (bs, True)"
  by (induction bs rule: EncodeToString.induct) (simp_all add: b64_val_char b64_val_pad)

lemma EncodeToString_no_break:
  "c \<in> set (EncodeToString bs) \<Longrightarrow> c \<noteq> CHR 0x0A \<and> c \<noteq> CHR 0x0D"
  by (induction bs rule: EncodeToString.induct) (auto simp: b64_char_no_break)

lemma DecodeString_EncodeToString [simp]: "DecodeString (EncodeToString bs) = (bs, True)"
proof -
  have "filter (\<lambda>c. c \<noteq> CHR 0x0A \<and> c \<noteq> CHR 0x0D) (EncodeToString bs) = EncodeToString bs"
    using EncodeToString_no_break[of _ bs] by (simp add: filter_id_conv)
  then show ?thesis by (simp add: DecodeString_def decode_groups_EncodeToString)
qed

lemma length_EncodeToString: "length (EncodeToString bs) = 4 * ((length bs + 2) div 3)"
proof (induction bs rule: EncodeToString.induct)
  case (4 a b c bs)
  have "(length (a # b # c # bs) + 2) div 3 = Suc ((length bs + 2) div 3)" by simp
  with 4 show ?case by simp
qed simp_all

end
