(* ===== verification/JSON.thy ===== *)
theory JSON
  imports Go_Std
begin

text \<open>
  The part of Go's \<open>encoding/json\<close> that the program uses: the text of a value, the parser of
  texts, strings with their escapes and the treatment of invalid UTF-8, and the rules by which
  values are stored into struct fields. The structs themselves are in the theory of their
  component.
\<close>

section \<open>UTF-8\<close>

abbreviation ord :: "char \<Rightarrow> nat" where
  "ord c \<equiv> of_char c"

definition continuation :: "char \<Rightarrow> bool" where
  "continuation c \<longleftrightarrow> 128 \<le> ord c \<and> ord c \<le> 191"

text \<open>The length of the well-formed sequence at the head of a string, 0 if there is none.\<close>

fun utf8_size :: "string \<Rightarrow> nat" where
  "utf8_size [] = 0"
| "utf8_size (a # s) =
     (if ord a < 128 then 1
      else if 194 \<le> ord a \<and> ord a \<le> 223 then
        (case s of b # _ \<Rightarrow> if continuation b then 2 else 0 | _ \<Rightarrow> 0)
      else if 224 \<le> ord a \<and> ord a \<le> 239 then
        (case s of b # c # _ \<Rightarrow>
           if continuation b \<and> continuation c \<and> (ord a = 224 \<longrightarrow> 160 \<le> ord b) \<and> (ord a = 237 \<longrightarrow> ord b \<le> 159)
           then 3 else 0 | _ \<Rightarrow> 0)
      else if 240 \<le> ord a \<and> ord a \<le> 244 then
        (case s of b # c # d # _ \<Rightarrow>
           if continuation b \<and> continuation c \<and> continuation d \<and>
              (ord a = 240 \<longrightarrow> 144 \<le> ord b) \<and> (ord a = 244 \<longrightarrow> ord b \<le> 143)
           then 4 else 0 | _ \<Rightarrow> 0)
      else 0)"

declare utf8_size.simps [simp del]

lemma utf8_size_le: "utf8_size s \<le> length s"
  by (cases s) (auto simp: utf8_size.simps split: list.splits if_splits)

lemma utf8_size_append: "utf8_size s \<noteq> 0 \<Longrightarrow> utf8_size (s @ t) = utf8_size s"
  by (cases s) (auto simp: utf8_size.simps split: list.splits if_splits)

lemma utf8_size_take: "utf8_size s \<noteq> 0 \<Longrightarrow> utf8_size (take (utf8_size s) s) = utf8_size s"
  by (cases s) (auto simp: utf8_size.simps split: list.splits if_splits)

lemma utf8_size_ascii [simp]: "ord c < 128 \<Longrightarrow> utf8_size (c # s) = 1"
  by (simp add: utf8_size.simps)

function utf8_valid :: "string \<Rightarrow> bool" where
  "utf8_valid s = (if s = [] then True else if utf8_size s = 0 then False
     else utf8_valid (drop (utf8_size s) s))"
  by pat_completeness auto
termination
  by (relation "measure length") auto

declare utf8_valid.simps [simp del]

lemma utf8_valid_Nil [simp]: "utf8_valid []"
  by (simp add: utf8_valid.simps)

lemma utf8_valid_ascii: "ord c < 128 \<Longrightarrow> utf8_valid (c # s) = utf8_valid s"
  by (simp add: utf8_valid.simps[of "c # s"])

text \<open>A valid string is empty or a well-formed sequence followed by a valid string.\<close>

lemma utf8_induct [consumes 1, case_names Nil Chunk]:
  assumes "utf8_valid s" and "P []"
    and chunk: "\<And>u s. u \<noteq> [] \<Longrightarrow> utf8_size u = length u \<Longrightarrow> utf8_valid s \<Longrightarrow> P s \<Longrightarrow> P (u @ s)"
  shows "P s"
  using assms(1)
proof (induction s rule: utf8_valid.induct)
  case (1 s)
  show ?case
  proof (cases "s = []")
    case False
    then have n: "utf8_size s \<noteq> 0" "utf8_valid (drop (utf8_size s) s)"
      using "1.prems" by (simp_all add: utf8_valid.simps[of s] split: if_splits)
    let ?u = "take (utf8_size s) s"
    have "utf8_size ?u = length ?u" using utf8_size_take[OF n(1)] utf8_size_le[of s] by simp
    moreover have "?u \<noteq> []" using n(1) False by simp
    ultimately have "P (?u @ drop (utf8_size s) s)" using chunk "1.IH"[OF False n(1,2)] n(2) by blast
    then show ?thesis by simp
  qed (simp add: assms(2))
qed

text \<open>\<open>utf8.EncodeRune\<close>.\<close>

definition encode_rune :: "nat \<Rightarrow> string" where
  "encode_rune r =
     (if r < 128 then [char_of r]
      else if r < 2048 then [char_of (192 + r div 64), char_of (128 + r mod 64)]
      else if r < 65536 then
        [char_of (224 + r div 4096), char_of (128 + r div 64 mod 64), char_of (128 + r mod 64)]
      else [char_of (240 + r div 262144), char_of (128 + r div 4096 mod 64),
            char_of (128 + r div 64 mod 64), char_of (128 + r mod 64)])"

definition replacement :: string where
  "replacement = encode_rune 65533"

section \<open>Strings\<close>

text \<open>Characters that are escaped: quotes, control characters and those of HTML.\<close>

definition hex4 :: "nat \<Rightarrow> string" where
  "hex4 n = [hex_digit (n div 4096 mod 16), hex_digit (n div 256 mod 16), hex_digit (n div 16 mod 16), hex_digit (n mod 16)]"

definition escape_ascii :: "char \<Rightarrow> string" where
  "escape_ascii c =
     (if c = CHR 0x22 \<or> c = CHR 0x5C then [CHR 0x5C, c]
      else if c = CHR 0x0A then [CHR 0x5C, CHR ''n'']
      else if c = CHR 0x0D then [CHR 0x5C, CHR ''r'']
      else if c = CHR 0x09 then [CHR 0x5C, CHR ''t'']
      else if ord c < 32 \<or> c \<in> {CHR ''<'', CHR ''>'', CHR ''&''} then
        [CHR 0x5C, CHR ''u''] @ hex4 (ord c)
      else [c])"

text \<open>The line separators U+2028 and U+2029, escaped for JavaScript.\<close>

definition line_separator :: "string \<Rightarrow> bool" where
  "line_separator u \<longleftrightarrow> u = encode_rune 8232 \<or> u = encode_rune 8233"

function json_escape :: "string \<Rightarrow> string" where
  "json_escape s =
     (case s of [] \<Rightarrow> []
      | c # t \<Rightarrow>
        if ord c < 128 then escape_ascii c @ json_escape t
        else let n = utf8_size s in
          if n = 0 then [CHR 0x5C, CHR ''u''] @ hex4 65533 @ json_escape t
          else (if line_separator (take n s)
                then [CHR 0x5C, CHR ''u''] @ hex4 (if take n s = encode_rune 8232 then 8232 else 8233)
                else take n s) @ json_escape (drop n s))"
  by pat_completeness auto
termination
  by (relation "measure length") auto

declare json_escape.simps [simp del]

definition hex_value :: "char \<Rightarrow> nat option" where
  "hex_value c =
     (if 48 \<le> ord c \<and> ord c \<le> 57 then Some (ord c - 48)
      else if 97 \<le> ord c \<and> ord c \<le> 102 then Some (ord c - 87)
      else if 65 \<le> ord c \<and> ord c \<le> 70 then Some (ord c - 55) else None)"

fun read_hex4 :: "string \<Rightarrow> (nat \<times> string) option" where
  "read_hex4 (a # b # c # d # s) =
     (case (hex_value a, hex_value b, hex_value c, hex_value d) of
        (Some x, Some y, Some z, Some w) \<Rightarrow> Some (4096 * x + 256 * y + 16 * z + w, s)
      | _ \<Rightarrow> None)"
| "read_hex4 s = None"

definition simple_escapes :: "(char \<times> char) list" where
  "simple_escapes = [(CHR 0x22, CHR 0x22), (CHR 0x5C, CHR 0x5C), (CHR ''/'', CHR ''/''),
     (CHR ''b'', CHR 0x08), (CHR ''f'', CHR 0x0C), (CHR ''n'', CHR 0x0A),
     (CHR ''r'', CHR 0x0D), (CHR ''t'', CHR 0x09)]"

definition surrogate :: "nat \<Rightarrow> bool" where
  "surrogate r \<longleftrightarrow> 55296 \<le> r \<and> r < 57344"

text \<open>A second escape that completes a surrogate pair.\<close>

definition low_surrogate :: "nat \<Rightarrow> string \<Rightarrow> (nat \<times> string) option" where
  "low_surrogate hi s =
     (case s of a # b # t \<Rightarrow>
        if a = CHR 0x5C \<and> b = CHR ''u'' then
          (case read_hex4 t of Some (lo, r) \<Rightarrow>
             if hi < 56320 \<and> 56320 \<le> lo \<and> lo < 57344
             then Some ((hi - 55296) * 1024 + (lo - 56320) + 65536, r) else None
           | None \<Rightarrow> None)
        else None
      | _ \<Rightarrow> None)"

text \<open>What an escape stands for, and the text after it.\<close>

definition read_escape :: "string \<Rightarrow> (string \<times> string) option" where
  "read_escape s =
     (case s of [] \<Rightarrow> None
      | e # t \<Rightarrow>
        if e = CHR ''u'' then
          (case read_hex4 t of None \<Rightarrow> None
           | Some (r, t) \<Rightarrow>
             if surrogate r then
               (case low_surrogate r t of Some (r', t') \<Rightarrow> Some (encode_rune r', t')
                | None \<Rightarrow> Some (replacement, t))
             else Some (encode_rune r, t))
        else map_option (\<lambda>c. ([c], t)) (map_of simple_escapes e))"

lemma read_hex4_length: "read_hex4 s = Some (r, t) \<Longrightarrow> length t < length s"
  by (induction s rule: read_hex4.induct) (auto split: option.splits)

lemma low_surrogate_length: "low_surrogate hi s = Some (r, t) \<Longrightarrow> length t < length s"
  by (auto simp: low_surrogate_def split: list.splits if_splits option.splits dest!: read_hex4_length)

lemma read_escape_length: "read_escape s = Some (u, t) \<Longrightarrow> length t < length s"
  by (fastforce simp: read_escape_def split: list.splits if_splits option.splits
      dest!: read_hex4_length low_surrogate_length)

text \<open>The rest of a string literal, after its opening quote.\<close>

function json_unquote :: "string \<Rightarrow> (string \<times> string) option" where
  "json_unquote s =
     (case s of [] \<Rightarrow> None
      | c # t \<Rightarrow>
        if c = CHR 0x22 then Some ([], t)
        else if c = CHR 0x5C then
          (case read_escape t of None \<Rightarrow> None
           | Some (u, t') \<Rightarrow> map_option (\<lambda>(v, r). (u @ v, r)) (json_unquote t'))
        else if ord c < 32 then None
        else let n = utf8_size s in
          if n = 0 then map_option (\<lambda>(v, r). (replacement @ v, r)) (json_unquote t)
          else map_option (\<lambda>(v, r). (take n s @ v, r)) (json_unquote (drop n s)))"
  by pat_completeness auto
termination
  by (relation "measure length") (auto dest: read_escape_length)

declare json_unquote.simps [simp del]

definition quoted :: "string \<Rightarrow> string" where
  "quoted s = [CHR 0x22] @ json_escape s @ [CHR 0x22]"

section \<open>The round trip of strings\<close>

lemma hex_value_digit: "d < 16 \<Longrightarrow> hex_value (hex_digit d) = Some d"
  by (simp add: hex_value_def hex_digit_def)

lemma read_hex4_hex4: "n < 65536 \<Longrightarrow> read_hex4 (hex4 n @ s) = Some (n, s)"
proof -
  assume n: "n < 65536"
  have m: "m mod 16 < 16" for m :: nat by simp
  have "4096 * (n div 4096 mod 16) + 256 * (n div 256 mod 16) + 16 * (n div 16 mod 16) + n mod 16 = n"
  proof -
    have "n div 256 = n div 16 div 16" by (simp add: div_mult2_eq[symmetric])
    moreover have "n div 4096 mod 16 = n div 16 div 16 div 16" using n by (simp add: div_mult2_eq[symmetric])
    moreover have "n = 16 * a + r \<Longrightarrow> a = 16 * b + s \<Longrightarrow> b = 16 * c + t \<Longrightarrow> 4096 * c + 256 * t + 16 * s + r = n"
      for a b c r s t by simp
    ultimately show ?thesis by (metis mult_div_mod_eq)
  qed
  then show ?thesis
    by (simp only: hex4_def append_Cons append_Nil read_hex4.simps hex_value_digit[OF m] option.case prod.case)
qed

lemma json_unquote_escape:
  assumes "read_escape t = Some (u, r)"
  shows "json_unquote (CHR 0x5C # t) = map_option (\<lambda>(v, r). (u @ v, r)) (json_unquote r)"
  using assms by (simp add: json_unquote.simps[of "CHR 0x5C # t"])

lemma unquote_escape_ascii:
  assumes "ord c < 128"
  shows "json_unquote (escape_ascii c @ s) = map_option (\<lambda>(v, r). (c # v, r)) (json_unquote s)"
proof -
  have u: "read_escape (CHR ''u'' # hex4 (ord c) @ s) = Some ([c], s)"
    using assms read_hex4_hex4[of "ord c" s] by (simp add: read_escape_def surrogate_def encode_rune_def)
  have e: "read_escape (e # s) = Some ([d], s)" if "map_of simple_escapes e = Some d" "e \<noteq> CHR ''u''" for e d
    using that by (simp add: read_escape_def)
  let ?named = "c = CHR 0x22 \<or> c = CHR 0x5C \<or> c = CHR 0x0A \<or> c = CHR 0x0D \<or> c = CHR 0x09"
  let ?coded = "ord c < 32 \<or> c \<in> {CHR ''<'', CHR ''>'', CHR ''&''}"
  consider "c = CHR 0x22 \<or> c = CHR 0x5C" | "c = CHR 0x0A" | "c = CHR 0x0D" | "c = CHR 0x09"
    | "\<not> ?named" "?coded" | "\<not> ?named" "\<not> ?coded" by blast
  then show ?thesis
  proof cases
    case 1
    then show ?thesis using json_unquote_escape[OF e, of c c] by (auto simp: escape_ascii_def simple_escapes_def)
  next
    case 2
    then show ?thesis using json_unquote_escape[OF e, of "CHR ''n''" c] by (simp add: escape_ascii_def simple_escapes_def)
  next
    case 3
    then show ?thesis using json_unquote_escape[OF e, of "CHR ''r''" c] by (simp add: escape_ascii_def simple_escapes_def)
  next
    case 4
    then show ?thesis using json_unquote_escape[OF e, of "CHR ''t''" c] by (simp add: escape_ascii_def simple_escapes_def)
  next
    case 5
    then have "escape_ascii c = [CHR 0x5C, CHR ''u''] @ hex4 (ord c)" by (auto simp: escape_ascii_def)
    then show ?thesis using json_unquote_escape[OF u] by simp
  next
    case 6
    then have "escape_ascii c = [c]" by (auto simp: escape_ascii_def)
    then show ?thesis using assms 6 by (simp add: json_unquote.simps[of "c # s"])
  qed
qed

lemma json_escape_ascii: "ord c < 128 \<Longrightarrow> json_escape (c # s) = escape_ascii c @ json_escape s"
  by (simp add: json_escape.simps[of "c # s"])

lemma utf8_size_high: "utf8_size (c # t) \<noteq> 0 \<Longrightarrow> 128 \<le> ord c \<Longrightarrow> 194 \<le> ord c"
  by (auto simp: utf8_size.simps split: if_splits)

text \<open>Quoting a valid string and reading it back gives the string, whatever follows.\<close>

lemma unquote_escape:
  "utf8_valid s \<Longrightarrow> json_unquote (json_escape s @ CHR 0x22 # r) = Some (s, r)"
proof (induction s rule: utf8_induct)
  case Nil
  then show ?case by (simp add: json_escape.simps[of "[]"] json_unquote.simps[of "_ # _"])
next
  case (Chunk u s)
  obtain c t where u: "u = c # t" using Chunk(1) by (cases u) auto
  show ?case
  proof (cases "ord c < 128")
    case True
    then have "t = []" using Chunk(2) u by simp
    then show ?thesis using Chunk(4) True u by (simp add: json_escape_ascii unquote_escape_ascii)
  next
    case False
    have size: "utf8_size (u @ v) = length u" for v using utf8_size_append[of u v] Chunk(1,2) by simp
    have hi: "194 \<le> ord c" using utf8_size_high[of c t] Chunk(1,2) False u by simp
    show ?thesis
    proof (cases "line_separator u")
      case True
      define k where "k = (if u = encode_rune 8232 then 8232 else 8233::nat)"
      have k: "encode_rune k = u" "\<not> surrogate k" "k < 65536"
        using True by (auto simp: k_def line_separator_def surrogate_def)
      have "json_escape (u @ s) = [CHR 0x5C, CHR ''u''] @ hex4 k @ json_escape s"
        using False size[of s] True u by (subst json_escape.simps) (auto simp: k_def)
      moreover have "read_escape (CHR ''u'' # hex4 k @ v) = Some (u, v)" for v
        using k by (simp add: read_escape_def read_hex4_hex4)
      ultimately show ?thesis using json_unquote_escape Chunk(4) by simp
    next
      case False
      then have "json_escape (u @ s) = u @ json_escape s"
        using \<open>\<not> ord c < 128\<close> size[of s] u by (subst json_escape.simps) (auto simp: Let_def)
      moreover have "json_unquote (u @ v) = map_option (\<lambda>(w, r). (u @ w, r)) (json_unquote v)" for v
        using hi size[of v] u by (subst json_unquote.simps) (auto simp: Let_def)
      ultimately show ?thesis using Chunk(4) by simp
    qed
  qed
qed

section \<open>Values\<close>

text \<open>A number is kept as its literal; an object keeps the order of its members.\<close>

datatype jvalue =
    JNull
  | JBool bool
  | JNum string
  | JStr string
  | JArr "jvalue list"
  | JObj "(string \<times> jvalue) list"

fun json_print :: "jvalue \<Rightarrow> string"
  and json_print_elems :: "jvalue list \<Rightarrow> string"
  and json_print_members :: "(string \<times> jvalue) list \<Rightarrow> string" where
  "json_print JNull = ''null''"
| "json_print (JBool b) = (if b then ''true'' else ''false'')"
| "json_print (JNum n) = n"
| "json_print (JStr s) = quoted s"
| "json_print (JArr vs) = ''['' @ (if vs = [] then [] else json_print_elems vs) @ '']''"
| "json_print (JObj ms) = ''{'' @ (if ms = [] then [] else json_print_members ms) @ ''}''"
| "json_print_elems [] = []"
| "json_print_elems (v # vs) = json_print v @ (if vs = [] then [] else '','' @ json_print_elems vs)"
| "json_print_members [] = []"
| "json_print_members ((k, v) # ms) =
     quoted k @ '':'' @ json_print v @ (if ms = [] then [] else '','' @ json_print_members ms)"

section \<open>The parser\<close>

fun skip_space :: "string \<Rightarrow> string" where
  "skip_space [] = []"
| "skip_space (c # s) = (if c \<in> {CHR '' '', CHR 0x09, CHR 0x0A, CHR 0x0D} then skip_space s else c # s)"

text \<open>Optional sign, integer part without a leading zero, optional fraction and exponent.\<close>

definition number_frac :: "string \<Rightarrow> (string \<times> string) option" where
  "number_frac s =
     (case s of c # t \<Rightarrow>
        if c = CHR ''.'' then
          (let ds = takeWhile is_digit t in if ds = [] then None else Some (c # ds, dropWhile is_digit t))
        else Some ([], s)
      | [] \<Rightarrow> Some ([], []))"

definition number_exp :: "string \<Rightarrow> (string \<times> string) option" where
  "number_exp s =
     (case s of c # t \<Rightarrow>
        if c = CHR ''e'' \<or> c = CHR ''E'' then
          (let (sg, u) = (case t of d # u \<Rightarrow> if d = CHR ''+'' \<or> d = CHR ''-'' then ([d], u) else ([], t) | [] \<Rightarrow> ([], []));
               ds = takeWhile is_digit u
           in if ds = [] then None else Some (c # sg @ ds, dropWhile is_digit u))
        else Some ([], s)
      | [] \<Rightarrow> Some ([], []))"

definition number_int :: "string \<Rightarrow> (string \<times> string) option" where
  "number_int s =
     (let (sg, t) = (case s of c # t \<Rightarrow> if c = CHR ''-'' then ([c], t) else ([], s) | [] \<Rightarrow> ([], []));
          ds = takeWhile is_digit t
      in if ds = [] then None
         else if hd ds = CHR ''0'' then Some (sg @ [hd ds], tl t)
         else Some (sg @ ds, dropWhile is_digit t))"

definition json_number :: "string \<Rightarrow> (string \<times> string) option" where
  "json_number s =
     (case number_int s of None \<Rightarrow> None | Some (i, s) \<Rightarrow>
     (case number_frac s of None \<Rightarrow> None | Some (f, s) \<Rightarrow>
     (case number_exp s of None \<Rightarrow> None | Some (e, s) \<Rightarrow> Some (i @ f @ e, s))))"

definition json_word :: "string \<Rightarrow> (jvalue \<times> string) option" where
  "json_word s =
     (if prefix ''null'' s then Some (JNull, drop 4 s)
      else if prefix ''true'' s then Some (JBool True, drop 4 s)
      else if prefix ''false'' s then Some (JBool False, drop 5 s)
      else map_option (\<lambda>(n, r). (JNum n, r)) (json_number s))"

text \<open>A value, the elements of an array and the members of an object, with the text after them.
  The guards on the length always hold; they make the recursion terminate.\<close>

definition shorter :: "string \<Rightarrow> ('a \<times> string) option \<Rightarrow> ('a \<times> string) option" where
  "shorter s r = (case r of Some (x, t) \<Rightarrow> if length t < length s then r else None | None \<Rightarrow> None)"

function json_value :: "string \<Rightarrow> (jvalue \<times> string) option"
  and json_elems :: "string \<Rightarrow> (jvalue list \<times> string) option"
  and json_members :: "string \<Rightarrow> ((string \<times> jvalue) list \<times> string) option" where
  "json_value s =
     (case skip_space s of [] \<Rightarrow> None
      | c # t \<Rightarrow>
        if length s < length (c # t) then None
        else if c = CHR ''['' then
          (case skip_space t of d # r \<Rightarrow> if d = CHR '']'' then Some (JArr [], r)
               else map_option (\<lambda>(vs, r). (JArr vs, r)) (json_elems t)
           | [] \<Rightarrow> None)
        else if c = CHR ''{'' then
          (case skip_space t of d # r \<Rightarrow> if d = CHR ''}'' then Some (JObj [], r)
               else map_option (\<lambda>(ms, r). (JObj ms, r)) (json_members t)
           | [] \<Rightarrow> None)
        else if c = CHR 0x22 then map_option (\<lambda>(v, r). (JStr v, r)) (json_unquote t)
        else json_word (c # t))"
| "json_elems s =
     (case shorter s (json_value s) of None \<Rightarrow> None
      | Some (v, t) \<Rightarrow>
        (case shorter s (Some (v, skip_space t)) of Some (_, c # r) \<Rightarrow>
           if c = CHR '']'' then Some ([v], r)
           else if c = CHR '','' then map_option (\<lambda>(vs, r). (v # vs, r)) (json_elems r)
           else None
         | _ \<Rightarrow> None))"
| "json_members s =
     (case skip_space s of [] \<Rightarrow> None
      | q # t \<Rightarrow>
        if q \<noteq> CHR 0x22 then None
        else (case shorter s (json_unquote t) of None \<Rightarrow> None
         | Some (k, t) \<Rightarrow>
           (case shorter s (Some (k, skip_space t)) of Some (_, d # u) \<Rightarrow>
              if d \<noteq> CHR '':'' then None
              else (case shorter s (json_value u) of None \<Rightarrow> None
               | Some (v, w) \<Rightarrow>
                 (case shorter s (Some (v, skip_space w)) of Some (_, c # r) \<Rightarrow>
                    if c = CHR ''}'' then Some ([(k, v)], r)
                    else if c = CHR '','' then map_option (\<lambda>(ms, r). ((k, v) # ms, r)) (json_members r)
                    else None
                  | _ \<Rightarrow> None))
            | _ \<Rightarrow> None)))"
  by pat_completeness auto
termination
  by (relation "measure (\<lambda>x. case x of Inl s \<Rightarrow> 2 * length s | Inr (Inl s) \<Rightarrow> 2 * length s + 1 | Inr (Inr s) \<Rightarrow> 2 * length s + 1)")
    (auto simp: shorter_def split: option.splits if_splits, metis Suc_lessD length_Cons)

declare json_value.simps [simp del] json_elems.simps [simp del] json_members.simps [simp del]

definition json_parse :: "string \<Rightarrow> jvalue option" where
  "json_parse s =
     (case json_value s of Some (v, r) \<Rightarrow> if skip_space r = [] then Some v else None | None \<Rightarrow> None)"

end
