(* ===== verification/JSON_Round.thy ===== *)
theory JSON_Round
  imports JSON
begin

text \<open>
  Parsing what was printed: for values with valid strings and integer numbers, the parser of
  the theory JSON reads the printed text back, whatever delimiter follows it.
\<close>

section \<open>Numbers\<close>

lemma nat_to_dec_head: "hd (nat_to_dec n) = CHR ''0'' \<longleftrightarrow> n = 0"
proof (induction n rule: nat_to_dec.induct)
  case (1 n)
  have d: "digit k = CHR ''0'' \<longleftrightarrow> k = 0" if "k < 10" for k
  proof
    assume "digit k = CHR ''0''"
    then have "(48 + k :: nat) = of_char (CHR ''0'')" using of_char_digit[OF that] by simp
    then show "k = 0" by simp
  next
    have "of_char (CHR ''0'') = (48::nat)" by simp
    then have "char_of (48::nat) = CHR ''0''" by (metis char_of_char)
    then show "k = 0 \<Longrightarrow> digit k = CHR ''0''" by (simp add: digit_def)
  qed
  show ?case
  proof (cases "n < 10")
    case True
    then show ?thesis using d by (subst nat_to_dec.simps) simp
  next
    case False
    then have "n div 10 \<noteq> 0" "hd (nat_to_dec n) = hd (nat_to_dec (n div 10))"
      by (simp_all add: nat_to_dec.simps[of n] hd_append)
    then show ?thesis using 1 False by simp
  qed
qed

definition delimited :: "string \<Rightarrow> bool" where
  "delimited r \<longleftrightarrow> r = [] \<or> hd r \<in> {CHR '','', CHR '']'', CHR ''}''}"

lemma takeWhile_digits:
  assumes "delimited r"
  shows "takeWhile is_digit (nat_to_dec n @ r) = nat_to_dec n" "dropWhile is_digit (nat_to_dec n @ r) = r"
proof -
  have "r = [] \<or> \<not> is_digit (hd r)" using assms by (auto simp: delimited_def is_digit_def)
  moreover have "\<forall>c \<in> set (nat_to_dec n). is_digit c" using nat_to_dec_no_sign by blast
  ultimately show "takeWhile is_digit (nat_to_dec n @ r) = nat_to_dec n" "dropWhile is_digit (nat_to_dec n @ r) = r"
    by (cases r; simp add: takeWhile_append dropWhile_append)+
qed

lemma number_int_nat:
  assumes "delimited r"
  shows "number_int (nat_to_dec n @ r) = Some (nat_to_dec n, r)"
    and "number_int (CHR ''-'' # nat_to_dec n @ r) = Some (CHR ''-'' # nat_to_dec n, r)"
proof -
  obtain c ds where ds: "nat_to_dec n = c # ds" by (cases "nat_to_dec n") auto
  then have c: "c \<noteq> CHR ''-''" using nat_to_dec_no_sign[of c n] is_digit_no_sign by simp
  have zero: "c = CHR ''0'' \<Longrightarrow> ds = []"
    using nat_to_dec_head[of n] ds nat_to_dec.simps[of 0] by simp
  note tw = takeWhile_digits[OF assms, of n, unfolded ds append_Cons]
  show "number_int (nat_to_dec n @ r) = Some (nat_to_dec n, r)"
    using c zero tw by (auto simp: number_int_def ds Let_def split: if_splits)
  show "number_int (CHR ''-'' # nat_to_dec n @ r) = Some (CHR ''-'' # nat_to_dec n, r)"
    using zero tw by (auto simp: number_int_def ds Let_def split: if_splits)
qed

lemma json_number_Itoa:
  assumes "delimited r"
  shows "json_number (Itoa i @ r) = Some (Itoa i, r)"
proof -
  have "number_frac r = Some ([], r)" "number_exp r = Some ([], r)"
    using assms by (cases r; auto simp: delimited_def number_frac_def number_exp_def)+
  then show ?thesis using number_int_nat[OF assms] by (simp add: json_number_def Itoa_def)
qed

lemma Itoa_head: "\<exists>c t. Itoa i = c # t \<and> (is_digit c \<or> c = CHR ''-'')"
proof -
  obtain c ds where "nat_to_dec (nat i) = c # ds" by (cases "nat_to_dec (nat i)") auto
  then show ?thesis using nat_to_dec_no_sign[of c "nat i"] by (auto simp: Itoa_def)
qed

lemma json_word_Itoa: "delimited r \<Longrightarrow> json_word (Itoa i @ r) = Some (JNum (Itoa i), r)"
proof -
  assume r: "delimited r"
  obtain c t where "Itoa i = c # t" "is_digit c \<or> c = CHR ''-''" using Itoa_head by blast
  then have "\<not> prefix (CHR ''n'' # u) (Itoa i @ r)" "\<not> prefix (CHR ''t'' # u) (Itoa i @ r)"
    "\<not> prefix (CHR ''f'' # u) (Itoa i @ r)" for u
    by (auto simp: is_digit_def)
  then show ?thesis using json_number_Itoa[OF r] by (simp add: json_word_def)
qed

section \<open>Values\<close>

fun good :: "jvalue \<Rightarrow> bool" where
  "good (JNum n) \<longleftrightarrow> (\<exists>i. n = Itoa i)"
| "good (JStr s) \<longleftrightarrow> utf8_valid s"
| "good (JArr vs) \<longleftrightarrow> (\<forall>v \<in> set vs. good v)"
| "good (JObj ms) \<longleftrightarrow> (\<forall>m \<in> set ms. utf8_valid (fst m) \<and> good (snd m))"
| "good _ \<longleftrightarrow> True"

definition solid :: "char \<Rightarrow> bool" where
  "solid c \<longleftrightarrow> c \<notin> {CHR '' '', CHR 0x09, CHR 0x0A, CHR 0x0D, CHR '']'', CHR ''}''}"

lemma skip_solid: "solid c \<Longrightarrow> skip_space (c # s) = c # s"
  by (simp add: solid_def)

lemma json_print_head: "good v \<Longrightarrow> \<exists>c t. json_print v = c # t \<and> solid c"
proof (cases v)
  case (JNum n)
  assume "good v"
  then obtain i where "n = Itoa i" using JNum by auto
  moreover obtain c t where "Itoa i = c # t" "is_digit c \<or> c = CHR ''-''" using Itoa_head by blast
  moreover then have "solid c" by (auto simp: solid_def is_digit_def)
  ultimately show ?thesis using JNum by simp
qed (simp_all add: quoted_def solid_def)

lemma skip_print: "good v \<Longrightarrow> skip_space (json_print v @ r) = json_print v @ r"
  using json_print_head[of v] skip_solid by fastforce

lemma json_value_scalar:
  "json_value (quoted s @ r) = map_option (\<lambda>(v, r). (JStr v, r)) (json_unquote (json_escape s @ CHR 0x22 # r))"
  "delimited r \<Longrightarrow> json_value (Itoa i @ r) = Some (JNum (Itoa i), r)"
  "json_value (''null'' @ r) = Some (JNull, r)"
  "json_value (''true'' @ r) = Some (JBool True, r)"
  "json_value (''false'' @ r) = Some (JBool False, r)"
proof -
  show "json_value (quoted s @ r) = map_option (\<lambda>(v, r). (JStr v, r)) (json_unquote (json_escape s @ CHR 0x22 # r))"
    by (simp add: quoted_def json_value.simps[of "_ # _"])
  assume r: "delimited r"
  obtain c t where "Itoa i = c # t" "is_digit c \<or> c = CHR ''-''" using Itoa_head by blast
  then show "json_value (Itoa i @ r) = Some (JNum (Itoa i), r)"
    using json_word_Itoa[OF r, of i] by (auto simp: json_value.simps[of "_ # _"] is_digit_def)
qed (simp_all add: json_value.simps[of "_ # _"] json_word_def)

lemma shorter_tail: "length t < length s \<Longrightarrow> shorter s (Some (x, t)) = Some (x, t)"
  by (simp add: shorter_def)

lemma print_members_head: "ms \<noteq> [] \<Longrightarrow> \<exists>t. json_print_members ms = CHR 0x22 # t"
  by (cases ms) (auto simp: quoted_def)

lemma print_elems_head: "vs \<noteq> [] \<Longrightarrow> good (hd vs) \<Longrightarrow> \<exists>c t. json_print_elems vs = c # t \<and> solid c"
  using json_print_head[of "hd vs"] by (cases vs) auto

lemma json_parse_print_aux:
  "good v \<Longrightarrow> delimited r \<Longrightarrow> json_value (json_print v @ r) = Some (v, r)"
  "\<forall>v \<in> set vs. good v \<Longrightarrow> vs \<noteq> [] \<Longrightarrow> json_elems (json_print_elems vs @ CHR '']'' # r) = Some (vs, r)"
  "\<forall>m \<in> set ms. utf8_valid (fst m) \<and> good (snd m) \<Longrightarrow> ms \<noteq> [] \<Longrightarrow>
    json_members (json_print_members ms @ CHR ''}'' # r) = Some (ms, r)"
proof (induction v and vs and ms arbitrary: r and r and r
    rule: json_print_json_print_elems_json_print_members.induct)
  case 1
  show ?case using json_value_scalar(3) by simp
next
  case (2 b)
  show ?case using json_value_scalar(4,5) by (cases b) simp_all
next
  case (3 n)
  then show ?case using json_value_scalar(2) by auto
next
  case (4 s)
  then show ?case using json_value_scalar(1)[of s r] unquote_escape[of s r] by simp
next
  case (5 vs)
  show ?case
  proof (cases "vs = []")
    case False
    then obtain c t where c: "json_print_elems vs = c # t" "solid c"
      using print_elems_head[of vs] "5.prems"(1) by (cases vs) auto
    have "json_elems (c # t @ CHR '']'' # r) = Some (vs, r)" using "5.IH"[OF False, of r] "5.prems"(1) False c by simp
    then show ?thesis
      using False c by (simp add: json_value.simps[of "_ # _"] skip_solid) (simp add: solid_def)
  qed (simp add: json_value.simps[of "_ # _"])
next
  case (6 ms)
  show ?case
  proof (cases "ms = []")
    case False
    then obtain t where c: "json_print_members ms = CHR 0x22 # t" using print_members_head by blast
    have "json_members (CHR 0x22 # t @ CHR ''}'' # r) = Some (ms, r)" using "6.IH"[OF False, of r] "6.prems"(1) False c by simp
    then show ?thesis using False c by (simp add: json_value.simps[of "_ # _"])
  qed (simp add: json_value.simps[of "_ # _"])
next
  case 7
  then show ?case by simp
next
  case (8 v vs)
  show ?case
  proof (cases "vs = []")
    case True
    have "json_value (json_print v @ CHR '']'' # r) = Some (v, CHR '']'' # r)"
      using "8.IH"(1) "8.prems" by (simp add: delimited_def)
    moreover obtain c t where "json_print v = c # t" using json_print_head[of v] "8.prems" by auto
    ultimately show ?thesis using True by (simp add: json_elems.simps shorter_tail)
  next
    case False
    let ?s = "json_print_elems vs @ CHR '']'' # r"
    have "json_value (json_print v @ CHR '','' # ?s) = Some (v, CHR '','' # ?s)"
      using "8.IH"(1) "8.prems" by (simp add: delimited_def)
    moreover obtain c t where "json_print v = c # t" using json_print_head[of v] "8.prems" by auto
    moreover have "json_elems ?s = Some (vs, r)" using "8.IH"(2)[OF False] "8.prems" False by simp
    ultimately show ?thesis using False by (simp add: json_elems.simps[of "_ # _"] shorter_tail)
  qed
next
  case 9
  then show ?case by simp
next
  case (10 k v ms)
  have k: "json_unquote (json_escape k @ CHR 0x22 # u) = Some (k, u)" for u
    using unquote_escape[of k u] "10.prems" by simp
  show ?case
  proof (cases "ms = []")
    case True
    have "json_value (json_print v @ CHR ''}'' # r) = Some (v, CHR ''}'' # r)"
      using "10.IH"(1) "10.prems" by (simp add: delimited_def)
    then show ?thesis using True k
      by (simp add: json_members.simps[of "_ # _"] quoted_def shorter_tail)
  next
    case False
    let ?s = "json_print_members ms @ CHR ''}'' # r"
    have "json_value (json_print v @ CHR '','' # ?s) = Some (v, CHR '','' # ?s)"
      using "10.IH"(1) "10.prems" by (simp add: delimited_def)
    moreover have "json_members ?s = Some (ms, r)" using "10.IH"(2)[OF False] "10.prems" False by simp
    ultimately show ?thesis using False k
      by (simp add: json_members.simps[of "_ # _"] quoted_def shorter_tail)
  qed
qed

lemma json_parse_print: "good v \<Longrightarrow> json_parse (json_print v) = Some v"
  using json_parse_print_aux(1)[of v "[]"] by (simp add: json_parse_def delimited_def)

end
