(* ===== verification/Wire.thy ===== *)
theory Wire
  imports JSON_Round
begin

text \<open>
  What goes over the wire: the structs \<open>Msg\<close>, \<open>MsgWrap\<close> and \<open>LastMessage\<close> that server.go and
  mtsnclient.go both declare, their JSON text by the field tags, the rules by which a JSON
  value is stored into them, and the timestamps of messages.
\<close>

section \<open>The structs\<close>

record Msg =
  Iv :: string
  Message :: string

text \<open>A time is the number of seconds since 1970, in UTC.\<close>

record MsgWrap =
  Content :: Msg
  Timestamp :: string
  Time :: int
  Id :: int

record LastMessage =
  lastMessage :: int

abbreviation zero_Msg :: Msg where "zero_Msg \<equiv> \<lparr>Iv = [], Message = []\<rparr>"

abbreviation zero_MsgWrap :: MsgWrap where
  "zero_MsgWrap \<equiv> \<lparr>Content = zero_Msg, Timestamp = [], Time = 0, Id = 0\<rparr>"

section \<open>Marshal\<close>

definition msg_json :: "Msg \<Rightarrow> jvalue" where
  "msg_json m =
     JObj ((if Iv m = [] then [] else [(''iv'', JStr (Iv m))]) @ [(''message'', JStr (Message m))])"

definition msgwrap_json :: "MsgWrap \<Rightarrow> jvalue" where
  "msgwrap_json w =
     JObj [(''content'', msg_json (Content w)), (''timestamp'', JStr (Timestamp w)), (''Id'', JNum (Itoa (Id w)))]"

definition Marshal_Msg :: "Msg \<Rightarrow> string" where
  "Marshal_Msg m = json_print (msg_json m)"

text \<open>A slice without elements is nil here, and nil is marshalled as null.\<close>

definition Marshal_MsgWraps :: "MsgWrap list \<Rightarrow> string" where
  "Marshal_MsgWraps ws = (if ws = [] then ''null'' else json_print (JArr (map msgwrap_json ws)))"

definition Marshal_LastMessage :: "LastMessage \<Rightarrow> string" where
  "Marshal_LastMessage l = json_print (JObj [(''lastMessage'', JNum (Itoa (lastMessage l)))])"

section \<open>Unmarshal\<close>

text \<open>Keys match field names up to case. Two letters beyond ASCII fold to ASCII ones: the long s
  and the Kelvin sign.\<close>

definition lower :: "char \<Rightarrow> char" where
  "lower c = (if 65 \<le> ord c \<and> ord c \<le> 90 then char_of (ord c + 32) else c)"

function fold_key :: "string \<Rightarrow> string" where
  "fold_key s =
     (case s of [] \<Rightarrow> []
      | c # t \<Rightarrow>
        if prefix (encode_rune 383) s then CHR ''s'' # fold_key (drop 2 s)
        else if prefix (encode_rune 8490) s then CHR ''k'' # fold_key (drop 3 s)
        else lower c # fold_key t)"
  by pat_completeness auto
termination
  by (relation "measure length") auto

declare fold_key.simps [simp del]

definition names :: "string \<Rightarrow> string \<Rightarrow> bool" where
  "names key field \<longleftrightarrow> fold_key key = fold_key field"

text \<open>A value of the wrong type leaves the target as it is and is reported at the end; null has no
  effect. The Boolean says that there was no error so far.\<close>

definition decode_string :: "jvalue \<Rightarrow> string \<Rightarrow> string \<times> bool" where
  "decode_string v old = (case v of JStr s \<Rightarrow> (s, True) | JNull \<Rightarrow> (old, True) | _ \<Rightarrow> (old, False))"

definition decode_int :: "jvalue \<Rightarrow> int \<Rightarrow> int \<times> bool" where
  "decode_int v old =
     (case v of JNum n \<Rightarrow> (case Atoi n of (i, ok) \<Rightarrow> if ok then (i, True) else (old, False))
      | JNull \<Rightarrow> (old, True) | _ \<Rightarrow> (old, False))"

definition decode_object :: "(string \<Rightarrow> jvalue \<Rightarrow> 'a \<Rightarrow> 'a \<times> bool) \<Rightarrow> jvalue \<Rightarrow> 'a \<Rightarrow> 'a \<times> bool" where
  "decode_object set_field v x =
     (case v of
        JObj ms \<Rightarrow> foldl (\<lambda>(x, ok) (k, v). case set_field k v x of (x', ok') \<Rightarrow> (x', ok \<and> ok')) (x, True) ms
      | JNull \<Rightarrow> (x, True) | _ \<Rightarrow> (x, False))"

definition set_Msg :: "string \<Rightarrow> jvalue \<Rightarrow> Msg \<Rightarrow> Msg \<times> bool" where
  "set_Msg k v m =
     (if names k ''iv'' then (case decode_string v (Iv m) of (s, ok) \<Rightarrow> (m\<lparr>Iv := s\<rparr>, ok))
      else if names k ''message'' then (case decode_string v (Message m) of (s, ok) \<Rightarrow> (m\<lparr>Message := s\<rparr>, ok))
      else (m, True))"

definition set_MsgWrap :: "string \<Rightarrow> jvalue \<Rightarrow> MsgWrap \<Rightarrow> MsgWrap \<times> bool" where
  "set_MsgWrap k v w =
     (if names k ''content'' then (case decode_object set_Msg v (Content w) of (m, ok) \<Rightarrow> (w\<lparr>Content := m\<rparr>, ok))
      else if names k ''timestamp'' then (case decode_string v (Timestamp w) of (s, ok) \<Rightarrow> (w\<lparr>Timestamp := s\<rparr>, ok))
      else if names k ''Id'' then (case decode_int v (Id w) of (i, ok) \<Rightarrow> (w\<lparr>Id := i\<rparr>, ok))
      else (w, True))"

definition set_LastMessage :: "string \<Rightarrow> jvalue \<Rightarrow> LastMessage \<Rightarrow> LastMessage \<times> bool" where
  "set_LastMessage k v l =
     (if names k ''lastMessage'' then (case decode_int v (lastMessage l) of (i, ok) \<Rightarrow> (l\<lparr>lastMessage := i\<rparr>, ok))
      else (l, True))"

text \<open>The elements of an array are decoded into zero values.\<close>

definition decode_list :: "(jvalue \<Rightarrow> 'a \<Rightarrow> 'a \<times> bool) \<Rightarrow> 'a \<Rightarrow> jvalue \<Rightarrow> 'a list \<Rightarrow> 'a list \<times> bool" where
  "decode_list dec zero v old =
     (case v of
        JArr vs \<Rightarrow> (map (\<lambda>v. fst (dec v zero)) vs, list_all (\<lambda>v. snd (dec v zero)) vs)
      | JNull \<Rightarrow> ([], True) | _ \<Rightarrow> (old, False))"

definition Unmarshal :: "(jvalue \<Rightarrow> 'a \<Rightarrow> 'a \<times> bool) \<Rightarrow> string \<Rightarrow> 'a \<Rightarrow> 'a \<times> bool" where
  "Unmarshal dec s x = (case json_parse s of None \<Rightarrow> (x, False) | Some v \<Rightarrow> dec v x)"

definition Unmarshal_Msg :: "string \<Rightarrow> Msg \<Rightarrow> Msg \<times> bool" where
  "Unmarshal_Msg = Unmarshal (decode_object set_Msg)"

definition Unmarshal_LastMessage :: "string \<Rightarrow> LastMessage \<Rightarrow> LastMessage \<times> bool" where
  "Unmarshal_LastMessage = Unmarshal (decode_object set_LastMessage)"

definition Unmarshal_MsgWraps :: "string \<Rightarrow> MsgWrap list \<Rightarrow> MsgWrap list \<times> bool" where
  "Unmarshal_MsgWraps = Unmarshal (decode_list (decode_object set_MsgWrap) zero_MsgWrap)"

section \<open>Round trips\<close>

definition msg_ok :: "Msg \<Rightarrow> bool" where
  "msg_ok m \<longleftrightarrow> utf8_valid (Iv m) \<and> utf8_valid (Message m)"

lemma lower_small: "ord c < 65 \<or> 90 < ord c \<Longrightarrow> lower c = c"
  by (auto simp: lower_def)

lemma fold_key_ascii: "ord c < 128 \<Longrightarrow> fold_key (c # s) = lower c # fold_key s"
  by (auto simp: fold_key.simps[of "c # s"] encode_rune_def)

lemma fold_key_Nil [simp]: "fold_key [] = []"
  by (simp add: fold_key.simps)

lemma lower_I [simp]: "lower (CHR ''I'') = CHR ''i''" and lower_M [simp]: "lower (CHR ''M'') = CHR ''m''"
  by (simp_all add: lower_def char_of_def bit_Suc_0_iff)

lemmas fold_names = names_def fold_key_ascii lower_small

lemma names_field [simp]:
  "names ''iv'' ''iv''" "\<not> names ''message'' ''iv''" "names ''message'' ''message''" "names ''content'' ''content''"
  "\<not> names ''timestamp'' ''content''" "names ''timestamp'' ''timestamp''" "\<not> names ''Id'' ''content''"
  "\<not> names ''Id'' ''timestamp''" "names ''Id'' ''Id''" "names ''lastMessage'' ''lastMessage''"
  by (simp_all add: fold_names)

lemma utf8_valid_field [simp]:
  "utf8_valid ''iv''" "utf8_valid ''message''" "utf8_valid ''content''" "utf8_valid ''timestamp''"
  "utf8_valid ''Id''" "utf8_valid ''lastMessage''"
  by (simp_all add: utf8_valid_ascii)

lemma good_msg_json: "good (msg_json m) \<longleftrightarrow> msg_ok m"
  by (auto simp: msg_json_def msg_ok_def)

lemma decode_msg_json: "decode_object set_Msg (msg_json m) zero_Msg = (m, True)"
  by (simp add: decode_object_def msg_json_def set_Msg_def decode_string_def)

lemma Unmarshal_Marshal_Msg: "msg_ok m \<Longrightarrow> Unmarshal_Msg (Marshal_Msg m) zero_Msg = (m, True)"
  using json_parse_print[of "msg_json m"]
  by (simp add: Unmarshal_Msg_def Unmarshal_def Marshal_Msg_def good_msg_json decode_msg_json)

lemma Unmarshal_Marshal_LastMessage:
  assumes "minInt \<le> lastMessage l" "lastMessage l \<le> maxInt"
  shows "Unmarshal_LastMessage (Marshal_LastMessage l) x = (l, True)"
proof -
  have "good (JObj [(''lastMessage'', JNum (Itoa (lastMessage l)))])" by auto
  from json_parse_print[OF this] show ?thesis
    by (simp add: Unmarshal_LastMessage_def Unmarshal_def Marshal_LastMessage_def decode_object_def
        set_LastMessage_def decode_int_def Atoi_Itoa[OF assms])
qed

definition msgwrap_ok :: "MsgWrap \<Rightarrow> bool" where
  "msgwrap_ok w \<longleftrightarrow> msg_ok (Content w) \<and> utf8_valid (Timestamp w) \<and> minInt \<le> Id w \<and> Id w \<le> maxInt"

text \<open>The time is not sent (its tag is \<open>-\<close>), the rest comes back.\<close>

lemma Unmarshal_Marshal_MsgWraps:
  assumes "\<forall>w \<in> set ws. msgwrap_ok w"
  shows "Unmarshal_MsgWraps (Marshal_MsgWraps ws) [] = (map (\<lambda>w. w\<lparr>Time := 0\<rparr>) ws, True)"
proof -
  have one: "decode_object set_MsgWrap (msgwrap_json w) zero_MsgWrap = (w\<lparr>Time := 0\<rparr>, True)" if "msgwrap_ok w" for w
    using that Atoi_Itoa[of "Id w"]
    by (simp add: decode_object_def msgwrap_json_def set_MsgWrap_def decode_string_def decode_int_def
        decode_msg_json[unfolded decode_object_def] msgwrap_ok_def)
  show ?thesis
  proof (cases "ws = []")
    case True
    have "json_parse ''null'' = Some JNull" using json_parse_print[of JNull] by simp
    then show ?thesis using True by (simp add: Unmarshal_MsgWraps_def Unmarshal_def Marshal_MsgWraps_def decode_list_def)
  next
    case False
    have "good (JArr (map msgwrap_json ws))"
      using assms by (auto simp: msgwrap_json_def good_msg_json msgwrap_ok_def)
    from json_parse_print[OF this] show ?thesis
      using False assms one
      by (simp add: Unmarshal_MsgWraps_def Unmarshal_def Marshal_MsgWraps_def decode_list_def list_all_iff)
  qed
qed

section \<open>Timestamps\<close>

text \<open>The civil date of a day counted from 1970-01-01, in the proleptic Gregorian calendar.\<close>

definition civil :: "int \<Rightarrow> int \<times> int \<times> int" where
  "civil days =
     (let z = days + 719468; era = z div 146097; doe = z mod 146097;
          yoe = (doe - doe div 1460 + doe div 36524 - doe div 146096) div 365;
          doy = doe - (365 * yoe + yoe div 4 - yoe div 100);
          mp = (5 * doy + 2) div 153;
          d = doy - (153 * mp + 2) div 5 + 1;
          m = (if mp < 10 then mp + 3 else mp - 9)
      in (yoe + era * 400 + (if m \<le> 2 then 1 else 0), m, d))"

definition weekdays :: "string list" where
  "weekdays = [''Sun'', ''Mon'', ''Tue'', ''Wed'', ''Thu'', ''Fri'', ''Sat'']"

definition months :: "string list" where
  "months = [''Jan'', ''Feb'', ''Mar'', ''Apr'', ''May'', ''Jun'', ''Jul'', ''Aug'', ''Sep'', ''Oct'', ''Nov'', ''Dec'']"

definition nth_name :: "string list \<Rightarrow> int \<Rightarrow> string" where
  "nth_name ns i = (case drop (nat i) ns of [] \<Rightarrow> [] | n # _ \<Rightarrow> n)"

definition padded :: "nat \<Rightarrow> int \<Rightarrow> string" where
  "padded w i = (let s = Itoa i in replicate (w - length s) (CHR ''0'') @ s)"

text \<open>\<open>t.UTC().Format(time.RFC1123)\<close>.\<close>

definition Format_RFC1123 :: "int \<Rightarrow> string" where
  "Format_RFC1123 t =
     (let days = t div 86400; s = t mod 86400; (y, m, d) = civil days in
      nth_name weekdays ((days + 4) mod 7) @ '', '' @ padded 2 d @ '' '' @ nth_name months (m - 1) @ '' '' @ padded 4 y @ '' '' @
      padded 2 (s div 3600) @ '':'' @ padded 2 (s div 60 mod 60) @ '':'' @ padded 2 (s mod 60) @ '' UTC'')"

text \<open>\<open>strings.Replace\<close> of every occurrence.\<close>

function strings_Replace :: "string \<Rightarrow> string \<Rightarrow> string \<Rightarrow> string" where
  "strings_Replace s old new =
     (case s of [] \<Rightarrow> []
      | c # t \<Rightarrow> if old \<noteq> [] \<and> prefix old s then new @ strings_Replace (drop (length old) s) old new
                 else c # strings_Replace t old new)"
  by pat_completeness auto
termination
  by (relation "measure (\<lambda>(s, old, new). length s)") auto

declare strings_Replace.simps [simp del]

definition timestamp :: "int \<Rightarrow> string" where
  "timestamp t = strings_Replace (Format_RFC1123 t) ''UTC'' ''GMT''"

text \<open>Timestamps are plain text.\<close>

definition ascii :: "string \<Rightarrow> bool" where
  "ascii s \<longleftrightarrow> list_all (\<lambda>c. ord c < 128) s"

lemma ascii_append [simp]: "ascii (s @ t) \<longleftrightarrow> ascii s \<and> ascii t" and ascii_Nil [simp]: "ascii []"
  by (simp_all add: ascii_def)

lemma ascii_Cons: "ascii (c # s) \<longleftrightarrow> ord c < 128 \<and> ascii s"
  by (simp add: ascii_def)

lemma utf8_valid_plain: "ascii s \<Longrightarrow> utf8_valid s"
  by (induction s) (simp_all add: ascii_Cons utf8_valid_ascii)

lemma ascii_digits: "ascii (nat_to_dec n)"
  using nat_to_dec_no_sign by (fastforce simp: ascii_def list_all_iff is_digit_def)

lemma ascii_Itoa: "ascii (Itoa i)"
  by (simp add: Itoa_def ascii_digits ascii_Cons)

lemma ascii_padded: "ascii (padded w i)"
  by (simp add: padded_def Let_def ascii_Itoa) (simp add: ascii_def list_all_iff)

lemma ascii_nth_name: "\<forall>n \<in> set ns. ascii n \<Longrightarrow> ascii (nth_name ns i)"
proof -
  assume a: "\<forall>n \<in> set ns. ascii n"
  show ?thesis
  proof (cases "drop (nat i) ns")
    case (Cons n ms)
    then have "n \<in> set ns" by (metis in_set_dropD list.set_intros(1))
    then show ?thesis using a Cons by (simp add: nth_name_def)
  qed (simp add: nth_name_def)
qed

lemma ascii_Format: "ascii (Format_RFC1123 t)"
proof -
  have "\<forall>n \<in> set weekdays. ascii n" "\<forall>n \<in> set months. ascii n"
    by (simp_all add: weekdays_def months_def ascii_Cons)
  then show ?thesis
    by (simp add: Format_RFC1123_def Let_def ascii_nth_name ascii_padded ascii_Cons split: prod.splits)
qed

lemma ascii_Replace: "ascii s \<Longrightarrow> ascii new \<Longrightarrow> ascii (strings_Replace s old new)"
proof (induction s old new rule: strings_Replace.induct)
  case (1 s old new)
  show ?case
  proof (cases s)
    case (Cons c t)
    have "ascii (drop n s)" for n using "1.prems"(1) by (auto simp: ascii_def list_all_iff dest: in_set_dropD)
    then show ?thesis
      using 1 Cons by (subst strings_Replace.simps) (auto simp: ascii_Cons)
  qed (simp add: strings_Replace.simps)
qed

lemma utf8_valid_timestamp: "utf8_valid (timestamp t)"
  unfolding timestamp_def by (intro utf8_valid_plain ascii_Replace ascii_Format) (simp add: ascii_Cons)

text \<open>Base64 text is sent as it is.\<close>

definition plain_char :: "char \<Rightarrow> bool" where
  "plain_char c \<longleftrightarrow> ord c < 128 \<and> escape_ascii c = [c]"

lemma json_escape_plain: "list_all plain_char s \<Longrightarrow> json_escape s = s"
  by (induction s) (simp_all add: json_escape.simps[of "[]"] json_escape_ascii plain_char_def)

lemma plain_b64: "n < 64 \<Longrightarrow> plain_char (b64_char n)"
proof -
  have "\<forall>n \<in> set [0..<64]. plain_char (b64_char n)" by code_simp
  then show "n < 64 \<Longrightarrow> plain_char (b64_char n)" by simp
qed

lemma plain_EncodeToString: "list_all plain_char (EncodeToString bs)"
proof -
  have "plain_char (CHR ''='')" by (simp add: plain_char_def escape_ascii_def)
  then show ?thesis by (induction bs rule: EncodeToString.induct) (simp_all add: plain_b64)
qed

lemma plain_ascii: "list_all plain_char s \<Longrightarrow> ascii s"
  by (simp add: ascii_def list_all_iff plain_char_def)

lemma utf8_valid_EncodeToString: "utf8_valid (EncodeToString bs)"
  by (rule utf8_valid_plain[OF plain_ascii[OF plain_EncodeToString]])

end
