(* ===== verification/Circle.thy ===== *)
theory Circle
  imports Wire
begin

text \<open>
  Package \<open>mtsnclient\<close> (src/src/mtsnclient/mtsnclient.go): the circle, its text form, the
  hash used in URLs, the key and IV data, padding, and the CBC encryption of messages.
  SHA-1 and the AES block transformation are parameters: \<open>sha1\<close> maps a string to its
  digest, and a \<open>block_cipher\<close> holds the two block functions of \<open>crypto/aes\<close>. The CBC mode
  of \<open>crypto/cipher\<close> is written out over them, with its panics.
\<close>

section \<open>Data\<close>

record Circle =
  Shortname :: string
  Server :: string
  Uuid :: string
  Key :: string
  FullText :: string
  rawKeyData :: "byte list"

record block_cipher =
  enc_block :: "byte list \<Rightarrow> byte list \<Rightarrow> byte list"
  dec_block :: "byte list \<Rightarrow> byte list \<Rightarrow> byte list"

section \<open>URL hash and text form\<close>

definition GetUrlHash :: "(string \<Rightarrow> byte list) \<Rightarrow> Circle \<Rightarrow> string" where
  "GetUrlHash sha1 circle =
     fmt_x (sha1 (if Uuid circle = [] then Key circle else Uuid circle))"

definition GetFullText :: "Circle \<Rightarrow> string" where
  "GetFullText circle =
     (if Uuid circle = [] then Shortname circle @ ''+'' @ Key circle @ ''@'' @ Server circle
      else Shortname circle @ ''+'' @ Uuid circle @ ''$'' @ Key circle @ ''@'' @ Server circle)"

text \<open>
  The Go code cuts the string at the first of each delimiter, and a cut whose bounds are
  out of order panics. The cuts are taken in the source's order.
\<close>

definition NewCircle :: "string \<Rightarrow> Circle go" where
  "NewCircle circleString =
     (let plusIndx = strings_Index circleString ''+'';
          sigilIndx = strings_Index circleString ''$'';
          atIndx = strings_Index circleString ''@'';
          n = int (length circleString);
          mk = (\<lambda>name uuid key server.
            let c = \<lparr>Shortname = name, Server = server, Uuid = uuid, Key = key,
                     FullText = [], rawKeyData = []\<rparr>
            in c\<lparr>FullText := GetFullText c\<rparr>)
      in if plusIndx = -1 \<or> atIndx = -1 then Inl (Err ''Failed to parse circle string'')
         else if sigilIndx = -1 then
           bindE (slice circleString 0 plusIndx) (\<lambda>name.
           bindE (slice circleString (plusIndx + 1) atIndx) (\<lambda>key.
           bindE (slice circleString (atIndx + 1) n) (\<lambda>server.
           Inr (mk name [] key server))))
         else
           bindE (slice circleString 0 plusIndx) (\<lambda>name.
           bindE (slice circleString (plusIndx + 1) sigilIndx) (\<lambda>uuid.
           bindE (slice circleString (sigilIndx + 1) atIndx) (\<lambda>key.
           bindE (slice circleString (atIndx + 1) n) (\<lambda>server.
           Inr (mk name uuid key server))))))"

section \<open>Keys, initial vectors, padding\<close>

text \<open>The raw key is cached in the circle: the operation returns it and the new circle.\<close>

definition GetKeyData :: "Circle \<Rightarrow> byte list \<times> Circle" where
  "GetKeyData circle =
     (if rawKeyData circle \<noteq> [] then (rawKeyData circle, circle)
      else let keyData = (if length (Key circle) \<noteq> 16 then fst (DecodeString (Key circle))
                          else bytes_of (Key circle))
           in (keyData, circle\<lparr>rawKeyData := keyData\<rparr>))"

definition GetIVData :: "Msg \<Rightarrow> byte list" where
  "GetIVData msg = (if Iv msg = [] then bytes_of ''0123456701234567''
                    else fst (DecodeString (Iv msg)))"

text \<open>\<open>rb\<close> is what \<open>rand.Read\<close> leaves in the 16-byte buffer.\<close>

definition GenIVData :: "byte list \<Rightarrow> Msg \<Rightarrow> byte list \<times> Msg" where
  "GenIVData rb msg = (rb, msg\<lparr>Iv := EncodeToString rb\<rparr>)"

definition Pkcs5pad :: "byte list \<Rightarrow> nat \<Rightarrow> byte list go" where
  "Pkcs5pad data blocksize =
     (if blocksize = 0 then Inl (Panic ''integer divide by zero'')
      else let pad = blocksize - length data mod blocksize
           in Inr (data @ replicate pad (of_nat pad)))"

section \<open>CBC\<close>

definition BlockSize :: nat where "BlockSize = 16"

text \<open>
  \<open>aes.NewCipher\<close> accepts keys of 16, 24 and 32 bytes. Both callers drop its error, so with
  any other key the nil cipher is used and the next call panics.
\<close>

definition key_ok :: "byte list \<Rightarrow> bool" where
  "key_ok key = (length key = 16 \<or> length key = 24 \<or> length key = 32)"

definition xor_block :: "byte list \<Rightarrow> byte list \<Rightarrow> byte list" where
  "xor_block a b = map2 (\<lambda>x y. x XOR y) a b"

fun cbc_encrypt :: "(byte list \<Rightarrow> byte list) \<Rightarrow> byte list \<Rightarrow> byte list list \<Rightarrow> byte list list" where
  "cbc_encrypt E iv [] = []"
| "cbc_encrypt E iv (b # bs) = (let c = E (xor_block b iv) in c # cbc_encrypt E c bs)"

fun cbc_decrypt :: "(byte list \<Rightarrow> byte list) \<Rightarrow> byte list \<Rightarrow> byte list list \<Rightarrow> byte list list" where
  "cbc_decrypt D iv [] = []"
| "cbc_decrypt D iv (c # cs) = xor_block (D c) iv # cbc_decrypt D c cs"

text \<open>
  \<open>NewCBCEncrypter\<close>/\<open>NewCBCDecrypter\<close> and the \<open>CryptBlocks\<close> call that follows: a nil cipher,
  an IV of the wrong length and an input that is not whole blocks each panic.
\<close>

definition CryptBlocks ::
  "((byte list \<Rightarrow> byte list) \<Rightarrow> byte list \<Rightarrow> byte list list \<Rightarrow> byte list list)
    \<Rightarrow> (byte list \<Rightarrow> byte list \<Rightarrow> byte list) \<Rightarrow> byte list \<Rightarrow> byte list \<Rightarrow> byte list \<Rightarrow> byte list go" where
  "CryptBlocks mode block key iv src =
     (if \<not> key_ok key then Inl (Panic ''nil pointer dereference'')
      else if length iv \<noteq> BlockSize then Inl (Panic ''IV length must equal block size'')
      else if length src mod BlockSize \<noteq> 0 then Inl (Panic ''input not full blocks'')
      else Inr (concat (mode (block key) iv (chunks BlockSize src))))"

definition EncryptMessage ::
  "block_cipher \<Rightarrow> byte list \<Rightarrow> Msg \<Rightarrow> Circle \<Rightarrow> string \<Rightarrow> (byte list \<times> Msg \<times> Circle) go" where
  "EncryptMessage aes rb msg circle msgContent =
     (let (key, circle') = GetKeyData circle;
          (ivBytes, msg') = GenIVData rb msg
      in bindE (Pkcs5pad (bytes_of msgContent) BlockSize) (\<lambda>padded.
         bindE (CryptBlocks cbc_encrypt (enc_block aes) key ivBytes padded) (\<lambda>enctext.
         Inr (enctext, msg', circle'))))"

text \<open>The deferred \<open>recover\<close> turns every panic of the decryption into the empty string.\<close>

definition getPlaintextMessage :: "block_cipher \<Rightarrow> Msg \<Rightarrow> Circle \<Rightarrow> string \<times> Circle" where
  "getPlaintextMessage aes msg circle =
     (let rawdata = fst (DecodeString (Message msg));
          (key, circle') = GetKeyData circle
      in case CryptBlocks cbc_decrypt (dec_block aes) key (GetIVData msg) rawdata of
           Inl _ \<Rightarrow> ([], circle')
         | Inr plaintext \<Rightarrow> (string_of plaintext, circle'))"

section \<open>Lemmas on the text form\<close>

lemma NewCircle_no_uuid:
  assumes "CHR ''+'' \<notin> set name" "CHR ''@'' \<notin> set name" "CHR ''@'' \<notin> set key"
    and "CHR ''$'' \<notin> set (name @ key @ server)"
  shows "NewCircle (name @ ''+'' @ key @ ''@'' @ server) =
     Inr \<lparr>Shortname = name, Server = server, Uuid = [], Key = key,
          FullText = name @ ''+'' @ key @ ''@'' @ server, rawKeyData = []\<rparr>"
proof -
  let ?s = "name @ ''+'' @ key @ ''@'' @ server"
  have plus: "strings_Index ?s ''+'' = int (length name)"
    using strings_Index_first[OF assms(1), of "key @ ''@'' @ server"] by simp
  have at: "strings_Index ?s ''@'' = int (length name + 1 + length key)"
    using strings_Index_first[of "CHR ''@''" "name @ ''+'' @ key" server] assms(2,3) by simp
  have sig: "strings_Index ?s ''$'' = -1"
    using assms(4) by (simp add: strings_Index_absent)
  show ?thesis
    unfolding NewCircle_def Let_def plus at sig
    by (simp add: slice_def nat_add_distrib GetFullText_def)
qed

lemma NewCircle_uuid:
  assumes "CHR ''+'' \<notin> set name" "CHR ''@'' \<notin> set (name @ uuid @ key)"
    and "CHR ''$'' \<notin> set (name @ uuid)" "uuid \<noteq> []"
  shows "NewCircle (name @ ''+'' @ uuid @ ''$'' @ key @ ''@'' @ server) =
     Inr \<lparr>Shortname = name, Server = server, Uuid = uuid, Key = key,
          FullText = name @ ''+'' @ uuid @ ''$'' @ key @ ''@'' @ server, rawKeyData = []\<rparr>"
proof -
  let ?s = "name @ ''+'' @ uuid @ ''$'' @ key @ ''@'' @ server"
  have plus: "strings_Index ?s ''+'' = int (length name)"
    using strings_Index_first[OF assms(1), of "uuid @ ''$'' @ key @ ''@'' @ server"] by simp
  have sig: "strings_Index ?s ''$'' = int (length name + 1 + length uuid)"
    using strings_Index_first[of "CHR ''$''" "name @ ''+'' @ uuid" "key @ ''@'' @ server"] assms(3)
    by simp
  have at: "strings_Index ?s ''@'' = int (length name + 1 + length uuid + 1 + length key)"
    using strings_Index_first[of "CHR ''@''" "name @ ''+'' @ uuid @ ''$'' @ key" server] assms(2)
    by simp
  show ?thesis
    unfolding NewCircle_def Let_def plus at sig
    using assms(4) by (simp add: slice_def nat_add_distrib GetFullText_def drop_Cons')
qed

definition delims_in_order :: "string \<Rightarrow> bool" where
  "delims_in_order s =
     (let p = strings_Index s ''+''; d = strings_Index s ''$''; a = strings_Index s ''@''
      in if d = -1 then p < a else p < d \<and> d < a)"

lemma NewCircle_cases:
  "NewCircle s =
     (if CHR ''+'' \<notin> set s \<or> CHR ''@'' \<notin> set s then Inl (Err ''Failed to parse circle string'')
      else if delims_in_order s then NewCircle s
      else Inl (Panic ''slice bounds out of range''))"
proof -
  have ge: "-1 \<le> strings_Index s [c]" for c by (rule strings_Index_ge)
  have le: "0 \<le> strings_Index s [c] \<and> strings_Index s [c] < int (length s)" if "c \<in> set s" for c
    using that by (elim strings_Index_split) simp
  show ?thesis
    using strings_Index_absent[of s "CHR ''$''"] ge[of "CHR ''+''"] ge[of "CHR ''$''"] ge[of "CHR ''@''"]
      le[of "CHR ''+''"] le[of "CHR ''$''"] le[of "CHR ''@''"]
    by (auto simp: NewCircle_def Let_def strings_Index_absent delims_in_order_def slice_def)
qed

lemma NewCircle_ok_iff:
  "(\<exists>c. NewCircle s = Inr c) \<longleftrightarrow>
     CHR ''+'' \<in> set s \<and> CHR ''@'' \<in> set s \<and> delims_in_order s"
proof -
  have ge: "-1 \<le> strings_Index s [c]" for c by (rule strings_Index_ge)
  have le: "0 \<le> strings_Index s [c] \<and> strings_Index s [c] < int (length s)" if "c \<in> set s" for c
    using that by (elim strings_Index_split) simp
  show ?thesis
    using strings_Index_absent[of s "CHR ''$''"] ge[of "CHR ''+''"] ge[of "CHR ''$''"] ge[of "CHR ''@''"]
      le[of "CHR ''+''"] le[of "CHR ''$''"] le[of "CHR ''@''"]
    by (auto simp: NewCircle_def Let_def strings_Index_absent delims_in_order_def slice_def)
qed

lemma split_at_index:
  assumes "strings_Index s [c] = int k"
  shows "s = take k s @ c # drop (Suc k) s" "c \<notin> set (take k s)" "k < length s"
proof -
  have "c \<in> set s" using assms strings_Index_absent[of s c] by fastforce
  then obtain xs ys where "s = xs @ c # ys" "c \<notin> set xs" "strings_Index s [c] = int (length xs)"
    by (rule strings_Index_split)
  with assms show "s = take k s @ c # drop (Suc k) s" "c \<notin> set (take k s)" "k < length s"
    by auto
qed

lemma cut_twice:
  assumes "p < a" "a < length s"
  shows "s = take p s @ s ! p # take (a - Suc p) (drop (Suc p) s) @ s ! a # drop (Suc a) s"
proof -
  have "drop (Suc p) s = take (a - Suc p) (drop (Suc p) s) @ drop a s"
    using assms by (metis Suc_leI append_take_drop_id drop_drop le_add_diff_inverse2)
  moreover have "s = take p s @ s ! p # drop (Suc p) s"
    using assms by (simp add: id_take_nth_drop)
  moreover have "drop a s = s ! a # drop (Suc a) s"
    using assms by (simp add: Cons_nth_drop_Suc)
  ultimately show ?thesis by metis
qed

lemma index_nth: "strings_Index s [c] = int k \<Longrightarrow> k < length s \<and> s ! k = c"
  using split_at_index[of s c k] by (metis nth_append_length length_take min.absorb4)

definition with_FullText :: "Circle \<Rightarrow> Circle" where
  "with_FullText c = c\<lparr>FullText := GetFullText c\<rparr>"

lemma with_FullText_sel [simp]:
  "Shortname (with_FullText c) = Shortname c" "Server (with_FullText c) = Server c"
  "Uuid (with_FullText c) = Uuid c" "Key (with_FullText c) = Key c"
  "rawKeyData (with_FullText c) = rawKeyData c"
  "FullText (with_FullText c) = GetFullText (with_FullText c)"
  by (simp_all add: with_FullText_def GetFullText_def)

lemma NewCircle_two_cuts:
  assumes "strings_Index s ''+'' = int p" "strings_Index s ''@'' = int a"
    and "strings_Index s ''$'' = -1" "p < a"
  shows "NewCircle s = Inr (with_FullText \<lparr>Shortname = take p s, Server = drop (Suc a) s, Uuid = [],
      Key = take (a - Suc p) (drop (Suc p) s), FullText = [], rawKeyData = []\<rparr>)"
proof -
  have "a < length s" using index_nth[OF assms(2)] by simp
  with assms(4) show ?thesis
    unfolding NewCircle_def Let_def assms(1-3)
    by (simp add: slice_def nat_add_distrib with_FullText_def)
qed

lemma NewCircle_three_cuts:
  assumes "strings_Index s ''+'' = int p" "strings_Index s ''@'' = int a"
    and "strings_Index s ''$'' = int d" "p < d" "d < a"
  shows "NewCircle s = Inr (with_FullText \<lparr>Shortname = take p s, Server = drop (Suc a) s,
      Uuid = take (d - Suc p) (drop (Suc p) s),
      Key = take (a - Suc d) (drop (Suc d) s), FullText = [], rawKeyData = []\<rparr>)"
proof -
  have "a < length s" using index_nth[OF assms(2)] by simp
  with assms(4,5) show ?thesis
    unfolding NewCircle_def Let_def assms(1-3)
    by (simp add: slice_def nat_add_distrib with_FullText_def)
qed

text \<open>What a successful parse says of the string, with and without a UUID part.\<close>

definition circle_text :: "bool \<Rightarrow> Circle \<Rightarrow> string" where
  "circle_text sigil c =
     (if sigil then Shortname c @ ''+'' @ Uuid c @ ''$'' @ Key c @ ''@'' @ Server c
      else Shortname c @ ''+'' @ Key c @ ''@'' @ Server c)"

lemma mid_subset: "b \<le> a \<Longrightarrow> set (take (b - k) (drop k s)) \<subseteq> set (take a s)"
  by (metis drop_take set_drop_subset set_take_subset_set_take subset_trans)

lemma NewCircle_Inr_shape:
  assumes "NewCircle s = Inr c"
  shows "s = circle_text (CHR ''$'' \<in> set s) c" "CHR ''$'' \<notin> set s \<longrightarrow> Uuid c = []"
    and "FullText c = GetFullText c" "rawKeyData c = []"
    and "CHR ''+'' \<notin> set (Shortname c)" "CHR ''@'' \<notin> set (Shortname c @ Uuid c @ Key c)"
proof -
  from assms have ps: "CHR ''+'' \<in> set s" "CHR ''@'' \<in> set s" and ord: "delims_in_order s"
    by (subst (asm) NewCircle_cases, simp split: if_splits)+
  obtain p where p: "strings_Index s ''+'' = int p" using ps(1) by (metis strings_Index_split)
  obtain a where a: "strings_Index s ''@'' = int a" using ps(2) by (metis strings_Index_split)
  have pn: "p < length s" "s ! p = CHR ''+''" and an: "a < length s" "s ! a = CHR ''@''"
    using index_nth[OF p] index_nth[OF a] by auto
  have pre: "CHR ''+'' \<notin> set (take p s)" "CHR ''@'' \<notin> set (take a s)"
    using split_at_index(2)[OF p] split_at_index(2)[OF a] by auto
  have "s = circle_text (CHR ''$'' \<in> set s) c \<and> (CHR ''$'' \<notin> set s \<longrightarrow> Uuid c = [])
      \<and> FullText c = GetFullText c \<and> rawKeyData c = []
      \<and> CHR ''+'' \<notin> set (Shortname c) \<and> CHR ''@'' \<notin> set (Shortname c @ Uuid c @ Key c)"
  proof (cases "CHR ''$'' \<in> set s")
    case False
    then have d: "strings_Index s ''$'' = -1" by (simp add: strings_Index_absent)
    with ord p a have pa: "p < a" by (simp add: delims_in_order_def)
    note c = sum.inject(2)[THEN iffD1, OF assms[unfolded NewCircle_two_cuts[OF p a d pa]], symmetric]
    have sel: "Shortname c = take p s" "Server c = drop (Suc a) s" "Uuid c = []"
        "Key c = take (a - Suc p) (drop (Suc p) s)" "FullText c = GetFullText c" "rawKeyData c = []"
      by (simp_all add: c)
    have "set (take p s) \<subseteq> set (take a s)" using pa by (simp add: set_take_subset_set_take)
    moreover have "set (take (a - Suc p) (drop (Suc p) s)) \<subseteq> set (take a s)"
      by (rule mid_subset) simp
    ultimately have at: "CHR ''@'' \<notin> set (Shortname c @ Uuid c @ Key c)"
      unfolding sel(1,3,4) set_append using pre(2) by auto
    have plus: "CHR ''+'' \<notin> set (Shortname c)" unfolding sel(1) by (rule pre(1))
    have shape: "s = circle_text False c"
      using cut_twice[OF pa an(1)] pn(2) an(2) by (simp add: circle_text_def sel)
    have "(CHR ''$'' \<in> set s) = False" using False by simp
    then have "s = circle_text (CHR ''$'' \<in> set s) c" using shape by metis
    then show ?thesis using at plus sel(3,5,6) by (intro conjI impI)
  next
    case True
    then obtain d where d: "strings_Index s ''$'' = int d" by (metis strings_Index_split)
    with ord p a have pd: "p < d" and da: "d < a" by (auto simp: delims_in_order_def)
    have dn: "d < length s" "s ! d = CHR ''$''" using index_nth[OF d] by auto
    note c = sum.inject(2)[THEN iffD1, OF assms[unfolded NewCircle_three_cuts[OF p a d pd da]], symmetric]
    have sel: "Shortname c = take p s" "Server c = drop (Suc a) s"
        "Uuid c = take (d - Suc p) (drop (Suc p) s)"
        "Key c = take (a - Suc d) (drop (Suc d) s)" "FullText c = GetFullText c" "rawKeyData c = []"
      by (simp_all add: c)
    have "set (take p s) \<subseteq> set (take a s)"
      using pd da by (simp add: set_take_subset_set_take)
    moreover have "set (take (a - Suc d) (drop (Suc d) s)) \<subseteq> set (take a s)"
      by (rule mid_subset) simp
    moreover have "set (take (d - Suc p) (drop (Suc p) s)) \<subseteq> set (take a s)"
      using da by (intro mid_subset) simp
    ultimately have at: "CHR ''@'' \<notin> set (Shortname c @ Uuid c @ Key c)"
      unfolding sel(1,3,4) set_append using pre(2) by blast
    have plus: "CHR ''+'' \<notin> set (Shortname c)" unfolding sel(1) by (rule pre(1))
    have shape: "s = circle_text True c"
    proof -
      have "drop (Suc d) s = take (a - Suc d) (drop (Suc d) s) @ drop a s"
        using da by (metis Suc_leI append_take_drop_id drop_drop le_add_diff_inverse2)
      also have "drop a s = s ! a # drop (Suc a) s" using an(1) by (simp add: Cons_nth_drop_Suc)
      finally have "s = take p s @ s ! p # take (d - Suc p) (drop (Suc p) s) @ s ! d #
          take (a - Suc d) (drop (Suc d) s) @ s ! a # drop (Suc a) s"
        using cut_twice[OF pd dn(1)] by metis
      then show ?thesis using pn(2) dn(2) an(2) by (simp add: circle_text_def sel)
    qed
    have "(CHR ''$'' \<in> set s) = True" using True by simp
    then have "s = circle_text (CHR ''$'' \<in> set s) c" using shape by metis
    then show ?thesis using at plus sel(5,6) True by blast
  qed
  then show "s = circle_text (CHR ''$'' \<in> set s) c" "CHR ''$'' \<notin> set s \<longrightarrow> Uuid c = []"
    "FullText c = GetFullText c" "rawKeyData c = []"
    "CHR ''+'' \<notin> set (Shortname c)" "CHR ''@'' \<notin> set (Shortname c @ Uuid c @ Key c)"
    by blast+
qed

section \<open>Lemmas on the encryption\<close>

text \<open>
  What the code relies on of the AES block functions: with an accepted key, the block
  decryption inverts the block encryption, and blocks keep their length.
\<close>

definition block_cipher_ok :: "block_cipher \<Rightarrow> bool" where
  "block_cipher_ok aes \<longleftrightarrow>
     (\<forall>key b. key_ok key \<longrightarrow> length b = BlockSize \<longrightarrow>
        length (enc_block aes key b) = BlockSize \<and> dec_block aes key (enc_block aes key b) = b)"

lemma length_xor_block [simp]: "length (xor_block a b) = min (length a) (length b)"
  by (simp add: xor_block_def)

lemma xor_block_cancel: "length a = length b \<Longrightarrow> xor_block (xor_block a b) b = a"
  by (induction a b rule: list_induct2) (auto simp: xor_block_def xor.assoc)

lemma cbc_encrypt_lengths:
  assumes "\<And>b. length b = n \<Longrightarrow> length (E b) = n" "length iv = n"
    and "\<And>b. b \<in> set bs \<Longrightarrow> length b = n" "c \<in> set (cbc_encrypt E iv bs)"
  shows "length c = n"
  using assms(2-4)
proof (induction bs arbitrary: iv)
  case Nil
  then show ?case by simp
next
  case (Cons b bs)
  then have "length (E (xor_block b iv)) = n" using assms(1) by simp
  with Cons show ?case by (auto simp: Let_def)
qed

lemma cbc_roundtrip:
  assumes "\<And>b. length b = n \<Longrightarrow> length (E b) = n \<and> D (E b) = b" "length iv = n"
    and "\<And>b. b \<in> set bs \<Longrightarrow> length b = n"
  shows "cbc_decrypt D iv (cbc_encrypt E iv bs) = bs"
  using assms(2,3)
proof (induction bs arbitrary: iv)
  case Nil
  then show ?case by simp
next
  case (Cons b bs)
  have "length (xor_block b iv) = n" using Cons.prems by simp
  with assms(1)[OF this] Cons show ?case by (simp add: Let_def xor_block_cancel)
qed

lemma length_concat_blocks: "(\<And>c. c \<in> set cs \<Longrightarrow> length c = n) \<Longrightarrow> length (concat cs) = n * length cs"
  by (induction cs) auto

lemma CryptBlocks_roundtrip:
  assumes "block_cipher_ok aes" "key_ok key" "length iv = BlockSize" "length src mod BlockSize = 0"
  obtains enc where "CryptBlocks cbc_encrypt (enc_block aes) key iv src = Inr enc"
    and "CryptBlocks cbc_decrypt (dec_block aes) key iv enc = Inr src"
proof -
  let ?cs = "cbc_encrypt (enc_block aes key) iv (chunks BlockSize src)"
  have pos: "0 < BlockSize" by (simp add: BlockSize_def)
  have law: "length b = BlockSize \<Longrightarrow> length (enc_block aes key b) = BlockSize
      \<and> dec_block aes key (enc_block aes key b) = b" for b
    using assms(1,2) by (simp add: block_cipher_ok_def)
  have bl: "length b = BlockSize" if "b \<in> set (chunks BlockSize src)" for b
    using chunks_length_dvd[OF pos _ that] assms(4) by (simp add: dvd_eq_mod_eq_0)
  have cl: "length c = BlockSize" if "c \<in> set ?cs" for c
    using cbc_encrypt_lengths[OF _ assms(3) bl that] law by blast
  have rejoin: "chunks BlockSize (concat ?cs) = ?cs"
    by (rule chunks_concat[OF pos cl])
  have "length (concat ?cs) mod BlockSize = 0"
    using length_concat_blocks[of ?cs, OF cl] by simp
  moreover have "cbc_decrypt (dec_block aes key) iv ?cs = chunks BlockSize src"
    by (rule cbc_roundtrip[OF law assms(3) bl])
  ultimately show ?thesis
    using that[of "concat ?cs"] assms(2-4) rejoin by (simp add: CryptBlocks_def)
qed

lemma Pkcs5pad_Inr:
  "0 < n \<Longrightarrow> Pkcs5pad data n =
     Inr (data @ replicate (n - length data mod n) (of_nat (n - length data mod n)))"
  by (simp add: Pkcs5pad_def)

lemma pad_length_dvd: "0 < n \<Longrightarrow> (l + (n - l mod n)) mod n = (0::nat)"
proof -
  assume n: "0 < n"
  have "l + (n - l mod n) = l div n * n + n"
    using mod_less_divisor[OF n, of l] div_mult_mod_eq[of l n] by linarith
  then show ?thesis by simp
qed

lemma GetKeyData_cached: "GetKeyData (snd (GetKeyData c)) = GetKeyData c \<or> fst (GetKeyData c) = []"
  by (auto simp: GetKeyData_def Let_def)

lemma EncryptMessage_ok:
  assumes "block_cipher_ok aes" "length rb = BlockSize" "key_ok (fst (GetKeyData circle))"
  obtains enc where
    "EncryptMessage aes rb msg circle content = Inr (enc, msg\<lparr>Iv := EncodeToString rb\<rparr>, snd (GetKeyData circle))"
    and "CryptBlocks cbc_decrypt (dec_block aes) (fst (GetKeyData circle)) rb enc =
      Inr (bytes_of content @ replicate (BlockSize - length content mod BlockSize)
             (of_nat (BlockSize - length content mod BlockSize)))"
proof -
  have pos: "0 < BlockSize" by (simp add: BlockSize_def)
  let ?pad = "BlockSize - length content mod BlockSize"
  let ?src = "bytes_of content @ replicate ?pad (of_nat ?pad :: byte)"
  have "length ?src mod BlockSize = 0" using pad_length_dvd[OF pos] by simp
  then obtain enc where "CryptBlocks cbc_encrypt (enc_block aes) (fst (GetKeyData circle)) rb ?src = Inr enc"
    "CryptBlocks cbc_decrypt (dec_block aes) (fst (GetKeyData circle)) rb enc = Inr ?src"
    by (rule CryptBlocks_roundtrip[OF assms(1,3,2)])
  then show ?thesis
    using that[of enc] by (simp add: EncryptMessage_def GenIVData_def Pkcs5pad_Inr[OF pos] case_prod_beta)
qed

section \<open>Properties\<close>

text \<open>
  A circle whose text form can be parsed back: the name holds no delimiter, the UUID no
  later one, and, without a UUID, no dollar sign occurs at all.
\<close>

definition circle_ok :: "Circle \<Rightarrow> bool" where
  "circle_ok c \<longleftrightarrow>
     CHR ''+'' \<notin> set (Shortname c) \<and> CHR ''@'' \<notin> set (Shortname c @ Uuid c @ Key c) \<and>
     CHR ''$'' \<notin> set (Shortname c @ Uuid c) \<and>
     (Uuid c = [] \<longrightarrow> CHR ''$'' \<notin> set (Key c @ Server c))"

text \<open>C4: printing a well-formed circle in its standard form and parsing the result gives
  the same name, server, UUID and key, with FullText set to the content itself.\<close>

theorem NewCircle_GetFullText:
  assumes "circle_ok c"
  shows "NewCircle (GetFullText c) = Inr (c\<lparr>FullText := GetFullText c, rawKeyData := []\<rparr>)"
proof (cases "Uuid c = []")
  case True
  have "NewCircle (GetFullText c) = Inr \<lparr>Shortname = Shortname c, Server = Server c, Uuid = [],
      Key = Key c, FullText = GetFullText c, rawKeyData = []\<rparr>"
    using NewCircle_no_uuid[of "Shortname c" "Key c" "Server c"] assms True
    by (simp add: circle_ok_def GetFullText_def)
  with True show ?thesis by (cases c) (simp add: GetFullText_def)
next
  case False
  have "NewCircle (GetFullText c) = Inr \<lparr>Shortname = Shortname c, Server = Server c, Uuid = Uuid c,
      Key = Key c, FullText = GetFullText c, rawKeyData = []\<rparr>"
    using NewCircle_uuid[of "Shortname c" "Uuid c" "Key c" "Server c"] assms False
    by (simp add: circle_ok_def GetFullText_def)
  then show ?thesis by (cases c) (simp add: GetFullText_def)
qed

definition sample_circle :: Circle where
  "sample_circle = \<lparr>Shortname = ''testsite'', Server = ''tckwndlytrphlpyo.onion'',
     Uuid = ''4830a37e'', Key = ''dba4fe6ef22b494d'', FullText = [], rawKeyData = []\<rparr>"

theorem NewCircle_GetFullText_witness:
  "circle_ok sample_circle \<and>
   NewCircle ''testsite+4830a37e$dba4fe6ef22b494d@tckwndlytrphlpyo.onion'' =
     Inr (sample_circle\<lparr>FullText := GetFullText sample_circle, rawKeyData := []\<rparr>)"
proof -
  have ok: "circle_ok sample_circle" by (simp add: circle_ok_def sample_circle_def)
  then show ?thesis using NewCircle_GetFullText[OF ok] by (simp add: GetFullText_def sample_circle_def)
qed

text \<open>conversely, the text form of a parsed circle is the string it was parsed from,
  but for one case: an empty UUID before a dollar sign, which the text form leaves out.\<close>

theorem GetFullText_NewCircle:
  assumes "NewCircle s = Inr c"
  shows "FullText c = GetFullText c \<and>
    (GetFullText c = s \<or>
     (Uuid c = [] \<and> s = Shortname c @ ''+$'' @ Key c @ ''@'' @ Server c))"
  using NewCircle_Inr_shape[OF assms]
  by (auto simp: circle_text_def GetFullText_def split: if_splits)

theorem GetFullText_NewCircle_witness:
  "\<exists>c. NewCircle ''a+$k@s'' = Inr c \<and> GetFullText c = ''a+k@s''"
proof -
  let ?c = "with_FullText \<lparr>Shortname = ''a'', Server = ''s'', Uuid = [], Key = ''k'',
     FullText = [], rawKeyData = []\<rparr>"
  have "NewCircle ''a+$k@s'' = Inr ?c"
    by (simp add: NewCircle_def strings_Index_Cons slice_def with_FullText_def)
  then show ?thesis using GetFullText_NewCircle[of "''a+$k@s''" ?c] by (auto simp: GetFullText_def)
qed

text \<open>C33: the three outcomes of parsing. A missing plus or at sign is the returned error; with
  both present, parsing panics exactly when the delimiters are out of order, and otherwise
  it succeeds.\<close>

theorem NewCircle_outcomes:
  "((\<exists>e. NewCircle s = Inl (Err e)) \<longleftrightarrow> \<not> (CHR ''+'' \<in> set s \<and> CHR ''@'' \<in> set s)) \<and>
   ((\<exists>e. NewCircle s = Inl (Panic e)) \<longleftrightarrow>
      CHR ''+'' \<in> set s \<and> CHR ''@'' \<in> set s \<and> \<not> delims_in_order s) \<and>
   ((\<exists>c. NewCircle s = Inr c) \<longleftrightarrow>
      CHR ''+'' \<in> set s \<and> CHR ''@'' \<in> set s \<and> delims_in_order s)"
  using NewCircle_ok_iff[of s] NewCircle_cases[of s] by (auto split: if_splits)

lemma decrypt_ok:
  assumes "block_cipher_ok aes" "length rb = BlockSize" "key_ok (fst (GetKeyData circle))"
  shows "\<exists>enctext msg'. EncryptMessage aes rb msg circle content = Inr (enctext, msg', snd (GetKeyData circle))
    \<and> fst (getPlaintextMessage aes (msg'\<lparr>Message := EncodeToString enctext\<rparr>) circle)
        = content @ replicate (16 - length content mod 16) (char_of (16 - length content mod 16))"
proof -
  obtain enc where e:
    "EncryptMessage aes rb msg circle content = Inr (enc, msg\<lparr>Iv := EncodeToString rb\<rparr>, snd (GetKeyData circle))"
    "CryptBlocks cbc_decrypt (dec_block aes) (fst (GetKeyData circle)) rb enc =
      Inr (bytes_of content @ replicate (BlockSize - length content mod BlockSize)
             (of_nat (BlockSize - length content mod BlockSize)))"
    by (rule EncryptMessage_ok[OF assms, of msg content])
  have iv: "GetIVData (msg\<lparr>Iv := EncodeToString rb, Message := m\<rparr>) = rb" for m
    using assms(2) by (auto simp: GetIVData_def BlockSize_def dest: arg_cong[where f = length]
        simp: length_EncodeToString)
  have "fst (getPlaintextMessage aes (msg\<lparr>Iv := EncodeToString rb, Message := EncodeToString enc\<rparr>) circle)
      = string_of (bytes_of content @ replicate (BlockSize - length content mod BlockSize)
             (of_nat (BlockSize - length content mod BlockSize)))"
    by (simp add: getPlaintextMessage_def iv e(2) case_prod_beta)
  also have "\<dots> = content @ replicate (16 - length content mod 16) (char_of (16 - length content mod 16))"
    by (simp add: string_of_append BlockSize_def string_of_replicate del: of_nat_diff)
  finally show ?thesis using e(1) by auto
qed

text \<open>C5: a message encrypted with a circle's key and a fresh 16-byte IV is decrypted by the
  same circle to the message followed by its PKCS5 padding: the padding is not removed.\<close>

theorem decrypt_EncryptMessage:
  assumes "block_cipher_ok aes" "length rb = BlockSize" "key_ok (fst (GetKeyData circle))"
  shows "\<exists>enctext msg'. EncryptMessage aes rb msg circle content = Inr (enctext, msg', snd (GetKeyData circle))
    \<and> fst (getPlaintextMessage aes (msg'\<lparr>Message := EncodeToString enctext\<rparr>) circle)
        = content @ replicate (16 - length content mod 16) (char_of (16 - length content mod 16))"
  by (rule decrypt_ok[OF assms])

text \<open>A concrete block cipher for the witnesses: each block is added to the key.\<close>

definition xor_cipher :: block_cipher where
  "xor_cipher = \<lparr>enc_block = (\<lambda>key b. xor_block b (take 16 key)),
                  dec_block = (\<lambda>key b. xor_block b (take 16 key))\<rparr>"

lemma xor_cipher_ok: "block_cipher_ok xor_cipher"
  by (auto simp: block_cipher_ok_def xor_cipher_def key_ok_def BlockSize_def intro!: xor_block_cancel)

theorem decrypt_EncryptMessage_witness:
  "\<exists>enctext msg'. EncryptMessage xor_cipher (replicate 16 7) \<lparr>Iv = [], Message = []\<rparr> sample_circle ''hello''
      = Inr (enctext, msg', snd (GetKeyData sample_circle))
    \<and> fst (getPlaintextMessage xor_cipher (msg'\<lparr>Message := EncodeToString enctext\<rparr>) sample_circle)
        = ''hello'' @ replicate 11 (char_of (11::nat))"
proof -
  have "key_ok (fst (GetKeyData sample_circle))"
    by (simp add: GetKeyData_def sample_circle_def key_ok_def Let_def)
  then show ?thesis
    using decrypt_EncryptMessage[OF xor_cipher_ok, of "replicate 16 7" sample_circle
        "\<lparr>Iv = [], Message = []\<rparr>" "''hello''"]
    by (simp add: BlockSize_def)
qed

section \<open>Saved circles\<close>

text \<open>The JSON text of a circle has its exported fields.\<close>

definition circle_json :: "Circle \<Rightarrow> jvalue" where
  "circle_json c =
     JObj [(''Shortname'', JStr (Shortname c)), (''Server'', JStr (Server c)), (''Uuid'', JStr (Uuid c)),
           (''Key'', JStr (Key c)), (''FullText'', JStr (FullText c))]"

definition Marshal_Circle :: "Circle \<Rightarrow> string" where
  "Marshal_Circle c = json_print (circle_json c)"

abbreviation zero_Circle :: Circle where
  "zero_Circle \<equiv> \<lparr>Shortname = [], Server = [], Uuid = [], Key = [], FullText = [], rawKeyData = []\<rparr>"

definition set_Circle :: "string \<Rightarrow> jvalue \<Rightarrow> Circle \<Rightarrow> Circle \<times> bool" where
  "set_Circle k v c =
     (if names k ''Shortname'' then (case decode_string v (Shortname c) of (s, ok) \<Rightarrow> (c\<lparr>Shortname := s\<rparr>, ok))
      else if names k ''Server'' then (case decode_string v (Server c) of (s, ok) \<Rightarrow> (c\<lparr>Server := s\<rparr>, ok))
      else if names k ''Uuid'' then (case decode_string v (Uuid c) of (s, ok) \<Rightarrow> (c\<lparr>Uuid := s\<rparr>, ok))
      else if names k ''Key'' then (case decode_string v (Key c) of (s, ok) \<Rightarrow> (c\<lparr>Key := s\<rparr>, ok))
      else if names k ''FullText'' then (case decode_string v (FullText c) of (s, ok) \<Rightarrow> (c\<lparr>FullText := s\<rparr>, ok))
      else (c, True))"

definition Unmarshal_Circle :: "string \<Rightarrow> Circle \<Rightarrow> Circle \<times> bool" where
  "Unmarshal_Circle = Unmarshal (decode_object set_Circle)"

definition circle_utf8 :: "Circle \<Rightarrow> bool" where
  "circle_utf8 c \<longleftrightarrow> utf8_valid (Shortname c) \<and> utf8_valid (Server c) \<and> utf8_valid (Uuid c) \<and> utf8_valid (Key c) \<and>
     utf8_valid (FullText c)"

lemma lower_upper: "65 \<le> ord c \<Longrightarrow> ord c \<le> 90 \<Longrightarrow> ord (lower c) = ord c + 32"
  by (simp add: lower_def)

lemma names_Circle [simp]:
  "names ''Shortname'' ''Shortname''" "names ''Server'' ''Server''" "names ''Uuid'' ''Uuid''" "names ''Key'' ''Key''"
  "names ''FullText'' ''FullText''" "\<not> names ''Server'' ''Shortname''" "\<not> names ''Uuid'' ''Shortname''"
  "\<not> names ''Key'' ''Shortname''" "\<not> names ''FullText'' ''Shortname''" "\<not> names ''Uuid'' ''Server''"
  "\<not> names ''Key'' ''Server''" "\<not> names ''FullText'' ''Server''" "\<not> names ''Key'' ''Uuid''"
  "\<not> names ''FullText'' ''Uuid''" "\<not> names ''FullText'' ''Key''"
  by (simp_all add: fold_names lower_def char_of_def bit_Suc_0_iff)

lemma Unmarshal_Marshal_Circle:
  assumes "circle_utf8 c"
  shows "Unmarshal_Circle (Marshal_Circle c) zero_Circle = (c\<lparr>rawKeyData := []\<rparr>, True)"
proof -
  have k: "utf8_valid ''Shortname''" "utf8_valid ''Server''" "utf8_valid ''Uuid''" "utf8_valid ''Key''" "utf8_valid ''FullText''"
    by (simp_all add: utf8_valid_ascii)
  have "good (circle_json c)" using assms k by (simp add: circle_json_def circle_utf8_def)
  from json_parse_print[OF this] show ?thesis
    by (simp add: Unmarshal_Circle_def Unmarshal_def Marshal_Circle_def circle_json_def decode_object_def set_Circle_def
        decode_string_def)
qed

end
