(* ===== verification/Store.thy ===== *)
theory Store
  imports Wire
begin

text \<open>
  The interface \<open>MtsnStore\<close> of server.go: four operations on a state that may return an error or
  panic, and the contract that the HTTP handlers rely on, as a locale. The contract speaks of
  the log of a circle, the list of its messages from the first on.
\<close>

section \<open>Operations with state\<close>

text \<open>A Go call that reads and writes a state: a value, an error or a panic, with the state it leaves.\<close>

type_synonym ('s, 'a) action = "'s \<Rightarrow> 'a go \<times> 's"

definition andThen :: "('s, 'a) action \<Rightarrow> ('a \<Rightarrow> ('s, 'b) action) \<Rightarrow> ('s, 'b) action" where
  "andThen m f s = (case m s of (Inl e, s') \<Rightarrow> (Inl e, s') | (Inr x, s') \<Rightarrow> f x s')"

lemma andThen_simps [simp]:
  "m s = (Inr x, s') \<Longrightarrow> andThen m f s = f x s'"
  "m s = (Inl e, s') \<Longrightarrow> andThen m f s = (Inl e, s')"
  by (simp_all add: andThen_def)

text \<open>A call of a service outside the program: an error or a value. The second form is such a call whose
  error the caller returns.\<close>

type_synonym ('d, 'a) reply = "'d \<Rightarrow> (string + 'a) \<times> 'd"

definition returned :: "(string + 'a) \<times> 'd \<Rightarrow> 'a go \<times> 'd" where
  "returned r = (case r of (Inl e, d) \<Rightarrow> (Inl (Err e), d) | (Inr x, d) \<Rightarrow> (Inr x, d))"

text \<open>A channel of tokens: receiving waits for a sender, and waits forever without one.\<close>

definition receive :: "nat \<Rightarrow> nat option" where
  "receive senders = (case senders of 0 \<Rightarrow> None | Suc n \<Rightarrow> Some n)"

section \<open>The interface\<close>

record 's MtsnStore =
  getMsg :: "int \<Rightarrow> ('s, MsgWrap) action"
  getMsgs :: "int \<Rightarrow> int \<Rightarrow> ('s, MsgWrap list) action"
  getLastMsg :: "('s, LastMessage) action"
  postMsg :: "MsgWrap \<Rightarrow> ('s, unit) action"

text \<open>The contract: the identifiers of the log count from 1, reading changes nothing, and a post
  that finds room appends the message under the next identifier.\<close>

locale mtsn_store =
  fixes store :: "'s MtsnStore"
    and inv :: "'s \<Rightarrow> bool"
    and room :: "'s \<Rightarrow> bool"
    and log :: "'s \<Rightarrow> MsgWrap list"
  assumes last: "inv s \<Longrightarrow> getLastMsg store s = (Inr \<lparr>lastMessage = int (length (log s))\<rparr>, s)"
    and get: "inv s \<Longrightarrow> i < length (log s) \<Longrightarrow> getMsg store (int i + 1) s = (Inr (log s ! i), s)"
    and gets: "inv s \<Longrightarrow> 1 \<le> b \<Longrightarrow> b \<le> t \<Longrightarrow> t \<le> length (log s) \<Longrightarrow>
      getMsgs store (int t) (int b) s = (Inr (rev (drop (b - 1) (take t (log s)))), s)"
    and post: "inv s \<Longrightarrow> room s \<Longrightarrow> msg_ok (Content mw) \<Longrightarrow>
      \<exists>s' w. postMsg store mw s = (Inr (), s') \<and> inv s' \<and> log s' = log s @ [w] \<and>
        Content w = Content mw \<and> Id w = int (length (log s)) + 1"
    and log_ok: "inv s \<Longrightarrow> list_all (\<lambda>w. msg_ok (Content w)) (log s)"
begin

text \<open>Messages are immutable: a post leaves every earlier message as it was.\<close>

lemma post_keeps:
  assumes "inv s" "room s" "msg_ok (Content mw)" "i < length (log s)" "postMsg store mw s = (Inr (), s')"
  shows "getMsg store (int i + 1) s' = (Inr (log s ! i), s')"
proof -
  obtain w where "inv s'" "log s' = log s @ [w]" using post[OF assms(1-3)] assms(5) by auto
  then show ?thesis using get[of s' i] assms(4) by (simp add: nth_append)
qed

lemma post_get:
  assumes "inv s" "room s" "msg_ok (Content mw)" "postMsg store mw s = (Inr (), s')"
  shows "\<exists>w. getLastMsg store s' = (Inr \<lparr>lastMessage = int (length (log s)) + 1\<rparr>, s') \<and>
    getMsg store (int (length (log s)) + 1) s' = (Inr w, s') \<and> Content w = Content mw"
proof -
  obtain w where w: "inv s'" "log s' = log s @ [w]" "Content w = Content mw" using post[OF assms(1-3)] assms(4) by auto
  then show ?thesis using last[of s'] get[of s' "length (log s)"] by (intro exI[of _ w]) simp
qed

end

end
