(* ===== verification/FileStore.thy ===== *)
theory FileStore
  imports Store
begin

text \<open>
  The file backend of server.go (\<open>FileStore\<close>): a circle is a directory, a message a file whose
  name is its identifier. The operating system is a world of directories and files; it may
  refuse to create an entry or to take all of a text, and it lists the entries of a directory in an order of its own.
  The lock is the channel that every store of the server shares.
\<close>

section \<open>The world\<close>

record regular_file =
  text_of :: string
  mtime :: int

record world =
  dirs :: "string \<Rightarrow> string list option"
  files :: "string \<Rightarrow> regular_file option"
  now :: int
  refuses :: "string \<Rightarrow> bool"
  cut :: "string \<Rightarrow> nat option"
  slot :: "string \<Rightarrow> nat"
  lock :: nat

text \<open>A new entry is listed at the place that the system chooses.\<close>

definition enter :: "nat \<Rightarrow> string \<Rightarrow> string list \<Rightarrow> string list" where
  "enter k name entries = (if name \<in> set entries then entries else take k entries @ name # drop k entries)"

definition os_Mkdir :: "string \<Rightarrow> (world, unit) action" where
  "os_Mkdir path s =
     (if refuses s path \<or> dirs s path \<noteq> None then (Inl (Err ''mkdir''), s)
      else (Inr (), s\<lparr>dirs := (dirs s)(path \<mapsto> [])\<rparr>))"

text \<open>\<open>os.Create\<close> truncates a file that exists.\<close>

definition os_Create :: "string \<Rightarrow> string \<Rightarrow> (world, unit) action" where
  "os_Create dir name s =
     (let path = dir @ ''/'' @ name in
      case dirs s dir of None \<Rightarrow> (Inl (Err ''open''), s)
      | Some entries \<Rightarrow>
        if refuses s path then (Inl (Err ''open''), s)
        else (Inr (), s\<lparr>dirs := (dirs s)(dir \<mapsto> enter (slot s path) name entries),
                        files := (files s)(path \<mapsto> \<lparr>text_of = [], mtime = now s\<rparr>)\<rparr>))"

text \<open>A disk that is full takes the beginning of a text only. The callers ignore the error, so it is no result.\<close>

definition kept :: "world \<Rightarrow> string \<Rightarrow> string \<Rightarrow> string" where
  "kept s path text = (case cut s path of None \<Rightarrow> text | Some n \<Rightarrow> take n text)"

definition os_Write :: "string \<Rightarrow> string \<Rightarrow> world \<Rightarrow> world" where
  "os_Write path text s = s\<lparr>files := (files s)(path \<mapsto> \<lparr>text_of = kept s path text, mtime = now s\<rparr>)\<rparr>"

lemma kept_whole [simp]: "cut s path = None \<Longrightarrow> kept s path text = text"
  by (simp add: kept_def)

lemma kept_same: "cut s' = cut s \<Longrightarrow> kept s' = kept s"
  by (simp add: kept_def fun_eq_iff)

section \<open>The operations\<close>

record FileStore =
  Circle :: string
  Datadir :: string

definition circle_dir :: "FileStore \<Rightarrow> string" where
  "circle_dir ms = Datadir ms @ ''/'' @ Circle ms"

definition msg_path :: "FileStore \<Rightarrow> int \<Rightarrow> string" where
  "msg_path ms i = circle_dir ms @ ''/'' @ Itoa i"

text \<open>The content as far as it parses, the time of the file and its name.\<close>

definition wrap_file :: "int \<Rightarrow> regular_file \<Rightarrow> MsgWrap" where
  "wrap_file i f =
     \<lparr>Content = fst (Unmarshal_Msg (text_of f) zero_Msg), Timestamp = timestamp (mtime f), Time = mtime f, Id = i\<rparr>"

text \<open>The error of \<open>os.Open\<close> is ignored, so a missing file ends in a nil pointer.\<close>

definition GetMsg :: "FileStore \<Rightarrow> int \<Rightarrow> (world, MsgWrap) action" where
  "GetMsg ms i s =
     (case files s (msg_path ms i) of
        None \<Rightarrow> (Inl (Panic ''invalid memory address or nil pointer dereference''), s)
      | Some f \<Rightarrow> (Inr (wrap_file i f), s))"

fun GetMsgs_loop :: "FileStore \<Rightarrow> world \<Rightarrow> MsgWrap list \<Rightarrow> int list \<Rightarrow> MsgWrap list" where
  "GetMsgs_loop ms s msgs [] = msgs"
| "GetMsgs_loop ms s msgs (i # is) =
     (case files s (msg_path ms i) of
        None \<Rightarrow> msgs
      | Some f \<Rightarrow> GetMsgs_loop ms s (msgs @ [wrap_file i f]) is)"

definition GetMsgs :: "FileStore \<Rightarrow> int \<Rightarrow> int \<Rightarrow> (world, MsgWrap list) action" where
  "GetMsgs ms hi lo s =
     (if lo > hi then (Inr [], s) else (Inr (GetMsgs_loop ms s [] (rev [lo..hi])), s))"

text \<open>The largest number among the first ten thousand entries; other entries count as 0.\<close>

definition mostRecent :: "string list \<Rightarrow> int" where
  "mostRecent entries = foldl (\<lambda>m name. let i = fst (Atoi name) in if i > m then i else m) 0 (take 10000 entries)"

definition GetLastMsg :: "FileStore \<Rightarrow> (world, LastMessage) action" where
  "GetLastMsg ms s =
     (case dirs s (circle_dir ms) of
        None \<Rightarrow> (Inr \<lparr>lastMessage = 0\<rparr>, s)
      | Some entries \<Rightarrow> (Inr \<lparr>lastMessage = mostRecent entries\<rparr>, s))"

definition wrap64 :: "int \<Rightarrow> int" where
  "wrap64 i = (if i > maxInt then i - 2 ^ 64 else i)"

definition updateCounter :: "FileStore \<Rightarrow> (world, int) action" where
  "updateCounter ms = andThen (GetLastMsg ms) (\<lambda>l s. (Inr (wrap64 (lastMessage l + 1)), s))"

text \<open>Ensuring the directory, the part of \<open>PostMsg\<close> before the lock is taken.\<close>

definition ensure_dir :: "FileStore \<Rightarrow> (world, unit) action" where
  "ensure_dir ms s =
     (if dirs s (circle_dir ms) \<noteq> None \<or> files s (circle_dir ms) \<noteq> None then (Inr (), s)
      else os_Mkdir (circle_dir ms) s)"

definition Unlock :: "world \<Rightarrow> world" where
  "Unlock s = s\<lparr>lock := lock s + 1\<rparr>"

definition PostMsg :: "FileStore \<Rightarrow> MsgWrap \<Rightarrow> (world, unit) action" where
  "PostMsg ms msgw =
     andThen (ensure_dir ms) (\<lambda>_ s.
     case receive (lock s) of None \<Rightarrow> (Inl Diverge, s)
     | Some n \<Rightarrow>
       andThen (updateCounter ms) (\<lambda>msgId s.
       case os_Create (circle_dir ms) (Itoa msgId) s of
         (Inl e, s) \<Rightarrow> (Inl e, Unlock s)
       | (Inr _, s) \<Rightarrow> (Inr (), Unlock (os_Write (msg_path ms msgId) (Marshal_Msg (Content msgw)) s)))
       (s\<lparr>lock := n\<rparr>))"

definition file_store :: "FileStore \<Rightarrow> world MtsnStore" where
  "file_store ms = \<lparr>getMsg = GetMsg ms, getMsgs = GetMsgs ms, getLastMsg = GetLastMsg ms, postMsg = PostMsg ms\<rparr>"

section \<open>Paths\<close>

definition no_slash :: "string \<Rightarrow> bool" where
  "no_slash s \<longleftrightarrow> CHR ''/'' \<notin> set s"

lemma no_slash_Itoa: "no_slash (Itoa i)"
proof -
  have "c \<in> set (nat_to_dec n) \<Longrightarrow> c \<noteq> CHR ''/''" for c n
    using nat_to_dec_no_sign[of c n] by (auto simp: is_digit_def)
  then show ?thesis by (auto simp: no_slash_def Itoa_def)
qed

lemma slash_split:
  assumes "no_slash t" "no_slash u"
  shows "s @ ''/'' @ t = s' @ ''/'' @ u \<longleftrightarrow> s = s' \<and> t = u"
proof
  have tail: "rev (takeWhile (\<lambda>c. c \<noteq> CHR ''/'') (rev (s @ ''/'' @ t))) = t" if "no_slash t" for s t
    using that by (simp add: no_slash_def takeWhile_append)
  assume eq: "s @ ''/'' @ t = s' @ ''/'' @ u"
  then have "t = u" using tail[OF assms(1), of s] tail[OF assms(2), of s'] by metis
  then show "s = s' \<and> t = u" using eq by simp
qed simp

lemma Itoa_eq:
  assumes "minInt \<le> i" "i \<le> maxInt" "minInt \<le> j" "j \<le> maxInt"
  shows "Itoa i = Itoa j \<longleftrightarrow> i = j"
  using Atoi_Itoa[OF assms(1,2)] Atoi_Itoa[OF assms(3,4)] by (metis fst_conv)

lemma Itoa_small: "0 \<le> i \<Longrightarrow> i \<le> 10000 \<Longrightarrow> fst (Atoi (Itoa i)) = i"
  using Atoi_Itoa[of i] by (simp add: minInt_def maxInt_def)

lemma msg_path_eq:
  assumes "minInt \<le> i" "i \<le> maxInt" "minInt \<le> j" "j \<le> maxInt"
  shows "msg_path ms i = msg_path ms j \<longleftrightarrow> i = j"
  using slash_split[OF no_slash_Itoa no_slash_Itoa, of "circle_dir ms" i "circle_dir ms" j] Itoa_eq[OF assms]
  by (simp add: msg_path_def)

lemma small_ints: "0 \<le> i \<Longrightarrow> i \<le> 100000 \<Longrightarrow> minInt \<le> i \<and> i \<le> maxInt"
  by (simp add: minInt_def maxInt_def)

lemma circle_dir_not_path: "no_slash (Circle ms) \<Longrightarrow> circle_dir ms \<noteq> msg_path ms i"
proof
  assume c: "no_slash (Circle ms)" and eq: "circle_dir ms = msg_path ms i"
  then have "Datadir ms = circle_dir ms"
    using slash_split[OF c no_slash_Itoa, of "Datadir ms" "circle_dir ms" i] by (simp add: circle_dir_def msg_path_def)
  then have "length (Datadir ms) = length (circle_dir ms)" by simp
  then show False by (simp add: circle_dir_def)
qed

section \<open>The number of the last message\<close>

lemma foldl_greatest:
  fixes f :: "'a \<Rightarrow> int"
  assumes "a \<le> N" "\<forall>x \<in> set xs. f x \<le> N" "N = a \<or> N \<in> f ` set xs"
  shows "foldl (\<lambda>m x. let i = f x in if i > m then i else m) a xs = N"
  using assms
proof (induction xs arbitrary: a)
  case (Cons x xs)
  let ?b = "if f x > a then f x else a"
  have "N = ?b \<or> N \<in> f ` set xs" using Cons.prems by auto
  then show ?case using Cons.IH[of ?b] Cons.prems by (simp add: Let_def)
qed simp

text \<open>The entries of a circle with \<open>n\<close> messages.\<close>

definition entries_ok :: "nat \<Rightarrow> string list \<Rightarrow> bool" where
  "entries_ok n es \<longleftrightarrow> distinct es \<and> length es = n \<and> set es = Itoa ` {1..int n}"

lemma mostRecent_entries:
  assumes "entries_ok n es" "n \<le> 10000"
  shows "mostRecent es = int n"
  unfolding mostRecent_def
proof (rule foldl_greatest)
  have es: "set (take 10000 es) = Itoa ` {1..int n}" using assms by (simp add: entries_ok_def)
  have val: "fst (Atoi (Itoa i)) = i" if "i \<in> {1..int n}" for i using that assms(2) Itoa_small[of i] by simp
  show "\<forall>e \<in> set (take 10000 es). fst (Atoi e) \<le> int n" unfolding es using val by auto
  show "int n = 0 \<or> int n \<in> (\<lambda>e. fst (Atoi e)) ` set (take 10000 es)"
    unfolding es using val[of "int n"] by (cases "n = 0") (auto simp: image_iff intro!: bexI[of _ "int n"])
qed simp

lemma enter_entries:
  assumes "entries_ok n es" "n < 10000"
  shows "entries_ok (Suc n) (enter k (Itoa (int n + 1)) es)"
proof -
  have new: "Itoa (int n + 1) \<notin> set es"
  proof
    assume "Itoa (int n + 1) \<in> set es"
    then obtain i where i: "i \<in> {1..int n}" "Itoa (int n + 1) = Itoa i" using assms(1) by (auto simp: entries_ok_def)
    then have "int n + 1 = i" using Itoa_eq[of "int n + 1" i] small_ints[of i] small_ints[of "int n + 1"] assms(2) by simp
    then show False using i(1) by simp
  qed
  have "{1..int (Suc n)} = insert (int n + 1) {1..int n}" by auto
  moreover have "set (enter k (Itoa (int n + 1)) es) = insert (Itoa (int n + 1)) (set es)"
  proof -
    have "set (take k es) \<union> set (drop k es) = set es" by (metis append_take_drop_id set_append)
    then show ?thesis using new by (auto simp: enter_def)
  qed
  moreover have "distinct (enter k (Itoa (int n + 1)) es)"
    using new assms(1) by (auto simp: enter_def entries_ok_def dest: in_set_takeD in_set_dropD
        set_take_disj_set_drop_if_distinct[of es k k, THEN set_mp[OF equalityD1], simplified])
  ultimately show ?thesis using assms(1) new by (simp add: entries_ok_def enter_def min_def)
qed

section \<open>The invariant of a circle\<close>

definition msg_count :: "FileStore \<Rightarrow> world \<Rightarrow> nat" where
  "msg_count ms s = (case dirs s (circle_dir ms) of None \<Rightarrow> 0 | Some es \<Rightarrow> length es)"

definition stored :: "FileStore \<Rightarrow> world \<Rightarrow> int \<Rightarrow> bool" where
  "stored ms s i \<longleftrightarrow> (\<exists>f m. files s (msg_path ms i) = Some f \<and> msg_ok m \<and> text_of f = Marshal_Msg m)"

text \<open>The entries are the numbers from 1 to their count, each a file with a message; the lock is free.\<close>

definition circle_ok :: "FileStore \<Rightarrow> world \<Rightarrow> bool" where
  "circle_ok ms s \<longleftrightarrow> no_slash (Circle ms) \<and> 0 < lock s \<and> msg_count ms s \<le> 10000 \<and>
     (\<forall>es. dirs s (circle_dir ms) = Some es \<longrightarrow> entries_ok (length es) es) \<and>
     (dirs s (circle_dir ms) = None \<longrightarrow> files s (circle_dir ms) = None) \<and>
     (\<forall>i. 1 \<le> i \<and> i \<le> int (msg_count ms s) \<longrightarrow> stored ms s i)"

definition has_room :: "FileStore \<Rightarrow> world \<Rightarrow> bool" where
  "has_room ms s \<longleftrightarrow> msg_count ms s < 10000 \<and> \<not> refuses s (circle_dir ms) \<and> \<not> refuses s (msg_path ms (int (msg_count ms s) + 1)) \<and>
     cut s (msg_path ms (int (msg_count ms s) + 1)) = None"

definition file_log :: "FileStore \<Rightarrow> world \<Rightarrow> MsgWrap list" where
  "file_log ms s = map (\<lambda>i. wrap_file i (the (files s (msg_path ms i)))) [1..int (msg_count ms s)]"

lemma length_file_log [simp]: "length (file_log ms s) = msg_count ms s"
  by (simp add: file_log_def)

lemma nth_file_log: "i < msg_count ms s \<Longrightarrow> file_log ms s ! i = wrap_file (int i + 1) (the (files s (msg_path ms (int i + 1))))"
  by (simp add: file_log_def add.commute)

lemma GetLastMsg_ok: "circle_ok ms s \<Longrightarrow> GetLastMsg ms s = (Inr \<lparr>lastMessage = int (msg_count ms s)\<rparr>, s)"
  using mostRecent_entries by (auto simp: GetLastMsg_def circle_ok_def msg_count_def split: option.splits)

lemma circle_okD:
  assumes "circle_ok ms s" "1 \<le> i" "i \<le> int (msg_count ms s)"
  obtains f m where "files s (msg_path ms i) = Some f" "msg_ok m" "text_of f = Marshal_Msg m"
proof -
  have "stored ms s i" using assms unfolding circle_ok_def by blast
  then show ?thesis using that unfolding stored_def by blast
qed

lemma GetMsg_ok:
  assumes "circle_ok ms s" "i < msg_count ms s"
  shows "GetMsg ms (int i + 1) s = (Inr (file_log ms s ! i), s)"
proof -
  obtain f m where "files s (msg_path ms (int i + 1)) = Some f" by (rule circle_okD[of ms s "int i + 1"]) (use assms in auto)
  then show ?thesis using assms(2) by (simp add: GetMsg_def nth_file_log)
qed

lemma GetMsgs_loop_ok:
  assumes "\<forall>i \<in> set is. files s (msg_path ms i) \<noteq> None"
  shows "GetMsgs_loop ms s msgs is = msgs @ map (\<lambda>i. wrap_file i (the (files s (msg_path ms i)))) is"
  using assms by (induction "is" arbitrary: msgs) auto

lemma drop_take_upto:
  assumes "1 \<le> b" "b \<le> t" "t \<le> n"
  shows "drop (b - 1) (take t [1..int n]) = [int b..int t]"
  using assms by (intro nth_equalityI) (auto simp: nth_upto of_nat_diff)

lemma GetMsgs_ok:
  assumes "circle_ok ms s" "1 \<le> b" "b \<le> t" "t \<le> msg_count ms s"
  shows "GetMsgs ms (int t) (int b) s = (Inr (rev (drop (b - 1) (take t (file_log ms s)))), s)"
proof -
  have "files s (msg_path ms i) \<noteq> None" if i: "i \<in> set (rev [int b..int t])" for i
  proof -
    have "1 \<le> i" "i \<le> int (msg_count ms s)" using i assms(2,4) by auto
    then obtain f where "files s (msg_path ms i) = Some f" using circle_okD[OF assms(1)] by metis
    then show ?thesis by simp
  qed
  then have "\<forall>i \<in> set (rev [int b..int t]). files s (msg_path ms i) \<noteq> None" by blast
  from GetMsgs_loop_ok[OF this, of "[]"] have
    "GetMsgs_loop ms s [] (rev [int b..int t]) = rev (map (\<lambda>i. wrap_file i (the (files s (msg_path ms i)))) [int b..int t])"
    by (simp add: rev_map)
  then show ?thesis
    using assms drop_take_upto[of b t "msg_count ms s"] by (simp add: GetMsgs_def file_log_def take_map drop_map)
qed

section \<open>Posting\<close>

text \<open>The state once the directory is there: empty when it was missing.\<close>

lemma ensure_dir_ok:
  assumes "circle_ok ms s" "has_room ms s"
  obtains es s' where "ensure_dir ms s = (Inr (), s')" "s' = s\<lparr>dirs := (dirs s)(circle_dir ms \<mapsto> es)\<rparr>"
    "entries_ok (msg_count ms s) es" "length es = msg_count ms s"
proof (cases "dirs s (circle_dir ms)")
  case None
  then have c: "msg_count ms s = 0" "files s (circle_dir ms) = None"
    using assms(1) by (simp_all add: circle_ok_def msg_count_def)
  have "\<not> refuses s (circle_dir ms)" using assms(2) by (simp add: has_room_def)
  then have "ensure_dir ms s = (Inr (), s\<lparr>dirs := (dirs s)(circle_dir ms \<mapsto> [])\<rparr>)"
    using None c by (simp add: ensure_dir_def os_Mkdir_def)
  moreover have "entries_ok 0 []" by (simp add: entries_ok_def)
  ultimately show ?thesis using that c(1) by simp
next
  case (Some es)
  have "s = s\<lparr>dirs := (dirs s)(circle_dir ms \<mapsto> es)\<rparr>" using Some by (simp add: fun_upd_idem)
  moreover have "ensure_dir ms s = (Inr (), s)" using Some by (simp add: ensure_dir_def)
  moreover have "msg_count ms s = length es" using Some by (simp add: msg_count_def)
  moreover have "entries_ok (length es) es" using Some assms(1) by (simp add: circle_ok_def)
  ultimately show ?thesis using that by metis
qed

text \<open>What a post that finds room does to the world.\<close>

definition posted :: "FileStore \<Rightarrow> MsgWrap \<Rightarrow> string list \<Rightarrow> world \<Rightarrow> world" where
  "posted ms mw es s =
     (let i = int (length es) + 1; path = msg_path ms i in
      s\<lparr>dirs := (dirs s)(circle_dir ms \<mapsto> enter (slot s path) (Itoa i) es),
        files := (files s)(path \<mapsto> \<lparr>text_of = Marshal_Msg (Content mw), mtime = now s\<rparr>)\<rparr>)"

lemma PostMsg_posted:
  assumes "circle_ok ms s" "has_room ms s"
  obtains es where "PostMsg ms mw s = (Inr (), posted ms mw es s)" "entries_ok (msg_count ms s) es" "length es = msg_count ms s"
proof -
  obtain es s' where es: "ensure_dir ms s = (Inr (), s')" "s' = s\<lparr>dirs := (dirs s)(circle_dir ms \<mapsto> es)\<rparr>"
    "entries_ok (msg_count ms s) es" "length es = msg_count ms s" by (rule ensure_dir_ok[OF assms])
  obtain n where n: "lock s = Suc n" using assms(1) by (cases "lock s") (auto simp: circle_ok_def)
  have room: "length es < 10000" "\<not> refuses s (msg_path ms (int (length es) + 1))" "cut s (msg_path ms (int (length es) + 1)) = None"
    using assms(2) es(4) by (auto simp: has_room_def)
  have "mostRecent es = int (length es)" using mostRecent_entries es(3,4) room(1) by simp
  then have "PostMsg ms mw s = (Inr (), posted ms mw es s)"
    using room es n by (simp add: PostMsg_def kept_def receive_def updateCounter_def GetLastMsg_def wrap64_def maxInt_def
        os_Create_def Let_def os_Write_def Unlock_def posted_def msg_path_def[symmetric] msg_path_def)
  then show ?thesis using that es(3,4) by blast
qed

lemma posted_simps [simp]:
  "lock (posted ms mw es s) = lock s" "now (posted ms mw es s) = now s"
  "refuses (posted ms mw es s) = refuses s" "slot (posted ms mw es s) = slot s"
  by (simp_all add: posted_def Let_def)

lemma posted_dir:
  "dirs (posted ms mw es s) (circle_dir ms) =
     Some (enter (slot s (msg_path ms (int (length es) + 1))) (Itoa (int (length es) + 1)) es)"
  by (simp add: posted_def Let_def)

lemma posted_file:
  assumes "1 \<le> i" "i \<le> 10000" "length es < 10000"
  shows "files (posted ms mw es s) (msg_path ms i) =
    (if i = int (length es) + 1 then Some \<lparr>text_of = Marshal_Msg (Content mw), mtime = now s\<rparr> else files s (msg_path ms i))"
  using msg_path_eq[of i "int (length es) + 1" ms] small_ints[of i] small_ints[of "int (length es) + 1"] assms
  by (simp add: posted_def Let_def)

lemma posted_ok:
  assumes "circle_ok ms s" "has_room ms s" "msg_ok (Content mw)" "entries_ok (msg_count ms s) es" "length es = msg_count ms s"
  shows "circle_ok ms (posted ms mw es s)" and "msg_count ms (posted ms mw es s) = Suc (msg_count ms s)"
    and "file_log ms (posted ms mw es s) = file_log ms s @
      [wrap_file (int (msg_count ms s) + 1) \<lparr>text_of = Marshal_Msg (Content mw), mtime = now s\<rparr>]"
proof -
  let ?s = "posted ms mw es s" and ?n = "msg_count ms s"
  have room: "?n < 10000" using assms(2) by (simp add: has_room_def)
  let ?es = "enter (slot s (msg_path ms (int ?n + 1))) (Itoa (int ?n + 1)) es"
  have es: "entries_ok (Suc ?n) ?es" by (rule enter_entries[OF assms(4) room])
  have dir: "dirs ?s (circle_dir ms) = Some ?es" using posted_dir[of ms mw es s] assms(5) by simp
  have len: "length ?es = Suc ?n" using es by (simp add: entries_ok_def)
  show cnt: "msg_count ms ?s = Suc ?n" using dir len by (simp add: msg_count_def)
  have keep: "files ?s (msg_path ms i) = files s (msg_path ms i)" if "1 \<le> i" "i \<le> int ?n" for i
    using posted_file[of i es ms mw s] that room assms(5) by simp
  have new: "files ?s (msg_path ms (int ?n + 1)) = Some \<lparr>text_of = Marshal_Msg (Content mw), mtime = now s\<rparr>"
    using posted_file[of "int ?n + 1" es ms mw s] room assms(5) by simp
  have "stored ms ?s i" if i: "1 \<le> i" "i \<le> int (Suc ?n)" for i
  proof (cases "i = int ?n + 1")
    case True
    then show ?thesis using new assms(3) by (auto simp: stored_def)
  next
    case False
    then have i': "i \<le> int ?n" using i(2) by simp
    then have "stored ms s i" using assms(1) i(1) by (simp add: circle_ok_def)
    then show ?thesis using keep[OF i(1) i'] by (simp add: stored_def)
  qed
  then show "circle_ok ms ?s" using assms(1) cnt dir len es room by (simp add: circle_ok_def)
  have "[1..int (Suc ?n)] = [1..int ?n] @ [int ?n + 1]" using upto_rec2[of 1 "int ?n + 1"] by (simp add: add.commute)
  moreover have "map (\<lambda>i. wrap_file i (the (files ?s (msg_path ms i)))) [1..int ?n] = file_log ms s"
    using keep by (simp add: file_log_def)
  ultimately show "file_log ms ?s = file_log ms s @
      [wrap_file (int ?n + 1) \<lparr>text_of = Marshal_Msg (Content mw), mtime = now s\<rparr>]"
    using new cnt by (simp add: file_log_def del: of_nat_Suc)
qed

lemma wrap_file_content:
  "msg_ok m \<Longrightarrow> Content (wrap_file i \<lparr>text_of = Marshal_Msg m, mtime = t\<rparr>) = m"
  by (simp add: wrap_file_def Unmarshal_Marshal_Msg)

lemma PostMsg_ok:
  assumes "circle_ok ms s" "has_room ms s" "msg_ok (Content mw)"
  obtains s' where "PostMsg ms mw s = (Inr (), s')" "circle_ok ms s'"
    "file_log ms s' = file_log ms s @
      [wrap_file (int (msg_count ms s) + 1) \<lparr>text_of = Marshal_Msg (Content mw), mtime = now s\<rparr>]"
  using PostMsg_posted[OF assms(1,2), of mw] posted_ok[OF assms] by metis

lemma file_log_ok: "circle_ok ms s \<Longrightarrow> list_all (\<lambda>w. msg_ok (Content w)) (file_log ms s)"
proof -
  assume ok: "circle_ok ms s"
  have "msg_ok (Content (wrap_file i (the (files s (msg_path ms i)))))" if i: "1 \<le> i" "i \<le> int (msg_count ms s)" for i
  proof -
    obtain f m where "files s (msg_path ms i) = Some f" "msg_ok m" "text_of f = Marshal_Msg m"
      by (rule circle_okD[OF ok i])
    then show ?thesis by (simp add: wrap_file_def Unmarshal_Marshal_Msg)
  qed
  then show ?thesis by (simp add: file_log_def list_all_iff)
qed

interpretation filestore: mtsn_store "file_store ms" "circle_ok ms" "has_room ms" "file_log ms"
proof
  fix s assume "circle_ok ms s"
  then show "getLastMsg (file_store ms) s = (Inr \<lparr>lastMessage = int (length (file_log ms s))\<rparr>, s)"
    by (simp add: file_store_def GetLastMsg_ok)
next
  fix s i assume "circle_ok ms s" "i < length (file_log ms s)"
  then show "getMsg (file_store ms) (int i + 1) s = (Inr (file_log ms s ! i), s)"
    by (simp add: file_store_def GetMsg_ok)
next
  fix s and b t :: nat assume "circle_ok ms s" "1 \<le> b" "b \<le> t" "t \<le> length (file_log ms s)"
  then show "getMsgs (file_store ms) (int t) (int b) s = (Inr (rev (drop (b - 1) (take t (file_log ms s)))), s)"
    by (simp add: file_store_def GetMsgs_ok)
next
  fix s and mw :: MsgWrap assume a: "circle_ok ms s" "has_room ms s" "msg_ok (Content mw)"
  obtain s' where "PostMsg ms mw s = (Inr (), s')" "circle_ok ms s'"
    "file_log ms s' = file_log ms s @
      [wrap_file (int (msg_count ms s) + 1) \<lparr>text_of = Marshal_Msg (Content mw), mtime = now s\<rparr>]"
    by (rule PostMsg_ok[OF a])
  then show "\<exists>s' w. postMsg (file_store ms) mw s = (Inr (), s') \<and> circle_ok ms s' \<and>
      file_log ms s' = file_log ms s @ [w] \<and> Content w = Content mw \<and> Id w = int (length (file_log ms s)) + 1"
    using wrap_file_content[OF a(3)] by (simp add: file_store_def wrap_file_def)
next
  fix s assume "circle_ok ms s"
  then show "list_all (\<lambda>w. msg_ok (Content w)) (file_log ms s)" by (rule file_log_ok)
qed

section \<open>Properties\<close>

text \<open>An empty data directory, for the witnesses.\<close>

definition fresh_world :: world where
  "fresh_world = \<lparr>dirs = (\<lambda>p. None), files = (\<lambda>p. None), now = 0, refuses = (\<lambda>p. False), cut = (\<lambda>p. None), slot = (\<lambda>p. 0), lock = 1\<rparr>"

definition example_store :: FileStore where
  "example_store = \<lparr>Circle = ''c'', Datadir = ''d''\<rparr>"

definition example_msg :: MsgWrap where
  "example_msg = zero_MsgWrap\<lparr>Content := \<lparr>Iv = [], Message = ''m''\<rparr>\<rparr>"

lemma fresh_circle_ok: "no_slash (Circle ms) \<Longrightarrow> circle_ok ms fresh_world"
  by (auto simp: circle_ok_def msg_count_def fresh_world_def)

lemma fresh_ok: "circle_ok example_store fresh_world" "has_room example_store fresh_world" "msg_ok (Content example_msg)"
  by (simp_all add: fresh_circle_ok example_store_def no_slash_def)
    (simp_all add: has_room_def msg_count_def fresh_world_def msg_ok_def example_msg_def utf8_valid_ascii)

text \<open>A message posted to a circle of the file backend that has room is stored under the next
  number: \<open>GetLastMsg\<close> returns that number, \<open>GetMsg\<close> of it the posted content, and \<open>GetMsg\<close> of every
  earlier number what it returned before.\<close>

theorem PostMsg_GetMsg:
  assumes "circle_ok ms s" "has_room ms s" "msg_ok (Content mw)"
  shows "\<exists>s' w. PostMsg ms mw s = (Inr (), s') \<and> circle_ok ms s' \<and>
    GetLastMsg ms s' = (Inr \<lparr>lastMessage = int (msg_count ms s) + 1\<rparr>, s') \<and>
    GetMsg ms (int (msg_count ms s) + 1) s' = (Inr w, s') \<and> Content w = Content mw \<and>
    (\<forall>i < msg_count ms s. fst (GetMsg ms (int i + 1) s') = fst (GetMsg ms (int i + 1) s))"
proof -
  obtain s' where s': "PostMsg ms mw s = (Inr (), s')" "circle_ok ms s'" by (rule PostMsg_ok[OF assms])
  have post: "postMsg (file_store ms) mw s = (Inr (), s')" using s'(1) by (simp add: file_store_def)
  have "GetMsg ms (int i + 1) s' = (Inr (file_log ms s ! i), s')" if "i < msg_count ms s" for i
    using filestore.post_keeps[OF assms _ post, of i] that by (simp add: file_store_def)
  then show ?thesis
    using filestore.post_get[OF assms post] s' GetMsg_ok[OF assms(1)] by (auto simp: file_store_def)
qed

theorem PostMsg_GetMsg_witness:
  "\<exists>s' w. PostMsg example_store example_msg fresh_world = (Inr (), s') \<and> circle_ok example_store s' \<and>
    GetLastMsg example_store s' = (Inr \<lparr>lastMessage = int (msg_count example_store fresh_world) + 1\<rparr>, s') \<and>
    GetMsg example_store (int (msg_count example_store fresh_world) + 1) s' = (Inr w, s') \<and> Content w = Content example_msg \<and>
    (\<forall>i < msg_count example_store fresh_world.
       fst (GetMsg example_store (int i + 1) s') = fst (GetMsg example_store (int i + 1) fresh_world))"
  by (rule PostMsg_GetMsg[OF fresh_ok])

lemma other_circle:
  assumes "no_slash (Circle ms)" "no_slash (Circle other)" "Datadir other = Datadir ms" "Circle other \<noteq> Circle ms"
  shows "circle_dir other \<noteq> circle_dir ms" "msg_path other i \<noteq> msg_path ms j"
    "circle_dir other \<noteq> msg_path ms j"
proof -
  show ne: "circle_dir other \<noteq> circle_dir ms" using assms by (simp add: circle_dir_def)
  show "msg_path other i \<noteq> msg_path ms j"
    using ne slash_split[OF no_slash_Itoa no_slash_Itoa, of "circle_dir other" i "circle_dir ms" j] by (simp add: msg_path_def)
  show "circle_dir other \<noteq> msg_path ms j"
  proof
    assume "circle_dir other = msg_path ms j"
    then have "Datadir ms = circle_dir ms"
      using slash_split[OF assms(2) no_slash_Itoa, of "Datadir other" "circle_dir ms" j] assms(3)
      by (simp add: circle_dir_def msg_path_def)
    then have "length (Datadir ms) = length (circle_dir ms)" by simp
    then show False by (simp add: circle_dir_def)
  qed
qed

text \<open>What a post may change: the entries of its circle and the files of its messages.\<close>

lemma PostMsg_touches:
  assumes "0 < lock s"
  shows "lock (snd (PostMsg ms mw s)) = lock s \<and> (\<forall>p. p \<noteq> circle_dir ms \<longrightarrow> dirs (snd (PostMsg ms mw s)) p = dirs s p) \<and>
    (\<forall>p. (\<forall>i. p \<noteq> msg_path ms i) \<longrightarrow> files (snd (PostMsg ms mw s)) p = files s p)"
proof -
  obtain n where "lock s = Suc n" using assms by (cases "lock s") auto
  then show ?thesis
    by (auto simp: PostMsg_def andThen_def ensure_dir_def os_Mkdir_def receive_def updateCounter_def GetLastMsg_def
        os_Create_def os_Write_def Unlock_def Let_def msg_path_def split: option.splits)
qed

text \<open>C31: A post to one circle, whether or not it succeeds, leaves every other circle of the same data directory as it was: its
  entries, each of its messages and the invariant of its state.\<close>

theorem PostMsg_isolation:
  assumes "no_slash (Circle ms)" "circle_ok other s" "Datadir other = Datadir ms" "Circle other \<noteq> Circle ms"
  shows "circle_ok other (snd (PostMsg ms mw s)) \<and> file_log other (snd (PostMsg ms mw s)) = file_log other s"
proof -
  have "no_slash (Circle other)" "0 < lock s" using assms(2) by (simp_all add: circle_ok_def)
  note ne = other_circle[OF assms(1) this(1) assms(3,4)] and t = PostMsg_touches[OF this(2), of ms mw]
  have dir: "dirs (snd (PostMsg ms mw s)) (circle_dir other) = dirs s (circle_dir other)"
    and file0: "files (snd (PostMsg ms mw s)) (circle_dir other) = files s (circle_dir other)"
    and files: "\<And>i. files (snd (PostMsg ms mw s)) (msg_path other i) = files s (msg_path other i)"
    using ne t by blast+
  have "msg_count other (snd (PostMsg ms mw s)) = msg_count other s" using dir by (simp add: msg_count_def)
  then show ?thesis using t dir file0 files assms(2) by (simp add: circle_ok_def stored_def file_log_def)
qed

theorem PostMsg_isolation_witness:
  "circle_ok (example_store\<lparr>Circle := ''e''\<rparr>) (snd (PostMsg example_store example_msg fresh_world)) \<and>
   file_log (example_store\<lparr>Circle := ''e''\<rparr>) (snd (PostMsg example_store example_msg fresh_world)) =
     file_log (example_store\<lparr>Circle := ''e''\<rparr>) fresh_world"
proof (rule PostMsg_isolation)
  show "circle_ok (example_store\<lparr>Circle := ''e''\<rparr>) fresh_world"
    by (simp add: fresh_circle_ok example_store_def no_slash_def)
qed (simp_all add: example_store_def no_slash_def)

text \<open>A circle with ten thousand messages, and a system that lists new entries last.\<close>

definition full_world :: "FileStore \<Rightarrow> world" where
  "full_world ms =
     \<lparr>dirs = (\<lambda>p. if p = circle_dir ms then Some (map Itoa [1..10000]) else None),
      files = (\<lambda>p. if p = circle_dir ms then None else Some \<lparr>text_of = Marshal_Msg zero_Msg, mtime = 0\<rparr>),
      now = 0, refuses = (\<lambda>p. False), cut = (\<lambda>p. None), slot = (\<lambda>p. 10000), lock = 1\<rparr>"

lemma full_entries: "entries_ok 10000 (map Itoa [1..10000])"
proof -
  have "inj_on Itoa {1..10000}" using Itoa_eq small_ints by (intro inj_onI) simp
  then show ?thesis by (simp add: entries_ok_def distinct_map)
qed

lemma full_ok: "no_slash (Circle ms) \<Longrightarrow> circle_ok ms (full_world ms)" and count_full: "msg_count ms (full_world ms) = 10000"
  using full_entries by (auto simp: circle_ok_def full_world_def msg_count_def stored_def msg_ok_def
      dest: circle_dir_not_path[of ms, THEN not_sym] intro!: exI[of _ zero_Msg])

lemma post_at_most_recent:
  assumes "dirs s (circle_dir ms) = Some es" "mostRecent es = 10000" "0 < lock s" "\<not> refuses s (msg_path ms 10001)"
    "cut s (msg_path ms 10001) = None"
  shows "PostMsg ms mw s = (Inr (), s\<lparr>dirs := (dirs s)(circle_dir ms \<mapsto> enter (slot s (msg_path ms 10001)) (Itoa 10001) es),
    files := (files s)(msg_path ms 10001 \<mapsto> \<lparr>text_of = Marshal_Msg (Content mw), mtime = now s\<rparr>)\<rparr>)"
proof -
  obtain n where "lock s = Suc n" using assms(3) by (cases "lock s") auto
  then show ?thesis using assms
    by (simp add: PostMsg_def kept_def ensure_dir_def receive_def updateCounter_def GetLastMsg_def wrap64_def maxInt_def
        os_Create_def Let_def os_Write_def Unlock_def msg_path_def)
qed

text \<open>C35: \<open>GetLastMsg\<close> reads ten thousand directory entries at most. In a circle with that many
  messages on a system that lists a new entry last, two posts in a row both report success and
  the second one overwrites the first: its message is lost and the count still says 10000.\<close>

theorem PostMsg_overwrites:
  assumes "circle_ok ms s" "msg_count ms s = 10000" "\<not> refuses s (msg_path ms 10001)" "cut s (msg_path ms 10001) = None"
    "slot s (msg_path ms 10001) \<ge> 10000" "msg_ok (Content mw)"
  shows "\<exists>s1 s2 w. PostMsg ms lost s = (Inr (), s1) \<and> PostMsg ms mw s1 = (Inr (), s2) \<and>
    GetLastMsg ms s2 = (Inr \<lparr>lastMessage = 10000\<rparr>, s2) \<and> GetMsg ms 10001 s2 = (Inr w, s2) \<and> Content w = Content mw"
proof -
  obtain es where es: "dirs s (circle_dir ms) = Some es" "length es = 10000"
    using assms(2) by (auto simp: msg_count_def split: option.splits)
  have ok: "entries_ok 10000 es" "0 < lock s" using assms(1) es by (auto simp: circle_ok_def)
  have recent: "mostRecent es = 10000" using mostRecent_entries[OF ok(1)] by simp
  have new: "Itoa 10001 \<notin> set es"
  proof
    assume "Itoa 10001 \<in> set es"
    then obtain i where i: "i \<in> {1..10000}" "Itoa 10001 = Itoa i" using ok(1) by (auto simp: entries_ok_def)
    then have "10001 = i" using Itoa_eq[of 10001 i] small_ints[of i] small_ints[of 10001] by simp
    then show False using i(1) by simp
  qed
  then have enter: "enter (slot s (msg_path ms 10001)) (Itoa 10001) es = es @ [Itoa 10001]"
    using assms(5) es(2) by (simp add: enter_def)
  have still: "mostRecent (es @ [Itoa 10001]) = 10000" using recent es(2) by (simp add: mostRecent_def)
  have again: "enter k (Itoa 10001) (es @ [Itoa 10001]) = es @ [Itoa 10001]" for k by (simp add: enter_def)
  have i: "(10001 :: int) = 10000 + 1" by simp
  show ?thesis
    using assms(3,4,6) still again ok(2)
    by (simp add: post_at_most_recent[OF es(1) recent ok(2) assms(3,4)] enter post_at_most_recent
        GetLastMsg_def GetMsg_def wrap_file_content)
qed

theorem PostMsg_overwrites_witness:
  "\<exists>s1 s2 w. PostMsg example_store zero_MsgWrap (full_world example_store) = (Inr (), s1) \<and>
    PostMsg example_store example_msg s1 = (Inr (), s2) \<and>
    GetLastMsg example_store s2 = (Inr \<lparr>lastMessage = 10000\<rparr>, s2) \<and>
    GetMsg example_store 10001 s2 = (Inr w, s2) \<and> Content w = Content example_msg"
proof (rule PostMsg_overwrites[OF full_ok count_full])
  show "no_slash (Circle example_store)" by (simp add: example_store_def no_slash_def)
qed (simp_all add: full_world_def fresh_ok)

text \<open>A post whose message finds no room on the disk is a success like any other, and the message is empty.\<close>

lemma PostMsg_full_disk:
  assumes "circle_ok ms s" "has_room ms (s\<lparr>cut := (\<lambda>_. None)\<rparr>)" "cut s (msg_path ms (int (msg_count ms s) + 1)) = Some 0"
  shows "\<exists>s' w. PostMsg ms mw s = (Inr (), s') \<and> GetMsg ms (int (msg_count ms s) + 1) s' = (Inr w, s') \<and> Content w = zero_Msg"
proof -
  let ?n = "msg_count ms s"
  have c: "msg_count ms (s\<lparr>cut := f\<rparr>) = ?n" for f by (simp add: msg_count_def)
  have room: "?n < 10000" "\<not> refuses s (circle_dir ms)" "\<not> refuses s (msg_path ms (int ?n + 1))"
    using assms(2) by (simp_all add: has_room_def c)
  obtain n where n: "lock s = Suc n" using assms(1) by (cases "lock s") (auto simp: circle_ok_def)
  have empty: "fst (Unmarshal_Msg [] zero_Msg) = zero_Msg" by code_simp
  show ?thesis
  proof (cases "dirs s (circle_dir ms)")
    case None
    then have "?n = 0" "files s (circle_dir ms) = None" using assms(1) by (simp_all add: msg_count_def circle_ok_def)
    then show ?thesis using None room n assms(3) empty
      by (simp add: PostMsg_def ensure_dir_def os_Mkdir_def receive_def updateCounter_def GetLastMsg_def mostRecent_def wrap64_def
          maxInt_def os_Create_def Let_def os_Write_def kept_def Unlock_def GetMsg_def wrap_file_def msg_path_def)
  next
    case (Some es)
    then have es: "length es = ?n" "entries_ok (length es) es" using assms(1) by (simp_all add: msg_count_def circle_ok_def)
    then have "mostRecent es = int ?n" using mostRecent_entries room(1) by simp
    then show ?thesis using Some room n assms(3) empty
      by (simp add: PostMsg_def ensure_dir_def receive_def updateCounter_def GetLastMsg_def wrap64_def maxInt_def os_Create_def
          Let_def os_Write_def kept_def Unlock_def GetMsg_def wrap_file_def msg_path_def)
  qed
qed

end
