(* ===== verification/MongoStore.thy ===== *)
theory MongoStore
  imports Store
begin

text \<open>
  The MongoDB backend of server.go (\<open>MongoStore\<close>) and the goroutine that expires messages. The
  database is a parameter: a record of the operations that the code calls, each of which may
  return an error. What MongoDB documents of them is the predicate \<open>mongo_laws\<close>.
\<close>

section \<open>The database\<close>

text \<open>In the order of the fields: \<open>Find({_id}).One\<close> on counters, \<open>Apply\<close> of an upserting \<open>$inc\<close> of
  \<open>n\<close> that returns the new document, \<open>Find({_id}).One\<close> on messages, \<open>Find({_id: {$gte, $lte}})\<close>
  sorted by \<open>-_id\<close>, \<open>Insert\<close>, \<open>CollectionNames\<close>, \<open>Find({time: {$lte}}).All\<close> and \<open>Remove({_id})\<close>.\<close>

record 'd mongo =
  One_counter :: "string \<Rightarrow> string \<Rightarrow> ('d, int) reply"
  Apply_inc :: "string \<Rightarrow> string \<Rightarrow> ('d, int) reply"
  One_id :: "string \<Rightarrow> int \<Rightarrow> ('d, MsgWrap) reply"
  All_between :: "string \<Rightarrow> int \<Rightarrow> int \<Rightarrow> ('d, MsgWrap list) reply"
  Insert :: "string \<Rightarrow> MsgWrap \<Rightarrow> ('d, unit) reply"
  CollectionNames :: "('d, string list) reply"
  All_until :: "string \<Rightarrow> int \<Rightarrow> ('d, MsgWrap list) reply"
  Remove :: "string \<Rightarrow> int \<Rightarrow> ('d, unit) reply"

section \<open>The operations of the store\<close>

record MongoStore =
  Circle :: string

definition getCounter :: "'d mongo \<Rightarrow> MongoStore \<Rightarrow> 'd \<Rightarrow> int \<times> 'd" where
  "getCounter db ms d =
     (case One_counter db ''counters'' (''C'' @ Circle ms) d of (Inl _, d') \<Rightarrow> (0, d') | (Inr n, d') \<Rightarrow> (n, d'))"

definition updateCounter :: "'d mongo \<Rightarrow> MongoStore \<Rightarrow> ('d, int) action" where
  "updateCounter db ms d =
     (case Apply_inc db ''counters'' (''C'' @ Circle ms) d of
        (Inl _, d') \<Rightarrow> (Inl (Panic ''Failed to update counter''), d') | (Inr n, d') \<Rightarrow> (Inr n, d'))"

definition GetMsg :: "'d mongo \<Rightarrow> MongoStore \<Rightarrow> int \<Rightarrow> ('d, MsgWrap) action" where
  "GetMsg db ms i d = returned (One_id db (''C'' @ Circle ms) i d)"

definition GetMsgs :: "'d mongo \<Rightarrow> MongoStore \<Rightarrow> int \<Rightarrow> int \<Rightarrow> ('d, MsgWrap list) action" where
  "GetMsgs db ms hi lo d =
     (if lo > hi then (Inr [], d) else returned (All_between db (''C'' @ Circle ms) lo hi d))"

definition GetLastMsg :: "'d mongo \<Rightarrow> MongoStore \<Rightarrow> ('d, LastMessage) action" where
  "GetLastMsg db ms d = (case getCounter db ms d of (n, d') \<Rightarrow> (Inr \<lparr>lastMessage = n\<rparr>, d'))"

text \<open>\<open>now\<close> is what \<open>time.Now\<close> returns.\<close>

definition PostMsg :: "'d mongo \<Rightarrow> MongoStore \<Rightarrow> int \<Rightarrow> MsgWrap \<Rightarrow> ('d, unit) action" where
  "PostMsg db ms now msgw =
     andThen (updateCounter db ms) (\<lambda>n d.
       returned (Insert db (''C'' @ Circle ms) (msgw\<lparr>Id := n, Time := now, Timestamp := timestamp now\<rparr>) d))"

definition mongo_store :: "'d mongo \<Rightarrow> MongoStore \<Rightarrow> int \<Rightarrow> 'd MtsnStore" where
  "mongo_store db ms now =
     \<lparr>getMsg = GetMsg db ms, getMsgs = GetMsgs db ms, getLastMsg = GetLastMsg db ms, postMsg = PostMsg db ms now\<rparr>"

section \<open>The goroutine that expires messages\<close>

text \<open>Errors are printed and passed over.\<close>

definition or_zero :: "'a \<Rightarrow> (string + 'a) \<times> 'd \<Rightarrow> 'a \<times> 'd" where
  "or_zero z r = (case r of (Inl _, d) \<Rightarrow> (z, d) | (Inr x, d) \<Rightarrow> (x, d))"

fun remove_all :: "'d mongo \<Rightarrow> string \<Rightarrow> MsgWrap list \<Rightarrow> 'd \<Rightarrow> 'd" where
  "remove_all db col [] d = d"
| "remove_all db col (m # ms) d = remove_all db col ms (snd (Remove db col (Id m) d))"

fun expire_collections :: "'d mongo \<Rightarrow> int \<Rightarrow> string list \<Rightarrow> 'd \<Rightarrow> 'd" where
  "expire_collections db now [] d = d"
| "expire_collections db now (col # cols) d =
     expire_collections db now cols
       (if \<not> strings_HasPrefix col ''C'' then d
        else case or_zero [] (All_until db col (now - 2160 * 3600) d) of (ms, d') \<Rightarrow> remove_all db col ms d')"

text \<open>One round of \<open>ExpireMessageLoop\<close>, and its rounds at the times at which it wakes up.\<close>

definition ExpireMessages :: "'d mongo \<Rightarrow> int \<Rightarrow> 'd \<Rightarrow> 'd" where
  "ExpireMessages db now d = (case or_zero [] (CollectionNames db d) of (cols, d') \<Rightarrow> expire_collections db now cols d')"

definition ExpireMessageLoop :: "'d mongo \<Rightarrow> int list \<Rightarrow> 'd \<Rightarrow> 'd" where
  "ExpireMessageLoop db wakes d = foldl (\<lambda>d now. ExpireMessages db now d) d wakes"

section \<open>What MongoDB documents\<close>

text \<open>The documents of the database as the operations see them: in each collection the counters by name, and
  the messages by identifier.\<close>

record documents =
  counters :: "string \<Rightarrow> string \<Rightarrow> int option"
  messages :: "string \<Rightarrow> int \<Rightarrow> MsgWrap option"

definition descending :: "MsgWrap list \<Rightarrow> bool" where
  "descending ws \<longleftrightarrow> sorted_wrt (\<lambda>v w. Id v > Id w) ws"

text \<open>Each operation concerns the documents of the collection that it names. An increment creates the counter
  when it is missing, and is promised up to the largest 64-bit integer; an insert under an identifier that is free
  is accepted; a query returns the documents that match. \<open>up\<close> says that the server answers.\<close>

definition law_counter :: "'d mongo \<Rightarrow> ('d \<Rightarrow> bool) \<Rightarrow> ('d \<Rightarrow> documents) \<Rightarrow> bool" where
  "law_counter db up docs \<longleftrightarrow> (\<forall>d c k. up d \<longrightarrow> (case counters (docs d) c k of
        None \<Rightarrow> \<exists>e. One_counter db c k d = (Inl e, d) | Some n \<Rightarrow> One_counter db c k d = (Inr n, d)))"

definition law_inc :: "'d mongo \<Rightarrow> ('d \<Rightarrow> bool) \<Rightarrow> ('d \<Rightarrow> documents) \<Rightarrow> bool" where
  "law_inc db up docs \<longleftrightarrow> (\<forall>d c k n. up d \<longrightarrow> n = (case counters (docs d) c k of None \<Rightarrow> 0 | Some n \<Rightarrow> n) + 1 \<longrightarrow> n \<le> maxInt \<longrightarrow>
        (\<exists>d'. Apply_inc db c k d = (Inr n, d') \<and> up d' \<and>
          docs d' = docs d\<lparr>counters := (counters (docs d))(c := (counters (docs d) c)(k \<mapsto> n))\<rparr>))"

definition law_one :: "'d mongo \<Rightarrow> ('d \<Rightarrow> bool) \<Rightarrow> ('d \<Rightarrow> documents) \<Rightarrow> bool" where
  "law_one db up docs \<longleftrightarrow> (\<forall>d c i. up d \<longrightarrow> (case messages (docs d) c i of
        None \<Rightarrow> \<exists>e. One_id db c i d = (Inl e, d) | Some w \<Rightarrow> One_id db c i d = (Inr w, d)))"

definition law_between :: "'d mongo \<Rightarrow> ('d \<Rightarrow> bool) \<Rightarrow> ('d \<Rightarrow> documents) \<Rightarrow> bool" where
  "law_between db up docs \<longleftrightarrow> (\<forall>d c lo hi. up d \<longrightarrow> (\<exists>ws. All_between db c lo hi d = (Inr ws, d) \<and> descending ws \<and>
        set ws = {w. \<exists>i. lo \<le> i \<and> i \<le> hi \<and> messages (docs d) c i = Some w}))"

definition law_insert :: "'d mongo \<Rightarrow> ('d \<Rightarrow> bool) \<Rightarrow> ('d \<Rightarrow> documents) \<Rightarrow> bool" where
  "law_insert db up docs \<longleftrightarrow> (\<forall>d c w. up d \<longrightarrow> messages (docs d) c (Id w) = None \<longrightarrow> (\<exists>d'. Insert db c w d = (Inr (), d') \<and> up d' \<and>
        docs d' = docs d\<lparr>messages := (messages (docs d))(c := (messages (docs d) c)(Id w \<mapsto> w))\<rparr>))"

definition law_names :: "'d mongo \<Rightarrow> ('d \<Rightarrow> bool) \<Rightarrow> ('d \<Rightarrow> documents) \<Rightarrow> bool" where
  "law_names db up docs \<longleftrightarrow> (\<forall>d. up d \<longrightarrow> (\<exists>cs. CollectionNames db d = (Inr cs, d) \<and> (\<forall>c i. messages (docs d) c i \<noteq> None \<longrightarrow> c \<in> set cs)))"

definition law_until :: "'d mongo \<Rightarrow> ('d \<Rightarrow> bool) \<Rightarrow> ('d \<Rightarrow> documents) \<Rightarrow> bool" where
  "law_until db up docs \<longleftrightarrow> (\<forall>d c t. up d \<longrightarrow> (\<exists>ws. All_until db c t d = (Inr ws, d) \<and>
        set ws = {w. Time w \<le> t \<and> (\<exists>i. messages (docs d) c i = Some w)}))"

definition law_remove :: "'d mongo \<Rightarrow> ('d \<Rightarrow> bool) \<Rightarrow> ('d \<Rightarrow> documents) \<Rightarrow> bool" where
  "law_remove db up docs \<longleftrightarrow> (\<forall>d c i. up d \<longrightarrow> (\<exists>r d'. Remove db c i d = (r, d') \<and> up d' \<and>
        docs d' = docs d\<lparr>messages := (messages (docs d))(c := (messages (docs d) c)(i := None))\<rparr>))"

definition mongo_laws :: "'d mongo \<Rightarrow> ('d \<Rightarrow> bool) \<Rightarrow> ('d \<Rightarrow> documents) \<Rightarrow> bool" where
  "mongo_laws db up docs \<longleftrightarrow> law_counter db up docs \<and> law_inc db up docs \<and> law_one db up docs \<and> law_between db up docs \<and>
     law_insert db up docs \<and> law_names db up docs \<and> law_until db up docs \<and> law_remove db up docs"

text \<open>The documents of a circle are numbered from 1 to its counter, a document of the collection \<open>counters\<close>.\<close>

definition number :: "MongoStore \<Rightarrow> documents \<Rightarrow> int" where
  "number ms D = (case counters D ''counters'' (''C'' @ Circle ms) of None \<Rightarrow> 0 | Some n \<Rightarrow> n)"

definition circle_full :: "MongoStore \<Rightarrow> documents \<Rightarrow> bool" where
  "circle_full ms D \<longleftrightarrow> 0 \<le> number ms D \<and>
     (\<forall>i. (\<exists>w. messages D (''C'' @ Circle ms) i = Some w) \<longleftrightarrow> 1 \<le> i \<and> i \<le> number ms D) \<and>
     (\<forall>i w. messages D (''C'' @ Circle ms) i = Some w \<longrightarrow> Id w = i \<and> msg_ok (Content w))"

definition mongo_log :: "MongoStore \<Rightarrow> documents \<Rightarrow> MsgWrap list" where
  "mongo_log ms D = map (\<lambda>i. the (messages D (''C'' @ Circle ms) i)) [1..number ms D]"

section \<open>The store keeps the contract\<close>

lemma mongo_laws_counter:
  assumes "mongo_laws db up docs" "up d"
  shows "getCounter db ms d = (number ms (docs d), d)"
proof -
  have "law_counter db up docs" using assms(1) by (simp add: mongo_laws_def)
  then have "case counters (docs d) ''counters'' (''C'' @ Circle ms) of
        None \<Rightarrow> \<exists>e. One_counter db ''counters'' (''C'' @ Circle ms) d = (Inl e, d)
      | Some n \<Rightarrow> One_counter db ''counters'' (''C'' @ Circle ms) d = (Inr n, d)"
    using assms(2) unfolding law_counter_def by blast
  then show ?thesis by (auto simp: getCounter_def number_def split: option.splits)
qed

abbreviation counted :: "MongoStore \<Rightarrow> documents \<Rightarrow> documents" where
  "counted ms D \<equiv> D\<lparr>counters := (counters D)(''counters'' := (counters D ''counters'')(''C'' @ Circle ms \<mapsto> number ms D + 1))\<rparr>"

lemma mongo_laws_inc:
  assumes "mongo_laws db up docs" "up d" "number ms (docs d) < maxInt"
  obtains d' where "updateCounter db ms d = (Inr (number ms (docs d) + 1), d')" "up d'" "docs d' = counted ms (docs d)"
proof -
  have "law_inc db up docs" "number ms (docs d) + 1 \<le> maxInt" using assms(1,3) by (simp_all add: mongo_laws_def)
  then obtain d' where "Apply_inc db ''counters'' (''C'' @ Circle ms) d = (Inr (number ms (docs d) + 1), d')" "up d'"
      "docs d' = counted ms (docs d)"
    using assms(2) unfolding law_inc_def number_def by blast
  then show ?thesis using that by (simp add: updateCounter_def)
qed

lemma mongo_laws_one:
  assumes "mongo_laws db up docs" "up d" "messages (docs d) c i = Some w"
  shows "One_id db c i d = (Inr w, d)"
proof -
  have "law_one db up docs" using assms(1) by (simp add: mongo_laws_def)
  then have "case messages (docs d) c i of None \<Rightarrow> \<exists>e. One_id db c i d = (Inl e, d) | Some w \<Rightarrow> One_id db c i d = (Inr w, d)"
    using assms(2) by (simp add: law_one_def)
  then show ?thesis using assms(3) by simp
qed

lemma mongo_laws_between:
  assumes "mongo_laws db up docs" "up d"
  obtains ws where "All_between db c lo hi d = (Inr ws, d)" "descending ws"
    "set ws = {w. \<exists>i. lo \<le> i \<and> i \<le> hi \<and> messages (docs d) c i = Some w}"
proof -
  have "law_between db up docs" using assms(1) by (simp add: mongo_laws_def)
  then show ?thesis using assms(2) that unfolding law_between_def by blast
qed

lemma mongo_laws_insert:
  assumes "mongo_laws db up docs" "up d" "messages (docs d) c (Id w) = None"
  obtains d' where "Insert db c w d = (Inr (), d')" "up d'"
    "docs d' = docs d\<lparr>messages := (messages (docs d))(c := (messages (docs d) c)(Id w \<mapsto> w))\<rparr>"
proof -
  have "law_insert db up docs" using assms(1) by (simp add: mongo_laws_def)
  then show ?thesis using assms(2,3) that unfolding law_insert_def by blast
qed

lemma mongo_laws_names:
  assumes "mongo_laws db up docs" "up d"
  obtains cs where "CollectionNames db d = (Inr cs, d)" "\<forall>c i. messages (docs d) c i \<noteq> None \<longrightarrow> c \<in> set cs"
proof -
  have "law_names db up docs" using assms(1) by (simp add: mongo_laws_def)
  then show ?thesis using assms(2) that unfolding law_names_def by blast
qed

lemma mongo_laws_until:
  assumes "mongo_laws db up docs" "up d"
  obtains ws where "All_until db c t d = (Inr ws, d)"
    "set ws = {w. Time w \<le> t \<and> (\<exists>i. messages (docs d) c i = Some w)}"
proof -
  have "law_until db up docs" using assms(1) by (simp add: mongo_laws_def)
  then show ?thesis using assms(2) that unfolding law_until_def by blast
qed

lemma mongo_laws_remove:
  assumes "mongo_laws db up docs" "up d"
  shows "up (snd (Remove db c i d)) \<and>
    docs (snd (Remove db c i d)) = docs d\<lparr>messages := (messages (docs d))(c := (messages (docs d) c)(i := None))\<rparr>"
proof -
  have "law_remove db up docs" using assms(1) by (simp add: mongo_laws_def)
  then obtain r d' where "Remove db c i d = (r, d')" "up d'"
    "docs d' = docs d\<lparr>messages := (messages (docs d))(c := (messages (docs d) c)(i := None))\<rparr>"
    using assms(2) unfolding law_remove_def by blast
  then show ?thesis by simp
qed

lemma descending_unique:
  assumes "descending xs" "descending ys" "set xs = set ys"
  shows "xs = ys"
  using assms
proof (induction xs arbitrary: ys)
  case (Cons x xs)
  obtain y ys' where ys: "ys = y # ys'" using Cons.prems(3) by (cases ys) auto
  have "x = y"
  proof (rule ccontr)
    assume "x \<noteq> y"
    then have "x \<in> set ys'" "y \<in> set xs" using Cons.prems(3) ys by auto
    then have "Id x < Id y" "Id y < Id x" using Cons.prems(1,2) ys by (auto simp: descending_def)
    then show False by simp
  qed
  moreover have "x \<notin> set xs" "y \<notin> set ys'" using Cons.prems(1,2) ys by (auto simp: descending_def)
  ultimately have "set xs = set ys'" using Cons.prems(3) ys by auto
  then show ?case using Cons.IH[of ys'] Cons.prems(1,2) ys \<open>x = y\<close> by (simp add: descending_def)
qed simp

lemma length_mongo_log: "circle_full ms D \<Longrightarrow> int (length (mongo_log ms D)) = number ms D"
  by (simp add: mongo_log_def circle_full_def)

lemma circle_fullD:
  assumes "circle_full ms D" "1 \<le> i" "i \<le> number ms D"
  obtains w where "messages D (''C'' @ Circle ms) i = Some w" "Id w = i" "msg_ok (Content w)"
proof -
  obtain w where "messages D (''C'' @ Circle ms) i = Some w" using assms unfolding circle_full_def by blast
  then show ?thesis using assms(1) that unfolding circle_full_def by blast
qed

lemma mongo_GetMsg_ok:
  assumes "mongo_laws db up docs" "up d" "circle_full ms (docs d)" "i < length (mongo_log ms (docs d))"
  shows "GetMsg db ms (int i + 1) d = (Inr (mongo_log ms (docs d) ! i), d)"
proof -
  have i: "int i + 1 \<le> number ms (docs d)" using length_mongo_log[OF assms(3)] assms(4) by simp
  obtain w where w: "messages (docs d) (''C'' @ Circle ms) (int i + 1) = Some w"
    by (rule circle_fullD[OF assms(3) _ i]) auto
  have "mongo_log ms (docs d) ! i = w" using w i by (simp add: mongo_log_def nth_upto add.commute)
  then show ?thesis using mongo_laws_one[OF assms(1,2) w] by (simp add: GetMsg_def returned_def)
qed

lemma mongo_GetMsgs_ok:
  assumes "mongo_laws db up docs" "up d" "circle_full ms (docs d)"
    "1 \<le> b" "b \<le> t" "t \<le> length (mongo_log ms (docs d))"
  shows "GetMsgs db ms (int t) (int b) d = (Inr (rev (drop (b - 1) (take t (mongo_log ms (docs d))))), d)"
proof -
  let ?msg = "\<lambda>i. messages (docs d) (''C'' @ Circle ms) i" and ?xs = "[int b..int t]"
  obtain ws where ws: "All_between db (''C'' @ Circle ms) (int b) (int t) d = (Inr ws, d)" "descending ws"
    "set ws = {w. \<exists>i. int b \<le> i \<and> i \<le> int t \<and> ?msg i = Some w}" by (rule mongo_laws_between[OF assms(1,2)])
  have t: "int t \<le> number ms (docs d)" using length_mongo_log[OF assms(3)] assms(6) by simp
  have msg: "?msg i = Some (the (?msg i)) \<and> Id (the (?msg i)) = i" if i: "int b \<le> i" "i \<le> int t" for i
  proof -
    have i': "1 \<le> i" "i \<le> number ms (docs d)" using i t assms(4) by auto
    obtain w where "?msg i = Some w" "Id w = i" by (rule circle_fullD[OF assms(3) i'])
    then show ?thesis by simp
  qed
  have "sorted_wrt (\<lambda>v w. Id v < Id w) (map (\<lambda>i. the (?msg i)) ?xs)"
    unfolding sorted_wrt_map by (rule sorted_wrt_mono_rel[OF _ strict_sorted_iff[THEN iffD2]]) (use msg in auto)
  then have "descending (rev (map (\<lambda>i. the (?msg i)) ?xs))" by (simp add: descending_def sorted_wrt_rev)
  moreover have "set (rev (map (\<lambda>i. the (?msg i)) ?xs)) = set ws" using msg ws(3) by (force simp: image_iff)
  ultimately have "ws = rev (map (\<lambda>i. the (?msg i)) ?xs)" using descending_unique ws(2) by metis
  moreover have "drop (b - 1) (take t [1..number ms (docs d)]) = ?xs"
    using t assms(4,5) by (intro nth_equalityI) (auto simp: nth_upto of_nat_diff)
  ultimately show ?thesis
    using ws(1) assms(5) by (simp add: GetMsgs_def mongo_log_def take_map drop_map returned_def)
qed

lemma mongo_PostMsg_ok:
  assumes "mongo_laws db up docs" "up d" "circle_full ms (docs d)" "msg_ok (Content mw)" "number ms (docs d) < maxInt"
  obtains d' w where "PostMsg db ms now mw d = (Inr (), d')" "up d'" "circle_full ms (docs d')"
    "mongo_log ms (docs d') = mongo_log ms (docs d) @ [w]"
    "w = mw\<lparr>Id := number ms (docs d) + 1, Time := now, Timestamp := timestamp now\<rparr>"
proof -
  let ?c = "''C'' @ Circle ms" and ?n = "number ms (docs d)"
  let ?w = "mw\<lparr>Id := ?n + 1, Time := now, Timestamp := timestamp now\<rparr>"
  obtain d1 where d1: "updateCounter db ms d = (Inr (?n + 1), d1)" "up d1"
    "docs d1 = counted ms (docs d)" by (rule mongo_laws_inc[OF assms(1,2,5)])
  have "(\<exists>w. messages (docs d) ?c (?n + 1) = Some w) \<longleftrightarrow> 1 \<le> ?n + 1 \<and> ?n + 1 \<le> ?n"
    using assms(3) unfolding circle_full_def by blast
  then have free: "messages (docs d1) ?c (Id ?w) = None" using d1(3) by simp
  obtain d2 where d2: "Insert db ?c ?w d1 = (Inr (), d2)" "up d2"
    "docs d2 = docs d1\<lparr>messages := (messages (docs d1))(?c := (messages (docs d1) ?c)(Id ?w \<mapsto> ?w))\<rparr>"
    by (rule mongo_laws_insert[OF assms(1) d1(2) free])
  have post: "PostMsg db ms now mw d = (Inr (), d2)" using d1(1) d2(1) by (simp add: PostMsg_def returned_def)
  have num: "number ms (docs d2) = ?n + 1" using d1(3) d2(3) by (simp add: number_def)
  have msgs: "messages (docs d2) ?c = (messages (docs d) ?c)(?n + 1 \<mapsto> ?w)" using d1(3) d2(3) by simp
  have pos: "0 \<le> ?n" using assms(3) by (simp add: circle_full_def)
  have "(\<exists>w. messages (docs d2) ?c i = Some w) \<longleftrightarrow> 1 \<le> i \<and> i \<le> ?n + 1" for i
    using assms(3) msgs pos unfolding circle_full_def by (cases "i = ?n + 1") auto
  moreover have "messages (docs d2) ?c i = Some w \<Longrightarrow> Id w = i \<and> msg_ok (Content w)" for i w
    using assms(3,4) msgs unfolding circle_full_def by (cases "i = ?n + 1") auto
  ultimately have full: "circle_full ms (docs d2)" using num pos by (simp add: circle_full_def)
  have "[1..?n + 1] = [1..?n] @ [?n + 1]" using upto_rec2[of 1 "?n + 1"] pos by simp
  then have "mongo_log ms (docs d2) = mongo_log ms (docs d) @ [?w]"
    using msgs num by (simp add: mongo_log_def)
  then show ?thesis using that post d2(2) full by blast
qed

section \<open>Expiry\<close>

lemma remove_all_ok:
  assumes "mongo_laws db up docs" "up d"
  shows "up (remove_all db c ms d) \<and> docs (remove_all db c ms d) =
    docs d\<lparr>messages := (messages (docs d))(c := (\<lambda>i. if i \<in> Id ` set ms then None else messages (docs d) c i))\<rparr>"
  using assms(2)
proof (induction ms arbitrary: d)
  case Nil
  then show ?case by simp
next
  case (Cons m ms)
  have "up (snd (Remove db c (Id m) d)) \<and>
    docs (snd (Remove db c (Id m) d)) = docs d\<lparr>messages := (messages (docs d))(c := (messages (docs d) c)(Id m := None))\<rparr>"
    by (rule mongo_laws_remove[OF assms(1) Cons.prems])
  then show ?case using Cons.IH[of "snd (Remove db c (Id m) d)"] by (auto simp: fun_upd_def fun_eq_iff)
qed

definition expired :: "int \<Rightarrow> string \<Rightarrow> MsgWrap \<Rightarrow> bool" where
  "expired now c w \<longleftrightarrow> prefix ''C'' c \<and> Time w \<le> now - 2160 * 3600"

definition purged :: "int \<Rightarrow> string set \<Rightarrow> documents \<Rightarrow> documents" where
  "purged now cs D = D\<lparr>messages := (\<lambda>c i. case messages D c i of None \<Rightarrow> None
     | Some w \<Rightarrow> if c \<in> cs \<and> expired now c w then None else Some w)\<rparr>"

definition keyed :: "documents \<Rightarrow> bool" where
  "keyed D \<longleftrightarrow> (\<forall>c i w. messages D c i = Some w \<longrightarrow> Id w = i)"

lemma keyed_purged: "keyed D \<Longrightarrow> keyed (purged now cs D)"
  by (auto simp: keyed_def purged_def split: option.splits if_splits)

lemma purged_purged: "purged now cs (purged now {c} D) = purged now (insert c cs) D"
  by (auto simp: purged_def fun_eq_iff split: option.splits)

lemma purged_none: "\<not> prefix ''C'' c \<Longrightarrow> purged now {c} D = D"
  by (rule documents.equality) (auto simp: purged_def expired_def fun_eq_iff split: option.splits)

lemma expire_one:
  assumes "mongo_laws db up docs" "up d" "keyed (docs d)" "All_until db c (now - 2160 * 3600) d = (Inr ms, d)"
    "set ms = {w. Time w \<le> now - 2160 * 3600 \<and> (\<exists>i. messages (docs d) c i = Some w)}" "prefix ''C'' c"
  shows "up (remove_all db c ms d)" "docs (remove_all db c ms d) = purged now {c} (docs d)"
proof -
  have ids: "i \<in> Id ` set ms \<longleftrightarrow> (\<exists>w. messages (docs d) c i = Some w \<and> expired now c w)" for i
    using assms(3,6) unfolding assms(5) keyed_def expired_def by (auto simp: image_iff)
  show "up (remove_all db c ms d)" using remove_all_ok[OF assms(1,2)] by blast
  show "docs (remove_all db c ms d) = purged now {c} (docs d)"
    using remove_all_ok[OF assms(1,2), of c ms] ids
    by (auto simp: purged_def fun_eq_iff fun_upd_def split: option.splits)
qed

lemma expire_collections_ok:
  assumes "mongo_laws db up docs" "up d" "keyed (docs d)"
  shows "up (expire_collections db now cols d) \<and> docs (expire_collections db now cols d) = purged now (set cols) (docs d)"
  using assms(2,3)
proof (induction cols arbitrary: d)
  case Nil
  have "purged now {} (docs d) = docs d" by (rule documents.equality) (auto simp: purged_def fun_eq_iff split: option.splits)
  then show ?case using Nil by simp
next
  case (Cons c cols)
  show ?case
  proof (cases "prefix ''C'' c")
    case False
    then show ?thesis
      using Cons.IH[OF Cons.prems] purged_purged[of now "set cols" c "docs d"] purged_none[OF False, of now "docs d"]
      by (simp add: strings_HasPrefix_def)
  next
    case True
    obtain ms where ms: "All_until db c (now - 2160 * 3600) d = (Inr ms, d)"
      "set ms = {w. Time w \<le> now - 2160 * 3600 \<and> (\<exists>i. messages (docs d) c i = Some w)}"
      by (rule mongo_laws_until[OF assms(1) Cons.prems(1)])
    note one = expire_one[OF assms(1) Cons.prems ms True]
    show ?thesis
      using Cons.IH[OF one(1)] one(2) keyed_purged[OF Cons.prems(2)] True ms(1) purged_purged[of now "set cols" c "docs d"]
      by (simp add: strings_HasPrefix_def or_zero_def)
  qed
qed

lemma ExpireMessages_ok:
  assumes "mongo_laws db up docs" "up d" "keyed (docs d)"
  shows "up (ExpireMessages db now d) \<and> docs (ExpireMessages db now d) = purged now UNIV (docs d)"
proof -
  obtain cs where cs: "CollectionNames db d = (Inr cs, d)" "\<forall>c i. messages (docs d) c i \<noteq> None \<longrightarrow> c \<in> set cs"
    by (rule mongo_laws_names[OF assms(1,2)])
  have "purged now (set cs) (docs d) = purged now UNIV (docs d)"
    by (rule documents.equality) (use cs(2) in \<open>auto simp: purged_def fun_eq_iff split: option.splits\<close>)
  then show ?thesis using expire_collections_ok[OF assms, of now cs] cs(1) by (simp add: ExpireMessages_def or_zero_def)
qed

section \<open>A database in memory\<close>

text \<open>The laws can hold: rows of a collection and a message, and a map of counters for each collection.\<close>

record memory =
  rows :: "(string \<times> MsgWrap) list"
  counts :: "string \<Rightarrow> string \<Rightarrow> int option"

fun lookup :: "(string \<times> MsgWrap) list \<Rightarrow> string \<Rightarrow> int \<Rightarrow> MsgWrap option" where
  "lookup [] c i = None"
| "lookup ((c', w) # rs) c i = (if c' = c \<and> Id w = i then Some w else lookup rs c i)"

definition row :: "memory \<Rightarrow> string \<Rightarrow> int \<Rightarrow> MsgWrap option" where
  "row d = lookup (rows d)"

definition in_memory :: "memory mongo" where
  "in_memory =
     \<lparr>One_counter = (\<lambda>c k d. (case counts d c k of None \<Rightarrow> Inl ''not found'' | Some n \<Rightarrow> Inr n, d)),
      Apply_inc = (\<lambda>c k d. let n = (case counts d c k of None \<Rightarrow> 0 | Some n \<Rightarrow> n) + 1 in
        (Inr n, d\<lparr>counts := (counts d)(c := (counts d c)(k \<mapsto> n))\<rparr>)),
      One_id = (\<lambda>c i d. (case row d c i of None \<Rightarrow> Inl ''not found'' | Some w \<Rightarrow> Inr w, d)),
      All_between = (\<lambda>c lo hi d. (Inr (List.map_filter (row d c) (rev [lo..hi])), d)),
      Insert = (\<lambda>c w d. (Inr (), d\<lparr>rows := (c, w) # rows d\<rparr>)),
      CollectionNames = (\<lambda>d. (Inr (map fst (rows d)), d)),
      All_until = (\<lambda>c t d. (Inr (filter (\<lambda>w. Time w \<le> t \<and> row d c (Id w) = Some w) (map snd (rows d))), d)),
      Remove = (\<lambda>c i d. (Inr (), d\<lparr>rows := filter (\<lambda>(c', w). c' = c \<longrightarrow> Id w \<noteq> i) (rows d)\<rparr>))\<rparr>"

definition memory_docs :: "memory \<Rightarrow> documents" where
  "memory_docs d = \<lparr>counters = counts d, messages = row d\<rparr>"

lemma lookup_SomeD: "lookup rs c i = Some w \<Longrightarrow> (c, w) \<in> set rs \<and> Id w = i"
  by (induction rs c i rule: lookup.induct) (auto split: if_splits)

lemma row_SomeD: "row d c i = Some w \<Longrightarrow> (c, w) \<in> set (rows d) \<and> Id w = i"
  by (simp add: row_def lookup_SomeD)

lemma row_counts [simp]: "row (d\<lparr>counts := f\<rparr>) = row d"
  by (simp add: row_def)

lemma row_Cons: "row (d\<lparr>rows := (c, w) # rows d\<rparr>) c' i = (if c' = c \<and> i = Id w then Some w else row d c' i)"
  by (auto simp: row_def)

lemma lookup_filter:
  "lookup (filter (\<lambda>(c', w). c' = c \<longrightarrow> Id w \<noteq> i) rs) c' j = (if c' = c \<and> j = i then None else lookup rs c' j)"
  by (induction rs) auto

lemma row_filter:
  "row (d\<lparr>rows := filter (\<lambda>(c', w). c' = c \<longrightarrow> Id w \<noteq> i) (rows d)\<rparr>) c' j = (if c' = c \<and> j = i then None else row d c' j)"
  using lookup_filter by (simp add: row_def)

lemma descending_rows: "descending (List.map_filter (row d c) (rev [lo..hi]))"
proof -
  have "sorted_wrt (<) xs \<Longrightarrow> descending (List.map_filter (row d c) (rev xs))" for xs
  proof (induction xs)
    case (Cons x xs)
    have "Id v > Id w" if "v \<in> set (List.map_filter (row d c) (rev xs))" "row d c x = Some w" for v w
      using that Cons.prems row_SomeD[of d c] by (fastforce simp: map_filter_def)
    then show ?case
      using Cons by (auto simp: map_filter_def descending_def sorted_wrt_append split: option.splits)
  qed (simp add: map_filter_def descending_def)
  then show ?thesis by (simp add: sorted_wrt_upto)
qed

lemma until_rows:
  "set (filter (\<lambda>w. Time w \<le> t \<and> row d c (Id w) = Some w) (map snd (rows d))) =
     {w. Time w \<le> t \<and> (\<exists>i. row d c i = Some w)}"
proof (intro set_eqI iffI)
  fix w assume "w \<in> {w. Time w \<le> t \<and> (\<exists>i. row d c i = Some w)}"
  then obtain i where i: "Time w \<le> t" "row d c i = Some w" by blast
  have "snd (c, w) \<in> snd ` set (rows d)" using row_SomeD[OF i(2)] by blast
  then show "w \<in> set (filter (\<lambda>w. Time w \<le> t \<and> row d c (Id w) = Some w) (map snd (rows d)))"
    using i row_SomeD[OF i(2)] by simp
qed auto

lemma in_memory_laws: "mongo_laws in_memory (\<lambda>_. True) memory_docs"
  unfolding mongo_laws_def
proof (intro conjI)
  show "law_counter in_memory (\<lambda>_. True) memory_docs"
    by (auto simp: law_counter_def in_memory_def memory_docs_def split: option.splits)
  show "law_inc in_memory (\<lambda>_. True) memory_docs"
    by (simp add: law_inc_def in_memory_def memory_docs_def Let_def)
  show "law_one in_memory (\<lambda>_. True) memory_docs"
    by (auto simp: law_one_def in_memory_def memory_docs_def split: option.splits)
  show "law_between in_memory (\<lambda>_. True) memory_docs"
    using descending_rows by (auto simp: law_between_def in_memory_def memory_docs_def map_filter_def) force
  show "law_insert in_memory (\<lambda>_. True) memory_docs"
    by (auto simp: law_insert_def in_memory_def memory_docs_def row_Cons fun_eq_iff)
  show "law_names in_memory (\<lambda>_. True) memory_docs"
    by (auto simp: law_names_def in_memory_def memory_docs_def dest!: row_SomeD) force
  show "law_until in_memory (\<lambda>_. True) memory_docs"
    by (simp add: law_until_def in_memory_def memory_docs_def until_rows[unfolded set_filter set_map])
  show "law_remove in_memory (\<lambda>_. True) memory_docs"
    by (auto simp: law_remove_def in_memory_def memory_docs_def row_filter fun_eq_iff)
qed

section \<open>The contract\<close>

lemma mongo_keeps_contract:
  assumes "mongo_laws db up docs"
  shows "mtsn_store (mongo_store db ms now) (\<lambda>d. up d \<and> circle_full ms (docs d)) (\<lambda>d. number ms (docs d) < maxInt)
    (\<lambda>d. mongo_log ms (docs d))"
proof
  fix d assume "up d \<and> circle_full ms (docs d)"
  then show "getLastMsg (mongo_store db ms now) d = (Inr \<lparr>lastMessage = int (length (mongo_log ms (docs d)))\<rparr>, d)"
    using mongo_laws_counter[OF assms] length_mongo_log by (simp add: mongo_store_def GetLastMsg_def)
next
  fix d i assume "up d \<and> circle_full ms (docs d)" "i < length (mongo_log ms (docs d))"
  then show "getMsg (mongo_store db ms now) (int i + 1) d = (Inr (mongo_log ms (docs d) ! i), d)"
    using mongo_GetMsg_ok[OF assms] by (simp add: mongo_store_def)
next
  fix d and b t :: nat
  assume "up d \<and> circle_full ms (docs d)" "1 \<le> b" "b \<le> t" "t \<le> length (mongo_log ms (docs d))"
  then show "getMsgs (mongo_store db ms now) (int t) (int b) d = (Inr (rev (drop (b - 1) (take t (mongo_log ms (docs d))))), d)"
    using mongo_GetMsgs_ok[OF assms] by (simp add: mongo_store_def)
next
  fix d and mw :: MsgWrap assume a: "up d \<and> circle_full ms (docs d)" "number ms (docs d) < maxInt" "msg_ok (Content mw)"
  obtain d' w where "PostMsg db ms now mw d = (Inr (), d')" "up d'" "circle_full ms (docs d')"
    "mongo_log ms (docs d') = mongo_log ms (docs d) @ [w]"
    "w = mw\<lparr>Id := number ms (docs d) + 1, Time := now, Timestamp := timestamp now\<rparr>"
    by (rule mongo_PostMsg_ok[OF assms _ _ a(3,2), of now]) (use a in auto)
  then show "\<exists>d' w. postMsg (mongo_store db ms now) mw d = (Inr (), d') \<and> (up d' \<and> circle_full ms (docs d')) \<and>
      mongo_log ms (docs d') = mongo_log ms (docs d) @ [w] \<and> Content w = Content mw \<and>
      Id w = int (length (mongo_log ms (docs d))) + 1"
    using length_mongo_log[of ms "docs d"] a(1) by (simp add: mongo_store_def)
next
  fix d assume a: "up d \<and> circle_full ms (docs d)"
  then show "list_all (\<lambda>w. msg_ok (Content w)) (mongo_log ms (docs d))"
    using circle_fullD[of ms "docs d"] by (auto simp: mongo_log_def list_all_iff) (metis option.sel)
qed

section \<open>Properties\<close>



text \<open>C39: One round of the expiry goroutine removes exactly the messages of the circles' collections
  that are 2160 hours old or older, whatever the order in which the database lists them, and
  leaves the younger messages, the other collections and the counters.\<close>

theorem ExpireMessages_removes_old:
  assumes "mongo_laws db up docs" "up d" "keyed (docs d)"
  shows "up (ExpireMessages db now d) \<and> counters (docs (ExpireMessages db now d)) = counters (docs d) \<and>
    (\<forall>c i w. messages (docs (ExpireMessages db now d)) c i = Some w \<longleftrightarrow>
       messages (docs d) c i = Some w \<and> (prefix ''C'' c \<longrightarrow> now - 2160 * 3600 < Time w))"
  using ExpireMessages_ok[OF assms, of now]
  by (auto simp: purged_def expired_def split: option.splits if_splits)

theorem ExpireMessages_removes_old_witness:
  "messages (memory_docs (ExpireMessages in_memory 9000000
      \<lparr>rows = [(''Cx'', zero_MsgWrap\<lparr>Id := 1\<rparr>), (''Cx'', zero_MsgWrap\<lparr>Id := 2, Time := 8999999\<rparr>)], counts = (\<lambda>c k. None)\<rparr>)) ''Cx'' 2 =
     Some (zero_MsgWrap\<lparr>Id := 2, Time := 8999999\<rparr>)"
proof -
  let ?d = "\<lparr>rows = [(''Cx'', zero_MsgWrap\<lparr>Id := 1\<rparr>), (''Cx'', zero_MsgWrap\<lparr>Id := 2, Time := 8999999\<rparr>)], counts = (\<lambda>c k. None)\<rparr>"
  have "keyed (memory_docs ?d)" using row_SomeD[of ?d] by (auto simp: keyed_def memory_docs_def)
  from ExpireMessages_removes_old[OF in_memory_laws _ this, of 9000000] show ?thesis
    by (simp add: memory_docs_def row_def)
qed

end
