(* ===== verification/TiedotStore.thy ===== *)
theory TiedotStore
  imports Store
begin

text \<open>
  The tiedot backend of server.go (\<open>TiedotStore\<close>). The embedded database is a parameter, a record
  of the operations that the code calls on it; documents are JSON values. The store shares the
  lock of the server with the file backend.
\<close>

section \<open>The database and the state\<close>

text \<open>\<open>Use\<close> says whether a collection is there (else it returns nil); \<open>EvalQuery\<close> lists the identifiers
  of its result in the order in which \<open>range\<close> visits them.\<close>

record 't tiedot =
  Create :: "string \<Rightarrow> ('t, unit) reply"
  Use :: "string \<Rightarrow> 't \<Rightarrow> bool"
  Index :: "string \<Rightarrow> string list \<Rightarrow> ('t, unit) reply"
  EvalQuery :: "jvalue \<Rightarrow> string \<Rightarrow> ('t, int list) reply"
  Insert :: "string \<Rightarrow> jvalue \<Rightarrow> ('t, int) reply"
  Update :: "string \<Rightarrow> int \<Rightarrow> jvalue \<Rightarrow> ('t, unit) reply"
  Read :: "string \<Rightarrow> int \<Rightarrow> ('t, jvalue) reply"

record TiedotStore =
  Circle :: string

record 't tiedot_state =
  Db :: 't
  lock :: nat

definition nil_pointer :: go_error where
  "nil_pointer = Panic ''invalid memory address or nil pointer dereference''"

definition conversion :: go_error where
  "conversion = Panic ''interface conversion''"

text \<open>A call of the database, whose error the code looks at, and one whose error it panics with.\<close>

definition attempt :: "('t, 'a) reply \<Rightarrow> ('t tiedot_state, string + 'a) action" where
  "attempt m s = (case m (Db s) of (r, d) \<Rightarrow> (Inr r, s\<lparr>Db := d\<rparr>))"

definition fail :: "go_error \<Rightarrow> ('s, 'a) action" where
  "fail e s = (Inl e, s)"

definition give :: "'a \<Rightarrow> ('s, 'a) action" where
  "give x s = (Inr x, s)"

definition must :: "string \<Rightarrow> ('t, 'a) reply \<Rightarrow> ('t tiedot_state, 'a) action" where
  "must text m = andThen (attempt m) (\<lambda>r. case r of Inl _ \<Rightarrow> fail (Panic text) | Inr x \<Rightarrow> give x)"

definition check :: "('t, 'a) reply \<Rightarrow> ('t tiedot_state, 'a) action" where
  "check m = andThen (attempt m) (\<lambda>r. case r of Inl e \<Rightarrow> fail (Err e) | Inr x \<Rightarrow> give x)"

text \<open>Every method of a collection that is nil ends in a nil pointer.\<close>

definition with_col :: "'t tiedot \<Rightarrow> string \<Rightarrow> ('t tiedot_state, 'a) action \<Rightarrow> ('t tiedot_state, 'a) action" where
  "with_col td c m s = (if Use td c (Db s) then m s else (Inl nil_pointer, s))"

definition field :: "string \<Rightarrow> jvalue \<Rightarrow> jvalue option" where
  "field k v = (case v of JObj ms \<Rightarrow> map_of (rev ms) k | _ \<Rightarrow> None)"

text \<open>\<open>int(x.(float64))\<close>, for integers that a float64 holds exactly, and \<open>x.(string)\<close>.\<close>

definition as_int :: "jvalue option \<Rightarrow> ('s, int) action" where
  "as_int v = (case v of Some (JNum n) \<Rightarrow> give (fst (Atoi n)) | _ \<Rightarrow> fail conversion)"

definition as_string :: "jvalue option \<Rightarrow> ('s, string) action" where
  "as_string v = (case v of Some (JStr t) \<Rightarrow> give t | _ \<Rightarrow> fail conversion)"

definition as_object :: "jvalue option \<Rightarrow> ('s, jvalue) action" where
  "as_object v = (case v of Some (JObj ms) \<Rightarrow> give (JObj ms) | _ \<Rightarrow> fail conversion)"

section \<open>The operations\<close>

definition query :: "jvalue \<Rightarrow> string \<Rightarrow> jvalue" where
  "query v path = JArr [JObj [(''eq'', v), (''limit'', JNum ''1''), (''in'', JArr [JStr path])]]"

definition last_doc :: "int \<Rightarrow> jvalue" where
  "last_doc n = JObj [(''lastMessage'', JNum (Itoa n)), (''last'', JStr ''message'')]"

text \<open>The index is created in the branch where \<open>Create\<close> fails.\<close>

definition createDB :: "'t tiedot \<Rightarrow> TiedotStore \<Rightarrow> ('t tiedot_state, unit) action" where
  "createDB td ts =
     andThen (attempt (Create td (Circle ts))) (\<lambda>r. case r of
       Inl _ \<Rightarrow> with_col td (Circle ts) (andThen (attempt (Index td (Circle ts) [''Id''])) (\<lambda>_. give ()))
     | Inr _ \<Rightarrow> give ())"

definition updateCounter :: "'t tiedot \<Rightarrow> TiedotStore \<Rightarrow> ('t tiedot_state, int) action" where
  "updateCounter td ts =
     andThen (createDB td ts) (\<lambda>_. with_col td (Circle ts)
     (andThen (must ''query'' (EvalQuery td (query (JStr ''message'') ''last'') (Circle ts))) (\<lambda>result. case result of
       [] \<Rightarrow> andThen (must ''Failed to insert last message.'' (Insert td (Circle ts) (last_doc 1))) (\<lambda>_. give 1)
     | lastid # _ \<Rightarrow>
       andThen (attempt (Read td (Circle ts) lastid)) (\<lambda>r.
       andThen (as_int (case r of Inl _ \<Rightarrow> None | Inr doc \<Rightarrow> field ''lastMessage'' doc)) (\<lambda>lastmsg.
       andThen (must ''Failed to update the last message record.'' (Update td (Circle ts) lastid (last_doc (lastmsg + 1))))
         (\<lambda>_. give (lastmsg + 1)))))))"

definition Unlock :: "'t tiedot_state \<Rightarrow> 't tiedot_state" where
  "Unlock s = s\<lparr>lock := lock s + 1\<rparr>"

text \<open>The error returns do not release the lock.\<close>

definition PostMsg :: "'t tiedot \<Rightarrow> TiedotStore \<Rightarrow> int \<Rightarrow> MsgWrap \<Rightarrow> ('t tiedot_state, unit) action" where
  "PostMsg td ts now msgw =
     andThen (createDB td ts) (\<lambda>_ s.
     case receive (lock s) of None \<Rightarrow> (Inl Diverge, s)
     | Some n \<Rightarrow>
       andThen (updateCounter td ts) (\<lambda>i.
       case json_parse (json_print (msgwrap_json (msgw\<lparr>Id := i, Time := now, Timestamp := timestamp now\<rparr>))) of
         None \<Rightarrow> fail (Err ''Failed to unmarshal'')
       | Some doc \<Rightarrow>
         with_col td (Circle ts) (andThen (check (Insert td (Circle ts) doc)) (\<lambda>_ s. (Inr (), Unlock s))))
       (s\<lparr>lock := n\<rparr>))"

definition GetLastMsg :: "'t tiedot \<Rightarrow> TiedotStore \<Rightarrow> ('t tiedot_state, LastMessage) action" where
  "GetLastMsg td ts =
     andThen (createDB td ts) (\<lambda>_. with_col td (Circle ts)
     (andThen (attempt (Index td (Circle ts) [''last''])) (\<lambda>_.
      andThen (must ''query'' (EvalQuery td (query (JStr ''message'') ''last'') (Circle ts))) (\<lambda>result.
      andThen (attempt (Read td (Circle ts) (case result of [] \<Rightarrow> 0 | lastid # _ \<Rightarrow> lastid))) (\<lambda>r.
      case r of Inl _ \<Rightarrow> give \<lparr>lastMessage = 0\<rparr>
      | Inr doc \<Rightarrow>
        (case field ''lastMessage'' doc of None \<Rightarrow> give \<lparr>lastMessage = 0\<rparr>
         | Some v \<Rightarrow> andThen (as_int (Some v)) (\<lambda>n. give \<lparr>lastMessage = n\<rparr>)))))))"

definition GetMsg :: "'t tiedot \<Rightarrow> TiedotStore \<Rightarrow> int \<Rightarrow> ('t tiedot_state, MsgWrap) action" where
  "GetMsg td ts i =
     andThen (createDB td ts) (\<lambda>_. with_col td (Circle ts)
     (andThen (check (EvalQuery td (query (JNum (Itoa i)) ''Id'') (Circle ts))) (\<lambda>result.
      let mid = (case result of [] \<Rightarrow> 0 | mid # _ \<Rightarrow> mid) in
      if mid = 0 then fail (Err ''Could not find message id'')
      else
        andThen (check (Read td (Circle ts) mid)) (\<lambda>doc.
        andThen (as_object (field ''content'' doc)) (\<lambda>content.
        andThen (as_string (field ''iv'' content)) (\<lambda>iv.
        andThen (as_string (field ''message'' content)) (\<lambda>message.
        andThen (as_int (field ''Id'' doc)) (\<lambda>i.
        andThen (as_string (field ''timestamp'' doc)) (\<lambda>t.
          give \<lparr>Content = \<lparr>Iv = iv, Message = message\<rparr>, Timestamp = t, Time = 0, Id = i\<rparr>)))))))))"

fun GetMsgs_loop :: "'t tiedot \<Rightarrow> TiedotStore \<Rightarrow> MsgWrap list \<Rightarrow> int list \<Rightarrow> ('t tiedot_state, MsgWrap list) action" where
  "GetMsgs_loop td ts msgs [] = give msgs"
| "GetMsgs_loop td ts msgs (i # is) = andThen (GetMsg td ts i) (\<lambda>mw. GetMsgs_loop td ts (msgs @ [mw]) is)"

definition GetMsgs :: "'t tiedot \<Rightarrow> TiedotStore \<Rightarrow> int \<Rightarrow> int \<Rightarrow> ('t tiedot_state, MsgWrap list) action" where
  "GetMsgs td ts hi lo = GetMsgs_loop td ts [] (rev [lo..hi])"

definition tiedot_store :: "'t tiedot \<Rightarrow> TiedotStore \<Rightarrow> int \<Rightarrow> 't tiedot_state MtsnStore" where
  "tiedot_store td ts now =
     \<lparr>getMsg = GetMsg td ts, getMsgs = GetMsgs td ts, getLastMsg = GetLastMsg td ts, postMsg = PostMsg td ts now\<rparr>"

section \<open>The lock\<close>

text \<open>An action that leaves the lock alone, whatever the database does.\<close>

definition keeps_lock :: "('t tiedot_state, 'a) action \<Rightarrow> bool" where
  "keeps_lock m \<longleftrightarrow> (\<forall>s. lock (snd (m s)) = lock s)"

lemma keeps_lock_give [intro, simp]: "keeps_lock (give x)" and keeps_lock_fail [intro, simp]: "keeps_lock (fail e)"
  by (simp_all add: keeps_lock_def give_def fail_def)

lemma keeps_lock_attempt [intro, simp]: "keeps_lock (attempt m)"
  by (simp add: keeps_lock_def attempt_def split: prod.splits)

lemma keeps_lock_andThen [intro]: "keeps_lock m \<Longrightarrow> (\<And>x. keeps_lock (f x)) \<Longrightarrow> keeps_lock (andThen m f)"
  by (simp add: keeps_lock_def andThen_def split: prod.splits sum.splits) (metis snd_conv)

lemma keeps_lock_with_col [intro]: "keeps_lock m \<Longrightarrow> keeps_lock (with_col td c m)"
  by (simp add: keeps_lock_def with_col_def)

lemma keeps_lock_must [intro, simp]: "keeps_lock (must e m)" and keeps_lock_check [intro, simp]: "keeps_lock (check m)"
  by (auto simp: must_def check_def intro!: keeps_lock_andThen split: sum.splits)

lemma keeps_lock_as [intro, simp]: "keeps_lock (as_int v)" "keeps_lock (as_string v)" "keeps_lock (as_object v)"
  by (auto simp: as_int_def as_string_def as_object_def split: option.splits jvalue.splits)

lemma keeps_lock_createDB [intro, simp]: "keeps_lock (createDB td ts)"
  by (auto simp: createDB_def intro!: keeps_lock_andThen keeps_lock_with_col split: sum.splits)

lemma keeps_lock_updateCounter [intro, simp]: "keeps_lock (updateCounter td ts)"
  by (auto simp: updateCounter_def intro!: keeps_lock_andThen keeps_lock_with_col split: sum.splits list.splits)

lemma keeps_lock_GetMsg [intro, simp]: "keeps_lock (GetMsg td ts i)"
  by (auto simp: GetMsg_def Let_def intro!: keeps_lock_andThen keeps_lock_with_col)

lemma keeps_lock_GetLastMsg [intro, simp]: "keeps_lock (GetLastMsg td ts)"
  by (auto simp: GetLastMsg_def intro!: keeps_lock_andThen keeps_lock_with_col split: sum.splits option.splits)

lemma keeps_lockD: "keeps_lock m \<Longrightarrow> m s = (r, s') \<Longrightarrow> lock s' = lock s"
  unfolding keeps_lock_def by (metis snd_conv)

text \<open>\<open>createDB\<close> and \<open>updateCounter\<close> return or panic: they never return an error.\<close>

definition no_error :: "('s, 'a) action \<Rightarrow> bool" where
  "no_error m \<longleftrightarrow> (\<forall>s e. fst (m s) \<noteq> Inl (Err e) \<and> fst (m s) \<noteq> Inl Diverge)"

lemma no_error_simps [intro, simp]: "no_error (give x)" "no_error (fail (Panic e))" "no_error (attempt m)"
  by (auto simp: no_error_def give_def fail_def attempt_def split: prod.splits)

lemma no_error_andThen [intro]: "no_error m \<Longrightarrow> (\<And>x. no_error (f x)) \<Longrightarrow> no_error (andThen m f)"
  by (simp add: no_error_def andThen_def split: prod.splits sum.splits) (metis fst_conv)

lemma no_error_with_col [intro]: "no_error m \<Longrightarrow> no_error (with_col td c m)"
  by (simp add: no_error_def with_col_def nil_pointer_def)

lemma no_error_must [intro, simp]: "no_error (must e m)"
  by (auto simp: must_def intro!: no_error_andThen split: sum.splits)

lemma no_error_as_int [intro, simp]: "no_error (as_int v)"
  by (auto simp: as_int_def conversion_def split: option.splits jvalue.splits)

lemma no_error_createDB [intro, simp]: "no_error (createDB td ts)"
  by (auto simp: createDB_def intro!: no_error_andThen no_error_with_col split: sum.splits)

lemma no_error_updateCounter [intro, simp]: "no_error (updateCounter td ts)"
  by (auto simp: updateCounter_def intro!: no_error_andThen no_error_with_col split: sum.splits list.splits)

text \<open>How a post leaves the lock. A panic leaves it taken when it happens after the receive.\<close>

lemma PostMsg_lock:
  assumes "PostMsg td ts now mw s = (r, s')"
  shows "r = Inr () \<Longrightarrow> lock s' = lock s" and "r = Inl (Err e) \<Longrightarrow> Suc (lock s') = lock s"
    and "lock s = 0 \<Longrightarrow> r \<noteq> Inr () \<and> r \<noteq> Inl (Err e)"
proof -
  have create: "lock s1 = lock s" if "createDB td ts s = (r1, s1)" for r1 s1
    using keeps_lockD[OF keeps_lock_createDB that] .
  have no_err: "r1 \<noteq> Inl (Err e)" if "createDB td ts s = (r1, s1)" for r1 s1 e
    using no_error_createDB[of td ts] that unfolding no_error_def by (metis fst_conv)
  have rest: "(r' = Inr () \<longrightarrow> lock s2 = Suc n) \<and> (r' = Inl (Err e) \<longrightarrow> lock s2 = n)"
    if that: "andThen (updateCounter td ts) (\<lambda>i.
       case json_parse (json_print (msgwrap_json (mw\<lparr>Id := i, Time := now, Timestamp := timestamp now\<rparr>))) of
         None \<Rightarrow> fail (Err ''Failed to unmarshal'')
       | Some doc \<Rightarrow>
         with_col td (Circle ts) (andThen (check (Insert td (Circle ts) doc)) (\<lambda>_ s. (Inr (), Unlock s))))
       (s1\<lparr>lock := n\<rparr>) = (r', s2)" for n s1 r' s2 e
  proof (cases "updateCounter td ts (s1\<lparr>lock := n\<rparr>)")
    case (Pair r3 s3)
    have l3: "lock s3 = n" using keeps_lockD[OF keeps_lock_updateCounter Pair] by simp
    have ck: "lock s4 = n" if "check (Insert td (Circle ts) doc) s3 = (r4, s4)" for doc r4 s4
      using keeps_lockD[OF keeps_lock_check that] l3 by simp
    have "r3 \<noteq> Inl (Err e)"
      using no_error_updateCounter[of td ts] Pair unfolding no_error_def by (metis fst_conv)
    then show ?thesis
      using that Pair l3 ck
      by (auto simp: andThen_def with_col_def fail_def Unlock_def nil_pointer_def
          split: sum.splits option.splits if_splits prod.splits)
  qed
  have main: "(r = Inr () \<longrightarrow> lock s' = lock s) \<and> (r = Inl (Err e) \<longrightarrow> Suc (lock s') = lock s) \<and>
    (lock s = 0 \<longrightarrow> r \<noteq> Inr () \<and> r \<noteq> Inl (Err e))"
  proof (cases "createDB td ts s")
    case (Pair r1 s1)
    show ?thesis
    proof (cases r1)
      case (Inl x)
      then show ?thesis using assms Pair no_err[OF Pair] by (auto simp: PostMsg_def andThen_def)
    next
      case (Inr x)
      show ?thesis
      proof (cases "lock s1")
        case 0
        then show ?thesis using assms Pair Inr create[OF Pair] by (auto simp: PostMsg_def andThen_def receive_def)
      next
        case (Suc n)
        then show ?thesis
          using assms Pair Inr create[OF Pair] rest[where ?s1.0 = s1 and n = n and r' = r and ?s2.0 = s' and e = e] by (simp add: PostMsg_def receive_def)
      qed
    qed
  qed
  show "r = Inr () \<Longrightarrow> lock s' = lock s" "r = Inl (Err e) \<Longrightarrow> Suc (lock s') = lock s"
    "lock s = 0 \<Longrightarrow> r \<noteq> Inr () \<and> r \<noteq> Inl (Err e)" using main by auto
qed

section \<open>A database in memory\<close>

record memory =
  cols :: "string list"
  docs :: "(string \<times> jvalue) list"
  capacity :: nat

text \<open>The identifier of a document is its position, from 1 on; inserts fail beyond the capacity.\<close>

definition matches :: "jvalue \<Rightarrow> string \<Rightarrow> memory \<Rightarrow> nat \<Rightarrow> bool" where
  "matches q c d i =
     (case q of JArr [JObj [(_, v), _, (_, JArr [JStr path])]] \<Rightarrow>
        fst (docs d ! i) = c \<and> field path (snd (docs d ! i)) = Some v | _ \<Rightarrow> False)"

definition in_memory :: "memory tiedot" where
  "in_memory =
     \<lparr>Create = (\<lambda>c d. if c \<in> set (cols d) then (Inl ''exists'', d) else (Inr (), d\<lparr>cols := c # cols d\<rparr>)),
      Use = (\<lambda>c d. c \<in> set (cols d)),
      Index = (\<lambda>c p d. (Inr (), d)),
      EvalQuery = (\<lambda>q c d. (Inr (map (\<lambda>i. int i + 1) (filter (matches q c d) [0..<length (docs d)])), d)),
      Insert = (\<lambda>c v d. if length (docs d) < capacity d then (Inr (int (length (docs d)) + 1), d\<lparr>docs := docs d @ [(c, v)]\<rparr>)
        else (Inl ''full'', d)),
      Update = (\<lambda>c i v d. (Inr (), d\<lparr>docs := (docs d)[nat i - 1 := (c, v)]\<rparr>)),
      Read = (\<lambda>c i d. (if 1 \<le> i \<and> i \<le> int (length (docs d)) then Inr (snd (docs d ! (nat i - 1))) else Inl ''no doc'', d))\<rparr>"

section \<open>Properties\<close>

text \<open>C34: A post to the tiedot backend that returns an error has not released the lock of the server:
  from then on no post to any circle returns, with or without an error.\<close>

theorem tiedot_error_blocks:
  assumes "PostMsg td ts now mw s = (Inl (Err e), s')" "lock s = 1"
  shows "fst (PostMsg td ts' now' mw' s') \<noteq> Inr () \<and> fst (PostMsg td ts' now' mw' s') \<noteq> Inl (Err e')"
proof -
  have "lock s' = 0" using PostMsg_lock(2)[OF assms(1) refl] assms(2) by simp
  then show ?thesis using PostMsg_lock(3)[of td ts' now' mw' s' "fst (PostMsg td ts' now' mw' s')" "snd (PostMsg td ts' now' mw' s')"]
    by simp
qed

definition small_memory :: "memory tiedot_state" where
  "small_memory = \<lparr>Db = \<lparr>cols = [], docs = [], capacity = 1\<rparr>, lock = 1\<rparr>"

lemma small_memory_error:
  "\<exists>e s'. PostMsg in_memory \<lparr>Circle = ''c''\<rparr> now mw small_memory = (Inl (Err e), s')"
proof -
  let ?m = "in_memory" and ?t = "\<lparr>Circle = ''c''\<rparr>"
  let ?d0 = "\<lparr>cols = [''c''], docs = [], capacity = 1\<rparr>" and ?d1 = "\<lparr>cols = [''c''], docs = [(''c'', last_doc 1)], capacity = 1\<rparr>"
  have c: "createDB ?m ?t small_memory = (Inr (), \<lparr>Db = ?d0, lock = 1\<rparr>)"
    by (simp add: createDB_def in_memory_def small_memory_def andThen_def attempt_def give_def)
  have u: "updateCounter ?m ?t \<lparr>Db = ?d0, lock = 0\<rparr> = (Inr 1, \<lparr>Db = ?d1, lock = 0\<rparr>)"
    by (simp add: updateCounter_def createDB_def with_col_def in_memory_def andThen_def attempt_def give_def must_def)
  show ?thesis
    using c u
    by (cases "json_parse (json_print (msgwrap_json (mw\<lparr>Id := 1, Time := now, Timestamp := timestamp now\<rparr>)))")
      (simp_all add: PostMsg_def receive_def fail_def with_col_def check_def andThen_def attempt_def in_memory_def)
qed

theorem tiedot_error_blocks_witness:
  "\<exists>e s'. PostMsg in_memory \<lparr>Circle = ''c''\<rparr> 0 zero_MsgWrap small_memory = (Inl (Err e), s') \<and>
     fst (PostMsg in_memory \<lparr>Circle = ''d''\<rparr> 0 zero_MsgWrap s') \<noteq> Inr () \<and>
     fst (PostMsg in_memory \<lparr>Circle = ''d''\<rparr> 0 zero_MsgWrap s') \<noteq> Inl (Err ''full'')"
proof -
  obtain e s' where e: "PostMsg in_memory \<lparr>Circle = ''c''\<rparr> 0 zero_MsgWrap small_memory = (Inl (Err e), s')"
    using small_memory_error by blast
  show ?thesis
    using e tiedot_error_blocks[OF e, of "\<lparr>Circle = ''d''\<rparr>" 0 zero_MsgWrap "''full''"] by (auto simp: small_memory_def)
qed

lemma field_msgwrap [simp]:
  "field ''content'' (msgwrap_json w) = Some (msg_json (Content w))"
  "field ''Id'' (msgwrap_json w) = Some (JNum (Itoa (Id w)))"
  "field ''timestamp'' (msgwrap_json w) = Some (JStr (Timestamp w))"
  "field ''message'' (msg_json m) = Some (JStr (Message m))"
  "field ''iv'' (msg_json m) = (if Iv m = [] then None else Some (JStr (Iv m)))"
  by (simp_all add: field_def msgwrap_json_def msg_json_def)

lemma as_object_msg [simp]: "as_object (Some (msg_json m)) = give (msg_json m)"
  by (simp add: as_object_def msg_json_def)

text \<open>Reading back a message that the tiedot backend has stored returns it (but for its time) when
  it has an initialisation vector. A message without one, which posting accepts and which is
  stored without that field, makes every read of it panic.\<close>

theorem tiedot_GetMsg_of_stored:
  assumes "createDB td ts s = (Inr (), s1)" "Use td (Circle ts) (Db s1)"
    and "EvalQuery td (query (JNum (Itoa i)) ''Id'') (Circle ts) (Db s1) = (Inr (mid # rest), d2)" "mid \<noteq> 0"
    and "Read td (Circle ts) mid d2 = (Inr (msgwrap_json w), d3)" "minInt \<le> Id w" "Id w \<le> maxInt"
  shows "fst (GetMsg td ts i s) = (if Iv (Content w) = [] then Inl conversion else Inr (w\<lparr>Time := 0\<rparr>))"
  using assms(1-5) Atoi_Itoa[OF assms(6,7)]
  by (simp add: GetMsg_def with_col_def check_def andThen_def attempt_def give_def fail_def as_string_def as_int_def)

definition no_iv :: "memory tiedot_state" where
  "no_iv = \<lparr>Db = \<lparr>cols = [''c''], docs = [(''c'', msgwrap_json zero_MsgWrap)], capacity = 1\<rparr>, lock = 1\<rparr>"

theorem tiedot_GetMsg_of_stored_witness:
  "fst (GetMsg in_memory \<lparr>Circle = ''c''\<rparr> 0 no_iv) = Inl conversion"
proof -
  let ?t = "\<lparr>Circle = ''c''\<rparr>"
  have 1: "createDB in_memory ?t no_iv = (Inr (), no_iv)" "Use in_memory (Circle ?t) (Db no_iv)"
    by (simp_all add: createDB_def in_memory_def no_iv_def with_col_def andThen_def attempt_def give_def)
  have 2: "EvalQuery in_memory (query (JNum (Itoa 0)) ''Id'') (Circle ?t) (Db no_iv) = (Inr (1 # []), Db no_iv)"
    by (simp add: in_memory_def no_iv_def query_def matches_def)
  have 3: "Read in_memory (Circle ?t) 1 (Db no_iv) = (Inr (msgwrap_json zero_MsgWrap), Db no_iv)"
    by (simp add: in_memory_def no_iv_def)
  show ?thesis using tiedot_GetMsg_of_stored[OF 1 2 _ 3] by (simp add: minInt_def maxInt_def)
qed

end
