(* ===== verification/Bits.thy ===== *)
theory Bits
  imports Prelude "HOL-Library.Signed_Division"
begin

text \<open>
  The bit vectors and bit grids of package \<open>qrencode\<close>: the Boolean representation that the
  encoder uses (boolbits.go) and the packed ones over bytes and 32-bit words (bytebits.go,
  int32bits.go). The two packed files are the same code at two widths and are modelled once,
  over words of any width. The interfaces the encoder relies on are the locales
  \<open>bit_vector\<close>, \<open>grid_cells\<close> and \<open>bit_grid\<close>.
\<close>

section \<open>The bit vector interface\<close>

text \<open>The \<open>n\<close> low bits of a number, the most significant first.\<close>

definition msb_bits :: "nat \<Rightarrow> nat \<Rightarrow> bool list" where
  "msb_bits b n = map (bit b) (rev [0..<n])"

lemma msb_bits_0 [simp]: "msb_bits b 0 = []"
  by (simp add: msb_bits_def)

lemma msb_bits_Suc: "msb_bits b (Suc n) = bit b n # msb_bits b n"
  by (simp add: msb_bits_def)

lemma length_msb_bits [simp]: "length (msb_bits b n) = n"
  by (simp add: msb_bits_def)

text \<open>The number that a list of bits denotes, the most significant first.\<close>

definition bits_val :: "bool list \<Rightarrow> nat" where
  "bits_val bs = foldl (\<lambda>n b. 2 * n + of_bool b) 0 bs"

lemma bits_val_append: "bits_val (bs @ cs) = bits_val bs * 2 ^ length cs + bits_val cs"
proof (induction cs rule: rev_induct)
  case Nil
  then show ?case by (simp add: bits_val_def)
next
  case (snoc c cs)
  then show ?case by (simp add: bits_val_def flip: append_assoc)
qed

lemma bits_val_msb_bits: "bits_val (msb_bits b n) = b mod 2 ^ n"
proof (induction n)
  case 0
  then show ?case by (simp add: bits_val_def)
next
  case (Suc n)
  have "bits_val (msb_bits b (Suc n)) = of_bool (bit b n) * 2 ^ n + b mod 2 ^ n"
    using bits_val_append[of "[bit b n]" "msb_bits b n"] Suc
    by (simp add: msb_bits_Suc bits_val_def)
  also have "\<dots> = take_bit (Suc n) b"
    by (simp add: take_bit_Suc_from_most flip: take_bit_eq_mod)
  finally show ?case by (simp add: take_bit_eq_mod)
qed

locale bit_vector =
  fixes Len :: "'v \<Rightarrow> nat"
    and Get :: "'v \<Rightarrow> nat \<Rightarrow> bool go"
    and AppendBit :: "'v \<Rightarrow> bool \<Rightarrow> 'v"
    and Append :: "'v \<Rightarrow> nat \<Rightarrow> nat \<Rightarrow> 'v"
    and AppendBits :: "'v \<Rightarrow> 'v \<Rightarrow> 'v go"
    and abs :: "'v \<Rightarrow> bool list"
    and inv :: "'v \<Rightarrow> bool"
  assumes Len: "inv v \<Longrightarrow> Len v = length (abs v)"
    and Get: "inv v \<Longrightarrow> i < length (abs v) \<Longrightarrow> Get v i = Inr (abs v ! i)"
    and abs_AppendBit: "inv v \<Longrightarrow> abs (AppendBit v x) = abs v @ [x]"
    and inv_AppendBit: "inv v \<Longrightarrow> inv (AppendBit v x)"
    and Append_0: "Append v b 0 = v"
    and Append_Suc: "Append v b (Suc i) = Append (AppendBit v (bit b i)) b i"
    and AppendBits: "inv v \<Longrightarrow> inv w \<Longrightarrow>
          \<exists>u. AppendBits v w = Inr u \<and> abs u = abs v @ abs w \<and> inv u"
begin

lemma Append_spec: "inv v \<Longrightarrow> inv (Append v b n) \<and> abs (Append v b n) = abs v @ msb_bits b n"
  by (induction n arbitrary: v)
    (simp_all add: Append_0 Append_Suc abs_AppendBit inv_AppendBit msb_bits_Suc)

lemma Len_Append: "inv v \<Longrightarrow> Len (Append v b n) = Len v + n"
  using Append_spec[of v b n] by (simp add: Len)

text \<open>What \<open>Append\<close> wrote is read back, bit by bit.\<close>

lemma Get_Append:
  assumes "inv v" "i < Len v + n"
  shows "Get (Append v b n) i =
    Inr (if i < Len v then abs v ! i else bit b (n - 1 - (i - Len v)))"
proof -
  have "Get (Append v b n) i = Inr ((abs v @ msb_bits b n) ! i)"
    using Append_spec[OF assms(1), of b n] assms(2) Get Len[OF assms(1)] by simp
  also have "(abs v @ msb_bits b n) ! i =
      (if i < Len v then abs v ! i else bit b (n - 1 - (i - Len v)))"
    using assms Len[OF assms(1)] by (auto simp: nth_append msb_bits_def rev_nth)
  finally show ?thesis .
qed

text \<open>Reading a whole vector gives its bits: the loop of \<open>String\<close> and of \<open>AppendBits\<close>.\<close>

lemma Get_all: "inv v \<Longrightarrow> mapE (Get v) [0..<Len v] = Inr (abs v)"
  using mapE_total[of "[0..<Len v]" "Get v" "\<lambda>i. abs v ! i"] by (simp add: Get Len map_nth)

end

section \<open>Boolean bit vectors\<close>

record boolBitVector =
  bbits :: "bool list"

definition boolBitVector_Length :: "boolBitVector \<Rightarrow> nat" where
  "boolBitVector_Length v = length (bbits v)"

definition boolBitVector_Get :: "boolBitVector \<Rightarrow> nat \<Rightarrow> bool go" where
  "boolBitVector_Get v i = idx (bbits v) (int i)"

definition boolBitVector_AppendBit :: "boolBitVector \<Rightarrow> bool \<Rightarrow> boolBitVector" where
  "boolBitVector_AppendBit v b = v\<lparr>bbits := bbits v @ [b]\<rparr>"

fun boolBitVector_Append :: "boolBitVector \<Rightarrow> nat \<Rightarrow> nat \<Rightarrow> boolBitVector" where
  "boolBitVector_Append v b 0 = v"
| "boolBitVector_Append v b (Suc i) =
     boolBitVector_Append (boolBitVector_AppendBit v (bit b i)) b i"

definition boolBitVector_AppendBits :: "boolBitVector \<Rightarrow> boolBitVector \<Rightarrow> boolBitVector" where
  "boolBitVector_AppendBits v b = v\<lparr>bbits := bbits v @ bbits b\<rparr>"

interpretation bool_vec: bit_vector boolBitVector_Length boolBitVector_Get boolBitVector_AppendBit
  boolBitVector_Append "\<lambda>v b. Inr (boolBitVector_AppendBits v b)" bbits "\<lambda>_. True"
  by unfold_locales
    (simp_all add: boolBitVector_Length_def boolBitVector_Get_def boolBitVector_AppendBit_def
      boolBitVector_AppendBits_def)

section \<open>Packed bit vectors\<close>

record (overloaded) 'a wordBitVector =
  bitIndex :: nat
  wbits :: "'a word list"

definition wordBitVector_Length :: "'a::len wordBitVector \<Rightarrow> nat" where
  "wordBitVector_Length v =
     (if bitIndex v = 0 then length (wbits v) * LENGTH('a)
      else (length (wbits v) - 1) * LENGTH('a) + bitIndex v)"

definition wordBitVector_Get :: "'a::len wordBitVector \<Rightarrow> nat \<Rightarrow> bool go" where
  "wordBitVector_Get v i =
     bindE (idx (wbits v) (int (i div LENGTH('a)))) (\<lambda>w.
     Inr ((drop_bit (i mod LENGTH('a)) w) AND 1 = 1))"

definition wordBitVector_AppendBit :: "'a::len wordBitVector \<Rightarrow> bool \<Rightarrow> 'a wordBitVector" where
  "wordBitVector_AppendBit v b =
     (let bits = (if bitIndex v = 0 then wbits v @ [0] else wbits v);
          k = length bits - 1;
          w = (if b then bits ! k OR push_bit (bitIndex v) 1
               else bits ! k AND (- 1 XOR push_bit (bitIndex v) 1))
      in v\<lparr>wbits := bits[k := w], bitIndex := (bitIndex v + 1) mod LENGTH('a)\<rparr>)"

fun wordBitVector_Append :: "'a::len wordBitVector \<Rightarrow> nat \<Rightarrow> nat \<Rightarrow> 'a wordBitVector" where
  "wordBitVector_Append v b 0 = v"
| "wordBitVector_Append v b (Suc i) =
     wordBitVector_Append (wordBitVector_AppendBit v (bit b i)) b i"

text \<open>Whole words are appended at a word boundary, single bits elsewhere.\<close>

definition wordBitVector_AppendBits ::
  "'a::len wordBitVector \<Rightarrow> 'a wordBitVector \<Rightarrow> 'a wordBitVector go" where
  "wordBitVector_AppendBits v b =
     (if bitIndex v = 0 then Inr (v\<lparr>bitIndex := bitIndex b, wbits := wbits v @ wbits b\<rparr>)
      else foldE (\<lambda>v i. bindE (wordBitVector_Get b i) (\<lambda>x. Inr (wordBitVector_AppendBit v x)))
             v [0..<wordBitVector_Length b])"

text \<open>The fields are private, and every vector built by the operations keeps this invariant.\<close>

definition word_inv :: "'a::len wordBitVector \<Rightarrow> bool" where
  "word_inv v \<longleftrightarrow> bitIndex v < LENGTH('a) \<and> (bitIndex v \<noteq> 0 \<longrightarrow> wbits v \<noteq> [])"

definition word_abs :: "'a::len wordBitVector \<Rightarrow> bool list" where
  "word_abs v = map (\<lambda>i. bit (wbits v ! (i div LENGTH('a))) (i mod LENGTH('a)))
                  [0..<wordBitVector_Length v]"

text \<open>The word that the next bit goes to.\<close>

definition last_word :: "'a::len wordBitVector \<Rightarrow> nat" where
  "last_word v = (if bitIndex v = 0 then length (wbits v) else length (wbits v) - 1)"

lemma wordBitVector_Length_eq:
  "wordBitVector_Length (v :: 'a::len wordBitVector) = last_word v * LENGTH('a) + bitIndex v"
  by (simp add: wordBitVector_Length_def last_word_def)

lemma word_index_bound:
  assumes "word_inv (v :: 'a::len wordBitVector)" "i < wordBitVector_Length v"
  shows "i div LENGTH('a) < length (wbits v)"
proof (cases "bitIndex v = 0")
  case True
  with assms show ?thesis by (simp add: wordBitVector_Length_def less_mult_imp_div_less)
next
  case False
  with assms have "i < length (wbits v) * LENGTH('a)"
    by (cases "wbits v") (auto simp: wordBitVector_Length_def word_inv_def)
  then show ?thesis by (simp add: less_mult_imp_div_less)
qed

lemma bit_shift_1: "(drop_bit n w AND 1 = 1) = bit (w :: 'a::len word) n"
  by (simp add: bit_iff_and_drop_bit_eq_1)

lemma wordBitVector_Get_spec:
  assumes "word_inv (v :: 'a::len wordBitVector)" "i < length (word_abs v)"
  shows "wordBitVector_Get v i = Inr (word_abs v ! i)"
  using assms word_index_bound[OF assms(1), of i]
  by (simp add: word_abs_def wordBitVector_Get_def bit_shift_1)

lemma last_word_AppendBit:
  fixes v :: "'a::len wordBitVector"
  assumes "word_inv v"
  shows "wordBitVector_Length (wordBitVector_AppendBit v b) = Suc (wordBitVector_Length v)"
    and "word_inv (wordBitVector_AppendBit v b)"
proof -
  have lt: "bitIndex v < LENGTH('a)" using assms by (simp add: word_inv_def)
  show "word_inv (wordBitVector_AppendBit v b)"
    using assms by (auto simp: word_inv_def wordBitVector_AppendBit_def Let_def)
  show "wordBitVector_Length (wordBitVector_AppendBit v b) = Suc (wordBitVector_Length v)"
  proof (cases "Suc (bitIndex v) = LENGTH('a)")
    case True
    then have W: "LENGTH('a) = Suc (bitIndex v)" by simp
    have "wbits v \<noteq> [] \<or> bitIndex v = 0" using assms by (auto simp: word_inv_def)
    then show ?thesis
      by (cases "wbits v") (auto simp: wordBitVector_Length_def wordBitVector_AppendBit_def Let_def W)
  next
    case False
    with lt have "Suc (bitIndex v) mod LENGTH('a) = Suc (bitIndex v)" by simp
    then show ?thesis
      by (auto simp: wordBitVector_Length_def wordBitVector_AppendBit_def Let_def)
  qed
qed

lemma bit_set_word:
  fixes w :: "'a::len word"
  assumes "n < LENGTH('a)" "m < LENGTH('a)"
  shows "bit (if b then w OR push_bit n 1 else w AND (- 1 XOR push_bit n 1)) m =
    (if m = n then b else bit w m)"
  using assms by (auto simp: bit_simps bit_1_iff)

lemma word_abs_AppendBit:
  fixes v :: "'a::len wordBitVector"
  assumes "word_inv v"
  shows "word_abs (wordBitVector_AppendBit v b) = word_abs v @ [b]"
proof (rule nth_equalityI)
  let ?v = "wordBitVector_AppendBit v b"
  let ?W = "LENGTH('a)"
  have lt: "bitIndex v < ?W" using assms by (simp add: word_inv_def)
  show "length (word_abs ?v) = length (word_abs v @ [b])"
    by (simp add: word_abs_def last_word_AppendBit(1)[OF assms])
  fix i
  assume "i < length (word_abs ?v)"
  then have i: "i \<le> wordBitVector_Length v"
    by (simp add: word_abs_def last_word_AppendBit(1)[OF assms])
  let ?bits = "if bitIndex v = 0 then wbits v @ [0] else wbits v"
  have wb: "wbits ?v = ?bits[last_word v := (if b then ?bits ! last_word v OR push_bit (bitIndex v) 1
      else ?bits ! last_word v AND (- 1 XOR push_bit (bitIndex v) 1))]"
    by (simp add: wordBitVector_AppendBit_def Let_def last_word_def)
  have lw: "last_word v < length ?bits"
    using assms by (auto simp: last_word_def word_inv_def)
  have nth: "word_abs ?v ! i = bit (wbits ?v ! (i div ?W)) (i mod ?W)"
    using i by (simp add: word_abs_def last_word_AppendBit(1)[OF assms] del: upt_Suc)
  show "word_abs ?v ! i = (word_abs v @ [b]) ! i"
  proof (cases "i = wordBitVector_Length v")
    case True
    then have pos: "i div ?W = last_word v" "i mod ?W = bitIndex v"
      using lt by (simp_all add: wordBitVector_Length_eq)
    have "word_abs ?v ! i = bit (wbits ?v ! last_word v) (bitIndex v)"
      unfolding nth pos by (rule refl)
    also have "\<dots> = b"
      unfolding wb nth_list_update_eq[OF lw] bit_set_word[OF lt lt] by simp
    finally show ?thesis using True by (simp add: nth_append word_abs_def)
  next
    case False
    with i have il: "i < wordBitVector_Length v" by simp
    have old: "?bits ! (i div ?W) = wbits v ! (i div ?W)"
      using word_index_bound[OF assms il] by (simp add: nth_append)
    have "i mod ?W \<noteq> bitIndex v \<or> i div ?W \<noteq> last_word v"
      using il by (metis div_mult_mod_eq wordBitVector_Length_eq less_irrefl)
    then have "bit (wbits ?v ! (i div ?W)) (i mod ?W) = bit (?bits ! (i div ?W)) (i mod ?W)"
      using lw lt by (auto simp: wb nth_list_update bit_set_word)
    then show ?thesis
      using il by (simp only: nth old) (simp add: nth_append word_abs_def)
  qed
qed

text \<open>Appending a vector at a word boundary keeps the words in place.\<close>

lemma word_abs_concat:
  fixes v w :: "'a::len wordBitVector"
  assumes "word_inv v" "bitIndex v = 0" "word_inv w"
  shows "word_abs (v\<lparr>bitIndex := bitIndex w, wbits := wbits v @ wbits w\<rparr>) = word_abs v @ word_abs w"
    (is "word_abs ?u = _")
proof (rule nth_equalityI)
  let ?W = "LENGTH('a)"
  let ?L = "length (wbits v)"
  have lv: "wordBitVector_Length v = ?L * ?W" using assms(2) by (simp add: wordBitVector_Length_def)
  have lu: "wordBitVector_Length ?u = ?L * ?W + wordBitVector_Length w"
    using assms(3) by (cases "wbits w") (auto simp: wordBitVector_Length_def word_inv_def algebra_simps)
  then show "length (word_abs ?u) = length (word_abs v @ word_abs w)"
    by (simp add: word_abs_def lv)
  fix i
  assume "i < length (word_abs ?u)"
  then have i: "i < ?L * ?W + wordBitVector_Length w" by (simp add: word_abs_def lu)
  show "word_abs ?u ! i = (word_abs v @ word_abs w) ! i"
  proof (cases "i < ?L * ?W")
    case True
    then have "i div ?W < ?L" by (simp add: less_mult_imp_div_less)
    then show ?thesis using True i by (simp add: word_abs_def lu lv nth_append)
  next
    case False
    then obtain j where j: "i = ?L * ?W + j" using le_iff_add by (auto simp: not_less)
    then have "i div ?W = ?L + j div ?W" "i mod ?W = j mod ?W" by simp_all
    then show ?thesis using i j by (simp add: word_abs_def lu lv nth_append)
  qed
qed

lemma foldE_AppendBit:
  fixes v w :: "'a::len wordBitVector"
  assumes "word_inv v" "word_inv w" "n \<le> wordBitVector_Length w"
  shows "\<exists>u. foldE (\<lambda>v i. bindE (wordBitVector_Get w i) (\<lambda>x. Inr (wordBitVector_AppendBit v x)))
      v [0..<n] = Inr u \<and> word_inv u \<and> word_abs u = word_abs v @ take n (word_abs w)"
  using assms(3)
proof (induction n)
  case 0
  then show ?case using assms(1) by simp
next
  case (Suc n)
  then have n: "n < length (word_abs w)" by (simp add: word_abs_def)
  from Suc obtain u where "foldE (\<lambda>v i. bindE (wordBitVector_Get w i) (\<lambda>x. Inr (wordBitVector_AppendBit v x)))
      v [0..<n] = Inr u" "word_inv u" "word_abs u = word_abs v @ take n (word_abs w)"
    by auto
  then show ?case
    using wordBitVector_Get_spec[OF assms(2) n] n
    by (simp add: foldE_append last_word_AppendBit word_abs_AppendBit take_Suc_conv_app_nth)
qed

lemma wordBitVector_AppendBits_spec:
  fixes v w :: "'a::len wordBitVector"
  assumes "word_inv v" "word_inv w"
  shows "\<exists>u. wordBitVector_AppendBits v w = Inr u \<and> word_abs u = word_abs v @ word_abs w \<and> word_inv u"
proof (cases "bitIndex v = 0")
  case True
  moreover have "word_inv (v\<lparr>bitIndex := bitIndex w, wbits := wbits v @ wbits w\<rparr>)"
    using assms by (auto simp: word_inv_def)
  ultimately show ?thesis
    using word_abs_concat[OF assms(1) True assms(2)] by (simp add: wordBitVector_AppendBits_def)
next
  case False
  have "take (wordBitVector_Length w) (word_abs w) = word_abs w" by (simp add: word_abs_def)
  with False foldE_AppendBit[OF assms order_refl] show ?thesis
    by (auto simp: wordBitVector_AppendBits_def)
qed

interpretation word_vec: bit_vector wordBitVector_Length wordBitVector_Get wordBitVector_AppendBit
  wordBitVector_Append wordBitVector_AppendBits word_abs word_inv
proof unfold_locales
  show "wordBitVector_Length v = length (word_abs v)" for v :: "'a wordBitVector"
    by (simp add: word_abs_def)
qed (simp_all add: wordBitVector_Get_spec last_word_AppendBit word_abs_AppendBit
      wordBitVector_AppendBits_spec)

section \<open>The two packed vectors of the source\<close>

text \<open>bytebits.go and int32bits.go are the packed vector at widths 8 and 32.\<close>

type_synonym byteBitVector = "8 wordBitVector"
type_synonym uint32BitVector = "32 wordBitVector"

definition byteBitVector_Length :: "byteBitVector \<Rightarrow> nat" where
  "byteBitVector_Length = wordBitVector_Length"
definition byteBitVector_Get :: "byteBitVector \<Rightarrow> nat \<Rightarrow> bool go" where
  "byteBitVector_Get = wordBitVector_Get"
definition byteBitVector_AppendBit :: "byteBitVector \<Rightarrow> bool \<Rightarrow> byteBitVector" where
  "byteBitVector_AppendBit = wordBitVector_AppendBit"
definition byteBitVector_Append :: "byteBitVector \<Rightarrow> nat \<Rightarrow> nat \<Rightarrow> byteBitVector" where
  "byteBitVector_Append = wordBitVector_Append"
definition byteBitVector_AppendBits :: "byteBitVector \<Rightarrow> byteBitVector \<Rightarrow> byteBitVector go" where
  "byteBitVector_AppendBits = wordBitVector_AppendBits"

definition uint32BitVector_Length :: "uint32BitVector \<Rightarrow> nat" where
  "uint32BitVector_Length = wordBitVector_Length"
definition uint32BitVector_Get :: "uint32BitVector \<Rightarrow> nat \<Rightarrow> bool go" where
  "uint32BitVector_Get = wordBitVector_Get"
definition uint32BitVector_AppendBit :: "uint32BitVector \<Rightarrow> bool \<Rightarrow> uint32BitVector" where
  "uint32BitVector_AppendBit = wordBitVector_AppendBit"
definition uint32BitVector_Append :: "uint32BitVector \<Rightarrow> nat \<Rightarrow> nat \<Rightarrow> uint32BitVector" where
  "uint32BitVector_Append = wordBitVector_Append"
definition uint32BitVector_AppendBits :: "uint32BitVector \<Rightarrow> uint32BitVector \<Rightarrow> uint32BitVector go" where
  "uint32BitVector_AppendBits = wordBitVector_AppendBits"

section \<open>The packed vectors agree with the Boolean one\<close>

text \<open>A client builds a vector by appending bits and numbers, starting from the zero value.\<close>

datatype vec_op = Bit_op bool | Num_op nat nat

fun bool_vec_run :: "boolBitVector \<Rightarrow> vec_op list \<Rightarrow> boolBitVector" where
  "bool_vec_run v [] = v"
| "bool_vec_run v (Bit_op b # ops) = bool_vec_run (boolBitVector_AppendBit v b) ops"
| "bool_vec_run v (Num_op b n # ops) = bool_vec_run (boolBitVector_Append v b n) ops"

fun word_vec_run :: "'a::len wordBitVector \<Rightarrow> vec_op list \<Rightarrow> 'a wordBitVector" where
  "word_vec_run v [] = v"
| "word_vec_run v (Bit_op b # ops) = word_vec_run (wordBitVector_AppendBit v b) ops"
| "word_vec_run v (Num_op b n # ops) = word_vec_run (wordBitVector_Append v b n) ops"

lemma word_vec_run_simulates:
  assumes "word_inv v" "word_abs v = bbits u"
  shows "word_inv (word_vec_run v ops) \<and> word_abs (word_vec_run v ops) = bbits (bool_vec_run u ops)"
  using assms
proof (induction ops arbitrary: v u)
  case Nil
  then show ?case by simp
next
  case (Cons p ops)
  show ?case
  proof (cases p)
    case (Bit_op b)
    with Cons.prems show ?thesis
      using Cons.IH[OF word_vec.inv_AppendBit[OF Cons.prems(1)], of b "boolBitVector_AppendBit u b"]
      by (simp add: word_vec.abs_AppendBit bool_vec.abs_AppendBit)
  next
    case (Num_op b n)
    with Cons show ?thesis
      using Cons.IH[of "wordBitVector_Append v b n" "boolBitVector_Append u b n"]
        word_vec.Append_spec[OF Cons.prems(1), of b n] bool_vec.Append_spec[of u b n]
      by simp
  qed
qed

definition empty_bool_vec :: boolBitVector where "empty_bool_vec = \<lparr>bbits = []\<rparr>"
definition empty_word_vec :: "'a::len wordBitVector" where
  "empty_word_vec = \<lparr>bitIndex = 0, wbits = []\<rparr>"

lemma empty_word_vec: "word_inv empty_word_vec" "word_abs empty_word_vec = []"
  by (simp_all add: empty_word_vec_def word_inv_def word_abs_def wordBitVector_Length_def)

lemma word_vec_run_agrees:
  "wordBitVector_Length (word_vec_run empty_word_vec ops :: 'a::len wordBitVector) =
     boolBitVector_Length (bool_vec_run empty_bool_vec ops)"
  "mapE (wordBitVector_Get (word_vec_run empty_word_vec ops :: 'a::len wordBitVector))
      [0..<boolBitVector_Length (bool_vec_run empty_bool_vec ops)] =
     Inr (bbits (bool_vec_run empty_bool_vec ops))"
proof -
  let ?v = "word_vec_run empty_word_vec ops :: 'a wordBitVector"
  have sim: "word_inv ?v" "word_abs ?v = bbits (bool_vec_run empty_bool_vec ops)"
    using word_vec_run_simulates[of "empty_word_vec :: 'a wordBitVector" empty_bool_vec ops]
    by (simp_all add: empty_bool_vec_def empty_word_vec)
  show "wordBitVector_Length ?v = boolBitVector_Length (bool_vec_run empty_bool_vec ops)"
    by (simp add: word_vec.Len[OF sim(1)] sim(2) boolBitVector_Length_def)
  then show "mapE (wordBitVector_Get ?v) [0..<boolBitVector_Length (bool_vec_run empty_bool_vec ops)] =
     Inr (bbits (bool_vec_run empty_bool_vec ops))"
    using word_vec.Get_all[OF sim(1)] by (simp add: sim)
qed

text \<open>whatever is appended, the vectors packed into bytes and into 32-bit words have the
  length of the Boolean vector, and reading each of their positions gives its bits.\<close>

theorem packed_vectors_agree:
  "byteBitVector_Length (word_vec_run empty_word_vec ops) =
     boolBitVector_Length (bool_vec_run empty_bool_vec ops) \<and>
   mapE (byteBitVector_Get (word_vec_run empty_word_vec ops))
        [0..<boolBitVector_Length (bool_vec_run empty_bool_vec ops)] =
     Inr (bbits (bool_vec_run empty_bool_vec ops)) \<and>
   uint32BitVector_Length (word_vec_run empty_word_vec ops) =
     boolBitVector_Length (bool_vec_run empty_bool_vec ops) \<and>
   mapE (uint32BitVector_Get (word_vec_run empty_word_vec ops))
        [0..<boolBitVector_Length (bool_vec_run empty_bool_vec ops)] =
     Inr (bbits (bool_vec_run empty_bool_vec ops))"
  using word_vec_run_agrees[of ops, where 'a = 8] word_vec_run_agrees[of ops, where 'a = 32]
  by (simp add: byteBitVector_Length_def byteBitVector_Get_def
        uint32BitVector_Length_def uint32BitVector_Get_def)

text \<open>appending the \<open>n\<close> low bits of a number to a bit vector and reading them back as a
  binary number gives the number modulo \<open>2 ^ n\<close>, and the bits before it are kept.\<close>

theorem boolBitVector_Append_value:
  "take (length (bbits v)) (bbits (boolBitVector_Append v b n)) = bbits v \<and>
   bits_val (drop (length (bbits v)) (bbits (boolBitVector_Append v b n))) = b mod 2 ^ n \<and>
   boolBitVector_Length (boolBitVector_Append v b n) = boolBitVector_Length v + n"
  using bool_vec.Append_spec[of v b n] by (simp add: bits_val_msb_bits bool_vec.Len_Append)

end
