(* ===== verification/Grids.thy ===== *)
theory Grids
  imports Bits
begin

text \<open>
  The bit grids of package \<open>qrencode\<close>: a cell is two bits, whether it has been written and
  its value. The Boolean grid (boolbits.go) is the one the encoder draws on; the packed
  grids (bytebits.go, int32bits.go) are the same code at two word widths. Coordinates are
  Go integers; an index outside the backing slice panics.
\<close>

section \<open>The grid interfaces\<close>

text \<open>What drawing needs of a grid, and, in the second interface, what reading cells back needs.\<close>

locale grid_cells =
  fixes Width :: "'g \<Rightarrow> int"
    and Height :: "'g \<Rightarrow> int"
    and Empty :: "'g \<Rightarrow> int \<Rightarrow> int \<Rightarrow> bool go"
    and Set :: "'g \<Rightarrow> int \<Rightarrow> int \<Rightarrow> bool \<Rightarrow> 'g go"
    and Clear :: "'g \<Rightarrow> 'g"
    and inside :: "'g \<Rightarrow> int \<Rightarrow> int \<Rightarrow> bool"
    and inv :: "'g \<Rightarrow> bool"
  assumes inside: "inside g x y \<longleftrightarrow> 0 \<le> x \<and> x < Width g \<and> 0 \<le> y \<and> y < Height g"
    and Empty_total: "inv g \<Longrightarrow> inside g x y \<Longrightarrow> \<exists>e. Empty g x y = Inr e"
    and Set_total: "inv g \<Longrightarrow> inside g x y \<Longrightarrow> \<exists>g'. Set g x y v = Inr g'"
    and inv_Set: "inv g \<Longrightarrow> inside g x y \<Longrightarrow> Set g x y v = Inr g' \<Longrightarrow> inv g'"
    and Width_Set: "Set g x y v = Inr g' \<Longrightarrow> Width g' = Width g \<and> Height g' = Height g"
    and Empty_Set: "inv g \<Longrightarrow> inside g x y \<Longrightarrow> inside g x' y' \<Longrightarrow> Set g x y v = Inr g' \<Longrightarrow>
      Empty g' x' y' = (if x' = x \<and> y' = y then Inr False else Empty g x' y')"
    and Clear: "inv g \<Longrightarrow> inv (Clear g) \<and> Width (Clear g) = Width g \<and> Height (Clear g) = Height g"
    and Empty_Clear: "inv g \<Longrightarrow> inside g x y \<Longrightarrow> Empty (Clear g) x y = Inr True"
begin

lemma inside_Set: "Set g x y v = Inr g' \<Longrightarrow> inside g' x' y' = inside g x' y'"
  using Width_Set by (simp add: inside)

text \<open>Painting a list of cells, one after the other.\<close>

definition paint :: "'g \<Rightarrow> (int \<times> int \<times> bool) list \<Rightarrow> 'g go" where
  "paint g cells = foldE (\<lambda>g (x, y, v). Set g x y v) g cells"

lemma paint_Nil [simp]: "paint g [] = Inr g"
  by (simp add: paint_def)

lemma paint_Cons: "paint g ((x, y, v) # cells) = bindE (Set g x y v) (\<lambda>g'. paint g' cells)"
  by (simp add: paint_def)

lemma paint_append: "paint g (cs @ ds) = bindE (paint g cs) (\<lambda>g'. paint g' ds)"
  by (simp add: paint_def foldE_append)

lemma paint_total:
  assumes "inv g" "list_all (\<lambda>(x, y, v). inside g x y) cells"
  shows "\<exists>g'. paint g cells = Inr g' \<and> inv g' \<and> Width g' = Width g \<and> Height g' = Height g"
  using assms
proof (induction cells arbitrary: g)
  case Nil
  then show ?case by simp
next
  case (Cons c cells)
  obtain x y v where c: "c = (x, y, v)" by (cases c) auto
  have xy: "inside g x y" using Cons.prems(2) by (simp add: c)
  obtain g1 where g1: "Set g x y v = Inr g1" using Set_total[OF Cons.prems(1) xy] by blast
  have "\<exists>g'. paint g1 cells = Inr g' \<and> inv g' \<and> Width g' = Width g1 \<and> Height g' = Height g1"
    using Cons.IH[OF inv_Set[OF Cons.prems(1) xy g1]] Cons.prems(2) inside_Set[OF g1] by simp
  then show ?case using g1 Width_Set[OF g1] by (auto simp: c paint_Cons)
qed

lemma paint_Empty:
  assumes "inv g" "list_all (\<lambda>(x, y, v). inside g x y) cells" "inside g x' y'"
    and "paint g cells = Inr g'"
  shows "Empty g' x' y' = (if \<exists>v. (x', y', v) \<in> set cells then Inr False else Empty g x' y')"
  using assms
proof (induction cells arbitrary: g)
  case Nil
  then show ?case by simp
next
  case (Cons c cells)
  obtain x y v where c: "c = (x, y, v)" by (cases c) auto
  have xy: "inside g x y" using Cons.prems(2) by (simp add: c)
  from Cons.prems(4) obtain g1 where g1: "Set g x y v = Inr g1" "paint g1 cells = Inr g'"
    by (auto simp: c paint_Cons)
  have "Empty g' x' y' = (if \<exists>v. (x', y', v) \<in> set cells then Inr False else Empty g1 x' y')"
    using Cons.IH[OF inv_Set[OF Cons.prems(1) xy g1(1)] _ _ g1(2)] Cons.prems(2,3) inside_Set[OF g1(1)]
    by simp
  then show ?case
    using Empty_Set[OF Cons.prems(1) xy Cons.prems(3) g1(1)] by (auto simp: c)
qed

end

locale bit_grid = grid_cells +
  fixes Get :: "'a \<Rightarrow> int \<Rightarrow> int \<Rightarrow> bool go"
  assumes Get_total: "inv g \<Longrightarrow> inside g x y \<Longrightarrow> \<exists>b. Get g x y = Inr b"
    and Get_Set: "inv g \<Longrightarrow> inside g x y \<Longrightarrow> inside g x' y' \<Longrightarrow> Set g x y v = Inr g' \<Longrightarrow>
      Get g' x' y' = (if x' = x \<and> y' = y then Inr v else Get g x' y')"
begin

lemma paint_Get_other:
  assumes "inv g" "list_all (\<lambda>(x, y, v). inside g x y) cells" "inside g x' y'"
    and "paint g cells = Inr g'" "\<And>v. (x', y', v) \<notin> set cells"
  shows "Get g' x' y' = Get g x' y'"
  using assms
proof (induction cells arbitrary: g)
  case Nil
  then show ?case by simp
next
  case (Cons c cells)
  obtain x y v where c: "c = (x, y, v)" by (cases c) auto
  have xy: "inside g x y" using Cons.prems(2) by (simp add: c)
  from Cons.prems(4) obtain g1 where g1: "Set g x y v = Inr g1" "paint g1 cells = Inr g'"
    by (auto simp: c paint_Cons)
  have "Get g' x' y' = Get g1 x' y'"
    using Cons.IH[OF inv_Set[OF Cons.prems(1) xy g1(1)] _ _ g1(2)] Cons.prems(2,3,5) inside_Set[OF g1(1)]
    by simp
  then show ?case
    using Get_Set[OF Cons.prems(1) xy Cons.prems(3) g1(1)] Cons.prems(5)[of v] by (auto simp: c)
qed

text \<open>A cell that is painted once has the value it was painted with.\<close>

lemma paint_Get_once:
  assumes "inv g" "list_all (\<lambda>(x, y, v). inside g x y) cells"
    and "paint g cells = Inr g'" "distinct (map (\<lambda>(x, y, v). (x, y)) cells)" "(x, y, v) \<in> set cells"
  shows "Get g' x y = Inr v"
proof -
  from assms(5) obtain cs ds where sp: "cells = cs @ (x, y, v) # ds" by (meson split_list)
  from assms(3) obtain g1 g2 where g1: "paint g cs = Inr g1" and g2: "Set g1 x y v = Inr g2"
    and g3: "paint g2 ds = Inr g'"
    by (auto simp: sp paint_append paint_Cons)
  have inc: "list_all (\<lambda>(x, y, v). inside g x y) cs" using assms(2) by (simp add: sp)
  obtain g1' where "paint g cs = Inr g1'" "inv g1'" "Width g1' = Width g \<and> Height g1' = Height g"
    using paint_total[OF assms(1) inc] by blast
  with g1 have i1: "inv g1" "\<And>a b. inside g1 a b = inside g a b" by (auto simp: inside)
  have xy: "inside g1 x y" using assms(2) i1(2) by (simp add: sp)
  have i2: "inv g2" "\<And>a b. inside g2 a b = inside g a b"
    using inv_Set[OF i1(1) xy g2] inside_Set[OF g2] i1(2) by auto
  have "\<And>w. (x, y, w) \<notin> set ds" using assms(4) by (force simp: sp)
  then have "Get g' x y = Get g2 x y"
    using paint_Get_other[OF i2(1) _ _ g3] assms(2) i2(2) by (simp add: sp)
  then show ?thesis using Get_Set[OF i1(1) xy xy g2] by simp
qed

end

section \<open>The Boolean grid\<close>

record boolBitGrid =
  width :: int
  height :: int
  bits :: "bool list"

definition newBoolBitGrid :: "int \<Rightarrow> int \<Rightarrow> boolBitGrid" where
  "newBoolBitGrid w h = \<lparr>width = w, height = h, bits = replicate (nat (2 * w * h)) False\<rparr>"

definition boolBitGrid_Empty :: "boolBitGrid \<Rightarrow> int \<Rightarrow> int \<Rightarrow> bool go" where
  "boolBitGrid_Empty g x y = bindE (idx (bits g) (2 * (x + y * width g))) (\<lambda>b. Inr (\<not> b))"

definition boolBitGrid_Get :: "boolBitGrid \<Rightarrow> int \<Rightarrow> int \<Rightarrow> bool go" where
  "boolBitGrid_Get g x y = idx (bits g) (2 * (x + y * width g) + 1)"

definition boolBitGrid_Set :: "boolBitGrid \<Rightarrow> int \<Rightarrow> int \<Rightarrow> bool \<Rightarrow> boolBitGrid go" where
  "boolBitGrid_Set g x y v =
     bindE (upd (bits g) (2 * (x + y * width g)) True) (\<lambda>bs.
     bindE (upd bs (2 * (x + y * width g) + 1) v) (\<lambda>bs'. Inr (g\<lparr>bits := bs'\<rparr>)))"

definition boolBitGrid_Clear :: "boolBitGrid \<Rightarrow> boolBitGrid" where
  "boolBitGrid_Clear g = g\<lparr>bits := map (\<lambda>_. False) (bits g)\<rparr>"

definition bool_inside :: "boolBitGrid \<Rightarrow> int \<Rightarrow> int \<Rightarrow> bool" where
  "bool_inside g x y \<longleftrightarrow> 0 \<le> x \<and> x < width g \<and> 0 \<le> y \<and> y < height g"

definition bool_grid_inv :: "boolBitGrid \<Rightarrow> bool" where
  "bool_grid_inv g \<longleftrightarrow> int (length (bits g)) = 2 * width g * height g"

lemma flat_bound:
  fixes x y w h :: int
  assumes "0 \<le> x" "x < w" "0 \<le> y" "y < h"
  shows "0 \<le> x + y * w" "x + y * w < w * h"
proof -
  show "0 \<le> x + y * w" using assms by simp
  have "x + y * w < (y + 1) * w" using assms by (simp add: algebra_simps)
  also have "\<dots> \<le> h * w" using assms by (intro mult_right_mono) auto
  finally show "x + y * w < w * h" by (simp add: mult.commute)
qed

lemma flat_inj:
  fixes x y w :: int
  assumes "0 \<le> x" "x < w" "0 \<le> x'" "x' < w" "x + y * w = x' + y' * w"
  shows "x = x' \<and> y = y'"
proof -
  have "(x + y * w) mod w = x" "(x' + y' * w) mod w = x'" using assms(1-4) by simp_all
  then have "x = x'" using assms(5) by metis
  moreover have "w \<noteq> 0" using assms(1,2) by simp
  ultimately show ?thesis using assms(5) by simp
qed

lemma bool_index:
  assumes "bool_grid_inv g" "bool_inside g x y"
  shows "0 \<le> 2 * (x + y * width g)" "2 * (x + y * width g) + 1 < int (length (bits g))"
  using flat_bound[of x "width g" y "height g"] assms
  by (simp_all add: bool_grid_inv_def bool_inside_def algebra_simps)

lemma bool_Set_Inr:
  assumes "bool_grid_inv g" "bool_inside g x y"
  shows "boolBitGrid_Set g x y v = Inr (g\<lparr>bits := (bits g)
    [nat (2 * (x + y * width g)) := True, nat (2 * (x + y * width g) + 1) := v]\<rparr>)"
  using bool_index[OF assms] by (simp add: boolBitGrid_Set_def)

lemma upd_length: "upd xs i v = Inr ys \<Longrightarrow> length ys = length xs"
  by (auto simp: upd_def split: if_splits)

interpretation bool_grid: bit_grid width height boolBitGrid_Empty boolBitGrid_Set boolBitGrid_Clear
  bool_inside bool_grid_inv boolBitGrid_Get
proof unfold_locales
  fix g x y
  show "bool_inside g x y \<longleftrightarrow> 0 \<le> x \<and> x < width g \<and> 0 \<le> y \<and> y < height g"
    by (simp add: bool_inside_def)
  assume g: "bool_grid_inv g" and xy: "bool_inside g x y"
  note ix = bool_index[OF g xy]
  show "\<exists>e. boolBitGrid_Empty g x y = Inr e" using ix by (simp add: boolBitGrid_Empty_def)
  show "\<exists>b. boolBitGrid_Get g x y = Inr b" using ix by (simp add: boolBitGrid_Get_def)
  show "\<exists>g'. boolBitGrid_Set g x y v = Inr g'" for v using bool_Set_Inr[OF g xy] by simp
  show "bool_grid_inv g'" if "boolBitGrid_Set g x y v = Inr g'" for v g'
    using that bool_Set_Inr[OF g xy, of v] g by (auto simp: bool_grid_inv_def)
  show "boolBitGrid_Empty (boolBitGrid_Clear g) x y = Inr True"
    using ix by (simp add: boolBitGrid_Empty_def boolBitGrid_Clear_def)
  fix x' y' v g'
  assume xy': "bool_inside g x' y'" and set: "boolBitGrid_Set g x y v = Inr g'"
  note ix' = bool_index[OF g xy']
  have g': "g' = g\<lparr>bits := (bits g)
    [nat (2 * (x + y * width g)) := True, nat (2 * (x + y * width g) + 1) := v]\<rparr>"
    using set bool_Set_Inr[OF g xy, of v] by simp
  have same: "x + y * width g = x' + y' * width g \<longleftrightarrow> x' = x \<and> y' = y"
    using flat_inj[of x "width g" x' y y'] xy xy' by (auto simp: bool_inside_def)
  let ?i = "2 * (x + y * width g)" and ?j = "2 * (x' + y' * width g)"
  have ij: "nat ?i = nat ?j \<longleftrightarrow> x' = x \<and> y' = y" "nat (?i + 1) = nat (?j + 1) \<longleftrightarrow> x' = x \<and> y' = y"
    "nat ?i \<noteq> nat (?j + 1)" "nat (?i + 1) \<noteq> nat ?j"
    using ix ix' same by (auto simp: eq_nat_nat_iff)
  show "boolBitGrid_Empty g' x' y' = (if x' = x \<and> y' = y then Inr False else boolBitGrid_Empty g x' y')"
    using ix ix' ij by (auto simp: boolBitGrid_Empty_def g' nth_list_update)
  show "boolBitGrid_Get g' x' y' = (if x' = x \<and> y' = y then Inr v else boolBitGrid_Get g x' y')"
    using ix ix' ij by (auto simp: boolBitGrid_Get_def g' nth_list_update)
next
  fix g g' x y v
  assume "boolBitGrid_Set g x y v = Inr g'"
  then show "width g' = width g \<and> height g' = height g"
    by (auto simp: boolBitGrid_Set_def)
next
  fix g
  assume "bool_grid_inv g"
  then show "bool_grid_inv (boolBitGrid_Clear g) \<and> width (boolBitGrid_Clear g) = width g
      \<and> height (boolBitGrid_Clear g) = height g"
    by (simp add: bool_grid_inv_def boolBitGrid_Clear_def)
qed

lemma newBoolBitGrid_inv: "0 \<le> w \<Longrightarrow> 0 \<le> h \<Longrightarrow> bool_grid_inv (newBoolBitGrid w h)"
  by (simp add: newBoolBitGrid_def bool_grid_inv_def)

section \<open>Packed grids\<close>

text \<open>
  Go's quotient truncates, and a shift count is an unsigned 64-bit value, so a slightly
  negative index reads word 0 shifted out of range instead of panicking.
\<close>

record (overloaded) 'a wordBitGrid =
  wwidth :: int
  wheight :: int
  gwords :: "'a word list"

definition newWordBitGrid :: "int \<Rightarrow> int \<Rightarrow> 'a::len wordBitGrid" where
  "newWordBitGrid w h = \<lparr>wwidth = w, wheight = h,
     gwords = replicate (nat ((2 * w * h + int (LENGTH('a)) - 1) sdiv int (LENGTH('a)))) 0\<rparr>"

definition shift_count :: "int \<Rightarrow> nat" where
  "shift_count k = nat (k mod 2 ^ 64)"

definition wordBitGrid_Empty :: "'a::len wordBitGrid \<Rightarrow> int \<Rightarrow> int \<Rightarrow> bool go" where
  "wordBitGrid_Empty g x y =
     (let i = 2 * (x + y * wwidth g); W = int (LENGTH('a)) in
      bindE (idx (gwords g) (i sdiv W)) (\<lambda>b.
      Inr (drop_bit (shift_count (i smod W)) b AND 1 = 0)))"

definition wordBitGrid_Get :: "'a::len wordBitGrid \<Rightarrow> int \<Rightarrow> int \<Rightarrow> bool go" where
  "wordBitGrid_Get g x y =
     (let i = 2 * (x + y * wwidth g) + 1; W = int (LENGTH('a)) in
      bindE (idx (gwords g) (i sdiv W)) (\<lambda>b.
      Inr (drop_bit (shift_count (i smod W)) b AND 1 = 0)))"

definition wordBitGrid_Set :: "'a::len wordBitGrid \<Rightarrow> int \<Rightarrow> int \<Rightarrow> bool \<Rightarrow> 'a wordBitGrid go" where
  "wordBitGrid_Set g x y v =
     (let i = 2 * (x + y * wwidth g); W = int (LENGTH('a)) in
      bindE (idx (gwords g) (i sdiv W)) (\<lambda>b.
      let b' = (if v then b OR push_bit (shift_count (i smod W)) 3
                else (b OR push_bit (shift_count (i smod W)) 1)
                     AND (- 1 XOR push_bit (shift_count (i smod W + 1)) 1))
      in bindE (upd (gwords g) (i sdiv W) b') (\<lambda>bs. Inr (g\<lparr>gwords := bs\<rparr>))))"

definition wordBitGrid_Clear :: "'a::len wordBitGrid \<Rightarrow> 'a wordBitGrid" where
  "wordBitGrid_Clear g = g\<lparr>gwords := map (\<lambda>_. 0) (gwords g)\<rparr>"

definition word_inside :: "'a::len wordBitGrid \<Rightarrow> int \<Rightarrow> int \<Rightarrow> bool" where
  "word_inside g x y \<longleftrightarrow> 0 \<le> x \<and> x < wwidth g \<and> 0 \<le> y \<and> y < wheight g"

text \<open>
  The two bits of a cell share a word because the width is even; every bit index that a cell
  inside the grid uses has a word, and a shift count below the width is its own 64-bit value.
\<close>

definition word_grid_inv :: "'a::len wordBitGrid \<Rightarrow> bool" where
  "word_grid_inv g \<longleftrightarrow> even (LENGTH('a)) \<and> LENGTH('a) < 2 ^ 64 \<and>
     2 * wwidth g * wheight g \<le> int (length (gwords g)) * int (LENGTH('a))"

definition grid_bit :: "'a::len wordBitGrid \<Rightarrow> nat \<Rightarrow> bool" where
  "grid_bit g p = bit (gwords g ! (p div LENGTH('a))) (p mod LENGTH('a))"

definition cell_pos :: "'a::len wordBitGrid \<Rightarrow> int \<Rightarrow> int \<Rightarrow> nat" where
  "cell_pos g x y = nat (2 * (x + y * wwidth g))"

lemma word_index:
  fixes g :: "'a::len wordBitGrid"
  assumes "word_grid_inv g" "word_inside g x y"
  shows "2 * (x + y * wwidth g) = int (cell_pos g x y)"
    and "cell_pos g x y div LENGTH('a) < length (gwords g)"
    and "Suc (cell_pos g x y) div LENGTH('a) = cell_pos g x y div LENGTH('a)"
    and "Suc (cell_pos g x y) mod LENGTH('a) = Suc (cell_pos g x y mod LENGTH('a))"
proof -
  have fb: "0 \<le> x + y * wwidth g" "x + y * wwidth g < wwidth g * wheight g"
    using flat_bound[of x "wwidth g" y "wheight g"] assms(2) by (simp_all add: word_inside_def)
  show i: "2 * (x + y * wwidth g) = int (cell_pos g x y)" using fb by (simp add: cell_pos_def)
  have "int (cell_pos g x y) < int (length (gwords g)) * int (LENGTH('a))"
    using fb assms(1) i by (simp add: word_grid_inv_def)
  then have "cell_pos g x y < length (gwords g) * LENGTH('a)" by (simp flip: of_nat_mult)
  then show "cell_pos g x y div LENGTH('a) < length (gwords g)" by (simp add: less_mult_imp_div_less)
  have "even (cell_pos g x y)" using i by presburger
  moreover have "even (LENGTH('a))" using assms(1) by (simp add: word_grid_inv_def)
  ultimately have "even (cell_pos g x y mod LENGTH('a))" by (simp add: dvd_mod)
  then have "Suc (cell_pos g x y mod LENGTH('a)) \<noteq> LENGTH('a)"
    using \<open>even (LENGTH('a))\<close> by (metis even_Suc)
  then have "Suc (cell_pos g x y mod LENGTH('a)) < LENGTH('a)"
    by (simp add: Suc_lessI)
  then show "Suc (cell_pos g x y) mod LENGTH('a) = Suc (cell_pos g x y mod LENGTH('a))"
    and "Suc (cell_pos g x y) div LENGTH('a) = cell_pos g x y div LENGTH('a)"
    by (simp_all add: mod_Suc div_Suc)
qed

lemma sdiv_smod_int: "int a sdiv int b = int (a div b)" "int a smod int b = int (a mod b)"
  by (cases a; cases b; simp add: signed_divide_int_def signed_modulo_int_def sgn_if of_nat_div
      of_nat_mod del: of_nat_Suc)+

lemma shift_count_small: "word_grid_inv (g :: 'a::len wordBitGrid) \<Longrightarrow>
    k < LENGTH('a) \<Longrightarrow> shift_count (int k) = k"
  by (simp add: shift_count_def word_grid_inv_def)

lemma drop_bit_0: "(drop_bit n w AND 1 = 0) = (\<not> bit (w :: 'a::len word) n)"
  by (simp add: bit_iff_and_drop_bit_eq_1 and_one_eq mod_2_eq_odd)

lemma word_Empty_eq:
  fixes g :: "'a::len wordBitGrid"
  assumes "word_grid_inv g" "word_inside g x y"
  shows "wordBitGrid_Empty g x y = Inr (\<not> grid_bit g (cell_pos g x y))"
  using word_index[OF assms] shift_count_small[OF assms(1)]
  by (simp add: wordBitGrid_Empty_def Let_def sdiv_smod_int grid_bit_def drop_bit_0)

lemma word_Get_eq:
  fixes g :: "'a::len wordBitGrid"
  assumes "word_grid_inv g" "word_inside g x y"
  shows "wordBitGrid_Get g x y = Inr (\<not> grid_bit g (Suc (cell_pos g x y)))"
proof -
  have "2 * (x + y * wwidth g) + 1 = int (Suc (cell_pos g x y))"
    using word_index(1)[OF assms] by simp
  moreover have "Suc (cell_pos g x y mod LENGTH('a)) < LENGTH('a)"
    using word_index(4)[OF assms] by (metis len_gt_0 mod_less_divisor)
  ultimately show ?thesis
    using word_index(2-4)[OF assms] shift_count_small[OF assms(1)]
    unfolding wordBitGrid_Get_def Let_def
    by (simp add: sdiv_smod_int grid_bit_def drop_bit_0 del: of_nat_Suc)
qed

text \<open>Setting a cell writes its two bits and no other.\<close>

lemma bit_set_cell:
  fixes w :: "'a::len word"
  assumes "Suc n < LENGTH('a)" "m < LENGTH('a)"
  shows "bit (if v then w OR push_bit n 3
      else (w OR push_bit n 1) AND (- 1 XOR push_bit (Suc n) 1)) m =
    (if m = n then True else if m = Suc n then v else bit w m)"
proof -
  have three: "bit (3 :: 'a word) k = (k < 2 \<and> k < LENGTH('a))" for k
  proof -
    have "(3 :: 'a word) = mask 2" by (simp add: mask_eq_exp_minus_1)
    then have "bit (3 :: 'a word) k = bit (mask 2 :: 'a word) k" by simp
    also have "\<dots> = (k < 2 \<and> k < LENGTH('a))" by (auto simp only: bit_simps possible_bit_word)
    finally show ?thesis .
  qed
  show ?thesis using assms three[of "m - n"] by (auto simp: bit_simps bit_1_iff)
qed

lemma word_Set_bits:
  fixes g :: "'a::len wordBitGrid"
  assumes "word_grid_inv g" "word_inside g x y"
  obtains g' where "wordBitGrid_Set g x y v = Inr g'"
    and "length (gwords g') = length (gwords g)" "wwidth g' = wwidth g" "wheight g' = wheight g"
    and "\<And>p. p div LENGTH('a) < length (gwords g) \<Longrightarrow> grid_bit g' p =
      (if p = cell_pos g x y then True else if p = Suc (cell_pos g x y) then v else grid_bit g p)"
proof -
  let ?W = "LENGTH('a)" and ?c = "cell_pos g x y"
  let ?n = "?c mod ?W" and ?k = "?c div ?W"
  note ix = word_index[OF assms]
  have n: "Suc ?n < ?W" using ix(4) by (metis len_gt_0 mod_less_divisor)
  let ?b = "if v then gwords g ! ?k OR push_bit ?n 3
      else (gwords g ! ?k OR push_bit ?n 1) AND (- 1 XOR push_bit (Suc ?n) 1)"
  let ?g = "g\<lparr>gwords := (gwords g)[?k := ?b]\<rparr>"
  have sc: "shift_count (int ?n + 1) = Suc ?n"
    using shift_count_small[OF assms(1) n] by (simp add: add.commute)
  have "wordBitGrid_Set g x y v = Inr ?g"
    using ix(2) shift_count_small[OF assms(1)]
    unfolding wordBitGrid_Set_def Let_def ix(1) sdiv_smod_int sc by simp
  moreover have "grid_bit ?g p =
      (if p = ?c then True else if p = Suc ?c then v else grid_bit g p)"
    if p: "p div ?W < length (gwords g)" for p
  proof (cases "p div ?W = ?k")
    case True
    have "p = ?c \<longleftrightarrow> p mod ?W = ?n" using True by (metis div_mult_mod_eq)
    moreover have "p = Suc ?c \<longleftrightarrow> p mod ?W = Suc ?n" using True ix(3,4) by (metis div_mult_mod_eq)
    moreover have "grid_bit ?g p = bit ?b (p mod ?W)"
      using True ix(2) by (simp add: grid_bit_def)
    ultimately show ?thesis
      using bit_set_cell[OF n, of "p mod ?W" v "gwords g ! ?k"] True by (simp add: grid_bit_def)
  next
    case False
    then have "p \<noteq> ?c" "p \<noteq> Suc ?c" using ix(3) by auto
    with False show ?thesis by (simp add: grid_bit_def)
  qed
  ultimately show ?thesis using that[of ?g] by simp
qed

text \<open>The stored value of a cell, which \<open>Get\<close> returns negated.\<close>

definition wordBitGrid_value :: "'a::len wordBitGrid \<Rightarrow> int \<Rightarrow> int \<Rightarrow> bool go" where
  "wordBitGrid_value g x y = bindE (wordBitGrid_Get g x y) (\<lambda>b. Inr (\<not> b))"

lemma word_pos_eq:
  fixes g :: "'a::len wordBitGrid"
  assumes "word_inside g x y" "word_inside g x' y'"
  shows "cell_pos g x' y' = cell_pos g x y \<longleftrightarrow> x' = x \<and> y' = y" "Suc (cell_pos g x' y') \<noteq> cell_pos g x y"
    "Suc (cell_pos g x y) \<noteq> cell_pos g x' y'"
proof -
  have fb: "0 \<le> x + y * wwidth g" "0 \<le> x' + y' * wwidth g"
    using flat_bound(1)[of x "wwidth g" y "wheight g"] flat_bound(1)[of x' "wwidth g" y' "wheight g"] assms
    by (simp_all add: word_inside_def)
  have "x + y * wwidth g = x' + y' * wwidth g \<longleftrightarrow> x' = x \<and> y' = y"
    using flat_inj[of x "wwidth g" x' y y'] assms by (auto simp: word_inside_def)
  with fb show "cell_pos g x' y' = cell_pos g x y \<longleftrightarrow> x' = x \<and> y' = y"
    by (auto simp: cell_pos_def)
  show "Suc (cell_pos g x' y') \<noteq> cell_pos g x y" and "Suc (cell_pos g x y) \<noteq> cell_pos g x' y'"
  proof -
    obtain a b where "x + y * wwidth g = int a" "x' + y' * wwidth g = int b"
      using fb nonneg_int_cases by metis
    then have "cell_pos g x y = 2 * a" "cell_pos g x' y' = 2 * b"
      by (simp_all only: cell_pos_def)
    then show "Suc (cell_pos g x' y') \<noteq> cell_pos g x y" "Suc (cell_pos g x y) \<noteq> cell_pos g x' y'"
      by presburger+
  qed
qed

interpretation word_grid: bit_grid wwidth wheight wordBitGrid_Empty wordBitGrid_Set wordBitGrid_Clear
  word_inside word_grid_inv wordBitGrid_value
proof unfold_locales
  fix g :: "'a wordBitGrid" and x y
  show "word_inside g x y \<longleftrightarrow> 0 \<le> x \<and> x < wwidth g \<and> 0 \<le> y \<and> y < wheight g"
    by (simp add: word_inside_def)
  assume g: "word_grid_inv g" and xy: "word_inside g x y"
  show "\<exists>e. wordBitGrid_Empty g x y = Inr e" using word_Empty_eq[OF g xy] by simp
  show "\<exists>b. wordBitGrid_value g x y = Inr b"
    using word_Get_eq[OF g xy] by (simp add: wordBitGrid_value_def)
  show "\<exists>g'. wordBitGrid_Set g x y v = Inr g'" for v by (rule word_Set_bits[OF g xy, of v]) blast
  show "word_grid_inv g'" if "wordBitGrid_Set g x y v = Inr g'" for v g'
    by (rule word_Set_bits[OF g xy, of v]) (use g that in \<open>auto simp: word_grid_inv_def\<close>)
  have "grid_bit (wordBitGrid_Clear g) (cell_pos g x y) = False"
    using word_index(2)[OF g xy] by (simp add: grid_bit_def wordBitGrid_Clear_def)
  moreover have "word_grid_inv (wordBitGrid_Clear g)" "word_inside (wordBitGrid_Clear g) x y"
    "cell_pos (wordBitGrid_Clear g) x y = cell_pos g x y"
    using g xy by (simp_all add: word_grid_inv_def wordBitGrid_Clear_def word_inside_def cell_pos_def)
  ultimately show "wordBitGrid_Empty (wordBitGrid_Clear g) x y = Inr True"
    using word_Empty_eq[of "wordBitGrid_Clear g" x y] by simp
  fix x' y' v g'
  assume xy': "word_inside g x' y'" and set: "wordBitGrid_Set g x y v = Inr g'"
  obtain h where h: "wordBitGrid_Set g x y v = Inr h" "length (gwords h) = length (gwords g)"
    "wwidth h = wwidth g" "wheight h = wheight g"
    "\<And>p. p div LENGTH('a) < length (gwords g) \<Longrightarrow> grid_bit h p =
      (if p = cell_pos g x y then True else if p = Suc (cell_pos g x y) then v else grid_bit g p)"
    by (rule word_Set_bits[OF g xy]) blast
  with set have hg: "h = g'" by simp
  have g': "word_grid_inv g'" "word_inside g' x' y'" "cell_pos g' x' y' = cell_pos g x' y'"
    using g xy' h(2-4) by (auto simp: word_grid_inv_def word_inside_def cell_pos_def hg)
  note ix = word_index[OF g xy']
  note pe = word_pos_eq[OF xy xy']
  have "grid_bit g' (cell_pos g x' y') = (x' = x \<and> y' = y \<or> grid_bit g (cell_pos g x' y'))"
    using h(5)[OF ix(2)] pe by (auto simp: hg)
  then show "wordBitGrid_Empty g' x' y' = (if x' = x \<and> y' = y then Inr False else wordBitGrid_Empty g x' y')"
    using word_Empty_eq[OF g'(1,2)] word_Empty_eq[OF g xy'] g'(3) by simp
  have "Suc (cell_pos g x' y') div LENGTH('a) < length (gwords g)" using ix(2,3) by simp
  from h(5)[OF this] have "grid_bit g' (Suc (cell_pos g x' y')) =
      (if x' = x \<and> y' = y then v else grid_bit g (Suc (cell_pos g x' y')))"
    using pe by (simp add: hg)
  then show "wordBitGrid_value g' x' y' = (if x' = x \<and> y' = y then Inr v else wordBitGrid_value g x' y')"
    using word_Get_eq[OF g'(1,2)] word_Get_eq[OF g xy'] g'(3) by (simp add: wordBitGrid_value_def)
next
  fix g g' :: "'a wordBitGrid" and x y v
  assume "wordBitGrid_Set g x y v = Inr g'"
  then show "wwidth g' = wwidth g \<and> wheight g' = wheight g"
    by (auto simp: wordBitGrid_Set_def Let_def)
next
  fix g :: "'a wordBitGrid"
  assume "word_grid_inv g"
  then show "word_grid_inv (wordBitGrid_Clear g) \<and> wwidth (wordBitGrid_Clear g) = wwidth g
      \<and> wheight (wordBitGrid_Clear g) = wheight g"
    by (simp add: word_grid_inv_def wordBitGrid_Clear_def)
qed

section \<open>The two packed grids of the source\<close>

type_synonym byteBitGrid = "8 wordBitGrid"
type_synonym uint32BitGrid = "32 wordBitGrid"

definition newByteBitGrid :: "int \<Rightarrow> int \<Rightarrow> byteBitGrid" where
  "newByteBitGrid = newWordBitGrid"
definition byteBitGrid_Empty :: "byteBitGrid \<Rightarrow> int \<Rightarrow> int \<Rightarrow> bool go" where
  "byteBitGrid_Empty = wordBitGrid_Empty"
definition byteBitGrid_Get :: "byteBitGrid \<Rightarrow> int \<Rightarrow> int \<Rightarrow> bool go" where
  "byteBitGrid_Get = wordBitGrid_Get"
definition byteBitGrid_Set :: "byteBitGrid \<Rightarrow> int \<Rightarrow> int \<Rightarrow> bool \<Rightarrow> byteBitGrid go" where
  "byteBitGrid_Set = wordBitGrid_Set"
definition byteBitGrid_Clear :: "byteBitGrid \<Rightarrow> byteBitGrid" where
  "byteBitGrid_Clear = wordBitGrid_Clear"

definition newUint32BitGrid :: "int \<Rightarrow> int \<Rightarrow> uint32BitGrid" where
  "newUint32BitGrid = newWordBitGrid"
definition uint32BitGrid_Empty :: "uint32BitGrid \<Rightarrow> int \<Rightarrow> int \<Rightarrow> bool go" where
  "uint32BitGrid_Empty = wordBitGrid_Empty"
definition uint32BitGrid_Get :: "uint32BitGrid \<Rightarrow> int \<Rightarrow> int \<Rightarrow> bool go" where
  "uint32BitGrid_Get = wordBitGrid_Get"
definition uint32BitGrid_Set :: "uint32BitGrid \<Rightarrow> int \<Rightarrow> int \<Rightarrow> bool \<Rightarrow> uint32BitGrid go" where
  "uint32BitGrid_Set = wordBitGrid_Set"
definition uint32BitGrid_Clear :: "uint32BitGrid \<Rightarrow> uint32BitGrid" where
  "uint32BitGrid_Clear = wordBitGrid_Clear"

lemma newWordBitGrid_inv:
  assumes "0 \<le> w" "0 \<le> h" "even (LENGTH('a))" "LENGTH('a) < 2 ^ 64"
  shows "word_grid_inv (newWordBitGrid w h :: 'a::len wordBitGrid)"
proof -
  obtain a b where ab: "w = int a" "h = int b" using assms(1,2) nonneg_int_cases by metis
  let ?W = "LENGTH('a)"
  obtain k where "?W = Suc k" using len_gt_0[where 'a = 'a] gr0_conv_Suc by blast
  then have "2 * w * h + int ?W - 1 = int (2 * a * b + (?W - 1))" by (simp add: ab)
  then have len: "length (gwords (newWordBitGrid w h :: 'a wordBitGrid)) = (2 * a * b + (?W - 1)) div ?W"
    by (simp only: newWordBitGrid_def wordBitGrid.select_convs length_replicate sdiv_smod_int nat_int)
  have "2 * a * b + (?W - 1) < ?W + (2 * a * b + (?W - 1)) div ?W * ?W"
    by (rule dividend_less_div_times) simp
  then have "2 * a * b \<le> (2 * a * b + (?W - 1)) div ?W * ?W"
    using \<open>?W = Suc k\<close> by linarith
  then have "int (2 * a * b) \<le> int ((2 * a * b + (?W - 1)) div ?W * ?W)"
    by (simp only: of_nat_le_iff)
  then show ?thesis using assms(3,4) len
    by (simp add: word_grid_inv_def newWordBitGrid_def ab)
qed

text \<open>the Boolean grid is a grid: a cell that is set reads back the value it was set to
  and is no longer empty, every other cell is unchanged, and a coordinate outside the
  backing slice panics instead of writing elsewhere.\<close>

theorem boolBitGrid_Set_Get:
  assumes "bool_grid_inv g" "bool_inside g x y"
  shows "\<exists>g'. boolBitGrid_Set g x y v = Inr g' \<and> bool_grid_inv g' \<and>
    boolBitGrid_Get g' x y = Inr v \<and> boolBitGrid_Empty g' x y = Inr False \<and>
    (\<forall>x' y'. bool_inside g x' y' \<and> (x', y') \<noteq> (x, y) \<longrightarrow>
       boolBitGrid_Get g' x' y' = boolBitGrid_Get g x' y' \<and>
       boolBitGrid_Empty g' x' y' = boolBitGrid_Empty g x' y')"
proof -
  obtain g' where g': "boolBitGrid_Set g x y v = Inr g'"
    using bool_grid.Set_total[OF assms] by blast
  note inv = bool_grid.inv_Set[OF assms g']
  note laws = bool_grid.Get_Set[OF assms _ g'] bool_grid.Empty_Set[OF assms _ g']
  show ?thesis using g' inv laws assms(2) by auto
qed

theorem boolBitGrid_Set_Get_witness:
  "\<exists>g'. boolBitGrid_Set (newBoolBitGrid 3 2) 2 1 True = Inr g' \<and> boolBitGrid_Get g' 2 1 = Inr True \<and>
     boolBitGrid_Get g' 0 1 = Inr False"
proof -
  have h: "bool_grid_inv (newBoolBitGrid 3 2)" "bool_inside (newBoolBitGrid 3 2) 2 1"
    "bool_inside (newBoolBitGrid 3 2) 0 1"
    by (simp_all add: newBoolBitGrid_inv) (simp_all add: bool_inside_def newBoolBitGrid_def)
  have "boolBitGrid_Get (newBoolBitGrid 3 2) 0 1 = Inr False"
    by (simp add: boolBitGrid_Get_def newBoolBitGrid_def)
  with h(3) show ?thesis using boolBitGrid_Set_Get[OF h(1,2), of True] by fastforce
qed

lemma wordBitGrid_Set_Get:
  fixes g :: "'a::len wordBitGrid"
  assumes "word_grid_inv g" "word_inside g x y"
  shows "\<exists>g'. wordBitGrid_Set g x y v = Inr g' \<and> wordBitGrid_Get g' x y = Inr (\<not> v)"
proof -
  obtain g' where g': "wordBitGrid_Set g x y v = Inr g'" using word_grid.Set_total[OF assms] by blast
  have "wordBitGrid_value g' x y = Inr v" using word_grid.Get_Set[OF assms assms(2) g'] by simp
  then show ?thesis using g' by (auto simp: wordBitGrid_value_def)
qed

lemma new_inside:
  assumes "0 \<le> x" "x < w" "0 \<le> y" "y < h"
  shows "word_inside (newWordBitGrid w h :: 'a::len wordBitGrid) x y"
    and "bool_inside (newBoolBitGrid w h) x y" "0 \<le> w" "0 \<le> h"
  using assms by (simp_all add: word_inside_def newWordBitGrid_def bool_inside_def newBoolBitGrid_def)

text \<open>the grids packed into bytes and 32-bit words write cells correctly but read them
  back negated: a cell set to \<open>v\<close> reads as the negation of \<open>v\<close>, where the Boolean grid
  gives \<open>v\<close>.\<close>

theorem packed_grids_Get_negated:
  assumes "0 \<le> x" "x < w" "0 \<le> y" "y < h"
  shows "(\<exists>g'. byteBitGrid_Set (newByteBitGrid w h) x y v = Inr g' \<and> byteBitGrid_Get g' x y = Inr (\<not> v)) \<and>
    (\<exists>g'. uint32BitGrid_Set (newUint32BitGrid w h) x y v = Inr g' \<and> uint32BitGrid_Get g' x y = Inr (\<not> v)) \<and>
    (\<exists>g'. boolBitGrid_Set (newBoolBitGrid w h) x y v = Inr g' \<and> boolBitGrid_Get g' x y = Inr v)"
proof -
  note ins = new_inside[OF assms]
  have b: "bool_grid_inv (newBoolBitGrid w h)" using ins by (simp add: newBoolBitGrid_inv)
  obtain g' where g': "boolBitGrid_Set (newBoolBitGrid w h) x y v = Inr g'"
    using bool_grid.Set_total[OF b ins(2)] by blast
  then have "boolBitGrid_Get g' x y = Inr v" using bool_grid.Get_Set[OF b ins(2) ins(2)] by auto
  moreover have "word_grid_inv (newWordBitGrid w h :: 8 wordBitGrid)"
    "word_grid_inv (newWordBitGrid w h :: 32 wordBitGrid)"
    using ins by (simp_all add: newWordBitGrid_inv)
  ultimately show ?thesis
    using g' wordBitGrid_Set_Get[of "newWordBitGrid w h :: 8 wordBitGrid" x y v]
      wordBitGrid_Set_Get[of "newWordBitGrid w h :: 32 wordBitGrid" x y v]
    by (simp add: new_inside[OF assms] byteBitGrid_Set_def newByteBitGrid_def byteBitGrid_Get_def
        uint32BitGrid_Set_def newUint32BitGrid_def uint32BitGrid_Get_def)
qed

theorem packed_grids_Get_negated_witness:
  "\<exists>g'. byteBitGrid_Set (newByteBitGrid 21 21) 3 4 True = Inr g' \<and> byteBitGrid_Get g' 3 4 = Inr False"
  using packed_grids_Get_negated[of 3 21 4 21 True] by simp

end
