(* ===== verification/Version.thy ===== *)
theory Version
  imports Bits "HOL-Library.Signed_Division"
begin

text \<open>
  The versions (sizes) of a QR code, version.go: the table of error correction blocks, the
  capacity of a version at a level, the choice of a version for a number of bits; and the part
  of errorcorrection.go that splits the codewords into blocks. Levels and versions are Go
  integers, so that an unsupported level or an index outside the table is a panic here too.
\<close>

section \<open>Levels and the block table\<close>

type_synonym ECLevel = int
type_synonym versionNumber = int

definition ECLevelM :: ECLevel where "ECLevelM = 0"
definition ECLevelL :: ECLevel where "ECLevelL = 1"
definition ECLevelH :: ECLevel where "ECLevelH = 2"
definition ECLevelQ :: ECLevel where "ECLevelQ = 3"

lemmas ECLevel_defs = ECLevelM_def ECLevelL_def ECLevelH_def ECLevelQ_def

definition supportedECLevel :: "ECLevel \<Rightarrow> bool" where
  "supportedECLevel l \<longleftrightarrow> l = ECLevelM \<or> l = ECLevelL \<or> l = ECLevelH \<or> l = ECLevelQ"

text \<open>\<open>ecb\<close> has a count and a number of data codewords, \<open>ecbs\<close> the codewords per block and the blocks.\<close>

datatype ecb = Ecb (blockCount: int) (dataCodewords: int)
datatype ecbs = Ecbs (codewordsPerBlock: int) (blocks: "ecb list")

definition numBlocks :: "ecbs \<Rightarrow> int" where
  "numBlocks bs = foldl (\<lambda>total b. total + blockCount b) 0 (blocks bs)"

definition totalECCodewords :: "ecbs \<Rightarrow> int" where
  "totalECCodewords bs = numBlocks bs * codewordsPerBlock bs"

definition ecBlocks_0_19 :: "ecbs list list" where
  "ecBlocks_0_19 = [
    [Ecbs 0 [], Ecbs 0 [], Ecbs 0 [], Ecbs 0 []],
    [Ecbs 10 [Ecb 1 16], Ecbs 7 [Ecb 1 19], Ecbs 17 [Ecb 1 9], Ecbs 13 [Ecb 1 13]],
    [Ecbs 16 [Ecb 1 28], Ecbs 10 [Ecb 1 34], Ecbs 28 [Ecb 1 16], Ecbs 22 [Ecb 1 22]],
    [Ecbs 26 [Ecb 1 44], Ecbs 15 [Ecb 1 55], Ecbs 22 [Ecb 2 13], Ecbs 18 [Ecb 2 17]],
    [Ecbs 18 [Ecb 2 32], Ecbs 20 [Ecb 1 80], Ecbs 16 [Ecb 4 9], Ecbs 26 [Ecb 2 24]],
    [Ecbs 24 [Ecb 2 43], Ecbs 26 [Ecb 1 108], Ecbs 22 [Ecb 2 11, Ecb 2 12],
      Ecbs 18 [Ecb 2 15, Ecb 2 16]],
    [Ecbs 16 [Ecb 4 27], Ecbs 18 [Ecb 2 68], Ecbs 28 [Ecb 4 15], Ecbs 24 [Ecb 4 19]],
    [Ecbs 18 [Ecb 4 31], Ecbs 20 [Ecb 2 78], Ecbs 26 [Ecb 4 13, Ecb 1 14],
      Ecbs 18 [Ecb 2 14, Ecb 4 15]],
    [Ecbs 22 [Ecb 2 38, Ecb 2 39], Ecbs 24 [Ecb 2 97], Ecbs 26 [Ecb 4 14, Ecb 2 15],
      Ecbs 22 [Ecb 4 18, Ecb 2 19]],
    [Ecbs 22 [Ecb 3 36, Ecb 2 37], Ecbs 30 [Ecb 2 116], Ecbs 24 [Ecb 4 12, Ecb 4 13],
      Ecbs 20 [Ecb 4 16, Ecb 4 17]],
    [Ecbs 26 [Ecb 4 43, Ecb 1 44], Ecbs 18 [Ecb 2 68, Ecb 2 69],
      Ecbs 28 [Ecb 6 15, Ecb 2 16], Ecbs 24 [Ecb 6 19, Ecb 2 20]],
    [Ecbs 30 [Ecb 1 50, Ecb 4 51], Ecbs 20 [Ecb 4 81], Ecbs 24 [Ecb 3 12, Ecb 8 13],
      Ecbs 28 [Ecb 4 22, Ecb 4 23]],
    [Ecbs 22 [Ecb 6 36, Ecb 2 37], Ecbs 24 [Ecb 2 92, Ecb 2 93],
      Ecbs 28 [Ecb 7 14, Ecb 4 15], Ecbs 26 [Ecb 4 20, Ecb 6 21]],
    [Ecbs 22 [Ecb 8 37, Ecb 1 38], Ecbs 26 [Ecb 4 107], Ecbs 22 [Ecb 12 11, Ecb 4 12],
      Ecbs 24 [Ecb 8 20, Ecb 4 21]],
    [Ecbs 24 [Ecb 4 40, Ecb 5 41], Ecbs 30 [Ecb 3 115, Ecb 1 116],
      Ecbs 24 [Ecb 11 12, Ecb 5 13], Ecbs 20 [Ecb 11 16, Ecb 5 17]],
    [Ecbs 24 [Ecb 5 41, Ecb 5 42], Ecbs 22 [Ecb 5 87, Ecb 1 88], Ecbs 24 [Ecb 11 12, Ecb 7 13],
      Ecbs 30 [Ecb 5 24, Ecb 7 25]],
    [Ecbs 28 [Ecb 7 45, Ecb 3 46], Ecbs 24 [Ecb 5 98, Ecb 1 99], Ecbs 30 [Ecb 3 15, Ecb 13 16],
      Ecbs 24 [Ecb 15 19, Ecb 2 20]],
    [Ecbs 28 [Ecb 10 46, Ecb 1 47], Ecbs 28 [Ecb 1 107, Ecb 5 108],
      Ecbs 28 [Ecb 2 14, Ecb 17 15], Ecbs 28 [Ecb 1 22, Ecb 15 23]],
    [Ecbs 26 [Ecb 9 43, Ecb 4 44], Ecbs 30 [Ecb 5 120, Ecb 1 121],
      Ecbs 28 [Ecb 2 14, Ecb 19 15], Ecbs 28 [Ecb 17 22, Ecb 1 23]],
    [Ecbs 26 [Ecb 3 44, Ecb 11 44], Ecbs 28 [Ecb 3 113, Ecb 4 114],
      Ecbs 26 [Ecb 9 13, Ecb 16 14], Ecbs 26 [Ecb 17 21, Ecb 4 22]]]"

definition ecBlocks_20_40 :: "ecbs list list" where
  "ecBlocks_20_40 = [
    [Ecbs 26 [Ecb 3 41, Ecb 13 42], Ecbs 28 [Ecb 3 107, Ecb 5 108], Ecbs 28 [Ecb 15 15, Ecb 10 16],
      Ecbs 30 [Ecb 15 24, Ecb 5 25]],
    [Ecbs 26 [Ecb 17 42], Ecbs 28 [Ecb 4 116, Ecb 4 117], Ecbs 30 [Ecb 19 16, Ecb 6 17],
      Ecbs 28 [Ecb 17 22, Ecb 6 23]],
    [Ecbs 28 [Ecb 17 46], Ecbs 28 [Ecb 2 111, Ecb 7 112],
      Ecbs 24 [Ecb 34 13], Ecbs 30 [Ecb 7 24, Ecb 16 25]],
    [Ecbs 28 [Ecb 4 47, Ecb 14 48], Ecbs 30 [Ecb 4 121, Ecb 5 122], Ecbs 30 [Ecb 16 15, Ecb 14 16],
      Ecbs 30 [Ecb 11 24, Ecb 14 25]],
    [Ecbs 28 [Ecb 6 45, Ecb 14 46], Ecbs 30 [Ecb 6 117, Ecb 4 118],
      Ecbs 30 [Ecb 30 16, Ecb 2 17], Ecbs 30 [Ecb 11 24, Ecb 16 25]],
    [Ecbs 28 [Ecb 8 47, Ecb 13 48], Ecbs 26 [Ecb 8 106, Ecb 4 107],
      Ecbs 30 [Ecb 22 15, Ecb 13 16], Ecbs 30 [Ecb 7 24, Ecb 22 25]],
    [Ecbs 28 [Ecb 19 46, Ecb 4 47], Ecbs 28 [Ecb 10 114, Ecb 2 115],
      Ecbs 30 [Ecb 33 16, Ecb 4 17], Ecbs 28 [Ecb 28 22, Ecb 6 23]],
    [Ecbs 28 [Ecb 22 45, Ecb 3 46], Ecbs 30 [Ecb 8 122, Ecb 4 123],
      Ecbs 30 [Ecb 12 15, Ecb 28 16], Ecbs 30 [Ecb 8 23, Ecb 26 24]],
    [Ecbs 28 [Ecb 3 45, Ecb 23 46], Ecbs 30 [Ecb 3 117, Ecb 10 118],
      Ecbs 30 [Ecb 11 15, Ecb 31 16], Ecbs 30 [Ecb 4 24, Ecb 31 25]],
    [Ecbs 28 [Ecb 21 45, Ecb 7 46], Ecbs 30 [Ecb 7 116, Ecb 7 117],
      Ecbs 30 [Ecb 19 15, Ecb 26 16], Ecbs 30 [Ecb 1 32, Ecb 37 24]],
    [Ecbs 28 [Ecb 19 47, Ecb 10 48], Ecbs 30 [Ecb 5 115, Ecb 10 116],
      Ecbs 30 [Ecb 23 15, Ecb 25 16], Ecbs 30 [Ecb 15 24, Ecb 25 25]],
    [Ecbs 28 [Ecb 2 46, Ecb 29 47], Ecbs 30 [Ecb 13 115, Ecb 3 116],
      Ecbs 30 [Ecb 23 15, Ecb 28 16], Ecbs 30 [Ecb 42 24, Ecb 1 25]],
    [Ecbs 28 [Ecb 10 46, Ecb 23 47], Ecbs 30 [Ecb 17 115], Ecbs 30 [Ecb 19 15, Ecb 35 16],
      Ecbs 30 [Ecb 10 24, Ecb 35 25]],
    [Ecbs 28 [Ecb 14 46, Ecb 21 47], Ecbs 30 [Ecb 17 115, Ecb 1 116],
      Ecbs 30 [Ecb 11 15, Ecb 46 16], Ecbs 30 [Ecb 29 24, Ecb 19 25]],
    [Ecbs 28 [Ecb 14 16, Ecb 23 47], Ecbs 30 [Ecb 13 115, Ecb 6 116],
      Ecbs 30 [Ecb 59 16, Ecb 1 17], Ecbs 30 [Ecb 44 24, Ecb 7 25]],
    [Ecbs 28 [Ecb 12 47, Ecb 26 48], Ecbs 30 [Ecb 12 121, Ecb 7 122],
      Ecbs 30 [Ecb 22 15, Ecb 41 16], Ecbs 30 [Ecb 39 24, Ecb 14 25]],
    [Ecbs 28 [Ecb 6 47, Ecb 34 48], Ecbs 30 [Ecb 6 121, Ecb 14 122],
      Ecbs 30 [Ecb 2 15, Ecb 64 16], Ecbs 30 [Ecb 46 24, Ecb 10 25]],
    [Ecbs 28 [Ecb 29 46, Ecb 14 47], Ecbs 30 [Ecb 17 122, Ecb 4 123],
      Ecbs 30 [Ecb 24 15, Ecb 46 16], Ecbs 30 [Ecb 49 24, Ecb 10 25]],
    [Ecbs 28 [Ecb 13 46, Ecb 32 47], Ecbs 30 [Ecb 4 122, Ecb 18 123],
      Ecbs 30 [Ecb 42 15, Ecb 32 16], Ecbs 30 [Ecb 48 24, Ecb 14 25]],
    [Ecbs 28 [Ecb 40 47, Ecb 7 48], Ecbs 30 [Ecb 20 117, Ecb 4 118],
      Ecbs 30 [Ecb 10 15, Ecb 67 16], Ecbs 30 [Ecb 43 24, Ecb 22 25]],
    [Ecbs 28 [Ecb 18 47, Ecb 31 48], Ecbs 30 [Ecb 19 118, Ecb 6 119],
      Ecbs 30 [Ecb 20 15, Ecb 61 16], Ecbs 30 [Ecb 34 24, Ecb 34 25]]]"

definition ecBlocks :: "ecbs list list" where
  "ecBlocks = ecBlocks_0_19 @ ecBlocks_20_40"

definition ecBlocks_at :: "versionNumber \<Rightarrow> ECLevel \<Rightarrow> ecbs go" where
  "ecBlocks_at v l = bindE (idx ecBlocks v) (\<lambda>row. idx row l)"

definition totalCodewords :: "versionNumber \<Rightarrow> int go" where
  "totalCodewords v = bindE (ecBlocks_at v 1) (\<lambda>e.
     Inr (foldl (\<lambda>total b. total + blockCount b * (dataCodewords b + codewordsPerBlock e)) 0 (blocks e)))"

definition dimension :: "versionNumber \<Rightarrow> int" where
  "dimension v = 17 + 4 * v"

text \<open>The expression \<open>version.totalCodewords() - ecBlocks[version][ecLevel].totalECCodewords()\<close>.\<close>

definition numDataCodewords :: "versionNumber \<Rightarrow> ECLevel \<Rightarrow> int go" where
  "numDataCodewords v l = bindE (totalCodewords v) (\<lambda>t. bindE (ecBlocks_at v l) (\<lambda>e.
     Inr (t - totalECCodewords e)))"

fun chooseVersion_loop :: "nat \<Rightarrow> ECLevel \<Rightarrow> versionNumber list \<Rightarrow> versionNumber go" where
  "chooseVersion_loop bitCount l [] = Inl (Err ''Content too large'')"
| "chooseVersion_loop bitCount l (v # vs) =
     bindE (numDataCodewords v l) (\<lambda>c.
       if int ((bitCount + 7) div 8) \<le> c then Inr v else chooseVersion_loop bitCount l vs)"

definition chooseVersion :: "nat \<Rightarrow> ECLevel \<Rightarrow> versionNumber go" where
  "chooseVersion bitCount l = chooseVersion_loop bitCount l [1..40]"

definition getBlockSizes :: "int \<Rightarrow> int \<Rightarrow> int \<Rightarrow> int \<Rightarrow> (int \<times> int) go" where
  "getBlockSizes numTotalBytes numDataBytes numRSBlocks blockID =
     (if blockID \<ge> numRSBlocks then Inl (Panic ''blockID >= numRSBlocks'')
      else if numRSBlocks = 0 then Inl (Panic ''integer divide by zero'')
      else
        let numRsBlocksInGroup2 = numTotalBytes smod numRSBlocks;
            numRsBlocksInGroup1 = numRSBlocks - numRsBlocksInGroup2;
            numTotalBytesInGroup1 = numTotalBytes sdiv numRSBlocks;
            numTotalBytesInGroup2 = numTotalBytesInGroup1 + 1;
            numDataBytesInGroup1 = numDataBytes sdiv numRSBlocks;
            numDataBytesInGroup2 = numDataBytesInGroup1 + 1;
            numEcBytesInGroup1 = numTotalBytesInGroup1 - numDataBytesInGroup1;
            numEcBytesInGroup2 = numTotalBytesInGroup2 - numDataBytesInGroup2
        in if numEcBytesInGroup1 \<noteq> numEcBytesInGroup2
           then Inl (Panic ''numEcBytesInGroup1 != numEcBytesInGroup2'')
           else if numRSBlocks \<noteq> numRsBlocksInGroup1 + numRsBlocksInGroup2
           then Inl (Panic ''numRSBlocks != numRsBlocksInGroup1 + numRsBlocksInGroup2'')
           else if numTotalBytes \<noteq> (numDataBytesInGroup1 + numEcBytesInGroup1) * numRsBlocksInGroup1 +
                  (numDataBytesInGroup2 + numEcBytesInGroup2) * numRsBlocksInGroup2
           then Inl (Panic ''numTotalBytes != (numDataBytesInGroup1 + numEcBytesInGroup1)*numRsBlocksInGroup1 + (numDataBytesInGroup2 + numEcBytesInGroup2)*numRsBlocksInGroup2'')
           else if blockID < numRsBlocksInGroup1 then Inr (numDataBytesInGroup1, numEcBytesInGroup1)
           else Inr (numDataBytesInGroup2, numEcBytesInGroup2))"

section \<open>Facts of the table\<close>

text \<open>The data codewords of versions 1 to 40 at the levels M, L, H, Q.\<close>

definition capacities :: "int list list" where
  "capacities = [
    [16, 19, 9, 13], [28, 34, 16, 22], [44, 55, 26, 34], [64, 80, 36, 48],
    [86, 108, 46, 62], [108, 136, 60, 76], [124, 156, 66, 88], [154, 194, 86, 110],
    [182, 232, 100, 132], [216, 274, 122, 154], [254, 324, 140, 180], [290, 370, 158, 206],
    [334, 428, 180, 244], [365, 461, 197, 261], [415, 523, 223, 295], [453, 589, 253, 325],
    [507, 647, 283, 367], [563, 721, 313, 397], [627, 795, 341, 445], [669, 861, 385, 485],
    [714, 932, 406, 512], [782, 1006, 442, 568], [860, 1094, 464, 614], [914, 1174, 514, 664],
    [1000, 1276, 538, 718], [1062, 1370, 596, 754], [1128, 1468, 628, 808], [1193, 1531, 661, 871],
    [1267, 1631, 701, 911], [1373, 1735, 745, 985], [1455, 1843, 793, 1033], [1541, 1955, 845, 1115],
    [1631, 2071, 901, 1171], [1725, 2191, 961, 1231], [1812, 2306, 986, 1286], [1914, 2434, 1054, 1354],
    [1992, 2566, 1096, 1426], [2102, 2702, 1142, 1502], [2216, 2812, 1222, 1582], [2334, 2956, 1276, 1666]]"

definition row_capacities :: "ecbs list \<Rightarrow> int list" where
  "row_capacities row =
     (let t = foldl (\<lambda>total b. total + blockCount b * (dataCodewords b + codewordsPerBlock (row ! 1)))
                0 (blocks (row ! 1))
      in map (\<lambda>e. t - totalECCodewords e) row)"

text \<open>What the code relies on: every entry has a block, between 1 and 30 error correction bytes
  in each, and room for a data byte in each.\<close>

definition entry_ok :: "int \<Rightarrow> ecbs \<Rightarrow> bool" where
  "entry_ok c e \<longleftrightarrow> 1 \<le> numBlocks e \<and> 1 \<le> codewordsPerBlock e \<and> codewordsPerBlock e \<le> 30 \<and> numBlocks e \<le> c"

definition row_ok :: "ecbs list \<Rightarrow> int list \<Rightarrow> bool" where
  "row_ok row cs \<longleftrightarrow> length row = 4 \<and> row_capacities row = cs \<and> list_all2 entry_ok cs row"

lemma length_ecBlocks [simp]: "length ecBlocks = 41" "length capacities = 40"
  by (simp_all add: ecBlocks_def ecBlocks_0_19_def ecBlocks_20_40_def capacities_def)

lemma rows_ok: "list_all2 row_ok (tl ecBlocks) capacities"
  by (simp add: ecBlocks_def ecBlocks_0_19_def ecBlocks_20_40_def capacities_def row_ok_def
      row_capacities_def totalECCodewords_def numBlocks_def entry_ok_def)

definition dataCapacity :: "versionNumber \<Rightarrow> ECLevel \<Rightarrow> int" where
  "dataCapacity v l = capacities ! nat (v - 1) ! nat l"

lemma supported_cases: "supportedECLevel l \<longleftrightarrow> l \<in> {0, 1, 2, 3}"
  by (auto simp: supportedECLevel_def ECLevel_defs)

lemma table_ok:
  assumes "1 \<le> v" "v \<le> 40" "supportedECLevel l"
  obtains e t where "ecBlocks_at v l = Inr e" "totalCodewords v = Inr t"
    "numDataCodewords v l = Inr (dataCapacity v l)" "dataCapacity v l = t - totalECCodewords e"
    "entry_ok (dataCapacity v l) e"
proof -
  let ?i = "nat (v - 1)" and ?row = "ecBlocks ! nat v"
  have i: "?i < length (tl ecBlocks)" "nat v = Suc ?i" using assms by auto
  have "row_ok (tl ecBlocks ! ?i) (capacities ! ?i)"
    using list_all2_nthD[OF rows_ok i(1)] .
  moreover have "tl ecBlocks ! ?i = ?row" using i by (simp add: nth_tl)
  ultimately have row: "length ?row = 4" "row_capacities ?row = capacities ! ?i"
    "list_all2 entry_ok (capacities ! ?i) ?row" by (simp_all add: row_ok_def)
  have l: "0 \<le> l" "l < 4" using assms(3) by (auto simp: supported_cases)
  have at: "ecBlocks_at v k = Inr (?row ! nat k)" if "0 \<le> k" "k < 4" for k
    using that assms row(1) by (simp add: ecBlocks_at_def)
  have nl: "nat l < length (capacities ! ?i)" using l row(1,3) by (simp add: list_all2_lengthD)
  obtain t where t: "totalCodewords v = Inr t"
    "t = foldl (\<lambda>total b. total + blockCount b * (dataCodewords b + codewordsPerBlock (?row ! 1)))
           0 (blocks (?row ! 1))"
    by (simp add: totalCodewords_def at)
  have cap: "dataCapacity v l = t - totalECCodewords (?row ! nat l)"
    using row(1) l t(2) by (simp add: dataCapacity_def Let_def row_capacities_def flip: row(2))
  then have "numDataCodewords v l = Inr (dataCapacity v l)"
    using t(1) at[OF l] by (simp add: numDataCodewords_def)
  moreover have "entry_ok (dataCapacity v l) (?row ! nat l)"
    using list_all2_nthD[OF row(3) nl] by (simp add: dataCapacity_def)
  ultimately show ?thesis using that[OF at[OF l] t(1) _ cap] by simp
qed

lemma dataCapacity_Suc: "1 \<le> v \<Longrightarrow> v < 40 \<Longrightarrow> supportedECLevel l \<Longrightarrow> dataCapacity v l < dataCapacity (v + 1) l"
proof -
  assume v: "1 \<le> v" "v < 40" and l: "supportedECLevel l"
  have all: "list_all2 (list_all2 (<)) (butlast capacities) (tl capacities)"
    by (simp add: capacities_def)
  have "list_all2 (<) (butlast capacities ! nat (v - 1)) (tl capacities ! nat (v - 1))"
    by (rule list_all2_nthD[OF all]) (use v in simp)
  moreover have "Suc (nat (v - 1)) = nat (v + 1 - 1)" using v by simp
  ultimately have lt: "list_all2 (<) (capacities ! nat (v - 1)) (capacities ! nat (v + 1 - 1))"
    using v by (simp add: nth_butlast nth_tl)
  have "nat (v - 1) < length (tl ecBlocks)" using v by simp
  from list_all2_nthD[OF rows_ok this] have "length (capacities ! nat (v - 1)) = 4"
    by (auto simp: row_ok_def dest!: list_all2_lengthD)
  then have "nat l < length (capacities ! nat (v - 1))" using l by (auto simp: supported_cases)
  from list_all2_nthD[OF lt this] show ?thesis by (simp add: dataCapacity_def)
qed

lemma dataCapacity_mono:
  assumes "supportedECLevel l" "1 \<le> v" "v \<le> w" "w \<le> 40"
  shows "dataCapacity v l \<le> dataCapacity w l"
  using assms(3,4)
proof (induction w rule: int_ge_induct)
  case base
  then show ?case by simp
next
  case (step w)
  then have "dataCapacity v l \<le> dataCapacity w l" and "w < 40" by simp_all
  moreover from this step.hyps have "dataCapacity w l < dataCapacity (w + 1) l"
    using dataCapacity_Suc[of w l] assms(1,2) by simp
  ultimately show ?case by simp
qed

section \<open>The choice of a version\<close>

lemma round_up_bits: "int ((n + 7) div 8) \<le> c \<longleftrightarrow> int n \<le> 8 * c"
  by linarith

lemma chooseVersion_loop_ok:
  assumes "\<And>v. v \<in> set vs \<Longrightarrow> numDataCodewords v l = Inr (dataCapacity v l)"
  shows "chooseVersion_loop n l vs =
    (case find (\<lambda>v. int n \<le> 8 * dataCapacity v l) vs of
       None \<Rightarrow> Inl (Err ''Content too large'') | Some v \<Rightarrow> Inr v)"
  using assms by (induction vs) (simp_all only: round_up_bits chooseVersion_loop.simps, simp_all add: round_up_bits)

lemma chooseVersion_find:
  "supportedECLevel l \<Longrightarrow> chooseVersion n l =
    (case find (\<lambda>v. int n \<le> 8 * dataCapacity v l) [1..40] of
       None \<Rightarrow> Inl (Err ''Content too large'') | Some v \<Rightarrow> Inr v)"
  unfolding chooseVersion_def
  by (rule chooseVersion_loop_ok) (metis atLeastAtMost_iff set_upto table_ok)

lemma chooseVersion_cases:
  assumes "supportedECLevel l"
  obtains (none) "chooseVersion n l = Inl (Err ''Content too large'')" "8 * dataCapacity 40 l < int n"
  | (found) v where "chooseVersion n l = Inr v" "1 \<le> v" "v \<le> 40"
      "\<And>u. 1 \<le> u \<Longrightarrow> u \<le> 40 \<Longrightarrow> int n \<le> 8 * dataCapacity u l \<longleftrightarrow> v \<le> u"
proof (cases "find (\<lambda>v. int n \<le> 8 * dataCapacity v l) [1..40]")
  case None
  then have no: "\<And>w. 1 \<le> w \<Longrightarrow> w \<le> 40 \<Longrightarrow> \<not> int n \<le> 8 * dataCapacity w l"
    by (auto simp: find_None_iff)
  have "8 * dataCapacity 40 l < int n" using no[of 40] by simp
  then show ?thesis using none None chooseVersion_find[OF assms, of n] by simp
next
  case (Some w)
  then obtain i where i: "i < 40" "w = [1..40] ! i" "int n \<le> 8 * dataCapacity w l"
    "\<And>j. j < i \<Longrightarrow> \<not> int n \<le> 8 * dataCapacity ([1..40] ! j) l"
    by (auto simp: find_Some_iff)
  have w: "w = 1 + int i" using i by simp
  have fits: "int n \<le> 8 * dataCapacity u l \<longleftrightarrow> w \<le> u" if "1 \<le> u" "u \<le> 40" for u
  proof
    assume "int n \<le> 8 * dataCapacity u l"
    then show "w \<le> u" using i(4)[of "nat (u - 1)"] that w by (force simp: not_le)
  next
    assume "w \<le> u"
    then show "int n \<le> 8 * dataCapacity u l" using dataCapacity_mono[OF assms, of w u] that i w by linarith
  qed
  have "chooseVersion n l = Inr w" using Some chooseVersion_find[OF assms, of n] by simp
  then show ?thesis using found fits w i(1) by simp
qed

text \<open>at a supported level, the chosen version is the smallest whose data codewords hold the
  bits, whatever their number; the only failure is the error that reports content over the
  capacity of version 40.\<close>

theorem chooseVersion_least:
  assumes "supportedECLevel l"
  shows "(chooseVersion n l = Inr v \<longleftrightarrow>
      1 \<le> v \<and> v \<le> 40 \<and> int n \<le> 8 * dataCapacity v l \<and> (v = 1 \<or> 8 * dataCapacity (v - 1) l < int n)) \<and>
    (chooseVersion n l = Inl (Err ''Content too large'') \<longleftrightarrow> 8 * dataCapacity 40 l < int n) \<and>
    (isl (chooseVersion n l) \<longleftrightarrow> chooseVersion n l = Inl (Err ''Content too large''))"
proof (rule chooseVersion_cases[OF assms, of n])
  assume no: "chooseVersion n l = Inl (Err ''Content too large'')" "8 * dataCapacity 40 l < int n"
  then have "\<not> int n \<le> 8 * dataCapacity v l" if "1 \<le> v" "v \<le> 40"
    using that dataCapacity_mono[OF assms that(1,2)] by linarith
  then show ?thesis using no by auto
next
  fix w
  assume w: "chooseVersion n l = Inr w" "1 \<le> w" "w \<le> 40"
    and fits: "\<And>u. 1 \<le> u \<Longrightarrow> u \<le> 40 \<Longrightarrow> int n \<le> 8 * dataCapacity u l \<longleftrightarrow> w \<le> u"
  have "w = v \<longleftrightarrow>
      1 \<le> v \<and> v \<le> 40 \<and> int n \<le> 8 * dataCapacity v l \<and> (v = 1 \<or> 8 * dataCapacity (v - 1) l < int n)"
    using fits[of v] fits[of "v - 1"] w by (cases "v = 1") auto
  moreover have "\<not> 8 * dataCapacity 40 l < int n" using fits[of 40] w by simp
  ultimately show ?thesis using w(1) by simp
qed

theorem chooseVersion_least_witness:
  "(chooseVersion 128 ECLevelM = Inr 1 \<longleftrightarrow>
      1 \<le> (1::int) \<and> (1::int) \<le> 40 \<and> int 128 \<le> 8 * dataCapacity 1 ECLevelM \<and>
      ((1::int) = 1 \<or> 8 * dataCapacity (1 - 1) ECLevelM < int 128)) \<and>
    (chooseVersion 128 ECLevelM = Inl (Err ''Content too large'') \<longleftrightarrow> 8 * dataCapacity 40 ECLevelM < int 128) \<and>
    (isl (chooseVersion 128 ECLevelM) \<longleftrightarrow> chooseVersion 128 ECLevelM = Inl (Err ''Content too large''))"
  by (rule chooseVersion_least) (simp add: supportedECLevel_def)

section \<open>Splitting the codewords into blocks\<close>

lemma sdiv_nonneg: "0 \<le> (a::int) \<Longrightarrow> 0 < b \<Longrightarrow> a sdiv b = a div b"
  by (cases "a = 0") (simp_all add: signed_divide_int_def)

lemma smod_nonneg: "0 \<le> (a::int) \<Longrightarrow> 0 < b \<Longrightarrow> a smod b = a mod b"
  by (cases "a = 0") (simp_all add: signed_modulo_int_def)

lemma getBlockSizes_ok:
  assumes "0 < k" "k \<le> d" "t = d + k * n" "0 \<le> n" "i < k"
  shows "getBlockSizes t d k i = Inr (if i < k - d mod k then d div k else d div k + 1, n)"
proof -
  have "t = d + n * k" using assms(3) by (simp add: mult.commute)
  then have md: "t mod k = d mod k" and dv: "t div k = n + d div k" using assms(1) by simp_all
  have "t = (d div k + n) * (k - d mod k) + (d div k + 1 + n) * (d mod k)"
    using assms(3) mult_div_mod_eq[of k d] by (simp add: algebra_simps)
  moreover have "0 \<le> t" "0 \<le> d" using assms by simp_all
  ultimately show ?thesis
    using assms(1,5) md dv by (simp add: getBlockSizes_def Let_def sdiv_nonneg smod_nonneg)
qed

lemma sum_block_sizes:
  assumes "0 < k" "0 \<le> (d::int)"
  shows "(\<Sum>i\<in>{0..<k}. if i < k - d mod k then d div k else d div k + 1) = d"
proof -
  have split: "{0..<k} = {0..<k - d mod k} \<union> {k - d mod k..<k}"
    using pos_mod_sign[OF assms(1), of d] pos_mod_bound[OF assms(1), of d] by (intro ivl_disj_un(17)[symmetric]) simp_all
  have "(\<Sum>i\<in>{0..<k}. if i < k - d mod k then d div k else d div k + 1) =
      (\<Sum>i\<in>{0..<k - d mod k}. d div k) + (\<Sum>i\<in>{k - d mod k..<k}. d div k + 1)"
    unfolding split by (subst sum.union_disjoint) auto
  also have "\<dots> = (k - d mod k) * (d div k) + d mod k * (d div k + 1)"
    using assms less_imp_le[OF pos_mod_bound[OF assms(1), of d]] by simp
  also have "\<dots> = d" using mult_div_mod_eq[of k d] by (simp add: algebra_simps)
  finally show ?thesis .
qed

text \<open>for every version and supported level, splitting the codewords into blocks never
  panics: each block has at least one data byte and the error correction bytes that the table
  prescribes, and the blocks together hold exactly the data codewords.\<close>

theorem getBlockSizes_partition:
  assumes "1 \<le> v" "v \<le> 40" "supportedECLevel l"
  shows "\<exists>e t d. ecBlocks_at v l = Inr e \<and> totalCodewords v = Inr t \<and> numDataCodewords v l = Inr d \<and>
    t = d + totalECCodewords e \<and>
    (\<exists>f. (\<Sum>i\<in>{0..<numBlocks e}. f i) = d \<and>
      (\<forall>i\<in>{0..<numBlocks e}. 1 \<le> f i \<and> getBlockSizes t d (numBlocks e) i = Inr (f i, codewordsPerBlock e)))"
proof -
  obtain e t where e: "ecBlocks_at v l = Inr e" "totalCodewords v = Inr t"
    "numDataCodewords v l = Inr (dataCapacity v l)" "dataCapacity v l = t - totalECCodewords e"
    "entry_ok (dataCapacity v l) e"
    using table_ok[OF assms] .
  let ?k = "numBlocks e" and ?d = "dataCapacity v l"
  let ?f = "\<lambda>i. if i < ?k - ?d mod ?k then ?d div ?k else ?d div ?k + 1"
  have k: "0 < ?k" "?k \<le> ?d" "0 \<le> codewordsPerBlock e" using e(5) by (auto simp: entry_ok_def)
  have t: "t = ?d + ?k * codewordsPerBlock e" using e(4) by (simp add: totalECCodewords_def)
  have "(\<Sum>i\<in>{0..<?k}. ?f i) = ?d" using k by (intro sum_block_sizes) auto
  moreover have "1 \<le> ?d div ?k" using k pos_imp_zdiv_pos_iff[of ?k ?d] by linarith
  then have "\<forall>i\<in>{0..<?k}. 1 \<le> ?f i \<and> getBlockSizes t ?d ?k i = Inr (?f i, codewordsPerBlock e)"
    using getBlockSizes_ok[OF k(1,2) t k(3)] by simp
  ultimately show ?thesis using e by (intro exI[of _ e] exI[of _ t] exI[of _ ?d]) auto
qed

theorem getBlockSizes_partition_witness:
  "\<exists>e t d. ecBlocks_at 5 ECLevelQ = Inr e \<and> totalCodewords 5 = Inr t \<and> numDataCodewords 5 ECLevelQ = Inr d \<and>
    t = d + totalECCodewords e \<and>
    (\<exists>f. (\<Sum>i\<in>{0..<numBlocks e}. f i) = d \<and>
      (\<forall>i\<in>{0..<numBlocks e}. 1 \<le> f i \<and> getBlockSizes t d (numBlocks e) i = Inr (f i, codewordsPerBlock e)))"
  by (rule getBlockSizes_partition) (simp_all add: supportedECLevel_def)

end
