(* ===== verification/QRGrid.thy ===== *)
theory QRGrid
  imports Grids Version
begin

text \<open>
  Drawing a QR code, qrgrid.go: the fixed patterns, the type and version information with
  their BCH codes, the placement of the data bits in columns from right to left, the eight
  masks and the penalties that choose among them. A Go condition with \<open>&&\<close> reads the grid only
  as far as its left part is true, which \<open>conj_go\<close> keeps.
\<close>

section \<open>Patterns and tables\<close>

definition positionDetectionPatternBack :: "byte list list" where
  "positionDetectionPatternBack = [
    [0, 0, 0, 0, 0, 0, 0, 0], [0, 0, 0, 0, 0, 0, 0, 0],
    [0, 0, 0, 0, 0, 0, 0, 0], [0, 0, 0, 0, 0, 0, 0, 0],
    [0, 0, 0, 0, 0, 0, 0, 0], [0, 0, 0, 0, 0, 0, 0, 0],
    [0, 0, 0, 0, 0, 0, 0, 0], [0, 0, 0, 0, 0, 0, 0, 0]]"

definition positionDetectionPattern :: "byte list list" where
  "positionDetectionPattern = [
    [1, 1, 1, 1, 1, 1, 1], [1, 0, 0, 0, 0, 0, 1],
    [1, 0, 1, 1, 1, 0, 1], [1, 0, 1, 1, 1, 0, 1],
    [1, 0, 1, 1, 1, 0, 1], [1, 0, 0, 0, 0, 0, 1],
    [1, 1, 1, 1, 1, 1, 1]]"

definition positionAdjustmentPattern :: "byte list list" where
  "positionAdjustmentPattern = [
    [1, 1, 1, 1, 1], [1, 0, 0, 0, 1], [1, 0, 1, 0, 1],
    [1, 0, 0, 0, 1], [1, 1, 1, 1, 1]]"

definition positionAdjustmentPatternCoordinateTable :: "int list list" where
  "positionAdjustmentPatternCoordinateTable = [
    [], [], [6, 18],
    [6, 22], [6, 26], [6, 30],
    [6, 34], [6, 22, 38], [6, 24, 42],
    [6, 26, 46], [6, 28, 50], [6, 30, 54],
    [6, 32, 58], [6, 34, 62], [6, 26, 46, 66],
    [6, 26, 48, 70], [6, 26, 50, 74], [6, 30, 54, 78],
    [6, 30, 56, 82], [6, 30, 58, 86], [6, 34, 62, 90],
    [6, 28, 50, 72, 94], [6, 26, 50, 74, 98], [6, 30, 54, 78, 102],
    [6, 28, 54, 80, 106], [6, 32, 58, 84, 110], [6, 30, 58, 86, 114],
    [6, 34, 62, 90, 118], [6, 26, 50, 74, 98, 122], [6, 30, 54, 78, 102, 126],
    [6, 26, 52, 78, 104, 130], [6, 30, 56, 82, 108, 134], [6, 34, 60, 86, 112, 138],
    [6, 30, 58, 86, 114, 142], [6, 34, 62, 90, 118, 146], [6, 30, 54, 78, 102, 126, 150],
    [6, 24, 50, 76, 102, 128, 154], [6, 28, 54, 80, 106, 132, 158], [6, 32, 58, 84, 110, 136, 162],
    [6, 26, 54, 82, 110, 138, 166], [6, 30, 58, 86, 114, 142, 170]]"

definition typeInfoCoordinates :: "int list list" where
  "typeInfoCoordinates = [
    [8, 0], [8, 1], [8, 2], [8, 3], [8, 4], [8, 5], [8, 7], [8, 8],
    [7, 8], [5, 8], [4, 8], [3, 8], [2, 8], [1, 8], [0, 8]]"

definition versionInfoPoly :: int where "versionInfoPoly = 0x1f25"
definition typeInfoPoly :: int where "typeInfoPoly = 0x537"
definition typeInfoMaskPattern :: int where "typeInfoMaskPattern = 0x5412"

section \<open>Fixed patterns\<close>

definition embedPattern :: "int \<Rightarrow> int \<Rightarrow> byte list list \<Rightarrow> boolBitGrid \<Rightarrow> boolBitGrid go" where
  "embedPattern x0 y0 pattern grid =
     foldE (\<lambda>grid (y, row).
       foldE (\<lambda>grid (x, v). boolBitGrid_Set grid (x0 + int x) (y0 + int y) (v \<noteq> 0)) grid (enumerate 0 row))
     grid (enumerate 0 pattern)"

definition embedPositionDetectionPatternsAndSeparators :: "boolBitGrid \<Rightarrow> boolBitGrid go" where
  "embedPositionDetectionPatternsAndSeparators grid =
     (let wb = int (length (positionDetectionPatternBack ! 0)); hb = int (length positionDetectionPatternBack);
          w = int (length (positionDetectionPattern ! 0)); h = int (length positionDetectionPattern) in
      bindE (embedPattern 0 0 positionDetectionPatternBack grid) (\<lambda>grid.
      bindE (embedPattern (width grid - wb) 0 positionDetectionPatternBack grid) (\<lambda>grid.
      bindE (embedPattern 0 (height grid - hb) positionDetectionPatternBack grid) (\<lambda>grid.
      bindE (embedPattern 0 0 positionDetectionPattern grid) (\<lambda>grid.
      bindE (embedPattern (width grid - w) 0 positionDetectionPattern grid) (\<lambda>grid.
      embedPattern 0 (height grid - h) positionDetectionPattern grid))))))"

definition embedDarkDotAtLeftBottomCorner :: "boolBitGrid \<Rightarrow> boolBitGrid go" where
  "embedDarkDotAtLeftBottomCorner grid = boolBitGrid_Set grid 8 (height grid - 8) True"

definition maybeEmbedPositionAdjustmentPatterns :: "versionNumber \<Rightarrow> boolBitGrid \<Rightarrow> boolBitGrid go" where
  "maybeEmbedPositionAdjustmentPatterns version grid =
     (let h = length positionAdjustmentPattern;
          w = length (positionAdjustmentPattern ! (h div 2)) in
      bindE (idx positionAdjustmentPatternCoordinateTable version) (\<lambda>coords.
      foldE (\<lambda>grid y. foldE (\<lambda>grid x.
          bindE (boolBitGrid_Empty grid x y) (\<lambda>e.
          if e then embedPattern (x - int (w div 2)) (y - int (h div 2)) positionAdjustmentPattern grid
          else Inr grid)) grid coords) grid coords))"

definition timing_step :: "int \<Rightarrow> int \<Rightarrow> int \<Rightarrow> boolBitGrid \<Rightarrow> boolBitGrid go" where
  "timing_step x y i grid =
     bindE (boolBitGrid_Empty grid x y) (\<lambda>e.
     if e then boolBitGrid_Set grid x y (i AND 1 = 0) else Inr grid)"

definition embedTimingPatterns :: "boolBitGrid \<Rightarrow> boolBitGrid go" where
  "embedTimingPatterns grid =
     bindE (foldE (\<lambda>grid i. timing_step i 6 i grid) grid [0..width grid - 1]) (\<lambda>grid.
     foldE (\<lambda>grid i. timing_step 6 i i grid) grid [0..height grid - 1])"

definition embedBasicPatterns :: "versionNumber \<Rightarrow> boolBitGrid \<Rightarrow> boolBitGrid go" where
  "embedBasicPatterns version grid =
     bindE (embedPositionDetectionPatternsAndSeparators grid) (\<lambda>grid.
     bindE (embedDarkDotAtLeftBottomCorner grid) (\<lambda>grid.
     bindE (maybeEmbedPositionAdjustmentPatterns version grid) (\<lambda>grid.
     embedTimingPatterns grid)))"

section \<open>BCH codes\<close>

function msb_loop :: "nat \<Rightarrow> nat \<Rightarrow> nat" where
  "msb_loop numDigits v = (if v = 0 then numDigits else msb_loop (numDigits + 1) (drop_bit 1 v))"
  by pat_completeness auto
termination
  by (relation "measure snd") (auto simp: drop_bit_eq_div)

declare msb_loop.simps [simp del]

text \<open>The conversion to \<open>uint\<close> takes the number modulo \<open>2^64\<close>.\<close>

definition findMSBSet :: "int \<Rightarrow> nat" where
  "findMSBSet value = msb_loop 0 (nat (take_bit 64 value))"

partial_function (option) bch_loop :: "int \<Rightarrow> int \<Rightarrow> nat \<Rightarrow> int option" where
  "bch_loop value poly msbSetInPoly =
     (if findMSBSet value \<ge> msbSetInPoly
      then bch_loop (value XOR push_bit (findMSBSet value - msbSetInPoly) poly) poly msbSetInPoly
      else Some value)"

definition calculateBCHCode :: "int \<Rightarrow> int \<Rightarrow> int go" where
  "calculateBCHCode value poly =
     (let msbSetInPoly = findMSBSet poly in
      case bch_loop (push_bit (msbSetInPoly - 1) value) poly msbSetInPoly of
        None \<Rightarrow> Inl Diverge | Some r \<Rightarrow> Inr r)"

definition embedTypeInfo :: "ECLevel \<Rightarrow> int \<Rightarrow> boolBitGrid \<Rightarrow> boolBitGrid go" where
  "embedTypeInfo ecLevel maskPattern grid =
     (let typeInfo = push_bit 3 ecLevel OR maskPattern in
      bindE (calculateBCHCode typeInfo typeInfoPoly) (\<lambda>bchCode.
      let typeInfo = (push_bit 10 typeInfo OR (bchCode AND 0x3ff)) XOR typeInfoMaskPattern in
      foldE (\<lambda>grid i.
        let b = (drop_bit i typeInfo AND 1 = 1) in
        bindE (boolBitGrid_Set grid (typeInfoCoordinates ! i ! 0) (typeInfoCoordinates ! i ! 1) b) (\<lambda>grid.
        if i < 8 then boolBitGrid_Set grid (width grid - int i - 1) 8 b
        else boolBitGrid_Set grid 8 (height grid + int i - 15) b)) grid [0..<15]))"

definition maybeEmbedVersionInfo :: "versionNumber \<Rightarrow> boolBitGrid \<Rightarrow> boolBitGrid go" where
  "maybeEmbedVersionInfo version grid =
     (if version < 7 then Inr grid
      else bindE (calculateBCHCode version versionInfoPoly) (\<lambda>code.
        let versionInfo = push_bit 12 version OR code in
        bindE (foldE (\<lambda>(versionInfo, grid) i.
            foldE (\<lambda>(versionInfo, grid) j.
              let b = (versionInfo AND 1 = 1); versionInfo = drop_bit 1 versionInfo in
              bindE (boolBitGrid_Set grid i (height grid - 11 + j) b) (\<lambda>grid.
              bindE (boolBitGrid_Set grid (width grid - 11 + j) i b) (\<lambda>grid.
              Inr (versionInfo, grid))))
            (versionInfo, grid) [0..2])
          (versionInfo, grid) [0..5]) (\<lambda>(_, grid). Inr grid)))"

section \<open>Masks and data\<close>

text \<open>Go gives \<open>>>\<close> and \<open>&\<close> the precedence of multiplication.\<close>

definition mask :: "int \<Rightarrow> int \<Rightarrow> int \<Rightarrow> bool" where
  "mask maskPattern x y =
     (if maskPattern = 0 then (x + y) AND 1 = 0
      else if maskPattern = 1 then y AND 1 = 0
      else if maskPattern = 2 then x smod 3 = 0
      else if maskPattern = 3 then (x + y) smod 3 = 0
      else if maskPattern = 4 then (x sdiv 3 + drop_bit 1 y) AND 1 = 0
      else if maskPattern = 5 then ((x * y) AND 1) + (x * y) smod 3 = 0
      else if maskPattern = 6 then (((x * y) AND 1) + (x * y) smod 3) AND 1 = 0
      else if maskPattern = 7 then ((x * y) smod 3 + ((x + y) AND 1)) AND 1 = 0
      else False)"

datatype direction = Up | Down

fun delta :: "direction \<Rightarrow> int" where
  "delta Up = -1"
| "delta Down = 1"

fun opposite :: "direction \<Rightarrow> direction" where
  "opposite Up = Down"
| "opposite Down = Up"

text \<open>The body of the innermost loop: one cell, if it is still empty, takes the next bit.\<close>

definition place_bit ::
  "boolBitVector \<Rightarrow> int \<Rightarrow> nat \<times> boolBitGrid \<Rightarrow> int \<times> int \<Rightarrow> (nat \<times> boolBitGrid) go" where
  "place_bit bv maskPattern s c =
     (case (s, c) of ((next_bit, grid), (xx, y)) \<Rightarrow>
      bindE (boolBitGrid_Empty grid xx y) (\<lambda>e.
      if \<not> e then Inr (next_bit, grid)
      else bindE (if next_bit < boolBitVector_Length bv
                  then bindE (boolBitVector_Get bv next_bit) (\<lambda>b. Inr (b, next_bit + 1))
                  else Inr (False, next_bit)) (\<lambda>(b, next_bit).
        bindE (boolBitGrid_Set grid xx y (if mask maskPattern xx y then \<not> b else b)) (\<lambda>grid.
        Inr (next_bit, grid)))))"

text \<open>The loop along a pair of columns returns the row it stops at.\<close>

function embed_column ::
  "boolBitVector \<Rightarrow> int \<Rightarrow> direction \<Rightarrow> int \<Rightarrow> int \<Rightarrow> int \<Rightarrow> nat \<times> boolBitGrid \<Rightarrow> (int \<times> nat \<times> boolBitGrid) go" where
  "embed_column bv maskPattern direction h x y s =
     (if 0 \<le> y \<and> y < h
      then bindE (foldE (place_bit bv maskPattern) s [(x, y), (x - 1, y)]) (\<lambda>s.
           embed_column bv maskPattern direction h x (y + delta direction) s)
      else Inr (y, s))"
  by pat_completeness auto
termination
  by (relation "measure (\<lambda>(bv, m, d, h, x, y, s). case d of Up \<Rightarrow> nat (y + 1) | Down \<Rightarrow> nat (h - y))")
    (auto split: direction.splits)

declare embed_column.simps [simp del]

function embed_columns ::
  "boolBitVector \<Rightarrow> int \<Rightarrow> direction \<Rightarrow> int \<Rightarrow> int \<Rightarrow> int \<Rightarrow> nat \<times> boolBitGrid \<Rightarrow> (nat \<times> boolBitGrid) go" where
  "embed_columns bv maskPattern direction h x y s =
     (if x > 0
      then let x = (if x = 6 then x - 1 else x) in
        bindE (embed_column bv maskPattern direction h x y s) (\<lambda>(y, s).
        embed_columns bv maskPattern (opposite direction) h (x - 2) (y - delta direction) s)
      else Inr s)"
  by pat_completeness auto
termination
  by (relation "measure (\<lambda>(bv, m, d, h, x, y, s). nat x)") (auto split: if_splits)

declare embed_columns.simps [simp del]

definition embedDataBits :: "boolBitVector \<Rightarrow> int \<Rightarrow> boolBitGrid \<Rightarrow> boolBitGrid go" where
  "embedDataBits bv maskPattern grid =
     bindE (embed_columns bv maskPattern Up (height grid) (width grid - 1) (height grid - 1) (0, grid))
       (\<lambda>(next_bit, grid).
     if next_bit \<noteq> boolBitVector_Length bv then Inl (Panic ''bitIndex != bits.Length()'') else Inr grid)"

definition buildGrid :: "boolBitVector \<Rightarrow> versionNumber \<Rightarrow> ECLevel \<Rightarrow> int \<Rightarrow> boolBitGrid \<Rightarrow> boolBitGrid go" where
  "buildGrid bv version ecLevel maskPattern grid =
     bindE (embedBasicPatterns version (boolBitGrid_Clear grid)) (\<lambda>grid.
     bindE (embedTypeInfo ecLevel maskPattern grid) (\<lambda>grid.
     bindE (maybeEmbedVersionInfo version grid) (\<lambda>grid.
     embedDataBits bv maskPattern grid)))"

section \<open>Penalties\<close>

text \<open>A chain of \<open>&&\<close>: evaluated from the left, up to the first false part.\<close>

fun conj_go :: "bool go list \<Rightarrow> bool go" where
  "conj_go [] = Inr True"
| "conj_go (m # ms) = bindE m (\<lambda>b. if b then conj_go ms else Inr False)"

definition not_go :: "bool go \<Rightarrow> bool go" where
  "not_go m = bindE m (\<lambda>b. Inr (\<not> b))"

text \<open>The counter of rule 1: the length of the run so far and the penalty so far.\<close>

definition run_step :: "int \<times> int \<Rightarrow> bool \<Rightarrow> int \<times> int" where
  "run_step cp same =
     (case cp of (count, penalty) \<Rightarrow>
      if same then (count + 1, if count + 1 = 5 then penalty + 3 else if count + 1 > 5 then penalty + 1 else penalty)
      else (1, penalty))"

definition maskPenaltyRule1 :: "boolBitGrid \<Rightarrow> int go" where
  "maskPenaltyRule1 grid =
     bindE (foldE (\<lambda>penalty x.
         bindE (foldE (\<lambda>cp y.
             bindE (boolBitGrid_Get grid x y) (\<lambda>v. bindE (boolBitGrid_Get grid x (y - 1)) (\<lambda>w.
             Inr (run_step cp (v = w)))))
           (1, penalty) [1..height grid - 1]) (\<lambda>(count, penalty). Inr penalty))
       0 [0..width grid - 1]) (\<lambda>penalty.
     foldE (\<lambda>penalty y.
         bindE (foldE (\<lambda>cp x.
             bindE (boolBitGrid_Get grid x y) (\<lambda>v. bindE (boolBitGrid_Get grid (x - 1) y) (\<lambda>w.
             Inr (run_step cp (v = w)))))
           (1, penalty) [1..width grid - 1]) (\<lambda>(count, penalty). Inr penalty))
       penalty [0..height grid - 1])"

definition maskPenaltyRule2 :: "boolBitGrid \<Rightarrow> int go" where
  "maskPenaltyRule2 grid =
     foldE (\<lambda>penalty y. foldE (\<lambda>penalty x.
         bindE (boolBitGrid_Get grid x y) (\<lambda>v.
         let eq = (\<lambda>x y. bindE (boolBitGrid_Get grid x y) (\<lambda>w. Inr (v = w))) in
         bindE (conj_go [eq (x - 1) y, eq (x - 1) (y - 1), eq x (y - 1)]) (\<lambda>same.
         Inr (if same then penalty + 3 else penalty))))
       penalty [1..width grid - 1]) 0 [1..height grid - 1]"

text \<open>Rule 3 looks for the pattern dark, light, three dark, light, dark, with four light cells after
  or before it; \<open>get i\<close> is the cell \<open>i\<close> steps along a row or column of length \<open>n\<close> from position \<open>p\<close>.\<close>

definition finder_penalty :: "(int \<Rightarrow> bool go) \<Rightarrow> int \<Rightarrow> int \<Rightarrow> int \<Rightarrow> int go" where
  "finder_penalty get p n penalty =
     bindE (conj_go [Inr (p + 6 < n), get 0, not_go (get 1), get 2, get 3, get 4, not_go (get 5), get 6])
       (\<lambda>found.
     if \<not> found then Inr penalty
     else
       bindE (conj_go [Inr (p + 10 < n), not_go (get 7), not_go (get 8), not_go (get 9), not_go (get 10)])
         (\<lambda>after.
       let penalty = (if after then penalty + 40 else penalty) in
       bindE (conj_go [Inr (p - 4 \<ge> 0), not_go (get (-4)), not_go (get (-3)), not_go (get (-2)), not_go (get (-1))])
         (\<lambda>before. Inr (if before then penalty + 40 else penalty))))"

definition maskPenaltyRule3 :: "boolBitGrid \<Rightarrow> int go" where
  "maskPenaltyRule3 grid =
     foldE (\<lambda>penalty y. foldE (\<lambda>penalty x.
         bindE (finder_penalty (\<lambda>i. boolBitGrid_Get grid (x + i) y) x (width grid) penalty) (\<lambda>penalty.
         finder_penalty (\<lambda>i. boolBitGrid_Get grid x (y + i)) y (height grid) penalty))
       penalty [0..width grid - 1]) 0 [0..height grid - 1]"

definition maskPenaltyRule4 :: "boolBitGrid \<Rightarrow> int go" where
  "maskPenaltyRule4 grid =
     (let total = width grid * height grid in
      bindE (foldE (\<lambda>dark y. foldE (\<lambda>dark x.
          bindE (boolBitGrid_Get grid x y) (\<lambda>b. Inr (if b then dark + 1 else dark)))
        dark [0..width grid - 1]) ((- total) sdiv 2) [0..height grid - 1]) (\<lambda>dark.
      let dark = (if dark < 0 then 1 - dark else dark) in
      if total = 0 then Inl (Panic ''integer divide by zero'') else Inr ((dark * 200) sdiv total)))"

definition maskPenalty :: "boolBitGrid \<Rightarrow> int go" where
  "maskPenalty grid =
     bindE (maskPenaltyRule1 grid) (\<lambda>p1. bindE (maskPenaltyRule2 grid) (\<lambda>p2.
     bindE (maskPenaltyRule3 grid) (\<lambda>p3. bindE (maskPenaltyRule4 grid) (\<lambda>p4.
     Inr (p1 + p2 + p3 + p4)))))"

text \<open>The search for the best mask redraws the grid for each; it returns the grid it leaves too.\<close>

definition mask_step ::
  "boolBitVector \<Rightarrow> versionNumber \<Rightarrow> ECLevel \<Rightarrow> int \<times> int \<times> boolBitGrid \<Rightarrow> int \<Rightarrow> (int \<times> int \<times> boolBitGrid) go" where
  "mask_step bv version ecLevel s maskPattern =
     (case s of (best, bestPenalty, grid) \<Rightarrow>
      bindE (buildGrid bv version ecLevel maskPattern grid) (\<lambda>grid.
      bindE (maskPenalty grid) (\<lambda>penalty.
      if best < 0 \<or> penalty < bestPenalty then Inr (maskPattern, penalty, grid)
      else Inr (best, bestPenalty, grid))))"

definition bestMaskPattern ::
  "boolBitVector \<Rightarrow> versionNumber \<Rightarrow> ECLevel \<Rightarrow> boolBitGrid \<Rightarrow> (int \<times> boolBitGrid) go" where
  "bestMaskPattern bv version ecLevel grid =
     bindE (foldE (mask_step bv version ecLevel) (-1, 0, grid) [0..7]) (\<lambda>(best, bestPenalty, grid).
     if best < 0 then Inl (Panic ''bestMaskPattern < 0'') else Inr (best, grid))"

end
