(* ===== verification/Bch.thy ===== *)
theory Bch
  imports QRGrid
begin

text \<open>
  The BCH codes of the type and version information (\<open>calculateBCHCode\<close> and \<open>findMSBSet\<close> of
  qrgrid.go): the loop ends for every polynomial but 0, its result is the remainder of the
  division of polynomials over GF(2), and the codes keep the distances that make the
  information readable on a damaged symbol.
\<close>

section \<open>The highest bit\<close>

lemma msb_loop_le: "msb_loop k v \<le> k + n \<longleftrightarrow> v < 2 ^ n"
proof (induction k v arbitrary: n rule: msb_loop.induct)
  case (1 k v)
  show ?case
  proof (cases "v = 0")
    case True
    then show ?thesis by (subst msb_loop.simps) simp
  next
    case False
    have unf: "msb_loop k v = msb_loop (Suc k) (drop_bit 1 v)"
      using False by (subst msb_loop.simps) simp
    have ih: "msb_loop (Suc k) (drop_bit 1 v) \<le> Suc k + i \<longleftrightarrow> drop_bit 1 v < 2 ^ i" for i
      using "1.IH"[OF False, of i] by simp
    show ?thesis
    proof (cases n)
      case 0
      have "Suc k \<le> msb_loop (Suc k) w" for w
        by (induction "Suc k" w arbitrary: k rule: msb_loop.induct)
          (subst msb_loop.simps, fastforce)
      then show ?thesis using 0 False unf by (auto simp: not_le Suc_le_eq)
    next
      case (Suc i)
      then show ?thesis using ih[of i] unf by (simp add: drop_bit_eq_div) linarith
    qed
  qed
qed

lemma nat_bits_less: "(w::nat) < 2 ^ n \<longleftrightarrow> (\<forall>k \<ge> n. \<not> bit w k)"
  by (metis bit_take_bit_iff leD linorder_not_less take_bit_nat_eq_self_iff bit_eq_iff)

text \<open>\<open>findMSBSet\<close> is the least bound above which no bit of the 64-bit value is set.\<close>

lemma findMSBSet_le: "findMSBSet v \<le> n \<longleftrightarrow> (\<forall>k. n \<le> k \<and> k < 64 \<longrightarrow> \<not> bit v k)"
proof -
  have "bit (nat (take_bit 64 v)) k \<longleftrightarrow> k < 64 \<and> bit v k" for k
    by (simp add: bit_nat_iff bit_take_bit_iff)
  then show ?thesis
    using msb_loop_le[of 0 _ n] nat_bits_less[of "nat (take_bit 64 v)" n]
    by (auto simp: findMSBSet_def)
qed

lemma findMSBSet_top: "0 < findMSBSet v \<Longrightarrow> bit v (findMSBSet v - 1) \<and> findMSBSet v \<le> 64"
proof -
  assume pos: "0 < findMSBSet v"
  have "\<not> findMSBSet v \<le> findMSBSet v - 1" using pos by simp
  then obtain k where k: "findMSBSet v - 1 \<le> k" "k < 64" "bit v k" by (auto simp: findMSBSet_le)
  then have "\<not> findMSBSet v \<le> k" by (auto simp: findMSBSet_le)
  then have "k = findMSBSet v - 1" using k(1) by linarith
  then show ?thesis using k pos by auto
qed

lemma findMSBSet_clear: "findMSBSet v \<le> k \<Longrightarrow> k < 64 \<Longrightarrow> \<not> bit v k"
  using findMSBSet_le[of v "findMSBSet v"] by simp

section \<open>The remainder\<close>

text \<open>The multiples of a polynomial over GF(2), written as numbers.\<close>

inductive gf2_multiple :: "int \<Rightarrow> int \<Rightarrow> bool" for p where
  zero: "gf2_multiple p 0"
| shift: "gf2_multiple p a \<Longrightarrow> gf2_multiple p (a XOR push_bit k p)"

lemma bch_step:
  assumes "findMSBSet poly \<le> findMSBSet v" "0 < findMSBSet poly"
  shows "findMSBSet (v XOR push_bit (findMSBSet v - findMSBSet poly) poly) < findMSBSet v"
proof -
  let ?a = "findMSBSet v" and ?b = "findMSBSet poly"
  have a: "bit v (?a - 1)" "?a \<le> 64" and b: "bit poly (?b - 1)"
    using findMSBSet_top[of v] findMSBSet_top[of poly] assms by auto
  have "findMSBSet (v XOR push_bit (?a - ?b) poly) \<le> ?a - 1"
    unfolding findMSBSet_le
  proof (intro allI impI)
    fix k
    assume k: "?a - 1 \<le> k \<and> k < 64"
    show "\<not> bit (v XOR push_bit (?a - ?b) poly) k"
    proof (cases "k = ?a - 1")
      case True
      then have "k - (?a - ?b) = ?b - 1" "?a - ?b \<le> k" using assms by linarith+
      then show ?thesis using a b True by (simp add: bit_xor_iff bit_push_bit_iff)
    next
      case False
      then have "?a \<le> k" "?b \<le> k - (?a - ?b)" "k - (?a - ?b) < 64" using k assms by linarith+
      then show ?thesis using findMSBSet_clear[of v k] findMSBSet_clear[of poly] k
        by (simp add: bit_xor_iff bit_push_bit_iff)
    qed
  qed
  then show ?thesis using assms by linarith
qed

lemma bch_loop_ok:
  assumes "0 < findMSBSet poly"
  shows "\<exists>r. bch_loop v poly (findMSBSet poly) = Some r \<and> findMSBSet r < findMSBSet poly \<and>
    gf2_multiple poly (v XOR r)"
proof (induction "findMSBSet v" arbitrary: v rule: less_induct)
  case less
  show ?case
  proof (cases "findMSBSet poly \<le> findMSBSet v")
    case False
    then have "bch_loop v poly (findMSBSet poly) = Some v" by (subst bch_loop.simps) simp
    then show ?thesis using False by (auto intro: gf2_multiple.zero)
  next
    case True
    let ?d = "findMSBSet v - findMSBSet poly"
    let ?w = "v XOR push_bit ?d poly"
    obtain r where r: "bch_loop ?w poly (findMSBSet poly) = Some r" "findMSBSet r < findMSBSet poly"
      "gf2_multiple poly (?w XOR r)"
      using less.hyps[OF bch_step[OF True assms]] by blast
    have "bch_loop v poly (findMSBSet poly) = bch_loop ?w poly (findMSBSet poly)"
      using True by (subst bch_loop.simps) simp
    moreover have "gf2_multiple poly ((?w XOR r) XOR push_bit ?d poly)" by (rule gf2_multiple.shift[OF r(3)])
    moreover have "(?w XOR r) XOR push_bit ?d poly = v XOR r"
      by (simp add: xor.assoc xor.commute xor.left_commute)
    ultimately show ?thesis using r by simp
  qed
qed

text \<open>for every value and every polynomial with a bit set, \<open>calculateBCHCode\<close> terminates, and
  its result is the remainder of the shifted value: it has fewer bits than the polynomial, and
  the shifted value with the result subtracted is a multiple of the polynomial.\<close>

theorem calculateBCHCode_remainder:
  assumes "0 < findMSBSet poly"
  shows "\<exists>r. calculateBCHCode value poly = Inr r \<and> findMSBSet r < findMSBSet poly \<and>
    gf2_multiple poly (push_bit (findMSBSet poly - 1) value XOR r)"
  using bch_loop_ok[OF assms, of "push_bit (findMSBSet poly - 1) value"]
  by (auto simp: calculateBCHCode_def Let_def)

theorem calculateBCHCode_remainder_witness:
  "\<exists>r. calculateBCHCode 5 typeInfoPoly = Inr r \<and> findMSBSet r < findMSBSet typeInfoPoly \<and>
    gf2_multiple typeInfoPoly (push_bit (findMSBSet typeInfoPoly - 1) 5 XOR r)"
proof (rule calculateBCHCode_remainder)
  show "0 < findMSBSet typeInfoPoly" by code_simp
qed

section \<open>Distances\<close>

definition type_word :: "int \<Rightarrow> int go" where
  "type_word t = bindE (calculateBCHCode t typeInfoPoly) (\<lambda>c.
     Inr ((push_bit 10 t OR (c AND 0x3ff)) XOR typeInfoMaskPattern))"

definition version_word :: "int \<Rightarrow> int go" where
  "version_word v = bindE (calculateBCHCode v versionInfoPoly) (\<lambda>c. Inr (push_bit 12 v OR c))"

definition distance :: "nat \<Rightarrow> int \<Rightarrow> int \<Rightarrow> nat" where
  "distance n v w = length (filter (\<lambda>i. bit v i \<noteq> bit w i) [0..<n])"

fun apart :: "nat \<Rightarrow> nat \<Rightarrow> int list \<Rightarrow> bool" where
  "apart n d [] \<longleftrightarrow> True"
| "apart n d (w # ws) \<longleftrightarrow> list_all (\<lambda>v. d \<le> distance n w v) ws \<and> apart n d ws"

lemma take_bit_64: "take_bit 64 (v::int) = v mod 18446744073709551616"
  by (simp add: take_bit_eq_mod)

lemmas bch_eval = calculateBCHCode_def typeInfoPoly_def versionInfoPoly_def typeInfoMaskPattern_def
  findMSBSet_def take_bit_64 msb_loop.simps bch_loop.simps drop_bit_eq_div push_bit_eq_mult Let_def

lemma type_words: "mapE type_word [0..31] = Inr [
    21522, 20773, 24188, 23371, 17913, 16590, 20375, 19104, 30660, 29427,
    32170, 30877, 26159, 25368, 27713, 26998, 5769, 5054, 7399, 6608,
    1890, 597, 3340, 2107, 13663, 12392, 16177, 14854, 9396, 8579,
    11994, 11245]"
  by (simp add: type_word_def bch_eval upto.simps)

lemma version_words: "mapE version_word [7..40] = Inr [
    31892, 34236, 39577, 42195, 48118, 51042, 55367, 58893, 63784, 68472,
    70749, 76311, 79154, 84390, 87683, 92361, 96236, 102084, 102881, 110507,
    110734, 117786, 119615, 126325, 127568, 133589, 136944, 141498, 145311, 150283,
    152622, 158308, 161089, 167017]"
  by (simp add: version_word_def bch_eval upto.simps)

lemma type_words_apart: "apart 15 7 [
    21522, 20773, 24188, 23371, 17913, 16590, 20375, 19104, 30660, 29427,
    32170, 30877, 26159, 25368, 27713, 26998, 5769, 5054, 7399, 6608,
    1890, 597, 3340, 2107, 13663, 12392, 16177, 14854, 9396, 8579,
    11994, 11245]"
  by (simp add: distance_def upt_rec)

lemma version_words_apart: "apart 18 8 [
    31892, 34236, 39577, 42195, 48118, 51042, 55367, 58893, 63784, 68472,
    70749, 76311, 79154, 84390, 87683, 92361, 96236, 102084, 102881, 110507,
    110734, 117786, 119615, 126325, 127568, 133589, 136944, 141498, 145311, 150283,
    152622, 158308, 161089, 167017]"
  by (simp add: distance_def upt_rec)

text \<open>any two of the 32 type information words differ in at least 7 of their 15 bits, and any
  two of the version information words of versions 7 to 40 in at least 8 of their 18 bits, so
  that three wrong bits of either can be corrected.\<close>

theorem information_words_apart:
  "(\<exists>ws. mapE type_word [0..31] = Inr ws \<and> apart 15 7 ws) \<and>
   (\<exists>ws. mapE version_word [7..40] = Inr ws \<and> apart 18 8 ws)"
  using type_words type_words_apart version_words version_words_apart by blast

end
