(* ===== verification/Drawing.thy ===== *)
theory Drawing
  imports Bch
begin

text \<open>
  What the drawing code does to the picture on the grid. A picture maps the written cells to
  their colours; every drawing operation is shown to refine a function on pictures, on every
  square grid that has room for it, so that no index of it is out of range.
\<close>

section \<open>Pictures and refinement\<close>

type_synonym picture = "int \<times> int \<Rightarrow> bool option"

definition picture :: "boolBitGrid \<Rightarrow> picture" where
  "picture g = (\<lambda>(x, y).
     if bool_inside g x y \<and> boolBitGrid_Empty g x y = Inr False
     then Some (projr (boolBitGrid_Get g x y)) else None)"

definition grid_ok :: "int \<Rightarrow> boolBitGrid \<Rightarrow> bool" where
  "grid_ok n g \<longleftrightarrow> bool_grid_inv g \<and> width g = n \<and> height g = n"

definition in_square :: "int \<Rightarrow> int \<Rightarrow> int \<Rightarrow> bool" where
  "in_square n x y \<longleftrightarrow> 0 \<le> x \<and> x < n \<and> 0 \<le> y \<and> y < n"

lemma inside_square: "grid_ok n g \<Longrightarrow> bool_inside g x y \<longleftrightarrow> in_square n x y"
  by (simp add: grid_ok_def bool_inside_def in_square_def)

lemma Empty_picture:
  "grid_ok n g \<Longrightarrow> in_square n x y \<Longrightarrow> boolBitGrid_Empty g x y = Inr (picture g (x, y) = None)"
  using bool_grid.Empty_total[of g x y] inside_square[of n g x y]
  by (auto simp: picture_def grid_ok_def)

lemma Get_picture:
  "grid_ok n g \<Longrightarrow> picture g (x, y) = Some b \<Longrightarrow> boolBitGrid_Get g x y = Inr b"
  using bool_grid.Get_total[of g x y] by (auto simp: picture_def grid_ok_def split: if_splits)

lemma picture_inside: "grid_ok n g \<Longrightarrow> picture g (x, y) = Some b \<Longrightarrow> in_square n x y"
  using inside_square[of n g x y] by (auto simp: picture_def split: if_splits)

definition refines :: "int \<Rightarrow> (boolBitGrid \<Rightarrow> boolBitGrid go) \<Rightarrow> (picture \<Rightarrow> picture) \<Rightarrow> bool" where
  "refines n f F \<longleftrightarrow>
     (\<forall>g. grid_ok n g \<longrightarrow> (\<exists>g'. f g = Inr g' \<and> grid_ok n g' \<and> picture g' = F (picture g)))"

lemma refinesD:
  assumes "refines n f F" "grid_ok n g"
  obtains g' where "f g = Inr g'" "grid_ok n g'" "picture g' = F (picture g)"
  using assms unfolding refines_def by blast

lemma refines_Inr: "refines n Inr (\<lambda>m. m)"
  by (simp add: refines_def)

lemma refines_Set:
  assumes "in_square n x y"
  shows "refines n (\<lambda>g. boolBitGrid_Set g x y v) (\<lambda>m. m((x, y) \<mapsto> v))"
  unfolding refines_def
proof (intro allI impI)
  fix g
  assume g: "grid_ok n g"
  then have inv: "bool_grid_inv g" and xy: "bool_inside g x y"
    using assms inside_square by (auto simp: grid_ok_def)
  obtain g' where s: "boolBitGrid_Set g x y v = Inr g'" using bool_grid.Set_total[OF inv xy] by blast
  have ok: "grid_ok n g'"
    using bool_grid.inv_Set[OF inv xy s] bool_grid.Width_Set[OF s] g by (simp add: grid_ok_def)
  have "picture g' (a, b) = ((picture g)((x, y) \<mapsto> v)) (a, b)" for a b
    using bool_grid.Empty_Set[OF inv xy _ s, of a b] bool_grid.Get_Set[OF inv xy _ s, of a b]
      bool_grid.inside_Set[OF s, of a b] xy
    by (auto simp: picture_def)
  then have "picture g' = (picture g)((x, y) \<mapsto> v)" by auto
  with s ok show "\<exists>g'. boolBitGrid_Set g x y v = Inr g' \<and> grid_ok n g' \<and>
      picture g' = (picture g)((x, y) \<mapsto> v)" by blast
qed

lemma refines_bind:
  assumes "refines n f F" "refines n f' F'"
  shows "refines n (\<lambda>g. bindE (f g) f') (\<lambda>m. F' (F m))"
  using assms by (fastforce simp: refines_def)

lemma refines_foldE:
  assumes "\<And>x. x \<in> set xs \<Longrightarrow> refines n (\<lambda>g. f g x) (\<lambda>m. F m x)"
  shows "refines n (\<lambda>g. foldE f g xs) (\<lambda>m. foldl F m xs)"
  using assms
proof (induction xs)
  case Nil
  then show ?case by (simp add: refines_Inr)
next
  case (Cons x xs)
  have "refines n (\<lambda>g. bindE (f g x) (\<lambda>g. foldE f g xs)) (\<lambda>m. foldl F (F m x) xs)"
    by (rule refines_bind) (use Cons in simp_all)
  then show ?case by simp
qed

lemma refines_cong:
  assumes "\<And>g. grid_ok n g \<Longrightarrow> f g = f' g" "refines n f' F"
  shows "refines n f F"
  using assms by (auto simp: refines_def)

lemma refines_if_empty:
  assumes "in_square n x y" "refines n f F"
  shows "refines n (\<lambda>g. bindE (boolBitGrid_Empty g x y) (\<lambda>e. if e then f g else Inr g))
    (\<lambda>m. if m (x, y) = None then F m else m)"
  using assms(2) Empty_picture[OF _ assms(1)] by (auto simp: refines_def)

section \<open>Patterns\<close>

definition put_pattern :: "int \<Rightarrow> int \<Rightarrow> byte list list \<Rightarrow> picture \<Rightarrow> picture" where
  "put_pattern x0 y0 pat m = (\<lambda>(x, y).
     if y0 \<le> y \<and> y < y0 + int (length pat) \<and> x0 \<le> x \<and> x < x0 + int (length (pat ! nat (y - y0)))
     then Some (pat ! nat (y - y0) ! nat (x - x0) \<noteq> 0) else m (x, y))"

lemma nat_pred: "nat (a - (1 + c)) = nat (a - c) - Suc 0"
  by linarith

lemma put_row:
  "foldl (\<lambda>m (x, v). m((x0 + int x, y) \<mapsto> v \<noteq> (0::byte))) m (enumerate k row) =
   (\<lambda>(a, b). if b = y \<and> x0 + int k \<le> a \<and> a < x0 + int k + int (length row)
     then Some (row ! nat (a - x0 - int k) \<noteq> 0) else m (a, b))"
proof (induction row arbitrary: k m)
  case Nil
  then show ?case by (auto simp: fun_eq_iff)
next
  case (Cons v row)
  show ?case
    unfolding enumerate_simps foldl_Cons prod.case Cons.IH
    by (auto simp: fun_eq_iff nth_Cons' nat_pred algebra_simps)
qed

lemma put_rows:
  "foldl (\<lambda>m (y, row). foldl (\<lambda>m (x, v). m((x0 + int x, y0 + int y) \<mapsto> v \<noteq> (0::byte))) m (enumerate 0 row))
     m (enumerate k pat) =
   (\<lambda>(a, b). if y0 + int k \<le> b \<and> b < y0 + int k + int (length pat) \<and>
        x0 \<le> a \<and> a < x0 + int (length (pat ! nat (b - y0 - int k)))
     then Some (pat ! nat (b - y0 - int k) ! nat (a - x0) \<noteq> 0) else m (a, b))"
proof (induction pat arbitrary: k m)
  case Nil
  then show ?case by (auto simp: fun_eq_iff)
next
  case (Cons row pat)
  show ?case
    unfolding enumerate_simps foldl_Cons prod.case Cons.IH unfolding put_row
    by (auto simp: fun_eq_iff nth_Cons' nat_pred algebra_simps)
qed

lemma refines_embedPattern:
  assumes "0 \<le> x0" "0 \<le> y0" "y0 + int (length pat) \<le> n"
    and "\<And>row. row \<in> set pat \<Longrightarrow> x0 + int (length row) \<le> n"
  shows "refines n (embedPattern x0 y0 pat) (put_pattern x0 y0 pat)"
proof -
  let ?F = "\<lambda>m. foldl (\<lambda>m (y, row). foldl (\<lambda>m (x, v). m((x0 + int x, y0 + int y) \<mapsto> v \<noteq> (0::byte))) m (enumerate 0 row))
     m (enumerate 0 pat)"
  have "refines n (embedPattern x0 y0 pat) ?F"
    unfolding embedPattern_def
  proof (rule refines_foldE, clarify, rule refines_foldE, clarify)
    fix y row x v
    assume "(y, row) \<in> set (enumerate 0 pat)" "(x, v) \<in> set (enumerate 0 row)"
    then have "y < length pat" "row \<in> set pat" "x < length row"
      by (auto simp: in_set_enumerate_eq)
    then show "refines n (\<lambda>g. boolBitGrid_Set g (x0 + int x) (y0 + int y) (v \<noteq> 0))
        (\<lambda>m. m((x0 + int x, y0 + int y) \<mapsto> v \<noteq> 0))"
      using assms by (intro refines_Set) (fastforce simp: in_square_def)
  qed
  moreover have "?F = put_pattern x0 y0 pat"
    unfolding put_rows by (simp add: put_pattern_def fun_eq_iff)
  ultimately show ?thesis by simp
qed

section \<open>Finder patterns, alignment patterns, timing\<close>

definition finder_area :: "int \<Rightarrow> int \<times> int \<Rightarrow> bool" where
  "finder_area n = (\<lambda>(x, y). (x \<le> 7 \<and> y \<le> 7) \<or> (n - 8 \<le> x \<and> y \<le> 7) \<or> (x \<le> 7 \<and> n - 8 \<le> y))"

definition put_finders :: "int \<Rightarrow> picture \<Rightarrow> picture" where
  "put_finders n m =
     put_pattern 0 (n - 7) positionDetectionPattern
     (put_pattern (n - 7) 0 positionDetectionPattern
     (put_pattern 0 0 positionDetectionPattern
     (put_pattern 0 (n - 8) positionDetectionPatternBack
     (put_pattern (n - 8) 0 positionDetectionPatternBack
     (put_pattern 0 0 positionDetectionPatternBack m)))))"

lemma finder_shapes:
  "length positionDetectionPattern = 7" "length positionDetectionPatternBack = 8"
  "length positionAdjustmentPattern = 5"
  "row \<in> set positionDetectionPattern \<Longrightarrow> length row = 7"
  "row \<in> set positionDetectionPatternBack \<Longrightarrow> length row = 8"
  "row \<in> set positionAdjustmentPattern \<Longrightarrow> length row = 5"
  by (auto simp: positionDetectionPattern_def positionDetectionPatternBack_def positionAdjustmentPattern_def)

lemma put_pattern_square:
  assumes "length pat = k" "\<And>row. row \<in> set pat \<Longrightarrow> length row = k"
  shows "put_pattern x0 y0 pat m (x, y) =
    (if y0 \<le> y \<and> y < y0 + int k \<and> x0 \<le> x \<and> x < x0 + int k
     then Some (pat ! nat (y - y0) ! nat (x - x0) \<noteq> 0) else m (x, y))"
proof -
  have "length (pat ! nat (y - y0)) = k" if "y0 \<le> y" "y < y0 + int k"
    using assms(2)[of "pat ! nat (y - y0)"] that assms(1) by simp
  then show ?thesis using assms(1) by (auto simp: put_pattern_def)
qed

lemmas put_finder = put_pattern_square[OF finder_shapes(1,4)]
lemmas put_back = put_pattern_square[OF finder_shapes(2,5)]
lemmas put_align = put_pattern_square[OF finder_shapes(3,6)]

lemma refines_finders:
  assumes "17 \<le> n"
  shows "refines n embedPositionDetectionPatternsAndSeparators (put_finders n)"
proof -
  have l: "length (positionDetectionPattern ! 0) = 7" "length (positionDetectionPatternBack ! 0) = 8"
    by (simp_all add: positionDetectionPattern_def positionDetectionPatternBack_def)
  have b: "refines n (embedPattern x y positionDetectionPatternBack) (put_pattern x y positionDetectionPatternBack)"
    if "0 \<le> x" "0 \<le> y" "x + 8 \<le> n" "y + 8 \<le> n" for x y
    using that finder_shapes by (intro refines_embedPattern) auto
  have p: "refines n (embedPattern x y positionDetectionPattern) (put_pattern x y positionDetectionPattern)"
    if "0 \<le> x" "0 \<le> y" "x + 7 \<le> n" "y + 7 \<le> n" for x y
    using that finder_shapes by (intro refines_embedPattern) auto
  have b1: "refines n (\<lambda>g. embedPattern (width g - 8) 0 positionDetectionPatternBack g)
      (put_pattern (n - 8) 0 positionDetectionPatternBack)"
    by (rule refines_cong[OF _ b[of "n - 8" 0]]) (use assms in \<open>simp_all add: grid_ok_def\<close>)
  have b2: "refines n (\<lambda>g. embedPattern 0 (height g - 8) positionDetectionPatternBack g)
      (put_pattern 0 (n - 8) positionDetectionPatternBack)"
    by (rule refines_cong[OF _ b[of 0 "n - 8"]]) (use assms in \<open>simp_all add: grid_ok_def\<close>)
  have p1: "refines n (\<lambda>g. embedPattern (width g - 7) 0 positionDetectionPattern g)
      (put_pattern (n - 7) 0 positionDetectionPattern)"
    by (rule refines_cong[OF _ p[of "n - 7" 0]]) (use assms in \<open>simp_all add: grid_ok_def\<close>)
  have p2: "refines n (\<lambda>g. embedPattern 0 (height g - 7) positionDetectionPattern g)
      (put_pattern 0 (n - 7) positionDetectionPattern)"
    by (rule refines_cong[OF _ p[of 0 "n - 7"]]) (use assms in \<open>simp_all add: grid_ok_def\<close>)
  have b0: "refines n (embedPattern 0 0 positionDetectionPatternBack) (put_pattern 0 0 positionDetectionPatternBack)"
    and p0: "refines n (embedPattern 0 0 positionDetectionPattern) (put_pattern 0 0 positionDetectionPattern)"
    using b[of 0 0] p[of 0 0] assms by simp_all
  show ?thesis
    using refines_bind[OF b0 refines_bind[OF b1 refines_bind[OF b2 refines_bind[OF p0 refines_bind[OF p1 p2]]]]]
    by (simp add: embedPositionDetectionPatternsAndSeparators_def[abs_def] put_finders_def[abs_def]
        Let_def l finder_shapes(1,2))
qed

lemma put_finders_None:
  assumes "in_square n x y" "17 \<le> n"
  shows "put_finders n m (x, y) = None \<longleftrightarrow> \<not> finder_area n (x, y) \<and> m (x, y) = None"
  using assms by (auto simp: put_finders_def put_finder put_back finder_area_def in_square_def)

lemma refines_dark_dot:
  assumes "17 \<le> n"
  shows "refines n embedDarkDotAtLeftBottomCorner (\<lambda>m. m((8, n - 8) \<mapsto> True))"
  unfolding embedDarkDotAtLeftBottomCorner_def[abs_def]
  by (rule refines_cong[OF _ refines_Set[of n 8 "n - 8"]])
    (use assms in \<open>simp_all add: grid_ok_def in_square_def\<close>)

text \<open>Loops that write where nothing has been written.\<close>

lemma foldE_nested:
  "foldE (\<lambda>s y. foldE (\<lambda>s x. f s (x, y)) s xs) s ys = foldE f s (concat (map (\<lambda>y. map (\<lambda>x. (x, y)) xs) ys))"
proof (induction ys arbitrary: s)
  case Nil
  then show ?case by simp
next
  case (Cons y ys)
  have "foldE (\<lambda>s x. f s (x, y)) s xs = foldE f s (map (\<lambda>x. (x, y)) xs)" for s
    by (induction xs arbitrary: s) simp_all
  then show ?case using Cons by (simp add: foldE_append)
qed

lemma foldE_nested_swap:
  "foldE (\<lambda>s i. foldE (\<lambda>s j. f s (i, j)) s js) s is = foldE f s (concat (map (\<lambda>i. map (\<lambda>j. (i, j)) js) is))"
proof (induction "is" arbitrary: s)
  case Nil
  then show ?case by simp
next
  case (Cons i "is")
  have "foldE (\<lambda>s j. f s (i, j)) s js = foldE f s (map (\<lambda>j. (i, j)) js)" for s
    by (induction js arbitrary: s) simp_all
  then show ?case using Cons by (simp add: foldE_append)
qed

definition put_alignment :: "picture \<Rightarrow> int \<times> int \<Rightarrow> picture" where
  "put_alignment m c =
     (if m c = None then put_pattern (fst c - 2) (snd c - 2) positionAdjustmentPattern m else m)"

definition in_block :: "int \<times> int \<Rightarrow> int \<times> int \<Rightarrow> bool" where
  "in_block c p \<longleftrightarrow> fst c - 2 \<le> fst p \<and> fst p \<le> fst c + 2 \<and> snd c - 2 \<le> snd p \<and> snd p \<le> snd c + 2"

definition centre_pairs :: "int list \<Rightarrow> (int \<times> int) list" where
  "centre_pairs coords = concat (map (\<lambda>y. map (\<lambda>x. (x, y)) coords) coords)"

lemma set_centre_pairs: "set (centre_pairs cs) = set cs \<times> set cs"
  by (auto simp: centre_pairs_def)

lemma refines_alignment:
  assumes "idx positionAdjustmentPatternCoordinateTable v = Inr coords"
    and "\<And>a. a \<in> set coords \<Longrightarrow> 2 \<le> a \<and> a + 3 \<le> n"
  shows "refines n (maybeEmbedPositionAdjustmentPatterns v) (\<lambda>m. foldl put_alignment m (centre_pairs coords))"
proof -
  have l: "length (positionAdjustmentPattern ! 2) = 5" by (simp add: positionAdjustmentPattern_def)
  let ?f = "\<lambda>grid c. bindE (boolBitGrid_Empty grid (fst c) (snd c)) (\<lambda>e.
     if e then embedPattern (fst c - 2) (snd c - 2) positionAdjustmentPattern grid else Inr grid)"
  have "refines n (\<lambda>g. foldE ?f g (centre_pairs coords)) (\<lambda>m. foldl put_alignment m (centre_pairs coords))"
  proof (rule refines_foldE)
    fix c
    assume "c \<in> set (centre_pairs coords)"
    then have c: "2 \<le> fst c" "fst c + 3 \<le> n" "2 \<le> snd c" "snd c + 3 \<le> n"
      using assms(2) by (auto simp: set_centre_pairs)
    have "refines n (embedPattern (fst c - 2) (snd c - 2) positionAdjustmentPattern)
        (put_pattern (fst c - 2) (snd c - 2) positionAdjustmentPattern)"
      using c finder_shapes by (intro refines_embedPattern) auto
    then have "refines n (\<lambda>g. ?f g c) (\<lambda>m. if m (fst c, snd c) = None
        then put_pattern (fst c - 2) (snd c - 2) positionAdjustmentPattern m else m)"
      using c by (intro refines_if_empty) (simp add: in_square_def)
    then show "refines n (\<lambda>g. ?f g c) (\<lambda>m. put_alignment m c)"
      by (simp add: put_alignment_def)
  qed
  moreover have "maybeEmbedPositionAdjustmentPatterns v = (\<lambda>g. foldE ?f g (centre_pairs coords))"
    using foldE_nested[of ?f coords _ coords]
    by (simp add: maybeEmbedPositionAdjustmentPatterns_def[abs_def] Let_def assms(1) finder_shapes(3) l centre_pairs_def
        cong: if_cong)
  ultimately show ?thesis by simp
qed

lemma put_alignment_None:
  "put_alignment m c p = None \<longleftrightarrow> m p = None \<and> \<not> (m c = None \<and> in_block c p)"
  by (cases p) (auto simp: put_alignment_def put_align in_block_def)

lemma put_alignments_None:
  assumes "\<And>c d. c \<in> set cs \<Longrightarrow> d \<in> set cs \<Longrightarrow> in_block c d \<Longrightarrow> c = d"
  shows "foldl put_alignment m cs p = None \<longleftrightarrow>
    m p = None \<and> \<not> (\<exists>c \<in> set cs. m c = None \<and> in_block c p)"
  using assms
proof (induction cs arbitrary: m)
  case Nil
  then show ?case by simp
next
  case (Cons c cs)
  have other: "put_alignment m c d = None \<longleftrightarrow> m d = None \<and> (d = c \<longrightarrow> m c \<noteq> None)" if "d \<in> set cs" for d
    using Cons.prems[of c d] that by (auto simp: put_alignment_None in_block_def)
  have "foldl put_alignment m (c # cs) p = None \<longleftrightarrow>
      put_alignment m c p = None \<and> \<not> (\<exists>d \<in> set cs. put_alignment m c d = None \<and> in_block d p)"
    using Cons.IH[of "put_alignment m c"] Cons.prems by simp
  moreover have "put_alignment m c p = None \<longleftrightarrow> m p = None \<and> \<not> (m c = None \<and> in_block c p)"
    by (rule put_alignment_None)
  ultimately show ?case using other unfolding list.set(2) by blast
qed

definition put_if_empty :: "(int \<Rightarrow> int \<times> int) \<Rightarrow> picture \<Rightarrow> int \<Rightarrow> picture" where
  "put_if_empty c m i = (if m (c i) = None then m(c i \<mapsto> i AND 1 = 0) else m)"

lemma put_if_empty_None: "foldl (put_if_empty c) m is p = None \<longleftrightarrow> m p = None \<and> p \<notin> c ` set is"
  by (induction "is" arbitrary: m) (auto simp: put_if_empty_def)

definition put_timing :: "int \<Rightarrow> picture \<Rightarrow> picture" where
  "put_timing n m = foldl (put_if_empty (\<lambda>i. (6, i))) (foldl (put_if_empty (\<lambda>i. (i, 6))) m [0..n - 1]) [0..n - 1]"

lemma refines_timing:
  assumes "17 \<le> n"
  shows "refines n embedTimingPatterns (put_timing n)"
proof -
  have step: "refines n (\<lambda>g. timing_step x y i g) (\<lambda>m. if m (x, y) = None then m((x, y) \<mapsto> i AND 1 = 0) else m)"
    if "in_square n x y" for x y i
    unfolding timing_step_def[abs_def] by (rule refines_if_empty[OF that refines_Set[OF that]])
  have row: "refines n (\<lambda>g. foldE (\<lambda>g i. timing_step i 6 i g) g [0..n - 1]) (\<lambda>m. foldl (put_if_empty (\<lambda>i. (i, 6))) m [0..n - 1])"
    unfolding put_if_empty_def[abs_def] using assms by (intro refines_foldE step) (simp add: in_square_def)
  have col: "refines n (\<lambda>g. foldE (\<lambda>g i. timing_step 6 i i g) g [0..n - 1]) (\<lambda>m. foldl (put_if_empty (\<lambda>i. (6, i))) m [0..n - 1])"
    unfolding put_if_empty_def[abs_def] using assms by (intro refines_foldE step) (simp add: in_square_def)
  have col': "refines n (\<lambda>g. foldE (\<lambda>g i. timing_step 6 i i g) g [0..height g - 1]) (\<lambda>m. foldl (put_if_empty (\<lambda>i. (6, i))) m [0..n - 1])"
    by (rule refines_cong[OF _ col]) (simp add: grid_ok_def)
  have row': "refines n (\<lambda>g. foldE (\<lambda>g i. timing_step i 6 i g) g [0..width g - 1]) (\<lambda>m. foldl (put_if_empty (\<lambda>i. (i, 6))) m [0..n - 1])"
    by (rule refines_cong[OF _ row]) (simp add: grid_ok_def)
  show ?thesis
    using refines_bind[OF row' col'] by (simp add: embedTimingPatterns_def[abs_def] put_timing_def[abs_def])
qed

lemma put_timing_None:
  assumes "in_square n x y"
  shows "put_timing n m (x, y) = None \<longleftrightarrow> m (x, y) = None \<and> x \<noteq> 6 \<and> y \<noteq> 6"
  using assms by (auto simp: put_timing_def put_if_empty_None in_square_def)

section \<open>Type and version information\<close>

definition type_cell :: "nat \<Rightarrow> int \<times> int" where
  "type_cell i = (typeInfoCoordinates ! i ! 0, typeInfoCoordinates ! i ! 1)"

definition type_cell_2 :: "int \<Rightarrow> nat \<Rightarrow> int \<times> int" where
  "type_cell_2 n i = (if i < 8 then (n - int i - 1, 8) else (8, n + int i - 15))"

definition put_type :: "int \<Rightarrow> int \<Rightarrow> picture \<Rightarrow> picture" where
  "put_type n w m = foldl (\<lambda>m i. m(type_cell i \<mapsto> bit w i, type_cell_2 n i \<mapsto> bit w i)) m [0..<15]"

lemma type_cells_small: "i < 15 \<Longrightarrow> in_square 9 (typeInfoCoordinates ! i ! 0) (typeInfoCoordinates ! i ! 1)"
proof -
  have "list_all (\<lambda>c. in_square 9 (c ! 0) (c ! 1)) typeInfoCoordinates" "length typeInfoCoordinates = 15"
    by (simp_all add: typeInfoCoordinates_def in_square_def)
  then show "i < 15 \<Longrightarrow> ?thesis" by (simp add: list_all_length)
qed

lemma and_1_bit: "(drop_bit i (w::int) AND 1 = 1) = bit w i"
  by (simp add: and_one_eq odd_iff_mod_2_eq_one bit_iff_odd_drop_bit flip: odd_iff_mod_2_eq_one)

lemma refines_type:
  assumes "17 \<le> n" and w: "type_word (push_bit 3 l OR k) = Inr w"
  shows "refines n (embedTypeInfo l k) (put_type n w)"
proof -
  let ?step = "\<lambda>grid i.
        bindE (boolBitGrid_Set grid (typeInfoCoordinates ! i ! 0) (typeInfoCoordinates ! i ! 1) (bit w i)) (\<lambda>grid.
        if i < 8 then boolBitGrid_Set grid (width grid - int i - 1) 8 (bit w i)
        else boolBitGrid_Set grid 8 (height grid + int i - 15) (bit w i))"
  have "refines n (\<lambda>g. foldE ?step g [0..<15]) (put_type n w)"
    unfolding put_type_def[abs_def]
  proof (rule refines_foldE)
    fix i
    assume i: "i \<in> set [0..<15::nat]"
    have "refines n (\<lambda>g. boolBitGrid_Set g (typeInfoCoordinates ! i ! 0) (typeInfoCoordinates ! i ! 1) (bit w i))
        (\<lambda>m. m(type_cell i \<mapsto> bit w i))"
      unfolding type_cell_def using type_cells_small[of i] i assms(1)
      by (intro refines_Set) (auto simp: in_square_def)
    moreover have "refines n (\<lambda>grid. if i < 8 then boolBitGrid_Set grid (width grid - int i - 1) 8 (bit w i)
        else boolBitGrid_Set grid 8 (height grid + int i - 15) (bit w i)) (\<lambda>m. m(type_cell_2 n i \<mapsto> bit w i))"
    proof (rule refines_cong)
      show "refines n (\<lambda>g. boolBitGrid_Set g (fst (type_cell_2 n i)) (snd (type_cell_2 n i)) (bit w i))
          (\<lambda>m. m(type_cell_2 n i \<mapsto> bit w i))"
        using refines_Set[of n "fst (type_cell_2 n i)" "snd (type_cell_2 n i)" "bit w i"] i assms(1)
        by (auto simp: in_square_def type_cell_2_def)
    qed (simp add: grid_ok_def type_cell_2_def)
    ultimately show "refines n (\<lambda>g. ?step g i) (\<lambda>m. m(type_cell i \<mapsto> bit w i, type_cell_2 n i \<mapsto> bit w i))"
      by (rule refines_bind)
  qed
  moreover obtain c where c: "calculateBCHCode (push_bit 3 l OR k) typeInfoPoly = Inr c"
    and w_eq: "w = (push_bit 10 (push_bit 3 l OR k) OR (c AND 0x3ff)) XOR typeInfoMaskPattern"
    using w by (auto simp: type_word_def)
  have "embedTypeInfo l k = (\<lambda>g. foldE ?step g [0..<15])"
    unfolding embedTypeInfo_def[abs_def] Let_def c w_eq bindE_simps and_1_bit by (rule refl)
  ultimately show ?thesis by simp
qed

text \<open>The version information is shifted out bit by bit; bit \<open>k\<close> goes to the \<open>k\<close>th cell and its mirror image.\<close>

lemma foldE_shift:
  "foldE (\<lambda>(w, g) c. bindE (f g c (w AND 1 = 1)) (\<lambda>g. Inr (drop_bit 1 w, g))) (drop_bit k w, g) cs =
   bindE (foldE (\<lambda>g (i, c). f g c (bit (w::int) i)) g (enumerate k cs)) (\<lambda>g. Inr (drop_bit (k + length cs) w, g))"
proof (induction cs arbitrary: k g)
  case Nil
  then show ?case by simp
next
  case (Cons c cs)
  have "drop_bit 1 (drop_bit k w) = drop_bit (Suc k) w" by (simp add: drop_bit_drop_bit add.commute)
  then show ?case using Cons[of "Suc k"] by (simp add: and_1_bit bindE_assoc split: prod.splits)
qed

definition version_cells :: "(int \<times> int) list" where
  "version_cells = concat (map (\<lambda>i. map (\<lambda>j. (i, j)) [0..2]) [0..5])"

definition put_version_cell :: "int \<Rightarrow> int \<Rightarrow> picture \<Rightarrow> nat \<times> int \<times> int \<Rightarrow> picture" where
  "put_version_cell n w m = (\<lambda>(k, i, j). m((i, n - 11 + j) \<mapsto> bit w k, (n - 11 + j, i) \<mapsto> bit w k))"

definition put_version :: "int \<Rightarrow> int \<Rightarrow> picture \<Rightarrow> picture" where
  "put_version n w m = foldl (put_version_cell n w) m (enumerate 0 version_cells)"

lemma refines_version:
  assumes "17 \<le> n" and w: "version_word v = Inr w" and "7 \<le> v"
  shows "refines n (maybeEmbedVersionInfo v) (put_version n w)"
proof -
  let ?set = "\<lambda>grid (i, j) b. bindE (boolBitGrid_Set grid i (height grid - 11 + j) b) (\<lambda>grid.
              boolBitGrid_Set grid (width grid - 11 + j) i b)"
  have "refines n (\<lambda>g. foldE (\<lambda>g (k, c). ?set g c (bit w k)) g (enumerate 0 version_cells)) (put_version n w)"
    unfolding put_version_def[abs_def]
  proof (rule refines_foldE)
    fix x
    assume "x \<in> set (enumerate 0 version_cells)"
    then have "snd x \<in> set version_cells" by (metis set_map imageI map_snd_enumerate)
    moreover have "set version_cells = {0..5} \<times> {0..2}" by (auto simp: version_cells_def)
    ultimately obtain k i j where x: "x = (k, i, j)" "0 \<le> i" "i \<le> 5" "0 \<le> j" "j \<le> 2"
      by (cases x) auto
    have "refines n (\<lambda>g. boolBitGrid_Set g i (height g - 11 + j) (bit w k)) (\<lambda>m. m((i, n - 11 + j) \<mapsto> bit w k))"
      by (rule refines_cong[OF _ refines_Set[of n i "n - 11 + j"]])
        (use x assms(1) in \<open>simp_all add: grid_ok_def in_square_def\<close>)
    moreover have "refines n (\<lambda>g. boolBitGrid_Set g (width g - 11 + j) i (bit w k)) (\<lambda>m. m((n - 11 + j, i) \<mapsto> bit w k))"
      by (rule refines_cong[OF _ refines_Set[of n "n - 11 + j" i]])
        (use x assms(1) in \<open>simp_all add: grid_ok_def in_square_def\<close>)
    ultimately show "refines n (\<lambda>g. case x of (k, c) \<Rightarrow> ?set g c (bit w k)) (\<lambda>m. put_version_cell n w m x)"
      using refines_bind by (simp add: x put_version_cell_def)
  qed
  moreover have "maybeEmbedVersionInfo v = (\<lambda>g. foldE (\<lambda>g (k, c). ?set g c (bit w k)) g (enumerate 0 version_cells))"
  proof
    fix g
    let ?h = "\<lambda>(w, g) c. bindE (?set g c (w AND 1 = 1)) (\<lambda>g. Inr (drop_bit 1 w, g))"
    have "maybeEmbedVersionInfo v g =
        bindE (foldE (\<lambda>s i. foldE (\<lambda>s j. ?h s (i, j)) s [0..2]) (w, g) [0..5]) (\<lambda>(_, grid). Inr grid)"
      using w assms(3) by (auto simp: maybeEmbedVersionInfo_def version_word_def Let_def bindE_assoc
          split_def)
    also have "\<dots> = bindE (foldE ?h (w, g) version_cells) (\<lambda>(_, grid). Inr grid)"
      using foldE_nested_swap[of ?h "[0..2]" "(w, g)" "[0..5]"] by (simp only: version_cells_def)
    also have "\<dots> = foldE (\<lambda>g (k, c). ?set g c (bit w k)) g (enumerate 0 version_cells)"
      using foldE_shift[of ?set 0 w g version_cells] by (simp add: bindE_assoc)
    finally show "maybeEmbedVersionInfo v g = \<dots>" .
  qed
  ultimately show ?thesis by simp
qed

section \<open>The cells of the fixed patterns\<close>

text \<open>The picture before any data is placed.\<close>

definition function_picture :: "int \<Rightarrow> versionNumber \<Rightarrow> int list \<Rightarrow> int \<Rightarrow> int \<Rightarrow> picture" where
  "function_picture n v coords tw vw =
     (let m = put_finders n (\<lambda>_. None);
          m = m((8, n - 8) \<mapsto> True);
          m = foldl put_alignment m (centre_pairs coords);
          m = put_type n tw (put_timing n m)
      in if v < 7 then m else put_version n vw m)"

definition format_area :: "int \<Rightarrow> int \<times> int \<Rightarrow> bool" where
  "format_area n = (\<lambda>(x, y). (y = 8 \<and> (x \<le> 8 \<or> n - 8 \<le> x)) \<or> (x = 8 \<and> (y \<le> 8 \<or> n - 8 \<le> y)))"

definition version_area :: "int \<Rightarrow> int \<times> int \<Rightarrow> bool" where
  "version_area n = (\<lambda>(x, y). (x \<le> 5 \<and> n - 11 \<le> y \<and> y \<le> n - 9) \<or> (y \<le> 5 \<and> n - 11 \<le> x \<and> x \<le> n - 9))"

text \<open>The cells that the standard reserves, independent of the order in which they are drawn.\<close>

definition reserved :: "int \<Rightarrow> versionNumber \<Rightarrow> int list \<Rightarrow> int \<times> int \<Rightarrow> bool" where
  "reserved n v coords p \<longleftrightarrow>
     finder_area n p \<or> fst p = 6 \<or> snd p = 6 \<or> format_area n p \<or> (7 \<le> v \<and> version_area n p) \<or>
     (\<exists>c \<in> set (centre_pairs coords). \<not> finder_area n c \<and> in_block c p)"

definition coords_ok :: "int \<Rightarrow> int list \<Rightarrow> bool" where
  "coords_ok n cs \<longleftrightarrow> cs = [] \<or>
     hd cs = 6 \<and> last cs = n - 7 \<and> 2 \<le> length cs \<and>
     list_all (\<lambda>a. 16 \<le> a \<and> a \<le> n - 17) (tl (butlast cs)) \<and> sorted_wrt (\<lambda>a b. a + 5 \<le> b) cs"

lemma coords_table:
  "list_all (\<lambda>(v, cs). coords_ok (dimension v) cs) (zip [1..40] (tl positionAdjustmentPatternCoordinateTable))"
  by (simp add: positionAdjustmentPatternCoordinateTable_def coords_ok_def dimension_def upto.simps)

lemma length_coordinate_table [simp]: "length positionAdjustmentPatternCoordinateTable = 41"
  by (simp add: positionAdjustmentPatternCoordinateTable_def)

definition alignment_coords :: "versionNumber \<Rightarrow> int list" where
  "alignment_coords v = positionAdjustmentPatternCoordinateTable ! nat v"

lemma alignment_coords:
  assumes "1 \<le> v" "v \<le> 40"
  shows "idx positionAdjustmentPatternCoordinateTable v = Inr (alignment_coords v)"
    and "coords_ok (dimension v) (alignment_coords v)"
proof -
  show "idx positionAdjustmentPatternCoordinateTable v = Inr (alignment_coords v)"
    using assms by (simp add: alignment_coords_def)
  have "(v, alignment_coords v) \<in> set (zip [1..40] (tl positionAdjustmentPatternCoordinateTable))"
  proof -
    have "nat v = Suc (nat (v - 1))" "nat (v - 1) < 40" using assms by linarith+
    then show ?thesis
      unfolding set_zip using assms
      by (intro CollectI exI[of _ "nat (v - 1)"]) (simp add: alignment_coords_def nth_tl)
  qed
  then show "coords_ok (dimension v) (alignment_coords v)" using coords_table by (auto simp: list_all_iff)
qed

lemma coords_okD:
  assumes "coords_ok n cs" "a \<in> set cs"
  shows "a = 6 \<or> a = n - 7 \<or> 16 \<le> a \<and> a \<le> n - 17" and "b \<in> set cs \<Longrightarrow> \<bar>a - b\<bar> \<le> 4 \<Longrightarrow> a = b"
proof -
  have cs: "cs \<noteq> []" "hd cs = 6" "last cs = n - 7" "2 \<le> length cs"
    "list_all (\<lambda>a. 16 \<le> a \<and> a \<le> n - 17) (tl (butlast cs))" "sorted_wrt (\<lambda>a b. a + 5 \<le> b) cs"
    using assms by (auto simp: coords_ok_def)
  have "cs = hd cs # tl (butlast cs) @ [last cs]"
    using cs(1,4) by (cases cs; cases "tl cs") (auto simp: butlast.simps)
  then have "set cs = {6, n - 7} \<union> set (tl (butlast cs))"
    using cs(2,3) by (metis Un_insert_left insert_commute list.set(1,2) set_append sup_bot_left sup_commute)
  then show "a = 6 \<or> a = n - 7 \<or> 16 \<le> a \<and> a \<le> n - 17"
    using assms(2) cs(5) by (auto simp: list_all_iff)
  assume "b \<in> set cs" and near: "\<bar>a - b\<bar> \<le> 4"
  then obtain i j where ij: "i < length cs" "cs ! i = a" "j < length cs" "cs ! j = b"
    using assms(2) by (auto simp: in_set_conv_nth)
  have lt: "cs ! k + 5 \<le> cs ! l" if "k < l" "l < length cs" for k l
    using sorted_wrt_nth_less[OF cs(6) that] .
  consider "i < j" | "j < i" | "i = j" by linarith
  then show "a = b" using lt[of i j] lt[of j i] ij near by cases auto
qed

lemma put_type_None: "put_type n w m p = None \<longleftrightarrow>
    m p = None \<and> p \<notin> type_cell ` {..<15} \<and> p \<notin> type_cell_2 n ` {..<15}"
proof -
  have "foldl (\<lambda>m i. m(type_cell i \<mapsto> bit w i, type_cell_2 n i \<mapsto> bit w i)) m is p = None \<longleftrightarrow>
      m p = None \<and> p \<notin> type_cell ` set is \<and> p \<notin> type_cell_2 n ` set is" for "is"
    by (induction "is" arbitrary: m) auto
  then show ?thesis by (simp add: put_type_def lessThan_atLeast0)
qed

lemma type_cells: "type_cell ` {..<15} =
    {(8, 0), (8, 1), (8, 2), (8, 3), (8, 4), (8, 5), (8, 7), (8, 8),
     (7, 8), (5, 8), (4, 8), (3, 8), (2, 8), (1, 8), (0, 8)}"
proof -
  have "{..<15::nat} = set [0, 1, 2, 3, 4, 5, 6, 7, 8, 9, 10, 11, 12, 13, 14]"
    by (simp add: set_eq_iff) presburger
  then show ?thesis by (simp add: type_cell_def typeInfoCoordinates_def)
qed

lemma type_cells_iff: "(x, y) \<in> type_cell ` {..<15} \<longleftrightarrow>
    (x = 8 \<and> 0 \<le> y \<and> y \<le> 8 \<and> y \<noteq> 6) \<or> (y = 8 \<and> 0 \<le> x \<and> x \<le> 8 \<and> x \<noteq> 6)"
  unfolding type_cells insert_iff empty_iff prod.inject by presburger

lemma type_cells_2:
  "(x, y) \<in> type_cell_2 n ` {..<15} \<longleftrightarrow> (y = 8 \<and> n - 8 \<le> x \<and> x < n) \<or> (x = 8 \<and> n - 7 \<le> y \<and> y < n)"
proof
  assume "(x, y) \<in> type_cell_2 n ` {..<15}"
  then show "(y = 8 \<and> n - 8 \<le> x \<and> x < n) \<or> (x = 8 \<and> n - 7 \<le> y \<and> y < n)"
    by (auto simp: type_cell_2_def split: if_splits)
next
  assume "(y = 8 \<and> n - 8 \<le> x \<and> x < n) \<or> (x = 8 \<and> n - 7 \<le> y \<and> y < n)"
  then show "(x, y) \<in> type_cell_2 n ` {..<15}"
  proof
    assume "y = 8 \<and> n - 8 \<le> x \<and> x < n"
    then show ?thesis by (intro image_eqI[of _ _ "nat (n - 1 - x)"]) (auto simp: type_cell_2_def)
  next
    assume "x = 8 \<and> n - 7 \<le> y \<and> y < n"
    then show ?thesis by (intro image_eqI[of _ _ "nat (y - n + 15)"]) (auto simp: type_cell_2_def)
  qed
qed

lemma put_version_cell_None: "put_version_cell n w m (k, i, j) p = None \<longleftrightarrow>
    m p = None \<and> p \<noteq> (i, n - 11 + j) \<and> p \<noteq> (n - 11 + j, i)"
  by (simp add: put_version_cell_def)

lemma put_version_None: "put_version n w m (x, y) = None \<longleftrightarrow>
    m (x, y) = None \<and> \<not> (0 \<le> x \<and> x \<le> 5 \<and> n - 11 \<le> y \<and> y \<le> n - 9) \<and>
    \<not> (0 \<le> y \<and> y \<le> 5 \<and> n - 11 \<le> x \<and> x \<le> n - 9)"
proof -
  have st: "foldl (put_version_cell n w) m cs p = None \<longleftrightarrow>
      m p = None \<and> (\<forall>(i, j) \<in> snd ` set cs. p \<noteq> (i, n - 11 + j) \<and> p \<noteq> (n - 11 + j, i))" for cs p
    by (induction cs arbitrary: m) (auto simp: put_version_cell_None)
  have sn: "snd ` set (enumerate 0 version_cells) = {0..5} \<times> {0..2}"
  proof -
    have "snd ` set (enumerate 0 version_cells) = set version_cells"
      by (metis set_map map_snd_enumerate)
    then show ?thesis by (auto simp: version_cells_def)
  qed
  have "put_version n w m (x, y) = None \<longleftrightarrow>
      m (x, y) = None \<and> (\<forall>i \<in> {0..5}. \<forall>j \<in> {0..2}. (x, y) \<noteq> (i, n - 11 + j) \<and> (x, y) \<noteq> (n - 11 + j, i))"
    unfolding put_version_def st sn by simp
  also have "\<dots> \<longleftrightarrow> m (x, y) = None \<and> \<not> (\<exists>i \<in> {0..5}. \<exists>j \<in> {0..2}. x = i \<and> y = n - 11 + j) \<and>
      \<not> (\<exists>i \<in> {0..5}. \<exists>j \<in> {0..2}. x = n - 11 + j \<and> y = i)"
    by auto
  also have "(\<exists>i \<in> {0..5}. \<exists>j \<in> {0..2}. x = i \<and> y = n - 11 + j) \<longleftrightarrow>
      0 \<le> x \<and> x \<le> 5 \<and> n - 11 \<le> y \<and> y \<le> n - 9"
    by (auto intro!: bexI[of _ "y - n + 11"])
  also have "(\<exists>i \<in> {0..5}. \<exists>j \<in> {0..2}. x = n - 11 + j \<and> y = i) \<longleftrightarrow>
      0 \<le> y \<and> y \<le> 5 \<and> n - 11 \<le> x \<and> x \<le> n - 9"
    by (auto intro!: bexI[of _ "x - n + 11"])
  finally show ?thesis .
qed

lemma function_picture_None:
  assumes v: "1 \<le> v" "v \<le> 40" and n: "n = dimension v" and xy: "in_square n x y"
  shows "function_picture n v (alignment_coords v) tw vw (x, y) = None \<longleftrightarrow>
    \<not> reserved n v (alignment_coords v) (x, y)"
proof -
  let ?cs = "alignment_coords v"
  have n21: "21 \<le> n" using v n by (simp add: dimension_def)
  note ok = coords_okD[OF alignment_coords(2)[OF v]]
  define m0 where "m0 = (put_finders n (\<lambda>_. None))((8, n - 8) \<mapsto> True)"
  have m0: "m0 (a, b) = None \<longleftrightarrow> \<not> finder_area n (a, b) \<and> (a, b) \<noteq> (8, n - 8)" if "in_square n a b" for a b
    using put_finders_None[OF that, of "\<lambda>_. None"] n21 by (auto simp: m0_def)
  have centre: "m0 c = None \<longleftrightarrow> \<not> finder_area n c" if mem: "c \<in> set (centre_pairs ?cs)" for c
  proof -
    obtain a b where c: "c = (a, b)" by (cases c)
    then have ab: "a \<in> set ?cs" "b \<in> set ?cs" using mem unfolding set_centre_pairs by simp_all
    have "in_square n a b" "(a, b) \<noteq> (8, n - 8)"
      using ok(1)[OF ab(1)] ok(1)[OF ab(2)] n21 n by (auto simp: in_square_def)
    then show ?thesis using m0 c by simp
  qed
  have sep: "c = d" if "c \<in> set (centre_pairs ?cs)" "d \<in> set (centre_pairs ?cs)" "in_block c d" for c d
  proof -
    have "fst c = fst d" "snd c = snd d"
      using that by (intro ok(2); auto simp: set_centre_pairs in_block_def)+
    then show ?thesis by (rule prod_eqI)
  qed
  have al: "foldl put_alignment m0 (centre_pairs ?cs) (x, y) = None \<longleftrightarrow>
      \<not> finder_area n (x, y) \<and> (x, y) \<noteq> (8, n - 8) \<and>
      \<not> (\<exists>c \<in> set (centre_pairs ?cs). \<not> finder_area n c \<and> in_block c (x, y))"
    using put_alignments_None[of "centre_pairs ?cs" m0 "(x, y)"] sep centre m0[OF xy] by blast
  have fmt: "format_area n (x, y) \<or> x = 6 \<or> y = 6 \<longleftrightarrow>
      x = 6 \<or> y = 6 \<or> (x, y) = (8, n - 8) \<or> (x, y) \<in> type_cell ` {..<15} \<or> (x, y) \<in> type_cell_2 n ` {..<15}"
    unfolding type_cells_iff type_cells_2 format_area_def prod.case prod.inject
    using xy n21 unfolding in_square_def by presburger
  define t where "t = put_type n tw (put_timing n (foldl put_alignment m0 (centre_pairs ?cs)))"
  let ?align = "\<exists>c \<in> set (centre_pairs ?cs). \<not> finder_area n c \<and> in_block c (x, y)"
  have t: "t (x, y) = None \<longleftrightarrow> \<not> (finder_area n (x, y) \<or> x = 6 \<or> y = 6 \<or> format_area n (x, y) \<or> ?align)"
    unfolding t_def put_type_None put_timing_None[OF xy] al using fmt by blast
  have ver: "put_version n vw t (x, y) = None \<longleftrightarrow> t (x, y) = None \<and> \<not> version_area n (x, y)"
    using xy by (auto simp: put_version_None version_area_def in_square_def)
  have pic: "function_picture n v ?cs tw vw = (if v < 7 then t else put_version n vw t)"
    by (simp add: function_picture_def Let_def t_def m0_def)
  show ?thesis
  proof (cases "v < 7")
    case True
    then have "\<not> 7 \<le> v" by simp
    then show ?thesis unfolding pic if_P[OF True] t reserved_def fst_conv snd_conv by blast
  next
    case False
    then have "7 \<le> v" by simp
    then show ?thesis unfolding pic if_not_P[OF False] ver t reserved_def fst_conv snd_conv by blast
  qed
qed

end
