(* ===== verification/Placement.thy ===== *)
theory Placement
  imports Drawing
begin

text \<open>
  The placement of the data bits (\<open>embedDataBits\<close> of qrgrid.go): the order in which its nested
  loops visit the cells, the picture it leaves, and a count of the free cells that shows that
  the bits of every version fit.
\<close>

section \<open>The order of the cells\<close>

text \<open>Two columns at a time from the right, upwards and downwards in turn, without column 6.\<close>

definition strip_rows :: "direction \<Rightarrow> int \<Rightarrow> int list" where
  "strip_rows d n = (case d of Up \<Rightarrow> rev [0..n - 1] | Down \<Rightarrow> [0..n - 1])"

definition strip_cells :: "int \<Rightarrow> int list \<Rightarrow> (int \<times> int) list" where
  "strip_cells x ys = concat (map (\<lambda>y. [(x, y), (x - 1, y)]) ys)"

function zigzag_from :: "direction \<Rightarrow> int \<Rightarrow> int \<Rightarrow> (int \<times> int) list" where
  "zigzag_from d n x =
     (if x > 0
      then let x = (if x = 6 then x - 1 else x) in
        strip_cells x (strip_rows d n) @ zigzag_from (opposite d) n (x - 2)
      else [])"
  by pat_completeness auto
termination
  by (relation "measure (\<lambda>(d, n, x). nat x)") (auto split: if_splits)

declare zigzag_from.simps [simp del]

definition zigzag :: "int \<Rightarrow> (int \<times> int) list" where
  "zigzag n = zigzag_from Up n (n - 1)"

lemma set_strip_cells: "set (strip_cells x ys) = {x, x - 1} \<times> set ys"
  by (auto simp: strip_cells_def)

lemma distinct_strip_cells: "distinct ys \<Longrightarrow> distinct (strip_cells x ys)"
  by (induction ys) (auto simp: strip_cells_def)

lemma strip_rows: "set (strip_rows d n) = {0..n - 1}" "distinct (strip_rows d n)"
  by (cases d; simp add: strip_rows_def)+

lemma zigzag_from_cells:
  assumes "even x \<and> 6 \<le> x \<or> odd x \<and> -1 \<le> x \<and> x \<le> 5"
  shows "set (zigzag_from d n x) = {(a, b). 0 \<le> a \<and> a \<le> x \<and> a \<noteq> 6 \<and> 0 \<le> b \<and> b < n}"
    and "distinct (zigzag_from d n x)"
proof -
  have "set (zigzag_from d n x) = {(a, b). 0 \<le> a \<and> a \<le> x \<and> a \<noteq> 6 \<and> 0 \<le> b \<and> b < n} \<and>
      distinct (zigzag_from d n x)"
    using assms
  proof (induction d n x rule: zigzag_from.induct)
    case (1 d n x)
    show ?case
    proof (cases "x > 0")
      case False
      then have "x = -1" using "1.prems" by presburger
      then show ?thesis by (subst (1 2) zigzag_from.simps) auto
    next
      case True
      define x' where "x' = (if x = 6 then x - 1 else x)"
      have pre: "even (x' - 2) \<and> 6 \<le> x' - 2 \<or> odd (x' - 2) \<and> -1 \<le> x' - 2 \<and> x' - 2 \<le> 5"
        using "1.prems" True unfolding x'_def by presburger
      have unf: "zigzag_from d n x = strip_cells x' (strip_rows d n) @ zigzag_from (opposite d) n (x' - 2)"
        using True by (subst zigzag_from.simps) (simp add: x'_def)
      have ih: "set (zigzag_from (opposite d) n (x' - 2)) = {(a, b). 0 \<le> a \<and> a \<le> x' - 2 \<and> a \<noteq> 6 \<and> 0 \<le> b \<and> b < n}"
        "distinct (zigzag_from (opposite d) n (x' - 2))"
        using "1.IH"[OF True x'_def pre] by simp_all
      have edge: "1 \<le> x'" "a \<noteq> 6 \<and> 0 \<le> a \<and> a \<le> x \<longleftrightarrow> a = x' \<or> a = x' - 1 \<or> 0 \<le> a \<and> a \<le> x' - 2 \<and> a \<noteq> 6" for a
        using "1.prems" True unfolding x'_def by presburger+
      have "set (zigzag_from d n x) = {(a, b). (a \<noteq> 6 \<and> 0 \<le> a \<and> a \<le> x) \<and> 0 \<le> b \<and> b < n}"
        unfolding unf set_append ih(1) set_strip_cells strip_rows(1) edge(2) by auto
      moreover have "distinct (zigzag_from d n x)"
        unfolding unf using ih distinct_strip_cells[OF strip_rows(2)]
        by (auto simp: set_strip_cells strip_rows(1))
      ultimately show ?thesis by auto
    qed
  qed
  then show "set (zigzag_from d n x) = {(a, b). 0 \<le> a \<and> a \<le> x \<and> a \<noteq> 6 \<and> 0 \<le> b \<and> b < n}"
    "distinct (zigzag_from d n x)" by auto
qed

lemma zigzag_cells:
  assumes "odd n" "7 \<le> n"
  shows "set (zigzag n) = {(x, y). in_square n x y \<and> x \<noteq> 6}" "distinct (zigzag n)"
proof -
  have "even (n - 1) \<and> 6 \<le> n - 1" using assms by simp
  then show "set (zigzag n) = {(x, y). in_square n x y \<and> x \<noteq> 6}" "distinct (zigzag n)"
    using zigzag_from_cells[of "n - 1" Up n] by (auto simp: zigzag_def in_square_def)
qed

section \<open>The loops visit the cells in this order\<close>

lemma foldE_pair: "foldE f s [a, b] = bindE (f s a) (\<lambda>s. f s b)"
  by (simp add: bindE_assoc)

lemma embed_column_Up:
  "-1 \<le> y \<Longrightarrow> y < h \<Longrightarrow> embed_column bv k Up h x y s =
   bindE (foldE (place_bit bv k) s (strip_cells x (rev [0..y]))) (\<lambda>s. Inr (-1, s))"
proof (induction "nat (y + 1)" arbitrary: y s)
  case 0
  then have "y = -1" by simp
  then show ?case by (subst embed_column.simps) (simp add: strip_cells_def)
next
  case (Suc m)
  then have y: "0 \<le> y" "m = nat (y - 1 + 1)" "-1 \<le> y - 1" "y - 1 < h" by auto
  have "[0..y] = [0..y - 1] @ [y]" using y(1) upto_rec2[of 0 y] by simp
  then have "strip_cells x (rev [0..y]) = [(x, y), (x - 1, y)] @ strip_cells x (rev [0..y - 1])"
    by (simp add: strip_cells_def)
  moreover have "embed_column bv k Up h x (y - 1) = (\<lambda>s.
      bindE (foldE (place_bit bv k) s (strip_cells x (rev [0..y - 1]))) (\<lambda>s. Inr (-1, s)))"
    using Suc.hyps(1)[OF y(2-4)] by (rule ext)
  ultimately show ?case
    using Suc.prems y(1)
    by (subst embed_column.simps) (simp add: bindE_assoc)
qed

lemma embed_column_Down:
  "0 \<le> y \<Longrightarrow> y \<le> h \<Longrightarrow> embed_column bv k Down h x y s =
   bindE (foldE (place_bit bv k) s (strip_cells x [y..h - 1])) (\<lambda>s. Inr (h, s))"
proof (induction "nat (h - y)" arbitrary: y s)
  case 0
  then have "y = h" by simp
  then show ?case by (subst embed_column.simps) (simp add: strip_cells_def)
next
  case (Suc m)
  then have y: "y < h" "m = nat (h - (y + 1))" "0 \<le> y + 1" "y + 1 \<le> h" by auto
  have "[y..h - 1] = y # [y + 1..h - 1]" using y(1) upto_rec1[of y "h - 1"] by simp
  then have "strip_cells x [y..h - 1] = [(x, y), (x - 1, y)] @ strip_cells x [y + 1..h - 1]"
    by (simp add: strip_cells_def)
  moreover have "embed_column bv k Down h x (y + 1) = (\<lambda>s.
      bindE (foldE (place_bit bv k) s (strip_cells x [y + 1..h - 1])) (\<lambda>s. Inr (h, s)))"
    using Suc.hyps(1)[OF y(2-4)] by (rule ext)
  ultimately show ?case
    using Suc.prems y(1)
    by (subst embed_column.simps) (simp add: bindE_assoc)
qed

definition first_row :: "direction \<Rightarrow> int \<Rightarrow> int" where
  "first_row d n = (case d of Up \<Rightarrow> n - 1 | Down \<Rightarrow> 0)"

lemma embed_column_strip:
  assumes "0 < n"
  shows "embed_column bv k d n x (first_row d n) s =
    bindE (foldE (place_bit bv k) s (strip_cells x (strip_rows d n)))
      (\<lambda>s. Inr (first_row (opposite d) n + delta d, s))"
  using assms embed_column_Up[of "n - 1" n bv k x s] embed_column_Down[of 0 n bv k x s]
  by (cases d) (simp_all add: first_row_def strip_rows_def)

lemma embed_columns_zigzag:
  shows "0 < n \<Longrightarrow> embed_columns bv k d n x (first_row d n) s = foldE (place_bit bv k) s (zigzag_from d n x)"
proof (induction d n x arbitrary: s rule: zigzag_from.induct)
  case (1 d n x)
  show ?case
  proof (cases "x > 0")
    case False
    then show ?thesis by (subst embed_columns.simps, subst zigzag_from.simps) simp
  next
    case True
    define x' where "x' = (if x = 6 then x - 1 else x)"
    have z: "zigzag_from d n x = strip_cells x' (strip_rows d n) @ zigzag_from (opposite d) n (x' - 2)"
      using True by (subst zigzag_from.simps) (simp add: x'_def)
    have e: "embed_columns bv k d n x (first_row d n) s =
        bindE (embed_column bv k d n x' (first_row d n) s) (\<lambda>(y, s).
          embed_columns bv k (opposite d) n (x' - 2) (y - delta d) s)"
      using True by (subst embed_columns.simps) (simp add: x'_def)
    have ih: "embed_columns bv k (opposite d) n (x' - 2) (first_row (opposite d) n) s' =
        foldE (place_bit bv k) s' (zigzag_from (opposite d) n (x' - 2))" for s'
      using "1.IH"[OF True x'_def "1.prems"] .
    show ?thesis
      unfolding z e embed_column_strip[OF "1.prems"] by (simp add: bindE_assoc foldE_append ih)
  qed
qed

section \<open>The picture of the data\<close>

definition data_value :: "bool list \<Rightarrow> int \<Rightarrow> nat \<Rightarrow> int \<times> int \<Rightarrow> bool" where
  "data_value bs k i c = ((if i < length bs then bs ! i else False) \<noteq> mask k (fst c) (snd c))"

definition place :: "bool list \<Rightarrow> int \<Rightarrow> nat \<times> picture \<Rightarrow> int \<times> int \<Rightarrow> nat \<times> picture" where
  "place bs k s c =
     (case s of (i, m) \<Rightarrow>
      if m c = None then (if i < length bs then i + 1 else i, m(c \<mapsto> data_value bs k i c)) else (i, m))"

lemma place_bit_place:
  assumes g: "grid_ok n g" and c: "in_square n (fst c) (snd c)"
  obtains i' g' where "place_bit bv k (i, g) c = Inr (i', g')" "grid_ok n g'"
    "(i', picture g') = place (bbits bv) k (i, picture g) c"
proof -
  obtain x y where xy: "c = (x, y)" by (cases c)
  have e: "boolBitGrid_Empty g x y = Inr (picture g c = None)"
    using Empty_picture[OF g, of x y] c by (simp add: xy)
  show ?thesis
  proof (cases "picture g c = None")
    case False
    then have "place_bit bv k (i, g) c = Inr (i, g)" using e by (simp add: place_bit_def xy)
    moreover have "(i, picture g) = place (bbits bv) k (i, picture g) c" using False by (auto simp: place_def)
    ultimately show ?thesis using that g by blast
  next
    case True
    let ?v = "data_value (bbits bv) k i c" and ?i = "if i < length (bbits bv) then i + 1 else i"
    obtain g' where g': "boolBitGrid_Set g x y ?v = Inr g'" "grid_ok n g'" "picture g' = (picture g)(c \<mapsto> ?v)"
      using refinesD[OF refines_Set[of n x y ?v] g] c by (auto simp: xy)
    have get: "boolBitVector_Get bv i = Inr (bbits bv ! i)" if "i < length (bbits bv)"
      using that by (simp add: boolBitVector_Get_def)
    have "place_bit bv k (i, g) c = Inr (?i, g')"
      using e True g'(1) get by (cases "i < length (bbits bv)"; cases "mask k x y")
        (simp_all add: place_bit_def xy boolBitVector_Length_def data_value_def)
    moreover have "(?i, picture g') = place (bbits bv) k (i, picture g) c"
      using True g'(3) by (simp add: place_def)
    ultimately show ?thesis using that g'(2) by blast
  qed
qed

lemma foldE_place_bit:
  assumes "grid_ok n g" and "\<And>c. c \<in> set cs \<Longrightarrow> in_square n (fst c) (snd c)"
  shows "\<exists>i' g'. foldE (place_bit bv k) (i, g) cs = Inr (i', g') \<and> grid_ok n g' \<and>
    (i', picture g') = foldl (place (bbits bv) k) (i, picture g) cs"
  using assms
proof (induction cs arbitrary: i g)
  case Nil
  then show ?case by simp
next
  case (Cons c cs)
  obtain i1 g1 where "place_bit bv k (i, g) c = Inr (i1, g1)" "grid_ok n g1"
    "(i1, picture g1) = place (bbits bv) k (i, picture g) c"
    using place_bit_place[OF Cons.prems(1)] Cons.prems(2)[of c] by (metis list.set_intros(1))
  then show ?case using Cons.IH[of g1 i1] Cons.prems(2) by auto
qed

text \<open>The empty cells take the bits in order; the others keep their colour.\<close>

lemma place_picture:
  assumes "distinct cs" "foldl (place bs k) (i, m) cs = (i', m')" "i \<le> length bs"
  defines "es \<equiv> filter (\<lambda>c. m c = None) cs"
  shows "i' = min (length bs) (i + length es)"
    and "\<And>j. j < length es \<Longrightarrow> m' (es ! j) = Some (data_value bs k (i + j) (es ! j))"
    and "\<And>c. c \<notin> set es \<Longrightarrow> m' c = m c"
proof -
  have "i' = min (length bs) (i + length es) \<and>
    (\<forall>j < length es. m' (es ! j) = Some (data_value bs k (i + j) (es ! j))) \<and> (\<forall>c. c \<notin> set es \<longrightarrow> m' c = m c)"
    using assms(1-3) unfolding es_def
  proof (induction cs arbitrary: i m)
    case Nil
    then show ?case by simp
  next
    case (Cons c cs)
    show ?case
    proof (cases "m c = None")
      case False
      then obtain b where b: "m c = Some b" by auto
      then have "place bs k (i, m) c = (i, m)" by (simp add: place_def)
      then show ?thesis using Cons.IH[of i m] Cons.prems b by simp
    next
      case True
      define i1 where "i1 = (if i < length bs then i + 1 else i)"
      define m1 where "m1 = m(c \<mapsto> data_value bs k i c)"
      let ?es = "filter (\<lambda>c. m c = None) cs"
      have m1: "m1 c = Some (data_value bs k i c)" "d \<noteq> c \<Longrightarrow> m1 d = m d" for d
        by (simp_all add: m1_def)
      have es: "filter (\<lambda>d. m1 d = None) cs = ?es"
      proof (intro filter_cong refl)
        fix d
        assume "d \<in> set cs"
        then have "d \<noteq> c" using Cons.prems(1) by (cases "d = c") simp_all
        then show "(m1 d = None) = (m d = None)" by (simp add: m1(2))
      qed
      have "place bs k (i, m) c = (i1, m1)" using True by (simp add: place_def i1_def m1_def)
      then have run: "foldl (place bs k) (i1, m1) cs = (i', m')" using Cons.prems(2) by simp
      have i1: "i1 \<le> length bs" using Cons.prems(3) by (simp add: i1_def)
      have "distinct cs" using Cons.prems(1) by simp
      from Cons.IH[OF this run i1] have ih: "i' = min (length bs) (i1 + length ?es)"
        "\<forall>j < length ?es. m' (?es ! j) = Some (data_value bs k (i1 + j) (?es ! j))"
        "\<forall>d. d \<notin> set ?es \<longrightarrow> m' d = m1 d"
        unfolding es by blast+
      have val: "data_value bs k (i1 + j) d = data_value bs k (i + Suc j) d" for j d
        using Cons.prems(3) by (auto simp: data_value_def i1_def)
      have "c \<notin> set ?es" using Cons.prems(1) by simp
      then have "m' c = m1 c" using ih(3) by blast
      then have "m' c = Some (data_value bs k i c)" using m1(1) by simp
      then have "\<forall>j < length (c # ?es). m' ((c # ?es) ! j) = Some (data_value bs k (i + j) ((c # ?es) ! j))"
        using ih(2) val by (auto simp: nth_Cons split: nat.split)
      moreover have "i' = min (length bs) (i + length (c # ?es))" using ih(1) Cons.prems(3) by (auto simp: i1_def)
      moreover have "\<forall>d. d \<notin> set (c # ?es) \<longrightarrow> m' d = m d" using ih(3) m1(2) by simp
      ultimately show ?thesis using True by simp
    qed
  qed
  then show "i' = min (length bs) (i + length es)"
    "\<And>j. j < length es \<Longrightarrow> m' (es ! j) = Some (data_value bs k (i + j) (es ! j))"
    "\<And>c. c \<notin> set es \<Longrightarrow> m' c = m c" by auto
qed

text \<open>The cells that are free for data, in the order in which they are filled.\<close>

definition free_cells :: "int \<Rightarrow> picture \<Rightarrow> (int \<times> int) list" where
  "free_cells n m = filter (\<lambda>c. m c = None) (zigzag n)"

lemma embedDataBits_picture:
  assumes g: "grid_ok n g" and n: "odd n" "7 \<le> n"
    and room: "length (bbits bv) \<le> length (free_cells n (picture g))"
  obtains g' where "embedDataBits bv k g = Inr g'" "grid_ok n g'"
    "\<And>j. j < length (free_cells n (picture g)) \<Longrightarrow>
       picture g' (free_cells n (picture g) ! j) = Some (data_value (bbits bv) k j (free_cells n (picture g) ! j))"
    "\<And>c. c \<notin> set (free_cells n (picture g)) \<Longrightarrow> picture g' c = picture g c"
proof -
  have dims: "width g = n" "height g = n" using g by (simp_all add: grid_ok_def)
  note zz = zigzag_cells[OF n]
  have "in_square n (fst c) (snd c)" if "c \<in> set (zigzag n)" for c using that zz(1) by auto
  from foldE_place_bit[OF g this] obtain i' g' where
    run: "foldE (place_bit bv k) (0, g) (zigzag n) = Inr (i', g')" "grid_ok n g'"
    "foldl (place (bbits bv) k) (0, picture g) (zigzag n) = (i', picture g')"
    by (metis (no_types, lifting))
  note pic = place_picture[OF zz(2) run(3)]
  have "i' = length (bbits bv)" using pic(1) room by (simp add: free_cells_def)
  moreover have "embed_columns bv k Up n (n - 1) (n - 1) (0, g) = Inr (i', g')"
    using embed_columns_zigzag[of n bv k Up "n - 1" "(0, g)"] n run(1) by (simp add: first_row_def zigzag_def)
  ultimately have "embedDataBits bv k g = Inr g'"
    using dims by (simp add: embedDataBits_def boolBitVector_Length_def)
  then show ?thesis using that run(2) pic(2,3) by (simp add: free_cells_def)
qed

section \<open>Room for the bits\<close>

text \<open>A list that covers the reserved cells; its length bounds their number.\<close>

definition cover :: "int \<Rightarrow> versionNumber \<Rightarrow> int list \<Rightarrow> (int \<times> int) list" where
  "cover n v cs =
     (let mid = tl (butlast cs); late = tl cs in
      List.product [0..7] [0..7] @ List.product [n - 8..n - 1] [0..7] @ List.product [0..7] [n - 8..n - 1] @
      map (\<lambda>i. (i, 6)) [8..n - 9] @ map (\<lambda>i. (6, i)) [8..n - 9] @
      map (\<lambda>i. (i, 8)) ([0..5] @ [7, 8] @ [n - 8..n - 1]) @ map (\<lambda>i. (8, i)) ([0..5] @ [7] @ [n - 8..n - 1]) @
      (if 7 \<le> v then List.product [0..5] [n - 11..n - 9] @ List.product [n - 11..n - 9] [0..5] else []) @
      concat (map (\<lambda>(a, b). List.product [a - 2..a + 2] [b - 2..b + 2]) (List.product late late)) @
      concat (map (\<lambda>a. List.product [a - 2..a + 2] [4, 5, 7, 8]) mid) @
      concat (map (\<lambda>b. List.product [4, 5, 7, 8] [b - 2..b + 2]) mid))"

definition cover_length :: "int \<Rightarrow> versionNumber \<Rightarrow> nat \<Rightarrow> int" where
  "cover_length n v k = 192 + 2 * (n - 16) + 31 + (if 7 \<le> v then 36 else 0) +
     25 * int (k - 1) ^ 2 + 40 * int (k - 2)"

lemma length_concat_const: "(\<And>x. x \<in> set xs \<Longrightarrow> length (f x) = c) \<Longrightarrow> length (concat (map f xs)) = c * length xs"
  by (induction xs) simp_all

lemma length_cover:
  assumes "21 \<le> n"
  shows "int (length (cover n v cs)) = cover_length n v (length cs)"
proof -
  have five: "length [a - 2..a + 2] = 5" for a :: int by simp
  have late: "length (concat (map (\<lambda>(a, b). List.product [a - 2..a + 2] [b - 2..b + 2]) (List.product xs xs))) =
      25 * (length xs)\<^sup>2" for xs :: "int list"
    using length_concat_const[of "List.product xs xs" "\<lambda>(a, b). List.product [a - 2..a + 2] [b - 2..b + 2]" 25]
    by (simp only: split_def length_product five power2_eq_square)
  have m1: "length (concat (map (\<lambda>a. List.product [a - 2..a + 2] [4, 5, 7, 8]) xs)) = 20 * length xs"
    for xs :: "int list"
    using length_concat_const[of xs "\<lambda>a. List.product [a - 2..a + 2] [4, 5, 7, 8]" 20]
    by (simp only: length_product five) simp
  have m2: "length (concat (map (\<lambda>b. List.product [4, 5, 7, 8] [b - 2..b + 2]) xs)) = 20 * length xs"
    for xs :: "int list"
    using length_concat_const[of xs "\<lambda>b. List.product [4, 5, 7, 8] [b - 2..b + 2]" 20]
    by (simp only: length_product five) simp
  show ?thesis
    unfolding cover_def Let_def length_append late m1 m2
    using assms by (simp add: cover_length_def length_product power2_eq_square)
qed

lemma set_concat_product: "(x, y) \<in> set (concat (map (\<lambda>a. List.product (f a) (g a)) as)) \<longleftrightarrow>
    (\<exists>a \<in> set as. x \<in> set (f a) \<and> y \<in> set (g a))"
  by auto

lemma set_cover:
  "(x, y) \<in> set (cover n v cs) \<longleftrightarrow>
     0 \<le> x \<and> x \<le> 7 \<and> 0 \<le> y \<and> y \<le> 7 \<or>
     n - 8 \<le> x \<and> x \<le> n - 1 \<and> 0 \<le> y \<and> y \<le> 7 \<or>
     0 \<le> x \<and> x \<le> 7 \<and> n - 8 \<le> y \<and> y \<le> n - 1 \<or>
     y = 6 \<and> 8 \<le> x \<and> x \<le> n - 9 \<or> x = 6 \<and> 8 \<le> y \<and> y \<le> n - 9 \<or>
     y = 8 \<and> x \<in> set ([0..5] @ [7, 8] @ [n - 8..n - 1]) \<or> x = 8 \<and> y \<in> set ([0..5] @ [7] @ [n - 8..n - 1]) \<or>
     7 \<le> v \<and> (0 \<le> x \<and> x \<le> 5 \<and> n - 11 \<le> y \<and> y \<le> n - 9 \<or> n - 11 \<le> x \<and> x \<le> n - 9 \<and> 0 \<le> y \<and> y \<le> 5) \<or>
     (\<exists>c \<in> set (tl cs) \<times> set (tl cs). fst c - 2 \<le> x \<and> x \<le> fst c + 2 \<and> snd c - 2 \<le> y \<and> y \<le> snd c + 2) \<or>
     (\<exists>a \<in> set (tl (butlast cs)). a - 2 \<le> x \<and> x \<le> a + 2 \<and> y \<in> {4, 5, 7, 8}) \<or>
     (\<exists>b \<in> set (tl (butlast cs)). x \<in> {4, 5, 7, 8} \<and> b - 2 \<le> y \<and> y \<le> b + 2)"
proof -
  have row: "(x, y) \<in> set (map (\<lambda>i. (i, k)) is) \<longleftrightarrow> y = k \<and> x \<in> set is"
    and col: "(x, y) \<in> set (map (\<lambda>i. (k, i)) is) \<longleftrightarrow> x = k \<and> y \<in> set is" for k :: int and "is"
    by auto
  have prod: "(x, y) \<in> set (List.product is js) \<longleftrightarrow> x \<in> set is \<and> y \<in> set js" for "is" js :: "int list"
    by simp
  have rng: "z \<in> set [i..j] \<longleftrightarrow> i \<le> z \<and> z \<le> j" for z i j :: int by simp
  have opt: "(x, y) \<in> set (if P then as else []) \<longleftrightarrow> P \<and> (x, y) \<in> set as" for P and as :: "(int \<times> int) list"
    by simp
  have app: "p \<in> set (as @ bs) \<longleftrightarrow> p \<in> set as \<or> p \<in> set bs" for p and as bs :: "(int \<times> int) list" by simp
  have four: "z \<in> set [4, 5, 7, 8] \<longleftrightarrow> z \<in> {4, 5, 7, 8}" for z :: int by simp
  have late: "set (List.product (tl cs) (tl cs)) = set (tl cs) \<times> set (tl cs)" by simp
  show ?thesis
    unfolding cover_def Let_def app row col opt prod split_def set_concat_product late rng four
    by (simp only: conj_assoc conj_disj_distribL)
qed

lemma reserved_cover:
  assumes v: "1 \<le> v" "v \<le> 40" and n: "n = dimension v" and xy: "in_square n x y"
    and r: "reserved n v (alignment_coords v) (x, y)"
  shows "(x, y) \<in> set (cover n v (alignment_coords v))"
proof -
  let ?cs = "alignment_coords v"
  let ?mid = "tl (butlast ?cs)" and ?late = "tl ?cs"
  have n21: "21 \<le> n" using v n by (simp add: dimension_def)
  have sq: "0 \<le> x" "x < n" "0 \<le> y" "y < n" using xy by (auto simp: in_square_def)
  have ok: "coords_ok n ?cs" using alignment_coords(2)[OF v] n by simp
  have fin: "(x, y) \<in> set (cover n v ?cs)" if "finder_area n (x, y)"
  proof -
    have "0 \<le> x \<and> x \<le> 7 \<and> 0 \<le> y \<and> y \<le> 7 \<or> n - 8 \<le> x \<and> x \<le> n - 1 \<and> 0 \<le> y \<and> y \<le> 7 \<or>
        0 \<le> x \<and> x \<le> 7 \<and> n - 8 \<le> y \<and> y \<le> n - 1"
      using that unfolding finder_area_def prod.case by (elim disjE conjE) (use sq in simp_all)
    then show ?thesis unfolding set_cover by argo
  qed
  have six: "(x, y) \<in> set (cover n v ?cs)" if "x = 6 \<or> y = 6"
  proof (cases "finder_area n (x, y)")
    case False
    have "8 \<le> y \<and> y \<le> n - 9" if "x = 6" using False that sq by (simp add: finder_area_def)
    moreover have "8 \<le> x \<and> x \<le> n - 9" if "y = 6" using False that sq by (simp add: finder_area_def)
    ultimately have "y = 6 \<and> 8 \<le> x \<and> x \<le> n - 9 \<or> x = 6 \<and> 8 \<le> y \<and> y \<le> n - 9"
      using that by blast
    then show ?thesis unfolding set_cover by argo
  qed (rule fin)
  have fmt: "(x, y) \<in> set (cover n v ?cs)" if "format_area n (x, y)" "x \<noteq> 6" "y \<noteq> 6"
  proof -
    have "(y = 8 \<and> x \<in> set ([0..5] @ [7, 8] @ [n - 8..n - 1])) \<or> (x = 8 \<and> y \<in> set ([0..5] @ [7] @ [n - 8..n - 1]))"
      using that sq by (auto simp: format_area_def)
    then show ?thesis unfolding set_cover by argo
  qed
  have ver: "(x, y) \<in> set (cover n v ?cs)" if "7 \<le> v" "version_area n (x, y)"
  proof -
    have "0 \<le> x \<and> x \<le> 5 \<and> n - 11 \<le> y \<and> y \<le> n - 9 \<or> n - 11 \<le> x \<and> x \<le> n - 9 \<and> 0 \<le> y \<and> y \<le> 5"
      using that(2) sq by (auto simp: version_area_def)
    then show ?thesis using that(1) unfolding set_cover by argo
  qed
  have al: "(x, y) \<in> set (cover n v ?cs)"
    if c: "(a, b) \<in> set (centre_pairs ?cs)" "\<not> finder_area n (a, b)" "in_block (a, b) (x, y)"
      and 6: "x \<noteq> 6" "y \<noteq> 6" for a b
  proof -
    have ab: "a \<in> set ?cs" "b \<in> set ?cs" using c(1) unfolding set_centre_pairs by simp_all
    then have shape: "?cs \<noteq> []" "hd ?cs = 6" "last ?cs = n - 7" "2 \<le> length ?cs"
      using ok by (auto simp: coords_ok_def)
    define mid where "mid = ?mid"
    have cs: "?cs = 6 # mid @ [n - 7]"
      using shape unfolding mid_def by (cases ?cs; cases "tl ?cs") (auto, metis append_butlast_last_id)
    then have late: "?late = mid @ [n - 7]" by simp
    have blk: "x \<in> {a - 2..a + 2}" "y \<in> {b - 2..b + 2}" using c(3) by (auto simp: in_block_def)
    consider "a \<in> set ?late" "b \<in> set ?late" | "a \<in> set mid" "b = 6" | "a = 6" "b \<in> set mid"
      using ab c(2) unfolding cs late by (auto simp: finder_area_def mid_def[symmetric])
    then show ?thesis
    proof cases
      case 1
      then have "\<exists>c \<in> set ?late \<times> set ?late. fst c - 2 \<le> x \<and> x \<le> fst c + 2 \<and> snd c - 2 \<le> y \<and> y \<le> snd c + 2"
        using blk by (intro bexI[of _ "(a, b)"]) auto
      then show ?thesis unfolding set_cover by argo
    next
      case 2
      then have "\<exists>a \<in> set ?mid. a - 2 \<le> x \<and> x \<le> a + 2 \<and> y \<in> {4, 5, 7, 8}"
        using blk 6 by (intro bexI[of _ a]) (auto simp: mid_def)
      then show ?thesis unfolding set_cover by argo
    next
      case 3
      then have "\<exists>b \<in> set ?mid. x \<in> {4, 5, 7, 8} \<and> b - 2 \<le> y \<and> y \<le> b + 2"
        using blk 6 by (intro bexI[of _ b]) (auto simp: mid_def)
      then show ?thesis unfolding set_cover by argo
    qed
  qed
  have al': "(x, y) \<in> set (cover n v ?cs)"
    if "c \<in> set (centre_pairs ?cs)" "\<not> finder_area n c" "in_block c (x, y)" "x \<noteq> 6" "y \<noteq> 6" for c
    using al that by (cases c) blast
  from r fin six fmt ver al' show ?thesis
    unfolding reserved_def fst_conv snd_conv by blast
qed

definition totalCodewords_row :: "ecbs list \<Rightarrow> int" where
  "totalCodewords_row row =
     foldl (\<lambda>total b. total + blockCount b * (dataCodewords b + codewordsPerBlock (row ! 1))) 0 (blocks (row ! 1))"

lemma room_table:
  "list_all (\<lambda>(v, row, cs). case totalCodewords_row row of t \<Rightarrow>
      8 * t + cover_length (dimension v) v (length cs) \<le> dimension v ^ 2)
     (zip [1..40] (zip (tl ecBlocks) (tl positionAdjustmentPatternCoordinateTable)))"
  by (simp add: totalCodewords_row_def ecBlocks_def ecBlocks_0_19_def ecBlocks_20_40_def
      positionAdjustmentPatternCoordinateTable_def cover_length_def dimension_def upto.simps)

end
