(* ===== verification/Symbol.thy ===== *)
theory Symbol
  imports Placement
begin

text \<open>
  The finished symbol: \<open>buildGrid\<close> of qrgrid.go draws every version at every level with every
  mask without a panic, writes every cell, and leaves a grid from which a reader finds the
  type information and the data bits again.
\<close>

section \<open>Enough free cells\<close>

lemma room:
  assumes v: "1 \<le> v" "v \<le> 40" and t: "totalCodewords v = Inr t"
  shows "8 * t + cover_length (dimension v) v (length (alignment_coords v)) \<le> dimension v ^ 2"
proof -
  have i: "nat v = Suc (nat (v - 1))" "nat (v - 1) < 40" using v by linarith+
  have "(v, ecBlocks ! nat v, alignment_coords v) \<in>
      set (zip [1..40] (zip (tl ecBlocks) (tl positionAdjustmentPatternCoordinateTable)))"
    unfolding set_zip using v i
    by (intro CollectI exI[of _ "nat (v - 1)"]) (simp add: alignment_coords_def nth_tl)
  from room_table[unfolded list_all_iff, rule_format, OF this]
  have le: "8 * totalCodewords_row (ecBlocks ! nat v) +
      cover_length (dimension v) v (length (alignment_coords v)) \<le> dimension v ^ 2" by simp
  obtain e where "ecBlocks_at v 1 = Inr e" "totalCodewords_row (ecBlocks ! nat v) = t"
    using t by (auto simp: totalCodewords_def totalCodewords_row_def ecBlocks_at_def idx_def split: if_splits)
  then show ?thesis using le by simp
qed

lemma card_square: "0 \<le> n \<Longrightarrow> int (card {c. in_square n (fst c) (snd c)}) = n ^ 2"
proof -
  assume n: "0 \<le> n"
  have "{c. in_square n (fst c) (snd c)} = {0..<n} \<times> {0..<n}" by (auto simp: in_square_def)
  then show ?thesis using n by (simp add: power2_eq_square)
qed

definition data_cells :: "int \<Rightarrow> versionNumber \<Rightarrow> (int \<times> int) list" where
  "data_cells n v = filter (\<lambda>c. \<not> reserved n v (alignment_coords v) c) (zigzag n)"

lemma version_dimension:
  assumes "1 \<le> v" "v \<le> 40" and "n = dimension v"
  shows "odd n" "21 \<le> n" "7 \<le> n" "17 \<le> n" "n \<le> 177"
  using assms by (simp_all add: dimension_def)

lemma data_cells:
  assumes v: "1 \<le> v" "v \<le> 40" and n: "n = dimension v"
  shows "set (data_cells n v) = {c. in_square n (fst c) (snd c) \<and> \<not> reserved n v (alignment_coords v) c}"
    and "distinct (data_cells n v)"
  using zigzag_cells[of n] version_dimension[OF v n]
  by (auto simp: data_cells_def reserved_def)

lemma free_cells_function:
  assumes v: "1 \<le> v" "v \<le> 40" and n: "n = dimension v"
  shows "free_cells n (function_picture n v (alignment_coords v) tw vw) = data_cells n v"
  unfolding free_cells_def data_cells_def
proof (rule filter_cong[OF refl])
  fix c
  assume "c \<in> set (zigzag n)"
  then have "in_square n (fst c) (snd c)" using zigzag_cells[of n] version_dimension[OF v n] by auto
  then show "(function_picture n v (alignment_coords v) tw vw c = None) =
      (\<not> reserved n v (alignment_coords v) c)"
    using function_picture_None[OF v n] by (cases c) simp
qed

lemma length_data_cells:
  assumes v: "1 \<le> v" "v \<le> 40" and n: "n = dimension v" and t: "totalCodewords v = Inr t"
  shows "8 * t \<le> int (length (data_cells n v))"
proof -
  let ?cs = "alignment_coords v"
  let ?S = "{c. in_square n (fst c) (snd c)}" and ?R = "{c. in_square n (fst c) (snd c) \<and> reserved n v ?cs c}"
  have n21: "21 \<le> n" using version_dimension[OF v n] by simp
  have sub: "?R \<subseteq> set (cover n v ?cs)"
  proof
    fix c
    assume "c \<in> ?R"
    then show "c \<in> set (cover n v ?cs)" using reserved_cover[OF v n] by (cases c) auto
  qed
  have fin: "finite ?S" by (rule finite_subset[of _ "{0..<n} \<times> {0..<n}"]) (auto simp: in_square_def)
  have "card ?R \<le> length (cover n v ?cs)"
    using card_mono[OF _ sub] card_length[of "cover n v ?cs"] by fastforce
  then have R: "int (card ?R) \<le> cover_length n v (length ?cs)" using length_cover[OF n21, of v ?cs] by linarith
  have "length (data_cells n v) = card (set (data_cells n v))"
    using data_cells(2)[OF v n] by (simp add: distinct_card)
  also have "set (data_cells n v) = ?S - ?R" unfolding data_cells(1)[OF v n] by auto
  also have "card (?S - ?R) = card ?S - card ?R" by (rule card_Diff_subset) (use fin in auto)
  finally have "int (length (data_cells n v)) = int (card ?S - card ?R)" by simp
  moreover have "int (card ?S) = n ^ 2" using card_square n21 by simp
  moreover have "8 * t + cover_length n v (length ?cs) \<le> n ^ 2" using room[OF v t] n by simp
  ultimately show ?thesis using R by linarith
qed

section \<open>Drawing the function patterns\<close>

lemma refines_Clear: "refines n (\<lambda>g. Inr (boolBitGrid_Clear g)) (\<lambda>_ _. None)"
  unfolding refines_def
proof (intro allI impI)
  fix g
  assume g: "grid_ok n g"
  let ?g = "boolBitGrid_Clear g"
  have ok: "grid_ok n ?g" using g bool_grid.Clear[of g] by (simp add: grid_ok_def)
  have "picture ?g c = None" for c
  proof (cases c)
    case (Pair x y)
    have "in_square n x y \<Longrightarrow> boolBitGrid_Empty ?g x y = Inr True"
      using g bool_grid.Empty_Clear[of g x y] inside_square[OF g] by (simp add: grid_ok_def)
    then show ?thesis using inside_square[OF ok, of x y] by (auto simp: picture_def Pair)
  qed
  then show "\<exists>g'. Inr ?g = Inr g' \<and> grid_ok n g' \<and> picture g' = (\<lambda>_. None)" using ok by auto
qed

lemma type_word_total:
  assumes "supportedECLevel l" "0 \<le> k" "k \<le> 7"
  shows "\<exists>w. type_word (push_bit 3 l OR k) = Inr w"
proof -
  have "\<forall>t \<in> set [0..31]. \<exists>w. type_word t = Inr w"
    using mapE_member[OF type_words] by blast
  moreover have "k \<in> set [0..7]" "l \<in> {0, 1, 2, 3}" using assms supported_cases by auto
  then have "push_bit 3 l OR k \<in> set [0..31]" by (simp add: upto.simps push_bit_eq_mult) fastforce
  ultimately show ?thesis by blast
qed

lemma version_word_total: "7 \<le> v \<Longrightarrow> v \<le> 40 \<Longrightarrow> \<exists>w. version_word v = Inr w"
  using mapE_member[OF version_words, of v] unfolding set_upto atLeastAtMost_iff by blast

lemma refines_function_patterns:
  assumes v: "1 \<le> v" "v \<le> 40" and n: "n = dimension v"
    and tw: "type_word (push_bit 3 l OR k) = Inr tw" and vw: "7 \<le> v \<Longrightarrow> version_word v = Inr vw"
  shows "refines n
    (\<lambda>g. bindE (embedBasicPatterns v (boolBitGrid_Clear g)) (\<lambda>g. bindE (embedTypeInfo l k g) (maybeEmbedVersionInfo v)))
    (\<lambda>_. function_picture n v (alignment_coords v) tw vw)"
proof -
  note d = version_dimension[OF v n]
  let ?cs = "alignment_coords v"
  have al: "refines n (maybeEmbedPositionAdjustmentPatterns v) (\<lambda>m. foldl put_alignment m (centre_pairs ?cs))"
    using coords_okD(1)[OF alignment_coords(2)[OF v]] n d
    by (intro refines_alignment[OF alignment_coords(1)[OF v]]) fastforce
  have vi: "refines n (maybeEmbedVersionInfo v) (\<lambda>m. if v < 7 then m else put_version n vw m)"
  proof (cases "v < 7")
    case True
    then show ?thesis by (simp add: maybeEmbedVersionInfo_def[abs_def] refines_Inr)
  next
    case False
    then show ?thesis using refines_version[OF d(4), of v vw] vw by simp
  qed
  note steps = refines_bind[OF refines_finders[OF d(4)] refines_bind[OF refines_dark_dot[OF d(4)]
    refines_bind[OF al refines_timing[OF d(4)]]]]
  have basic: "refines n (embedBasicPatterns v)
      (\<lambda>m. put_timing n (foldl put_alignment ((put_finders n m)((8, n - 8) \<mapsto> True)) (centre_pairs ?cs)))"
    using steps unfolding embedBasicPatterns_def[abs_def] by simp
  have "refines n (\<lambda>g. bindE (bindE (Inr (boolBitGrid_Clear g)) (embedBasicPatterns v))
        (\<lambda>g. bindE (embedTypeInfo l k g) (maybeEmbedVersionInfo v)))
      (\<lambda>_. function_picture n v ?cs tw vw)"
    unfolding function_picture_def Let_def
    by (rule refines_bind[OF refines_bind[OF refines_Clear basic] refines_bind[OF refines_type[OF d(4) tw] vi]])
  then show ?thesis by simp
qed

section \<open>Reading the symbol\<close>

text \<open>A reader: the type information beside the upper left finder pattern, and the data cells in
  their order with the mask undone.\<close>

definition read_type :: "boolBitGrid \<Rightarrow> bool list go" where
  "read_type g = mapE (\<lambda>i. boolBitGrid_Get g (fst (type_cell i)) (snd (type_cell i))) [0..<15]"

definition read_data :: "versionNumber \<Rightarrow> int \<Rightarrow> boolBitGrid \<Rightarrow> bool list go" where
  "read_data v k g = mapE (\<lambda>(x, y). bindE (boolBitGrid_Get g x y) (\<lambda>b. Inr (b \<noteq> mask k x y)))
     (data_cells (dimension v) v)"

lemma put_type_cell:
  assumes "i < 15" "21 \<le> n"
  shows "put_type n w m (type_cell i) = Some (bit w i)"
proof -
  have inj: "type_cell i = type_cell j \<Longrightarrow> i = j" if "j < 15" for j
  proof -
    have "distinct (map type_cell [0..<15])"
      by (simp add: type_cell_def typeInfoCoordinates_def upt_rec)
    then show "type_cell i = type_cell j \<Longrightarrow> i = j"
      using assms(1) that by (simp add: distinct_map inj_on_def)
  qed
  have two: "type_cell i \<noteq> type_cell_2 n j" if j: "j < 15" for j
  proof
    assume eq: "type_cell i = type_cell_2 n j"
    obtain x y where xy: "type_cell i = (x, y)" by (cases "type_cell i")
    have "x \<le> 8 \<and> y \<le> 8" using type_cells_iff[of x y] assms(1) xy by force
    moreover have "(y = 8 \<and> n - 8 \<le> x) \<or> (x = 8 \<and> n - 7 \<le> y)"
      using type_cells_2[of x y n] j eq xy by force
    ultimately show False using assms(2) by auto
  qed
  have "foldl (\<lambda>m j. m(type_cell j \<mapsto> bit w j, type_cell_2 n j \<mapsto> bit w j)) m is (type_cell i) =
      (if i \<in> set is then Some (bit w i) else m (type_cell i))" if "set is \<subseteq> {..<15}" for "is"
    using that
  proof (induction "is" arbitrary: m)
    case Nil
    then show ?case by simp
  next
    case (Cons j js)
    then have j: "j < 15" by simp
    let ?m = "m(type_cell j \<mapsto> bit w j, type_cell_2 n j \<mapsto> bit w j)"
    have "?m (type_cell i) = (if i = j then Some (bit w i) else m (type_cell i))"
      using inj[OF j] two[OF j] by auto
    then show ?case using Cons by auto
  qed
  moreover have "set [0..<15] \<subseteq> {..<15::nat}" by auto
  ultimately show ?thesis using assms(1) by (simp add: put_type_def)
qed

lemma function_picture_type:
  assumes v: "1 \<le> v" "v \<le> 40" and n: "n = dimension v" and i: "i < 15"
  shows "function_picture n v cs tw vw (type_cell i) = Some (bit tw i)"
proof -
  have n21: "21 \<le> n" using version_dimension[OF v n] by simp
  obtain x y where xy: "type_cell i = (x, y)" by (cases "type_cell i")
  have near: "0 \<le> x \<and> x \<le> 8 \<and> 0 \<le> y \<and> y \<le> 8" using type_cells_iff[of x y] i xy by force
  have keep: "put_version n vw m (type_cell i) = m (type_cell i)" if v7: "7 \<le> v" for m
  proof -
    have "45 \<le> n" using v7 n by (simp add: dimension_def)
    have "foldl (put_version_cell n vw) m cs (x, y) = m (x, y)"
      if "\<forall>c \<in> set cs. 0 \<le> snd (snd c)" for cs
      using that
    proof (induction cs arbitrary: m)
      case (Cons c cs)
      then show ?case using near \<open>45 \<le> n\<close> by (cases c) (auto simp: put_version_cell_def)
    qed simp
    moreover have "\<forall>c \<in> set (enumerate 0 version_cells). 0 \<le> snd (snd c)"
    proof
      fix c
      assume "c \<in> set (enumerate 0 version_cells)"
      then have "snd c \<in> set version_cells" by (metis image_eqI map_snd_enumerate set_map)
      then show "0 \<le> snd (snd c)" by (auto simp: version_cells_def)
    qed
    ultimately show ?thesis by (simp add: put_version_def xy)
  qed
  show ?thesis
    using put_type_cell[OF i n21] keep by (cases "v < 7") (simp_all add: function_picture_def Let_def)
qed

lemma buildGrid_picture:
  assumes v: "1 \<le> v" "v \<le> 40" and l: "supportedECLevel l" and k: "0 \<le> k" "k \<le> 7"
    and t: "totalCodewords v = Inr t" "int (boolBitVector_Length bv) = 8 * t"
    and n: "n = dimension v" and g: "grid_ok n g"
  obtains g' tw vw where "buildGrid bv v l k g = Inr g'" "grid_ok n g'"
    "type_word (push_bit 3 l OR k) = Inr tw"
    "\<And>j. j < length (data_cells n v) \<Longrightarrow>
       picture g' (data_cells n v ! j) = Some (data_value (bbits bv) k j (data_cells n v ! j))"
    "\<And>c. c \<notin> set (data_cells n v) \<Longrightarrow> picture g' c = function_picture n v (alignment_coords v) tw vw c"
proof -
  note d = version_dimension[OF v n]
  obtain tw where tw: "type_word (push_bit 3 l OR k) = Inr tw" using type_word_total[OF l k] by blast
  obtain vw where vw: "7 \<le> v \<Longrightarrow> version_word v = Inr vw" using version_word_total v by (metis v(2))
  from refinesD[OF refines_function_patterns[OF v n tw vw] g] obtain g1 where g1:
    "bindE (embedBasicPatterns v (boolBitGrid_Clear g)) (\<lambda>g. bindE (embedTypeInfo l k g) (maybeEmbedVersionInfo v)) = Inr g1"
    "grid_ok n g1" "picture g1 = function_picture n v (alignment_coords v) tw vw" by blast
  note fc = free_cells_function[OF v n, of tw vw]
  have "length (bbits bv) \<le> length (free_cells n (picture g1))"
    unfolding g1(3) fc using length_data_cells[OF v n t(1)] t(2) by (simp add: boolBitVector_Length_def)
  from embedDataBits_picture[OF g1(2) d(1,3) this] obtain g' where g': "embedDataBits bv k g1 = Inr g'" "grid_ok n g'"
    "\<And>j. j < length (data_cells n v) \<Longrightarrow>
       picture g' (data_cells n v ! j) = Some (data_value (bbits bv) k j (data_cells n v ! j))"
    "\<And>c. c \<notin> set (data_cells n v) \<Longrightarrow> picture g' c = picture g1 c"
    unfolding g1(3) fc by blast
  have "buildGrid bv v l k g = Inr g'"
    using g1(1) g'(1) by (auto simp: buildGrid_def)
  from that[OF this g'(2) tw g'(3)] g'(4) g1(3) show ?thesis by simp
qed

lemma buildGrid_ok:
  assumes v: "1 \<le> v" "v \<le> 40" and l: "supportedECLevel l" and k: "0 \<le> k" "k \<le> 7"
    and t: "totalCodewords v = Inr t" "int (boolBitVector_Length bv) = 8 * t"
    and g: "grid_ok (dimension v) g"
  obtains g' w rest where "buildGrid bv v l k g = Inr g'" "grid_ok (dimension v) g'"
    "list_all (\<lambda>(x, y). boolBitGrid_Empty g' x y = Inr False) (List.product [0..dimension v - 1] [0..dimension v - 1])"
    "type_word (push_bit 3 l OR k) = Inr w" "read_type g' = Inr (map (bit w) [0..<15])"
    "read_data v k g' = Inr (bbits bv @ rest)" "list_all Not rest"
proof -
  define n where "n = dimension v"
  let ?ds = "data_cells n v" and ?bs = "bbits bv"
  obtain g' w vw where g': "buildGrid bv v l k g = Inr g'" "grid_ok n g'" "type_word (push_bit 3 l OR k) = Inr w"
    "\<And>j. j < length ?ds \<Longrightarrow> picture g' (?ds ! j) = Some (data_value ?bs k j (?ds ! j))"
    "\<And>c. c \<notin> set ?ds \<Longrightarrow> picture g' c = function_picture n v (alignment_coords v) w vw c"
    using buildGrid_picture[OF v l k t n_def g[folded n_def]] by blast
  have full: "boolBitGrid_Empty g' x y = Inr False" if xy: "in_square n x y" for x y
  proof (cases "(x, y) \<in> set ?ds")
    case True
    then obtain j where "j < length ?ds" "?ds ! j = (x, y)" by (auto simp: in_set_conv_nth)
    then show ?thesis using g'(4)[of j] Empty_picture[OF g'(2) xy] by simp
  next
    case False
    then have "reserved n v (alignment_coords v) (x, y)"
      using data_cells(1)[OF v n_def] xy by auto
    then show ?thesis
      using Empty_picture[OF g'(2) xy] g'(5)[OF False] function_picture_None[OF v n_def xy] by simp
  qed
  have tcell: "boolBitGrid_Get g' (fst (type_cell i)) (snd (type_cell i)) = Inr (bit w i)" if i: "i < 15" for i
  proof -
    obtain x y where xy: "type_cell i = (x, y)" by (cases "type_cell i")
    have "(y = 8 \<and> x \<le> 8) \<or> (x = 8 \<and> y \<le> 8)" using type_cells_iff[of x y] i xy by force
    then have "reserved n v (alignment_coords v) (x, y)" by (auto simp: reserved_def format_area_def)
    then have "type_cell i \<notin> set ?ds" using data_cells(1)[OF v n_def] xy by simp
    then have "picture g' (x, y) = Some (bit w i)"
      using g'(5) function_picture_type[OF v n_def i] xy by simp
    then show ?thesis using Get_picture[OF g'(2)] xy by simp
  qed
  have rt: "read_type g' = Inr (map (bit w) [0..<15])"
    unfolding read_type_def by (rule mapE_total) (use tcell in simp)
  have len: "length ?bs \<le> length ?ds"
    using length_data_cells[OF v n_def t(1)] t(2) by (simp add: boolBitVector_Length_def)
  let ?rest = "replicate (length ?ds - length ?bs) False"
  have "list_all2 (\<lambda>(x, y) b. bindE (boolBitGrid_Get g' x y) (\<lambda>b. Inr (b \<noteq> mask k x y)) = Inr b) ?ds (?bs @ ?rest)"
  proof (rule list_all2_all_nthI)
    show "length ?ds = length (?bs @ ?rest)" using len by simp
    fix j
    assume j: "j < length ?ds"
    obtain x y where xy: "?ds ! j = (x, y)" by (cases "?ds ! j")
    have "boolBitGrid_Get g' x y = Inr (data_value ?bs k j (x, y))"
      using Get_picture[OF g'(2)] g'(4)[OF j] xy by simp
    then show "(case ?ds ! j of (x, y) \<Rightarrow> \<lambda>b. bindE (boolBitGrid_Get g' x y) (\<lambda>b. Inr (b \<noteq> mask k x y)) = Inr b)
        ((?bs @ ?rest) ! j)"
      using xy j by (auto simp: data_value_def nth_append)
  qed
  then have rd: "read_data v k g' = Inr (?bs @ ?rest)"
    unfolding read_data_def mapE_Inr_iff n_def by (rule list_all2_mono) auto
  show ?thesis
    by (rule that[OF g'(1) _ _ g'(3) rt rd]) (use g'(2) full in \<open>auto simp: n_def list_all_iff in_square_def\<close>)
qed

text \<open>at every version and supported level and with every mask, \<open>buildGrid\<close> draws the codewords
  of that version without a panic, whatever the grid held before. It leaves no cell empty; the
  type information reads back as the BCH word of level and mask; and the data cells, read in
  the order of the standard with the mask undone, give the bits followed by zeros only.\<close>

theorem buildGrid_reads_back:
  assumes "1 \<le> v" and "v \<le> 40" and "supportedECLevel l" and "0 \<le> k" and "k \<le> 7"
    and "totalCodewords v = Inr t" and "int (boolBitVector_Length bv) = 8 * t"
    and "grid_ok (dimension v) g"
  shows "\<exists>g' w rest. buildGrid bv v l k g = Inr g' \<and> grid_ok (dimension v) g' \<and>
    list_all (\<lambda>(x, y). boolBitGrid_Empty g' x y = Inr False)
      (List.product [0..dimension v - 1] [0..dimension v - 1]) \<and>
    type_word (push_bit 3 l OR k) = Inr w \<and> read_type g' = Inr (map (bit w) [0..<15]) \<and>
    read_data v k g' = Inr (bbits bv @ rest) \<and> list_all Not rest"
  using buildGrid_ok[OF assms] by metis

lemma newBoolBitGrid_ok: "0 \<le> n \<Longrightarrow> grid_ok n (newBoolBitGrid n n)"
  using newBoolBitGrid_inv[of n n] by (simp add: grid_ok_def) (simp add: newBoolBitGrid_def)

theorem buildGrid_reads_back_witness:
  "\<exists>g' w rest. buildGrid \<lparr>bbits = replicate 208 True\<rparr> 1 ECLevelM 3 (newBoolBitGrid 21 21) = Inr g' \<and>
    grid_ok (dimension 1) g' \<and>
    list_all (\<lambda>(x, y). boolBitGrid_Empty g' x y = Inr False)
      (List.product [0..dimension 1 - 1] [0..dimension 1 - 1]) \<and>
    type_word (push_bit 3 ECLevelM OR 3) = Inr w \<and> read_type g' = Inr (map (bit w) [0..<15]) \<and>
    read_data 1 3 g' = Inr (bbits \<lparr>bbits = replicate 208 True\<rparr> @ rest) \<and> list_all Not rest"
proof (rule buildGrid_reads_back)
  show "totalCodewords 1 = Inr 26"
    by (simp add: totalCodewords_def ecBlocks_at_def ecBlocks_def ecBlocks_0_19_def)
  show "grid_ok (dimension 1) (newBoolBitGrid 21 21)"
    using newBoolBitGrid_ok[of 21] by (simp add: dimension_def)
qed (simp_all add: supportedECLevel_def boolBitVector_Length_def)

end
