(* ===== verification/Penalty.thy ===== *)
theory Penalty
  imports Symbol
begin

text \<open>
  The penalties of a finished grid (\<open>maskPenalty\<close> of qrgrid.go) and the choice of the mask. The
  nested loops are shown equal to a reference on the colours of the cells: runs of equal
  colour, monochrome squares, finder-like patterns and the balance of dark and light.
\<close>

section \<open>Loops without failure\<close>

lemma foldE_Inr_on: "(\<And>s x. x \<in> set xs \<Longrightarrow> f s x = Inr (h s x)) \<Longrightarrow> foldE f s xs = Inr (foldl h s xs)"
  by (induction xs arbitrary: s) auto

lemma foldl_add: "foldl (\<lambda>p x. p + f x) (a::int) xs = a + (\<Sum>x\<leftarrow>xs. f x)"
  by (induction xs arbitrary: a) auto

lemma foldE_sum:
  assumes "\<And>s x. x \<in> set xs \<Longrightarrow> f s x = Inr (s + h x)"
  shows "foldE f (a::int) xs = Inr (a + (\<Sum>x\<leftarrow>xs. h x))"
  using foldE_Inr_on[of xs f "\<lambda>s x. s + h x" a] assms by (simp add: foldl_add)

lemma foldE_cells:
  assumes "\<And>y x s. y \<in> set ys \<Longrightarrow> x \<in> set xs \<Longrightarrow> f y s x = Inr (s + h x y)"
  shows "foldE (\<lambda>s y. foldE (f y) s xs) (a::int) ys = Inr (a + (\<Sum>y\<leftarrow>ys. \<Sum>x\<leftarrow>xs. h x y))"
  by (rule foldE_sum, rule foldE_sum, rule assms; assumption)

section \<open>The colours of a grid\<close>

definition colour :: "boolBitGrid \<Rightarrow> int \<Rightarrow> int \<Rightarrow> bool" where
  "colour g x y = projr (boolBitGrid_Get g x y)"

lemma Get_colour: "grid_ok n g \<Longrightarrow> in_square n x y \<Longrightarrow> boolBitGrid_Get g x y = Inr (colour g x y)"
  using bool_grid.Get_total[of g x y] inside_square[of n g x y] by (auto simp: grid_ok_def colour_def)

definition column :: "boolBitGrid \<Rightarrow> int \<Rightarrow> int \<Rightarrow> bool list" where
  "column g n x = map (\<lambda>y. colour g x y) [0..n - 1]"

definition row :: "boolBitGrid \<Rightarrow> int \<Rightarrow> int \<Rightarrow> bool list" where
  "row g n y = map (\<lambda>x. colour g x y) [0..n - 1]"

definition lines :: "boolBitGrid \<Rightarrow> int \<Rightarrow> bool list list" where
  "lines g n = map (column g n) [0..n - 1] @ map (row g n) [0..n - 1]"

section \<open>Rule 1: runs of one colour\<close>

fun run_lengths :: "bool list \<Rightarrow> nat list" where
  "run_lengths [] = []"
| "run_lengths [b] = [1]"
| "run_lengths (a # b # bs) =
     (case run_lengths (b # bs) of
        [] \<Rightarrow> [1]
      | r # rs \<Rightarrow> if a = b then Suc r # rs else 1 # r # rs)"

definition run_penalty :: "nat \<Rightarrow> int" where
  "run_penalty r = (if r \<ge> 5 then 3 + (int r - 5) else 0)"

definition line_penalty :: "bool list \<Rightarrow> int" where
  "line_penalty l = (\<Sum>r\<leftarrow>run_lengths l. run_penalty r)"

lemma run_lengths_Cons: "\<exists>r rs. run_lengths (b # bs) = Suc r # rs"
proof (induction bs arbitrary: b)
  case (Cons c cs)
  then obtain r rs where "run_lengths (c # cs) = Suc r # rs" by blast
  then show ?case by simp
qed simp

fun neighbours :: "bool list \<Rightarrow> bool list" where
  "neighbours (a # b # bs) = (b = a) # neighbours (b # bs)"
| "neighbours bs = []"

lemma run_steps:
  assumes "run_lengths (b # bs) = r # rs" "1 \<le> k"
  shows "snd (foldl run_step (int k, p) (neighbours (b # bs))) =
    p - run_penalty k + run_penalty (k - 1 + r) + (\<Sum>r\<leftarrow>rs. run_penalty r)"
  using assms
proof (induction bs arbitrary: b r rs k p)
  case Nil
  then show ?case by auto
next
  case (Cons c cs)
  obtain q qs where q: "run_lengths (c # cs) = Suc q # qs" using run_lengths_Cons by blast
  show ?case
  proof (cases "b = c")
    case True
    then have r: "r = Suc (Suc q)" "rs = qs" using Cons.prems(1) q by auto
    let ?p = "if int k + 1 = 5 then p + 3 else if int k + 1 > 5 then p + 1 else p"
    have "?p - run_penalty (Suc k) = p - run_penalty k" by (auto simp: run_penalty_def)
    moreover have "run_step (int k, p) True = (int (Suc k), ?p)" by (auto simp: run_step_def)
    ultimately show ?thesis
      using Cons.IH[OF q, of "Suc k" ?p] True r Cons.prems(2) by (simp add: algebra_simps)
  next
    case False
    then have r: "r = 1" "rs = Suc q # qs" using Cons.prems(1) q by auto
    have "run_step (int k, p) False = (int 1, p)" by (simp add: run_step_def)
    moreover have "run_penalty 1 = 0" by (simp add: run_penalty_def)
    ultimately show ?thesis
      using Cons.IH[OF q, of 1 p] False r Cons.prems(2) by (auto simp: algebra_simps)
  qed
qed

lemma run_line: "snd (foldl run_step (1, p) (neighbours l)) = p + line_penalty l"
proof (cases l)
  case Nil
  then show ?thesis by (simp add: line_penalty_def)
next
  case (Cons b bs)
  obtain r rs where "run_lengths (b # bs) = Suc r # rs" using run_lengths_Cons by blast
  then show ?thesis using run_steps[of b bs "Suc r" rs 1 p] Cons
    by (simp add: line_penalty_def run_penalty_def)
qed

lemma neighbours_map: "0 \<le> n \<Longrightarrow> neighbours (map f [0..n]) = map (\<lambda>i. f i = f (i - 1)) [1..n]"
proof (induction n rule: int_ge_induct)
  case base
  then show ?case by simp
next
  case (step n)
  have app: "neighbours (bs @ [a, b]) = neighbours (bs @ [a]) @ [b = a]" for bs :: "bool list" and a b
  proof (induction bs)
    case (Cons c cs)
    then show ?case by (cases cs) auto
  qed simp
  have "map f [0..n + 1] = map f [0..n - 1] @ [f n, f (n + 1)]"
    using step.hyps upto_rec2[of 0 "n + 1"] upto_rec2[of 0 n] by simp
  moreover have "map f [0..n - 1] @ [f n] = map f [0..n]" using step.hyps upto_rec2[of 0 n] by simp
  moreover have "[1..n + 1] = [1..n] @ [n + 1]" using step.hyps upto_rec2[of 1 "n + 1"] by simp
  ultimately show ?case using step.IH app[of "map f [0..n - 1]"] by simp
qed

lemma run_loop:
  assumes "1 \<le> n" and "\<And>i. i \<in> set [1..n - 1] \<Longrightarrow> get i = Inr (f i) \<and> get (i - 1) = Inr (f (i - 1))"
  shows "foldE (\<lambda>cp i. bindE (get i) (\<lambda>v. bindE (get (i - 1)) (\<lambda>w. Inr (run_step cp (v = w))))) (1, p) [1..n - 1] =
    Inr (foldl run_step (1, p) (neighbours (map f [0..n - 1])))"
proof -
  have "foldE (\<lambda>cp i. bindE (get i) (\<lambda>v. bindE (get (i - 1)) (\<lambda>w. Inr (run_step cp (v = w))))) (1, p) [1..n - 1] =
      Inr (foldl (\<lambda>cp i. run_step cp (f i = f (i - 1))) (1, p) [1..n - 1])"
    by (rule foldE_Inr_on) (use assms(2) in simp)
  also have "foldl (\<lambda>cp i. run_step cp (f i = f (i - 1))) (1, p) [1..n - 1] =
      foldl run_step (1, p) (neighbours (map f [0..n - 1]))"
    using assms(1) by (simp add: neighbours_map foldl_map)
  finally show ?thesis .
qed

lemma maskPenaltyRule1_ok:
  assumes g: "grid_ok n g" and n: "1 \<le> n"
  shows "maskPenaltyRule1 g = Inr (\<Sum>l\<leftarrow>lines g n. line_penalty l)"
proof -
  have dims: "width g = n" "height g = n" using g by (simp_all add: grid_ok_def)
  have col: "foldE (\<lambda>cp y. bindE (boolBitGrid_Get g x y) (\<lambda>v. bindE (boolBitGrid_Get g x (y - 1)) (\<lambda>w.
        Inr (run_step cp (v = w))))) (1, p) [1..n - 1] =
      Inr (foldl run_step (1, p) (neighbours (column g n x)))" if "x \<in> set [0..n - 1]" for x p
    unfolding column_def by (rule run_loop[OF n]) (use that Get_colour[OF g] in \<open>simp add: in_square_def\<close>)
  have row: "foldE (\<lambda>cp x. bindE (boolBitGrid_Get g x y) (\<lambda>v. bindE (boolBitGrid_Get g (x - 1) y) (\<lambda>w.
        Inr (run_step cp (v = w))))) (1, p) [1..n - 1] =
      Inr (foldl run_step (1, p) (neighbours (row g n y)))" if "y \<in> set [0..n - 1]" for y p
    unfolding row_def by (rule run_loop[OF n]) (use that Get_colour[OF g] in \<open>simp add: in_square_def\<close>)
  have last: "bindE (Inr (foldl run_step (1, p) (neighbours l))) (\<lambda>(count, penalty). Inr penalty) =
      Inr (p + line_penalty l)" for p l
    using run_line[of p l] by (simp add: split_def)
  show ?thesis
    unfolding maskPenaltyRule1_def dims
    apply (subst foldE_sum[where h = "\<lambda>x. line_penalty (column g n x)"])
     apply (simp only: col last)
    unfolding bindE_simps
    apply (subst foldE_sum[where h = "\<lambda>y. line_penalty (row g n y)"])
     apply (simp only: row last)
    apply (simp add: lines_def comp_def)
    done
qed

section \<open>Rule 2: squares of one colour\<close>

definition same_square :: "boolBitGrid \<Rightarrow> int \<times> int \<Rightarrow> bool" where
  "same_square g = (\<lambda>(x, y). colour g x y = colour g (x - 1) y \<and>
     colour g x y = colour g (x - 1) (y - 1) \<and> colour g x y = colour g x (y - 1))"

definition squares :: "boolBitGrid \<Rightarrow> int \<Rightarrow> nat" where
  "squares g n = card {c. c \<in> {1..n - 1} \<times> {1..n - 1} \<and> same_square g c}"

lemma sum_list_if_card:
  "distinct xs \<Longrightarrow> (\<Sum>x\<leftarrow>xs. if P x then k else 0) = k * int (card {x \<in> set xs. P x})"
proof (induction xs)
  case (Cons x xs)
  have "{y \<in> set (x # xs). P y} = (if P x then insert x {y \<in> set xs. P y} else {y \<in> set xs. P y})" by auto
  then show ?case using Cons by (auto simp: algebra_simps card_insert_if)
qed simp

lemma sum_list_nested: "(\<Sum>y\<leftarrow>ys. \<Sum>x\<leftarrow>xs. h x y) = (\<Sum>(y, x)\<leftarrow>List.product ys xs. h x y)"
  by (induction ys) (simp_all add: comp_def)

lemma sum_cells_card:
  assumes "\<And>x y. h x y = (if P (x, y) then k else 0)"
  shows "(\<Sum>y\<leftarrow>[a..b]. \<Sum>x\<leftarrow>[a..b]. h x y) = k * int (card {c. c \<in> {a..b} \<times> {a..b} \<and> P c})"
proof -
  have "(\<Sum>y\<leftarrow>[a..b]. \<Sum>x\<leftarrow>[a..b]. h x y) = (\<Sum>c\<leftarrow>List.product [a..b] [a..b]. if P (prod.swap c) then k else 0)"
    unfolding sum_list_nested by (rule arg_cong[where f = sum_list], rule map_cong) (auto simp: assms)
  also have "\<dots> = k * int (card {c \<in> {a..b} \<times> {a..b}. P (prod.swap c)})"
    by (subst sum_list_if_card) (simp_all add: distinct_product)
  also have "{c \<in> {a..b} \<times> {a..b}. P (prod.swap c)} = prod.swap ` {c. c \<in> {a..b} \<times> {a..b} \<and> P c}"
    by (auto simp: image_iff)
  also have "card \<dots> = card {c. c \<in> {a..b} \<times> {a..b} \<and> P c}" by (rule card_image) simp
  finally show ?thesis .
qed

lemma maskPenaltyRule2_ok:
  assumes g: "grid_ok n g"
  shows "maskPenaltyRule2 g = Inr (3 * int (squares g n))"
proof -
  have dims: "width g = n" "height g = n" using g by (simp_all add: grid_ok_def)
  let ?h = "\<lambda>x y. if same_square g (x, y) then 3 else (0::int)"
  have cell: "bindE (boolBitGrid_Get g x y) (\<lambda>v.
      let eq = \<lambda>x y. bindE (boolBitGrid_Get g x y) (\<lambda>w. Inr (v = w)) in
      bindE (conj_go [eq (x - 1) y, eq (x - 1) (y - 1), eq x (y - 1)]) (\<lambda>same.
      Inr (if same then penalty + 3 else penalty))) = Inr (penalty + ?h x y)"
    if "x \<in> set [1..n - 1]" "y \<in> set [1..n - 1]" for x y and penalty :: int
    using that Get_colour[OF g] by (auto simp: in_square_def same_square_def)
  have "maskPenaltyRule2 g = Inr (0 + (\<Sum>y\<leftarrow>[1..n - 1]. \<Sum>x\<leftarrow>[1..n - 1]. ?h x y))"
    unfolding maskPenaltyRule2_def dims by (rule foldE_cells[where h = ?h], rule cell; assumption)
  then show ?thesis
    using sum_cells_card[of ?h "same_square g" 3 1 "n - 1"] by (simp add: squares_def)
qed

section \<open>Rule 3: patterns like a finder\<close>

text \<open>Eleven cells in a row or column: the dark and light stripes of a finder with a light margin.\<close>

definition finder_before :: "bool list" where
  "finder_before = [True, False, True, True, True, False, True, False, False, False, False]"

definition finder_after :: "bool list" where
  "finder_after = [False, False, False, False, True, False, True, True, True, False, True]"

definition occurrences :: "bool list \<Rightarrow> bool list \<Rightarrow> nat" where
  "occurrences pat l = card {i. i + length pat \<le> length l \<and> take (length pat) (drop i l) = pat}"

definition finders :: "bool list \<Rightarrow> nat" where
  "finders l = occurrences finder_before l + occurrences finder_after l"

definition at_before :: "(int \<Rightarrow> bool) \<Rightarrow> int \<Rightarrow> int \<Rightarrow> bool" where
  "at_before c n p \<longleftrightarrow> 0 \<le> p \<and> p + 10 < n \<and> map (\<lambda>i. c (p + i)) [0, 1, 2, 3, 4, 5, 6, 7, 8, 9, 10] = finder_before"

definition at_after :: "(int \<Rightarrow> bool) \<Rightarrow> int \<Rightarrow> int \<Rightarrow> bool" where
  "at_after c n p \<longleftrightarrow> 4 \<le> p \<and> p + 6 < n \<and> map (\<lambda>i. c (p - 4 + i)) [0, 1, 2, 3, 4, 5, 6, 7, 8, 9, 10] = finder_after"

lemma finder_penalty_ok:
  assumes get: "\<And>i. 0 \<le> i \<Longrightarrow> i < n \<Longrightarrow> get (i - p) = Inr (c i)" and p: "0 \<le> p" "p < n"
  shows "finder_penalty get p n penalty =
    Inr (penalty + ((if at_before c n p then 40 else 0) + (if at_after c n p then 40 else 0)))"
proof -
  have g: "get k = Inr (c (p + k))" if "0 \<le> p + k" "p + k < n" for k
    using get[of "p + k"] that by simp
  have c0: "conj_go [Inr (p + 6 < n), get 0, not_go (get 1), get 2, get 3, get 4, not_go (get 5), get 6] =
      Inr (p + 6 < n \<and> map (\<lambda>i. c (p + i)) [0, 1, 2, 3, 4, 5, 6] = [True, False, True, True, True, False, True])"
    using p g by (simp add: not_go_def)
  have c1: "conj_go [Inr (p + 10 < n), not_go (get 7), not_go (get 8), not_go (get 9), not_go (get 10)] =
      Inr (p + 10 < n \<and> map (\<lambda>i. c (p + i)) [7, 8, 9, 10] = [False, False, False, False])"
    using p g by (simp add: not_go_def)
  have c2: "conj_go [Inr (p - 4 \<ge> 0), not_go (get (-4)), not_go (get (-3)), not_go (get (-2)), not_go (get (-1))] =
      Inr (4 \<le> p \<and> map (\<lambda>i. c (p + i)) [-4, -3, -2, -1] = [False, False, False, False])"
    using p g by (simp add: not_go_def)
  have b: "at_before c n p \<longleftrightarrow> p + 10 < n \<and>
      map (\<lambda>i. c (p + i)) [0, 1, 2, 3, 4, 5, 6] = [True, False, True, True, True, False, True] \<and>
      map (\<lambda>i. c (p + i)) [7, 8, 9, 10] = [False, False, False, False]"
    using p by (auto simp: at_before_def finder_before_def)
  have a: "at_after c n p \<longleftrightarrow> p + 6 < n \<and> 4 \<le> p \<and>
      map (\<lambda>i. c (p + i)) [0, 1, 2, 3, 4, 5, 6] = [True, False, True, True, True, False, True] \<and>
      map (\<lambda>i. c (p + i)) [-4, -3, -2, -1] = [False, False, False, False]"
    using p by (auto simp: at_after_def finder_after_def algebra_simps)
  show ?thesis
    unfolding finder_penalty_def c0 c1 c2 bindE_simps a b by (auto simp: Let_def)
qed

lemma take_drop_map_upto:
  assumes "k + m \<le> length [0..n - 1]"
  shows "take m (drop k (map f [0..n - 1])) = map (\<lambda>i. f (int k + int i)) [0..<m]"
  using assms by (intro nth_equalityI) (auto simp: nth_upto)

lemma eleven: "map f [0..<11] = map (\<lambda>i. f (nat i)) [0, 1, 2, 3, 4, 5, 6, 7, 8, 9, 10]"
  by (simp add: upt_rec numeral_eq_Suc)

lemma occurrences_at:
  assumes pat: "length pat = 11" and d: "0 \<le> d" "d \<le> 10"
  shows "card {p \<in> {0..n - 1}. d \<le> p \<and> p - d + 10 < n \<and>
      map (\<lambda>i. c (p - d + i)) [0, 1, 2, 3, 4, 5, 6, 7, 8, 9, 10] = pat} =
    occurrences pat (map c [0..n - 1])" (is "card ?A = _")
proof -
  let ?f = "\<lambda>i. int i + d"
  let ?B = "{i. i + length pat \<le> length (map c [0..n - 1]) \<and> take (length pat) (drop i (map c [0..n - 1])) = pat}"
  have B: "i \<in> ?B \<longleftrightarrow> int i + 10 < n \<and> map (\<lambda>j. c (int i + j)) [0, 1, 2, 3, 4, 5, 6, 7, 8, 9, 10] = pat" for i
  proof (cases "i + 11 \<le> length [0..n - 1]")
    case True
    then have "take 11 (drop i (map c [0..n - 1])) = map (\<lambda>j. c (int i + j)) [0, 1, 2, 3, 4, 5, 6, 7, 8, 9, 10]"
      by (simp only: take_drop_map_upto eleven) simp
    then show ?thesis using True pat by auto
  next
    case False
    then show ?thesis using pat by auto
  qed
  have "?A = ?f ` ?B"
  proof (intro set_eqI iffI)
    fix p
    assume p: "p \<in> ?A"
    then have "nat (p - d) \<in> ?B" unfolding B by simp
    then show "p \<in> ?f ` ?B" using p by (intro image_eqI[of _ _ "nat (p - d)"]) auto
  next
    fix p
    assume "p \<in> ?f ` ?B"
    then obtain i where "p = int i + d" "i \<in> ?B" by blast
    then show "p \<in> ?A" using d unfolding B by auto
  qed
  moreover have "inj_on ?f ?B" by (simp add: inj_on_def)
  ultimately show ?thesis by (simp only: occurrences_def card_image)
qed

lemma length_finder [simp]: "length finder_before = 11" "length finder_after = 11"
  by (simp_all add: finder_before_def finder_after_def)

lemma at_occurs:
  "card {p \<in> {0..n - 1}. at_before c n p} = occurrences finder_before (map c [0..n - 1])"
  "card {p \<in> {0..n - 1}. at_after c n p} = occurrences finder_after (map c [0..n - 1])"
proof -
  have "at_before c n p \<longleftrightarrow> 0 \<le> p \<and> p - 0 + 10 < n \<and>
      map (\<lambda>i. c (p - 0 + i)) [0, 1, 2, 3, 4, 5, 6, 7, 8, 9, 10] = finder_before" for p
    by (simp only: at_before_def diff_0_right)
  then show "card {p \<in> {0..n - 1}. at_before c n p} = occurrences finder_before (map c [0..n - 1])"
    using occurrences_at[of finder_before 0 n c] by simp
  have "at_after c n p \<longleftrightarrow> 4 \<le> p \<and> p - 4 + 10 < n \<and>
      map (\<lambda>i. c (p - 4 + i)) [0, 1, 2, 3, 4, 5, 6, 7, 8, 9, 10] = finder_after" for p
    unfolding at_after_def by (rule conj_cong, rule refl, rule conj_cong) auto
  then show "card {p \<in> {0..n - 1}. at_after c n p} = occurrences finder_after (map c [0..n - 1])"
    using occurrences_at[of finder_after 4 n c] by simp
qed

lemma finders_line:
  "(\<Sum>p\<leftarrow>[0..n - 1]. (if at_before c n p then 40 else 0) + (if at_after c n p then 40 else 0)) =
    40 * int (finders (map c [0..n - 1]))"
  unfolding sum_list_addf finders_def of_nat_add at_occurs[symmetric]
  by (simp add: sum_list_if_card)

lemma sum_list_swap: "(\<Sum>y\<leftarrow>ys. \<Sum>x\<leftarrow>xs. h x y) = (\<Sum>x\<leftarrow>xs. \<Sum>y\<leftarrow>ys. (h x y :: int))"
  by (induction ys) (simp_all add: sum_list_addf)

lemma sum_list_add2:
  "(\<Sum>y\<leftarrow>ys. \<Sum>x\<leftarrow>xs. a x y + (b x y :: int)) = (\<Sum>y\<leftarrow>ys. \<Sum>x\<leftarrow>xs. a x y) + (\<Sum>y\<leftarrow>ys. \<Sum>x\<leftarrow>xs. b x y)"
  by (simp only: sum_list_addf)

lemma maskPenaltyRule3_ok:
  assumes g: "grid_ok n g"
  shows "maskPenaltyRule3 g = Inr (40 * int (\<Sum>l\<leftarrow>lines g n. finders l))"
proof -
  have dims: "width g = n" "height g = n" using g by (simp_all add: grid_ok_def)
  let ?f = "\<lambda>c p. (if at_before c n p then 40 else 0) + (if at_after c n p then 40 else (0::int))"
  let ?h = "\<lambda>x y. ?f (\<lambda>x. colour g x y) x + ?f (\<lambda>y. colour g x y) y"
  have across: "finder_penalty (\<lambda>i. boolBitGrid_Get g (x + i) y) x n s = Inr (s + ?f (\<lambda>x. colour g x y) x)"
    if "x \<in> set [0..n - 1]" "y \<in> set [0..n - 1]" for x y s
    by (rule finder_penalty_ok) (use that Get_colour[OF g] in \<open>simp_all add: in_square_def\<close>)
  have down: "finder_penalty (\<lambda>i. boolBitGrid_Get g x (y + i)) y n s = Inr (s + ?f (\<lambda>y. colour g x y) y)"
    if "x \<in> set [0..n - 1]" "y \<in> set [0..n - 1]" for x y s
    by (rule finder_penalty_ok) (use that Get_colour[OF g] in \<open>simp_all add: in_square_def\<close>)
  have "bindE (finder_penalty (\<lambda>i. boolBitGrid_Get g (x + i) y) x n s) (\<lambda>penalty.
         finder_penalty (\<lambda>i. boolBitGrid_Get g x (y + i)) y n penalty) = Inr (s + ?h x y)"
    if "x \<in> set [0..n - 1]" "y \<in> set [0..n - 1]" for x y s
    unfolding across[OF that] bindE_simps down[OF that] by (simp only: add.assoc)
  then have "maskPenaltyRule3 g = Inr (0 + (\<Sum>y\<leftarrow>[0..n - 1]. \<Sum>x\<leftarrow>[0..n - 1]. ?h x y))"
    unfolding maskPenaltyRule3_def dims by (intro foldE_cells[where h = ?h])
  also have "(\<Sum>y\<leftarrow>[0..n - 1]. \<Sum>x\<leftarrow>[0..n - 1]. ?h x y) =
      (\<Sum>y\<leftarrow>[0..n - 1]. \<Sum>x\<leftarrow>[0..n - 1]. ?f (\<lambda>x. colour g x y) x) +
      (\<Sum>y\<leftarrow>[0..n - 1]. \<Sum>x\<leftarrow>[0..n - 1]. ?f (\<lambda>y. colour g x y) y)"
    by (rule sum_list_add2)
  also have "(\<Sum>y\<leftarrow>[0..n - 1]. \<Sum>x\<leftarrow>[0..n - 1]. ?f (\<lambda>y. colour g x y) y) =
      (\<Sum>x\<leftarrow>[0..n - 1]. \<Sum>y\<leftarrow>[0..n - 1]. ?f (\<lambda>y. colour g x y) y)"
    by (rule sum_list_swap)
  also have "(\<Sum>y\<leftarrow>[0..n - 1]. \<Sum>x\<leftarrow>[0..n - 1]. ?f (\<lambda>x. colour g x y) x) + \<dots> =
      (\<Sum>y\<leftarrow>[0..n - 1]. 40 * int (finders (row g n y))) + (\<Sum>x\<leftarrow>[0..n - 1]. 40 * int (finders (column g n x)))"
    unfolding finders_line row_def column_def ..
  also have "\<dots> = 40 * int (\<Sum>l\<leftarrow>lines g n. finders l)"
    by (simp add: lines_def comp_def sum_list_const_mult flip: sum_list_of_nat)
  finally show ?thesis by simp
qed

section \<open>Rule 4: the balance of dark and light\<close>

definition dark_cells :: "boolBitGrid \<Rightarrow> int \<Rightarrow> nat" where
  "dark_cells g n = card {c. c \<in> {0..n - 1} \<times> {0..n - 1} \<and> colour g (fst c) (snd c)}"

text \<open>Half the difference of dark and light cells, rounded up, as a share of all cells.\<close>

definition balance :: "int \<Rightarrow> nat \<Rightarrow> int" where
  "balance n d = 200 * ((\<bar>2 * int d - n * n\<bar> + 1) div 2) div (n * n)"

lemma maskPenaltyRule4_ok:
  assumes g: "grid_ok n g" and n: "21 \<le> n" "odd n"
  shows "maskPenaltyRule4 g = Inr (balance n (dark_cells g n))"
proof -
  have dims: "width g = n" "height g = n" using g by (simp_all add: grid_ok_def)
  let ?h = "\<lambda>x y. if colour g x y then 1 else (0::int)" and ?d = "int (dark_cells g n)"
  have cell: "bindE (boolBitGrid_Get g x y) (\<lambda>b. Inr (if b then s + 1 else s)) = Inr (s + ?h x y)"
    if "y \<in> set [0..n - 1]" "x \<in> set [0..n - 1]" for x y and s :: int
    using that Get_colour[OF g] by (simp add: in_square_def)
  have sum: "foldE (\<lambda>s y. foldE (\<lambda>s x. bindE (boolBitGrid_Get g x y) (\<lambda>b. Inr (if b then s + 1 else s))) s [0..n - 1])
      a [0..n - 1] = Inr (a + ?d)" for a :: int
  proof -
    have "(\<Sum>y\<leftarrow>[0..n - 1]. \<Sum>x\<leftarrow>[0..n - 1]. ?h x y) = ?d"
      using sum_cells_card[of ?h "\<lambda>c. colour g (fst c) (snd c)" 1 0 "n - 1"] by (simp add: dark_cells_def)
    then show ?thesis
      by (subst foldE_cells[where h = ?h]) (rule cell, assumption+, simp only:)
  qed
  obtain m where m: "n * n = 2 * m + 1" "0 \<le> m"
  proof -
    have "2 * (n * n div 2) + 1 = n * n" using n(2) by (intro odd_two_times_div_two_succ) simp
    then show ?thesis using that[of "n * n div 2"] n(1) by simp
  qed
  have half: "(- (n * n)) sdiv 2 = - m"
    unfolding m(1) using m(2) by (simp add: signed_divide_int_def sgn_if)
  let ?e = "if - m + ?d < 0 then 1 - (- m + ?d) else - m + ?d"
  have big: "441 \<le> n * n" using n(1) mult_mono[of 21 n 21 n] by simp
  have "?e * 200 sdiv (n * n) = ?e * 200 div (n * n)" using big by (intro sdiv_nonneg) auto
  also have "\<dots> = balance n (dark_cells g n)"
  proof (cases "?d = m")
    case True
    then show ?thesis using big m by (simp add: balance_def)
  next
    case False
    then have "?e = (\<bar>2 * ?d - (2 * m + 1)\<bar> + 1) div 2" by auto
    then show ?thesis by (simp add: balance_def m(1) mult.commute)
  qed
  finally show ?thesis
    unfolding maskPenaltyRule4_def dims Let_def half sum bindE_simps using n(1) by simp
qed

section \<open>The penalty of a grid\<close>

definition reference_penalty :: "boolBitGrid \<Rightarrow> int \<Rightarrow> int" where
  "reference_penalty g n =
     (\<Sum>l\<leftarrow>lines g n. line_penalty l) + 3 * int (squares g n) +
     40 * int (\<Sum>l\<leftarrow>lines g n. finders l) + balance n (dark_cells g n)"

lemma maskPenalty_ok:
  "grid_ok n g \<Longrightarrow> 21 \<le> n \<Longrightarrow> odd n \<Longrightarrow> maskPenalty g = Inr (reference_penalty g n)"
  by (simp add: maskPenalty_def maskPenaltyRule1_ok maskPenaltyRule2_ok maskPenaltyRule3_ok
      maskPenaltyRule4_ok reference_penalty_def)

text \<open>C40: on every square grid of odd size, from the size of version 1 on, the penalty loops read no cell outside the grid and
  compute the reference: for every row and column, 3 for a run of five cells of one colour and
  one more for each further cell; 3 for every monochrome square of four cells; 40 for every
  stretch of eleven cells that looks like a finder pattern with a light margin on one side; and
  the imbalance of dark and light cells.\<close>

theorem maskPenalty_reference:
  assumes "grid_ok n g" and "21 \<le> n" and "odd n"
  shows "maskPenalty g = Inr (reference_penalty g n)"
  using maskPenalty_ok[OF assms] .

theorem maskPenalty_reference_witness:
  "maskPenalty (newBoolBitGrid 21 21) = Inr (reference_penalty (newBoolBitGrid 21 21) 21)"
  by (rule maskPenalty_reference) (simp_all add: newBoolBitGrid_ok)

section \<open>The best mask\<close>

lemma buildGrid_fresh:
  assumes "grid_ok n g" "0 \<le> n"
  shows "buildGrid bv v l k g = buildGrid bv v l k (newBoolBitGrid n n)"
proof -
  have g: "width g = n" "height g = n" "int (length (bits g)) = 2 * n * n"
    using assms(1) by (auto simp: grid_ok_def bool_grid_inv_def)
  have "length (bits g) = nat (2 * n * n)" unfolding g(3)[symmetric] by simp
  then have "boolBitGrid_Clear g = newBoolBitGrid n n"
    using g(1,2) by (simp add: boolBitGrid_Clear_def newBoolBitGrid_def map_replicate_const)
  moreover have "boolBitGrid_Clear (newBoolBitGrid n n) = newBoolBitGrid n n"
    by (simp add: boolBitGrid_Clear_def newBoolBitGrid_def)
  ultimately show ?thesis by (simp add: buildGrid_def)
qed

text \<open>The symbol drawn with a mask, and its penalty.\<close>

definition symbol :: "boolBitVector \<Rightarrow> versionNumber \<Rightarrow> ECLevel \<Rightarrow> int \<Rightarrow> boolBitGrid" where
  "symbol bv v l k = projr (buildGrid bv v l k (newBoolBitGrid (dimension v) (dimension v)))"

definition penalty :: "boolBitVector \<Rightarrow> versionNumber \<Rightarrow> ECLevel \<Rightarrow> int \<Rightarrow> int" where
  "penalty bv v l k = reference_penalty (symbol bv v l k) (dimension v)"

text \<open>The first of the least elements of a list, as the loop finds it.\<close>

fun first_least :: "('a \<Rightarrow> int) \<Rightarrow> 'a \<Rightarrow> 'a list \<Rightarrow> 'a" where
  "first_least f b [] = b"
| "first_least f b (x # xs) = first_least f (if f x < f b then x else b) xs"

lemma first_least_upto:
  fixes a :: int
  assumes "a \<le> b"
  shows "a \<le> first_least f a [a + 1..b] \<and> first_least f a [a + 1..b] \<le> b \<and>
    (\<forall>j. a \<le> j \<and> j \<le> b \<longrightarrow> f (first_least f a [a + 1..b]) \<le> f j) \<and>
    (\<forall>j. a \<le> j \<and> j < first_least f a [a + 1..b] \<longrightarrow> f (first_least f a [a + 1..b]) < f j)"
  using assms
proof (induction b rule: int_ge_induct)
  case base
  have "j = a" if "a \<le> j \<and> j \<le> a" for j using that by simp
  then show ?case by auto
next
  case (step b)
  have app: "first_least f c (xs @ [x]) = (let m = first_least f c xs in if f x < f m then x else m)"
    for c x :: int and xs
    by (induction xs arbitrary: c) (auto simp: Let_def)
  let ?m = "first_least f a [a + 1..b]"
  have "[a + 1..b + 1] = [a + 1..b] @ [b + 1]" using step.hyps upto_rec2[of "a + 1" "b + 1"] by simp
  then have m: "first_least f a [a + 1..b + 1] = (if f (b + 1) < f ?m then b + 1 else ?m)"
    by (simp add: app Let_def)
  have le: "j \<le> b + 1 \<longleftrightarrow> j \<le> b \<or> j = b + 1" for j by auto
  show ?case unfolding m using step.IH by (auto simp: le dest: zless_imp_add1_zle intro: order.strict_trans2)
qed

lemma symbol_ok:
  assumes v: "1 \<le> v" "v \<le> 40" and l: "supportedECLevel l" and k: "0 \<le> k" "k \<le> 7"
    and t: "totalCodewords v = Inr t" "int (boolBitVector_Length bv) = 8 * t"
    and g: "grid_ok (dimension v) g"
  shows "buildGrid bv v l k g = Inr (symbol bv v l k)" "grid_ok (dimension v) (symbol bv v l k)"
    "maskPenalty (symbol bv v l k) = Inr (penalty bv v l k)"
proof -
  have n: "21 \<le> dimension v" "odd (dimension v)" using version_dimension[OF v refl] by simp_all
  obtain g' where g': "buildGrid bv v l k (newBoolBitGrid (dimension v) (dimension v)) = Inr g'"
    "grid_ok (dimension v) g'"
    using buildGrid_ok[OF v l k t newBoolBitGrid_ok] n by (metis order_trans zero_le_numeral)
  then show "buildGrid bv v l k g = Inr (symbol bv v l k)" "grid_ok (dimension v) (symbol bv v l k)"
    using buildGrid_fresh[OF g, of bv v l k] n by (simp_all add: symbol_def)
  then show "maskPenalty (symbol bv v l k) = Inr (penalty bv v l k)"
    unfolding penalty_def by (intro maskPenalty_ok n)
qed

lemma mask_loop:
  assumes v: "1 \<le> v" "v \<le> 40" and l: "supportedECLevel l"
    and t: "totalCodewords v = Inr t" "int (boolBitVector_Length bv) = 8 * t"
    and g: "grid_ok (dimension v) g" and ks: "\<forall>k \<in> set ks. 0 \<le> k \<and> k \<le> 7" and b: "0 \<le> b"
  shows "\<exists>g'. foldE (mask_step bv v l) (b, penalty bv v l b, g) ks =
    Inr (first_least (penalty bv v l) b ks, penalty bv v l (first_least (penalty bv v l) b ks), g') \<and>
    grid_ok (dimension v) g'"
  using g ks b
proof (induction ks arbitrary: b g)
  case Nil
  then show ?case by simp
next
  case (Cons k ks)
  then have k: "0 \<le> k" "k \<le> 7" by auto
  note sym = symbol_ok[OF v l k t]
  have "mask_step bv v l (b, penalty bv v l b, g) k =
      (let b' = if penalty bv v l k < penalty bv v l b then k else b in Inr (b', penalty bv v l b', symbol bv v l k))"
    using sym(1)[OF Cons.prems(1)] sym(3)[OF Cons.prems(1)] Cons.prems(3) by (simp add: mask_step_def Let_def)
  then show ?case
    using Cons.IH[OF sym(2)[OF Cons.prems(1)]] Cons.prems(2,3) k by (simp add: Let_def)
qed

lemma bestMaskPattern_ok:
  assumes v: "1 \<le> v" "v \<le> 40" and l: "supportedECLevel l"
    and t: "totalCodewords v = Inr t" "int (boolBitVector_Length bv) = 8 * t"
    and g: "grid_ok (dimension v) g"
  obtains k g' where "bestMaskPattern bv v l g = Inr (k, g')" "grid_ok (dimension v) g'" "0 \<le> k" "k \<le> 7"
    "\<forall>j. 0 \<le> j \<and> j \<le> 7 \<longrightarrow> penalty bv v l k \<le> penalty bv v l j"
    "\<forall>j. 0 \<le> j \<and> j < k \<longrightarrow> penalty bv v l k < penalty bv v l j"
proof -
  note sym = symbol_ok[OF v l _ _ t]
  let ?k = "first_least (penalty bv v l) 0 [0 + 1..7]"
  note fl = first_least_upto[of 0 7 "penalty bv v l"]
  obtain g' where "foldE (mask_step bv v l) (0, penalty bv v l 0, symbol bv v l 0) [0 + 1..7] =
      Inr (?k, penalty bv v l ?k, g')" "grid_ok (dimension v) g'"
    using mask_loop[OF v l t sym(2)[OF _ _ g], of 0 "[0 + 1..7]" 0] by auto
  moreover have "mask_step bv v l (-1, 0, g) 0 = Inr (0, penalty bv v l 0, symbol bv v l 0)"
    using sym(1,3)[OF _ _ g, of 0] by (simp add: mask_step_def)
  moreover have "[0..7::int] = 0 # [0 + 1..7]" using upto_rec1[of 0 "7::int"] by simp
  ultimately have "bestMaskPattern bv v l g = Inr (?k, g')" using fl
    by (simp add: bestMaskPattern_def del: upto_rec_numeral)
  then show ?thesis using that fl \<open>grid_ok (dimension v) g'\<close> by auto
qed

text \<open>for every version and supported level, on its codewords and any grid of its size, the
  search for the mask returns. It yields the first mask of least penalty, each mask judged by
  the symbol drawn with it on an empty grid.\<close>

theorem bestMaskPattern_first_least:
  assumes "1 \<le> v" and "v \<le> 40" and "supportedECLevel l"
    and "totalCodewords v = Inr t" and "int (boolBitVector_Length bv) = 8 * t"
    and "grid_ok (dimension v) g"
  shows "\<exists>k g'. bestMaskPattern bv v l g = Inr (k, g') \<and> grid_ok (dimension v) g' \<and> 0 \<le> k \<and> k \<le> 7 \<and>
    (\<forall>j. 0 \<le> j \<and> j \<le> 7 \<longrightarrow> (\<exists>s p. buildGrid bv v l j (newBoolBitGrid (dimension v) (dimension v)) = Inr s \<and>
       maskPenalty s = Inr p \<and> p = penalty bv v l j \<and> penalty bv v l k \<le> p \<and> (j < k \<longrightarrow> penalty bv v l k < p)))"
proof -
  obtain k g' where k: "bestMaskPattern bv v l g = Inr (k, g')" "grid_ok (dimension v) g'" "0 \<le> k" "k \<le> 7"
    "\<forall>j. 0 \<le> j \<and> j \<le> 7 \<longrightarrow> penalty bv v l k \<le> penalty bv v l j"
    "\<forall>j. 0 \<le> j \<and> j < k \<longrightarrow> penalty bv v l k < penalty bv v l j"
    using bestMaskPattern_ok[OF assms] by blast
  have "grid_ok (dimension v) (newBoolBitGrid (dimension v) (dimension v))"
    using version_dimension[OF assms(1,2) refl] by (intro newBoolBitGrid_ok) simp
  note sym = symbol_ok[OF assms(1-3) _ _ assms(4,5) this]
  show ?thesis
  proof (rule exI[of _ k], rule exI[of _ g'], intro conjI allI impI)
    fix j :: int
    assume j: "0 \<le> j \<and> j \<le> 7"
    then show "\<exists>s p. buildGrid bv v l j (newBoolBitGrid (dimension v) (dimension v)) = Inr s \<and>
       maskPenalty s = Inr p \<and> p = penalty bv v l j \<and> penalty bv v l k \<le> p \<and> (j < k \<longrightarrow> penalty bv v l k < p)"
      using sym[of j] k(5,6) by (intro exI[of _ "symbol bv v l j"] exI[of _ "penalty bv v l j"]) simp
  qed (use k in simp_all)
qed

theorem bestMaskPattern_first_least_witness:
  "\<exists>k g'. bestMaskPattern \<lparr>bbits = replicate 208 False\<rparr> 1 ECLevelL (newBoolBitGrid 21 21) = Inr (k, g') \<and>
    grid_ok (dimension 1) g' \<and> 0 \<le> k \<and> k \<le> 7 \<and>
    (\<forall>j. 0 \<le> j \<and> j \<le> 7 \<longrightarrow> (\<exists>s p.
       buildGrid \<lparr>bbits = replicate 208 False\<rparr> 1 ECLevelL j (newBoolBitGrid (dimension 1) (dimension 1)) = Inr s \<and>
       maskPenalty s = Inr p \<and> p = penalty \<lparr>bbits = replicate 208 False\<rparr> 1 ECLevelL j \<and>
       penalty \<lparr>bbits = replicate 208 False\<rparr> 1 ECLevelL k \<le> p \<and>
       (j < k \<longrightarrow> penalty \<lparr>bbits = replicate 208 False\<rparr> 1 ECLevelL k < p)))"
proof (rule bestMaskPattern_first_least)
  show "totalCodewords 1 = Inr 26"
    by (simp add: totalCodewords_def ecBlocks_at_def ecBlocks_def ecBlocks_0_19_def)
  show "grid_ok (dimension 1) (newBoolBitGrid 21 21)"
    using newBoolBitGrid_ok[of 21] by (simp add: dimension_def)
qed (simp_all add: supportedECLevel_def boolBitVector_Length_def)

end
