(* ===== verification/Horner.thy ===== *)
theory Horner
  imports Prelude
begin

text \<open>
  The interface between the field and the polynomials over it: what the polynomial code of
  errorcorrection.go needs of multiplication, and the evaluation of coefficient lists (the
  highest power first) that follows from it. Addition is exclusive or.
\<close>

definition horner :: "(byte \<Rightarrow> byte \<Rightarrow> byte) \<Rightarrow> byte \<Rightarrow> byte list \<Rightarrow> byte" where
  "horner mul z cs = foldl (\<lambda>acc c. mul acc z XOR c) 0 cs"

fun mpow :: "(byte \<Rightarrow> byte \<Rightarrow> byte) \<Rightarrow> byte \<Rightarrow> nat \<Rightarrow> byte" where
  "mpow mul z 0 = 1"
| "mpow mul z (Suc n) = mul z (mpow mul z n)"

lemma horner_Nil [simp]: "horner mul z [] = 0"
  by (simp add: horner_def)

lemma horner_snoc [simp]: "horner mul z (cs @ [c]) = mul (horner mul z cs) z XOR c"
  by (simp add: horner_def)

locale coefficient_field =
  fixes mul :: "byte \<Rightarrow> byte \<Rightarrow> byte"
  assumes commute: "mul a b = mul b a"
    and assoc: "mul (mul a b) c = mul a (mul b c)"
    and one: "mul 1 a = a"
    and distrib: "mul a (b XOR c) = mul a b XOR mul a c"
    and eq_0: "mul a b = 0 \<longleftrightarrow> a = 0 \<or> b = 0"
begin

lemma zero [simp]: "mul 0 a = 0" "mul a 0 = 0"
  by (simp_all add: eq_0)

lemma one_right: "mul a 1 = a"
  by (simp add: commute[of a] one)

lemma left_commute: "mul a (mul b c) = mul b (mul a c)"
  by (metis assoc commute)

lemmas mul_ac = assoc commute left_commute

lemma distrib_right: "mul (b XOR c) a = mul b a XOR mul c a"
  by (simp add: commute[of _ a] distrib)

lemma mpow_add: "mpow mul z (m + n) = mul (mpow mul z m) (mpow mul z n)"
  by (induction m) (simp_all add: one assoc)

lemma mpow_eq_0: "mpow mul z n = 0 \<longleftrightarrow> z = 0 \<and> 0 < n"
  by (induction n) (auto simp: eq_0)

lemma horner_append:
  "horner mul z (cs @ ds) = mul (horner mul z cs) (mpow mul z (length ds)) XOR horner mul z ds"
proof (induction ds rule: rev_induct)
  case Nil
  then show ?case by (simp add: one_right)
next
  case (snoc d ds)
  have "horner mul z (cs @ ds @ [d]) = mul (horner mul z (cs @ ds)) z XOR d"
    using horner_snoc[of mul z "cs @ ds" d] by simp
  then show ?case
    by (simp add: snoc distrib distrib_right mul_ac xor.assoc)
qed

lemma horner_Cons: "horner mul z (c # cs) = mul c (mpow mul z (length cs)) XOR horner mul z cs"
proof -
  have "horner mul z [c] = c" by (simp add: horner_def)
  then show ?thesis using horner_append[of z "[c]" cs] by simp
qed

lemma horner_replicate_0 [simp]: "horner mul z (replicate n 0) = 0"
  by (induction n) (simp_all add: horner_Cons)

lemma horner_zeros: "(\<forall>c \<in> set cs. c = 0) \<Longrightarrow> horner mul z cs = 0"
  by (induction cs) (simp_all add: horner_Cons)

lemma horner_dropWhile: "horner mul z (dropWhile (\<lambda>c. c = 0) cs) = horner mul z cs"
  by (induction cs) (simp_all add: horner_Cons)

lemma horner_map2_XOR:
  "length as = length bs \<Longrightarrow> horner mul z (map2 (\<lambda>a b. a XOR b) as bs) = horner mul z as XOR horner mul z bs"
  by (induction as bs rule: list_induct2)
    (simp_all add: horner_Cons distrib_right xor.assoc xor.left_commute)

lemma horner_scale: "horner mul z (map (\<lambda>c. mul c s) cs) = mul (horner mul z cs) s"
  by (induction cs) (simp_all add: horner_Cons distrib distrib_right mul_ac)

text \<open>Changing one coefficient, the step of a multiplication loop.\<close>

lemma horner_update:
  "k < length cs \<Longrightarrow> horner mul z (cs[k := cs ! k XOR d]) =
     horner mul z cs XOR mul d (mpow mul z (length cs - 1 - k))"
proof (induction cs arbitrary: k)
  case Nil
  then show ?case by simp
next
  case (Cons c cs)
  show ?case
  proof (cases k)
    case 0
    then show ?thesis by (simp add: horner_Cons distrib_right xor.assoc xor.commute xor.left_commute)
  next
    case (Suc m)
    with Cons show ?thesis by (simp add: horner_Cons xor.assoc)
  qed
qed

end

end
