(* ===== verification/GField.thy ===== *)
theory GField
  imports Horner "HOL-Library.Code_Target_Nat" "HOL-Library.Code_Target_Int"
begin

text \<open>
  The field with 256 elements of errorcorrection.go: its exponential and logarithm tables,
  addition, multiplication and inverse. An element is an integer below 256 in the code (the
  coefficients are data bytes and table entries) and a byte here; logarithms are indices.
\<close>

section \<open>Tables\<close>

definition fieldExpTable :: "byte list" where
  "fieldExpTable =
     [1, 2, 4, 8, 16, 32, 64, 128, 29, 58, 116, 232, 205, 135, 19, 38,
      76, 152, 45, 90, 180, 117, 234, 201, 143, 3, 6, 12, 24, 48, 96, 192,
      157, 39, 78, 156, 37, 74, 148, 53, 106, 212, 181, 119, 238, 193, 159, 35,
      70, 140, 5, 10, 20, 40, 80, 160, 93, 186, 105, 210, 185, 111, 222, 161,
      95, 190, 97, 194, 153, 47, 94, 188, 101, 202, 137, 15, 30, 60, 120, 240,
      253, 231, 211, 187, 107, 214, 177, 127, 254, 225, 223, 163, 91, 182, 113, 226,
      217, 175, 67, 134, 17, 34, 68, 136, 13, 26, 52, 104, 208, 189, 103, 206,
      129, 31, 62, 124, 248, 237, 199, 147, 59, 118, 236, 197, 151, 51, 102, 204,
      133, 23, 46, 92, 184, 109, 218, 169, 79, 158, 33, 66, 132, 21, 42, 84,
      168, 77, 154, 41, 82, 164, 85, 170, 73, 146, 57, 114, 228, 213, 183, 115,
      230, 209, 191, 99, 198, 145, 63, 126, 252, 229, 215, 179, 123, 246, 241, 255,
      227, 219, 171, 75, 150, 49, 98, 196, 149, 55, 110, 220, 165, 87, 174, 65,
      130, 25, 50, 100, 200, 141, 7, 14, 28, 56, 112, 224, 221, 167, 83, 166,
      81, 162, 89, 178, 121, 242, 249, 239, 195, 155, 43, 86, 172, 69, 138, 9,
      18, 36, 72, 144, 61, 122, 244, 245, 247, 243, 251, 235, 203, 139, 11, 22,
      44, 88, 176, 125, 250, 233, 207, 131, 27, 54, 108, 216, 173, 71, 142, 1]"

definition fieldLogTable :: "nat list" where
  "fieldLogTable =
     [0, 0, 1, 25, 2, 50, 26, 198, 3, 223, 51, 238, 27, 104, 199, 75,
      4, 100, 224, 14, 52, 141, 239, 129, 28, 193, 105, 248, 200, 8, 76, 113,
      5, 138, 101, 47, 225, 36, 15, 33, 53, 147, 142, 218, 240, 18, 130, 69,
      29, 181, 194, 125, 106, 39, 249, 185, 201, 154, 9, 120, 77, 228, 114, 166,
      6, 191, 139, 98, 102, 221, 48, 253, 226, 152, 37, 179, 16, 145, 34, 136,
      54, 208, 148, 206, 143, 150, 219, 189, 241, 210, 19, 92, 131, 56, 70, 64,
      30, 66, 182, 163, 195, 72, 126, 110, 107, 58, 40, 84, 250, 133, 186, 61,
      202, 94, 155, 159, 10, 21, 121, 43, 78, 212, 229, 172, 115, 243, 167, 87,
      7, 112, 192, 247, 140, 128, 99, 13, 103, 74, 222, 237, 49, 197, 254, 24,
      227, 165, 153, 119, 38, 184, 180, 124, 17, 68, 146, 217, 35, 32, 137, 46,
      55, 63, 209, 91, 149, 188, 207, 205, 144, 135, 151, 178, 220, 252, 190, 97,
      242, 86, 211, 171, 20, 42, 93, 158, 132, 60, 57, 83, 71, 109, 65, 162,
      31, 45, 67, 216, 183, 123, 164, 118, 196, 23, 73, 236, 127, 12, 111, 246,
      108, 161, 59, 82, 41, 157, 85, 170, 251, 96, 134, 177, 187, 204, 62, 90,
      203, 89, 95, 176, 156, 169, 160, 81, 11, 245, 22, 235, 122, 117, 44, 215,
      79, 174, 213, 233, 230, 231, 173, 232, 116, 214, 244, 234, 168, 80, 88, 175]"

section \<open>Operations\<close>

definition fieldAddSub :: "byte \<Rightarrow> byte \<Rightarrow> byte" where
  "fieldAddSub a b = a XOR b"

definition fieldInv :: "byte \<Rightarrow> byte go" where
  "fieldInv a = (if a = 0 then Inl (Panic ''a == 0'')
     else Inr (fieldExpTable ! (256 - fieldLogTable ! unat a - 1)))"

definition fieldMult :: "byte \<Rightarrow> byte \<Rightarrow> byte" where
  "fieldMult a b = (if a = 0 \<or> b = 0 then 0
     else fieldExpTable ! ((fieldLogTable ! unat a + fieldLogTable ! unat b) mod 255))"

text \<open>Multiplication by the generator 2 modulo the field polynomial \<open>x^8 + x^4 + x^3 + x^2 + 1\<close>.\<close>

definition xtime :: "byte \<Rightarrow> byte" where
  "xtime a = (if bit a 7 then push_bit 1 a XOR 29 else push_bit 1 a)"

section \<open>Checking the tables\<close>

lemma length_tables [simp]: "length fieldExpTable = 256" "length fieldLogTable = 256"
  by (simp_all add: fieldExpTable_def fieldLogTable_def)

lemma exp_steps: "list_all2 (\<lambda>a b. b = xtime a) (butlast fieldExpTable) (tl fieldExpTable)"
  unfolding fieldExpTable_def by (simp add: xtime_def)

lemma exp_of_log_all:
  "list_all (\<lambda>(n, l). l < 255 \<and> unat (fieldExpTable ! l) = n) (zip [1..<256] (tl fieldLogTable))"
  by (simp add: fieldLogTable_def fieldExpTable_def upt_conv_Cons)

lemma exp_ends: "fieldExpTable ! 0 = 1" "fieldExpTable ! 255 = 1"
  by (simp_all add: fieldExpTable_def)

lemma exp_Suc: "k < 255 \<Longrightarrow> fieldExpTable ! Suc k = xtime (fieldExpTable ! k)"
  using exp_steps by (auto simp: list_all2_conv_all_nth nth_butlast nth_tl)

lemma exp_of_log:
  assumes "a \<noteq> 0"
  shows "fieldLogTable ! unat a < 255" "fieldExpTable ! (fieldLogTable ! unat a) = a"
proof -
  have "0 < unat a" "unat a < 256"
    using assms unsigned_less[where 'a = nat, of a] by (simp_all add: unat_gt_0)
  then have "(unat a, fieldLogTable ! unat a) \<in> set (zip [1..<256] (tl fieldLogTable))"
    by (auto simp: set_zip nth_tl intro!: exI[of _ "unat a - 1"])
  with exp_of_log_all show "fieldLogTable ! unat a < 255" "fieldExpTable ! (fieldLogTable ! unat a) = a"
    by (auto simp: list_all_iff word_unat_eq_iff)
qed

section \<open>Exponents modulo 255\<close>

definition gexp :: "nat \<Rightarrow> byte" where
  "gexp k = fieldExpTable ! (k mod 255)"

lemma gexp_0 [simp]: "gexp 0 = 1"
  by (simp add: gexp_def exp_ends)

lemma gexp_mod [simp]: "gexp (k mod 255) = gexp k"
  by (simp add: gexp_def)

lemma gexp_Suc: "gexp (Suc k) = xtime (gexp k)"
proof (cases "Suc (k mod 255) = 255")
  case True
  then have "k mod 255 = 254" by simp
  then have "xtime (gexp k) = fieldExpTable ! 255" using exp_Suc[of 254] by (simp add: gexp_def)
  moreover have "Suc k mod 255 = 0" using True by (simp add: mod_Suc)
  ultimately show ?thesis by (simp add: gexp_def exp_ends)
next
  case False
  then have "k mod 255 < 254" using mod_less_divisor[of 255 k] by linarith
  then show ?thesis using exp_Suc[of "k mod 255"] False by (simp add: gexp_def mod_Suc)
qed

lemma gexp_log: "a \<noteq> 0 \<Longrightarrow> gexp (fieldLogTable ! unat a) = a"
  using exp_of_log[of a] by (simp add: gexp_def)

text \<open>Every non-zero byte is a power, so the 255 powers are the 255 non-zero bytes, each once.\<close>

lemma gexp_image: "(\<lambda>k. unat (gexp k)) ` {0..<255} = {1..<256}"
  and gexp_inj: "inj_on (\<lambda>k. unat (gexp k)) {0..<255}"
proof -
  have sub: "{1..<256} \<subseteq> (\<lambda>k. unat (gexp k)) ` {0..<255}"
  proof
    fix n :: nat
    assume n: "n \<in> {1..<256}"
    then have u: "unat (of_nat n :: byte) = n" by (simp add: unsigned_of_nat take_bit_eq_mod)
    with n have nz: "(of_nat n :: byte) \<noteq> 0" by auto
    show "n \<in> (\<lambda>k. unat (gexp k)) ` {0..<255}"
      using gexp_log[OF nz] exp_of_log(1)[OF nz] u
      by (intro image_eqI[of _ _ "fieldLogTable ! unat (of_nat n :: byte)"]) auto
  qed
  have card_le: "card ((\<lambda>k. unat (gexp k)) ` {0..<255}) \<le> 255"
    using card_image_le[of "{0..<255::nat}"] by simp
  show img: "(\<lambda>k. unat (gexp k)) ` {0..<255} = {1..<256}"
    using card_seteq[OF _ sub] card_le by simp
  show "inj_on (\<lambda>k. unat (gexp k)) {0..<255}"
    by (rule eq_card_imp_inj_on) (simp_all add: img)
qed

lemma gexp_nonzero [simp]: "gexp k \<noteq> 0"
proof -
  have "unat (gexp (k mod 255)) \<in> {1..<256}" using gexp_image by (metis atLeastLessThan_iff
        image_eqI le0 mod_less_divisor zero_less_numeral)
  then have "gexp (k mod 255) \<noteq> 0" by (metis atLeastLessThan_iff not_one_le_zero unsigned_0)
  then show ?thesis by simp
qed

lemma log_gexp: "fieldLogTable ! unat (gexp k) = k mod 255"
proof -
  have "gexp (fieldLogTable ! unat (gexp k)) = gexp (k mod 255)" by (simp add: gexp_log)
  then show ?thesis
    using inj_onD[OF gexp_inj] exp_of_log(1)[OF gexp_nonzero[of k]] by simp
qed

lemma fieldMult_gexp: "fieldMult (gexp i) (gexp j) = gexp (i + j)"
  by (simp add: fieldMult_def log_gexp mod_add_eq) (simp add: gexp_def mod_add_eq)

lemma byte_cases: obtains "a = 0" | k where "a = gexp k"
  using gexp_log by metis

section \<open>The field laws\<close>

lemma fieldMult_0 [simp]: "fieldMult 0 b = 0" "fieldMult a 0 = 0"
  by (simp_all add: fieldMult_def)

lemma fieldMult_commute: "fieldMult a b = fieldMult b a"
  by (simp add: fieldMult_def add.commute)

lemma fieldMult_assoc: "fieldMult (fieldMult a b) c = fieldMult a (fieldMult b c)"
  by (cases a rule: byte_cases; cases b rule: byte_cases; cases c rule: byte_cases)
    (simp_all add: fieldMult_gexp add.assoc)

lemma fieldMult_1 [simp]: "fieldMult 1 a = a"
proof (cases a rule: byte_cases)
  case (2 k)
  then show ?thesis using fieldMult_gexp[of 0 k] by simp
qed simp

lemma fieldMult_eq_0: "fieldMult a b = 0 \<longleftrightarrow> a = 0 \<or> b = 0"
  by (cases a rule: byte_cases; cases b rule: byte_cases) (simp_all add: fieldMult_gexp)

lemma xtime_0 [simp]: "xtime 0 = 0"
  by (simp add: xtime_def)

lemma xtime_XOR: "xtime (a XOR b) = xtime a XOR xtime b"
  by (auto simp: xtime_def bit_xor_iff push_bit_xor xor.assoc xor.commute xor.left_commute)

lemma xtime_power_XOR: "(xtime ^^ k) (a XOR b) = (xtime ^^ k) a XOR (xtime ^^ k) b"
  by (induction k) (simp_all add: xtime_XOR)

lemma xtime_power_0 [simp]: "(xtime ^^ k) 0 = 0"
  by (induction k) simp_all

lemma gexp_add: "gexp (k + j) = (xtime ^^ k) (gexp j)"
  by (induction k) (simp_all add: gexp_Suc)

lemma fieldMult_xtime: "fieldMult (gexp k) b = (xtime ^^ k) b"
  by (cases b rule: byte_cases) (simp_all add: fieldMult_gexp gexp_add)

lemma fieldMult_distrib: "fieldMult a (b XOR c) = fieldMult a b XOR fieldMult a c"
  by (cases a rule: byte_cases) (simp_all add: fieldMult_xtime xtime_power_XOR)

lemma fieldInv_Inr:
  assumes "a \<noteq> 0"
  obtains b where "fieldInv a = Inr b" "fieldMult a b = 1"
proof -
  let ?l = "fieldLogTable ! unat a"
  have l: "?l < 255" by (rule exp_of_log(1)[OF assms])
  have "fieldExpTable ! (256 - ?l - 1) = gexp (255 - ?l)"
    using l by (cases "?l = 0") (simp_all add: gexp_def exp_ends)
  moreover have "fieldMult a (gexp (255 - ?l)) = 1"
    using fieldMult_gexp[of ?l "255 - ?l"] gexp_log[OF assms] l gexp_mod[of 255] by simp
  ultimately show ?thesis using that assms by (simp add: fieldInv_def)
qed

interpretation gf: coefficient_field fieldMult
  by unfold_locales
    (rule fieldMult_commute fieldMult_assoc fieldMult_1 fieldMult_distrib fieldMult_eq_0)+

text \<open>addition and multiplication of the tables make a field: both are commutative and
  associative, multiplication distributes over addition, 1 is neutral, every element is its
  own negative, and \<open>fieldInv\<close> returns the inverse of every element but 0, where it panics.\<close>

theorem field_laws:
  "fieldAddSub a b = fieldAddSub b a \<and>
   fieldAddSub (fieldAddSub a b) c = fieldAddSub a (fieldAddSub b c) \<and>
   fieldAddSub a a = 0 \<and> fieldAddSub a 0 = a \<and>
   fieldMult a b = fieldMult b a \<and>
   fieldMult (fieldMult a b) c = fieldMult a (fieldMult b c) \<and>
   fieldMult a (fieldAddSub b c) = fieldAddSub (fieldMult a b) (fieldMult a c) \<and>
   fieldMult 1 a = a \<and>
   fieldInv 0 = Inl (Panic ''a == 0'') \<and>
   (\<exists>b. a = 0 \<or> fieldInv a = Inr b \<and> fieldMult a b = 1)"
proof -
  have "\<exists>b. a = 0 \<or> fieldInv a = Inr b \<and> fieldMult a b = 1"
    using fieldInv_Inr[of a] by metis
  moreover have "fieldInv 0 = Inl (Panic ''a == 0'')" by (simp add: fieldInv_def)
  ultimately show ?thesis
    by (simp add: fieldAddSub_def gf.mul_ac gf.distrib xor.assoc xor.commute xor.left_commute)
qed

text \<open>multiplication is multiplication of polynomials over GF(2) modulo
  \<open>x^8 + x^4 + x^3 + x^2 + 1\<close>: multiplying by a power of 2 shifts left that many times,
  reducing by the polynomial whenever a bit is shifted out, and it is linear.\<close>

theorem fieldMult_is_reduction:
  "fieldMult 2 b = (if bit b 7 then push_bit 1 b XOR 0x1D else push_bit 1 b) \<and>
   fieldMult (fieldExpTable ! (k mod 255)) b = (xtime ^^ k) b \<and>
   fieldMult (a XOR c) b = fieldMult a b XOR fieldMult c b"
proof -
  have "gexp 1 = 2" by (simp add: gexp_def fieldExpTable_def)
  then have "fieldMult 2 b = xtime b" using fieldMult_xtime[of 1 b] by simp
  moreover have "fieldMult (fieldExpTable ! (k mod 255)) b = (xtime ^^ k) b"
    using fieldMult_xtime[of k b] by (simp add: gexp_def)
  ultimately show ?thesis by (simp add: xtime_def gf.distrib_right)
qed

end
