(* ===== verification/GFPoly.thy ===== *)
theory GFPoly
  imports GField
begin

text \<open>
  Polynomials over the field (type \<open>gfPoly\<close> of errorcorrection.go), the cached generator
  polynomials and the error correction bytes of a block. Coefficients are listed from the
  highest power down, and \<open>newGFPoly\<close> strips leading zeros. The division loop is a partial
  function, and its termination is proved.
\<close>

section \<open>Polynomials\<close>

record gfPoly =
  coefficients :: "byte list"

definition fieldZero :: gfPoly where
  "fieldZero = \<lparr>coefficients = [0]\<rparr>"

definition newGFPoly :: "byte list \<Rightarrow> gfPoly go" where
  "newGFPoly cs =
     (if cs = [] then Inl (Panic ''len(coefficients) == 0'')
      else case dropWhile (\<lambda>c. c = 0) cs of
             [] \<Rightarrow> Inr fieldZero
           | ds \<Rightarrow> Inr \<lparr>coefficients = ds\<rparr>)"

definition Degree :: "gfPoly \<Rightarrow> int" where
  "Degree p = int (length (coefficients p)) - 1"

text \<open>
  Every polynomial comes from \<open>newGFPoly\<close>, so it has a coefficient: \<open>hd\<close> is the access
  \<open>coefficients[0]\<close>.
\<close>

definition IsZero :: "gfPoly \<Rightarrow> bool" where
  "IsZero p = (hd (coefficients p) = 0)"

definition AddSub :: "gfPoly \<Rightarrow> gfPoly \<Rightarrow> gfPoly go" where
  "AddSub p x =
     (if IsZero p then Inr x else if IsZero x then Inr p
      else let (smallerCoeff, largerCoeff) =
                 (if length (coefficients p) > length (coefficients x)
                  then (coefficients x, coefficients p) else (coefficients p, coefficients x));
               lenDiff = length largerCoeff - length smallerCoeff
           in newGFPoly (take lenDiff largerCoeff @ map2 fieldAddSub smallerCoeff (drop lenDiff largerCoeff)))"

definition mult_step :: "nat \<Rightarrow> byte \<Rightarrow> byte list \<Rightarrow> nat \<times> byte \<Rightarrow> byte list" where
  "mult_step i a coeff jb =
     coeff[i + fst jb := fieldAddSub (coeff ! (i + fst jb)) (fieldMult a (snd jb))]"

definition Multiply :: "gfPoly \<Rightarrow> gfPoly \<Rightarrow> gfPoly go" where
  "Multiply p x =
     (if IsZero p \<or> IsZero x then Inr fieldZero
      else newGFPoly
        (foldl (\<lambda>coeff ia. foldl (mult_step (fst ia) (snd ia)) coeff (enumerate 0 (coefficients x)))
           (replicate (length (coefficients x) + length (coefficients p) - 1) 0)
           (enumerate 0 (coefficients p))))"

definition MultiplyByMonomial :: "gfPoly \<Rightarrow> int \<Rightarrow> byte \<Rightarrow> gfPoly go" where
  "MultiplyByMonomial p degree coefficient =
     (if degree < 0 then Inl (Panic ''degree < 0'')
      else if coefficient = 0 then Inr fieldZero
      else newGFPoly (map (\<lambda>c. fieldMult c coefficient) (coefficients p) @ replicate (nat degree) 0))"

definition fieldBuildMonomial :: "int \<Rightarrow> byte \<Rightarrow> gfPoly go" where
  "fieldBuildMonomial degree coefficient =
     (if degree < 0 then Inl (Panic ''degree < 0'')
      else if coefficient = 0 then Inr fieldZero
      else newGFPoly (coefficient # replicate (nat degree) 0))"

text \<open>One round of the division: cancel the leading coefficient of the remainder.\<close>

definition divide_step :: "gfPoly \<Rightarrow> byte \<Rightarrow> gfPoly \<Rightarrow> gfPoly \<Rightarrow> (gfPoly \<times> gfPoly) go" where
  "divide_step x inv0 quo rmd =
     (let degreeDifference = Degree rmd - Degree x;
          scale = fieldMult (hd (coefficients rmd)) inv0
      in bindE (MultiplyByMonomial x degreeDifference scale) (\<lambda>trm.
         bindE (fieldBuildMonomial degreeDifference scale) (\<lambda>iterationQuotient.
         bindE (AddSub quo iterationQuotient) (\<lambda>quo'.
         bindE (AddSub rmd trm) (\<lambda>rmd'. Inr (quo', rmd'))))))"

partial_function (option) divide_loop ::
  "gfPoly \<Rightarrow> byte \<Rightarrow> gfPoly \<Rightarrow> gfPoly \<Rightarrow> (gfPoly \<times> gfPoly) go option" where
  "divide_loop x inv0 quo rmd =
     (if Degree rmd \<ge> Degree x \<and> \<not> IsZero rmd then
        (case divide_step x inv0 quo rmd of
           Inl e \<Rightarrow> Some (Inl e)
         | Inr (quo', rmd') \<Rightarrow> divide_loop x inv0 quo' rmd')
      else Some (Inr (quo, rmd)))"

definition Divide :: "gfPoly \<Rightarrow> gfPoly \<Rightarrow> (gfPoly \<times> gfPoly) go" where
  "Divide p x =
     (if IsZero x then Inl (Panic ''x.IsZero()'')
      else bindE (fieldInv (hd (coefficients x))) (\<lambda>inv0.
           returned (divide_loop x inv0 fieldZero p)))"

section \<open>Generators and error correction bytes\<close>

text \<open>The generators are cached in a package variable, extended on demand.\<close>

function buildGenerator :: "gfPoly list \<Rightarrow> nat \<Rightarrow> (gfPoly \<times> gfPoly list) go" where
  "buildGenerator cache degree =
     (if degree < length cache then Inr (cache ! degree, cache)
      else bindE (idx cache (int (length cache) - 1)) (\<lambda>lastGenerator.
           bindE (idx fieldExpTable (int (length cache) - 1)) (\<lambda>e.
           bindE (newGFPoly [1, e]) (\<lambda>f.
           bindE (Multiply lastGenerator f) (\<lambda>g. buildGenerator (cache @ [g]) degree)))))"
  by pat_completeness auto
termination
  by (relation "measure (\<lambda>(cache, degree). Suc degree - length cache)") auto

declare buildGenerator.simps [simp del]

definition initialGenerators :: "gfPoly list" where
  "initialGenerators = [\<lparr>coefficients = [1]\<rparr>]"

record blockPair =
  dataBytes :: "byte list"
  ecBytes :: "byte list"

definition generateECBytes :: "gfPoly list \<Rightarrow> blockPair \<Rightarrow> (blockPair \<times> gfPoly list) go" where
  "generateECBytes cache block =
     (let n = length (ecBytes block) in
      bindE (buildGenerator cache n) (\<lambda>(generator, cache').
      bindE (newGFPoly (dataBytes block)) (\<lambda>info.
      bindE (MultiplyByMonomial info (int n) 1) (\<lambda>info'.
      bindE (Divide info' generator) (\<lambda>(_, rmd).
      let numZeroCoefficients = int n - int (length (coefficients rmd)) in
      if numZeroCoefficients < 0 then Inl (Panic ''slice bounds out of range'')
      else Inr (block\<lparr>ecBytes := replicate (nat numZeroCoefficients) 0 @ coefficients rmd\<rparr>,
                cache'))))))"

section \<open>Well-formed polynomials and evaluation\<close>

definition poly_ok :: "gfPoly \<Rightarrow> bool" where
  "poly_ok p \<longleftrightarrow> coefficients p \<noteq> [] \<and> (hd (coefficients p) \<noteq> 0 \<or> p = fieldZero)"

definition peval :: "byte \<Rightarrow> gfPoly \<Rightarrow> byte" where
  "peval z p = horner fieldMult z (coefficients p)"

lemma peval_fieldZero [simp]: "peval z fieldZero = 0"
  by (simp add: peval_def fieldZero_def gf.horner_Cons)

lemma poly_ok_fieldZero [simp]: "poly_ok fieldZero" "IsZero fieldZero"
  by (simp_all add: poly_ok_def fieldZero_def IsZero_def)

lemma IsZero_iff: "poly_ok p \<Longrightarrow> IsZero p \<longleftrightarrow> p = fieldZero"
  by (auto simp: poly_ok_def IsZero_def fieldZero_def)

lemma peval_IsZero: "poly_ok p \<Longrightarrow> IsZero p \<Longrightarrow> peval z p = 0"
  by (simp add: IsZero_iff)

lemma newGFPoly_ok:
  assumes "cs \<noteq> []"
  obtains p where "newGFPoly cs = Inr p" "poly_ok p" "\<And>z. peval z p = horner fieldMult z cs"
    "length (coefficients p) \<le> length cs" "hd cs \<noteq> 0 \<Longrightarrow> coefficients p = cs"
    "hd cs = 0 \<Longrightarrow> p = fieldZero \<or> length (coefficients p) < length cs"
proof (cases "dropWhile (\<lambda>c. c = 0) cs")
  case Nil
  then have "\<forall>c \<in> set cs. c = 0" by (simp add: dropWhile_eq_Nil_conv)
  then have "\<And>z. peval z fieldZero = horner fieldMult z cs" "hd cs = 0"
    using assms gf.horner_zeros by auto
  moreover have "length (coefficients fieldZero) \<le> length cs"
    using assms by (cases cs) (simp_all add: fieldZero_def)
  ultimately show ?thesis using that[of fieldZero] assms Nil by (simp add: newGFPoly_def)
next
  case (Cons d ds)
  let ?p = "\<lparr>coefficients = d # ds\<rparr>"
  have "d \<noteq> 0" using hd_dropWhile[of "\<lambda>c. c = 0" cs] Cons by simp
  then have "poly_ok ?p" by (simp add: poly_ok_def)
  moreover have "peval z ?p = horner fieldMult z cs" for z
    using gf.horner_dropWhile[of z cs] Cons by (simp add: peval_def)
  moreover have "length (d # ds) \<le> length cs"
    using length_dropWhile_le[of "\<lambda>c. c = 0" cs] Cons by simp
  moreover have "hd cs \<noteq> 0 \<Longrightarrow> d # ds = cs" using Cons assms by (cases cs) auto
  moreover have "length (d # ds) < length cs" if "hd cs = 0"
    using that Cons assms length_dropWhile_le[of "\<lambda>c. c = 0" "tl cs"] by (cases cs) auto
  ultimately show ?thesis using that[of ?p] assms Cons by (simp add: newGFPoly_def)
qed


lemma peval_single [simp]: "peval z \<lparr>coefficients = [c]\<rparr> = c"
  by (simp add: peval_def gf.horner_Cons gf.one_right)

lemma poly_ok_nonempty: "poly_ok p \<Longrightarrow> coefficients p \<noteq> []"
  by (simp add: poly_ok_def)

lemma poly_ok_hd: "poly_ok p \<Longrightarrow> p \<noteq> fieldZero \<Longrightarrow> hd (coefficients p) \<noteq> 0"
  by (simp add: poly_ok_def)

lemma length_fieldZero [simp]: "length (coefficients fieldZero) = 1"
  by (simp add: fieldZero_def)

section \<open>Addition\<close>

lemma map2_drop_XOR:
  "length ss \<le> length ls \<Longrightarrow>
   horner fieldMult z (take (length ls - length ss) ls @ map2 fieldAddSub ss (drop (length ls - length ss) ls)) =
   horner fieldMult z ss XOR horner fieldMult z ls"
proof -
  assume le: "length ss \<le> length ls"
  let ?d = "length ls - length ss"
  have "fieldAddSub = (\<lambda>a b. a XOR b)" by (simp add: fieldAddSub_def fun_eq_iff)
  then have "horner fieldMult z (map2 fieldAddSub ss (drop ?d ls)) =
      horner fieldMult z ss XOR horner fieldMult z (drop ?d ls)"
    using le gf.horner_map2_XOR[of ss "drop ?d ls" z] by simp
  moreover have "horner fieldMult z ls = horner fieldMult z (take ?d ls @ drop ?d ls)" by simp
  ultimately show ?thesis
    using le by (simp add: gf.horner_append xor.assoc xor.commute xor.left_commute del: append_take_drop_id)
qed

lemma AddSub_ok:
  assumes "poly_ok p" "poly_ok x"
  obtains q where "AddSub p x = Inr q" "poly_ok q" "\<And>z. peval z q = peval z p XOR peval z x"
    "hd (coefficients p) = hd (coefficients x) \<Longrightarrow> length (coefficients p) = length (coefficients x) \<Longrightarrow>
       q = fieldZero \<or> length (coefficients q) < length (coefficients p)"
proof (cases "IsZero p \<or> IsZero x")
  case True
  then show ?thesis
    using that[of "if IsZero p then x else p"] assms
    by (auto simp: AddSub_def IsZero_def peval_IsZero IsZero_iff poly_ok_def fieldZero_def)
next
  case False
  let ?s = "if length (coefficients p) > length (coefficients x) then coefficients x else coefficients p"
  let ?l = "if length (coefficients p) > length (coefficients x) then coefficients p else coefficients x"
  let ?d = "length ?l - length ?s"
  let ?cs = "take ?d ?l @ map2 fieldAddSub ?s (drop ?d ?l)"
  have ne: "coefficients p \<noteq> []" "coefficients x \<noteq> []" using assms by (auto dest: poly_ok_nonempty)
  have "?cs \<noteq> []" using ne by (cases "?d = 0") auto
  then obtain q where q: "newGFPoly ?cs = Inr q" "poly_ok q" "\<And>z. peval z q = horner fieldMult z ?cs"
    "hd ?cs = 0 \<Longrightarrow> q = fieldZero \<or> length (coefficients q) < length ?cs"
    using newGFPoly_ok by metis
  show ?thesis
  proof (rule that)
    show "AddSub p x = Inr q" using False q(1) by (simp add: AddSub_def Let_def split: if_splits)
    show "poly_ok q" by (rule q(2))
    show "peval z q = peval z p XOR peval z x" for z
      using map2_drop_XOR[of ?s ?l z] q(3)[of z]
      by (auto simp: peval_def xor.commute split: if_splits)
    assume eq: "hd (coefficients p) = hd (coefficients x)"
      "length (coefficients p) = length (coefficients x)"
    then have "?cs = map2 fieldAddSub (coefficients p) (coefficients x)" by simp
    moreover from this have "hd ?cs = 0"
      using ne eq by (cases "coefficients p"; cases "coefficients x") (simp_all add: fieldAddSub_def)
    ultimately show "q = fieldZero \<or> length (coefficients q) < length (coefficients p)"
      using q(4) eq(2) by simp
  qed
qed

section \<open>Multiplication\<close>

lemma length_mult_step [simp]: "length (mult_step i a coeff jb) = length coeff"
  by (simp add: mult_step_def)

lemma length_mult_row [simp]: "length (foldl (mult_step i a) coeff jbs) = length coeff"
  by (induction jbs arbitrary: coeff) simp_all

lemma mult_row:
  "i + j + length bs \<le> length coeff \<Longrightarrow>
   horner fieldMult z (foldl (mult_step i a) coeff (enumerate j bs)) =
   horner fieldMult z coeff XOR
   fieldMult (fieldMult a (horner fieldMult z bs)) (mpow fieldMult z (length coeff - (i + j + length bs)))"
proof (induction bs arbitrary: j coeff)
  case Nil
  then show ?case by simp
next
  case (Cons b bs)
  let ?c = "mult_step i a coeff (j, b)" and ?k = "length coeff - (i + j + length (b # bs))"
  have "horner fieldMult z (foldl (mult_step i a) ?c (enumerate (Suc j) bs)) =
      horner fieldMult z ?c XOR fieldMult (fieldMult a (horner fieldMult z bs)) (mpow fieldMult z ?k)"
    using Cons.IH[where j = "Suc j" and coeff = ?c] Cons.prems by simp
  moreover have "horner fieldMult z ?c =
      horner fieldMult z coeff XOR fieldMult (fieldMult a b) (mpow fieldMult z (length coeff - 1 - (i + j)))"
    using gf.horner_update[of "i + j" coeff z "fieldMult a b"] Cons.prems
    by (simp add: mult_step_def fieldAddSub_def)
  moreover have "length coeff - 1 - (i + j) = length bs + ?k" using Cons.prems by simp
  ultimately show ?case
    by (simp add: gf.horner_Cons gf.mpow_add gf.distrib gf.distrib_right gf.mul_ac xor.assoc)
qed

abbreviation mult_rows :: "byte list \<Rightarrow> byte list \<Rightarrow> nat \<times> byte \<Rightarrow> byte list" where
  "mult_rows bs \<equiv> \<lambda>coeff ia. foldl (mult_step (fst ia) (snd ia)) coeff (enumerate 0 bs)"

lemma mult_rows:
  "bs \<noteq> [] \<Longrightarrow> i + length as + length bs \<le> Suc (length coeff) \<Longrightarrow>
   horner fieldMult z (foldl (mult_rows bs) coeff (enumerate i as)) =
   horner fieldMult z coeff XOR
   fieldMult (fieldMult (horner fieldMult z as) (horner fieldMult z bs))
     (mpow fieldMult z (Suc (length coeff) - (i + length as + length bs))) \<and>
   length (foldl (mult_rows bs) coeff (enumerate i as)) = length coeff"
proof (induction as arbitrary: i coeff)
  case Nil
  then show ?case by simp
next
  case (Cons a as)
  let ?c = "mult_rows bs coeff (i, a)"
  let ?k = "Suc (length coeff) - (i + length (a # as) + length bs)"
  have IH: "horner fieldMult z (foldl (mult_rows bs) ?c (enumerate (Suc i) as)) =
      horner fieldMult z ?c XOR
      fieldMult (fieldMult (horner fieldMult z as) (horner fieldMult z bs)) (mpow fieldMult z ?k) \<and>
      length (foldl (mult_rows bs) ?c (enumerate (Suc i) as)) = length coeff"
    using Cons.IH[where i = "Suc i" and coeff = ?c] Cons.prems by simp
  have "horner fieldMult z ?c = horner fieldMult z coeff XOR
      fieldMult (fieldMult a (horner fieldMult z bs)) (mpow fieldMult z (length coeff - (i + length bs)))"
    using mult_row[of i 0 bs coeff z a] Cons.prems by simp
  moreover have "length coeff - (i + length bs) = length as + ?k" using Cons.prems by simp
  ultimately show ?case
    using IH by (simp add: gf.horner_Cons gf.mpow_add gf.distrib gf.distrib_right gf.mul_ac xor.assoc)
qed

lemma Multiply_coefficients:
  assumes "as \<noteq> []" "bs \<noteq> []"
    and cs: "cs = foldl (mult_rows bs) (replicate (length bs + length as - 1) 0) (enumerate 0 as)"
  shows "length cs = length bs + length as - 1"
    and "horner fieldMult z cs = fieldMult (horner fieldMult z as) (horner fieldMult z bs)"
proof -
  let ?L = "length bs + length as - 1"
  have pos: "0 < length as" "0 < length bs" using assms by simp_all
  then have le: "0 + length as + length bs \<le> Suc (length (replicate ?L (0::byte)))" by simp
  have "Suc ?L - (0 + length as + length bs) = 0" using pos by simp
  then show "horner fieldMult z cs = fieldMult (horner fieldMult z as) (horner fieldMult z bs)"
    using mult_rows[OF assms(2) le, of z] cs by (simp only: length_replicate) (simp add: gf.one_right)
  show "length cs = ?L" using mult_rows[OF assms(2) le, of z] cs by simp
qed

lemma Multiply_ok:
  assumes "poly_ok p" "poly_ok x"
  obtains q where "Multiply p x = Inr q" "poly_ok q" "\<And>z. peval z q = fieldMult (peval z p) (peval z x)"
    "length (coefficients q) < length (coefficients p) + length (coefficients x)"
proof (cases "IsZero p \<or> IsZero x")
  case True
  then show ?thesis
    using that[of fieldZero] assms poly_ok_nonempty[OF assms(1)] poly_ok_nonempty[OF assms(2)]
    by (cases "coefficients p"; cases "coefficients x") (auto simp: Multiply_def peval_IsZero)
next
  case False
  define cs where "cs = foldl (mult_rows (coefficients x))
    (replicate (length (coefficients x) + length (coefficients p) - 1) 0) (enumerate 0 (coefficients p))"
  have ne: "coefficients p \<noteq> []" "coefficients x \<noteq> []" using assms by (auto dest: poly_ok_nonempty)
  note cs = Multiply_coefficients[OF ne cs_def]
  have pos: "0 < length (coefficients p)" "0 < length (coefficients x)" using ne by simp_all
  then have "0 < length cs" using cs(1) by arith
  then have "cs \<noteq> []" by simp
  then obtain q where q: "newGFPoly cs = Inr q" "poly_ok q" "\<And>z. peval z q = horner fieldMult z cs"
    "length (coefficients q) \<le> length cs"
    using newGFPoly_ok by metis
  show ?thesis
  proof (rule that)
    show "Multiply p x = Inr q" unfolding Multiply_def using False q(1) cs_def by simp
    show "poly_ok q" by (rule q(2))
    show "peval z q = fieldMult (peval z p) (peval z x)" for z
      using q(3)[of z] cs(2)[of z] by (simp add: peval_def)
    show "length (coefficients q) < length (coefficients p) + length (coefficients x)"
      using q(4) cs(1) pos by linarith
  qed
qed

lemma MultiplyByMonomial_ok:
  assumes "poly_ok p" "0 \<le> d" "s \<noteq> 0"
  obtains q where "MultiplyByMonomial p d s = Inr q" "poly_ok q"
    "\<And>z. peval z q = fieldMult (fieldMult (peval z p) s) (mpow fieldMult z (nat d))"
    "p \<noteq> fieldZero \<Longrightarrow>
     coefficients q = map (\<lambda>c. fieldMult c s) (coefficients p) @ replicate (nat d) 0"
proof -
  let ?cs = "map (\<lambda>c. fieldMult c s) (coefficients p) @ replicate (nat d) 0"
  have ne: "coefficients p \<noteq> []" by (rule poly_ok_nonempty[OF assms(1)])
  then have "?cs \<noteq> []" by simp
  then obtain q where q: "newGFPoly ?cs = Inr q" "poly_ok q" "\<And>z. peval z q = horner fieldMult z ?cs"
    "hd ?cs \<noteq> 0 \<Longrightarrow> coefficients q = ?cs"
    using newGFPoly_ok by metis
  have "hd ?cs \<noteq> 0" if "p \<noteq> fieldZero"
    using poly_ok_hd[OF assms(1) that] assms(3) ne by (simp add: hd_append hd_map fieldMult_eq_0)
  then show ?thesis
    using that[of q] q assms by (simp add: MultiplyByMonomial_def peval_def gf.horner_append gf.horner_scale)
qed

lemma fieldBuildMonomial_ok:
  assumes "0 \<le> d" "s \<noteq> 0"
  obtains q where "fieldBuildMonomial d s = Inr q" "poly_ok q"
    "\<And>z. peval z q = fieldMult s (mpow fieldMult z (nat d))"
proof -
  obtain q where "newGFPoly (s # replicate (nat d) 0) = Inr q" "poly_ok q"
    "\<And>z. peval z q = horner fieldMult z (s # replicate (nat d) 0)"
    using newGFPoly_ok[of "s # replicate (nat d) 0"] by blast
  then show ?thesis using that[of q] assms by (simp add: fieldBuildMonomial_def gf.horner_Cons)
qed

section \<open>Division\<close>

lemma divide_step_ok:
  assumes x: "poly_ok x" "x \<noteq> fieldZero" and inv0: "fieldMult (hd (coefficients x)) inv0 = 1"
    and q: "poly_ok q" and r: "poly_ok r" "r \<noteq> fieldZero" and len: "Degree x \<le> Degree r"
  obtains q' r' where "divide_step x inv0 q r = Inr (q', r')" "poly_ok q'" "poly_ok r'"
    "\<And>z. fieldMult (peval z q') (peval z x) XOR peval z r' = fieldMult (peval z q) (peval z x) XOR peval z r"
    "r' = fieldZero \<or> length (coefficients r') < length (coefficients r)"
proof -
  let ?d = "Degree r - Degree x" and ?s = "fieldMult (hd (coefficients r)) inv0"
  have d: "0 \<le> ?d" using len by simp
  have "inv0 \<noteq> 0" using inv0 by auto
  then have s: "?s \<noteq> 0" using poly_ok_hd[OF r] by (simp add: fieldMult_eq_0)
  obtain t where t: "MultiplyByMonomial x ?d ?s = Inr t" "poly_ok t"
    "\<And>z. peval z t = fieldMult (fieldMult (peval z x) ?s) (mpow fieldMult z (nat ?d))"
    "coefficients t = map (\<lambda>c. fieldMult c ?s) (coefficients x) @ replicate (nat ?d) 0"
    using MultiplyByMonomial_ok[OF x(1) d s] x(2) by metis
  obtain m where m: "fieldBuildMonomial ?d ?s = Inr m" "poly_ok m"
    "\<And>z. peval z m = fieldMult ?s (mpow fieldMult z (nat ?d))"
    using fieldBuildMonomial_ok[OF d s] by metis
  obtain q' where q': "AddSub q m = Inr q'" "poly_ok q'" "\<And>z. peval z q' = peval z q XOR peval z m"
    using AddSub_ok[OF q m(2)] by metis
  obtain r' where r': "AddSub r t = Inr r'" "poly_ok r'" "\<And>z. peval z r' = peval z r XOR peval z t"
    "hd (coefficients r) = hd (coefficients t) \<Longrightarrow> length (coefficients r) = length (coefficients t) \<Longrightarrow>
       r' = fieldZero \<or> length (coefficients r') < length (coefficients r)"
    using AddSub_ok[OF r(1) t(2)] by metis
  have ne: "coefficients x \<noteq> []" by (rule poly_ok_nonempty[OF x(1)])
  have "fieldMult (hd (coefficients x)) ?s =
      fieldMult (hd (coefficients r)) (fieldMult (hd (coefficients x)) inv0)"
    by (rule gf.left_commute)
  also have "\<dots> = hd (coefficients r)" using inv0 by (simp add: gf.one_right)
  finally have "hd (coefficients r) = hd (coefficients t)" using ne t(4) by (simp add: hd_map)
  moreover have "length (coefficients r) = length (coefficients t)"
    using t(4) len by (simp add: Degree_def)
  moreover have "fieldMult (peval z q') (peval z x) XOR peval z r' =
      fieldMult (peval z q) (peval z x) XOR peval z r" for z
    by (simp add: q'(3) r'(3) m(3) t(3) gf.distrib_right gf.distrib gf.mul_ac
        xor.assoc xor.commute xor.left_commute)
  ultimately show ?thesis
    using that[of q' r'] t(1) m(1) q'(1,2) r'(1,2,4) by (simp add: divide_step_def)
qed

lemma divide_loop_ok:
  assumes x: "poly_ok x" "x \<noteq> fieldZero" and inv0: "fieldMult (hd (coefficients x)) inv0 = 1"
    and "poly_ok q" "poly_ok r"
  shows "\<exists>q' r'. divide_loop x inv0 q r = Some (Inr (q', r')) \<and> poly_ok q' \<and> poly_ok r' \<and>
    (\<forall>z. fieldMult (peval z q') (peval z x) XOR peval z r' = fieldMult (peval z q) (peval z x) XOR peval z r) \<and>
    (r' = fieldZero \<or> Degree r' < Degree x)"
  using assms(4,5)
proof (induction "length (coefficients r)" arbitrary: q r rule: less_induct)
  case less
  show ?case
  proof (cases "Degree x \<le> Degree r \<and> \<not> IsZero r")
    case False
    then show ?thesis using less.prems IsZero_iff[of r]
      by (subst divide_loop.simps) (auto intro!: exI[of _ q] exI[of _ r])
  next
    case True
    then have nz: "r \<noteq> fieldZero" by auto
    obtain q1 r1 where st: "divide_step x inv0 q r = Inr (q1, r1)" "poly_ok q1" "poly_ok r1"
      "\<And>z. fieldMult (peval z q1) (peval z x) XOR peval z r1 = fieldMult (peval z q) (peval z x) XOR peval z r"
      "r1 = fieldZero \<or> length (coefficients r1) < length (coefficients r)"
      using divide_step_ok[OF x inv0 less.prems nz] True by metis
    have unf: "divide_loop x inv0 q r = divide_loop x inv0 q1 r1"
      using True st(1) by (subst divide_loop.simps) simp
    show ?thesis
    proof (cases "r1 = fieldZero")
      case True
      have "divide_loop x inv0 q1 fieldZero = Some (Inr (q1, fieldZero))"
        by (subst divide_loop.simps) simp
      then show ?thesis using True unf st by auto
    next
      case False
      then show ?thesis using less.hyps[OF _ st(2,3)] st(4,5) unf by auto
    qed
  qed
qed

text \<open>dividing a polynomial by a non-zero one terminates without a panic, and yields a
  quotient and a remainder, the remainder zero or of a smaller degree than the divisor.\<close>

theorem Divide_correct:
  assumes "poly_ok p" and "poly_ok x" and "\<not> IsZero x"
  shows "\<exists>q r. Divide p x = Inr (q, r) \<and> poly_ok q \<and> poly_ok r \<and>
    (r = fieldZero \<or> Degree r < Degree x) \<and>
    (\<forall>z. peval z p = fieldAddSub (fieldMult (peval z q) (peval z x)) (peval z r))"
proof -
  have nz: "x \<noteq> fieldZero" using assms by auto
  obtain inv0 where inv0: "fieldInv (hd (coefficients x)) = Inr inv0" "fieldMult (hd (coefficients x)) inv0 = 1"
    using fieldInv_Inr[OF poly_ok_hd[OF assms(2) nz]] .
  show ?thesis
    using divide_loop_ok[OF assms(2) nz inv0(2) poly_ok_fieldZero(1) assms(1)] assms(3) inv0(1)
    by (auto simp: Divide_def fieldAddSub_def)
qed

theorem Divide_correct_witness:
  "\<exists>q r. Divide \<lparr>coefficients = [3, 0, 1]\<rparr> \<lparr>coefficients = [2, 1]\<rparr> = Inr (q, r) \<and> poly_ok q \<and> poly_ok r \<and>
    (r = fieldZero \<or> Degree r < Degree \<lparr>coefficients = [2, 1]\<rparr>) \<and>
    (\<forall>z. peval z \<lparr>coefficients = [3, 0, 1]\<rparr> =
       fieldAddSub (fieldMult (peval z q) (peval z \<lparr>coefficients = [2, 1]\<rparr>)) (peval z r))"
  by (rule Divide_correct) (simp_all add: poly_ok_def IsZero_def)

section \<open>Generators\<close>

text \<open>
  The generator of degree \<open>n\<close> computed from scratch; the cache always holds a prefix of these.
\<close>

fun generator_of :: "nat \<Rightarrow> gfPoly go" where
  "generator_of 0 = Inr \<lparr>coefficients = [1]\<rparr>"
| "generator_of (Suc d) =
     bindE (generator_of d) (\<lambda>g. bindE (idx fieldExpTable (int d)) (\<lambda>e.
     bindE (newGFPoly [1, e]) (Multiply g)))"

definition cache_ok :: "gfPoly list \<Rightarrow> bool" where
  "cache_ok cache \<longleftrightarrow> cache \<noteq> [] \<and> (\<forall>i < length cache. generator_of i = Inr (cache ! i))"

text \<open>What a generator is: the product of \<open>x - 2^i\<close> for the \<open>i\<close> below its degree.\<close>

fun root_product :: "byte \<Rightarrow> nat \<Rightarrow> byte" where
  "root_product z 0 = 1"
| "root_product z (Suc n) = fieldMult (root_product z n) (fieldAddSub z (fieldExpTable ! n))"

lemma root_product_root: "j < n \<Longrightarrow> root_product (fieldExpTable ! j) n = 0"
  by (induction n) (auto simp: less_Suc_eq fieldAddSub_def)

lemma exp_nonzero: "j < 256 \<Longrightarrow> fieldExpTable ! j \<noteq> 0"
  using gexp_nonzero[of j] by (cases "j = 255") (simp_all add: gexp_def exp_ends)

lemma root_product_0: "n \<le> 256 \<Longrightarrow> root_product 0 n \<noteq> 0"
  by (induction n) (auto simp: fieldMult_eq_0 fieldAddSub_def exp_nonzero)

lemma cache_ok_initial: "cache_ok initialGenerators"
  by (simp add: cache_ok_def initialGenerators_def)

lemma generator_of_ok:
  "n \<le> 256 \<Longrightarrow> \<exists>g. generator_of n = Inr g \<and> poly_ok g \<and> length (coefficients g) \<le> Suc n \<and>
     (\<forall>z. peval z g = root_product z n)"
proof (induction n)
  case 0
  then show ?case by (simp add: poly_ok_def)
next
  case (Suc n)
  then obtain g where g: "generator_of n = Inr g" "poly_ok g" "length (coefficients g) \<le> Suc n"
    "\<And>z. peval z g = root_product z n" by auto
  let ?e = "fieldExpTable ! n"
  obtain f where f: "newGFPoly [1, ?e] = Inr f" "poly_ok f" "\<And>z. peval z f = horner fieldMult z [1, ?e]"
    "length (coefficients f) \<le> length [1, ?e]"
    using newGFPoly_ok[of "[1, ?e]"] by blast
  obtain h where h: "Multiply g f = Inr h" "poly_ok h" "\<And>z. peval z h = fieldMult (peval z g) (peval z f)"
    "length (coefficients h) < length (coefficients g) + length (coefficients f)"
    using Multiply_ok[OF g(2) f(2)] by metis
  have "generator_of (Suc n) = Inr h" using Suc.prems g(1) f(1) h(1) by simp
  moreover have "peval z h = root_product z (Suc n)" for z
    by (simp add: h(3) g(4) f(3) gf.horner_Cons gf.one_right fieldAddSub_def)
  moreover have "length (coefficients h) \<le> Suc (Suc n)" using h(4) g(3) f(4) by simp
  ultimately show ?case using h(2) by blast
qed

lemma generator_nonzero: "n \<le> 256 \<Longrightarrow> generator_of n = Inr g \<Longrightarrow> g \<noteq> fieldZero"
  using generator_of_ok[of n] root_product_0[of n] by (metis Inr_inject peval_fieldZero)

lemma buildGenerator_ok:
  "cache_ok cache \<Longrightarrow> n \<le> 256 \<Longrightarrow> length cache \<le> 257 \<Longrightarrow>
   \<exists>g cache'. buildGenerator cache n = Inr (g, cache') \<and> generator_of n = Inr g \<and> cache_ok cache' \<and>
     length cache' \<le> 257 \<and> prefix cache cache'"
proof (induction cache n rule: buildGenerator.induct)
  case (1 cache n)
  show ?case
  proof (cases "n < length cache")
    case True
    then show ?thesis using 1 by (subst buildGenerator.simps) (simp add: cache_ok_def)
  next
    case False
    let ?d = "length cache - 1"
    have ne: "0 < length cache" using 1 by (simp add: cache_ok_def)
    have d: "?d < 256" "Suc ?d = length cache" using ne False "1.prems" by linarith+
    have last_ok: "generator_of ?d = Inr (cache ! ?d)" using 1 ne by (simp add: cache_ok_def)
    have eq: "nat (int (length cache) - 1) = ?d" using ne by linarith
    have i1: "idx cache (int (length cache) - 1) = Inr (cache ! ?d)"
      and i2: "idx fieldExpTable (int (length cache) - 1) = Inr (fieldExpTable ! ?d)"
      using ne d eq by simp_all
    obtain h where h: "generator_of (Suc ?d) = Inr h" using generator_of_ok[of "Suc ?d"] d by auto
    have "idx fieldExpTable (int ?d) = Inr (fieldExpTable ! ?d)"
      by (subst idx_in) (use d ne eq in simp_all)
    then have "generator_of (Suc ?d) = bindE (newGFPoly [1, fieldExpTable ! ?d]) (Multiply (cache ! ?d))"
      by (simp only: generator_of.simps(2) last_ok bindE_simps)
    with h have "bindE (newGFPoly [1, fieldExpTable ! ?d]) (Multiply (cache ! ?d)) = Inr h"
      by (simp only:)
    then obtain f where f: "newGFPoly [1, fieldExpTable ! ?d] = Inr f" "Multiply (cache ! ?d) f = Inr h"
      unfolding bindE_eq_Inr by blast
    have ok: "cache_ok (cache @ [h])"
      using "1.prems"(1) h d(2) by (auto simp: cache_ok_def nth_append less_Suc_eq)
    have len: "length (cache @ [h]) \<le> 257" using False "1.prems"(2) by simp
    have unf: "buildGenerator cache n = buildGenerator (cache @ [h]) n"
      using False i1 i2 f by (subst buildGenerator.simps) simp
    show ?thesis
      using "1.IH"[OF False i1 i2 f ok "1.prems"(2) len] unf by (auto intro: append_prefixD)
  qed
qed

text \<open>the cache of generators is transparent. From the initial cache or any later one, a
  generator of a degree up to 256 is the one computed from scratch, the product of the factors
  \<open>x - 2^i\<close>; the cache is only extended, by such generators.\<close>

theorem buildGenerator_transparent:
  assumes "cache_ok cache" and "length cache \<le> 257" and "n \<le> 256"
  shows "\<exists>g cache'. buildGenerator cache n = Inr (g, cache') \<and>
    buildGenerator initialGenerators n = Inr (g, snd (projr (buildGenerator initialGenerators n))) \<and>
    (\<forall>z. peval z g = root_product z n) \<and>
    cache_ok cache' \<and> length cache' \<le> 257 \<and> prefix cache cache'"
proof -
  obtain g cache' where g: "buildGenerator cache n = Inr (g, cache')" "generator_of n = Inr g"
    "cache_ok cache'" "length cache' \<le> 257" "prefix cache cache'"
    using buildGenerator_ok[OF assms(1,3,2)] by blast
  obtain g' c' where "buildGenerator initialGenerators n = Inr (g', c')" "generator_of n = Inr g'"
    using buildGenerator_ok[OF cache_ok_initial assms(3)] by (auto simp: initialGenerators_def)
  moreover have "\<forall>z. peval z g = root_product z n" using generator_of_ok[OF assms(3)] g(2) by auto
  ultimately show ?thesis using g by simp
qed

theorem buildGenerator_transparent_witness:
  "\<exists>g cache'. buildGenerator initialGenerators 7 = Inr (g, cache') \<and>
    buildGenerator initialGenerators 7 = Inr (g, snd (projr (buildGenerator initialGenerators 7))) \<and>
    (\<forall>z. peval z g = root_product z 7) \<and>
    cache_ok cache' \<and> length cache' \<le> 257 \<and> prefix initialGenerators cache'"
  by (rule buildGenerator_transparent) (simp_all add: cache_ok_initial, simp add: initialGenerators_def)

section \<open>The error correction bytes of a block\<close>

lemma generateECBytes_ok:
  assumes "cache_ok cache" and "length cache \<le> 257" and "dataBytes b \<noteq> []"
    and n: "0 < length (ecBytes b)" "length (ecBytes b) \<le> 256"
  obtains b' cache' where "generateECBytes cache b = Inr (b', cache')" "dataBytes b' = dataBytes b"
    "length (ecBytes b') = length (ecBytes b)" "cache_ok cache'" "length cache' \<le> 257"
    "\<And>j. j < length (ecBytes b) \<Longrightarrow> horner fieldMult (fieldExpTable ! j) (dataBytes b' @ ecBytes b') = 0"
proof -
  let ?n = "length (ecBytes b)"
  obtain g cache' where g: "buildGenerator cache ?n = Inr (g, cache')" "generator_of ?n = Inr g"
    "cache_ok cache'" "length cache' \<le> 257"
    using buildGenerator_ok[OF assms(1) n(2) assms(2)] by blast
  have gok: "poly_ok g" "length (coefficients g) \<le> Suc ?n" "\<And>z. peval z g = root_product z ?n"
    using generator_of_ok[OF n(2)] g(2) by auto
  have gnz: "\<not> IsZero g" using generator_nonzero[OF n(2) g(2)] IsZero_iff[OF gok(1)] by simp
  obtain i where i: "newGFPoly (dataBytes b) = Inr i" "poly_ok i"
    "\<And>z. peval z i = horner fieldMult z (dataBytes b)"
    using newGFPoly_ok[OF assms(3)] by metis
  obtain m where m: "MultiplyByMonomial i (int ?n) 1 = Inr m" "poly_ok m"
    "\<And>z. peval z m = fieldMult (fieldMult (peval z i) 1) (mpow fieldMult z (nat (int ?n)))"
    using MultiplyByMonomial_ok[OF i(2), of "int ?n" 1] by auto
  have "g \<noteq> fieldZero" using gnz by auto
  from fieldInv_Inr[OF poly_ok_hd[OF gok(1) this]] obtain v where
    v: "fieldInv (hd (coefficients g)) = Inr v" "fieldMult (hd (coefficients g)) v = 1" .
  obtain q r where r: "Divide m g = Inr (q, r)" "poly_ok r" "r = fieldZero \<or> Degree r < Degree g"
    "\<And>z. peval z m = fieldMult (peval z q) (peval z g) XOR peval z r"
    using divide_loop_ok[OF gok(1) \<open>g \<noteq> fieldZero\<close> v(2) poly_ok_fieldZero(1) m(2)] gnz v(1)
    by (auto simp: Divide_def)
  have len: "length (coefficients r) \<le> ?n"
    using r(3) gok(2) n(1) by (auto simp: Degree_def Suc_le_eq)
  let ?ec = "replicate (nat (int ?n - int (length (coefficients r)))) 0 @ coefficients r"
  have "horner fieldMult (fieldExpTable ! j) (dataBytes b @ ?ec) = 0" if "j < ?n" for j
  proof -
    let ?z = "fieldExpTable ! j"
    have "peval ?z m = peval ?z r" using r(4)[of ?z] gok(3)[of ?z] root_product_root[OF that] by simp
    moreover have "peval ?z m = fieldMult (horner fieldMult ?z (dataBytes b)) (mpow fieldMult ?z ?n)"
      by (simp add: m(3) i(3) gf.one_right)
    moreover have "length ?ec = ?n" using len by simp
    moreover have "horner fieldMult ?z ?ec = peval ?z r"
      using gf.horner_append[of ?z "replicate (nat (int ?n - int (length (coefficients r)))) 0"]
      by (simp add: peval_def)
    ultimately have "horner fieldMult ?z (dataBytes b @ ?ec) = peval ?z r XOR peval ?z r"
      using gf.horner_append[of ?z "dataBytes b" ?ec] by simp
    then show ?thesis by simp
  qed
  moreover have "generateECBytes cache b = Inr (b\<lparr>ecBytes := ?ec\<rparr>, cache')"
    using g(1) i(1) m(1) r(1) len by (simp add: generateECBytes_def)
  ultimately show ?thesis using that[of "b\<lparr>ecBytes := ?ec\<rparr>" cache'] g(3,4) len by simp
qed

text \<open>C10: the error correction bytes are those of the Reed-Solomon code. For a block with data
  and between 1 and 256 error correction bytes, \<open>generateECBytes\<close> returns, keeps the data,
  fills every error correction byte, and the data followed by the error correction bytes is a
  codeword: as a polynomial it vanishes at \<open>2^0, ..., 2^(n-1)\<close>.\<close>

theorem generateECBytes_codeword:
  assumes "cache_ok cache" and "length cache \<le> 257" and "dataBytes b \<noteq> []"
    and "0 < length (ecBytes b)" and "length (ecBytes b) \<le> 256"
  shows "\<exists>b' cache'. generateECBytes cache b = Inr (b', cache') \<and> dataBytes b' = dataBytes b \<and>
    length (ecBytes b') = length (ecBytes b) \<and> cache_ok cache' \<and>
    (\<forall>j < length (ecBytes b). horner fieldMult (fieldExpTable ! j) (dataBytes b' @ ecBytes b') = 0)"
  using generateECBytes_ok[OF assms] by metis

theorem generateECBytes_codeword_witness:
  "\<exists>b' cache'. generateECBytes initialGenerators \<lparr>dataBytes = [16, 32, 12], ecBytes = replicate 7 0\<rparr> =
      Inr (b', cache') \<and>
    dataBytes b' = dataBytes \<lparr>dataBytes = [16, 32, 12], ecBytes = replicate 7 0\<rparr> \<and>
    length (ecBytes b') = length (ecBytes \<lparr>dataBytes = [16, 32, 12::byte], ecBytes = replicate 7 0\<rparr>) \<and>
    cache_ok cache' \<and>
    (\<forall>j < length (ecBytes \<lparr>dataBytes = [16, 32, 12::byte], ecBytes = replicate 7 0\<rparr>).
       horner fieldMult (fieldExpTable ! j) (dataBytes b' @ ecBytes b') = 0)"
  by (rule generateECBytes_codeword) (simp_all add: cache_ok_initial, simp add: initialGenerators_def)

end
