(* ===== verification/Content.thy ===== *)
theory Content
  imports Version
begin

text \<open>
  The content of a QR code: the choice of a mode (mode.go), the bits of the content in that
  mode, the header, terminator and padding around them (content.go). The reference is a
  decoder that reads the bits back the way the QR standard prescribes.
\<close>

section \<open>Modes\<close>

type_synonym modeIndicator = nat

definition modeTerminator :: modeIndicator where "modeTerminator = 0"
definition modeNumeric :: modeIndicator where "modeNumeric = 1"
definition modeAlphanumeric :: modeIndicator where "modeAlphanumeric = 2"
definition modeStructuredAppend :: modeIndicator where "modeStructuredAppend = 3"
definition modeByte :: modeIndicator where "modeByte = 4"
definition modeFNC1FirstPosition :: modeIndicator where "modeFNC1FirstPosition = 5"
definition modeECI :: modeIndicator where "modeECI = 7"
definition modeKanji :: modeIndicator where "modeKanji = 8"
definition modeFNC1SecondPosition :: modeIndicator where "modeFNC1SecondPosition = 9"

lemmas mode_defs = modeNumeric_def modeAlphanumeric_def modeByte_def modeECI_def modeKanji_def

text \<open>The switch of \<open>alphanumericCode\<close>.\<close>

definition alphanumericCases :: "(byte \<times> nat) list" where
  "alphanumericCases = [
    (0x30, 0), (0x31, 1), (0x32, 2), (0x33, 3), (0x34, 4), (0x35, 5), (0x36, 6), (0x37, 7),
    (0x38, 8), (0x39, 9), (0x41, 10), (0x42, 11), (0x43, 12), (0x44, 13), (0x45, 14), (0x46, 15),
    (0x47, 16), (0x48, 17), (0x49, 18), (0x4a, 19), (0x4b, 20), (0x4c, 21), (0x4d, 22), (0x4e, 23),
    (0x4f, 24), (0x50, 25), (0x51, 26), (0x52, 27), (0x53, 28), (0x54, 29), (0x55, 30), (0x56, 31),
    (0x57, 32), (0x58, 33), (0x59, 34), (0x5a, 35), (0x20, 36), (0x24, 37), (0x25, 38), (0x2a, 39),
    (0x2b, 40), (0x2d, 41), (0x2e, 42), (0x2f, 43), (0x3a, 44)]"

definition alphanumericCode :: "byte \<Rightarrow> nat go" where
  "alphanumericCode b = (case map_of alphanumericCases b of
     Some code \<Rightarrow> Inr code | None \<Rightarrow> Inl (Err ''Invalid Alphanumeric Byte''))"

fun getMode_loop :: "bool \<Rightarrow> bool \<Rightarrow> byte list \<Rightarrow> modeIndicator" where
  "getMode_loop numeric alphanumeric [] =
     (if alphanumeric then modeAlphanumeric else if numeric then modeNumeric else modeByte)"
| "getMode_loop numeric alphanumeric (b # bs) =
     (case alphanumericCode b of
        Inl err \<Rightarrow> modeByte
      | Inr code \<Rightarrow> if code < 10 then getMode_loop True alphanumeric bs
                    else getMode_loop numeric True bs)"

definition getMode :: "string \<Rightarrow> modeIndicator" where
  "getMode content = getMode_loop False False (bytes_of content)"

definition characterCountBits :: "modeIndicator \<Rightarrow> versionNumber \<Rightarrow> nat go" where
  "characterCountBits m v =
     (if v < 1 then Inl (Panic ''Invalid versionNumber'')
      else if v \<le> 9 then
        (if m = modeNumeric then Inr 10 else if m = modeAlphanumeric then Inr 9
         else if m = modeByte then Inr 8 else if m = modeKanji then Inr 8
         else Inl (Panic ''Unsupported mode''))
      else if v \<le> 26 then
        (if m = modeNumeric then Inr 12 else if m = modeAlphanumeric then Inr 11
         else if m = modeByte then Inr 16 else if m = modeKanji then Inr 10
         else Inl (Panic ''Unsupported mode''))
      else if v \<le> 40 then
        (if m = modeNumeric then Inr 14 else if m = modeAlphanumeric then Inr 13
         else if m = modeByte then Inr 16 else if m = modeKanji then Inr 12
         else Inl (Panic ''Unsupported mode''))
      else Inl (Panic ''Invalid versionNumber''))"

section \<open>Content bits\<close>

text \<open>The digit checks of \<open>appendContent\<close> in numeric and alphanumeric mode.\<close>

definition numericCode :: "byte \<Rightarrow> nat go" where
  "numericCode b = (case alphanumericCode b of
     Inl _ \<Rightarrow> Inl (Panic ''Invalid numeric mode content'')
   | Inr n \<Rightarrow> if n > 9 then Inl (Panic ''Invalid numeric mode content'') else Inr n)"

definition alphanumericCode_checked :: "byte \<Rightarrow> nat go" where
  "alphanumericCode_checked b = (case alphanumericCode b of
     Inl _ \<Rightarrow> Inl (Panic ''Invalid alphanumeric mode content'') | Inr n \<Rightarrow> Inr n)"

text \<open>
  The loops over groups of three digits and of two characters, each followed by the switch on
  the characters left over.
\<close>

fun appendNumeric :: "byte list \<Rightarrow> boolBitVector \<Rightarrow> boolBitVector go" where
  "appendNumeric [] bits = Inr bits"
| "appendNumeric [a] bits = bindE (numericCode a) (\<lambda>n1. Inr (boolBitVector_Append bits n1 4))"
| "appendNumeric [a, b] bits =
     bindE (numericCode a) (\<lambda>n1. bindE (numericCode b) (\<lambda>n2.
     Inr (boolBitVector_Append bits (n1 * 10 + n2) 7)))"
| "appendNumeric (a # b # c # rest) bits =
     bindE (numericCode a) (\<lambda>n1. bindE (numericCode b) (\<lambda>n2. bindE (numericCode c) (\<lambda>n3.
     appendNumeric rest (boolBitVector_Append bits (n1 * 100 + n2 * 10 + n3) 10))))"

fun appendAlphanumeric :: "byte list \<Rightarrow> boolBitVector \<Rightarrow> boolBitVector go" where
  "appendAlphanumeric [] bits = Inr bits"
| "appendAlphanumeric [a] bits =
     bindE (alphanumericCode_checked a) (\<lambda>n1. Inr (boolBitVector_Append bits n1 6))"
| "appendAlphanumeric (a # b # rest) bits =
     bindE (alphanumericCode_checked a) (\<lambda>n1. bindE (alphanumericCode_checked b) (\<lambda>n2.
     appendAlphanumeric rest (boolBitVector_Append bits (n1 * 45 + n2) 11)))"

definition appendContent :: "byte list \<Rightarrow> modeIndicator \<Rightarrow> boolBitVector \<Rightarrow> boolBitVector go" where
  "appendContent content mode bits =
     (if mode = modeNumeric then appendNumeric content bits
      else if mode = modeAlphanumeric then appendAlphanumeric content bits
      else if mode = modeByte then Inr (foldl (\<lambda>v b. boolBitVector_Append v (unat b) 8) bits content)
      else Inl (Panic ''Unsupported mode''))"

section \<open>Terminator and padding\<close>

fun terminator_zeros :: "nat \<Rightarrow> int \<Rightarrow> boolBitVector \<Rightarrow> boolBitVector" where
  "terminator_zeros 0 capacity bits = bits"
| "terminator_zeros (Suc i) capacity bits =
     (if int (boolBitVector_Length bits) < capacity
      then terminator_zeros i capacity (boolBitVector_AppendBit bits False) else bits)"

definition align_byte :: "boolBitVector \<Rightarrow> boolBitVector" where
  "align_byte bits =
     (if boolBitVector_Length bits mod 8 \<noteq> 0
      then foldl (\<lambda>v i. boolBitVector_AppendBit v False) bits [boolBitVector_Length bits mod 8..<8]
      else bits)"

text \<open>The loop without a condition: it ends because each round adds bits.\<close>

function pad_bytes :: "int \<Rightarrow> boolBitVector \<Rightarrow> boolBitVector" where
  "pad_bytes capacity bits =
     (if int (boolBitVector_Length bits) \<ge> capacity then bits
      else let bits1 = boolBitVector_Append bits 0xec 8 in
        if int (boolBitVector_Length bits1) \<ge> capacity then bits1
        else pad_bytes capacity (boolBitVector_Append bits1 0x11 8))"
  by pat_completeness auto
termination
  by (relation "measure (\<lambda>(capacity, bits). nat (capacity - int (boolBitVector_Length bits)))")
    (simp_all add: bool_vec.Len_Append)

declare pad_bytes.simps [simp del]

definition appendTerminator :: "int \<Rightarrow> boolBitVector \<Rightarrow> boolBitVector go" where
  "appendTerminator capacityBytes bits =
     (let capacity = capacityBytes * 8 in
      if int (boolBitVector_Length bits) > capacity then Inl (Panic ''bits.Length() > capacity'')
      else let bits' = pad_bytes capacity (align_byte (terminator_zeros 4 capacity bits)) in
        if int (boolBitVector_Length bits') \<noteq> capacity then Inl (Panic ''bits.Length() != capacity'')
        else Inr bits')"

section \<open>Header and content\<close>

definition contentBits ::
  "byte list \<Rightarrow> ECLevel \<Rightarrow> modeIndicator \<Rightarrow> boolBitVector \<Rightarrow> (boolBitVector \<times> versionNumber) go" where
  "contentBits content ecLevel mode headerBits =
     bindE (appendContent content mode empty_bool_vec) (\<lambda>dataBits.
     bindE (characterCountBits mode 40) (\<lambda>countBits40.
     let bitsNeeded = boolBitVector_Length headerBits + boolBitVector_Length dataBits + countBits40 in
     bindE (chooseVersion bitsNeeded ecLevel) (\<lambda>version.
     bindE (characterCountBits mode version) (\<lambda>countBits.
     let headerAndDataBits =
           boolBitVector_AppendBits
             (boolBitVector_Append (boolBitVector_AppendBits empty_bool_vec headerBits)
                (length content) countBits)
             dataBits in
     bindE (numDataCodewords version ecLevel) (\<lambda>capacityBytes.
     bindE (appendTerminator capacityBytes headerAndDataBits) (\<lambda>bits. Inr (bits, version)))))))"

definition stringContentBits :: "string \<Rightarrow> ECLevel \<Rightarrow> (boolBitVector \<times> versionNumber) go" where
  "stringContentBits content ecLevel =
     (if \<not> supportedECLevel ecLevel then Inl (Err ''Unrecognized ECLevel'')
      else let mode = getMode content;
               headerBits =
                 (if mode = modeByte
                  then boolBitVector_Append (boolBitVector_Append empty_bool_vec modeECI 4) 26 8
                  else empty_bool_vec)
           in contentBits (bytes_of content) ecLevel mode (boolBitVector_Append headerBits mode 4))"

definition binaryContentBits :: "byte list \<Rightarrow> ECLevel \<Rightarrow> (boolBitVector \<times> versionNumber) go" where
  "binaryContentBits content ecLevel =
     (if \<not> supportedECLevel ecLevel then Inl (Err ''Unrecognized ECLevel'')
      else contentBits content ecLevel modeByte (boolBitVector_Append empty_bool_vec modeByte 4))"

section \<open>The reference decoder\<close>

definition alphabet :: "byte list" where
  "alphabet = [
    48, 49, 50, 51, 52, 53, 54, 55, 56, 57, 65, 66, 67, 68, 69, 70, 71, 72, 73, 74, 75, 76,
    77, 78, 79, 80, 81, 82, 83, 84, 85, 86, 87, 88, 89, 90, 32, 36, 37, 42, 43, 45, 46, 47, 58]"

fun decode_numeric :: "nat \<Rightarrow> bool list \<Rightarrow> byte list" where
  "decode_numeric 0 bs = []"
| "decode_numeric (Suc 0) bs = [alphabet ! bits_val (take 4 bs)]"
| "decode_numeric (Suc (Suc 0)) bs =
     (let m = bits_val (take 7 bs) in [alphabet ! (m div 10), alphabet ! (m mod 10)])"
| "decode_numeric (Suc (Suc (Suc n))) bs =
     (let m = bits_val (take 10 bs)
      in alphabet ! (m div 100) # alphabet ! (m div 10 mod 10) # alphabet ! (m mod 10) #
         decode_numeric n (drop 10 bs))"

fun decode_alphanumeric :: "nat \<Rightarrow> bool list \<Rightarrow> byte list" where
  "decode_alphanumeric 0 bs = []"
| "decode_alphanumeric (Suc 0) bs = [alphabet ! bits_val (take 6 bs)]"
| "decode_alphanumeric (Suc (Suc n)) bs =
     (let m = bits_val (take 11 bs)
      in alphabet ! (m div 45) # alphabet ! (m mod 45) # decode_alphanumeric n (drop 11 bs))"

fun decode_bytes :: "nat \<Rightarrow> bool list \<Rightarrow> byte list" where
  "decode_bytes 0 bs = []"
| "decode_bytes (Suc n) bs = of_nat (bits_val (take 8 bs)) # decode_bytes n (drop 8 bs)"

text \<open>A segment: mode, character count of the width its version prescribes, characters.\<close>

definition decode_segment :: "versionNumber \<Rightarrow> bool list \<Rightarrow> byte list option" where
  "decode_segment v bs =
     (let m = bits_val (take 4 bs) in
      case characterCountBits m v of
        Inl _ \<Rightarrow> None
      | Inr k \<Rightarrow>
          let n = bits_val (take k (drop 4 bs)); body = drop (4 + k) bs in
          if m = modeNumeric then Some (decode_numeric n body)
          else if m = modeAlphanumeric then Some (decode_alphanumeric n body)
          else if m = modeByte then Some (decode_bytes n body) else None)"

text \<open>An extended channel interpretation, 26 for UTF-8, may come first.\<close>

definition decode_bits :: "versionNumber \<Rightarrow> bool list \<Rightarrow> byte list option" where
  "decode_bits v bs =
     (if bits_val (take 4 bs) = modeECI
      then if bits_val (take 8 (drop 4 bs)) = 26 then decode_segment v (drop 12 bs) else None
      else decode_segment v bs)"

section \<open>Alphanumeric codes and modes\<close>

lemma bbits_Append [simp]: "bbits (boolBitVector_Append v b n) = bbits v @ msb_bits b n"
  using bool_vec.Append_spec by simp

lemma bbits_simps [simp]:
  "bbits (boolBitVector_AppendBit v x) = bbits v @ [x]"
  "bbits (boolBitVector_AppendBits v w) = bbits v @ bbits w"
  "bbits empty_bool_vec = []"
  "boolBitVector_Length v = length (bbits v)"
  by (simp_all add: boolBitVector_AppendBit_def boolBitVector_AppendBits_def empty_bool_vec_def
      boolBitVector_Length_def)

lemma alphanumericCases_ok: "list_all (\<lambda>(b, c). c < 45 \<and> alphabet ! c = b) alphanumericCases"
  by (simp add: alphanumericCases_def alphabet_def)

lemma alphanumericCode_Inr:
  assumes "alphanumericCode b = Inr c" shows "c < 45" "alphabet ! c = b"
proof -
  have "(b, c) \<in> set alphanumericCases"
    using assms by (auto simp: alphanumericCode_def split: option.splits dest: map_of_SomeD)
  then show "c < 45" "alphabet ! c = b" using alphanumericCases_ok by (auto simp: list_all_iff)
qed

definition is_digit :: "byte \<Rightarrow> bool" where
  "is_digit b = (case alphanumericCode b of Inl _ \<Rightarrow> False | Inr c \<Rightarrow> c < 10)"

definition is_alphanumeric :: "byte \<Rightarrow> bool" where
  "is_alphanumeric b = (\<not> isl (alphanumericCode b))"

lemma getMode_loop_cases:
  "getMode_loop num alnum bs =
     (if list_all is_alphanumeric bs
      then if alnum \<or> \<not> list_all is_digit bs then modeAlphanumeric
           else if num \<or> bs \<noteq> [] then modeNumeric else modeByte
      else modeByte)"
  by (induction bs arbitrary: num alnum)
    (auto simp: is_digit_def is_alphanumeric_def isl_def split: sum.splits)

lemma digit_code: "is_digit b \<Longrightarrow> \<exists>c < 10. numericCode b = Inr c \<and> alphabet ! c = b"
  using alphanumericCode_Inr by (auto simp: is_digit_def numericCode_def split: sum.splits)

lemma alphanumeric_code:
  "is_alphanumeric b \<Longrightarrow> \<exists>c < 45. alphanumericCode_checked b = Inr c \<and> alphabet ! c = b"
  using alphanumericCode_Inr
  by (auto simp: is_alphanumeric_def alphanumericCode_checked_def isl_def split: sum.splits)

section \<open>Characters and their bits\<close>

text \<open>
  The bits \<open>p\<close> of a list of characters: the appending loop adds them and never fails, at
  least \<open>r\<close> tenths of a bit per character, and the decoder reads the characters back.
\<close>

definition writes ::
  "(boolBitVector \<Rightarrow> boolBitVector go) \<Rightarrow> (nat \<Rightarrow> bool list \<Rightarrow> byte list) \<Rightarrow> byte list \<Rightarrow> bool list \<Rightarrow> bool" where
  "writes f decode cs p \<longleftrightarrow>
     (\<forall>v. f v = Inr \<lparr>bbits = bbits v @ p\<rparr>) \<and> (\<forall>rest. decode (length cs) (p @ rest) = cs)"

lemma Append_record: "boolBitVector_Append v b n = \<lparr>bbits = bbits v @ msb_bits b n\<rparr>"
  by (rule boolBitVector.equality) simp_all

lemma take_msb_bits [simp]: "take n (msb_bits b n @ rest) = msb_bits b n"
  "drop n (msb_bits b n @ rest) = rest" by simp_all

lemma bits_val_msb_bits_small: "b < 2 ^ n \<Longrightarrow> bits_val (msb_bits b n) = b"
  by (simp add: bits_val_msb_bits)

lemma three_digits:
  assumes "(x::nat) < 10" "y < 10" "z < 10"
  shows "(x * 100 + y * 10 + z) div 10 mod 10 = y" "(x * 100 + y * 10 + z) mod 10 = z"
proof -
  have eq: "x * 100 + y * 10 + z = (x * 10 + y) * 10 + z" by simp
  have "(q * 10 + z) div 10 = q" for q using assms(3) by simp
  from this[of "x * 10 + y"] have "((x * 10 + y) * 10 + z) div 10 = x * 10 + y" .
  then show "(x * 100 + y * 10 + z) div 10 mod 10 = y" unfolding eq using assms by simp
  show "(x * 100 + y * 10 + z) mod 10 = z" unfolding eq using assms by (subst mod_mult_self3) simp
qed

text \<open>The number of bits of \<open>n\<close> characters in a mode.\<close>

fun numeric_bits :: "nat \<Rightarrow> nat" where
  "numeric_bits 0 = 0"
| "numeric_bits (Suc 0) = 4"
| "numeric_bits (Suc (Suc 0)) = 7"
| "numeric_bits (Suc (Suc (Suc n))) = 10 + numeric_bits n"

fun alphanumeric_bits :: "nat \<Rightarrow> nat" where
  "alphanumeric_bits 0 = 0"
| "alphanumeric_bits (Suc 0) = 6"
| "alphanumeric_bits (Suc (Suc n)) = 11 + alphanumeric_bits n"

lemma numeric_bits_bound: "10 * n \<le> 3 * numeric_bits n"
  by (induction n rule: numeric_bits.induct) simp_all

lemma alphanumeric_bits_bound: "11 * n \<le> 2 * alphanumeric_bits n"
  by (induction n rule: alphanumeric_bits.induct) simp_all

lemma appendNumeric_writes:
  "list_all is_digit cs \<Longrightarrow>
   \<exists>p. writes (appendNumeric cs) decode_numeric cs p \<and> length p = numeric_bits (length cs)"
proof (induction "length cs" arbitrary: cs rule: less_induct)
  case less
  consider (0) "cs = []" | (1) a where "cs = [a]" | (2) a b where "cs = [a, b]"
    | (3) a b c rest where "cs = a # b # c # rest"
    by (metis list.exhaust)
  then show ?case
  proof cases
    case 0
    then show ?thesis by (intro exI[of _ "[]"]) (simp add: writes_def)
  next
    case 1
    then obtain x where "x < 10" "numericCode a = Inr x" "alphabet ! x = a"
      using digit_code[of a] less.prems by auto
    then show ?thesis using 1
      by (intro exI[of _ "msb_bits x 4"]) (simp add: writes_def Append_record bits_val_msb_bits_small)
  next
    case 2
    then obtain x y where x: "x < 10" "numericCode a = Inr x" "alphabet ! x = a"
      and y: "y < 10" "numericCode b = Inr y" "alphabet ! y = b"
      using digit_code[of a] digit_code[of b] less.prems by auto
    have "x * 10 + y < 2 ^ 7" "(x * 10 + y) div 10 = x" "(x * 10 + y) mod 10 = y"
      using x(1) y(1) by auto
    then show ?thesis using 2 x y
      by (intro exI[of _ "msb_bits (x * 10 + y) 7"])
        (simp add: writes_def Append_record bits_val_msb_bits_small)
  next
    case 3
    then obtain x y z where x: "x < 10" "numericCode a = Inr x" "alphabet ! x = a"
      and y: "y < 10" "numericCode b = Inr y" "alphabet ! y = b"
      and z: "z < 10" "numericCode c = Inr z" "alphabet ! z = c"
      using digit_code[of a] digit_code[of b] digit_code[of c] less.prems by auto
    let ?m = "x * 100 + y * 10 + z"
    have m: "?m < 2 ^ 10" "?m div 100 = x" "?m div 10 mod 10 = y" "?m mod 10 = z"
      using three_digits[OF x(1) y(1) z(1)] x(1) y(1) z(1) by auto
    obtain p where p: "writes (appendNumeric rest) decode_numeric rest p" "length p = numeric_bits (length rest)"
      using less.hyps[of rest] less.prems 3 by auto
    then show ?thesis using 3 x y z m
      by (intro exI[of _ "msb_bits ?m 10 @ p"])
        (simp add: writes_def Append_record bits_val_msb_bits_small)
  qed
qed

lemma appendAlphanumeric_writes:
  "list_all is_alphanumeric cs \<Longrightarrow>
   \<exists>p. writes (appendAlphanumeric cs) decode_alphanumeric cs p \<and> length p = alphanumeric_bits (length cs)"
proof (induction "length cs" arbitrary: cs rule: less_induct)
  case less
  consider (0) "cs = []" | (1) a where "cs = [a]" | (2) a b rest where "cs = a # b # rest"
    by (metis list.exhaust)
  then show ?case
  proof cases
    case 0
    then show ?thesis by (intro exI[of _ "[]"]) (simp add: writes_def)
  next
    case 1
    then obtain x where "x < 45" "alphanumericCode_checked a = Inr x" "alphabet ! x = a"
      using alphanumeric_code[of a] less.prems by auto
    then show ?thesis using 1
      by (intro exI[of _ "msb_bits x 6"]) (simp add: writes_def Append_record bits_val_msb_bits_small)
  next
    case 2
    then obtain x y where x: "x < 45" "alphanumericCode_checked a = Inr x" "alphabet ! x = a"
      and y: "y < 45" "alphanumericCode_checked b = Inr y" "alphabet ! y = b"
      using alphanumeric_code[of a] alphanumeric_code[of b] less.prems by auto
    have m: "x * 45 + y < 2 ^ 11" "(x * 45 + y) div 45 = x" "(x * 45 + y) mod 45 = y"
      using x(1) y(1) by auto
    obtain p where "writes (appendAlphanumeric rest) decode_alphanumeric rest p"
      "length p = alphanumeric_bits (length rest)"
      using less.hyps[of rest] less.prems 2 by auto
    then show ?thesis using 2 x y m
      by (intro exI[of _ "msb_bits (x * 45 + y) 11 @ p"])
        (simp add: writes_def Append_record bits_val_msb_bits_small)
  qed
qed

lemma append_bytes_writes:
  "\<exists>p. writes (\<lambda>v. Inr (foldl (\<lambda>v b. boolBitVector_Append v (unat b) 8) v cs)) decode_bytes cs p \<and>
       length p = 8 * length cs"
proof (induction cs)
  case Nil
  then show ?case by (intro exI[of _ "[]"]) (simp add: writes_def)
next
  case (Cons c cs)
  then obtain p where p: "writes (\<lambda>v. Inr (foldl (\<lambda>v b. boolBitVector_Append v (unat b) 8) v cs)) decode_bytes cs p"
    "length p = 8 * length cs" by blast
  have "unat c < 2 ^ 8" using unsigned_less[where 'a = nat, of c] by simp
  then show ?case using p
    by (intro exI[of _ "msb_bits (unat c) 8 @ p"])
      (simp add: writes_def Append_record bits_val_msb_bits_small word_of_nat_unat_id)
qed

section \<open>Terminator and padding, verified\<close>

fun padding :: "nat \<Rightarrow> bool list" where
  "padding 0 = []"
| "padding (Suc 0) = msb_bits 0xec 8"
| "padding (Suc (Suc k)) = msb_bits 0xec 8 @ msb_bits 0x11 8 @ padding k"

lemma length_padding [simp]: "length (padding k) = 8 * k"
  by (induction k rule: padding.induct) simp_all

lemma vec_eta: "\<lparr>bbits = bbits v\<rparr> = (v :: boolBitVector)"
  by (rule boolBitVector.equality) simp_all

lemma terminator_zeros_eq:
  "terminator_zeros n c v = \<lparr>bbits = bbits v @ replicate (min n (nat (c - int (length (bbits v))))) False\<rparr>"
proof (induction n arbitrary: v)
  case 0
  then show ?case by (simp add: vec_eta)
next
  case (Suc n)
  show ?case
  proof (cases "int (length (bbits v)) < c")
    case True
    then have "Suc (min n (nat (c - (1 + int (length (bbits v)))))) = min (Suc n) (nat (c - int (length (bbits v))))"
      by (simp add: min_def) linarith
    then show ?thesis using True Suc.IH[of "boolBitVector_AppendBit v False"]
      by (simp flip: replicate_Suc)
  next
    case False
    then show ?thesis by (simp add: vec_eta)
  qed
qed

lemma foldl_AppendBit_False:
  "foldl (\<lambda>v i. boolBitVector_AppendBit v False) v xs = \<lparr>bbits = bbits v @ replicate (length xs) False\<rparr>"
  by (induction xs arbitrary: v) (simp_all add: vec_eta)

lemma align_byte_eq:
  "align_byte v = \<lparr>bbits = bbits v @ replicate ((8 - length (bbits v) mod 8) mod 8) False\<rparr>"
proof (cases "length (bbits v) mod 8 = 0")
  case True
  then show ?thesis by (simp add: align_byte_def vec_eta)
next
  case False
  then show ?thesis by (simp add: align_byte_def foldl_AppendBit_False)
qed

lemma pad_bytes_eq:
  "c = int (length (bbits v) + 8 * k) \<Longrightarrow> pad_bytes c v = \<lparr>bbits = bbits v @ padding k\<rparr>"
proof (induction k arbitrary: v rule: padding.induct)
  case 1
  then show ?case by (subst pad_bytes.simps) (simp add: vec_eta)
next
  case 2
  then show ?case by (subst pad_bytes.simps) (simp add: Append_record)
next
  case (3 k)
  let ?v = "boolBitVector_Append (boolBitVector_Append v 0xec 8) 0x11 8"
  have "c = int (length (bbits ?v) + 8 * k)" using 3(2) by simp
  from 3(1)[OF this] have "pad_bytes c ?v = \<lparr>bbits = bbits ?v @ padding k\<rparr>" .
  then show ?case using 3(2) by (subst pad_bytes.simps) simp
qed

lemma round_up_8: "8 * ((m + 7) div 8) = m + (8 - m mod 8) mod (8::nat)"
proof -
  define q r where "q = m div 8" and "r = m mod 8"
  have m: "m = 8 * q + r" by (simp add: q_def r_def)
  have "r < 8" by (simp add: r_def)
  then have "8 * ((8 * q + r + 7) div 8) = 8 * q + r + (8 - (8 * q + r) mod 8) mod 8"
    by (cases "r = 0") (simp_all add: div_add1_eq[of "8 * q"] add.assoc)
  then show ?thesis by (simp only: m)
qed

definition terminator_length :: "int \<Rightarrow> int \<Rightarrow> int" where
  "terminator_length c n = min (8 * c) (8 * ((n + 4 + 7) div 8)) - n"

lemma appendTerminator_eq:
  assumes "int (length (bbits v)) \<le> 8 * c"
  obtains k where "appendTerminator c v =
      Inr \<lparr>bbits = bbits v @ replicate (nat (terminator_length c (int (length (bbits v))))) False @ padding k\<rparr>"
    "int (length (bbits v)) + terminator_length c (int (length (bbits v))) + 8 * int k = 8 * c"
    "0 \<le> terminator_length c (int (length (bbits v)))"
proof -
  let ?n = "length (bbits v)"
  let ?z1 = "min 4 (nat (8 * c - int ?n))"
  let ?z2 = "(8 - (?n + ?z1) mod 8) mod 8"
  let ?w = "align_byte (terminator_zeros 4 (c * 8) v)"
  have sum: "int (?z1 + ?z2) = terminator_length c (int ?n)"
  proof (cases "int ?n + 4 \<le> 8 * c")
    case True
    then have z1: "?z1 = 4" by simp
    have "(int ?n + 4 + 7) div 8 \<le> c" using True by linarith
    then have "terminator_length c (int ?n) = 8 * ((int ?n + 4 + 7) div 8) - int ?n"
      by (simp add: terminator_length_def)
    also have "\<dots> = int (8 * ((?n + 4 + 7) div 8)) - int ?n" by (simp add: zdiv_int)
    also have "\<dots> = int (4 + (8 - (?n + 4) mod 8) mod 8)"
      unfolding round_up_8[of "?n + 4"] by simp
    finally show ?thesis unfolding z1 by simp
  next
    case False
    then have z1: "int ?z1 = 8 * c - int ?n" using assms by simp
    then have "int (?n + ?z1) = 8 * c" by simp
    then have "8 dvd int (?n + ?z1)" by (metis dvd_triv_left)
    then have "8 dvd ?n + ?z1" by presburger
    then have "(?n + ?z1) mod 8 = 0" by (simp only: mod_eq_0_iff_dvd)
    then have z2: "?z2 = 0" by simp
    have "c \<le> (int ?n + 4 + 7) div 8" using False by linarith
    then show ?thesis using z1 unfolding z2 by (simp add: terminator_length_def)
  qed
  have w: "?w = \<lparr>bbits = bbits v @ replicate (nat (terminator_length c (int ?n))) False\<rparr>"
  proof -
    have "?z1 + ?z2 = nat (terminator_length c (int ?n))" using sum by linarith
    then show ?thesis
      by (simp add: terminator_zeros_eq align_byte_eq mult.commute[of c] flip: replicate_add)
  qed
  have le: "terminator_length c (int ?n) \<le> 8 * c - int ?n" by (simp add: terminator_length_def)
  have "8 dvd int ?n + terminator_length c (int ?n)"
    by (simp add: terminator_length_def min_def)
  moreover have "8 dvd 8 * c" by simp
  ultimately obtain d where d: "8 * c - (int ?n + terminator_length c (int ?n)) = 8 * d"
    by (metis dvd_diff dvdE)
  then have "0 \<le> d" using le by linarith
  then obtain k where k: "d = int k" by (metis nonneg_int_cases)
  have nn: "0 \<le> terminator_length c (int ?n)" using sum by simp
  have "c * 8 = int (length (bbits ?w) + 8 * k)" using d k nn w by simp
  from pad_bytes_eq[OF this] have
    pad: "pad_bytes (c * 8) ?w = \<lparr>bbits = bbits ?w @ padding k\<rparr>" .
  show ?thesis
  proof (rule that[of k])
    show "int ?n + terminator_length c (int ?n) + 8 * int k = 8 * c" using d k by linarith
    show "0 \<le> terminator_length c (int ?n)" by (rule nn)
    have "int (length (bbits ?w @ padding k)) = c * 8"
      using \<open>c * 8 = int (length (bbits ?w) + 8 * k)\<close> by simp
    then show "appendTerminator c v =
        Inr \<lparr>bbits = bbits v @ replicate (nat (terminator_length c (int ?n))) False @ padding k\<rparr>"
      using assms pad w by (simp add: appendTerminator_def Let_def)
  qed
qed

text \<open>the terminator and the padding fill the capacity exactly. The bits are kept; a
  terminator of four zeros and the zeros up to the next byte follow, as far as there is room,
  and then the bytes 0xEC and 0x11 in turn; the last panic is unreachable.\<close>

theorem appendTerminator_fills:
  assumes "int (boolBitVector_Length bits) \<le> 8 * c"
  shows "\<exists>k bits'. appendTerminator c bits = Inr bits' \<and>
    bbits bits' = bbits bits @
      replicate (nat (terminator_length c (int (boolBitVector_Length bits)))) False @ padding k \<and>
    int (boolBitVector_Length bits') = 8 * c"
proof -
  let ?n = "int (length (bbits bits))"
  obtain k where "appendTerminator c bits =
      Inr \<lparr>bbits = bbits bits @ replicate (nat (terminator_length c ?n)) False @ padding k\<rparr>"
    "?n + terminator_length c ?n + 8 * int k = 8 * c" "0 \<le> terminator_length c ?n"
    using appendTerminator_eq[of bits c] assms by auto
  then show ?thesis by (intro exI[of _ k]) simp
qed

theorem appendTerminator_fills_witness:
  "\<exists>k bits'. appendTerminator 3 \<lparr>bbits = [True, False]\<rparr> = Inr bits' \<and>
    bbits bits' = bbits \<lparr>bbits = [True, False]\<rparr> @
      replicate (nat (terminator_length 3 (int (boolBitVector_Length \<lparr>bbits = [True, False]\<rparr>)))) False @ padding k \<and>
    int (boolBitVector_Length bits') = 8 * 3"
  by (rule appendTerminator_fills) simp

section \<open>Encoding and decoding content\<close>

definition mode_ok :: "modeIndicator \<Rightarrow> byte list \<Rightarrow> bool" where
  "mode_ok m cs \<longleftrightarrow> m = modeNumeric \<and> list_all is_digit cs \<or>
     m = modeAlphanumeric \<and> list_all is_alphanumeric cs \<or> m = modeByte"

definition decode_mode :: "modeIndicator \<Rightarrow> nat \<Rightarrow> bool list \<Rightarrow> byte list" where
  "decode_mode m = (if m = modeNumeric then decode_numeric
     else if m = modeAlphanumeric then decode_alphanumeric else decode_bytes)"

definition payload_bits :: "modeIndicator \<Rightarrow> nat \<Rightarrow> nat" where
  "payload_bits m n = (if m = modeNumeric then numeric_bits n
     else if m = modeAlphanumeric then alphanumeric_bits n else 8 * n)"

lemma getMode_ok: "mode_ok (getMode s) (bytes_of s)"
  by (simp add: getMode_def getMode_loop_cases mode_ok_def)

lemma appendContent_writes:
  assumes "mode_ok m cs"
  obtains p where "writes (appendContent cs m) (decode_mode m) cs p"
    "length p = payload_bits m (length cs)"
proof -
  consider "m = modeNumeric" "list_all is_digit cs" | "m = modeAlphanumeric" "list_all is_alphanumeric cs"
    | "m = modeByte" using assms by (auto simp: mode_ok_def)
  then show ?thesis
  proof cases
    case 1
    moreover from this have "appendContent cs m = appendNumeric cs" "decode_mode m = decode_numeric"
      by (auto simp: appendContent_def decode_mode_def)
    ultimately show ?thesis using appendNumeric_writes[of cs] that by (auto simp: mode_defs payload_bits_def)
  next
    case 2
    moreover from this have "appendContent cs m = appendAlphanumeric cs" "decode_mode m = decode_alphanumeric"
      by (auto simp: appendContent_def decode_mode_def mode_defs)
    ultimately show ?thesis using appendAlphanumeric_writes[of cs] that by (auto simp: mode_defs payload_bits_def)
  next
    case 3
    moreover from this have
      "appendContent cs m = (\<lambda>v. Inr (foldl (\<lambda>v b. boolBitVector_Append v (unat b) 8) v cs))"
      "decode_mode m = decode_bytes"
      by (auto simp: appendContent_def decode_mode_def mode_defs)
    ultimately show ?thesis using append_bytes_writes[of cs] that by (auto simp: mode_defs payload_bits_def)
  qed
qed

lemma characterCountBits_ok:
  assumes "1 \<le> v" "v \<le> 40" "mode_ok m cs"
  obtains k where "characterCountBits m v = Inr k"
    "k \<le> (if m = modeNumeric then 14 else if m = modeAlphanumeric then 13 else 16)"
    "k = (if m = modeNumeric then if v \<le> 9 then 10 else if v \<le> 26 then 12 else 14
          else if m = modeAlphanumeric then if v \<le> 9 then 9 else if v \<le> 26 then 11 else 13
          else if v \<le> 9 then 8 else 16)"
  using assms by (auto simp: characterCountBits_def mode_ok_def mode_defs split: if_splits)

lemma dataCapacity_at: "supportedECLevel l \<Longrightarrow>
    dataCapacity 9 l \<le> 232 \<and> dataCapacity 26 l \<le> 1370 \<and> dataCapacity 40 l \<le> 2956"
  by (auto simp: supported_cases dataCapacity_def capacities_def)

lemma dataCapacity_bound:
  assumes "supportedECLevel l" "1 \<le> v" "v \<le> 40"
  shows "dataCapacity v l \<le> (if v \<le> 9 then 232 else if v \<le> 26 then 1370 else 2956)"
  using dataCapacity_mono[OF assms(1,2), of 9] dataCapacity_mono[OF assms(1,2), of 26]
    dataCapacity_mono[OF assms(1,2), of 40] dataCapacity_at[OF assms(1)] assms(3)
  by auto

text \<open>The character count fits the field that is written for it.\<close>

lemma count_fits:
  assumes "supportedECLevel l" "1 \<le> v" "v \<le> 40" "mode_ok m cs" "characterCountBits m v = Inr k"
    and fits: "int (payload_bits m (length cs)) \<le> 8 * dataCapacity v l"
  shows "length cs < 2 ^ k"
proof -
  have b: "payload_bits m (length cs) \<le> (if v \<le> 9 then 1856 else if v \<le> 26 then 10960 else 23648)"
    using dataCapacity_bound[OF assms(1-3)] fits by (cases "v \<le> 9"; cases "v \<le> 26") simp_all
  obtain k' where "characterCountBits m v = Inr k'"
    "k' = (if m = modeNumeric then if v \<le> 9 then 10 else if v \<le> 26 then 12 else 14
          else if m = modeAlphanumeric then if v \<le> 9 then 9 else if v \<le> 26 then 11 else 13
          else if v \<le> 9 then 8 else 16)"
    by (rule characterCountBits_ok[OF assms(2-4)])
  then have k: "k = (if m = modeNumeric then if v \<le> 9 then 10 else if v \<le> 26 then 12 else 14
          else if m = modeAlphanumeric then if v \<le> 9 then 9 else if v \<le> 26 then 11 else 13
          else if v \<le> 9 then 8 else 16)" using assms(5) by simp
  consider "m = modeNumeric" | "m = modeAlphanumeric" | "m = modeByte"
    using assms(4) by (auto simp: mode_ok_def)
  then show ?thesis
    using b k numeric_bits_bound[of "length cs"] alphanumeric_bits_bound[of "length cs"]
    by cases (auto simp: mode_defs payload_bits_def split: if_splits)
qed

definition bits_needed :: "nat \<Rightarrow> modeIndicator \<Rightarrow> nat \<Rightarrow> nat" where
  "bits_needed header m n = header + payload_bits m n +
     (if m = modeNumeric then 14 else if m = modeAlphanumeric then 13 else 16)"

lemma contentBits_ok:
  assumes l: "supportedECLevel l" and m: "mode_ok m cs"
  shows "if int (bits_needed (length (bbits h)) m (length cs)) \<le> 8 * dataCapacity 40 l
    then \<exists>bits v k p rest. contentBits cs l m h = Inr (bits, v) \<and> 1 \<le> v \<and> v \<le> 40 \<and>
      int (length (bbits bits)) = 8 * dataCapacity v l \<and>
      characterCountBits m v = Inr k \<and> length cs < 2 ^ k \<and>
      bbits bits = bbits h @ msb_bits (length cs) k @ p @ rest \<and>
      writes (appendContent cs m) (decode_mode m) cs p
    else contentBits cs l m h = Inl (Err ''Content too large'')"
proof -
  let ?n = "bits_needed (length (bbits h)) m (length cs)"
  obtain p where p: "writes (appendContent cs m) (decode_mode m) cs p" "length p = payload_bits m (length cs)"
    by (rule appendContent_writes[OF m])
  have ac: "appendContent cs m empty_bool_vec = Inr \<lparr>bbits = p\<rparr>"
    using p(1) by (simp add: writes_def)
  obtain k40 where k40: "characterCountBits m 40 = Inr k40"
    "k40 = (if m = modeNumeric then 14 else if m = modeAlphanumeric then 13 else 16)"
    using m by (auto simp: characterCountBits_def mode_ok_def mode_defs)
  have n: "length (bbits h) + length p + k40 = ?n" by (simp add: bits_needed_def p(2) k40(2))
  note unf = contentBits_def ac k40(1) Let_def bindE_simps boolBitVector.simps bbits_simps(4) n
  show ?thesis
  proof (cases "int ?n \<le> 8 * dataCapacity 40 l")
    case False
    then have "chooseVersion ?n l = Inl (Err ''Content too large'')"
      by (cases rule: chooseVersion_cases[OF l, of ?n, case_names none found]) auto
    then show ?thesis using False by (simp add: unf)
  next
    case True
    then obtain v where v: "chooseVersion ?n l = Inr v" "1 \<le> v" "v \<le> 40" "int ?n \<le> 8 * dataCapacity v l"
      by (cases rule: chooseVersion_cases[OF l, of ?n, case_names none found]) auto
    obtain k where k: "characterCountBits m v = Inr k"
      "k \<le> (if m = modeNumeric then 14 else if m = modeAlphanumeric then 13 else 16)"
      by (rule characterCountBits_ok[OF v(2,3) m])
    let ?b = "bbits h @ msb_bits (length cs) k @ p"
    have kn: "length ?b \<le> ?n" using k(2) n k40(2) by simp
    then have "int (length (bbits \<lparr>bbits = ?b\<rparr>)) \<le> 8 * dataCapacity v l" using v(4) by simp
    then obtain rest where t: "appendTerminator (dataCapacity v l) \<lparr>bbits = ?b\<rparr> = Inr \<lparr>bbits = ?b @ rest\<rparr>"
      "int (length (?b @ rest)) = 8 * dataCapacity v l"
      by (rule appendTerminator_eq) auto
    have cap: "numDataCodewords v l = Inr (dataCapacity v l)"
      by (rule table_ok[OF v(2,3) l])
    have hb: "boolBitVector_AppendBits (boolBitVector_Append (boolBitVector_AppendBits empty_bool_vec h)
        (length cs) k) \<lparr>bbits = p\<rparr> = \<lparr>bbits = ?b\<rparr>"
      by (rule boolBitVector.equality) simp_all
    have "contentBits cs l m h = Inr (\<lparr>bbits = ?b @ rest\<rparr>, v)"
      using v(1) k(1) cap t(1) by (simp add: unf hb)
    moreover have "length cs < 2 ^ k"
      using count_fits[OF l v(2,3) m k(1)] v(4) by (simp add: bits_needed_def)
    ultimately show ?thesis
      unfolding if_P[OF True] using v(2,3) k(1) p(1) t(2)
      by (intro exI[of _ "\<lparr>bbits = ?b @ rest\<rparr>"] exI[of _ v] exI[of _ k] exI[of _ p] exI[of _ rest]) simp
  qed
qed

lemma decode_segment_ok:
  assumes "mode_ok m cs" "characterCountBits m v = Inr k" "length cs < 2 ^ k"
    and "writes (appendContent cs m) (decode_mode m) cs p"
  shows "decode_segment v (msb_bits m 4 @ msb_bits (length cs) k @ p @ rest) = Some cs"
proof -
  have "m < 2 ^ 4" using assms(1) by (auto simp: mode_ok_def mode_defs)
  then have "bits_val (msb_bits m 4) = m" "bits_val (msb_bits (length cs) k) = length cs"
    using assms(3) by (auto simp: bits_val_msb_bits_small)
  moreover have "decode_mode m (length cs) (p @ rest) = cs" using assms(4) by (simp add: writes_def)
  ultimately show ?thesis using assms(1,2)
    by (auto simp: decode_segment_def decode_mode_def mode_ok_def mode_defs)
qed

lemma stringContentBits_ok:
  assumes "supportedECLevel l"
  shows "if int (bits_needed (if getMode s = modeByte then 16 else 4) (getMode s) (length s)) \<le> 8 * dataCapacity 40 l
    then \<exists>bits v. stringContentBits s l = Inr (bits, v) \<and> 1 \<le> v \<and> v \<le> 40 \<and>
      int (boolBitVector_Length bits) = 8 * dataCapacity v l \<and>
      decode_bits v (bbits bits) = Some (bytes_of s)
    else stringContentBits s l = Inl (Err ''Content too large'')"
proof -
  let ?m = "getMode s"
  let ?h = "boolBitVector_Append (if ?m = modeByte
    then boolBitVector_Append (boolBitVector_Append empty_bool_vec modeECI 4) 26 8 else empty_bool_vec) ?m 4"
  have str: "stringContentBits s l = contentBits (bytes_of s) l ?m ?h"
    using assms by (simp add: stringContentBits_def Let_def)
  have len: "length (bbits ?h) = (if ?m = modeByte then 16 else 4)" by simp
  have seg: "decode_bits v (bbits ?h @ msb_bits (length s) k @ p @ rest) = Some (bytes_of s)"
    if "characterCountBits ?m v = Inr k" "length s < 2 ^ k"
      "writes (appendContent (bytes_of s) ?m) (decode_mode ?m) (bytes_of s) p" for v k p rest
  proof -
    have d: "decode_segment v (msb_bits ?m 4 @ msb_bits (length s) k @ p @ rest) = Some (bytes_of s)"
      using decode_segment_ok[OF getMode_ok that(1) _ that(3)] that(2) by simp
    show ?thesis
    proof (cases "?m = modeByte")
      case True
      then show ?thesis using d
        by (simp add: decode_bits_def bits_val_msb_bits_small mode_defs)
    next
      case False
      then have "?m < 2 ^ 4" "?m \<noteq> modeECI"
        using getMode_ok[of s] by (auto simp: mode_ok_def mode_defs)
      then show ?thesis using d False by (simp add: decode_bits_def bits_val_msb_bits_small)
    qed
  qed
  show ?thesis
    using contentBits_ok[OF assms getMode_ok[of s], where h = ?h] seg unfolding str len by (auto split: if_splits)
qed

lemma binaryContentBits_ok:
  assumes "supportedECLevel l"
  shows "if int (20 + 8 * length cs) \<le> 8 * dataCapacity 40 l
    then \<exists>bits v. binaryContentBits cs l = Inr (bits, v) \<and> 1 \<le> v \<and> v \<le> 40 \<and>
      int (boolBitVector_Length bits) = 8 * dataCapacity v l \<and> decode_bits v (bbits bits) = Some cs
    else binaryContentBits cs l = Inl (Err ''Content too large'')"
proof -
  let ?h = "boolBitVector_Append empty_bool_vec modeByte 4"
  have m: "mode_ok modeByte cs" by (simp add: mode_ok_def)
  have n: "bits_needed (length (bbits ?h)) modeByte (length cs) = 20 + 8 * length cs"
    by (simp add: bits_needed_def payload_bits_def mode_defs)
  have seg: "decode_bits v (bbits ?h @ msb_bits (length cs) k @ p @ rest) = Some cs"
    if "characterCountBits modeByte v = Inr k" "length cs < 2 ^ k"
      "writes (appendContent cs modeByte) (decode_mode modeByte) cs p" for v k p rest
    using decode_segment_ok[OF m that] by (simp add: decode_bits_def bits_val_msb_bits_small mode_defs)
  have "binaryContentBits cs l = contentBits cs l modeByte ?h"
    using assms by (simp add: binaryContentBits_def)
  then show ?thesis
    using contentBits_ok[OF assms m, where h = ?h] seg unfolding n by (auto split: if_splits)
qed

text \<open>the bits of a string are decoded to the string. At a supported level, if the header,
  the count and the characters fit version 40, the bits fill the data codewords of some version
  exactly, and reading them by the rules of the standard gives the bytes of the string back; no
  panic is reachable and the character count is never truncated. Otherwise the error
  \<open>Content too large\<close> is returned.\<close>

theorem stringContentBits_decodes:
  assumes "supportedECLevel l"
  shows "if int (bits_needed (if getMode s = modeByte then 16 else 4) (getMode s) (length s)) \<le> 8 * dataCapacity 40 l
    then \<exists>bits v. stringContentBits s l = Inr (bits, v) \<and> 1 \<le> v \<and> v \<le> 40 \<and>
      int (boolBitVector_Length bits) = 8 * dataCapacity v l \<and>
      decode_bits v (bbits bits) = Some (bytes_of s)
    else stringContentBits s l = Inl (Err ''Content too large'')"
  using stringContentBits_ok[OF assms] .

theorem stringContentBits_decodes_witness:
  "if int (bits_needed (if getMode ''AC-42'' = modeByte then 16 else 4) (getMode ''AC-42'') (length ''AC-42''))
      \<le> 8 * dataCapacity 40 ECLevelH
    then \<exists>bits v. stringContentBits ''AC-42'' ECLevelH = Inr (bits, v) \<and> 1 \<le> v \<and> v \<le> 40 \<and>
      int (boolBitVector_Length bits) = 8 * dataCapacity v ECLevelH \<and>
      decode_bits v (bbits bits) = Some (bytes_of ''AC-42'')
    else stringContentBits ''AC-42'' ECLevelH = Inl (Err ''Content too large'')"
  by (rule stringContentBits_decodes) (simp add: supportedECLevel_def)

text \<open>the same for a byte sequence, whatever bytes it has.\<close>

theorem binaryContentBits_decodes:
  assumes "supportedECLevel l"
  shows "if int (20 + 8 * length cs) \<le> 8 * dataCapacity 40 l
    then \<exists>bits v. binaryContentBits cs l = Inr (bits, v) \<and> 1 \<le> v \<and> v \<le> 40 \<and>
      int (boolBitVector_Length bits) = 8 * dataCapacity v l \<and> decode_bits v (bbits bits) = Some cs
    else binaryContentBits cs l = Inl (Err ''Content too large'')"
  using binaryContentBits_ok[OF assms] .

theorem binaryContentBits_decodes_witness:
  "if int (20 + 8 * length [0, 255, 7::byte]) \<le> 8 * dataCapacity 40 ECLevelM
    then \<exists>bits v. binaryContentBits [0, 255, 7] ECLevelM = Inr (bits, v) \<and> 1 \<le> v \<and> v \<le> 40 \<and>
      int (boolBitVector_Length bits) = 8 * dataCapacity v ECLevelM \<and>
      decode_bits v (bbits bits) = Some [0, 255, 7]
    else binaryContentBits [0, 255, 7] ECLevelM = Inl (Err ''Content too large'')"
  by (rule binaryContentBits_decodes) (simp add: supportedECLevel_def)

end
