(* ===== verification/Interleave.thy ===== *)
theory Interleave
  imports GFPoly Content "HOL-Library.Multiset"
begin

text \<open>
  The final codeword sequence of a QR code: \<open>interleaveWithECBytes\<close> of errorcorrection.go
  splits the data bits into blocks, computes the error correction bytes of each block and
  writes the bytes of all blocks column by column, data first.
\<close>

section \<open>The operations\<close>

text \<open>Eight bits of the vector as a byte, the body of the innermost loop.\<close>

definition or_bits :: "bool \<Rightarrow> bool \<Rightarrow> bool \<Rightarrow> bool \<Rightarrow> bool \<Rightarrow> bool \<Rightarrow> bool \<Rightarrow> bool \<Rightarrow> byte" where
  "or_bits b7 b6 b5 b4 b3 b2 b1 b0 =
     ((((((((0 OR (if b7 then 128 else 0)) OR (if b6 then 64 else 0)) OR (if b5 then 32 else 0))
       OR (if b4 then 16 else 0)) OR (if b3 then 8 else 0)) OR (if b2 then 4 else 0))
       OR (if b1 then 2 else 0)) OR (if b0 then 1 else 0))"

definition data_byte :: "boolBitVector \<Rightarrow> nat \<Rightarrow> byte go" where
  "data_byte bits p =
     bindE (boolBitVector_Get bits p) (\<lambda>b7.
     bindE (boolBitVector_Get bits (p + 1)) (\<lambda>b6.
     bindE (boolBitVector_Get bits (p + 2)) (\<lambda>b5.
     bindE (boolBitVector_Get bits (p + 3)) (\<lambda>b4.
     bindE (boolBitVector_Get bits (p + 4)) (\<lambda>b3.
     bindE (boolBitVector_Get bits (p + 5)) (\<lambda>b2.
     bindE (boolBitVector_Get bits (p + 6)) (\<lambda>b1.
     bindE (boolBitVector_Get bits (p + 7)) (\<lambda>b0.
     Inr (or_bits b7 b6 b5 b4 b3 b2 b1 b0)))))))))"

record block_state =
  dataBytesOffset :: nat
  maxNumDataBytes :: nat
  maxNumEcBytes :: nat
  doneBlocks :: "blockPair list"
  cachedGenerators :: "gfPoly list"

definition block_step ::
  "boolBitVector \<Rightarrow> int \<Rightarrow> int \<Rightarrow> int \<Rightarrow> block_state \<Rightarrow> nat \<Rightarrow> block_state go" where
  "block_step bits numTotalBytes numDataBytes numRSBlocks s i =
     bindE (getBlockSizes numTotalBytes numDataBytes numRSBlocks (int i)) (\<lambda>(nd, ne).
     if nd < 0 \<or> ne < 0 then Inl (Panic ''makeslice: len out of range'')
     else
       bindE (mapE (\<lambda>j. data_byte bits (8 * (dataBytesOffset s + j))) [0..<nat nd]) (\<lambda>ds.
       bindE (generateECBytes (cachedGenerators s) \<lparr>dataBytes = ds, ecBytes = replicate (nat ne) 0\<rparr>)
         (\<lambda>(b, cache).
       Inr \<lparr>dataBytesOffset = dataBytesOffset s + nat nd,
            maxNumDataBytes = (if nat nd > maxNumDataBytes s then nat nd else maxNumDataBytes s),
            maxNumEcBytes = (if nat ne > maxNumEcBytes s then nat ne else maxNumEcBytes s),
            doneBlocks = doneBlocks s @ [b], cachedGenerators = cache\<rparr>)))"

definition append_column :: "(blockPair \<Rightarrow> byte list) \<Rightarrow> blockPair list \<Rightarrow> boolBitVector \<Rightarrow> nat \<Rightarrow> boolBitVector" where
  "append_column f bs result i =
     foldl (\<lambda>v b. if i < length (f b) then boolBitVector_Append v (unat (f b ! i)) 8 else v) result bs"

definition interleaveWithECBytes ::
  "gfPoly list \<Rightarrow> boolBitVector \<Rightarrow> versionNumber \<Rightarrow> ECLevel \<Rightarrow> (boolBitVector \<times> gfPoly list) go" where
  "interleaveWithECBytes cache bits version ecLevel =
     bindE (totalCodewords version) (\<lambda>numTotalBytes.
     bindE (numDataCodewords version ecLevel) (\<lambda>numDataBytes.
     bindE (ecBlocks_at version ecLevel) (\<lambda>e.
     let numRSBlocks = numBlocks e in
     if int (boolBitVector_Length bits) \<noteq> numDataBytes * 8
     then Inl (Panic ''bits.Length() != numDataBytes*8'')
     else if numRSBlocks < 0 then Inl (Panic ''makeslice: len out of range'')
     else
       bindE (foldE (block_step bits numTotalBytes numDataBytes numRSBlocks)
                \<lparr>dataBytesOffset = 0, maxNumDataBytes = 0, maxNumEcBytes = 0, doneBlocks = [],
                 cachedGenerators = cache\<rparr> [0..<nat numRSBlocks]) (\<lambda>s.
       if numDataBytes \<noteq> int (dataBytesOffset s) then Inl (Panic ''numDataBytes != dataBytesOffset'')
       else let result = foldl (append_column dataBytes (doneBlocks s)) empty_bool_vec [0..<maxNumDataBytes s];
                result = foldl (append_column ecBytes (doneBlocks s)) result [0..<maxNumEcBytes s]
            in if int (boolBitVector_Length result) \<noteq> numTotalBytes * 8
               then Inl (Panic ''result.Length() != numTotalBytes*8'')
               else Inr (result, cachedGenerators s)))))"

section \<open>Bytes and bits\<close>

definition byte_bits :: "byte \<Rightarrow> bool list" where
  "byte_bits w = msb_bits (unat w) 8"

lemma length_byte_bits [simp]: "length (byte_bits w) = 8"
  by (simp add: byte_bits_def)

lemma length_concat_byte_bits [simp]: "length (concat (map byte_bits ws)) = 8 * length ws"
  by (induction ws) simp_all

lemma byte_bits_expand: "byte_bits w = [bit w 7, bit w 6, bit w 5, bit w 4, bit w 3, bit w 2, bit w 1, bit w 0]"
  by (simp add: byte_bits_def msb_bits_def upt_rec bit_simps eval_nat_numeral)

lemma bit_if_0: "bit (if b then x else 0) n = (b \<and> bit x n)"
  by simp

lemma byte_of_bits: "byte_bits (or_bits b7 b6 b5 b4 b3 b2 b1 b0) = [b7, b6, b5, b4, b3, b2, b1, b0]"
  unfolding or_bits_def byte_bits_expand bit_or_iff bit_if_0 by simp

lemma data_byte_ok:
  assumes "p + 8 \<le> length (bbits bits)"
  obtains w where "data_byte bits p = Inr w" "byte_bits w = take 8 (drop p (bbits bits))"
proof -
  let ?b = "bbits bits"
  have g: "boolBitVector_Get bits (p + i) = Inr (?b ! (p + i))" if "i < 8" for i
    using that assms by (simp add: boolBitVector_Get_def nat_add_distrib)
  have "take 8 (drop p ?b) = map (\<lambda>i. ?b ! (p + i)) [0, 1, 2, 3, 4, 5, 6, 7]"
    using assms by (intro nth_equalityI) (auto simp: nth_Cons' less_Suc_eq numeral_eq_Suc)
  then show ?thesis
    using g[of 0] g[of 1] g[of 2] g[of 3] g[of 4] g[of 5] g[of 6] g[of 7] that
    by (simp add: data_byte_def byte_of_bits)
qed

lemma read_data_bytes:
  assumes "8 * (k + n) \<le> length (bbits bits)"
  obtains ds where "mapE (\<lambda>j. data_byte bits (8 * (k + j))) [0..<n] = Inr ds" "length ds = n"
    "concat (map byte_bits ds) = take (8 * n) (drop (8 * k) (bbits bits))"
proof -
  let ?g = "\<lambda>j. projr (data_byte bits (8 * (k + j)))"
  have b: "data_byte bits (8 * (k + j)) = Inr (?g j) \<and>
      byte_bits (?g j) = take 8 (drop (8 * (k + j)) (bbits bits))" if "j < n" for j
  proof -
    have "8 * (k + Suc j) \<le> 8 * (k + n)" using that by simp
    then have "8 * (k + j) + 8 \<le> length (bbits bits)" using assms by simp
    then obtain w where "data_byte bits (8 * (k + j)) = Inr w"
      "byte_bits w = take 8 (drop (8 * (k + j)) (bbits bits))" by (rule data_byte_ok)
    then show ?thesis by simp
  qed
  have "concat (map (\<lambda>j. byte_bits (?g j)) [0..<m]) = take (8 * m) (drop (8 * k) (bbits bits))"
    if "m \<le> n" for m
    using that
  proof (induction m)
    case 0
    then show ?case by simp
  next
    case (Suc m)
    have "take (8 * Suc m) (drop (8 * k) (bbits bits)) =
        take (8 * m) (drop (8 * k) (bbits bits)) @ take 8 (drop (8 * (k + m)) (bbits bits))"
      using take_add[of "8 * m" 8 "drop (8 * k) (bbits bits)"] by (simp add: algebra_simps)
    then show ?case using Suc b[of m] by simp
  qed
  from this[of n] show ?thesis
    using that[of "map ?g [0..<n]"] mapE_total[of "[0..<n]" "\<lambda>j. data_byte bits (8 * (k + j))" ?g] b
    by (simp add: comp_def)
qed

section \<open>Columns\<close>

text \<open>The interleaved order: the first bytes of all lists, then the second bytes, and so on.\<close>

definition columns :: "'a list list \<Rightarrow> nat \<Rightarrow> 'a list" where
  "columns ls m = concat (map (\<lambda>i. map (\<lambda>l. l ! i) (filter (\<lambda>l. i < length l) ls)) [0..<m])"

lemma append_column_bits:
  "bbits (append_column f bs v i) =
   bbits v @ concat (map byte_bits (map (\<lambda>l. l ! i) (filter (\<lambda>l. i < length l) (map f bs))))"
  unfolding append_column_def by (induction bs arbitrary: v) (simp_all add: byte_bits_def)

lemma append_columns_bits:
  "bbits (foldl (append_column f bs) v [0..<m]) =
   bbits v @ concat (map byte_bits (columns (map f bs) m))"
  by (induction m) (simp_all add: columns_def append_column_bits)

lemma mset_concat_append:
  "mset (concat (map (\<lambda>i. f i @ g i) xs)) = mset (concat (map f xs)) + mset (concat (map g xs))"
  by (induction xs) simp_all

lemma concat_indices: "length l \<le> m \<Longrightarrow> concat (map (\<lambda>i. if i < length l then [l ! i] else []) [0..<m]) = l"
proof (induction m)
  case 0
  then show ?case by simp
next
  case (Suc m)
  show ?case
  proof (cases "length l \<le> m")
    case True
    then show ?thesis using Suc by simp
  next
    case False
    then have "length l = Suc m" using Suc.prems by simp
    then have "map (\<lambda>i. if i < length l then [l ! i] else []) [0..<Suc m] = map (\<lambda>i. [l ! i]) [0..<Suc m]"
      using \<open>length l = Suc m\<close> by (intro map_cong refl) (simp del: upt_Suc)
    then have "concat (map (\<lambda>i. if i < length l then [l ! i] else []) [0..<Suc m]) = map ((!) l) [0..<Suc m]"
      by (simp only: concat_map_singleton)
    then show ?thesis using \<open>length l = Suc m\<close> by (metis map_nth)
  qed
qed

lemma mset_columns:
  assumes "\<forall>l\<in>set ls. length l \<le> m"
  shows "mset (columns ls m) = mset (concat ls)"
  using assms
proof (induction ls)
  case Nil
  then show ?case by (simp add: columns_def)
next
  case (Cons l ls)
  have "columns (l # ls) m = concat (map (\<lambda>i. (if i < length l then [l ! i] else []) @
      map (\<lambda>l. l ! i) (filter (\<lambda>l. i < length l) ls)) [0..<m])"
    unfolding columns_def by (rule arg_cong[where f = concat], rule map_cong) simp_all
  then have "mset (columns (l # ls) m) = mset l + mset (columns ls m)"
    using Cons.prems by (simp add: mset_concat_append concat_indices columns_def)
  then show ?case using Cons by simp
qed

lemma length_columns: "\<forall>l\<in>set ls. length l \<le> m \<Longrightarrow> length (columns ls m) = length (concat ls)"
  using mset_columns by (metis size_mset)

definition longest :: "'a list list \<Rightarrow> nat" where
  "longest ls = foldr (\<lambda>l. max (length l)) ls 0"

definition interleaved :: "'a list list \<Rightarrow> 'a list" where
  "interleaved ls = columns ls (longest ls)"

lemma longest_ge: "l \<in> set ls \<Longrightarrow> length l \<le> longest ls"
  unfolding longest_def by (induction ls) auto

lemma longest_le: "\<forall>l\<in>set ls. length l \<le> m \<Longrightarrow> longest ls \<le> m"
  unfolding longest_def by (induction ls) auto

lemma columns_interleaved:
  assumes "\<forall>l\<in>set ls. length l \<le> m"
  shows "columns ls m = interleaved ls"
proof -
  have "columns ls (longest ls + n) = interleaved ls" for n
  proof (induction n)
    case (Suc n)
    have "filter (\<lambda>l. longest ls + n < length l) ls = []"
      using longest_ge[of _ ls] by (fastforce simp: filter_empty_conv)
    then show ?case using Suc by (simp add: columns_def)
  qed (simp add: interleaved_def)
  from this[of "m - longest ls"] show ?thesis using longest_le[OF assms] by simp
qed

lemma mset_interleaved: "mset (interleaved ls) = mset (concat ls)"
  unfolding interleaved_def by (rule mset_columns) (simp add: longest_ge)

section \<open>The loop over the blocks\<close>

text \<open>A block of \<open>w\<close> error correction bytes is a codeword of the Reed-Solomon code.\<close>

definition codeword :: "nat \<Rightarrow> blockPair \<Rightarrow> bool" where
  "codeword w b \<longleftrightarrow> dataBytes b \<noteq> [] \<and> length (ecBytes b) = w \<and>
     (\<forall>j < w. horner fieldMult (fieldExpTable ! j) (dataBytes b @ ecBytes b) = 0)"

definition generators_ok :: "gfPoly list \<Rightarrow> bool" where
  "generators_ok cache \<longleftrightarrow> cache_ok cache \<and> length cache \<le> 257"

text \<open>The state after \<open>n\<close> blocks, of data sizes \<open>f 0\<close>, ..., \<open>f (n - 1)\<close>.\<close>

definition blocks_done :: "boolBitVector \<Rightarrow> nat \<Rightarrow> (nat \<Rightarrow> nat) \<Rightarrow> nat \<Rightarrow> block_state \<Rightarrow> bool" where
  "blocks_done bits w f n s \<longleftrightarrow>
     dataBytesOffset s = (\<Sum>i<n. f i) \<and> length (doneBlocks s) = n \<and>
     concat (map byte_bits (concat (map dataBytes (doneBlocks s)))) = take (8 * dataBytesOffset s) (bbits bits) \<and>
     (\<forall>b \<in> set (doneBlocks s). codeword w b \<and>
        length (dataBytes b) \<le> maxNumDataBytes s \<and> length (ecBytes b) \<le> maxNumEcBytes s) \<and>
     generators_ok (cachedGenerators s)"

lemma block_step_ok:
  assumes w: "0 < w" "w \<le> 256" and prev: "blocks_done bits w f n s"
    and sizes: "getBlockSizes t d k (int n) = Inr (int (f n), int w)" "1 \<le> f n"
    and room: "8 * (\<Sum>i<Suc n. f i) \<le> length (bbits bits)"
  shows "\<exists>s'. block_step bits t d k s n = Inr s' \<and> blocks_done bits w f (Suc n) s'"
proof -
  let ?o = "dataBytesOffset s"
  have "8 * (?o + f n) \<le> length (bbits bits)" using prev room by (simp add: blocks_done_def)
  then obtain ds where ds: "mapE (\<lambda>j. data_byte bits (8 * (?o + j))) [0..<f n] = Inr ds" "length ds = f n"
    "concat (map byte_bits ds) = take (8 * f n) (drop (8 * ?o) (bbits bits))"
    by (rule read_data_bytes)
  let ?b = "\<lparr>dataBytes = ds, ecBytes = replicate w 0\<rparr>"
  have "dataBytes ?b \<noteq> []" using ds(2) sizes(2) by auto
  moreover have "cache_ok (cachedGenerators s)" "length (cachedGenerators s) \<le> 257"
    using prev by (simp_all add: blocks_done_def generators_ok_def)
  ultimately obtain b cache' where b: "generateECBytes (cachedGenerators s) ?b = Inr (b, cache')"
    "dataBytes b = ds" "length (ecBytes b) = w" "cache_ok cache'" "length cache' \<le> 257"
    "\<And>j. j < w \<Longrightarrow> horner fieldMult (fieldExpTable ! j) (dataBytes b @ ecBytes b) = 0"
    using generateECBytes_ok[of "cachedGenerators s" ?b] w by auto
  have cw: "codeword w b" using b \<open>dataBytes ?b \<noteq> []\<close> by (simp add: codeword_def)
  let ?s = "\<lparr>dataBytesOffset = ?o + f n,
    maxNumDataBytes = (if f n > maxNumDataBytes s then f n else maxNumDataBytes s),
    maxNumEcBytes = (if w > maxNumEcBytes s then w else maxNumEcBytes s),
    doneBlocks = doneBlocks s @ [b], cachedGenerators = cache'\<rparr>"
  have "block_step bits t d k s n = Inr ?s"
    using sizes(1) ds(1) b(1) by (simp add: block_step_def)
  moreover have "take (8 * (?o + f n)) (bbits bits) =
      take (8 * ?o) (bbits bits) @ take (8 * f n) (drop (8 * ?o) (bbits bits))"
    using take_add[of "8 * ?o" "8 * f n"] by (simp add: algebra_simps)
  then have "blocks_done bits w f (Suc n) ?s"
    using prev cw b(2-5) ds(2,3) by (auto simp: blocks_done_def generators_ok_def)
  ultimately show ?thesis by blast
qed

lemma block_loop_ok:
  assumes w: "0 < w" "w \<le> 256" and start: "blocks_done bits w f 0 s"
    and sizes: "\<And>i. i < k \<Longrightarrow> getBlockSizes t d k' (int i) = Inr (int (f i), int w) \<and> 1 \<le> f i"
    and room: "8 * (\<Sum>i<k. f i) \<le> length (bbits bits)" and "n \<le> k"
  shows "\<exists>s'. foldE (block_step bits t d k') s [0..<n] = Inr s' \<and> blocks_done bits w f n s'"
  using \<open>n \<le> k\<close>
proof (induction n)
  case 0
  then show ?case using start by simp
next
  case (Suc n)
  then obtain s' where s': "foldE (block_step bits t d k') s [0..<n] = Inr s'" "blocks_done bits w f n s'"
    by auto
  have "(\<Sum>i<Suc n. f i) \<le> (\<Sum>i<k. f i)" using Suc.prems by (intro sum_mono2) auto
  then have "8 * (\<Sum>i<Suc n. f i) \<le> length (bbits bits)" using room by linarith
  then show ?case
    using block_step_ok[OF w s'(2)] sizes[of n] Suc.prems s'(1) by (auto simp: foldE_append)
qed

lemma block_sizes_nat:
  assumes "0 < k" "k \<le> d" "t = d + k * n" "0 \<le> n"
  obtains f where "(\<Sum>i<nat k. f i) = nat d"
    "\<And>i. i < nat k \<Longrightarrow> getBlockSizes t d k (int i) = Inr (int (f i), n) \<and> 1 \<le> f i"
proof -
  define g where "g i = (if i < k - d mod k then d div k else d div k + 1)" for i
  have pos: "1 \<le> d div k" using pos_imp_zdiv_pos_iff[of k d] assms(1,2) by linarith
  then have g1: "1 \<le> g i" for i by (simp add: g_def)
  then have int_nat: "int (nat (g i)) = g i" for i by (metis int_nat_eq order_trans zero_le_one)
  have img: "{0..<k} = int ` {..<nat k}"
    using image_int_atLeastLessThan[of 0 "nat k"] assms(1) by (simp add: atLeast0LessThan)
  have "(\<Sum>i<nat k. g (int i)) = (\<Sum>i\<in>{0..<k}. g i)"
    unfolding img by (simp add: sum.reindex)
  also have "\<dots> = d" using sum_block_sizes[OF assms(1), of d] assms unfolding g_def by simp
  finally have "int (\<Sum>i<nat k. nat (g (int i))) = d" by (simp only: of_nat_sum int_nat)
  then have sum: "(\<Sum>i<nat k. nat (g (int i))) = nat d" by (metis nat_int)
  have size: "getBlockSizes t d k (int i) = Inr (int (nat (g (int i))), n) \<and> 1 \<le> nat (g (int i))"
    if "i < nat k" for i
  proof -
    have "getBlockSizes t d k (int i) = Inr (g (int i), n)"
      unfolding g_def by (rule getBlockSizes_ok[OF assms]) (use that in simp)
    then show ?thesis using g1[of "int i"] int_nat by simp
  qed
  from that[OF sum size] show ?thesis .
qed

section \<open>The whole sequence\<close>

lemma interleaveWithECBytes_ok:
  assumes v: "1 \<le> v" "v \<le> 40" and l: "supportedECLevel l"
    and bits: "int (boolBitVector_Length bits) = 8 * dataCapacity v l" and gen: "generators_ok cache"
  obtains out cache' e w bs t where
    "interleaveWithECBytes cache bits v l = Inr (out, cache')" "generators_ok cache'"
    "ecBlocks_at v l = Inr e" "int w = codewordsPerBlock e" "int (length bs) = numBlocks e"
    "list_all (codeword w) bs"
    "concat (map byte_bits (concat (map dataBytes bs))) = bbits bits"
    "bbits out = concat (map byte_bits (interleaved (map dataBytes bs) @ interleaved (map ecBytes bs)))"
    "totalCodewords v = Inr t" "int (length (bbits out)) = 8 * t"
proof -
  obtain e t where e: "ecBlocks_at v l = Inr e" "totalCodewords v = Inr t"
    "numDataCodewords v l = Inr (dataCapacity v l)" "dataCapacity v l = t - totalECCodewords e"
    "entry_ok (dataCapacity v l) e"
    using table_ok[OF v l] .
  let ?d = "dataCapacity v l" and ?k = "numBlocks e" and ?w = "nat (codewordsPerBlock e)"
  have k: "0 < ?k" "?k \<le> ?d" "1 \<le> codewordsPerBlock e" "codewordsPerBlock e \<le> 30"
    using e(5) by (auto simp: entry_ok_def)
  have t: "t = ?d + ?k * codewordsPerBlock e" using e(4) by (simp add: totalECCodewords_def)
  have w: "0 < ?w" "?w \<le> 256" "int ?w = codewordsPerBlock e" using k by simp_all
  from block_sizes_nat[OF k(1,2) t] k(3) obtain f where f: "(\<Sum>i<nat ?k. f i) = nat ?d"
    "\<And>i. i < nat ?k \<Longrightarrow> getBlockSizes t ?d ?k (int i) = Inr (int (f i), int ?w) \<and> 1 \<le> f i"
    using w(3) by auto
  let ?s0 = "\<lparr>dataBytesOffset = 0, maxNumDataBytes = 0, maxNumEcBytes = 0, doneBlocks = [],
    cachedGenerators = cache\<rparr>"
  have start: "blocks_done bits ?w f 0 ?s0" using gen by (simp add: blocks_done_def)
  have len: "length (bbits bits) = 8 * nat ?d" using bits by simp
  then have room: "8 * (\<Sum>i<nat ?k. f i) \<le> length (bbits bits)" using f(1) by simp
  obtain s where s: "foldE (block_step bits t ?d ?k) ?s0 [0..<nat ?k] = Inr s"
    "blocks_done bits ?w f (nat ?k) s"
    using block_loop_ok[OF w(1,2) start f(2) room order_refl] by auto
  let ?bs = "doneBlocks s"
  have off: "dataBytesOffset s = nat ?d" using s(2) f(1) by (simp add: blocks_done_def)
  have le: "\<forall>b \<in> set ?bs. length (dataBytes b) \<le> maxNumDataBytes s \<and> length (ecBytes b) \<le> maxNumEcBytes s"
    using s(2) by (simp add: blocks_done_def)
  let ?cols = "interleaved (map dataBytes ?bs) @ interleaved (map ecBytes ?bs)"
  let ?out = "foldl (append_column ecBytes ?bs)
    (foldl (append_column dataBytes ?bs) empty_bool_vec [0..<maxNumDataBytes s]) [0..<maxNumEcBytes s]"
  have out: "bbits ?out = concat (map byte_bits ?cols)" 
    using le by (simp add: append_columns_bits columns_interleaved)
  have data: "concat (map byte_bits (concat (map dataBytes ?bs))) = bbits bits"
    using s(2) off len by (simp add: blocks_done_def)
  have dlen: "length (concat (map dataBytes ?bs)) = nat ?d"
    using arg_cong[OF data, of length] len by simp
  have ecs: "\<forall>b \<in> set ?bs. length (ecBytes b) = ?w" and nb: "length ?bs = nat ?k"
    using s(2) by (auto simp: blocks_done_def codeword_def)
  have ec_len: "length (concat (map ecBytes bs)) = length bs * ?w" if "\<forall>b \<in> set bs. length (ecBytes b) = ?w" for bs
    using that by (induction bs) simp_all
  have "length (concat (map ecBytes ?bs)) = nat ?k * ?w" unfolding ec_len[OF ecs] nb ..
  moreover have "length (interleaved ls) = length (concat ls)" for ls :: "byte list list"
    using mset_interleaved by (metis size_mset)
  moreover note dlen
  ultimately have "length (bbits ?out) = 8 * (nat ?d + nat ?k * ?w)" unfolding out by simp
  moreover have "0 \<le> ?d" "0 \<le> ?k" using k by linarith+
  ultimately have olen: "int (length (bbits ?out)) = 8 * t" using w(3) t by (simp add: algebra_simps)
  have run: "interleaveWithECBytes cache bits v l = Inr (?out, cachedGenerators s)"
    using e(1-3) bits s(1) off olen k by (simp add: interleaveWithECBytes_def Let_def mult.commute)
  show ?thesis
  proof (rule that[OF run _ e(1) w(3) _ _ data _ e(2) olen])
    show "generators_ok (cachedGenerators s)" using s(2) by (simp add: blocks_done_def)
    show "int (length ?bs) = ?k" using nb k(1) by simp
    show "list_all (codeword ?w) ?bs" using s(2) by (simp add: blocks_done_def list_all_iff)
    show "bbits ?out = concat (map byte_bits ?cols)" by (rule out)
  qed
qed

text \<open>for every version and supported level, on bits that fill the data codewords, the
  interleaving returns. The data is cut into as many blocks as the table says, in order and
  without loss; each block with its error correction bytes is a codeword of the Reed-Solomon
  code; and the result consists of the data bytes column by column followed by the error
  correction bytes column by column, each byte of each block exactly once.\<close>

theorem interleaveWithECBytes_codewords:
  assumes "1 \<le> v" and "v \<le> 40" and "supportedECLevel l"
    and "int (boolBitVector_Length bits) = 8 * dataCapacity v l" and "generators_ok cache"
  shows "\<exists>out cache' bs w e t. interleaveWithECBytes cache bits v l = Inr (out, cache') \<and>
    generators_ok cache' \<and> ecBlocks_at v l = Inr e \<and>
    int w = codewordsPerBlock e \<and> int (length bs) = numBlocks e \<and> list_all (codeword w) bs \<and>
    concat (map byte_bits (concat (map dataBytes bs))) = bbits bits \<and>
    bbits out = concat (map byte_bits (interleaved (map dataBytes bs) @ interleaved (map ecBytes bs))) \<and>
    mset (interleaved (map dataBytes bs)) = mset (concat (map dataBytes bs)) \<and>
    mset (interleaved (map ecBytes bs)) = mset (concat (map ecBytes bs)) \<and>
    totalCodewords v = Inr t \<and> int (boolBitVector_Length out) = 8 * t"
proof -
  obtain out cache' e w bs t where
    "interleaveWithECBytes cache bits v l = Inr (out, cache')" "generators_ok cache'"
    "ecBlocks_at v l = Inr e" "int w = codewordsPerBlock e" "int (length bs) = numBlocks e"
    "list_all (codeword w) bs"
    "concat (map byte_bits (concat (map dataBytes bs))) = bbits bits"
    "bbits out = concat (map byte_bits (interleaved (map dataBytes bs) @ interleaved (map ecBytes bs)))"
    "totalCodewords v = Inr t" "int (length (bbits out)) = 8 * t"
    by (rule interleaveWithECBytes_ok[OF assms])
  then show ?thesis
    by (intro exI[of _ out] exI[of _ cache'] exI[of _ bs] exI[of _ w] exI[of _ e] exI[of _ t])
      (simp add: mset_interleaved)
qed

theorem interleaveWithECBytes_codewords_witness:
  "\<exists>out cache' bs w e t.
    interleaveWithECBytes initialGenerators \<lparr>bbits = replicate 128 True\<rparr> 1 ECLevelM = Inr (out, cache') \<and>
    generators_ok cache' \<and> ecBlocks_at 1 ECLevelM = Inr e \<and>
    int w = codewordsPerBlock e \<and> int (length bs) = numBlocks e \<and> list_all (codeword w) bs \<and>
    concat (map byte_bits (concat (map dataBytes bs))) = bbits \<lparr>bbits = replicate 128 True\<rparr> \<and>
    bbits out = concat (map byte_bits (interleaved (map dataBytes bs) @ interleaved (map ecBytes bs))) \<and>
    mset (interleaved (map dataBytes bs)) = mset (concat (map dataBytes bs)) \<and>
    mset (interleaved (map ecBytes bs)) = mset (concat (map ecBytes bs)) \<and>
    totalCodewords 1 = Inr t \<and> int (boolBitVector_Length out) = 8 * t"
proof (rule interleaveWithECBytes_codewords)
  show "int (boolBitVector_Length \<lparr>bbits = replicate 128 True\<rparr>) = 8 * dataCapacity 1 ECLevelM"
    by (simp add: dataCapacity_def capacities_def ECLevel_defs)
  show "generators_ok initialGenerators"
    using cache_ok_initial by (simp add: generators_ok_def) (simp add: initialGenerators_def)
qed (simp_all add: supportedECLevel_def)

end
