(* ===== verification/Encode.thy ===== *)
theory Encode
  imports Penalty Interleave
begin

text \<open>
  The entry points of the QR encoder, encode.go, with the package state that they share (the
  cached generators): from the content to the finished symbol, and back by a reference reader.
  The text and picture of a grid, bits.go, are here too.
\<close>

section \<open>The operations\<close>

text \<open>\<open>encode\<close> draws the grid for the best mask once more after the search.\<close>

definition encode ::
  "gfPoly list \<Rightarrow> boolBitVector \<Rightarrow> versionNumber \<Rightarrow> ECLevel \<Rightarrow> (boolBitGrid \<times> gfPoly list) go" where
  "encode cache bv version ecLevel =
     bindE (interleaveWithECBytes cache bv version ecLevel) (\<lambda>(bv, cache).
     let grid = newBoolBitGrid (dimension version) (dimension version) in
     bindE (bestMaskPattern bv version ecLevel grid) (\<lambda>(maskPattern, grid).
     bindE (buildGrid bv version ecLevel maskPattern grid) (\<lambda>grid.
     Inr (grid, cache))))"

definition Encode :: "gfPoly list \<Rightarrow> string \<Rightarrow> ECLevel \<Rightarrow> (boolBitGrid \<times> gfPoly list) go" where
  "Encode cache content ecLevel =
     bindE (stringContentBits content ecLevel) (\<lambda>(contentbits, version). encode cache contentbits version ecLevel)"

definition EncodeBytes :: "gfPoly list \<Rightarrow> byte list \<Rightarrow> ECLevel \<Rightarrow> (boolBitGrid \<times> gfPoly list) go" where
  "EncodeBytes cache content ecLevel =
     bindE (binaryContentBits content ecLevel) (\<lambda>(contentbits, version). encode cache contentbits version ecLevel)"

section \<open>Reading a symbol\<close>

text \<open>A symbol shows a content when a reader can recover it: the size gives the version, the
  type information the level and the mask, the data cells the codewords, the codewords the
  blocks, each of them free of errors, and the data of the blocks the content.\<close>

definition shows_content :: "boolBitGrid \<Rightarrow> ECLevel \<Rightarrow> byte list \<Rightarrow> bool" where
  "shows_content g l content \<longleftrightarrow> (\<exists>v k t e w bs rest.
     1 \<le> v \<and> v \<le> 40 \<and> grid_ok (dimension v) g \<and>
     list_all (\<lambda>(x, y). boolBitGrid_Empty g x y = Inr False)
       (List.product [0..dimension v - 1] [0..dimension v - 1]) \<and>
     0 \<le> k \<and> k \<le> 7 \<and> type_word (push_bit 3 l OR k) = Inr t \<and> read_type g = Inr (map (bit t) [0..<15]) \<and>
     ecBlocks_at v l = Inr e \<and> int w = codewordsPerBlock e \<and> int (length bs) = numBlocks e \<and>
     list_all (codeword w) bs \<and> list_all Not rest \<and>
     read_data v k g =
       Inr (concat (map byte_bits (interleaved (map dataBytes bs) @ interleaved (map ecBytes bs))) @ rest) \<and>
     decode_bits v (concat (map byte_bits (concat (map dataBytes bs)))) = Some content)"

lemma encode_ok:
  assumes v: "1 \<le> v" "v \<le> 40" and l: "supportedECLevel l"
    and bits: "int (boolBitVector_Length bv) = 8 * dataCapacity v l" "decode_bits v (bbits bv) = Some content"
    and gen: "generators_ok cache"
  obtains g cache' where "encode cache bv v l = Inr (g, cache')" "generators_ok cache'" "shows_content g l content"
proof -
  obtain out cache' e w bs t where il: "interleaveWithECBytes cache bv v l = Inr (out, cache')" "generators_ok cache'"
    "ecBlocks_at v l = Inr e" "int w = codewordsPerBlock e" "int (length bs) = numBlocks e"
    "list_all (codeword w) bs" "concat (map byte_bits (concat (map dataBytes bs))) = bbits bv"
    "bbits out = concat (map byte_bits (interleaved (map dataBytes bs) @ interleaved (map ecBytes bs)))"
    "totalCodewords v = Inr t" "int (length (bbits out)) = 8 * t"
    by (rule interleaveWithECBytes_ok[OF v l bits(1) gen])
  let ?g0 = "newBoolBitGrid (dimension v) (dimension v)"
  have g0: "grid_ok (dimension v) ?g0" using version_dimension[OF v refl] by (intro newBoolBitGrid_ok) simp
  have len: "int (boolBitVector_Length out) = 8 * t" using il(10) by (simp add: boolBitVector_Length_def)
  obtain k g1 where k: "bestMaskPattern out v l ?g0 = Inr (k, g1)" "grid_ok (dimension v) g1" "0 \<le> k" "k \<le> 7"
    by (rule bestMaskPattern_ok[OF v l il(9) len g0])
  obtain g w' rest where g: "buildGrid out v l k g1 = Inr g" "grid_ok (dimension v) g"
    "list_all (\<lambda>(x, y). boolBitGrid_Empty g x y = Inr False) (List.product [0..dimension v - 1] [0..dimension v - 1])"
    "type_word (push_bit 3 l OR k) = Inr w'" "read_type g = Inr (map (bit w') [0..<15])"
    "read_data v k g = Inr (bbits out @ rest)" "list_all Not rest"
    by (rule buildGrid_ok[OF v l k(3,4) il(9) len k(2)])
  have "encode cache bv v l = Inr (g, cache')"
    using il(1) k(1) g(1) by (simp add: encode_def)
  moreover have "shows_content g l content"
    unfolding shows_content_def
    by (rule exI[of _ v], rule exI[of _ k], rule exI[of _ w'], rule exI[of _ e], rule exI[of _ w],
        rule exI[of _ bs], rule exI[of _ rest])
      (use v k(3,4) g il bits(2) in simp)
  ultimately show ?thesis using that il(2) by blast
qed

text \<open>C9: encoding a string at a supported level never panics. If its bits fit version 40 the
  result is a symbol without empty cells that shows the bytes of the string, with error
  correction of that level; otherwise the error \<open>Content too large\<close> is returned. The shared
  generators stay correct, so that later calls are not affected.\<close>

theorem Encode_shows_content:
  assumes "supportedECLevel l" and "generators_ok cache"
  shows "if int (bits_needed (if getMode s = modeByte then 16 else 4) (getMode s) (length s)) \<le> 8 * dataCapacity 40 l
    then \<exists>g cache'. Encode cache s l = Inr (g, cache') \<and> generators_ok cache' \<and> shows_content g l (bytes_of s)
    else Encode cache s l = Inl (Err ''Content too large'')"
proof (cases "int (bits_needed (if getMode s = modeByte then 16 else 4) (getMode s) (length s)) \<le> 8 * dataCapacity 40 l")
  case True
  then obtain cb v where cb: "stringContentBits s l = Inr (cb, v)" "1 \<le> v" "v \<le> 40"
    "int (boolBitVector_Length cb) = 8 * dataCapacity v l" "decode_bits v (bbits cb) = Some (bytes_of s)"
    using stringContentBits_ok[OF assms(1), of s] by auto
  obtain g cache' where "encode cache cb v l = Inr (g, cache')" "generators_ok cache'" "shows_content g l (bytes_of s)"
    by (rule encode_ok[OF cb(2,3) assms(1) cb(4,5) assms(2)])
  then show ?thesis using True cb(1) by (auto simp: Encode_def EncodeBytes_def)
next
  case False
  then show ?thesis using stringContentBits_ok[OF assms(1), of s] by (auto simp: Encode_def)
qed

theorem Encode_shows_content_witness:
  "if int (bits_needed (if getMode ''a+b@c'' = modeByte then 16 else 4) (getMode ''a+b@c'') (length ''a+b@c''))
      \<le> 8 * dataCapacity 40 ECLevelL
    then \<exists>g cache'. Encode initialGenerators ''a+b@c'' ECLevelL = Inr (g, cache') \<and> generators_ok cache' \<and>
      shows_content g ECLevelL (bytes_of ''a+b@c'')
    else Encode initialGenerators ''a+b@c'' ECLevelL = Inl (Err ''Content too large'')"
proof (rule Encode_shows_content)
  show "supportedECLevel ECLevelL" by (simp add: supportedECLevel_def)
  show "generators_ok initialGenerators"
    using cache_ok_initial by (simp add: generators_ok_def) (simp add: initialGenerators_def)
qed

text \<open>the same for a byte sequence.\<close>

theorem EncodeBytes_shows_content:
  assumes "supportedECLevel l" and "generators_ok cache"
  shows "if int (20 + 8 * length cs) \<le> 8 * dataCapacity 40 l
    then \<exists>g cache'. EncodeBytes cache cs l = Inr (g, cache') \<and> generators_ok cache' \<and> shows_content g l cs
    else EncodeBytes cache cs l = Inl (Err ''Content too large'')"
proof (cases "int (20 + 8 * length cs) \<le> 8 * dataCapacity 40 l")
  case True
  then obtain cb v where cb: "binaryContentBits cs l = Inr (cb, v)" "1 \<le> v" "v \<le> 40"
    "int (boolBitVector_Length cb) = 8 * dataCapacity v l" "decode_bits v (bbits cb) = Some (cs)"
    using binaryContentBits_ok[OF assms(1), of cs] by auto
  obtain g cache' where "encode cache cb v l = Inr (g, cache')" "generators_ok cache'" "shows_content g l (cs)"
    by (rule encode_ok[OF cb(2,3) assms(1) cb(4,5) assms(2)])
  then show ?thesis using True cb(1) by (auto simp: Encode_def EncodeBytes_def)
next
  case False
  then show ?thesis using binaryContentBits_ok[OF assms(1), of cs] by (auto simp: EncodeBytes_def)
qed

theorem EncodeBytes_shows_content_witness:
  "if int (20 + 8 * length [1, 2, 255::byte]) \<le> 8 * dataCapacity 40 ECLevelQ
    then \<exists>g cache'. EncodeBytes initialGenerators [1, 2, 255] ECLevelQ = Inr (g, cache') \<and> generators_ok cache' \<and>
      shows_content g ECLevelQ [1, 2, 255]
    else EncodeBytes initialGenerators [1, 2, 255] ECLevelQ = Inl (Err ''Content too large'')"
proof (rule EncodeBytes_shows_content)
  show "supportedECLevel ECLevelQ" by (simp add: supportedECLevel_def)
  show "generators_ok initialGenerators"
    using cache_ok_initial by (simp add: generators_ok_def) (simp add: initialGenerators_def)
qed

end
