(* ===== verification/Raster.thy ===== *)
theory Raster
  imports Penalty
begin

text \<open>
  The text and the picture of bit vectors and grids, bits.go. The picture is an image of Go's
  standard library: a rectangle of pixels, black at first, on which a \<open>Set\<close> outside of the
  rectangle has no effect.
\<close>

section \<open>Text\<close>

definition BitVector_String :: "boolBitVector \<Rightarrow> string go" where
  "BitVector_String v =
     foldE (\<lambda>b i. bindE (boolBitVector_Get v i) (\<lambda>d. Inr (b @ (if d then ''1'' else ''0''))))
       [] [0..<boolBitVector_Length v]"

definition BitGrid_String :: "boolBitGrid \<Rightarrow> string go" where
  "BitGrid_String g =
     foldE (\<lambda>b y.
       bindE (foldE (\<lambda>b x.
           bindE (boolBitGrid_Empty g x y) (\<lambda>e.
           if e then Inr (b @ '' '')
           else bindE (boolBitGrid_Get g x y) (\<lambda>d. Inr (b @ (if d then ''#'' else ''_'')))))
         b [0..width g - 1]) (\<lambda>b. Inr (b @ ''\<newline>'')))
     [] [0..height g - 1]"

section \<open>Pictures\<close>

datatype gray = Black | White

text \<open>The bounds \<open>image.Rect(0, 0, w, h)\<close>, whose corners are swapped where they are out of order.\<close>

record raster =
  rect :: "int \<times> int \<times> int \<times> int"
  pixel :: "int \<times> int \<Rightarrow> gray"

definition NewGray16 :: "int \<Rightarrow> int \<Rightarrow> raster" where
  "NewGray16 w h = \<lparr>rect = (min 0 w, min 0 h, max 0 w, max 0 h), pixel = (\<lambda>_. Black)\<rparr>"

definition in_rect :: "raster \<Rightarrow> int \<times> int \<Rightarrow> bool" where
  "in_rect i p = (case (rect i, p) of ((x0, y0, x1, y1), (x, y)) \<Rightarrow> x0 \<le> x \<and> x < x1 \<and> y0 \<le> y \<and> y < y1)"

definition Gray16_Set :: "raster \<Rightarrow> int \<Rightarrow> int \<Rightarrow> gray \<Rightarrow> raster" where
  "Gray16_Set i x y c = (if in_rect i (x, y) then i\<lparr>pixel := (pixel i)((x, y) := c)\<rparr> else i)"

definition ImageWithMargin :: "boolBitGrid \<Rightarrow> int \<Rightarrow> int \<Rightarrow> raster go" where
  "ImageWithMargin g blockSize margin =
     (let w = blockSize * (2 * margin + width g); h = blockSize * (2 * margin + height g);
          i = NewGray16 w h;
          i = foldl (\<lambda>i y. foldl (\<lambda>i x. Gray16_Set (Gray16_Set i x y White) x (h - 1 - y) White)
                i [0..w - 1]) i [0..blockSize * margin - 1];
          i = foldl (\<lambda>i y. foldl (\<lambda>i x. Gray16_Set (Gray16_Set i x y White) (w - 1 - x) y White)
                i [0..blockSize * margin - 1]) i [blockSize * margin..h - blockSize * margin - 1]
      in foldE (\<lambda>i y. foldE (\<lambda>i x.
           let x0 = blockSize * (x + margin); y0 = blockSize * (y + margin) in
           bindE (boolBitGrid_Get g x y) (\<lambda>d.
           let c = (if d then Black else White) in
           Inr (foldl (\<lambda>i dy. foldl (\<lambda>i dx. Gray16_Set i (x0 + dx) (y0 + dy) c) i [0..blockSize - 1])
                 i [0..blockSize - 1])))
         i [0..width g - 1]) i [0..height g - 1])"

definition BitGrid_Image :: "boolBitGrid \<Rightarrow> int \<Rightarrow> raster go" where
  "BitGrid_Image g blockSize = ImageWithMargin g blockSize 4"

section \<open>Painting\<close>

text \<open>A picture after a list of assignments, the last of which counts.\<close>

definition paint :: "raster \<Rightarrow> ((int \<times> int) \<times> gray) list \<Rightarrow> raster" where
  "paint i ps = foldl (\<lambda>i (p, c). Gray16_Set i (fst p) (snd p) c) i ps"

lemma raster_paint_append: "paint i (ps @ qs) = paint (paint i ps) qs"
  by (simp add: paint_def)

lemma paint_nest:
  assumes "\<And>i x. f i x = paint i (ps x)"
  shows "foldl f i xs = paint i (concat (map ps xs))"
  by (induction xs arbitrary: i) (simp_all add: assms raster_paint_append, simp add: paint_def)

lemma Set_paint:
  "Gray16_Set i x y c = paint i [((x, y), c)]"
  "Gray16_Set (Gray16_Set i x y c) x' y' c' = paint i [((x, y), c), ((x', y'), c')]"
  by (simp_all add: paint_def)

lemma rect_paint [simp]: "rect (paint i ps) = rect i"
proof (induction ps arbitrary: i)
  case (Cons p ps)
  have "rect (Gray16_Set i x y c) = rect i" for x y c by (simp add: Gray16_Set_def)
  then show ?case using Cons by (cases p) (simp add: paint_def)
qed (simp add: paint_def)

lemma in_rect_paint [simp]: "in_rect (paint i ps) p = in_rect i p"
  by (simp add: in_rect_def)

lemma pixel_paint_out: "p \<notin> fst ` set ps \<Longrightarrow> pixel (paint i ps) p = pixel i p"
proof (induction ps arbitrary: i)
  case (Cons q ps)
  obtain x y c where q: "q = ((x, y), c)" by (metis surj_pair)
  have "pixel (Gray16_Set i x y c) p = pixel i p" using Cons.prems by (auto simp: Gray16_Set_def q)
  then show ?case using Cons by (simp add: paint_def q)
qed (simp add: paint_def)

lemma pixel_paint_in:
  assumes "in_rect i p" "(p, c) \<in> set ps" "\<And>d. (p, d) \<in> set ps \<Longrightarrow> d = c"
  shows "pixel (paint i ps) p = c"
  using assms
proof (induction ps rule: rev_induct)
  case (snoc q ps)
  obtain x y d where q: "q = ((x, y), d)" by (metis surj_pair)
  have last: "pixel (paint i (ps @ [q])) p = (if p = (x, y) then d else pixel (paint i ps) p)"
    using snoc.prems(1) by (auto simp: raster_paint_append q Set_paint(1)[symmetric] Gray16_Set_def)
  show ?case
  proof (cases "p = (x, y)")
    case True
    then show ?thesis using last snoc.prems(3)[of d] q by simp
  next
    case False
    then have "(p, c) \<in> set ps" using snoc.prems(2) q by simp
    then show ?thesis using last False snoc.IH[OF snoc.prems(1) _ snoc.prems(3)] by simp
  qed
qed simp

section \<open>The blocks of the picture\<close>

lemma in_concat_map: "p \<in> set (concat (map f xs)) \<longleftrightarrow> (\<exists>x \<in> set xs. p \<in> set (f x))"
  and in_map: "q \<in> set (map g xs) \<longleftrightarrow> (\<exists>x \<in> set xs. q = g x)"
  and in_pair_list: "r \<in> set [a, b] \<longleftrightarrow> r = a \<or> r = b"
  by auto

lemmas cell_sets = set_append Un_iff in_concat_map in_map in_pair_list set_upto prod.inject

definition margin_cells :: "int \<Rightarrow> int \<Rightarrow> int \<Rightarrow> ((int \<times> int) \<times> gray) list" where
  "margin_cells w h b =
     concat (map (\<lambda>y. concat (map (\<lambda>x. [((x, y), White), ((x, h - 1 - y), White)]) [0..w - 1])) [0..b - 1]) @
     concat (map (\<lambda>y. concat (map (\<lambda>x. [((x, y), White), ((w - 1 - x, y), White)]) [0..b - 1])) [b..h - b - 1])"

lemma set_margin_cells:
  assumes "0 \<le> b" "2 * b \<le> w" "2 * b \<le> h"
  shows "((x, y), c) \<in> set (margin_cells w h b) \<longleftrightarrow> c = White \<and> 0 \<le> x \<and> x < w \<and> 0 \<le> y \<and> y < h \<and>
    \<not> (b \<le> x \<and> x < w - b \<and> b \<le> y \<and> y < h - b)"
proof -
  have "((x, y), c) \<in> set (margin_cells w h b) \<longleftrightarrow> c = White \<and>
      ((\<exists>y' \<in> {0..b - 1}. \<exists>x' \<in> {0..w - 1}. x = x' \<and> (y = y' \<or> y = h - 1 - y')) \<or>
       (\<exists>y' \<in> {b..h - b - 1}. \<exists>x' \<in> {0..b - 1}. y = y' \<and> (x = x' \<or> x = w - 1 - x')))"
    unfolding margin_cells_def cell_sets by blast
  also have "(\<exists>y' \<in> {0..b - 1}. \<exists>x' \<in> {0..w - 1}. x = x' \<and> (y = y' \<or> y = h - 1 - y')) \<longleftrightarrow>
      x \<in> {0..w - 1} \<and> (y \<in> {0..b - 1} \<or> h - 1 - y \<in> {0..b - 1})" (is "?L \<longleftrightarrow> ?R")
  proof
    assume r: ?R
    define z where "z = (if y \<in> {0..b - 1} then y else h - 1 - y)"
    have "z \<in> {0..b - 1} \<and> (y = z \<or> y = h - 1 - z)" using r by (auto simp: z_def)
    then show ?L using r by blast
  qed auto
  also have "(\<exists>y' \<in> {b..h - b - 1}. \<exists>x' \<in> {0..b - 1}. y = y' \<and> (x = x' \<or> x = w - 1 - x')) \<longleftrightarrow>
      y \<in> {b..h - b - 1} \<and> (x \<in> {0..b - 1} \<or> w - 1 - x \<in> {0..b - 1})" (is "?L \<longleftrightarrow> ?R")
  proof
    assume r: ?R
    define z where "z = (if x \<in> {0..b - 1} then x else w - 1 - x)"
    have "z \<in> {0..b - 1} \<and> (x = z \<or> x = w - 1 - z)" using r by (auto simp: z_def)
    then show ?L using r by blast
  qed auto
  finally show ?thesis unfolding atLeastAtMost_iff using assms by auto
qed


text \<open>The pixel at a point of the picture: the margin is white, a block has the colour of its cell.\<close>

definition block_cells :: "(int \<Rightarrow> int \<Rightarrow> gray) \<Rightarrow> int \<Rightarrow> int \<Rightarrow> int \<Rightarrow> int \<Rightarrow> ((int \<times> int) \<times> gray) list" where
  "block_cells col b m w h =
     concat (map (\<lambda>y. concat (map (\<lambda>x.
       concat (map (\<lambda>dy. map (\<lambda>dx. ((b * (x + m) + dx, b * (y + m) + dy), col x y)) [0..b - 1]) [0..b - 1]))
       [0..w - 1])) [0..h - 1])"

lemma block_coordinate:
  assumes "0 < (b::int)"
  shows "(\<exists>x \<in> {0..w - 1}. \<exists>d \<in> {0..b - 1}. p = b * (x + m) + d \<and> P x) \<longleftrightarrow>
    b * m \<le> p \<and> p < b * (m + w) \<and> P (p div b - m)" (is "?L \<longleftrightarrow> ?R")
proof
  assume ?L
  then obtain x d where x: "0 \<le> x" "x < w" "0 \<le> d" "d < b" "p = b * (x + m) + d" "P x" by auto
  have "p div b = x + m" using x(3-5) assms by simp
  moreover have "b * m \<le> p" using x assms by (simp add: distrib_left)
  moreover have "p < b * (m + w)"
  proof -
    have "p < b * (x + m + 1)" using x(4,5) by (simp add: algebra_simps)
    also have "\<dots> \<le> b * (m + w)" using x(2) assms by (intro mult_left_mono) auto
    finally show ?thesis .
  qed
  ultimately show ?R using x(6) by simp
next
  assume r: ?R
  have "b * m div b \<le> p div b" using r assms by (intro zdiv_mono1) auto
  moreover have "p div b < m + w"
  proof (rule ccontr)
    assume "\<not> p div b < m + w"
    then have "b * (m + w) \<le> b * (p div b)" using assms by (intro mult_left_mono) auto
    also have "\<dots> \<le> p" using pos_mod_sign[OF assms, of p] mult_div_mod_eq[of b p] by linarith
    finally show False using r by simp
  qed
  moreover have "p = b * (p div b - m + m) + p mod b" by simp
  ultimately show ?L using r assms
    by (intro bexI[of _ "p div b - m"] bexI[of _ "p mod b"]) auto
qed

lemma set_block_cells:
  assumes "0 < b"
  shows "((px, py), c) \<in> set (block_cells col b m w h) \<longleftrightarrow>
    b * m \<le> px \<and> px < b * (m + w) \<and> b * m \<le> py \<and> py < b * (m + h) \<and> c = col (px div b - m) (py div b - m)"
proof -
  have "((px, py), c) \<in> set (block_cells col b m w h) \<longleftrightarrow>
      (\<exists>y \<in> {0..h - 1}. \<exists>dy \<in> {0..b - 1}. py = b * (y + m) + dy \<and>
        (\<exists>x \<in> {0..w - 1}. \<exists>dx \<in> {0..b - 1}. px = b * (x + m) + dx \<and> c = col x y))"
    unfolding block_cells_def cell_sets by blast
  also have "\<dots> \<longleftrightarrow> b * m \<le> py \<and> py < b * (m + h) \<and> b * m \<le> px \<and> px < b * (m + w) \<and>
      c = col (px div b - m) (py div b - m)"
    unfolding block_coordinate[OF assms] ..
  finally show ?thesis by blast
qed

section \<open>The picture of a grid\<close>

lemma ImageWithMargin_paint:
  assumes g: "grid_ok n g" and full: "\<And>x y. in_square n x y \<Longrightarrow> boolBitGrid_Get g x y = Inr (d x y)"
  shows "ImageWithMargin g b m =
    (let w = b * (2 * m + n) in
     Inr (paint (NewGray16 w w)
       (margin_cells w w (b * m) @ block_cells (\<lambda>x y. if d x y then Black else White) b m n n)))"
proof -
  let ?w = "b * (2 * m + n)" and ?col = "\<lambda>x y. if d x y then Black else White"
  have dims: "width g = n" "height g = n" using g by (simp_all add: grid_ok_def)
  let ?cell = "\<lambda>x y. concat (map (\<lambda>dy. map (\<lambda>dx. ((b * (x + m) + dx, b * (y + m) + dy), ?col x y)) [0..b - 1]) [0..b - 1])"
  have cell: "foldl (\<lambda>i dy. foldl (\<lambda>i dx. Gray16_Set i (x0 + dx) (y0 + dy) c) i [0..b - 1]) i [0..b - 1] =
      paint i (concat (map (\<lambda>dy. map (\<lambda>dx. ((x0 + dx, y0 + dy), c)) [0..b - 1]) [0..b - 1]))" for i x0 y0 c
  proof (rule paint_nest)
    fix i dy
    have "foldl (\<lambda>i dx. Gray16_Set i (x0 + dx) (y0 + dy) c) i [0..b - 1] =
        paint i (concat (map (\<lambda>dx. [((x0 + dx, y0 + dy), c)]) [0..b - 1]))"
      by (rule paint_nest) (rule Set_paint)
    then show "foldl (\<lambda>i dx. Gray16_Set i (x0 + dx) (y0 + dy) c) i [0..b - 1] =
        paint i (map (\<lambda>dx. ((x0 + dx, y0 + dy), c)) [0..b - 1])" by simp
  qed
  have margins: "foldl (\<lambda>i y. foldl (\<lambda>i x. Gray16_Set (Gray16_Set i x y White) (f x y) (f' x y) White) i xs) i ys =
      paint i (concat (map (\<lambda>y. concat (map (\<lambda>x. [((x, y), White), ((f x y, f' x y), White)]) xs)) ys))"
    for i f f' xs ys
    by (rule paint_nest, rule paint_nest) (rule Set_paint)
  have inner: "foldE (\<lambda>i x. bindE (boolBitGrid_Get g x y) (\<lambda>e.
        Inr (foldl (\<lambda>i dy. foldl (\<lambda>i dx. Gray16_Set i (b * (x + m) + dx) (b * (y + m) + dy) (if e then Black else White))
          i [0..b - 1]) i [0..b - 1]))) i [0..n - 1] = Inr (paint i (concat (map (\<lambda>x. ?cell x y) [0..n - 1])))"
    if "y \<in> set [0..n - 1]" for i y
  proof -
    have "foldE (\<lambda>i x. bindE (boolBitGrid_Get g x y) (\<lambda>e.
        Inr (foldl (\<lambda>i dy. foldl (\<lambda>i dx. Gray16_Set i (b * (x + m) + dx) (b * (y + m) + dy) (if e then Black else White))
          i [0..b - 1]) i [0..b - 1]))) i [0..n - 1] = Inr (foldl (\<lambda>i x. paint i (?cell x y)) i [0..n - 1])"
      unfolding cell by (rule foldE_Inr_on) (use that full in \<open>simp add: in_square_def\<close>)
    then show ?thesis by (simp add: paint_nest[of _ "\<lambda>x. ?cell x y"])
  qed
  have blocks: "foldE (\<lambda>i y. foldE (\<lambda>i x. bindE (boolBitGrid_Get g x y) (\<lambda>e.
        Inr (foldl (\<lambda>i dy. foldl (\<lambda>i dx. Gray16_Set i (b * (x + m) + dx) (b * (y + m) + dy) (if e then Black else White))
          i [0..b - 1]) i [0..b - 1]))) i [0..n - 1]) i [0..n - 1] = Inr (paint i (block_cells ?col b m n n))" for i
  proof -
    have "foldE (\<lambda>i y. foldE (\<lambda>i x. bindE (boolBitGrid_Get g x y) (\<lambda>e.
        Inr (foldl (\<lambda>i dy. foldl (\<lambda>i dx. Gray16_Set i (b * (x + m) + dx) (b * (y + m) + dy) (if e then Black else White))
          i [0..b - 1]) i [0..b - 1]))) i [0..n - 1]) i [0..n - 1] =
      Inr (foldl (\<lambda>i y. paint i (concat (map (\<lambda>x. ?cell x y) [0..n - 1]))) i [0..n - 1])"
      by (rule foldE_Inr_on) (rule inner)
    then show ?thesis by (simp add: paint_nest[of _ "\<lambda>y. concat (map (\<lambda>x. ?cell x y) [0..n - 1])"] block_cells_def)
  qed
  show ?thesis
    unfolding ImageWithMargin_def dims Let_def margins blocks
    by (simp add: raster_paint_append margin_cells_def)
qed

text \<open>the picture of a finished grid at a positive block size and a margin that is not negative
  is a square of \<open>blockSize * (2 * margin + n)\<close> pixels. Each pixel of the margin is white, and
  each pixel of the rest has the colour of the cell whose block it lies in; no write leaves the
  picture or is overwritten by a neighbour.\<close>

theorem ImageWithMargin_pixels:
  assumes "grid_ok n g" and "\<forall>x y. in_square n x y \<longrightarrow> boolBitGrid_Get g x y = Inr (d x y)"
    and "0 \<le> n" and "1 \<le> b" and "0 \<le> m"
  shows "\<exists>i. ImageWithMargin g b m = Inr i \<and> rect i = (0, 0, b * (2 * m + n), b * (2 * m + n)) \<and>
    (\<forall>x y. 0 \<le> x \<and> x < b * (2 * m + n) \<and> 0 \<le> y \<and> y < b * (2 * m + n) \<longrightarrow>
      pixel i (x, y) = (if in_square n (x div b - m) (y div b - m) \<and> d (x div b - m) (y div b - m)
        then Black else White))"
proof -
  let ?w = "b * (2 * m + n)" and ?col = "\<lambda>x y. if d x y then Black else White"
  let ?ps = "margin_cells ?w ?w (b * m) @ block_cells ?col b m n n"
  let ?i = "paint (NewGray16 ?w ?w) ?ps"
  have w: "0 \<le> b * m" "2 * (b * m) \<le> ?w" "0 \<le> ?w" "?w - b * m = b * (m + n)" "0 < b"
    using assms(3-5) by (simp_all add: algebra_simps)
  have r: "rect (NewGray16 ?w ?w) = (0, 0, ?w, ?w)" using w(3) by (simp add: NewGray16_def)
  have inside: "in_square n (x div b - m) (y div b - m) \<longleftrightarrow>
      b * m \<le> x \<and> x < b * (m + n) \<and> b * m \<le> y \<and> y < b * (m + n)" for x y
  proof -
    have iv: "0 \<le> p div b - m \<and> p div b - m < n \<longleftrightarrow> b * m \<le> p \<and> p < b * (m + n)" for p
    proof -
      have p: "p = b * (p div b - m + m) + p mod b" "0 \<le> p mod b" "p mod b < b" using w(5) by simp_all
      have "(\<exists>x \<in> {0..n - 1}. \<exists>d \<in> {0..b - 1}. p = b * (x + m) + d \<and> x = p div b - m) \<longleftrightarrow>
          p div b - m \<in> {0..n - 1}" (is "?L \<longleftrightarrow> ?R")
      proof
        assume ?R
        then show ?L using p by (intro bexI[of _ "p div b - m"] bexI[of _ "p mod b"]) simp_all
      qed auto
      then show ?thesis
        using block_coordinate[OF w(5), of n p m "\<lambda>x. x = p div b - m"] by auto
    qed
    then show ?thesis by (auto simp: in_square_def)
  qed
  have pix: "pixel ?i (x, y) = (if in_square n (x div b - m) (y div b - m) \<and> d (x div b - m) (y div b - m)
      then Black else White)" (is "_ = ?c")
    if xy: "0 \<le> x" "x < ?w" "0 \<le> y" "y < ?w" for x y
  proof (rule pixel_paint_in)
    show "in_rect (NewGray16 ?w ?w) (x, y)" using r xy by (simp add: in_rect_def)
    have mem: "((x, y), e) \<in> set ?ps \<longleftrightarrow> e = ?c" for e
      unfolding set_append Un_iff set_margin_cells[OF w(1,2,2)] set_block_cells[OF w(5)] inside w(4)
      using xy by auto
    then show "((x, y), ?c) \<in> set ?ps" "\<And>e. ((x, y), e) \<in> set ?ps \<Longrightarrow> e = ?c" by blast+
  qed
  have "ImageWithMargin g b m = Inr ?i"
    using ImageWithMargin_paint[OF assms(1)] assms(2) by (simp add: Let_def)
  then show ?thesis using pix r by (intro exI[of _ ?i]) simp
qed

theorem ImageWithMargin_pixels_witness:
  "\<exists>i. ImageWithMargin (newBoolBitGrid 21 21) 6 4 = Inr i \<and> rect i = (0, 0, 6 * (2 * 4 + 21), 6 * (2 * 4 + 21)) \<and>
    (\<forall>x y. 0 \<le> x \<and> x < 6 * (2 * 4 + 21) \<and> 0 \<le> y \<and> y < 6 * (2 * 4 + 21) \<longrightarrow>
      pixel i (x, y) = (if in_square 21 (x div 6 - 4) (y div 6 - 4) \<and> False then Black else White))"
proof (rule ImageWithMargin_pixels[where d = "\<lambda>_ _. False"])
  show g: "grid_ok 21 (newBoolBitGrid 21 21)" by (simp add: newBoolBitGrid_ok)
  show "\<forall>x y. in_square 21 x y \<longrightarrow> boolBitGrid_Get (newBoolBitGrid 21 21) x y = Inr False"
  proof (intro allI impI)
    fix x y :: int
    assume xy: "in_square 21 x y"
    have "bool_grid_inv (newBoolBitGrid 21 21)" "bool_inside (newBoolBitGrid 21 21) x y"
      using g inside_square[OF g] xy by (simp_all add: grid_ok_def)
    from bool_index[OF this] show "boolBitGrid_Get (newBoolBitGrid 21 21) x y = Inr False"
      by (simp add: boolBitGrid_Get_def newBoolBitGrid_def)
  qed
qed simp_all

lemma BitVector_String_ok:
  "BitVector_String v = Inr (map (\<lambda>b. if b then CHR ''1'' else CHR ''0'') (bbits v))"
proof -
  have "foldE (\<lambda>b i. bindE (boolBitVector_Get v i) (\<lambda>d. Inr (b @ (if d then ''1'' else ''0'')))) s [0..<n] =
      Inr (s @ map (\<lambda>b. if b then CHR ''1'' else CHR ''0'') (take n (bbits v)))" if "n \<le> length (bbits v)" for n s
    using that by (induction n) (auto simp: foldE_append boolBitVector_Get_def take_Suc_conv_app_nth)
  then show ?thesis by (simp add: BitVector_String_def boolBitVector_Length_def)
qed

end
