(* ===== verification/JSON_Valid.thy ===== *)
theory JSON_Valid
  imports JSON_Round
begin

text \<open>
  Whatever text the parser of \<open>JSON\<close> accepts, the strings of its value are well-formed UTF-8: a byte that is not
  is replaced, and so is half of a surrogate pair.
\<close>

section \<open>Runes\<close>

lemma ord_char_of: "n < 256 \<Longrightarrow> ord (char_of n) = n"
  by simp

lemma size_2: "194 \<le> ord a \<Longrightarrow> ord a \<le> 223 \<Longrightarrow> continuation b \<Longrightarrow> utf8_size [a, b] = 2"
  by (simp add: utf8_size.simps)

lemma size_3: "224 \<le> ord a \<Longrightarrow> ord a \<le> 239 \<Longrightarrow> continuation b \<Longrightarrow> continuation c \<Longrightarrow>
    (ord a = 224 \<longrightarrow> 160 \<le> ord b) \<Longrightarrow> (ord a = 237 \<longrightarrow> ord b \<le> 159) \<Longrightarrow> utf8_size [a, b, c] = 3"
  by (simp add: utf8_size.simps)

lemma size_4: "240 \<le> ord a \<Longrightarrow> ord a \<le> 244 \<Longrightarrow> continuation b \<Longrightarrow> continuation c \<Longrightarrow> continuation d \<Longrightarrow>
    (ord a = 240 \<longrightarrow> 144 \<le> ord b) \<Longrightarrow> (ord a = 244 \<longrightarrow> ord b \<le> 143) \<Longrightarrow> utf8_size [a, b, c, d] = 4"
  by (simp add: utf8_size.simps)

lemma continuation_char: "n < 64 \<Longrightarrow> continuation (char_of (128 + n :: nat))"
  using ord_char_of[of "128 + n"] unfolding continuation_def by linarith

lemma rune_2:
  assumes "128 \<le> r" "r < 2048"
  shows "utf8_size (encode_rune r) = length (encode_rune r)"
proof -
  have "2 \<le> r div 64" "r div 64 < 32" "r mod 64 < 64" using assms by (simp_all add: div_less_iff_less_mult less_eq_div_iff_mult_less_eq)
  then have "utf8_size [char_of (192 + r div 64), char_of (128 + r mod 64)] = 2"
    using ord_char_of[of "192 + r div 64"] by (intro size_2 continuation_char) linarith+
  then show ?thesis using assms by (simp only: encode_rune_def if_False not_less[symmetric] if_True) simp
qed

lemma rune_3:
  assumes "2048 \<le> r" "r < 65536" "\<not> surrogate r"
  shows "utf8_size (encode_rune r) = length (encode_rune r)"
proof -
  have a: "r div 4096 < 16" "r div 64 mod 64 < 64" "r mod 64 < 64" using assms(1,2) by (simp_all add: div_less_iff_less_mult)
  have d: "r div 64 = 64 * (r div 4096) + r div 64 mod 64" using div_mult2_eq[of r 64 64] mult_div_mod_eq[of 64 "r div 64"] by simp
  have "32 \<le> r div 64" using assms(1) by (simp add: less_eq_div_iff_mult_less_eq)
  then have b: "32 \<le> r div 64 mod 64" if "r div 4096 = 0" using that d by linarith
  have c: "r div 64 mod 64 < 32" if "r div 4096 = 13"
  proof -
    have "r < 57344" using that by linarith
    then have "r div 64 < 864" using assms(3) by (simp add: surrogate_def div_less_iff_less_mult)
    then show ?thesis using that d by linarith
  qed
  note o = ord_char_of[of "224 + r div 4096"] ord_char_of[of "128 + r div 64 mod 64"]
  have "utf8_size [char_of (224 + r div 4096), char_of (128 + r div 64 mod 64), char_of (128 + r mod 64)] = 3"
    by (intro size_3 continuation_char impI) (use a b c o in linarith)+
  moreover have "\<not> r < 128" "\<not> r < 2048" using assms(1) by linarith+
  ultimately show ?thesis using assms(2) by (simp only: encode_rune_def if_False if_True) simp
qed

lemma rune_4:
  assumes "65536 \<le> r" "r < 1114112"
  shows "utf8_size (encode_rune r) = length (encode_rune r)"
proof -
  have a: "r div 262144 < 5" "r div 4096 mod 64 < 64" "r div 64 mod 64 < 64" "r mod 64 < 64" using assms by (simp_all add: div_less_iff_less_mult)
  have d: "r div 4096 = 64 * (r div 262144) + r div 4096 mod 64" using div_mult2_eq[of r 4096 64] mult_div_mod_eq[of 64 "r div 4096"] by simp
  have e: "16 \<le> r div 4096" "r div 4096 < 272" using assms by (simp_all add: less_eq_div_iff_mult_less_eq div_less_iff_less_mult)
  have b: "16 \<le> r div 4096 mod 64" if "r div 262144 = 0" using that d e by linarith
  have c: "r div 4096 mod 64 < 16" if "r div 262144 = 4" using that d e by linarith
  note o = ord_char_of[of "240 + r div 262144"] ord_char_of[of "128 + r div 4096 mod 64"]
  have "utf8_size [char_of (240 + r div 262144), char_of (128 + r div 4096 mod 64), char_of (128 + r div 64 mod 64), char_of (128 + r mod 64)] = 4"
    by (intro size_4 continuation_char impI) (use a b c o in linarith)+
  moreover have "\<not> r < 128" "\<not> r < 2048" "\<not> r < 65536" using assms(1) by linarith+
  ultimately show ?thesis by (simp only: encode_rune_def if_False) simp
qed

lemma rune_1: "r < 128 \<Longrightarrow> utf8_size (encode_rune r) = length (encode_rune r)"
  by (simp add: encode_rune_def)

lemma utf8_size_rune: "\<not> surrogate r \<Longrightarrow> r < 1114112 \<Longrightarrow> utf8_size (encode_rune r) = length (encode_rune r)"
  using rune_1[of r] rune_2[of r] rune_3[of r] rune_4[of r] by linarith

section \<open>Strings\<close>

lemma utf8_valid_chunk:
  assumes "utf8_size u = length u" "utf8_valid s"
  shows "utf8_valid (u @ s)"
proof (cases "u = []")
  case False
  then have "utf8_size (u @ s) = length u" using utf8_size_append[of u s] assms(1) by simp
  then show ?thesis using False assms(2) by (simp add: utf8_valid.simps[of "u @ s"])
qed (simp add: assms(2))

lemma hex_value_less: "hex_value c = Some x \<Longrightarrow> x < 16"
  by (auto simp: hex_value_def split: if_splits)

lemma read_hex4_less: "read_hex4 s = Some (r, t) \<Longrightarrow> r < 65536"
  by (induction s rule: read_hex4.induct) (fastforce split: option.splits dest!: hex_value_less)+

lemma low_surrogate_rune: "surrogate hi \<Longrightarrow> low_surrogate hi s = Some (r, t) \<Longrightarrow> \<not> surrogate r \<and> r < 1114112"
  by (auto simp: low_surrogate_def surrogate_def split: list.splits if_splits option.splits)

lemma replacement_chunk: "utf8_size replacement = length replacement"
  unfolding replacement_def by (rule utf8_size_rune) (simp_all add: surrogate_def)

lemma read_escape_chunk:
  assumes "read_escape s = Some (u, t)"
  shows "utf8_size u = length u"
proof -
  obtain e s' where s: "s = e # s'" using assms by (cases s) (auto simp: read_escape_def)
  show ?thesis
  proof (cases "e = CHR ''u''")
    case True
    obtain r q where r: "read_hex4 s' = Some (r, q)"
      using assms s True by (cases "read_hex4 s'") (auto simp: read_escape_def)
    show ?thesis
    proof (cases "surrogate r")
      case sur: True
      show ?thesis
      proof (cases "low_surrogate r q")
        case None
        then show ?thesis using assms s True r sur replacement_chunk by (simp add: read_escape_def)
      next
        case (Some x)
        then obtain r' q' where x: "low_surrogate r q = Some (r', q')" by (cases x) simp
        have "\<not> surrogate r'" "r' < 1114112" using low_surrogate_rune[OF sur x] by simp_all
        then show ?thesis using assms s True r sur x utf8_size_rune[of r'] by (simp add: read_escape_def)
      qed
    next
      case False
      then show ?thesis using assms s True r utf8_size_rune[of r] read_hex4_less[OF r] by (simp add: read_escape_def)
    qed
  next
    case False
    then obtain c where c: "map_of simple_escapes e = Some c" "u = [c]" using assms s by (auto simp: read_escape_def)
    have "(e, c) \<in> set simple_escapes" by (rule map_of_SomeD[OF c(1)])
    then have "ord c < 128" by (auto simp: simple_escapes_def)
    then show ?thesis using c(2) by simp
  qed
qed

lemma json_unquote_valid: "json_unquote s = Some (v, r) \<Longrightarrow> utf8_valid v"
proof (induction s arbitrary: v r rule: json_unquote.induct)
  case (1 s)
  then obtain c t where s: "s = c # t" by (cases s) (auto simp: json_unquote.simps[of "[]"])
  consider "c = CHR 0x22" | "c = CHR 0x5C" | "c \<noteq> CHR 0x22" "c \<noteq> CHR 0x5C" "\<not> ord c < 32" "utf8_size s = 0"
    | "c \<noteq> CHR 0x22" "c \<noteq> CHR 0x5C" "\<not> ord c < 32" "utf8_size s \<noteq> 0"
    using "1.prems" s by (cases "ord c < 32") (auto simp: json_unquote.simps[of "c # t"] split: if_splits)
  then show ?case
  proof cases
    assume "c = CHR 0x22"
    then have "v = []" using "1.prems" s by (simp add: json_unquote.simps[of "CHR 0x22 # t"])
    then show ?thesis by simp
  next
    case 2
    obtain u t' where u: "read_escape t = Some (u, t')" using "1.prems" s 2 by (cases "read_escape t") (auto simp: json_unquote.simps[of "CHR 0x5C # t"])
    obtain w where w: "json_unquote t' = Some (w, r)" "v = u @ w" using "1.prems" s 2 u by (auto simp: json_unquote.simps[of "CHR 0x5C # t"])
    have "utf8_valid w" using "1.IH"(1)[OF s _ 2 u refl w(1)] 2 by simp
    then show ?thesis using w(2) utf8_valid_chunk[OF read_escape_chunk[OF u]] by simp
  next
    case 3
    obtain w where w: "json_unquote t = Some (w, r)" "v = replacement @ w" using "1.prems" s 3 by (auto simp: json_unquote.simps[of "c # t"] Let_def)
    have "utf8_valid w" using "1.IH"(2)[OF s 3(1,2,3) refl 3(4) w(1)] .
    then show ?thesis using w(2) utf8_valid_chunk[OF replacement_chunk] by simp
  next
    case 4
    let ?n = "utf8_size s"
    obtain w where w: "json_unquote (drop ?n s) = Some (w, r)" "v = take ?n s @ w"
      using "1.prems" s 4 by (auto simp: json_unquote.simps[of "c # t"] Let_def)
    have "utf8_valid w" using "1.IH"(3)[OF s 4(1,2,3) refl 4(4) w(1)] .
    moreover have "utf8_size (take ?n s) = length (take ?n s)" using utf8_size_take[OF 4(4)] utf8_size_le[of s] by simp
    ultimately show ?thesis using w(2) utf8_valid_chunk by simp
  qed
qed

section \<open>Values\<close>

fun valid :: "jvalue \<Rightarrow> bool" where
  "valid (JStr s) \<longleftrightarrow> utf8_valid s"
| "valid (JArr vs) \<longleftrightarrow> (\<forall>v \<in> set vs. valid v)"
| "valid (JObj ms) \<longleftrightarrow> (\<forall>m \<in> set ms. valid (snd m))"
| "valid _ \<longleftrightarrow> True"

lemma json_word_valid: "json_word s = Some (v, r) \<Longrightarrow> valid v"
  by (auto simp: json_word_def split: if_splits)

lemma shorter_Some: "shorter s r = Some x \<longleftrightarrow> r = Some x \<and> length (snd x) < length s"
  by (cases x) (auto simp: shorter_def split: option.splits if_splits)

lemma json_valid:
  "json_value s = Some (v, r) \<Longrightarrow> valid v"
  "json_elems s = Some (vs, r) \<Longrightarrow> \<forall>v \<in> set vs. valid v"
  "json_members s = Some (ms, r) \<Longrightarrow> \<forall>m \<in> set ms. valid (snd m)"
proof (induction s and s and s arbitrary: v r and vs r and ms r rule: json_value_json_elems_json_members.induct)
  case (1 s)
  from "1.prems" show ?case
    by (auto simp: json_value.simps[of s] split: list.splits if_splits option.splits
        dest: json_unquote_valid json_word_valid "1.IH")
next
  case (2 s)
  obtain v t where v: "shorter s (json_value s) = Some (v, t)"
    using "2.prems" by (cases "shorter s (json_value s)") (auto simp: json_elems.simps[of s])
  then have "json_value s = Some (v, t)" by (simp add: shorter_Some)
  then have ok: "valid v" by (rule "2.IH"(1))
  obtain c u where c: "shorter s (Some (v, skip_space t)) = Some (v, c # u)"
    using "2.prems" v by (auto simp: json_elems.simps[of s] shorter_Some split: option.splits list.splits)
  show ?case
  proof (cases "c = CHR '']''")
    case True
    then show ?thesis using "2.prems" v c ok by (auto simp: json_elems.simps[of s])
  next
    case False
    then have d: "c = CHR '',''" using "2.prems" v c by (auto simp: json_elems.simps[of s] split: if_splits)
    then obtain ws where ws: "json_elems u = Some (ws, r)" "vs = v # ws" using "2.prems" v c by (auto simp: json_elems.simps[of s])
    have "\<forall>v \<in> set ws. valid v" by (rule "2.IH"(2)[OF v refl c refl refl False d ws(1)])
    then show ?thesis using ws(2) ok by simp
  qed
next
  case (3 s)
  obtain t where q: "skip_space s = CHR 0x22 # t"
    using "3.prems" by (auto simp: json_members.simps[of s] split: list.splits if_splits)
  obtain k t1 where k: "shorter s (json_unquote t) = Some (k, t1)"
    using "3.prems" q by (cases "shorter s (json_unquote t)") (auto simp: json_members.simps[of s])
  obtain u where u: "shorter s (Some (k, skip_space t1)) = Some (k, CHR '':'' # u)"
    using "3.prems" q k by (auto simp: json_members.simps[of s] shorter_Some split: option.splits list.splits if_splits)
  obtain v w where v: "shorter s (json_value u) = Some (v, w)"
    using "3.prems" q k u by (cases "shorter s (json_value u)") (auto simp: json_members.simps[of s])
  have ok: "valid v" by (rule "3.IH"(1)[OF q _ k refl u refl refl _ v[unfolded shorter_Some, THEN conjunct1]]) simp_all
  obtain c x where c: "shorter s (Some (v, skip_space w)) = Some (v, c # x)"
    using "3.prems" q k u v by (auto simp: json_members.simps[of s] shorter_Some split: option.splits list.splits)
  show ?case
  proof (cases "c = CHR ''}''")
    case True
    then show ?thesis using "3.prems" q k u v c ok by (auto simp: json_members.simps[of s])
  next
    case False
    then have d: "c = CHR '',''" using "3.prems" q k u v c by (auto simp: json_members.simps[of s] split: if_splits)
    then obtain ws where ws: "json_members x = Some (ws, r)" "ms = (k, v) # ws" using "3.prems" q k u v c by (auto simp: json_members.simps[of s])
    have "\<forall>m \<in> set ws. valid (snd m)" by (rule "3.IH"(2)[OF q _ k refl u refl refl _ v refl c refl refl False d ws(1)]) simp_all
    then show ?thesis using ws(2) ok by simp
  qed
qed

lemma json_parse_valid: "json_parse s = Some v \<Longrightarrow> valid v"
  by (auto simp: json_parse_def dest: json_valid(1) split: option.splits if_splits)

end
