(* ===== verification/Server.thy ===== *)
theory Server
  imports FileStore MongoStore TiedotStore Encode Raster JSON_Valid
begin

text \<open>
  The HTTP handlers of server.go over the store interface, the choice of the backend and the
  routing of a request. A handler is an action on the state of the backend that returns the
  response; a panic of a handler closes the connection without a response.
\<close>

section \<open>Requests and responses\<close>

text \<open>\<open>Body\<close> is what reading the body yields up to its end or to the content length; the length is -1
  when the client does not declare it. \<open>Path\<close> is a path that \<open>ServeMux\<close> finds clean.\<close>

record Request =
  Method :: string
  Path :: string
  Host :: string
  ContentLength :: int
  Body :: string

record Response =
  Code :: nat
  Header :: "(string \<times> string) list"
  Written :: string

definition http_Error :: "string \<Rightarrow> nat \<Rightarrow> Response" where
  "http_Error msg code = \<lparr>Code = code, Header = [(''Content-Type'', ''text/plain; charset=utf-8'')], Written = msg @ [CHR 0x0A]\<rparr>"

definition http_NotFound :: Response where
  "http_NotFound = http_Error ''404 page not found'' 404"

definition json_Response :: "string \<Rightarrow> Response" where
  "json_Response body = \<lparr>Code = 200, Header = [(''Content-Type'', ''application/json'')], Written = body\<rparr>"

abbreviation empty_Response :: Response where
  "empty_Response \<equiv> \<lparr>Code = 200, Header = [], Written = []\<rparr>"

text \<open>A call of the store whose error is answered with a response.\<close>

definition respond :: "('s, 'a) action \<Rightarrow> Response \<Rightarrow> ('a \<Rightarrow> Response) \<Rightarrow> ('s, Response) action" where
  "respond m failed f s =
     (case m s of (Inl (Err e), s') \<Rightarrow> (Inr failed, s') | (Inl e, s') \<Rightarrow> (Inl e, s') | (Inr x, s') \<Rightarrow> (Inr (f x), s'))"

lemma respond_simps [simp]:
  "m s = (Inr x, s') \<Longrightarrow> respond m failed f s = (Inr (f x), s')"
  "m s = (Inl (Err e), s') \<Longrightarrow> respond m failed f s = (Inr failed, s')"
  "m s = (Inl (Panic e), s') \<Longrightarrow> respond m failed f s = (Inl (Panic e), s')"
  by (simp_all add: respond_def)

section \<open>The handlers\<close>

definition PostMsg :: "Request \<Rightarrow> 's MtsnStore \<Rightarrow> ('s, Response) action" where
  "PostMsg r store s =
     (if ContentLength r < 0 then (Inl (Panic ''makeslice: len out of range''), s)
      else if int (length (Body r)) < ContentLength r then (Inr (http_Error ''Error reading stream.'' 500), s)
      else let body = take (nat (ContentLength r)) (Body r) in
      if body = [] then (Inr (http_Error ''Empty body.'' 500), s)
      else case Unmarshal_Msg body zero_Msg of (m, ok) \<Rightarrow>
        if \<not> ok then (Inr (http_Error ''Failed to parse JSON.'' 500), s)
        else if Message m = [] then (Inr (http_Error ''Empty Message content field.'' 500), s)
        else respond (postMsg store (zero_MsgWrap\<lparr>Content := m\<rparr>)) (http_Error ''Failed to post message.'' 500)
               (\<lambda>_. empty_Response) s)"

definition GetMsgRange :: "string \<Rightarrow> 's MtsnStore \<Rightarrow> ('s, Response) action" where
  "GetMsgRange ids store s =
     (let ids = strings_Split (CHR ''-'') ids in
      if length ids < 2 then (Inl (Panic ''index out of range''), s)
      else case (Atoi (ids ! 0), Atoi (ids ! 1)) of ((hi, ok1), (lo, ok2)) \<Rightarrow>
        if \<not> ok1 \<or> \<not> ok2 \<or> lo > hi \<or> hi - lo > 30 then (Inr (http_Error ''Invalid msg range'' 403), s)
        else respond (getMsgs store hi lo) (http_Error ''Failed to find messages.'' 500)
               (\<lambda>msgs. json_Response (Marshal_MsgWraps msgs)) s)"

definition GetOneMsg :: "string \<Rightarrow> 's MtsnStore \<Rightarrow> ('s, Response) action" where
  "GetOneMsg ids store =
     respond (getMsg store (fst (Atoi ids))) http_NotFound
       (\<lambda>mw. \<lparr>Code = 200, Header = [(''Last-Modified'', Timestamp mw), (''Content-Type'', ''application/json'')],
              Written = Marshal_Msg (Content mw)\<rparr>)"

definition GetMsg :: "string \<Rightarrow> 's MtsnStore \<Rightarrow> ('s, Response) action" where
  "GetMsg ids store = (if strings_Contains ids ''-'' then GetMsgRange ids store else GetOneMsg ids store)"

definition GetLastMsg :: "'s MtsnStore \<Rightarrow> ('s, Response) action" where
  "GetLastMsg store =
     respond (getLastMsg store) (json_Response (Marshal_LastMessage \<lparr>lastMessage = 0\<rparr>))
       (\<lambda>l. json_Response (Marshal_LastMessage l))"

definition genQRCode :: "gfPoly list \<Rightarrow> string \<Rightarrow> (boolBitGrid \<times> gfPoly list) go" where
  "genQRCode cache data = Encode cache data ECLevelQ"

definition ErrorMaxContent :: Response where
  "ErrorMaxContent = http_Error ''Content too large.'' 413"

definition ServerInfo_json :: "string \<Rightarrow> string" where
  "ServerInfo_json name = json_print (JObj [(''Name'', JStr name)])"

section \<open>The choice of the backend\<close>

text \<open>Neither pattern excludes the other, so one of the two matches always fails. No caller is left.\<close>

definition is_word :: "char \<Rightarrow> bool" where
  "is_word c \<longleftrightarrow> (let k = of_char c :: nat in
     48 \<le> k \<and> k \<le> 57 \<or> 65 \<le> k \<and> k \<le> 90 \<or> k = 95 \<or> 97 \<le> k \<and> k \<le> 122)"

definition validateHash :: "string \<Rightarrow> unit go" where
  "validateHash hash =
     (let matchSha1 = (length hash = 40 \<and> list_all is_word hash); matchSha256 = (length hash = 64 \<and> list_all is_word hash) in
      if \<not> matchSha1 \<or> \<not> matchSha256 then Inl (Panic ''Invalid hash circle key.'') else Inr ())"

record ('d, 't) servers =
  fs :: world
  mdb :: 'd
  tdb :: "'t tiedot_state"

definition lift_action :: "('s \<Rightarrow> 'b) \<Rightarrow> ('b \<Rightarrow> 's \<Rightarrow> 's) \<Rightarrow> ('b, 'a) action \<Rightarrow> ('s, 'a) action" where
  "lift_action get put m s = (case m (get s) of (r, b) \<Rightarrow> (r, put b s))"

definition lift_store :: "('s \<Rightarrow> 'b) \<Rightarrow> ('b \<Rightarrow> 's \<Rightarrow> 's) \<Rightarrow> 'b MtsnStore \<Rightarrow> 's MtsnStore" where
  "lift_store get put store =
     \<lparr>getMsg = (\<lambda>i. lift_action get put (getMsg store i)),
      getMsgs = (\<lambda>hi lo. lift_action get put (getMsgs store hi lo)),
      getLastMsg = lift_action get put (getLastMsg store),
      postMsg = (\<lambda>mw. lift_action get put (postMsg store mw))\<rparr>"

text \<open>A method call on a nil interface.\<close>

definition nil_store :: "'s MtsnStore" where
  "nil_store = \<lparr>getMsg = (\<lambda>i. fail nil_pointer), getMsgs = (\<lambda>hi lo. fail nil_pointer),
     getLastMsg = fail nil_pointer, postMsg = (\<lambda>mw. fail nil_pointer)\<rparr>"

text \<open>The services outside: the databases, the clock and the PNG encoder.\<close>

record ('d, 't) services =
  mongodb :: "'d mongo"
  tiedotdb :: "'t tiedot"
  clock :: int
  png :: "raster \<Rightarrow> string"

definition makeStore :: "('d, 't) services \<Rightarrow> string \<Rightarrow> string \<Rightarrow> string \<Rightarrow> ('d, 't) servers MtsnStore" where
  "makeStore sv dbtype db hash =
     (if dbtype = ''mongo'' then
        lift_store mdb (\<lambda>d s. s\<lparr>mdb := d\<rparr>) (mongo_store (mongodb sv) \<lparr>MongoStore.Circle = hash\<rparr> (clock sv))
      else if dbtype = ''file'' then
        lift_store fs (\<lambda>w s. s\<lparr>fs := w\<rparr>) (file_store \<lparr>FileStore.Circle = hash, Datadir = db\<rparr>)
      else if dbtype = ''tiedot'' then
        lift_store tdb (\<lambda>d s. s\<lparr>tdb := d\<rparr>) (tiedot_store (tiedotdb sv) \<lparr>TiedotStore.Circle = hash\<rparr> (clock sv))
      else nil_store)"

section \<open>Routing\<close>

text \<open>The two regular expressions of \<open>main\<close>: a hash of 40 or 64 word characters, alone or followed by
  a number or by two numbers with a hyphen between. A slash is not a word character, so the
  hash ends at the first character that is none.\<close>

definition is_hash :: "string \<Rightarrow> bool" where
  "is_hash h \<longleftrightarrow> (length h = 40 \<or> length h = 64) \<and> list_all is_word h"

definition is_number :: "string \<Rightarrow> bool" where
  "is_number n \<longleftrightarrow> n \<noteq> [] \<and> list_all Go_Std.is_digit n"

definition is_ids :: "string \<Rightarrow> bool" where
  "is_ids ids \<longleftrightarrow> (case strings_Split (CHR ''-'') ids of [n] \<Rightarrow> is_number n | [m, n] \<Rightarrow> is_number m \<and> is_number n | _ \<Rightarrow> False)"

definition match_circle :: "string \<Rightarrow> string option" where
  "match_circle path = (case path of c # h \<Rightarrow> if c = CHR ''/'' \<and> is_hash h then Some h else None | [] \<Rightarrow> None)"

definition match_ids :: "string \<Rightarrow> (string \<times> string) option" where
  "match_ids path =
     (case path of [] \<Rightarrow> None
      | c # t \<Rightarrow>
        (case dropWhile is_word t of [] \<Rightarrow> None
         | d # ids \<Rightarrow> if c = CHR ''/'' \<and> d = CHR ''/'' \<and> is_hash (takeWhile is_word t) \<and> is_ids ids
                     then Some (takeWhile is_word t, ids) else None))"

record config =
  dbtype :: string
  db :: string
  servername :: string

definition maxContentLength :: int where "maxContentLength = 16384"

definition info_handler :: "config \<Rightarrow> Response" where
  "info_handler cfg = empty_Response\<lparr>Written := ServerInfo_json (servername cfg)\<rparr>"

definition qrcode_handler :: "('d, 't) services \<Rightarrow> gfPoly list \<Rightarrow> Request \<Rightarrow> Response go \<times> gfPoly list" where
  "qrcode_handler sv cache r =
     (case genQRCode cache (Host r) of
        Inl (Err e) \<Rightarrow> (Inr (http_Error ''Error generating QR code.'' 500), cache)
      | Inl e \<Rightarrow> (Inl e, cache)
      | Inr (g, cache') \<Rightarrow>
          (bindE (BitGrid_Image g 6) (\<lambda>i. Inr \<lparr>Code = 200, Header = [(''Content-Type'', ''image/png'')], Written = png sv i\<rparr>),
           cache'))"

definition root_handler :: "('d, 't) services \<Rightarrow> config \<Rightarrow> Request \<Rightarrow> (('d, 't) servers, Response) action" where
  "root_handler sv cfg r s =
     (if ContentLength r > maxContentLength then (Inr ErrorMaxContent, s)
      else case match_ids (Path r) of
        Some (hash, ids) \<Rightarrow> GetMsg ids (makeStore sv (dbtype cfg) (db cfg) hash) s
      | None \<Rightarrow>
        (case match_circle (Path r) of
           None \<Rightarrow> (Inr http_NotFound, s)
         | Some hash \<Rightarrow>
             if Method r = ''POST'' then PostMsg r (makeStore sv (dbtype cfg) (db cfg) hash) s
             else if Method r = ''GET'' then GetLastMsg (makeStore sv (dbtype cfg) (db cfg) hash) s
             else (Inr empty_Response, s)))"

text \<open>The server: the backends and the package state of qrencode.\<close>

definition serve :: "('d, 't) services \<Rightarrow> config \<Rightarrow> Request \<Rightarrow> (('d, 't) servers \<times> gfPoly list, Response) action" where
  "serve sv cfg r s =
     (case s of (st, cache) \<Rightarrow>
      if Path r = ''/info'' then (Inr (info_handler cfg), s)
      else if Path r = ''/qrcode'' then (case qrcode_handler sv cache r of (res, cache') \<Rightarrow> (res, (st, cache')))
      else case root_handler sv cfg r st of (res, st') \<Rightarrow> (res, (st', cache)))"

section \<open>Handlers over a store that keeps the contract\<close>

lemma strings_Contains_char: "strings_Contains s [c] \<longleftrightarrow> c \<in> set s"
  using strings_Index_absent[of s c] by (simp add: strings_Contains_def)

lemma Itoa_nat: "Itoa (int n) = nat_to_dec n"
  by (simp add: Itoa_def)

lemma no_hyphen: "CHR ''-'' \<notin> set (nat_to_dec n)"
  using nat_to_dec_no_sign[of "CHR ''-''" n] is_digit_no_sign by blast

lemma split_range: "strings_Split (CHR ''-'') (nat_to_dec t @ ''-'' @ nat_to_dec b) = [nat_to_dec t, nat_to_dec b]"
  using strings_Split_append[OF no_hyphen[of t], of "nat_to_dec b"] strings_Split_absent[OF no_hyphen[of b]] by simp

lemma Unmarshal_Msg_Nil: "\<not> snd (Unmarshal_Msg [] zero_Msg)"
  by code_simp

lemma set_Msg_ok: "msg_ok x \<Longrightarrow> valid v \<Longrightarrow> msg_ok (fst (set_Msg k v x))"
  by (auto simp: set_Msg_def msg_ok_def decode_string_def split: jvalue.splits)

lemma decode_Msg_ok:
  assumes "\<forall>p \<in> set ms. valid (snd p)" "msg_ok x"
  shows "msg_ok (fst (foldl (\<lambda>(x, ok) (k, v). case set_Msg k v x of (x', ok') \<Rightarrow> (x', ok \<and> ok')) (x, ok) ms))"
  using assms
proof (induction ms arbitrary: x ok)
  case (Cons p ms)
  obtain k v where p: "p = (k, v)" by (cases p)
  obtain x' ok' where x': "set_Msg k v x = (x', ok')" by fastforce
  then have "msg_ok x'" using set_Msg_ok[OF Cons.prems(2), of v k] Cons.prems(1) p by simp
  then show ?case using Cons p x' by simp
qed simp

lemma Unmarshal_Msg_ok: "Unmarshal_Msg s zero_Msg = (m, ok) \<Longrightarrow> msg_ok m"
proof -
  have z: "msg_ok zero_Msg" by (simp add: msg_ok_def)
  assume m: "Unmarshal_Msg s zero_Msg = (m, ok)"
  show ?thesis
  proof (cases "json_parse s")
    case None
    then show ?thesis using m z by (auto simp: Unmarshal_Msg_def Unmarshal_def)
  next
    case (Some v)
    show ?thesis
    proof (cases v)
      case (JObj ms)
      then have "\<forall>p \<in> set ms. valid (snd p)" using json_parse_valid[OF Some] by simp
      from decode_Msg_ok[OF this z, of True] show ?thesis
        using m Some JObj by (simp add: Unmarshal_Msg_def Unmarshal_def decode_object_def)
    qed (use m z Some in \<open>auto simp: Unmarshal_Msg_def Unmarshal_def decode_object_def\<close>)
  qed
qed

context mtsn_store
begin

lemma GetLastMsg_handler:
  "inv s \<Longrightarrow> GetLastMsg store s = (Inr (json_Response (Marshal_LastMessage \<lparr>lastMessage = int (length (log s))\<rparr>)), s)"
  by (simp add: GetLastMsg_def last)

lemma GetOneMsg_handler:
  assumes "inv s" "1 \<le> n" "n \<le> length (log s)" "int n \<le> maxInt"
  shows "GetMsg (Itoa (int n)) store s =
    (Inr \<lparr>Code = 200, Header = [(''Last-Modified'', Timestamp (log s ! (n - 1))), (''Content-Type'', ''application/json'')],
          Written = Marshal_Msg (Content (log s ! (n - 1)))\<rparr>, s)"
proof -
  have "getMsg store (int n) s = (Inr (log s ! (n - 1)), s)" using get[of s "n - 1"] assms(1-3) by (simp add: of_nat_diff)
  moreover have "fst (Atoi (Itoa (int n))) = int n" using assms(4) Atoi_Itoa[of "int n"] by (simp add: minInt_def)
  ultimately show ?thesis
    using no_hyphen[of n] by (simp add: GetMsg_def strings_Contains_char Itoa_nat GetOneMsg_def)
qed

lemma GetMsgRange_handler:
  assumes "inv s" "1 \<le> b" "b \<le> t" "t \<le> length (log s)" "t - b \<le> 30" "int t \<le> maxInt"
  shows "GetMsg (Itoa (int t) @ ''-'' @ Itoa (int b)) store s =
    (Inr (json_Response (Marshal_MsgWraps (rev (drop (b - 1) (take t (log s)))))), s)"
proof -
  have t: "Atoi (nat_to_dec t) = (int t, True)" "Atoi (nat_to_dec b) = (int b, True)"
    using assms(3,6) by (simp_all add: Atoi_nat_to_dec)
  have "\<not> int b > int t" "\<not> int t - int b > 30" using assms(3,5) by simp_all
  then show ?thesis
    using t gets[OF assms(1-4)] split_range[of t b]
    by (simp add: GetMsg_def strings_Contains_char Itoa_nat GetMsgRange_def Let_def)
qed

lemma PostMsg_handler:
  assumes "inv s" "room s" "Unmarshal_Msg (Body r) zero_Msg = (m, True)" "Message m \<noteq> []"
    and "ContentLength r = int (length (Body r))"
  obtains s' w where "PostMsg r store s = (Inr empty_Response, s')" "inv s'" "log s' = log s @ [w]" "Content w = m"
    "Id w = int (length (log s)) + 1"
proof -
  obtain s' w where w: "postMsg store (zero_MsgWrap\<lparr>Content := m\<rparr>) s = (Inr (), s')" "inv s'" "log s' = log s @ [w]"
    "Content w = m" "Id w = int (length (log s)) + 1"
    using post[OF assms(1,2), of "zero_MsgWrap\<lparr>Content := m\<rparr>"] Unmarshal_Msg_ok[OF assms(3)] by auto
  have "Body r \<noteq> []" using assms(3) Unmarshal_Msg_Nil by auto
  then have "PostMsg r store s = (Inr empty_Response, s')"
    using assms(3-5) w(1) by (simp add: PostMsg_def Let_def)
  then show ?thesis using that w by blast
qed

lemma post_then_get_handlers:
  assumes "inv s" "room s" "Unmarshal_Msg (Body r) zero_Msg = (m, True)" "Message m \<noteq> []"
    and "ContentLength r = int (length (Body r))" "int (length (log s)) < maxInt"
  shows "\<exists>s' resp. PostMsg r store s = (Inr empty_Response, s') \<and>
    GetLastMsg store s' = (Inr (json_Response (Marshal_LastMessage \<lparr>lastMessage = int (length (log s)) + 1\<rparr>)), s') \<and>
    GetMsg (Itoa (int (length (log s)) + 1)) store s' = (Inr resp, s') \<and> Code resp = 200 \<and> Written resp = Marshal_Msg m"
proof -
  obtain s' w where w: "PostMsg r store s = (Inr empty_Response, s')" "inv s'" "log s' = log s @ [w]" "Content w = m"
    by (rule PostMsg_handler[OF assms(1-5)])
  have n: "int (Suc (length (log s))) = int (length (log s)) + 1" by simp
  let ?resp = "\<lparr>Code = 200, Header = [(''Last-Modified'', Timestamp w), (''Content-Type'', ''application/json'')], Written = Marshal_Msg m\<rparr>"
  have "int (Suc (length (log s))) \<le> maxInt" using assms(6) by simp
  then have "GetMsg (Itoa (int (length (log s)) + 1)) store s' = (Inr ?resp, s')"
    using GetOneMsg_handler[OF w(2), of "Suc (length (log s))"] w(3,4) unfolding n by simp
  moreover have "GetLastMsg store s' = (Inr (json_Response (Marshal_LastMessage \<lparr>lastMessage = int (length (log s)) + 1\<rparr>)), s')"
    using GetLastMsg_handler[OF w(2)] w(3) by (simp add: add.commute)
  ultimately show ?thesis using w(1) by (intro exI[of _ s'] exI[of _ ?resp]) simp
qed

end

text \<open>A store lifted to a larger state keeps the contract.\<close>

lemma lift_mtsn_store:
  assumes "mtsn_store st ok room entries" and put: "\<And>b s. get (put b s) = b" and same: "\<And>s. put (get s) s = s"
  shows "mtsn_store (lift_store get put st) (\<lambda>s. ok (get s)) (\<lambda>s. room (get s)) (\<lambda>s. entries (get s))"
proof -
  note st = assms(1)
  note last = mtsn_store.last[OF st] and one = mtsn_store.get[OF st] and gets = mtsn_store.gets[OF st]
    and post = mtsn_store.post[OF st] and log_ok = mtsn_store.log_ok[OF st]
  show ?thesis
  proof
    fix s assume "ok (get s)"
    then show "getLastMsg (lift_store get put st) s = (Inr \<lparr>lastMessage = int (length (entries (get s)))\<rparr>, s)"
      using last same by (simp add: lift_store_def lift_action_def)
  next
    fix s i assume "ok (get s)" "i < length (entries (get s))"
    then show "getMsg (lift_store get put st) (int i + 1) s = (Inr (entries (get s) ! i), s)"
      using one same by (simp add: lift_store_def lift_action_def)
  next
    fix s and b t :: nat assume "ok (get s)" "1 \<le> b" "b \<le> t" "t \<le> length (entries (get s))"
    then show "getMsgs (lift_store get put st) (int t) (int b) s = (Inr (rev (drop (b - 1) (take t (entries (get s))))), s)"
      using gets same by (simp add: lift_store_def lift_action_def)
  next
    fix s and mw :: MsgWrap assume a: "ok (get s)" "room (get s)" "msg_ok (Content mw)"
    from post[OF a] obtain b w where "postMsg st mw (get s) = (Inr (), b)" "ok b" "entries b = entries (get s) @ [w]"
      "Content w = Content mw" "Id w = int (length (entries (get s))) + 1" by blast
    then show "\<exists>s' w. postMsg (lift_store get put st) mw s = (Inr (), s') \<and> ok (get s') \<and>
        entries (get s') = entries (get s) @ [w] \<and> Content w = Content mw \<and> Id w = int (length (entries (get s))) + 1"
      using put by (intro exI[of _ "put b s"] exI[of _ w]) (simp add: lift_store_def lift_action_def)
  next
    fix s assume "ok (get s)"
    then show "list_all (\<lambda>w. msg_ok (Content w)) (entries (get s))" by (rule log_ok)
  qed
qed

abbreviation the_circle :: "config \<Rightarrow> string \<Rightarrow> FileStore" where
  "the_circle cfg hash \<equiv> \<lparr>FileStore.Circle = hash, Datadir = db cfg\<rparr>"

interpretation served: mtsn_store "makeStore sv ''file'' (db cfg) hash" "\<lambda>s. circle_ok (the_circle cfg hash) (fs s)"
  "\<lambda>s. has_room (the_circle cfg hash) (fs s)" "\<lambda>s. file_log (the_circle cfg hash) (fs s)"
proof -
  have "mtsn_store (lift_store fs (\<lambda>w s. s\<lparr>fs := w\<rparr>) (file_store (the_circle cfg hash)))
     (\<lambda>s. circle_ok (the_circle cfg hash) (fs s)) (\<lambda>s. has_room (the_circle cfg hash) (fs s))
     (\<lambda>s. file_log (the_circle cfg hash) (fs s))"
    by (rule lift_mtsn_store[OF filestore.mtsn_store_axioms]) simp_all
  then show "mtsn_store (makeStore sv ''file'' (db cfg) hash) (\<lambda>s. circle_ok (the_circle cfg hash) (fs s))
     (\<lambda>s. has_room (the_circle cfg hash) (fs s)) (\<lambda>s. file_log (the_circle cfg hash) (fs s))"
    by (simp add: makeStore_def)
qed

section \<open>The regular expressions\<close>

text \<open>The fragment of \<open>regexp\<close> that the two patterns use, with its language as a predicate.\<close>

datatype regex = Class "char \<Rightarrow> bool" | Seq regex regex | Alt regex regex | Times nat regex | Plus regex

inductive matches :: "regex \<Rightarrow> string \<Rightarrow> bool" where
  Class: "p c \<Longrightarrow> matches (Class p) [c]"
| Seq: "matches a s \<Longrightarrow> matches b t \<Longrightarrow> matches (Seq a b) (s @ t)"
| AltL: "matches a s \<Longrightarrow> matches (Alt a b) s"
| AltR: "matches b s \<Longrightarrow> matches (Alt a b) s"
| Times0: "matches (Times 0 a) []"
| TimesSuc: "matches a s \<Longrightarrow> matches (Times n a) t \<Longrightarrow> matches (Times (Suc n) a) (s @ t)"
| Plus1: "matches a s \<Longrightarrow> matches (Plus a) s"
| PlusMore: "matches a s \<Longrightarrow> matches (Plus a) t \<Longrightarrow> matches (Plus a) (s @ t)"

inductive_cases ClassE: "matches (Class p) s"
inductive_cases SeqE: "matches (Seq a b) s"
inductive_cases AltE: "matches (Alt a b) s"
inductive_cases Times0E: "matches (Times 0 a) s"
inductive_cases TimesSucE: "matches (Times (Suc n) a) s"

text \<open>\<open>(\w{40}|\w{64})\<close> and \<open>(\d+-\d+)|(\d+)\<close>.\<close>

definition hash_regex :: regex where
  "hash_regex = Alt (Times 40 (Class is_word)) (Times 64 (Class is_word))"

definition ids_regex :: regex where
  "ids_regex = Alt (Seq (Plus (Class Go_Std.is_digit)) (Seq (Class (\<lambda>c. c = CHR ''-'')) (Plus (Class Go_Std.is_digit))))
     (Plus (Class Go_Std.is_digit))"

lemma matches_Times: "matches (Times n (Class p)) s \<longleftrightarrow> length s = n \<and> list_all p s"
proof
  show "matches (Times n (Class p)) s \<Longrightarrow> length s = n \<and> list_all p s"
    by (induction n arbitrary: s) (fastforce elim!: Times0E TimesSucE ClassE)+
  show "length s = n \<and> list_all p s \<Longrightarrow> matches (Times n (Class p)) s"
  proof (induction n arbitrary: s)
    case (Suc n)
    then obtain c t where s: "s = c # t" by (cases s) auto
    have "matches (Times (Suc n) (Class p)) ([c] @ t)" using Suc s by (intro matches.intros) auto
    then show ?case using s by simp
  qed (simp add: matches.intros)
qed

lemma matches_Plus: "matches (Plus (Class p)) s \<longleftrightarrow> s \<noteq> [] \<and> list_all p s"
proof
  have "matches r s \<Longrightarrow> r = Plus (Class p) \<Longrightarrow> s \<noteq> [] \<and> list_all p s" for r
    by (induction r s rule: matches.induct) (auto elim!: ClassE)
  then show "matches (Plus (Class p)) s \<Longrightarrow> s \<noteq> [] \<and> list_all p s" by blast
  show "s \<noteq> [] \<and> list_all p s \<Longrightarrow> matches (Plus (Class p)) s"
  proof (induction s)
    case (Cons c s)
    show ?case
    proof (cases "s = []")
      case True
      then show ?thesis using Cons by (auto intro!: matches.intros)
    next
      case False
      then have "matches (Plus (Class p)) ([c] @ s)" using Cons by (intro PlusMore matches.Class) auto
      then show ?thesis by simp
    qed
  qed simp
qed

lemma matches_hash: "matches hash_regex h \<longleftrightarrow> is_hash h"
  unfolding hash_regex_def is_hash_def using matches_Times[of _ is_word h] by (auto elim!: AltE intro: matches.intros)

lemma digit_no_hyphen: "list_all Go_Std.is_digit n \<Longrightarrow> CHR ''-'' \<notin> set n"
  using is_digit_no_sign by (auto simp: list_all_iff)

lemma strings_Split_join: "concat (map (\<lambda>p. sep # p) (strings_Split sep s)) = sep # s"
  by (induction s) (auto split: list.splits)

lemma is_ids_iff:
  "is_ids ids \<longleftrightarrow> is_number ids \<or> (\<exists>m n. ids = m @ ''-'' @ n \<and> is_number m \<and> is_number n)"
proof
  show "is_number ids \<or> (\<exists>m n. ids = m @ ''-'' @ n \<and> is_number m \<and> is_number n) \<Longrightarrow> is_ids ids"
    using strings_Split_append digit_no_hyphen strings_Split_absent
    by (fastforce simp: is_ids_def is_number_def)
next
  assume a: "is_ids ids"
  have j: "concat (map (\<lambda>p. CHR ''-'' # p) (strings_Split (CHR ''-'') ids)) = CHR ''-'' # ids"
    by (rule strings_Split_join)
  show "is_number ids \<or> (\<exists>m n. ids = m @ ''-'' @ n \<and> is_number m \<and> is_number n)"
  proof (cases "strings_Split (CHR ''-'') ids")
    case Nil
    then show ?thesis by simp
  next
    case (Cons m ms)
    show ?thesis
    proof (cases ms)
      case Nil
      then show ?thesis using a j Cons by (simp add: is_ids_def)
    next
      case Cons2: (Cons n ns)
      then have "ns = []" using a Cons by (cases ns) (simp_all add: is_ids_def)
      then have "ids = m @ ''-'' @ n" "is_number m" "is_number n" using a j Cons Cons2 by (simp_all add: is_ids_def)
      then show ?thesis by blast
    qed
  qed
qed

lemma matches_ids: "matches ids_regex ids \<longleftrightarrow> is_ids ids"
proof -
  have "matches ids_regex ids \<longleftrightarrow> is_number ids \<or> (\<exists>m n. ids = m @ ''-'' @ n \<and> is_number m \<and> is_number n)"
  proof
    assume "matches ids_regex ids"
    then show "is_number ids \<or> (\<exists>m n. ids = m @ ''-'' @ n \<and> is_number m \<and> is_number n)"
      unfolding ids_regex_def
      by (fastforce elim!: AltE SeqE ClassE simp: matches_Plus is_number_def)
  next
    assume "is_number ids \<or> (\<exists>m n. ids = m @ ''-'' @ n \<and> is_number m \<and> is_number n)"
    then show "matches ids_regex ids"
    proof (elim disjE exE conjE)
      assume "is_number ids"
      then show ?thesis unfolding ids_regex_def by (intro AltR) (simp add: matches_Plus is_number_def)
    next
      fix m n assume i: "ids = m @ ''-'' @ n" "is_number m" "is_number n"
      show ?thesis unfolding ids_regex_def i(1)
        by (intro AltL Seq matches.Class) (use i in \<open>simp_all add: matches_Plus is_number_def\<close>)
    qed
  qed
  then show ?thesis by (simp add: is_ids_iff)
qed

lemma not_word_slash: "\<not> is_word (CHR ''/'')"
  by (simp add: is_word_def)

lemma takeWhile_hash: "is_hash h \<Longrightarrow> takeWhile is_word (h @ CHR ''/'' # r) = h \<and> dropWhile is_word (h @ CHR ''/'' # r) = CHR ''/'' # r"
  using not_word_slash by (auto simp: is_hash_def list_all_iff takeWhile_append dropWhile_append)

lemma match_ids_Some: "match_ids path = Some (h, ids) \<longleftrightarrow> path = ''/'' @ h @ ''/'' @ ids \<and> is_hash h \<and> is_ids ids"
proof
  assume "match_ids path = Some (h, ids)"
  then obtain c t d where p: "path = c # t" "dropWhile is_word t = d # ids" "c = CHR ''/''" "d = CHR ''/''"
    "is_hash h" "is_ids ids" "h = takeWhile is_word t"
    by (auto simp: match_ids_def split: list.splits if_splits)
  have "t = h @ CHR ''/'' # ids" using p(2,4,7) takeWhile_dropWhile_id[of is_word t] by simp
  then show "path = ''/'' @ h @ ''/'' @ ids \<and> is_hash h \<and> is_ids ids" using p by simp
next
  assume "path = ''/'' @ h @ ''/'' @ ids \<and> is_hash h \<and> is_ids ids"
  then show "match_ids path = Some (h, ids)" using takeWhile_hash[of h ids] by (simp add: match_ids_def)
qed

lemma match_circle_Some: "match_circle path = Some h \<longleftrightarrow> path = ''/'' @ h \<and> is_hash h"
  by (auto simp: match_circle_def split: list.splits if_splits)

text \<open>C36: The routing recognises exactly the paths of the two regular expressions of the server, and
  extracts the groups that the handlers use: the hash, and the number or range of numbers.\<close>

theorem routes_match_regexes:
  "(match_ids path = Some (h, ids) \<longleftrightarrow> path = ''/'' @ h @ ''/'' @ ids \<and> matches hash_regex h \<and> matches ids_regex ids) \<and>
   (match_circle path = Some h \<longleftrightarrow> path = ''/'' @ h \<and> matches hash_regex h)"
  by (simp only: match_ids_Some match_circle_Some matches_hash matches_ids)

section \<open>Properties of the server\<close>

lemma match_circle_path: "is_hash h \<Longrightarrow> match_circle (''/'' @ h) = Some h" and match_ids_circle: "is_hash h \<Longrightarrow> match_ids (''/'' @ h) = None"
proof -
  show "is_hash h \<Longrightarrow> match_circle (''/'' @ h) = Some h" by (simp only: match_circle_Some)
  show "match_ids (''/'' @ h) = None" if "is_hash h"
  proof -
    have "dropWhile is_word h = []" using that by (simp add: is_hash_def list_all_iff)
    then show ?thesis by (simp only: match_ids_def append.simps list.case)
  qed
qed

lemma hash_path: "is_hash h \<Longrightarrow> ''/'' @ h @ s \<noteq> ''/info'' \<and> ''/'' @ h @ s \<noteq> ''/qrcode''"
  by (auto simp: is_hash_def dest: arg_cong[of _ _ length])

lemma is_number_dec: "is_number (nat_to_dec n)"
  by (simp add: is_number_def nat_to_dec_digits)

lemma is_ids_number: "is_ids (Itoa (int n))" and is_ids_range: "is_ids (Itoa (int t) @ ''-'' @ Itoa (int b))"
  unfolding is_ids_iff Itoa_nat using is_number_dec by blast+

lemma serve_circle:
  assumes "is_hash h" "Path r = ''/'' @ h" "ContentLength r \<le> maxContentLength" "Method r = ''POST'' \<or> Method r = ''GET''"
  shows "serve sv cfg r (st, c) =
    (case (if Method r = ''POST'' then PostMsg r else GetLastMsg) (makeStore sv (dbtype cfg) (db cfg) h) st of
       (res, st') \<Rightarrow> (res, (st', c)))"
  using assms hash_path[OF assms(1), of "[]"] match_circle_path[OF assms(1)] match_ids_circle[OF assms(1)]
  by (auto simp: serve_def root_handler_def)

lemma serve_ids:
  assumes "is_hash h" "is_ids ids" "Path r = ''/'' @ h @ ''/'' @ ids" "ContentLength r \<le> maxContentLength"
  shows "serve sv cfg r (st, c) =
    (case GetMsg ids (makeStore sv (dbtype cfg) (db cfg) h) st of (res, st') \<Rightarrow> (res, (st', c)))"
proof -
  have "match_ids (Path r) = Some (h, ids)" using match_ids_Some[of "Path r" h ids] assms(1-3) by blast
  then show ?thesis
    using assms(3,4) hash_path[OF assms(1), of "''/'' @ ids"] by (simp add: serve_def root_handler_def)
qed

text \<open>Requests as a client makes them.\<close>

definition get_request :: "string \<Rightarrow> Request" where
  "get_request path = \<lparr>Method = ''GET'', Path = path, Host = ''server'', ContentLength = 0, Body = []\<rparr>"

definition post_request :: "string \<Rightarrow> string \<Rightarrow> Request" where
  "post_request path body =
     \<lparr>Method = ''POST'', Path = path, Host = ''server'', ContentLength = int (length body), Body = body\<rparr>"

lemma request_simps [simp]:
  "Method (get_request p) = ''GET''" "Path (get_request p) = p" "ContentLength (get_request p) = 0"
  "Method (post_request p b) = ''POST''" "Path (post_request p b) = p" "Body (post_request p b) = b"
  "ContentLength (post_request p b) = int (length b)"
  by (simp_all add: get_request_def post_request_def)

lemma serve_last:
  assumes "dbtype cfg = ''file''" "is_hash h" "circle_ok (the_circle cfg h) (fs st)"
  shows "serve sv cfg (get_request (''/'' @ h)) (st, c) =
    (Inr (json_Response (Marshal_LastMessage \<lparr>lastMessage = int (msg_count (the_circle cfg h) (fs st))\<rparr>)), (st, c))"
  using serve_circle[OF assms(2), of "get_request (''/'' @ h)" sv cfg st c] served.GetLastMsg_handler[OF assms(3)] assms(1)
  by (simp add: maxContentLength_def)

lemma serve_one:
  assumes "dbtype cfg = ''file''" "is_hash h" "circle_ok (the_circle cfg h) (fs st)"
    "1 \<le> n" "n \<le> msg_count (the_circle cfg h) (fs st)"
  shows "serve sv cfg (get_request (''/'' @ h @ ''/'' @ Itoa (int n))) (st, c) =
    (let w = file_log (the_circle cfg h) (fs st) ! (n - 1) in
     (Inr \<lparr>Code = 200, Header = [(''Last-Modified'', Timestamp w), (''Content-Type'', ''application/json'')],
           Written = Marshal_Msg (Content w)\<rparr>, (st, c)))"
proof -
  have "int n \<le> maxInt" using assms(3,5) by (simp add: circle_ok_def maxInt_def)
  then show ?thesis
    using serve_ids[OF assms(2) is_ids_number[of n], of "get_request (''/'' @ h @ ''/'' @ Itoa (int n))" sv cfg st c]
      served.GetOneMsg_handler[OF assms(3,4)] assms(1,5)
    by (simp add: maxContentLength_def Let_def)
qed

lemma serve_range:
  assumes "dbtype cfg = ''file''" "is_hash h" "circle_ok (the_circle cfg h) (fs st)"
    "1 \<le> b" "b \<le> t" "t \<le> msg_count (the_circle cfg h) (fs st)" "t - b \<le> 30"
  shows "serve sv cfg (get_request (''/'' @ h @ ''/'' @ Itoa (int t) @ ''-'' @ Itoa (int b))) (st, c) =
    (Inr (json_Response (Marshal_MsgWraps (rev (drop (b - 1) (take t (file_log (the_circle cfg h) (fs st))))))), (st, c))"
proof -
  have "int t \<le> maxInt" using assms(3,6) by (simp add: circle_ok_def maxInt_def)
  then show ?thesis
    using serve_ids[OF assms(2) is_ids_range[of t b], of "get_request (''/'' @ h @ ''/'' @ Itoa (int t) @ ''-'' @ Itoa (int b))" sv cfg st c]
      served.GetMsgRange_handler[OF assms(3-5) _ assms(7)] assms(1,6)
    by (simp add: maxContentLength_def)
qed

lemma serve_post:
  assumes "dbtype cfg = ''file''" "is_hash h" "circle_ok (the_circle cfg h) (fs st)" "has_room (the_circle cfg h) (fs st)"
    "msg_ok m" "Message m \<noteq> []" "length (Marshal_Msg m) \<le> 16384"
  obtains st' w where "serve sv cfg (post_request (''/'' @ h) (Marshal_Msg m)) (st, c) = (Inr empty_Response, (st', c))"
    "circle_ok (the_circle cfg h) (fs st')" "file_log (the_circle cfg h) (fs st') = file_log (the_circle cfg h) (fs st) @ [w]"
    "Content w = m" "Id w = int (msg_count (the_circle cfg h) (fs st)) + 1"
proof -
  let ?r = "post_request (''/'' @ h) (Marshal_Msg m)"
  obtain st' w where w: "PostMsg ?r (makeStore sv ''file'' (db cfg) h) st = (Inr empty_Response, st')"
    "circle_ok (the_circle cfg h) (fs st')" "file_log (the_circle cfg h) (fs st') = file_log (the_circle cfg h) (fs st) @ [w]"
    "Content w = m" "Id w = int (length (file_log (the_circle cfg h) (fs st))) + 1"
    by (rule served.PostMsg_handler[OF assms(3,4) _ assms(6), of ?r]) (use Unmarshal_Marshal_Msg[OF assms(5)] in simp_all)
  have "serve sv cfg ?r (st, c) = (Inr empty_Response, (st', c))"
    using serve_circle[OF assms(2), of ?r sv cfg st c] w(1) assms(1,7) by (simp add: maxContentLength_def)
  then show ?thesis using that w by simp
qed

text \<open>A request to a circle whose store keeps the contract.\<close>

lemma serve_contract:
  assumes "mtsn_store (makeStore sv (dbtype cfg) (db cfg) h) ok room entries" "ok st" "room st" "is_hash h"
    "Unmarshal_Msg body zero_Msg = (m, True)" "Message m \<noteq> []" "length body \<le> 16384" "length (entries st) = n" "int n < maxInt"
  shows "\<exists>st' resp. serve sv cfg (post_request (''/'' @ h) body) (st, c) = (Inr empty_Response, (st', c)) \<and>
    serve sv cfg (get_request (''/'' @ h)) (st', c) = (Inr (json_Response (Marshal_LastMessage \<lparr>lastMessage = int n + 1\<rparr>)), (st', c)) \<and>
    serve sv cfg (get_request (''/'' @ h @ ''/'' @ Itoa (int n + 1))) (st', c) = (Inr resp, (st', c)) \<and>
    Code resp = 200 \<and> Written resp = Marshal_Msg m"
proof -
  have "\<exists>s' resp. PostMsg (post_request (''/'' @ h) body) (makeStore sv (dbtype cfg) (db cfg) h) st = (Inr empty_Response, s') \<and>
    GetLastMsg (makeStore sv (dbtype cfg) (db cfg) h) s' = (Inr (json_Response (Marshal_LastMessage \<lparr>lastMessage = int (length (entries st)) + 1\<rparr>)), s') \<and>
    GetMsg (Itoa (int (length (entries st)) + 1)) (makeStore sv (dbtype cfg) (db cfg) h) s' = (Inr resp, s') \<and> Code resp = 200 \<and> Written resp = Marshal_Msg m"
    by (rule mtsn_store.post_then_get_handlers[OF assms(1-3)]) (use assms in simp_all)
  then obtain st' resp where h: "PostMsg (post_request (''/'' @ h) body) (makeStore sv (dbtype cfg) (db cfg) h) st = (Inr empty_Response, st')"
    "GetLastMsg (makeStore sv (dbtype cfg) (db cfg) h) st' = (Inr (json_Response (Marshal_LastMessage \<lparr>lastMessage = int n + 1\<rparr>)), st')"
    "GetMsg (Itoa (int n + 1)) (makeStore sv (dbtype cfg) (db cfg) h) st' = (Inr resp, st')" "Code resp = 200" "Written resp = Marshal_Msg m"
    using assms(8) by blast
  have "is_ids (Itoa (int n + 1))" using is_ids_number[of "Suc n"] by (simp add: add.commute)
  from serve_ids[OF assms(4) this, of "get_request (''/'' @ h @ ''/'' @ Itoa (int n + 1))" sv cfg st' c]
    serve_circle[OF assms(4), of "post_request (''/'' @ h) body" sv cfg st c] serve_circle[OF assms(4), of "get_request (''/'' @ h)" sv cfg st' c]
  show ?thesis using h assms(7) by (intro exI[of _ st'] exI[of _ resp]) (simp add: maxContentLength_def)
qed

lemma mongo_served:
  assumes "mongo_laws (mongodb sv) up view"
  shows "mtsn_store (makeStore sv ''mongo'' d h) (\<lambda>s. up (mdb s) \<and> circle_full \<lparr>MongoStore.Circle = h\<rparr> (view (mdb s)))
    (\<lambda>s. number \<lparr>MongoStore.Circle = h\<rparr> (view (mdb s)) < maxInt) (\<lambda>s. mongo_log \<lparr>MongoStore.Circle = h\<rparr> (view (mdb s)))"
proof -
  have "mtsn_store (lift_store mdb (\<lambda>d s. s\<lparr>mdb := d\<rparr>) (mongo_store (mongodb sv) \<lparr>MongoStore.Circle = h\<rparr> (clock sv)))
     (\<lambda>s. up (mdb s) \<and> circle_full \<lparr>MongoStore.Circle = h\<rparr> (view (mdb s)))
     (\<lambda>s. number \<lparr>MongoStore.Circle = h\<rparr> (view (mdb s)) < maxInt) (\<lambda>s. mongo_log \<lparr>MongoStore.Circle = h\<rparr> (view (mdb s)))"
    by (rule lift_mtsn_store[OF mongo_keeps_contract[OF assms]]) simp_all
  then show ?thesis by (simp add: makeStore_def)
qed

text \<open>A circle with \<open>n\<close> messages that can take another one, in the two backends that answer requests of any number:
  the files with room on the disk, or a database that behaves as MongoDB documents.\<close>

definition ready :: "('d, 't) services \<Rightarrow> ('d \<Rightarrow> bool) \<Rightarrow> ('d \<Rightarrow> documents) \<Rightarrow> config \<Rightarrow> string \<Rightarrow> ('d, 't) servers \<Rightarrow> nat \<Rightarrow> bool" where
  "ready sv up view cfg h st n \<longleftrightarrow>
     dbtype cfg = ''file'' \<and> circle_ok (the_circle cfg h) (fs st) \<and> has_room (the_circle cfg h) (fs st) \<and>
       n = msg_count (the_circle cfg h) (fs st) \<or>
     dbtype cfg = ''mongo'' \<and> mongo_laws (mongodb sv) up view \<and> up (mdb st) \<and>
       circle_full \<lparr>MongoStore.Circle = h\<rparr> (view (mdb st)) \<and> int n = number \<lparr>MongoStore.Circle = h\<rparr> (view (mdb st)) \<and> int n < maxInt"


text \<open>With the file backend, a range of at most 31 message numbers that exist is answered with the
  JSON array of those messages, the newest first.\<close>

theorem serve_range_newest_first:
  assumes "dbtype cfg = ''file''" "is_hash h" "circle_ok (the_circle cfg h) (fs st)"
    "1 \<le> b" "b \<le> t" "t \<le> msg_count (the_circle cfg h) (fs st)" "t - b \<le> 30"
  shows "\<exists>ws. serve sv cfg (get_request (''/'' @ h @ ''/'' @ Itoa (int t) @ ''-'' @ Itoa (int b))) (st, c) =
      (Inr (json_Response (Marshal_MsgWraps ws)), (st, c)) \<and> map Id ws = rev [int b..int t]"
proof -
  have "map Id (rev (drop (b - 1) (take t (file_log (the_circle cfg h) (fs st))))) = rev [int b..int t]"
    using drop_take_upto[OF assms(4-6)] by (simp add: rev_map[symmetric] drop_map take_map file_log_def wrap_file_def comp_def)
  then show ?thesis using serve_range[OF assms, of sv c] by blast
qed


text \<open>A server with the file backend and an empty data directory, for the witnesses.\<close>

definition fresh_servers :: "(unit, unit) servers" where
  "fresh_servers = \<lparr>fs = fresh_world, mdb = (), tdb = \<lparr>Db = (), tiedot_state.lock = 0\<rparr>\<rparr>"

definition file_config :: config where
  "file_config = \<lparr>dbtype = ''file'', db = ''d'', servername = ''s''\<rparr>"

text \<open>Services that are never up: the file backend does not use them.\<close>

definition no_services :: "(unit, unit) services" where
  "no_services =
     \<lparr>mongodb = \<lparr>One_counter = (\<lambda>c k d. (Inl ''down'', d)), Apply_inc = (\<lambda>c k d. (Inl ''down'', d)),
        One_id = (\<lambda>c i d. (Inl ''down'', d)), All_between = (\<lambda>c lo hi d. (Inl ''down'', d)),
        mongo.Insert = (\<lambda>c w d. (Inl ''down'', d)), CollectionNames = (\<lambda>d. (Inl ''down'', d)),
        All_until = (\<lambda>c t d. (Inl ''down'', d)), Remove = (\<lambda>c i d. (Inl ''down'', d))\<rparr>,
      tiedotdb = \<lparr>Create = (\<lambda>c d. (Inl ''down'', d)), Use = (\<lambda>c d. False), Index = (\<lambda>c p d. (Inl ''down'', d)),
        EvalQuery = (\<lambda>q c d. (Inl ''down'', d)), tiedot.Insert = (\<lambda>c v d. (Inl ''down'', d)),
        Update = (\<lambda>c i v d. (Inl ''down'', d)), Read = (\<lambda>c i d. (Inl ''down'', d))\<rparr>,
      clock = 0, png = (\<lambda>i. [])\<rparr>"

definition some_hash :: string where
  "some_hash = replicate 40 (CHR ''a'')"

lemma some_hash: "is_hash some_hash"
  by (simp add: is_hash_def some_hash_def list_all_iff is_word_def)

lemma hash_no_slash: "is_hash h \<Longrightarrow> no_slash h"
  using not_word_slash by (auto simp: is_hash_def no_slash_def list_all_iff)

lemma fresh_servers_ok:
  "is_hash h \<Longrightarrow> circle_ok (the_circle cfg h) (fs fresh_servers)" "has_room (the_circle cfg h) (fs fresh_servers)"
  by (simp_all add: fresh_servers_def fresh_circle_ok hash_no_slash has_room_def msg_count_def)
    (simp_all add: fresh_world_def)

text \<open>The example of a post in docs/technical-overview.txt: its fields come back in the other order.\<close>

definition documented_post :: string where
  "documented_post = ''{\"message\":\"4u+MgPdfgo9tAdsEX6ceng==\",\"iv\":\"znMqQ18wEUNWPuAHrPv9PQ==\"}''"

definition documented_Msg :: Msg where
  "documented_Msg = \<lparr>Iv = ''znMqQ18wEUNWPuAHrPv9PQ=='', Message = ''4u+MgPdfgo9tAdsEX6ceng==''\<rparr>"

lemma documented_post:
  "Unmarshal_Msg documented_post zero_Msg = (documented_Msg, True)" "length documented_post \<le> 16384" "Message documented_Msg \<noteq> []"
  "Marshal_Msg documented_Msg = ''{\"iv\":\"znMqQ18wEUNWPuAHrPv9PQ==\",\"message\":\"4u+MgPdfgo9tAdsEX6ceng==\"}''"
  by code_simp+


text \<open>The same directory with ten thousand messages in the circle.\<close>

definition full_servers :: "(unit, unit) servers" where
  "full_servers = fresh_servers\<lparr>fs := full_world (the_circle file_config some_hash)\<rparr>"

theorem serve_range_newest_first_witness:
  "\<exists>ws. serve no_services file_config (get_request (''/'' @ some_hash @ ''/'' @ Itoa (int 31) @ ''-'' @ Itoa (int 1))) (full_servers, []) =
      (Inr (json_Response (Marshal_MsgWraps ws)), (full_servers, [])) \<and> map Id ws = rev [int 1..int 31]"
proof (rule serve_range_newest_first[OF _ some_hash])
  have "no_slash (FileStore.Circle (the_circle file_config some_hash))" using hash_no_slash[OF some_hash] by simp
  then show "circle_ok (the_circle file_config some_hash) (fs full_servers)"
    using full_ok by (simp add: full_servers_def)
  show "31 \<le> msg_count (the_circle file_config some_hash) (fs full_servers)"
    using count_full by (simp add: full_servers_def)
qed (simp_all add: file_config_def)

lemma GetMsgs_loop_length: "length (FileStore.GetMsgs_loop ms s msgs is) \<le> length msgs + length is"
proof (induction "is" arbitrary: msgs)
  case (Cons i "is")
  then show ?case using Cons[of "msgs @ [w]" for w] by (auto split: option.splits)
qed simp

text \<open>C37: Whatever range of numbers a request names and whatever the disk holds, the file backend answers
  with at most 31 messages or with 403, and changes nothing; the handler only panics on a text
  without hyphen, which the routing never passes to it.\<close>

theorem GetMsgRange_bounded:
  "case GetMsgRange ids (file_store ms) s of
     (Inr resp, s') \<Rightarrow> s' = s \<and>
       (resp = http_Error ''Invalid msg range'' 403 \<or> (\<exists>ws. length ws \<le> 31 \<and> resp = json_Response (Marshal_MsgWraps ws)))
   | (Inl _, s') \<Rightarrow> s' = s \<and> \<not> strings_Contains ids ''-''"
proof -
  have split: "\<not> strings_Contains ids ''-''" if "length (strings_Split (CHR ''-'') ids) < 2"
  proof
    assume "strings_Contains ids ''-''"
    then obtain xs ys where "ids = xs @ CHR ''-'' # ys" "CHR ''-'' \<notin> set xs"
      by (metis strings_Contains_char split_list_first)
    then have "2 \<le> length (strings_Split (CHR ''-'') ids)"
      using strings_Split_append[of "CHR ''-''" xs ys] strings_Split_nonempty[of "CHR ''-''" ys]
      by (cases "strings_Split (CHR ''-'') ys") simp_all
    then show False using that by simp
  qed
  have bound: "length (FileStore.GetMsgs_loop ms s [] (rev [lo..hi])) \<le> 31" if "hi - lo \<le> 30" for lo hi :: int
    using GetMsgs_loop_length[of ms s "[]" "rev [lo..hi]"] that by simp
  show ?thesis
    using split bound
    by (auto simp: GetMsgRange_def Let_def respond_def file_store_def FileStore.GetMsgs_def not_less split: prod.splits)
qed

text \<open>C38: With the file backend, a request for a message whose file is not there is not answered with
  404: the handler panics on the nil file.\<close>

theorem serve_missing_panics:
  assumes "dbtype cfg = ''file''" "is_hash h" "int n \<le> maxInt"
    "files (fs st) (msg_path (the_circle cfg h) (int n)) = None"
  shows "serve sv cfg (get_request (''/'' @ h @ ''/'' @ Itoa (int n))) (st, c) =
    (Inl (Panic ''invalid memory address or nil pointer dereference''), (st, c))"
proof -
  have "fst (Atoi (Itoa (int n))) = int n" using assms(3) Atoi_Itoa[of "int n"] by (simp add: minInt_def)
  then have "GetMsg (Itoa (int n)) (makeStore sv ''file'' (db cfg) h) st =
     (Inl (Panic ''invalid memory address or nil pointer dereference''), st)"
    using assms(4) no_hyphen[of n]
    by (simp add: GetMsg_def strings_Contains_char Itoa_nat GetOneMsg_def respond_def makeStore_def lift_store_def
        lift_action_def file_store_def FileStore.GetMsg_def)
  then show ?thesis
    using serve_ids[OF assms(2) is_ids_number[of n], of "get_request (''/'' @ h @ ''/'' @ Itoa (int n))" sv cfg st c] assms(1)
    by (simp add: maxContentLength_def)
qed

theorem serve_missing_panics_witness:
  "serve no_services file_config (get_request (''/'' @ some_hash @ ''/'' @ Itoa (int 1))) (fresh_servers, []) =
    (Inl (Panic ''invalid memory address or nil pointer dereference''), (fresh_servers, []))"
  by (rule serve_missing_panics[OF _ some_hash]) (simp_all add: file_config_def maxInt_def fresh_servers_def fresh_world_def)

text \<open>No hash passes \<open>validateHash\<close>.\<close>

lemma validateHash_panics: "validateHash hash = Inl (Panic ''Invalid hash circle key.'')"
  by (simp add: validateHash_def Let_def)

end
