(* ===== verification/Client.thy ===== *)
theory Client
  imports Circle Server
begin

text \<open>
  The clients: the web client (muteswan-webclient/app/controllers/app.go), \<open>DecryptMsgs\<close> and
  \<open>SaveCircle\<close> of the client library, and the command line client (goclient.go). The HTTP client,
  which goes through a SOCKS proxy, is a parameter that maps a host and a request to a response
  or an error; at the end it is instantiated with the server.
\<close>

section \<open>The environment\<close>

text \<open>SHA-1, the AES block functions and the bytes that \<open>rand.Read\<close> yields.\<close>

record env =
  sha1 :: "string \<Rightarrow> byte list"
  aes :: block_cipher
  random :: "byte list"

type_synonym 's net = "string \<Rightarrow> Request \<Rightarrow> ('s, Response) action"

text \<open>A call of the HTTP client: a panic of the remote handler closes the connection, so for the
  client it is an error like any other.\<close>

definition http :: "'s net \<Rightarrow> string \<Rightarrow> Request \<Rightarrow> 's \<Rightarrow> (string + Response) \<times> 's" where
  "http net host r s = (case net host r s of (Inl _, s') \<Rightarrow> (Inl ''http'', s') | (Inr resp, s') \<Rightarrow> (Inr resp, s'))"

definition circle_path :: "env \<Rightarrow> Circle \<Rightarrow> string" where
  "circle_path e c = ''/'' @ GetUrlHash (sha1 e) c"

section \<open>The client library\<close>

definition DecryptMsgs :: "env \<Rightarrow> Circle \<Rightarrow> MsgWrap list \<Rightarrow> MsgWrap list \<times> Circle" where
  "DecryptMsgs e circle msgs =
     foldl (\<lambda>(ws, c) w. case getPlaintextMessage (aes e) (Content w) c of
        (text, c') \<Rightarrow> (ws @ [w\<lparr>Content := (Content w)\<lparr>Message := text\<rparr>\<rparr>], c')) ([], circle) msgs"

text \<open>The directory of the circles: its files by name in the order in which it is listed. A file is
  created read-only, so writing one that exists is refused. \<open>denied\<close> are the paths that the
  system refuses.\<close>

record disk =
  circles :: "(string \<times> string) list option"
  denied :: "string \<Rightarrow> bool"

definition SaveCircle :: "env \<Rightarrow> string \<Rightarrow> Circle \<Rightarrow> (disk, unit) action" where
  "SaveCircle e dir circle d =
     (let name = GetUrlHash (sha1 e) circle in
      case circles d of
        None \<Rightarrow> (Inl (Err ''open''), d)
      | Some saved \<Rightarrow>
          if denied d (dir @ ''/circles/'' @ name) \<or> name \<in> fst ` set saved then (Inl (Err ''open''), d)
          else (Inr (), d\<lparr>circles := Some (saved @ [(name, Marshal_Circle circle)])\<rparr>))"

section \<open>The web client\<close>

text \<open>What a controller returns. \<open>RenderError None\<close> is \<open>RenderError\<close> of a nil error.\<close>

datatype 'a page = Render 'a | RenderEmpty | RenderError "string option" | Redirect string | Picture string

text \<open>\<open>url.QueryEscape\<close>.\<close>

definition query_char :: "char \<Rightarrow> bool" where
  "query_char c \<longleftrightarrow> is_word c \<or> c \<in> set ''-.~''"

definition hex_upper :: "nat \<Rightarrow> char" where
  "hex_upper n = (if n < 10 then char_of (48 + n) else char_of (55 + n))"

definition QueryEscape :: "string \<Rightarrow> string" where
  "QueryEscape s = concat (map (\<lambda>c. if query_char c then [c] else if c = CHR '' '' then ''+''
     else [CHR ''%'', hex_upper (ord c div 16), hex_upper (ord c mod 16)]) s)"

definition web_PostMsg :: "env \<Rightarrow> 's net \<Rightarrow> string \<Rightarrow> string \<Rightarrow> ('s, unit page) action" where
  "web_PostMsg e net circle msgContent s =
     (case NewCircle circle of
        Inl (Err x) \<Rightarrow> (Inr (RenderError (Some x)), s)
      | Inl x \<Rightarrow> (Inl x, s)
      | Inr c \<Rightarrow>
        (case EncryptMessage (aes e) (random e) zero_Msg c msgContent of
           Inl x \<Rightarrow> (Inl x, s)
         | Inr (enctext, msg, c') \<Rightarrow>
           (case http net (Circle.Server c') (post_request (circle_path e c') (Marshal_Msg (msg\<lparr>Message := EncodeToString enctext\<rparr>))) s of
              (Inl x, s') \<Rightarrow> (Inr (RenderError (Some x)), s')
            | (Inr resp, s') \<Rightarrow>
                (if Code resp \<noteq> 200 then (Inr (RenderError None), s')
                 else (Inr (Redirect (''/Posts?circle='' @ QueryEscape (FullText c'))), s')))))"

text \<open>The error of \<open>SaveCircle\<close> is ignored.\<close>

definition JoinCircle :: "env \<Rightarrow> string \<Rightarrow> (disk, unit page) action" where
  "JoinCircle e circle d =
     (if circle = [] then (Inr RenderEmpty, d)
      else case NewCircle circle of
        Inl (Err x) \<Rightarrow> (Inr (RenderError (Some x)), d)
      | Inl x \<Rightarrow> (Inl x, d)
      | Inr c \<Rightarrow> (Inr (Redirect ''CircleList''), snd (SaveCircle e ''.'' c d)))"

definition os_MkdirAll :: "string \<Rightarrow> (disk, unit) action" where
  "os_MkdirAll path d =
     (if denied d path then (Inl (Err ''mkdir''), d)
      else (Inr (), if path = ''./circles'' \<and> circles d = None then d\<lparr>circles := Some []\<rparr> else d))"

fun createDirs :: "string list \<Rightarrow> (disk, unit) action" where
  "createDirs [] d = (Inr (), d)"
| "createDirs (path # paths) d = andThen (os_MkdirAll path) (\<lambda>_. createDirs paths) d"

fun read_circles :: "disk \<Rightarrow> Circle list \<Rightarrow> (string \<times> string) list \<Rightarrow> Circle list page" where
  "read_circles d cs [] = Render cs"
| "read_circles d cs ((name, text) # rest) =
     (if denied d (''./circles/'' @ name) then RenderError (Some ''open'')
      else case Unmarshal_Circle text zero_Circle of
        (c, ok) \<Rightarrow> if \<not> ok then RenderError (Some ''json'') else read_circles d (cs @ [c\<lparr>FullText := GetFullText c\<rparr>]) rest)"

definition CircleList :: "(disk, Circle list page) action" where
  "CircleList d =
     (case createDirs [''./circles'', ''./msgs'', ''./muteswan-webclient/public/images''] d of
        (Inl _, d') \<Rightarrow> (Inr (RenderError (Some ''mkdir'')), d')
      | (Inr _, d') \<Rightarrow>
        (if denied d' ''./circles'' then (Inr (RenderError (Some ''open'')), d')
         else case circles d' of None \<Rightarrow> (Inr (RenderError (Some ''open'')), d')
           | Some saved \<Rightarrow> (Inr (read_circles d' [] saved), d')))"

text \<open>\<open>QRCode.Apply\<close> ignores the error of \<open>Encode\<close>; the grid is then nil.\<close>

definition Genqrcode :: "string \<Rightarrow> unit page" where
  "Genqrcode txt = (if txt = [] then Redirect ''Index'' else Picture txt)"

definition QRCode_Apply :: "(raster \<Rightarrow> string) \<Rightarrow> gfPoly list \<Rightarrow> string \<Rightarrow> Response go" where
  "QRCode_Apply enc cache r =
     (case Encode cache r ECLevelQ of
        Inl (Err e) \<Rightarrow> Inl nil_pointer
      | Inl e \<Rightarrow> Inl e
      | Inr (g, _) \<Rightarrow> bindE (BitGrid_Image g 6) (\<lambda>i. Inr \<lparr>Code = 200, Header = [(''Content-Type'', ''image/png'')], Written = enc i\<rparr>))"

definition low_bound :: "int \<Rightarrow> int" where
  "low_bound n = (if n \<ge> 25 then n - 25 else if n \<ge> 1 then n - (n - 1) else 0)"

record posts =
  mtsnCircle :: Circle
  lastMsg :: LastMessage
  lowBound :: int
  newMsgs :: "MsgWrap list"
  urlHash :: string
  keylen :: nat
  rawkeylen :: nat

text \<open>\<open>lastMsg\<close> is a pointer, which the JSON value null sets to nil.\<close>

definition Posts :: "env \<Rightarrow> 's net \<Rightarrow> string \<Rightarrow> ('s, posts page) action" where
  "Posts e net circle s =
     (if circle = [] then (Inr (Redirect ''Index''), s)
      else case NewCircle circle of
        Inl (Err _) \<Rightarrow> (Inr RenderEmpty, s)
      | Inl x \<Rightarrow> (Inl x, s)
      | Inr c \<Rightarrow>
        (case http net (Circle.Server c) (get_request (circle_path e c)) s of
           (Inl _, s) \<Rightarrow> (Inr RenderEmpty, s)
         | (Inr resp, s) \<Rightarrow>
           if json_parse (Written resp) = Some JNull then (Inl nil_pointer, s)
           else (let l = fst (Unmarshal_LastMessage (Written resp) \<lparr>lastMessage = 0\<rparr>); lo = low_bound (lastMessage l) in
            case http net (Circle.Server c)
                (get_request (circle_path e c @ ''/'' @ Itoa (lastMessage l) @ ''-'' @ Itoa lo)) s of
              (Inl _, s) \<Rightarrow> (Inr RenderEmpty, s)
            | (Inr resp, s) \<Rightarrow>
              (let msgs = fst (Unmarshal_MsgWraps (Written resp) []); (ws, c') = DecryptMsgs e c msgs in
               (Inr (Render \<lparr>mtsnCircle = c', lastMsg = l, lowBound = lo, newMsgs = ws, urlHash = GetUrlHash (sha1 e) c',
                  keylen = length (Key c'), rawkeylen = length (fst (GetKeyData c'))\<rparr>), s)))))"

section \<open>The command line client\<close>

text \<open>\<open>Status\<close> of a response of package net/http: the code with its text, for the codes that the server answers with. A code
  without a text is sent as in the last line.\<close>

definition StatusText :: "nat \<Rightarrow> string" where
  "StatusText code =
     (if code = 200 then ''OK'' else if code = 403 then ''Forbidden'' else if code = 404 then ''Not Found''
      else if code = 413 then ''Request Entity Too Large'' else if code = 500 then ''Internal Server Error''
      else ''status code '' @ Itoa (int code))"

definition Status :: "Response \<Rightarrow> string" where
  "Status resp = Itoa (int (Code resp)) @ '' '' @ StatusText (Code resp)"

text \<open>The lines that the program prints. The error of \<open>NewCircle\<close> is ignored, the nil circle is not
  looked at before its first field. \<open>arg1\<close> is the argument, or the input if the argument is a
  hyphen.\<close>

definition goclient :: "env \<Rightarrow> 's net \<Rightarrow> string \<Rightarrow> string \<Rightarrow> string \<Rightarrow> ('s, string list) action" where
  "goclient e net circleString cmdString arg1 s =
     (case NewCircle circleString of
        Inl (Err _) \<Rightarrow> (Inl nil_pointer, s)
      | Inl x \<Rightarrow> (Inl x, s)
      | Inr circle \<Rightarrow>
        if cmdString = ''last'' then
          (case http net (Circle.Server circle) (get_request (circle_path e circle)) s of
             (Inl x, s) \<Rightarrow> (Inl (Panic x), s)
           | (Inr resp, s) \<Rightarrow> (Inr [Written resp], s))
        else if cmdString = ''read'' then
          (case http net (Circle.Server circle) (get_request (circle_path e circle @ ''/'' @ arg1)) s of
             (Inl x, s) \<Rightarrow> (Inl (Panic x), s)
           | (Inr resp, s) \<Rightarrow>
             (let date = ''Date: '' @ (case map_of (Header resp) ''Last-Modified'' of None \<Rightarrow> [] | Some t \<Rightarrow> t);
                  msg = fst (Unmarshal_Msg (Written resp) zero_Msg) in
              (bindE (CryptBlocks cbc_decrypt (dec_block (aes e)) (fst (GetKeyData circle)) (GetIVData msg) (fst (DecodeString (Message msg))))
                 (\<lambda>plaintext. Inr [date, string_of plaintext]), s)))
        else if cmdString = ''post'' then
          (case EncryptMessage (aes e) (random e) zero_Msg circle arg1 of
             Inl x \<Rightarrow> (Inl x, s)
           | Inr (enctext, msg, circle) \<Rightarrow>
             (case http net (Circle.Server circle) (post_request (circle_path e circle) (Marshal_Msg (msg\<lparr>Message := EncodeToString enctext\<rparr>))) s of
                (Inl x, s) \<Rightarrow> (Inl (Panic x), s)
              | (Inr resp, s) \<Rightarrow> (Inr [''Response: '' @ Status resp], s)))
        else (Inl nil_pointer, s))"

section \<open>Lemmas on keys and decryption\<close>

lemma decrypt_same_key:
  assumes "fst (GetKeyData c') = fst (GetKeyData c)"
  shows "fst (getPlaintextMessage a m c') = fst (getPlaintextMessage a m c)"
  using assms by (simp add: getPlaintextMessage_def case_prod_beta Let_def split: sum.splits)

lemma decrypt_circle: "snd (getPlaintextMessage a m c) = snd (GetKeyData c)"
  by (simp add: getPlaintextMessage_def case_prod_beta Let_def split: sum.splits)

lemma GetKeyData_again: "fst (GetKeyData (snd (GetKeyData c))) = fst (GetKeyData c)"
  by (simp add: GetKeyData_def Let_def)

lemma GetKeyData_fields [simp]:
  "Circle.Server (snd (GetKeyData c)) = Circle.Server c" "FullText (snd (GetKeyData c)) = FullText c"
  "GetUrlHash h (snd (GetKeyData c)) = GetUrlHash h c" "circle_path e (snd (GetKeyData c)) = circle_path e c"
  by (simp_all add: GetKeyData_def Let_def GetUrlHash_def circle_path_def)

text \<open>Each message of the list is decrypted with the key of the circle; the rest of it stays.\<close>

definition decrypted :: "env \<Rightarrow> Circle \<Rightarrow> MsgWrap \<Rightarrow> MsgWrap" where
  "decrypted e c w = w\<lparr>Content := (Content w)\<lparr>Message := fst (getPlaintextMessage (aes e) (Content w) c)\<rparr>\<rparr>"

lemma DecryptMsgs_ok: "fst (DecryptMsgs e c msgs) = map (decrypted e c) msgs"
proof -
  let ?f = "\<lambda>(ws, c) w. case getPlaintextMessage (aes e) (Content w) c of
        (t, c') \<Rightarrow> (ws @ [w\<lparr>Content := (Content w)\<lparr>Message := t\<rparr>\<rparr>], c')"
  have "fst (GetKeyData c') = fst (GetKeyData c) \<Longrightarrow> fst (foldl ?f (ws, c') msgs) = ws @ map (decrypted e c) msgs" for c' ws
  proof (induction msgs arbitrary: ws c')
    case (Cons w msgs)
    have k: "fst (GetKeyData (snd (getPlaintextMessage (aes e) (Content w) c'))) = fst (GetKeyData c)"
      using Cons.prems by (simp add: decrypt_circle GetKeyData_again)
    have "?f (ws, c') w = (ws @ [decrypted e c w], snd (getPlaintextMessage (aes e) (Content w) c'))"
      using decrypt_same_key[OF Cons.prems] by (simp add: decrypted_def case_prod_beta)
    then show ?case using Cons.IH[OF k] by simp
  qed simp
  then show ?thesis by (simp add: DecryptMsgs_def)
qed

lemma is_word_hex: "d < 16 \<Longrightarrow> is_word (hex_digit d)"
  by (auto simp: is_word_def hex_digit_def Let_def)

lemma words_fmt_x: "list_all is_word (fmt_x bs)"
proof (induction bs)
  case (Cons b bs)
  have "unat b div 16 < 16" using unat_byte_less[of b] by simp
  then show ?case using Cons by (simp add: fmt_x_def hex_byte_def is_word_hex)
qed (simp add: fmt_x_def)

lemma hash_of_circle: "(\<And>s. length (sha1 e s) = 20) \<Longrightarrow> is_hash (GetUrlHash (sha1 e) c)"
  by (simp add: is_hash_def GetUrlHash_def length_fmt_x words_fmt_x)

section \<open>The size of a posted message\<close>

lemma length_posted:
  "iv \<noteq> [] \<Longrightarrow> length (Marshal_Msg \<lparr>Iv = EncodeToString iv, Message = EncodeToString enc\<rparr>) =
     length (EncodeToString iv) + length (EncodeToString enc) + 22"
proof -
  have "length (quoted (EncodeToString bs)) = length (EncodeToString bs) + 2" for bs
    by (simp add: quoted_def json_escape_plain[OF plain_EncodeToString])
  moreover have "length (quoted ''iv'') = 4" "length (quoted ''message'') = 9"
    by (simp_all add: quoted_def json_escape_ascii json_escape.simps[of "[]"] escape_ascii_def)
  moreover assume "iv \<noteq> []"
  then have "EncodeToString iv \<noteq> []" by (cases iv rule: EncodeToString.cases) simp_all
  ultimately show "length (Marshal_Msg \<lparr>Iv = EncodeToString iv, Message = EncodeToString enc\<rparr>) =
     length (EncodeToString iv) + length (EncodeToString enc) + 22" by (simp add: Marshal_Msg_def msg_json_def)
qed

lemma length_cbc_encrypt: "length (cbc_encrypt E iv bs) = length bs"
  by (induction bs arbitrary: iv) (simp_all add: Let_def)

lemma CryptBlocks_encrypt_length:
  assumes "block_cipher_ok a" "CryptBlocks cbc_encrypt (enc_block a) key iv src = Inr enc"
  shows "length enc = length src"
proof -
  have ok: "key_ok key" "length iv = BlockSize" "length src mod BlockSize = 0"
    "enc = concat (cbc_encrypt (enc_block a key) iv (chunks BlockSize src))"
    using assms(2) by (auto simp: CryptBlocks_def split: if_splits)
  have pos: "0 < BlockSize" by (simp add: BlockSize_def)
  have bl: "length b = BlockSize" if "b \<in> set (chunks BlockSize src)" for b
    using chunks_length_dvd[OF pos _ that] ok(3) by (simp add: dvd_eq_mod_eq_0)
  have law: "length (enc_block a key b) = BlockSize" if "length b = BlockSize" for b
    using assms(1) ok(1) that by (simp add: block_cipher_ok_def)
  have "length enc = BlockSize * length (chunks BlockSize src)"
    using length_concat_blocks[OF cbc_encrypt_lengths[OF law ok(2) bl]] ok(4) by (simp add: length_cbc_encrypt)
  also have "\<dots> = length (concat (chunks BlockSize src))" using length_concat_blocks[of "chunks BlockSize src" BlockSize] bl by simp
  finally show ?thesis by simp
qed

text \<open>What the client needs: a block cipher, a digest of 20 bytes, 16 random bytes and a key that
  AES accepts.\<close>

definition client_ok :: "env \<Rightarrow> Circle \<Rightarrow> bool" where
  "client_ok e c \<longleftrightarrow> block_cipher_ok (aes e) \<and> (\<forall>s. length (sha1 e s) = 20) \<and> length (random e) = BlockSize \<and>
     key_ok (fst (GetKeyData c))"

definition padding :: "string \<Rightarrow> string" where
  "padding content = replicate (16 - length content mod 16) (char_of (16 - length content mod 16))"

lemma encrypt_posted:
  assumes "client_ok e c"
  obtains enc where
    "EncryptMessage (aes e) (random e) zero_Msg c content = Inr (enc, zero_Msg\<lparr>Iv := EncodeToString (random e)\<rparr>, snd (GetKeyData c))"
    "length enc = length content + (16 - length content mod 16)" "enc \<noteq> []"
    "fst (getPlaintextMessage (aes e) \<lparr>Iv = EncodeToString (random e), Message = EncodeToString enc\<rparr> c) = content @ padding content"
proof -
  have ok: "block_cipher_ok (aes e)" "length (random e) = BlockSize" "key_ok (fst (GetKeyData c))"
    using assms by (simp_all add: client_ok_def)
  obtain enc m where e: "EncryptMessage (aes e) (random e) zero_Msg c content = Inr (enc, m, snd (GetKeyData c))"
    "fst (getPlaintextMessage (aes e) (m\<lparr>Message := EncodeToString enc\<rparr>) c) = content @ padding content"
    using decrypt_ok[OF ok, of zero_Msg content] unfolding padding_def by blast
  have pos: "0 < BlockSize" by (simp add: BlockSize_def)
  let ?src = "bytes_of content @ replicate (BlockSize - length content mod BlockSize) (of_nat (BlockSize - length content mod BlockSize))"
  have m: "m = zero_Msg\<lparr>Iv := EncodeToString (random e)\<rparr>"
    and enc: "CryptBlocks cbc_encrypt (enc_block (aes e)) (fst (GetKeyData c)) (random e) ?src = Inr enc"
    using e(1) by (auto simp: EncryptMessage_def GenIVData_def Pkcs5pad_Inr[OF pos] case_prod_beta bindE_eq_Inr)
  have "length enc = length content + (16 - length content mod 16)"
    using CryptBlocks_encrypt_length[OF ok(1) enc] by (simp add: BlockSize_def)
  then have "length enc = length content + (16 - length content mod 16)" "enc \<noteq> []" by auto
  then show ?thesis using that e m by simp
qed

lemma posted_msg_ok:
  assumes "length enc \<le> 12240" "enc \<noteq> []" "length iv = 16"
  shows "msg_ok \<lparr>Iv = EncodeToString iv, Message = EncodeToString enc\<rparr>" "EncodeToString enc \<noteq> []"
    "length (Marshal_Msg \<lparr>Iv = EncodeToString iv, Message = EncodeToString enc\<rparr>) \<le> 16384"
proof -
  show "msg_ok \<lparr>Iv = EncodeToString iv, Message = EncodeToString enc\<rparr>"
    by (simp add: msg_ok_def utf8_valid_EncodeToString)
  show "EncodeToString enc \<noteq> []" using assms(2) by (cases enc rule: EncodeToString.cases) simp_all
  have "length (EncodeToString enc) \<le> 16320" using assms(1) by (simp add: length_EncodeToString)
  moreover have "length (EncodeToString iv) = 24" using assms(3) by (simp add: length_EncodeToString)
  ultimately show "length (Marshal_Msg \<lparr>Iv = EncodeToString iv, Message = EncodeToString enc\<rparr>) \<le> 16384"
    using length_posted[of iv enc] assms(3) by (cases iv) simp_all
qed

section \<open>The web client and the server\<close>

lemma file_log_wraps:
  assumes "FileStore.circle_ok ms w" "v \<in> set (file_log ms w)"
  shows "msgwrap_ok v"
proof -
  have "msg_ok (Content v)" using file_log_ok[OF assms(1)] assms(2) by (simp add: list_all_iff)
  moreover obtain i f where "v = wrap_file i f" "1 \<le> i" "i \<le> int (msg_count ms w)"
    using assms(2) by (auto simp: file_log_def)
  moreover have "msg_count ms w \<le> 10000" using assms(1) by (simp add: FileStore.circle_ok_def)
  ultimately show ?thesis by (simp add: msgwrap_ok_def wrap_file_def utf8_valid_timestamp minInt_def maxInt_def)
qed

text \<open>A range that begins with 0, a number that no message has: the backend stops there.\<close>

lemma GetMsgs_zero:
  assumes "FileStore.circle_ok ms w" "t \<le> msg_count ms w" "files w (msg_path ms 0) = None"
  shows "FileStore.GetMsgs ms (int t) 0 w = (Inr (rev (take t (file_log ms w))), w)"
proof (cases "t = 0")
  case True
  then show ?thesis using assms(3) by (simp add: FileStore.GetMsgs_def)
next
  case False
  have app: "FileStore.GetMsgs_loop ms w acc (is @ [0]) = FileStore.GetMsgs_loop ms w acc is" for acc "is"
    using assms(3) by (induction "is" arbitrary: acc) (auto split: option.splits)
  have "[0..int t] = 0 # [1..int t]" by (simp add: upto_rec1)
  moreover have "FileStore.GetMsgs ms (int t) 1 w = (Inr (rev (take t (file_log ms w))), w)"
    using FileStore.GetMsgs_ok[OF assms(1), of 1 t] assms(2) False by simp
  ultimately show ?thesis using False by (auto simp: FileStore.GetMsgs_def app split: if_splits)
qed

lemma serve_range_zero:
  assumes "dbtype cfg = ''file''" "is_hash h" "FileStore.circle_ok (the_circle cfg h) (fs st)"
    "t \<le> msg_count (the_circle cfg h) (fs st)" "t \<le> 30" "files (fs st) (msg_path (the_circle cfg h) 0) = None"
  shows "serve sv cfg (get_request (''/'' @ h @ ''/'' @ Itoa (int t) @ ''-'' @ Itoa 0)) (st, c) =
    (Inr (json_Response (Marshal_MsgWraps (rev (take t (file_log (the_circle cfg h) (fs st)))))), (st, c))"
proof -
  have "int t \<le> maxInt" using assms(5) by (simp add: maxInt_def)
  then have a: "Atoi (nat_to_dec t) = (int t, True)" "Atoi (nat_to_dec 0) = (0, True)"
    using Atoi_nat_to_dec[of t] Atoi_nat_to_dec[of 0] by (simp_all add: maxInt_def)
  have "Server.GetMsg (Itoa (int t) @ ''-'' @ Itoa (int 0)) (makeStore sv ''file'' (db cfg) h) st =
      (Inr (json_Response (Marshal_MsgWraps (rev (take t (file_log (the_circle cfg h) (fs st)))))), st)"
    using a split_range[of t 0] GetMsgs_zero[OF assms(3,4,6)] assms(5)
    by (simp add: Server.GetMsg_def strings_Contains_char Itoa_nat[of t] Itoa_nat[of 0, simplified] GetMsgRange_def Let_def respond_def makeStore_def lift_store_def
        lift_action_def file_store_def)
  then show ?thesis
    using serve_ids[OF assms(2) is_ids_range[of t 0], of "get_request (''/'' @ h @ ''/'' @ Itoa (int t) @ ''-'' @ Itoa 0)" sv cfg st c] assms(1)
    by (simp add: maxContentLength_def)
qed

text \<open>A post leaves that number free.\<close>

lemma post_zero:
  assumes "serve sv cfg (post_request (''/'' @ h) body) (st, c) = (r, (st', c'))" "dbtype cfg = ''file''" "is_hash h" "length body \<le> 16384"
    "FileStore.circle_ok (the_circle cfg h) (fs st)" "has_room (the_circle cfg h) (fs st)"
  shows "files (fs st') (msg_path (the_circle cfg h) 0) = files (fs st) (msg_path (the_circle cfg h) 0)"
proof -
  let ?ms = "the_circle cfg h" and ?r = "post_request (''/'' @ h) body"
  have keep: "files (snd (FileStore.PostMsg ?ms mw (fs st))) (msg_path ?ms 0) = files (fs st) (msg_path ?ms 0)" for mw
  proof -
    obtain es where es: "FileStore.PostMsg ?ms mw (fs st) = (Inr (), posted ?ms mw es (fs st))" "length es = msg_count ?ms (fs st)"
      using PostMsg_posted[OF assms(5,6)] by metis
    have "length es < 10000" using es(2) assms(6) by (simp add: has_room_def)
    then have "msg_path ?ms 0 \<noteq> msg_path ?ms (int (length es) + 1)"
      using msg_path_eq[of 0 "int (length es) + 1" ?ms] small_ints[of "int (length es) + 1"] small_ints[of 0] by simp
    then show ?thesis using es(1) by (simp add: posted_def Let_def)
  qed
  have "st' = snd (Server.PostMsg ?r (makeStore sv ''file'' (db cfg) h) st)"
    using serve_circle[OF assms(3), of ?r sv cfg st c] assms(1,2,4) by (auto simp: maxContentLength_def split: prod.splits)
  then show ?thesis using keep
    by (auto simp: Server.PostMsg_def Let_def respond_def makeStore_def lift_store_def lift_action_def file_store_def
        split: prod.splits sum.splits go_error.splits) (metis snd_conv)+
qed

lemma net_post:
  assumes "client_ok e c" "dbtype cfg = ''file''" "length content \<le> 12239"
    "FileStore.circle_ok (the_circle cfg (GetUrlHash (sha1 e) c)) (fs st)" "has_room (the_circle cfg (GetUrlHash (sha1 e) c)) (fs st)"
  obtains enc st' w where
    "EncryptMessage (aes e) (random e) zero_Msg c content = Inr (enc, zero_Msg\<lparr>Iv := EncodeToString (random e)\<rparr>, snd (GetKeyData c))"
    "http (\<lambda>_. serve sv cfg) host (post_request (circle_path e c) (Marshal_Msg \<lparr>Iv = EncodeToString (random e), Message = EncodeToString enc\<rparr>)) (st, k) =
       (Inr empty_Response, (st', k))"
    "FileStore.circle_ok (the_circle cfg (GetUrlHash (sha1 e) c)) (fs st')"
    "file_log (the_circle cfg (GetUrlHash (sha1 e) c)) (fs st') = file_log (the_circle cfg (GetUrlHash (sha1 e) c)) (fs st) @ [w]"
    "Content w = \<lparr>Iv = EncodeToString (random e), Message = EncodeToString enc\<rparr>"
    "fst (getPlaintextMessage (aes e) (Content w) c) = content @ padding content"
    "files (fs st') (msg_path (the_circle cfg (GetUrlHash (sha1 e) c)) 0) = files (fs st) (msg_path (the_circle cfg (GetUrlHash (sha1 e) c)) 0)"
proof -
  obtain enc where enc:
    "EncryptMessage (aes e) (random e) zero_Msg c content = Inr (enc, zero_Msg\<lparr>Iv := EncodeToString (random e)\<rparr>, snd (GetKeyData c))"
    "length enc = length content + (16 - length content mod 16)" "enc \<noteq> []"
    "fst (getPlaintextMessage (aes e) \<lparr>Iv = EncodeToString (random e), Message = EncodeToString enc\<rparr> c) = content @ padding content"
    by (rule encrypt_posted[OF assms(1)])
  have iv: "length (random e) = 16" using assms(1) by (simp add: client_ok_def BlockSize_def)
  have hash: "is_hash (GetUrlHash (sha1 e) c)" using assms(1) by (intro hash_of_circle) (simp add: client_ok_def)
  have len: "length enc \<le> 12240"
  proof -
    have "length content div 16 \<le> 764" using assms(3) by simp
    then show ?thesis using enc(2) mult_div_mod_eq[of 16 "length content"] by linarith
  qed
  note m = posted_msg_ok[OF len enc(3) iv]
  let ?m = "\<lparr>Iv = EncodeToString (random e), Message = EncodeToString enc\<rparr>"
  obtain st' w where st': "serve sv cfg (post_request (''/'' @ GetUrlHash (sha1 e) c) (Marshal_Msg ?m)) (st, k) = (Inr empty_Response, (st', k))"
    "FileStore.circle_ok (the_circle cfg (GetUrlHash (sha1 e) c)) (fs st')"
    "file_log (the_circle cfg (GetUrlHash (sha1 e) c)) (fs st') = file_log (the_circle cfg (GetUrlHash (sha1 e) c)) (fs st) @ [w]"
    "Content w = ?m"
    by (rule serve_post[OF assms(2) hash assms(4,5) m(1) _ m(3)]) (use m(2) in simp_all)
  note zero = post_zero[OF st'(1) assms(2) hash m(3) assms(4,5)]
  show ?thesis
    by (rule that[OF enc(1) _ st'(2,3,4)]) (use st'(1,4) enc(4) zero in \<open>simp_all add: http_def circle_path_def\<close>)
qed

lemma low_bound_range:
  assumes "1 \<le> n"
  shows "nat (low_bound (int n)) \<le> n" "n - nat (low_bound (int n)) \<le> 30" "n \<noteq> 25 \<Longrightarrow> 1 \<le> nat (low_bound (int n))"
    "max 1 (low_bound (int n)) = max 1 (int n - 25)" "int (nat (low_bound (int n))) = low_bound (int n)"
    "low_bound (int n) = (if n < 25 then 1 else int n - 25)"
  using assms by (auto simp: low_bound_def nat_diff_distrib')

lemma Posts_page:
  assumes "NewCircle s = Inr c" "client_ok e c" "dbtype cfg = ''file''"
    "FileStore.circle_ok (the_circle cfg (GetUrlHash (sha1 e) c)) (fs st)"
    "1 \<le> msg_count (the_circle cfg (GetUrlHash (sha1 e) c)) (fs st)"
    "files (fs st) (msg_path (the_circle cfg (GetUrlHash (sha1 e) c)) 0) = None"
  defines "n \<equiv> msg_count (the_circle cfg (GetUrlHash (sha1 e) c)) (fs st)"
  obtains page where "Posts e (\<lambda>_. serve sv cfg) s (st, k) = (Inr (Render page), (st, k))"
    "lastMsg page = \<lparr>lastMessage = int n\<rparr>" "lowBound page = low_bound (int n)"
    "newMsgs page = map (decrypted e c) (map (\<lambda>w. w\<lparr>Time := 0\<rparr>)
       (rev (drop (nat (low_bound (int n)) - 1) (take n (file_log (the_circle cfg (GetUrlHash (sha1 e) c)) (fs st))))))"
proof -
  let ?ms = "the_circle cfg (GetUrlHash (sha1 e) c)" and ?lo = "nat (low_bound (int n))"
  let ?ws = "rev (drop (?lo - 1) (take n (file_log ?ms (fs st))))"
  have hash: "is_hash (GetUrlHash (sha1 e) c)" using assms(2) by (intro hash_of_circle) (simp add: client_ok_def)
  have n: "1 \<le> n" "n \<le> 10000" using assms(4-6) by (simp_all add: n_def FileStore.circle_ok_def)
  note lo = low_bound_range[OF n(1)]
  have s: "s \<noteq> []" using assms(1) by (auto simp: NewCircle_def strings_Index_Nil)
  have last: "http (\<lambda>_. serve sv cfg) h (get_request (circle_path e c)) (st, k) =
      (Inr (json_Response (Marshal_LastMessage \<lparr>lastMessage = int n\<rparr>)), (st, k))" for h
    using serve_last[OF assms(3) hash assms(4), of sv k] by (simp add: http_def circle_path_def n_def)
  have l: "fst (Unmarshal_LastMessage (Marshal_LastMessage \<lparr>lastMessage = int n\<rparr>) x) = \<lparr>lastMessage = int n\<rparr>" for x
    using Unmarshal_Marshal_LastMessage[of "\<lparr>lastMessage = int n\<rparr>" x] n(2) by (simp add: minInt_def maxInt_def)
  have "serve sv cfg (get_request (''/'' @ GetUrlHash (sha1 e) c @ ''/'' @ Itoa (int n) @ ''-'' @ Itoa (low_bound (int n)))) (st, k) =
      (Inr (json_Response (Marshal_MsgWraps ?ws)), (st, k))"
  proof (cases "n = 25")
    case True
    have "low_bound (int n) = 0" using True by (simp add: low_bound_def)
    then show ?thesis using serve_range_zero[OF assms(3) hash assms(4) _ _ assms(6), of n sv k] True by (simp add: n_def)
  next
    case False
    show ?thesis using serve_range[OF assms(3) hash assms(4) lo(3)[OF False] lo(1) _ lo(2), of sv k] lo(5) by (simp add: n_def)
  qed
  then have range: "http (\<lambda>_. serve sv cfg) h (get_request (circle_path e c @ ''/'' @ Itoa (int n) @ ''-'' @ Itoa (low_bound (int n)))) (st, k) =
      (Inr (json_Response (Marshal_MsgWraps ?ws)), (st, k))" for h
    by (simp add: http_def circle_path_def)
  have "good (JObj [(''lastMessage'', JNum (Itoa (int n)))])" by auto
  from json_parse_print[OF this] have obj: "json_parse (Marshal_LastMessage \<lparr>lastMessage = int n\<rparr>) \<noteq> Some JNull"
    by (simp add: Marshal_LastMessage_def)
  have "set ?ws \<subseteq> set (file_log ?ms (fs st))" by (auto dest: in_set_dropD in_set_takeD)
  then have "\<forall>w \<in> set ?ws. msgwrap_ok w" using file_log_wraps[OF assms(4)] by blast
  then have ws: "fst (Unmarshal_MsgWraps (Marshal_MsgWraps ?ws) []) = map (\<lambda>w. w\<lparr>Time := 0\<rparr>) ?ws"
    using Unmarshal_Marshal_MsgWraps[of ?ws] by simp
  obtain ds c' where d: "DecryptMsgs e c (map (\<lambda>w. w\<lparr>Time := 0\<rparr>) ?ws) = (ds, c')" by fastforce
  then have ds: "ds = map (decrypted e c) (map (\<lambda>w. w\<lparr>Time := 0\<rparr>) ?ws)" using DecryptMsgs_ok by (metis fst_conv)
  show ?thesis
    by (rule that[of "\<lparr>mtsnCircle = c', lastMsg = \<lparr>lastMessage = int n\<rparr>, lowBound = low_bound (int n), newMsgs = ds,
        urlHash = GetUrlHash (sha1 e) c', keylen = length (Key c'), rawkeylen = length (fst (GetKeyData c'))\<rparr>"])
      (use s assms(1) last l obj range ws d in \<open>simp_all add: Posts_def Let_def json_Response_def ds\<close>)
qed

text \<open>C6: What one user posts in the web client the next reader of the circle sees. With the file
  backend, and for the contents whose message fits into the 16384 bytes that the server takes, posting redirects to the
  circle, and its page then shows the latest messages without a gap, at most 26, newest first; the first one has the next
  number and the posted text, followed by the bytes of its padding. With 25 messages exactly the lower bound of the page
  is 0, a number that no message has (the last condition), and all of them are shown.\<close>

theorem web_post_then_posts:
  assumes "NewCircle s = Inr c" "client_ok e c" "dbtype cfg = ''file''" "length content \<le> 12239"
    "FileStore.circle_ok (the_circle cfg (GetUrlHash (sha1 e) c)) (fs st)" "has_room (the_circle cfg (GetUrlHash (sha1 e) c)) (fs st)"
    "n = msg_count (the_circle cfg (GetUrlHash (sha1 e) c)) (fs st) + 1"
    "files (fs st) (msg_path (the_circle cfg (GetUrlHash (sha1 e) c)) 0) = None"
  shows "\<exists>st' page. web_PostMsg e (\<lambda>_. serve sv cfg) s content (st, k) =
      (Inr (Redirect (''/Posts?circle='' @ QueryEscape (FullText c))), (st', k)) \<and>
    Posts e (\<lambda>_. serve sv cfg) s (st', k) = (Inr (Render page), (st', k)) \<and>
    lastMessage (lastMsg page) = int n \<and> lowBound page = (if n < 25 then 1 else int n - 25) \<and>
    map Id (newMsgs page) = rev [max 1 (int n - 25)..int n] \<and>
    Message (Content (hd (newMsgs page))) = content @ padding content"
proof -
  let ?ms = "the_circle cfg (GetUrlHash (sha1 e) c)"
  obtain enc st' w where p:
    "EncryptMessage (aes e) (random e) zero_Msg c content = Inr (enc, zero_Msg\<lparr>Iv := EncodeToString (random e)\<rparr>, snd (GetKeyData c))"
    "http (\<lambda>_. serve sv cfg) (Circle.Server c) (post_request (circle_path e c) (Marshal_Msg \<lparr>Iv = EncodeToString (random e), Message = EncodeToString enc\<rparr>)) (st, k) =
       (Inr empty_Response, (st', k))"
    "FileStore.circle_ok ?ms (fs st')" "file_log ?ms (fs st') = file_log ?ms (fs st) @ [w]"
    "Content w = \<lparr>Iv = EncodeToString (random e), Message = EncodeToString enc\<rparr>"
    "fst (getPlaintextMessage (aes e) (Content w) c) = content @ padding content"
    "files (fs st') (msg_path ?ms 0) = files (fs st) (msg_path ?ms 0)"
    by (rule net_post[OF assms(2-6)])
  have n: "msg_count ?ms (fs st') = n" "1 \<le> n" using arg_cong[OF p(4), of length] assms(7) by simp_all
  let ?lo = "nat (low_bound (int n))" and ?f = "decrypted e c \<circ> (\<lambda>w. w\<lparr>Time := 0\<rparr>)"
  let ?ws = "rev (drop (?lo - 1) (take n (file_log ?ms (fs st'))))"
  obtain page where page: "Posts e (\<lambda>_. serve sv cfg) s (st', k) = (Inr (Render page), (st', k))"
    "lastMsg page = \<lparr>lastMessage = int n\<rparr>" "lowBound page = low_bound (int n)" "newMsgs page = map ?f ?ws"
    by (rule Posts_page[OF assms(1-3) p(3), of sv k]) (use n p(7) assms(8) in simp_all)
  note lo = low_bound_range[OF n(2)]
  have "length (file_log ?ms (fs st)) = n - 1" using n(2) assms(7) by simp
  then have hd: "?ws = w # rev (drop (?lo - 1) (file_log ?ms (fs st)))" using p(4) lo(1) n(2) by simp
  have "map Id (newMsgs page) = rev (drop (?lo - 1) (take n (map Id (file_log ?ms (fs st')))))"
    unfolding page(4) by (simp add: decrypted_def comp_def rev_map drop_map take_map)
  also have "map Id (file_log ?ms (fs st')) = [1..int n]" using n(1) by (simp add: file_log_def wrap_file_def comp_def)
  also have "drop (?lo - 1) (take n [1..int n]) = [max 1 (low_bound (int n))..int n]"
    using lo(1) by (intro nth_equalityI) (auto simp: nth_upto)
  finally have ids: "map Id (newMsgs page) = rev [max 1 (int n - 25)..int n]" unfolding lo(4) .
  show ?thesis
    using p(1,2,6) page(1-3) hd page(4) assms(1) ids lo(6)
    by (intro exI[of _ st'] exI[of _ page]) (simp add: web_PostMsg_def decrypted_def)
qed

text \<open>A longer content is refused by the server, and the client shows no reason.\<close>

lemma long_post_refused:
  assumes "NewCircle s = Inr c" "client_ok e c" "12239 < length content"
  shows "web_PostMsg e (\<lambda>_. serve sv cfg) s content (st, k) = (Inr (RenderError None), (st, k))"
proof -
  obtain enc where enc:
    "EncryptMessage (aes e) (random e) zero_Msg c content = Inr (enc, zero_Msg\<lparr>Iv := EncodeToString (random e)\<rparr>, snd (GetKeyData c))"
    "length enc = length content + (16 - length content mod 16)"
    by (rule encrypt_posted[OF assms(2)])
  have iv: "length (random e) = 16" using assms(2) by (simp add: client_ok_def BlockSize_def)
  have "765 \<le> length content div 16" using assms(3) by linarith
  then have "12256 \<le> length enc" using enc(2) mult_div_mod_eq[of 16 "length content"] by linarith
  then have "16344 \<le> length (EncodeToString enc)" by (simp add: length_EncodeToString)
  moreover have "length (EncodeToString (random e)) = 24" using iv by (simp add: length_EncodeToString)
  ultimately have big: "16384 < length (Marshal_Msg \<lparr>Iv = EncodeToString (random e), Message = EncodeToString enc\<rparr>)"
    using length_posted[of "random e" enc] iv by (cases "random e") simp_all
  have "is_hash (GetUrlHash (sha1 e) c)" using assms(2) by (intro hash_of_circle) (simp add: client_ok_def)
  from hash_path[OF this, of "[]"] big
  have "serve sv cfg (post_request (circle_path e c) (Marshal_Msg \<lparr>Iv = EncodeToString (random e), Message = EncodeToString enc\<rparr>)) (st, k) =
      (Inr ErrorMaxContent, (st, k))"
    by (simp add: serve_def root_handler_def maxContentLength_def circle_path_def)
  then show ?thesis using assms(1) enc(1)
    by (simp add: web_PostMsg_def http_def ErrorMaxContent_def http_Error_def)
qed

text \<open>An environment for the witnesses: a digest that does not look at its input.\<close>

definition sample_env :: env where
  "sample_env = \<lparr>sha1 = (\<lambda>_. replicate 20 0), aes = xor_cipher, random = replicate 16 7\<rparr>"

lemma sample_client: "client_ok sample_env (sample_circle\<lparr>FullText := t, rawKeyData := []\<rparr>)"
  by (simp add: client_ok_def sample_env_def xor_cipher_ok BlockSize_def GetKeyData_def sample_circle_def key_ok_def Let_def)

lemma sample_parsed: "NewCircle (GetFullText sample_circle) = Inr (sample_circle\<lparr>FullText := GetFullText sample_circle, rawKeyData := []\<rparr>)"
  using NewCircle_uuid[of "Shortname sample_circle" "Uuid sample_circle" "Key sample_circle" "Circle.Server sample_circle"]
  by (simp add: sample_circle_def GetFullText_def)

abbreviation the_sample :: Circle where
  "the_sample \<equiv> sample_circle\<lparr>FullText := GetFullText sample_circle, rawKeyData := []\<rparr>"

abbreviation the_sample_store :: FileStore where
  "the_sample_store \<equiv> the_circle file_config (GetUrlHash (sha1 sample_env) the_sample)"

lemma sample_ok:
  "FileStore.circle_ok the_sample_store (fs fresh_servers)" "has_room the_sample_store (fs fresh_servers)"
  "msg_count the_sample_store (fs fresh_servers) = 0"
proof -
  have "is_hash (GetUrlHash (sha1 sample_env) the_sample)" by (rule hash_of_circle) (simp add: sample_env_def)
  then show "FileStore.circle_ok the_sample_store (fs fresh_servers)" by (rule fresh_servers_ok)
  show "has_room the_sample_store (fs fresh_servers)" by (rule fresh_servers_ok)
  show "msg_count the_sample_store (fs fresh_servers) = 0"
    by (simp add: msg_count_def fresh_servers_def fresh_world_def)
qed

lemma file_dbtype: "dbtype file_config = ''file''"
  by (simp add: file_config_def)

theorem web_post_then_posts_witness:
  "\<exists>st' page. web_PostMsg sample_env (\<lambda>_. serve no_services file_config) (GetFullText sample_circle) ''hello'' (fresh_servers, []) =
      (Inr (Redirect (''/Posts?circle='' @ QueryEscape (FullText the_sample))), (st', [])) \<and>
    Posts sample_env (\<lambda>_. serve no_services file_config) (GetFullText sample_circle) (st', []) = (Inr (Render page), (st', [])) \<and>
    lastMessage (lastMsg page) = int 1 \<and> lowBound page = (if 1 < (25::nat) then 1 else int 1 - 25) \<and>
    map Id (newMsgs page) = rev [max 1 (int 1 - 25)..int 1] \<and> Message (Content (hd (newMsgs page))) = ''hello'' @ padding ''hello''"
  by (rule web_post_then_posts[OF sample_parsed sample_client file_dbtype _ sample_ok(1,2)])
    (simp_all add: sample_ok(3), simp add: fresh_servers_def fresh_world_def)

text \<open>C7: The command line client on the same server: \<open>post\<close> prints the status line \<open>200 OK\<close>, and \<open>read\<close> of the next
  number then prints the posted text, followed by the bytes of its padding.\<close>

theorem goclient_post_then_read:
  assumes "NewCircle s = Inr c" "client_ok e c" "dbtype cfg = ''file''" "length content \<le> 12239"
    "FileStore.circle_ok (the_circle cfg (GetUrlHash (sha1 e) c)) (fs st)" "has_room (the_circle cfg (GetUrlHash (sha1 e) c)) (fs st)"
    "n = msg_count (the_circle cfg (GetUrlHash (sha1 e) c)) (fs st) + 1"
  shows "\<exists>st' date. goclient e (\<lambda>_. serve sv cfg) s ''post'' content (st, k) = (Inr [''Response: 200 OK''], (st', k)) \<and>
    goclient e (\<lambda>_. serve sv cfg) s ''read'' (Itoa (int n)) (st', k) = (Inr [date, content @ padding content], (st', k))"
proof -
  let ?ms = "the_circle cfg (GetUrlHash (sha1 e) c)"
  obtain enc st' w where p:
    "EncryptMessage (aes e) (random e) zero_Msg c content = Inr (enc, zero_Msg\<lparr>Iv := EncodeToString (random e)\<rparr>, snd (GetKeyData c))"
    "http (\<lambda>_. serve sv cfg) (Circle.Server c) (post_request (circle_path e c) (Marshal_Msg \<lparr>Iv = EncodeToString (random e), Message = EncodeToString enc\<rparr>)) (st, k) =
       (Inr empty_Response, (st', k))"
    "FileStore.circle_ok ?ms (fs st')" "file_log ?ms (fs st') = file_log ?ms (fs st) @ [w]"
    "Content w = \<lparr>Iv = EncodeToString (random e), Message = EncodeToString enc\<rparr>"
    "fst (getPlaintextMessage (aes e) (Content w) c) = content @ padding content"
    by (rule net_post[OF assms(2-6)])
  have hash: "is_hash (GetUrlHash (sha1 e) c)" using assms(2) by (intro hash_of_circle) (simp add: client_ok_def)
  have n: "msg_count ?ms (fs st') = n" "1 \<le> n" using arg_cong[OF p(4), of length] assms(7) by simp_all
  have w: "file_log ?ms (fs st') ! (n - 1) = w" using p(4) assms(7) by (simp add: nth_append)
  obtain resp where r: "http (\<lambda>_. serve sv cfg) (Circle.Server c) (get_request (circle_path e c @ ''/'' @ Itoa (int n))) (st', k) =
      (Inr resp, (st', k))" "Written resp = Marshal_Msg (Content w)"
    using serve_one[OF assms(3) hash p(3) n(2), of sv k] n(1) w by (simp add: http_def circle_path_def Let_def)
  have "msg_ok (Content w)" using p(5) by (simp add: msg_ok_def utf8_valid_EncodeToString)
  then have m: "fst (Unmarshal_Msg (Written resp) zero_Msg) = Content w" using r(2) Unmarshal_Marshal_Msg by simp
  have ne: "content @ padding content \<noteq> []" by (simp add: padding_def)
  obtain bs where bs: "CryptBlocks cbc_decrypt (dec_block (aes e)) (fst (GetKeyData c)) (GetIVData (Content w)) (fst (DecodeString (Message (Content w)))) = Inr bs"
    "string_of bs = content @ padding content"
    using p(6) ne by (auto simp: getPlaintextMessage_def case_prod_beta Let_def split: sum.splits)
  have "Status empty_Response = ''200 OK''" by code_simp
  then show ?thesis
    using p(1,2) r(1) m bs assms(1) by (simp add: goclient_def Let_def)
qed

theorem goclient_post_then_read_witness:
  "\<exists>st' date. goclient sample_env (\<lambda>_. serve no_services file_config) (GetFullText sample_circle) ''post'' ''hello'' (fresh_servers, []) =
      (Inr [''Response: 200 OK''], (st', [])) \<and>
    goclient sample_env (\<lambda>_. serve no_services file_config) (GetFullText sample_circle) ''read'' (Itoa (int 1)) (st', []) =
      (Inr [date, ''hello'' @ padding ''hello''], (st', []))"
  by (rule goclient_post_then_read[OF sample_parsed sample_client file_dbtype _ sample_ok(1,2)]) (simp_all add: sample_ok(3))

section \<open>The circles of the web client\<close>

text \<open>The directory holds circles that were saved by this client.\<close>

definition disk_ok :: "disk \<Rightarrow> (string \<times> Circle) list \<Rightarrow> bool" where
  "disk_ok d cs \<longleftrightarrow> circles d = Some (map (\<lambda>(name, c). (name, Marshal_Circle c)) cs) \<and>
     (\<forall>(name, c) \<in> set cs. circle_utf8 c \<and> FullText c = GetFullText c) \<and> (\<forall>p. \<not> denied d p)"

lemma read_circles_ok:
  assumes "\<forall>(name, c) \<in> set cs. circle_utf8 c \<and> FullText c = GetFullText c" "\<forall>p. \<not> denied d p"
  shows "read_circles d ds (map (\<lambda>(name, c). (name, Marshal_Circle c)) cs) = Render (ds @ map (\<lambda>(name, c). c\<lparr>rawKeyData := []\<rparr>) cs)"
  using assms(1)
proof (induction cs arbitrary: ds)
  case (Cons x cs)
  obtain name c where x: "x = (name, c)" by force
  have "circle_utf8 c" "FullText c = GetFullText c" using Cons.prems x by simp_all
  moreover have "c\<lparr>rawKeyData := [], FullText := GetFullText (c\<lparr>rawKeyData := []\<rparr>)\<rparr> = c\<lparr>rawKeyData := []\<rparr>"
    using \<open>FullText c = GetFullText c\<close> by (simp add: GetFullText_def)
  ultimately show ?case
    using Cons x assms(2) Unmarshal_Marshal_Circle[of c] by simp
qed simp

lemma createDirs_ok: "disk_ok d cs \<Longrightarrow> createDirs ds d = (Inr (), d)"
  by (induction ds) (simp_all add: disk_ok_def os_MkdirAll_def)

lemma CircleList_ok: "disk_ok d cs \<Longrightarrow> CircleList d = (Inr (Render (map (\<lambda>(name, c). c\<lparr>rawKeyData := []\<rparr>) cs)), d)"
  using createDirs_ok[of d cs] read_circles_ok[of cs d "[]"] by (simp add: CircleList_def disk_ok_def)

text \<open>Joining a circle under a new URL hash adds it at the end of the list of circles; joining one
  whose hash is taken, as after a change of its server or name only, reports success and changes
  nothing.\<close>

theorem JoinCircle_CircleList:
  assumes "NewCircle s = Inr c" "circle_utf8 c" "disk_ok d cs"
  shows "let d' = snd (JoinCircle e s d) in
    fst (JoinCircle e s d) = Inr (Redirect ''CircleList'') \<and>
    CircleList d' = (Inr (Render (map (\<lambda>(name, c). c\<lparr>rawKeyData := []\<rparr>) cs @
      (if GetUrlHash (sha1 e) c \<in> fst ` set cs then [] else [c]))), d')"
proof -
  let ?h = "GetUrlHash (sha1 e) c"
  have s: "s \<noteq> []" using assms(1) by (auto simp: NewCircle_def strings_Index_Nil)
  have c: "FullText c = GetFullText c" "rawKeyData c = []"
    using NewCircle_Inr_shape[OF assms(1)] by auto
  have names: "fst ` set (map (\<lambda>(name, c). (name, Marshal_Circle c)) cs) = fst ` set cs" by force
  show ?thesis
  proof (cases "?h \<in> fst ` set cs")
    case True
    then have "JoinCircle e s d = (Inr (Redirect ''CircleList''), d)"
      using s assms(1,3) names by (simp add: JoinCircle_def SaveCircle_def Let_def disk_ok_def)
    then show ?thesis using True CircleList_ok[OF assms(3)] by simp
  next
    case False
    let ?d = "d\<lparr>circles := Some (map (\<lambda>(name, c). (name, Marshal_Circle c)) (cs @ [(?h, c)]))\<rparr>"
    have "JoinCircle e s d = (Inr (Redirect ''CircleList''), ?d)"
      using s assms(1,3) names False by (simp add: JoinCircle_def SaveCircle_def Let_def disk_ok_def)
    moreover have "disk_ok ?d (cs @ [(?h, c)])" using assms(2,3) c by (auto simp: disk_ok_def)
    ultimately show ?thesis using False CircleList_ok[of ?d "cs @ [(?h, c)]"] c(2) by simp
  qed
qed

definition empty_disk :: disk where
  "empty_disk = \<lparr>circles = Some [], denied = (\<lambda>p. False)\<rparr>"

theorem JoinCircle_CircleList_witness:
  "CircleList (snd (JoinCircle sample_env (GetFullText sample_circle) empty_disk)) =
     (Inr (Render [the_sample]), snd (JoinCircle sample_env (GetFullText sample_circle) empty_disk))"
proof -
  have u: "circle_utf8 the_sample"
    unfolding circle_utf8_def by (intro conjI utf8_valid_plain) (simp_all add: sample_circle_def GetFullText_def ascii_Cons)
  have d: "disk_ok empty_disk []" by (simp add: disk_ok_def empty_disk_def)
  show ?thesis using JoinCircle_CircleList[OF sample_parsed u d, of sample_env] by (simp add: Let_def)
qed

end
