(* ===== verification/Posting.thy ===== *)
theory Posting
  imports FileStore
begin

text \<open>
  Concurrent posts to a circle of the file backend. The web server runs a goroutine for each
  request, so the system calls of several \<open>PostMsg\<close> interleave; only the channel that serves as a
  lock orders them. Here \<open>FileStore.PostMsg\<close> is cut into steps at those calls.
\<close>

section \<open>A post in steps\<close>

datatype phase =
    Start
  | Missing
  | Waiting
  | Locked
  | Numbered int
  | Created int
  | Finished int
  | Failed go_error

text \<open>None is a post that waits for the lock or is over. \<open>Stat\<close> and \<open>Mkdir\<close> are two calls, and so are
  the creation of the file and its writing.\<close>

definition post_step :: "FileStore \<Rightarrow> MsgWrap \<Rightarrow> phase \<Rightarrow> world \<Rightarrow> (phase \<times> world) option" where
  "post_step ms msgw p s =
     (case p of
        Start \<Rightarrow> Some (if dirs s (circle_dir ms) \<noteq> None \<or> files s (circle_dir ms) \<noteq> None then Waiting else Missing, s)
      | Missing \<Rightarrow> (case os_Mkdir (circle_dir ms) s of (Inl e, s) \<Rightarrow> Some (Failed e, s) | (Inr _, s) \<Rightarrow> Some (Waiting, s))
      | Waiting \<Rightarrow> (case receive (lock s) of None \<Rightarrow> None | Some n \<Rightarrow> Some (Locked, s\<lparr>lock := n\<rparr>))
      | Locked \<Rightarrow> (case updateCounter ms s of (Inl e, s) \<Rightarrow> Some (Failed e, s) | (Inr msgId, s) \<Rightarrow> Some (Numbered msgId, s))
      | Numbered msgId \<Rightarrow>
          (case os_Create (circle_dir ms) (Itoa msgId) s of
             (Inl e, s) \<Rightarrow> Some (Failed e, Unlock s)
           | (Inr _, s) \<Rightarrow> Some (Created msgId, s))
      | Created msgId \<Rightarrow> Some (Finished msgId, Unlock (os_Write (msg_path ms msgId) (Marshal_Msg (Content msgw)) s))
      | Finished _ \<Rightarrow> None
      | Failed _ \<Rightarrow> None)"

text \<open>A post that runs alone, for as many steps as it needs (seven at most).\<close>

fun run_post :: "nat \<Rightarrow> FileStore \<Rightarrow> MsgWrap \<Rightarrow> phase \<Rightarrow> world \<Rightarrow> phase \<times> world" where
  "run_post 0 ms msgw p s = (p, s)"
| "run_post (Suc k) ms msgw p s =
     (case post_step ms msgw p s of None \<Rightarrow> (p, s) | Some (p, s) \<Rightarrow> run_post k ms msgw p s)"

definition outcome :: "phase \<Rightarrow> unit go" where
  "outcome p = (case p of Finished _ \<Rightarrow> Inr () | Failed e \<Rightarrow> Inl e | _ \<Rightarrow> Inl Diverge)"

lemma run_post_Suc_eq: "run_post 7 ms msgw p s = run_post (Suc (Suc (Suc (Suc (Suc (Suc (Suc 0))))))) ms msgw p s"
  by (simp add: eval_nat_numeral)

lemma updateCounter_eq:
  "updateCounter ms s = (Inr (wrap64 (case dirs s (circle_dir ms) of None \<Rightarrow> 1 | Some es \<Rightarrow> mostRecent es + 1)), s)"
  by (simp add: updateCounter_def andThen_def GetLastMsg_def split: option.splits)

text \<open>A post that is not interleaved with others is exactly \<open>FileStore.PostMsg\<close>, in its result and in the
  world it leaves, also where it fails or waits for a lock that nobody releases.\<close>

theorem run_post_alone:
  "PostMsg ms msgw s = (let (p, s') = run_post 7 ms msgw Start s in (outcome p, s'))"
  unfolding run_post_Suc_eq
  by (auto simp: post_step_def outcome_def PostMsg_def ensure_dir_def os_Mkdir_def os_Create_def updateCounter_eq
      andThen_def Let_def split: option.splits if_splits)

section \<open>Several posts at once\<close>

text \<open>The world and the phases of the posts. A step is one of a post, or time going on.\<close>

inductive posts_step :: "FileStore \<Rightarrow> MsgWrap list \<Rightarrow> world \<times> phase list \<Rightarrow> world \<times> phase list \<Rightarrow> bool"
  for ms msgs where
  Step: "i < length ps \<Longrightarrow> post_step ms (msgs ! i) (ps ! i) s = Some (p, s') \<Longrightarrow>
    posts_step ms msgs (s, ps) (s', ps[i := p])"
| Tick: "now s \<le> t \<Longrightarrow> posts_step ms msgs (s, ps) (s\<lparr>now := t\<rparr>, ps)"

definition posts_reach :: "FileStore \<Rightarrow> MsgWrap list \<Rightarrow> world \<Rightarrow> world \<times> phase list \<Rightarrow> bool" where
  "posts_reach ms msgs s c \<longleftrightarrow> (posts_step ms msgs)\<^sup>*\<^sup>* (s, replicate (length msgs) Start) c"

text \<open>The phases that hold the lock, and those whose file is there.\<close>

definition critical :: "phase \<Rightarrow> bool" where
  "critical p = (case p of Locked \<Rightarrow> True | Numbered _ \<Rightarrow> True | Created _ \<Rightarrow> True | _ \<Rightarrow> False)"

definition entered :: "phase \<Rightarrow> bool" where
  "entered p = (case p of Created _ \<Rightarrow> True | Finished _ \<Rightarrow> True | _ \<Rightarrow> False)"

fun msg_number :: "phase \<Rightarrow> int" where
  "msg_number (Created i) = i"
| "msg_number (Finished i) = i"
| "msg_number _ = 0"

lemma entered_simps [simp]:
  "entered (Created i)" "entered (Finished i)" "\<not> entered Start" "\<not> entered Missing" "\<not> entered Waiting"
  "\<not> entered Locked" "\<not> entered (Numbered i)" "\<not> entered (Failed e)"
  by (simp_all add: entered_def)

lemma critical_simps [simp]:
  "critical Locked" "critical (Numbered i)" "critical (Created i)" "\<not> critical Start" "\<not> critical Missing"
  "\<not> critical Waiting" "\<not> critical (Finished i)" "\<not> critical (Failed e)"
  by (simp_all add: critical_def)

section \<open>The invariant\<close>

definition lock_law :: "phase list \<Rightarrow> world \<Rightarrow> bool" where
  "lock_law ps s \<longleftrightarrow> lock s + length (filter critical ps) = 1"

definition dir_law :: "FileStore \<Rightarrow> phase list \<Rightarrow> world \<Rightarrow> bool" where
  "dir_law ms ps s \<longleftrightarrow>
     (case dirs s (circle_dir ms) of
        None \<Rightarrow> files s (circle_dir ms) = None \<and> list_all (\<lambda>p. p = Start \<or> p = Missing \<or> (\<exists>e. p = Failed e)) ps
      | Some es \<Rightarrow> entries_ok (length es) es)"

definition count_law :: "FileStore \<Rightarrow> nat \<Rightarrow> phase list \<Rightarrow> world \<Rightarrow> bool" where
  "count_law ms n0 ps s \<longleftrightarrow> msg_count ms s = n0 + length (filter entered ps)"

definition phase_law :: "FileStore \<Rightarrow> nat \<Rightarrow> MsgWrap \<Rightarrow> phase \<Rightarrow> world \<Rightarrow> bool" where
  "phase_law ms n0 msgw p s =
     (case p of
        Numbered i \<Rightarrow> i = int (msg_count ms s) + 1
      | Created i \<Rightarrow> int n0 < i \<and> i = int (msg_count ms s) \<and>
          (\<exists>t. files s (msg_path ms i) = Some \<lparr>text_of = [], mtime = t\<rparr>)
      | Finished i \<Rightarrow> int n0 < i \<and> i \<le> int (msg_count ms s) \<and>
          (\<exists>t. files s (msg_path ms i) = Some \<lparr>text_of = kept s (msg_path ms i) (Marshal_Msg (Content msgw)), mtime = t\<rparr>)
      | _ \<Rightarrow> True)"

definition distinct_law :: "phase list \<Rightarrow> bool" where
  "distinct_law ps \<longleftrightarrow> (\<forall>i j. i < length ps \<and> j < length ps \<and> entered (ps ! i) \<and> entered (ps ! j) \<and> i \<noteq> j \<longrightarrow>
     msg_number (ps ! i) \<noteq> msg_number (ps ! j))"

definition old_law :: "FileStore \<Rightarrow> world \<Rightarrow> world \<Rightarrow> bool" where
  "old_law ms s0 s \<longleftrightarrow> cut s = cut s0 \<and> (\<forall>k. 1 \<le> k \<and> k \<le> int (msg_count ms s0) \<longrightarrow> files s (msg_path ms k) = files s0 (msg_path ms k))"

definition posts_inv :: "FileStore \<Rightarrow> MsgWrap list \<Rightarrow> world \<Rightarrow> world \<Rightarrow> phase list \<Rightarrow> bool" where
  "posts_inv ms msgs s0 s ps \<longleftrightarrow> length ps = length msgs \<and> lock_law ps s \<and> dir_law ms ps s \<and>
     count_law ms (msg_count ms s0) ps s \<and>
     (\<forall>i < length ps. phase_law ms (msg_count ms s0) (msgs ! i) (ps ! i) s) \<and> distinct_law ps \<and> old_law ms s0 s"

lemma filter_update:
  assumes "i < length xs"
  shows "length (filter P (xs[i := y])) + (if P (xs ! i) then 1 else 0) = length (filter P xs) + (if P y then 1 else 0)"
  using assms
proof (induction xs arbitrary: i)
  case (Cons x xs)
  then show ?case by (cases i) auto
qed simp

lemma nth_update: "xs[i := y] ! j = (if j = i \<and> i < length xs then y else xs ! j)"
  by (cases "i < length xs") (auto simp: nth_list_update list_update_beyond)

lemma filter_two:
  assumes "i < length xs" "j < length xs" "i \<noteq> j" "P (xs ! i)" "P (xs ! j)"
  shows "2 \<le> length (filter P xs)"
proof -
  have "card {i, j} \<le> card {k. k < length xs \<and> P (xs ! k)}" using assms by (intro card_mono) auto
  then show ?thesis using assms(3) by (simp add: length_filter_conv_card)
qed

lemma lock_law_critical:
  assumes "lock_law ps s" "i < length ps" "critical (ps ! i)"
  shows "lock s = 0" "j < length ps \<Longrightarrow> critical (ps ! j) \<Longrightarrow> j = i"
proof -
  have "0 < length (filter critical ps)" using assms(2,3) filter_update[of i ps critical Start] by (auto simp: critical_def)
  then show "lock s = 0" using assms(1) unfolding lock_law_def by linarith
  show "j = i" if "j < length ps" "critical (ps ! j)"
    using filter_two[OF that(1) assms(2) _ that(2) assms(3)] assms(1) by (auto simp: lock_law_def)
qed

lemma lock_law_step:
  assumes "lock_law ps s" "i < length ps"
    and "lock s' + (if critical p then 1 else 0) = lock s + (if critical (ps ! i) then 1 else 0)"
  shows "lock_law (ps[i := p]) s'"
  using assms filter_update[OF assms(2), of critical p] by (simp add: lock_law_def)


lemma dir_law_phase:
  assumes "dir_law ms ps s" "i < length ps" "ps ! i = Waiting \<or> critical (ps ! i)"
  obtains es where "dirs s (circle_dir ms) = Some es" "entries_ok (length es) es"
proof (cases "dirs s (circle_dir ms)")
  case None
  then have "list_all (\<lambda>p. p = Start \<or> p = Missing \<or> (\<exists>e. p = Failed e)) ps" using assms(1) by (simp add: dir_law_def)
  then show ?thesis using assms(2,3) by (auto simp: list_all_length critical_def)
next
  case (Some es)
  then show ?thesis using that assms(1) by (simp add: dir_law_def)
qed

lemma dir_law_update:
  assumes "dir_law ms ps s" "dirs s' = dirs s" "files s' = files s" "i < length ps"
    and "dirs s (circle_dir ms) = None \<Longrightarrow> p = Start \<or> p = Missing \<or> (\<exists>e. p = Failed e)"
  shows "dir_law ms (ps[i := p]) s'"
  using assms by (auto simp: dir_law_def list_all_length nth_update split: option.splits)

lemma distinct_lawD:
  "distinct_law ps \<Longrightarrow> i < length ps \<Longrightarrow> j < length ps \<Longrightarrow> entered (ps ! i) \<Longrightarrow> entered (ps ! j) \<Longrightarrow> i \<noteq> j \<Longrightarrow>
   msg_number (ps ! i) \<noteq> msg_number (ps ! j)"
  unfolding distinct_law_def by blast

lemma distinct_law_update:
  assumes "distinct_law ps"
    and "entered p \<Longrightarrow> \<forall>j < length ps. j \<noteq> i \<and> entered (ps ! j) \<longrightarrow> msg_number (ps ! j) \<noteq> msg_number p"
  shows "distinct_law (ps[i := p])"
  unfolding distinct_law_def
proof (intro allI impI)
  fix j k assume "j < length (ps[i := p]) \<and> k < length (ps[i := p]) \<and> entered (ps[i := p] ! j) \<and>
      entered (ps[i := p] ! k) \<and> j \<noteq> k"
  then show "msg_number (ps[i := p] ! j) \<noteq> msg_number (ps[i := p] ! k)"
    using assms by (auto simp: distinct_law_def nth_update split: if_splits)
qed

lemma phase_law_same:
  "phase_law ms n0 m p s \<Longrightarrow> dirs s' = dirs s \<Longrightarrow> files s' = files s \<Longrightarrow> cut s' = cut s \<Longrightarrow> phase_law ms n0 m p s'"
  using kept_same[of s' s] by (cases p) (auto simp: phase_law_def msg_count_def)

text \<open>A step that touches nothing but the lock.\<close>

lemma inv_quiet:
  assumes inv: "posts_inv ms msgs s0 s ps" and i: "i < length ps"
    and same: "dirs s' = dirs s" "files s' = files s" "cut s' = cut s"
    and lock: "lock s' + (if critical p then 1 else 0) = lock s + (if critical (ps ! i) then 1 else 0)"
    and entered: "\<not> entered p" "\<not> entered (ps ! i)"
    and dir: "dirs s (circle_dir ms) = None \<Longrightarrow> p = Start \<or> p = Missing \<or> (\<exists>e. p = Failed e)"
    and law: "phase_law ms (msg_count ms s0) (msgs ! i) p s"
  shows "posts_inv ms msgs s0 s' (ps[i := p])"
proof -
  have "lock_law (ps[i := p]) s'" using lock_law_step[OF _ i lock] inv by (simp add: posts_inv_def)
  moreover have "dir_law ms (ps[i := p]) s'" using dir_law_update[OF _ same(1,2) i dir] inv by (simp add: posts_inv_def)
  moreover have "count_law ms (msg_count ms s0) (ps[i := p]) s'"
    using inv filter_update[OF i, of entered p] entered same by (simp add: posts_inv_def count_law_def msg_count_def)
  moreover have "\<forall>j < length ps. phase_law ms (msg_count ms s0) (msgs ! j) (ps[i := p] ! j) s'"
    using inv law phase_law_same[OF _ same] by (auto simp: posts_inv_def nth_update)
  moreover have "distinct_law (ps[i := p])" using distinct_law_update[of ps p i] inv entered by (simp add: posts_inv_def)
  moreover have "old_law ms s0 s'" using inv same by (simp add: posts_inv_def old_law_def)
  ultimately show ?thesis using inv by (simp add: posts_inv_def)
qed

lemma inv_mkdir:
  assumes inv: "posts_inv ms msgs s0 s ps" and i: "i < length ps" "ps ! i = Missing"
    and none: "dirs s (circle_dir ms) = None"
  shows "posts_inv ms msgs s0 (s\<lparr>dirs := (dirs s)(circle_dir ms \<mapsto> [])\<rparr>) (ps[i := Waiting])"
proof -
  let ?s = "s\<lparr>dirs := (dirs s)(circle_dir ms \<mapsto> [])\<rparr>"
  have count: "msg_count ms ?s = msg_count ms s" using none by (simp add: msg_count_def)
  have "lock_law (ps[i := Waiting]) ?s"
    by (rule lock_law_step) (use inv i in \<open>simp_all add: posts_inv_def critical_def\<close>)
  moreover have "dir_law ms (ps[i := Waiting]) ?s" by (simp add: dir_law_def entries_ok_def)
  moreover have "count_law ms (msg_count ms s0) (ps[i := Waiting]) ?s"
    using inv i filter_update[OF i(1), of entered Waiting] count by (simp add: posts_inv_def count_law_def entered_def)
  moreover have "\<forall>j < length ps. phase_law ms (msg_count ms s0) (msgs ! j) (ps[i := Waiting] ! j) ?s"
    using inv count kept_same[of ?s s] by (auto simp: posts_inv_def phase_law_def nth_update split: phase.splits)
  moreover have "distinct_law (ps[i := Waiting])"
    using distinct_law_update[of ps Waiting i] inv by (simp add: posts_inv_def entered_def)
  moreover have "old_law ms s0 ?s" using inv by (simp add: posts_inv_def old_law_def)
  ultimately show ?thesis using inv by (simp add: posts_inv_def)
qed


lemma inv_create:
  assumes inv: "posts_inv ms msgs s0 s ps" and i: "i < length ps" "ps ! i = Numbered k"
    and bound: "msg_count ms s0 + length msgs \<le> 10000"
    and s': "os_Create (circle_dir ms) (Itoa k) s = (Inr (), s')"
  shows "posts_inv ms msgs s0 s' (ps[i := Created k])"
proof -
  let ?n = "msg_count ms s" and ?old = "msg_count ms s0"
  obtain es where es: "dirs s (circle_dir ms) = Some es" "entries_ok (length es) es"
    using dir_law_phase[of ms ps s i] inv i by (auto simp: posts_inv_def critical_def)
  have n: "?n = length es" using es(1) by (simp add: msg_count_def)
  have k: "k = int ?n + 1" using inv i unfolding posts_inv_def phase_law_def by auto
  have entered: "length (filter entered (ps[i := Created k])) = Suc (length (filter entered ps))"
    using filter_update[OF i(1), of entered "Created k"] i(2) by (simp add: entered_def)
  have count: "?n = ?old + length (filter entered ps)" using inv by (simp add: posts_inv_def count_law_def)
  have small: "?n < 10000"
    using count entered length_filter_le[of entered "ps[i := Created k]"] inv bound by (simp add: posts_inv_def)
  let ?es = "enter (slot s (msg_path ms k)) (Itoa k) es"
  have s'_eq: "s' = s\<lparr>dirs := (dirs s)(circle_dir ms \<mapsto> ?es), files := (files s)(msg_path ms k \<mapsto> \<lparr>text_of = [], mtime = now s\<rparr>)\<rparr>"
    using s' es(1) by (auto simp: os_Create_def Let_def msg_path_def split: if_splits)
  have es': "entries_ok (Suc ?n) ?es" using enter_entries[OF es(2)] small n k by simp
  then have n': "msg_count ms s' = Suc ?n" by (simp add: s'_eq msg_count_def entries_ok_def)
  have keep: "files s' (msg_path ms j) = files s (msg_path ms j)" if "1 \<le> j" "j \<le> int ?n" for j
    using msg_path_eq[of j k ms] small_ints[of j] small_ints[of k] small k that by (simp add: s'_eq)
  have kept: "kept s' = kept s" by (rule kept_same) (simp add: s'_eq)
  have others: "\<not> critical (ps ! j)" if "j < length ps" "j \<noteq> i" for j
    using lock_law_critical(2)[of ps s i j] inv i that by (auto simp: posts_inv_def critical_def)
  have "lock_law (ps[i := Created k]) s'"
    by (rule lock_law_step) (use inv i in \<open>simp_all add: posts_inv_def critical_def s'_eq\<close>)
  moreover have "dir_law ms (ps[i := Created k]) s'" using es' by (simp add: dir_law_def s'_eq entries_ok_def)
  moreover have "count_law ms ?old (ps[i := Created k]) s'" using n' count entered by (simp add: count_law_def)
  moreover have "\<forall>j < length ps. phase_law ms ?old (msgs ! j) (ps[i := Created k] ! j) s'"
  proof (intro allI impI)
    fix j assume j: "j < length ps"
    show "phase_law ms ?old (msgs ! j) (ps[i := Created k] ! j) s'"
    proof (cases "j = i")
      case True
      then show ?thesis using j k n' count by (simp add: phase_law_def s'_eq)
    next
      case False
      have "phase_law ms ?old (msgs ! j) (ps ! j) s" using inv j by (simp add: posts_inv_def)
      then show ?thesis using others[OF j False] False n' keep kept
        by (auto simp: phase_law_def critical_def split: phase.splits)
    qed
  qed
  moreover have "distinct_law (ps[i := Created k])"
  proof (rule distinct_law_update)
    show "\<forall>j < length ps. j \<noteq> i \<and> entered (ps ! j) \<longrightarrow> msg_number (ps ! j) \<noteq> msg_number (Created k)"
    proof (intro allI impI)
      fix j assume j: "j < length ps" "j \<noteq> i \<and> entered (ps ! j)"
      have "phase_law ms ?old (msgs ! j) (ps ! j) s" using inv j by (simp add: posts_inv_def)
      then show "msg_number (ps ! j) \<noteq> msg_number (Created k)" using j k by (cases "ps ! j") (auto simp: phase_law_def entered_def)
    qed
  qed (use inv in \<open>simp add: posts_inv_def\<close>)
  moreover have "cut s' = cut s" by (simp add: s'_eq)
  then have "old_law ms s0 s'" using inv keep count by (simp add: posts_inv_def old_law_def)
  ultimately show ?thesis using inv by (simp add: posts_inv_def)
qed

lemma inv_write:
  assumes inv: "posts_inv ms msgs s0 s ps" and i: "i < length ps" "ps ! i = Created k"
    and bound: "msg_count ms s0 + length msgs \<le> 10000" and slash: "no_slash (Circle ms)"
    and s': "s' = Unlock (os_Write (msg_path ms k) (Marshal_Msg (Content (msgs ! i))) s)"
  shows "posts_inv ms msgs s0 s' (ps[i := Finished k])"
proof -
  let ?n = "msg_count ms s" and ?old = "msg_count ms s0"
  have k: "int ?old < k" "k = int ?n" using inv i unfolding posts_inv_def phase_law_def by auto
  have count: "?n = ?old + length (filter entered ps)" using inv by (simp add: posts_inv_def count_law_def)
  have "length ps = length msgs" using inv by (simp add: posts_inv_def)
  then have small: "?n \<le> 10000" using count length_filter_le[of entered ps] bound by linarith
  have d: "dirs s' = dirs s" "lock s' = lock s + 1" "cut s' = cut s" by (simp_all add: s' Unlock_def os_Write_def)
  have f: "files s' = (files s)(msg_path ms k \<mapsto> \<lparr>text_of = kept s (msg_path ms k) (Marshal_Msg (Content (msgs ! i))), mtime = now s\<rparr>)"
    by (simp add: s' Unlock_def os_Write_def)
  have n': "msg_count ms s' = ?n" using d by (simp add: msg_count_def)
  have keep: "files s' (msg_path ms j) = files s (msg_path ms j)" if "1 \<le> j" "j \<le> int ?n" "j \<noteq> k" for j
    using msg_path_eq[of j k ms] small_ints[of j] small_ints[of k] small k that by (simp add: f)
  have kept: "kept s' = kept s" by (rule kept_same) (simp add: s' Unlock_def os_Write_def)
  have others: "\<not> critical (ps ! j)" if "j < length ps" "j \<noteq> i" for j
    using lock_law_critical(2)[of ps s i j] inv i that by (auto simp: posts_inv_def critical_def)
  obtain es where es: "dirs s (circle_dir ms) = Some es" "entries_ok (length es) es"
    using dir_law_phase[of ms ps s i] inv i by (auto simp: posts_inv_def critical_def)
  have "lock_law (ps[i := Finished k]) s'"
    by (rule lock_law_step) (use inv i d in \<open>simp_all add: posts_inv_def critical_def\<close>)
  moreover have "dir_law ms (ps[i := Finished k]) s'" using es d by (simp add: dir_law_def)
  moreover have "count_law ms ?old (ps[i := Finished k]) s'"
    using n' count filter_update[OF i(1), of entered "Finished k"] i(2) by (simp add: count_law_def entered_def)
  moreover have "\<forall>j < length ps. phase_law ms ?old (msgs ! j) (ps[i := Finished k] ! j) s'"
  proof (intro allI impI)
    fix j assume j: "j < length ps"
    show "phase_law ms ?old (msgs ! j) (ps[i := Finished k] ! j) s'"
    proof (cases "j = i")
      case True
      then show ?thesis using j k n' kept by (simp add: phase_law_def f)
    next
      case False
      have law: "phase_law ms ?old (msgs ! j) (ps ! j) s" using inv j by (simp add: posts_inv_def)
      have "msg_number (ps ! j) \<noteq> k" if "entered (ps ! j)"
      proof -
        have "entered (ps ! i)" "msg_number (ps ! i) = k" using i by simp_all
        then show ?thesis using distinct_lawD[of ps j i] inv i(1) j False that by (simp add: posts_inv_def)
      qed
      then show ?thesis using law others[OF j False] False n' keep kept
        by (auto simp: phase_law_def critical_def entered_def split: phase.splits)
    qed
  qed
  moreover have "distinct_law (ps[i := Finished k])"
  proof (rule distinct_law_update)
    show "\<forall>j < length ps. j \<noteq> i \<and> entered (ps ! j) \<longrightarrow> msg_number (ps ! j) \<noteq> msg_number (Finished k)"
      using inv i distinct_lawD[of ps _ i] by (auto simp: posts_inv_def)
  qed (use inv in \<open>simp add: posts_inv_def\<close>)
  moreover have "old_law ms s0 s'"
    unfolding old_law_def
  proof (intro conjI allI impI)
    show "cut s' = cut s0" using inv d(3) by (simp add: posts_inv_def old_law_def)
    fix j assume j: "1 \<le> j \<and> j \<le> int ?old"
    then have "files s (msg_path ms j) = files s0 (msg_path ms j)" using inv by (simp add: posts_inv_def old_law_def)
    then show "files s' (msg_path ms j) = files s0 (msg_path ms j)" using keep[of j] j k count by simp
  qed
  ultimately show ?thesis using inv by (simp add: posts_inv_def)
qed


lemma inv_step:
  assumes inv: "posts_inv ms msgs s0 s ps" and i: "i < length ps"
    and bound: "msg_count ms s0 + length msgs \<le> 10000" and slash: "no_slash (Circle ms)"
    and step: "post_step ms (msgs ! i) (ps ! i) s = Some (p, s')"
  shows "posts_inv ms msgs s0 s' (ps[i := p])"
proof -
  have law: "phase_law ms (msg_count ms s0) (msgs ! i) (ps ! i) s" using inv i by (simp add: posts_inv_def)
  have dir: "dir_law ms ps s" using inv by (simp add: posts_inv_def)
  note quiet = inv_quiet[OF inv i]
  note defs = post_step_def critical_def entered_def phase_law_def
  show ?thesis
  proof (cases "ps ! i")
    case Start
    then show ?thesis using step dir by (intro quiet) (auto simp: defs dir_law_def split: if_splits)
  next
    case Missing
    show ?thesis
    proof (cases "refuses s (circle_dir ms) \<or> dirs s (circle_dir ms) \<noteq> None")
      case True
      then show ?thesis using Missing step by (intro quiet) (auto simp: defs os_Mkdir_def)
    next
      case False
      then show ?thesis using Missing step inv_mkdir[OF inv i Missing] by (auto simp: defs os_Mkdir_def)
    qed
  next
    case Waiting
    obtain es where "dirs s (circle_dir ms) = Some es" using dir_law_phase[OF dir i] Waiting by auto
    then show ?thesis
      using Waiting step by (intro quiet) (auto simp: defs receive_def split: nat.splits)
  next
    case Locked
    obtain es where es: "dirs s (circle_dir ms) = Some es" "entries_ok (length es) es"
      using dir_law_phase[OF dir i] Locked by (auto simp: critical_def)
    have "length (filter entered ps) \<le> length ps" by (rule length_filter_le)
    moreover have "length es = msg_count ms s0 + length (filter entered ps)" "length ps = length msgs"
      using es(1) inv by (simp_all add: posts_inv_def count_law_def msg_count_def)
    ultimately have small: "length es \<le> 10000" using bound by linarith
    have "wrap64 (mostRecent es + 1) = int (msg_count ms s) + 1"
      using mostRecent_entries[OF es(2) small] es(1) small by (simp add: wrap64_def maxInt_def msg_count_def)
    then show ?thesis using Locked step es(1) by (intro quiet) (auto simp: defs updateCounter_eq)
  next
    case (Numbered k)
    obtain es where es: "dirs s (circle_dir ms) = Some es" using dir_law_phase[OF dir i] Numbered by (auto simp: critical_def)
    show ?thesis
    proof (cases "refuses s (circle_dir ms @ ''/'' @ Itoa k)")
      case True
      then show ?thesis using Numbered step es by (intro quiet) (auto simp: defs os_Create_def Unlock_def)
    next
      case False
      then obtain s1 where "os_Create (circle_dir ms) (Itoa k) s = (Inr (), s1)" using es by (simp add: os_Create_def Let_def)
      then show ?thesis using inv_create[OF inv i Numbered bound] step Numbered by (simp add: post_step_def)
    qed
  next
    case (Created k)
    then show ?thesis using inv_write[OF inv i Created bound slash refl] step by (simp add: post_step_def)
  qed (use step in \<open>simp_all add: post_step_def\<close>)
qed

lemma inv_tick: "posts_inv ms msgs s0 s ps \<Longrightarrow> posts_inv ms msgs s0 (s\<lparr>now := t\<rparr>) ps"
proof -
  let ?s = "s\<lparr>now := t\<rparr>"
  have "phase_law ms n m p s \<Longrightarrow> phase_law ms n m p ?s" for n m p by (rule phase_law_same) simp_all
  moreover have "dir_law ms ps ?s \<longleftrightarrow> dir_law ms ps s" by (simp add: dir_law_def cong: option.case_cong)
  moreover have "msg_count ms ?s = msg_count ms s" by (simp add: msg_count_def)
  ultimately show "posts_inv ms msgs s0 s ps \<Longrightarrow> posts_inv ms msgs s0 ?s ps"
    by (simp add: posts_inv_def lock_law_def count_law_def old_law_def)
qed

lemma inv_start:
  assumes "circle_ok ms s0" "lock s0 = 1"
  shows "posts_inv ms msgs s0 s0 (replicate (length msgs) Start)"
proof -
  have "distinct_law (replicate (length msgs) Start)" by (auto simp: distinct_law_def)
  then show ?thesis
    using assms by (simp add: posts_inv_def lock_law_def dir_law_def count_law_def old_law_def phase_law_def
        circle_ok_def list_all_length split: option.splits)
qed

lemma posts_reach_inv:
  assumes "posts_reach ms msgs s0 (s, ps)" "circle_ok ms s0" "lock s0 = 1" "msg_count ms s0 + length msgs \<le> 10000"
  shows "posts_inv ms msgs s0 s ps"
proof -
  have slash: "no_slash (Circle ms)" using assms(2) by (simp add: circle_ok_def)
  have "(posts_step ms msgs)\<^sup>*\<^sup>* (s0, replicate (length msgs) Start) (s, ps)" using assms(1) by (simp add: posts_reach_def)
  then show ?thesis
  proof (induction rule: rtranclp_induct2)
    case refl
    then show ?case by (rule inv_start[OF assms(2,3)])
  next
    case (step s ps s' ps')
    from step(2) show ?case
      by cases (use inv_step[OF step(3) _ assms(4) slash] inv_tick[OF step(3)] in auto)
  qed
qed


section \<open>When all posts are over\<close>

lemma numbers_fill:
  assumes inv: "posts_inv ms msgs s0 s ps" and over: "\<forall>p \<in> set ps. \<exists>k e. p = Finished k \<or> p = Failed e"
    and k: "int (msg_count ms s0) < k" "k \<le> int (msg_count ms s)"
  obtains i where "i < length ps" "ps ! i = Finished k"
proof -
  let ?old = "msg_count ms s0" and ?new = "msg_count ms s" and ?I = "{i. i < length ps \<and> entered (ps ! i)}"
  have fin: "\<exists>j. ps ! i = Finished j \<and> int ?old < j \<and> j \<le> int ?new" if I: "i \<in> ?I" for i
  proof -
    have "ps ! i \<in> set ps" using I by simp
    then obtain j where j: "ps ! i = Finished j" using bspec[OF over, of "ps ! i"] I by auto
    have "phase_law ms ?old (msgs ! i) (ps ! i) s" using inv I by (simp add: posts_inv_def)
    then show ?thesis using j by (simp add: phase_law_def)
  qed
  have inj: "inj_on (\<lambda>i. msg_number (ps ! i)) ?I"
    using inv unfolding posts_inv_def distinct_law_def by (intro inj_onI) blast
  have sub: "(\<lambda>i. msg_number (ps ! i)) ` ?I \<subseteq> {int ?old + 1..int ?new}"
  proof
    fix x assume "x \<in> (\<lambda>i. msg_number (ps ! i)) ` ?I"
    then obtain i where "i \<in> ?I" "x = msg_number (ps ! i)" by blast
    then show "x \<in> {int ?old + 1..int ?new}" using fin by force
  qed
  have "card ?I = ?new - ?old" using inv by (simp add: posts_inv_def count_law_def length_filter_conv_card)
  then have "card ((\<lambda>i. msg_number (ps ! i)) ` ?I) = card {int ?old + 1..int ?new}" using card_image[OF inj] by simp
  then have "(\<lambda>i. msg_number (ps ! i)) ` ?I = {int ?old + 1..int ?new}" by (intro card_subset_eq sub) simp_all
  then have "k \<in> (\<lambda>i. msg_number (ps ! i)) ` ?I" using k by simp
  then obtain i where i: "i \<in> ?I" "k = msg_number (ps ! i)" by blast
  then have "ps ! i = Finished k" using fin by force
  then show ?thesis using that i by blast
qed

lemma posts_over_ok:
  assumes reach: "posts_reach ms msgs s0 (s, ps)" and start: "circle_ok ms s0" "lock s0 = 1"
    and bound: "msg_count ms s0 + length msgs \<le> 10000"
    and over: "\<forall>p \<in> set ps. \<exists>k e. p = Finished k \<or> p = Failed e" and ok: "\<forall>m \<in> set msgs. msg_ok (Content m)"
  shows "lock s = 1 \<and> msg_count ms s = msg_count ms s0 + length (filter (\<lambda>p. \<exists>k. p = Finished k) ps) \<and>
    (\<forall>es. dirs s (circle_dir ms) = Some es \<longrightarrow> entries_ok (msg_count ms s) es) \<and>
    ((\<forall>k. cut s0 (msg_path ms k) = None) \<longrightarrow> circle_ok ms s)"
proof -
  let ?old = "msg_count ms s0" and ?new = "msg_count ms s"
  have inv: "posts_inv ms msgs s0 s ps" by (rule posts_reach_inv[OF reach start bound])
  have "filter critical ps = []" using over by (force simp: filter_empty_conv)
  then have lock: "lock s = 1" using inv by (simp add: posts_inv_def lock_law_def)
  have "filter entered ps = filter (\<lambda>p. \<exists>k. p = Finished k) ps"
    using over by (intro filter_cong) force+
  then have count: "?new = ?old + length (filter (\<lambda>p. \<exists>k. p = Finished k) ps)"
    using inv by (simp add: posts_inv_def count_law_def)
  then have "?new \<le> 10000" using inv bound length_filter_le[of "\<lambda>p. \<exists>k. p = Finished k" ps] unfolding posts_inv_def by linarith
  moreover have "stored ms s i" if i: "1 \<le> i" "i \<le> int ?new" and cut: "\<forall>k. cut s0 (msg_path ms k) = None" for i
  proof (cases "i \<le> int ?old")
    case True
    then have "stored ms s0 i" "files s (msg_path ms i) = files s0 (msg_path ms i)"
      using i start(1) inv by (simp_all add: circle_ok_def posts_inv_def old_law_def)
    then show ?thesis by (simp add: stored_def)
  next
    case False
    then obtain j where j: "j < length ps" "ps ! j = Finished i" using numbers_fill[OF inv over, of i] i by auto
    have "phase_law ms ?old (msgs ! j) (ps ! j) s" "j < length msgs" using inv j(1) by (simp_all add: posts_inv_def)
    moreover have "msg_ok (Content (msgs ! j))" using ok calculation(2) by simp
    moreover have "cut s (msg_path ms i) = None" using cut inv by (simp add: posts_inv_def old_law_def)
    ultimately show ?thesis using j(2) by (auto simp: stored_def phase_law_def)
  qed
  moreover have "no_slash (Circle ms)" using start(1) by (simp add: circle_ok_def)
  moreover have "(\<forall>es. dirs s (circle_dir ms) = Some es \<longrightarrow> entries_ok (length es) es) \<and>
      (dirs s (circle_dir ms) = None \<longrightarrow> files s (circle_dir ms) = None)"
    using inv by (simp add: posts_inv_def dir_law_def split: option.splits)
  ultimately show ?thesis using lock count by (auto simp: circle_ok_def msg_count_def)
qed

section \<open>Single runs\<close>

text \<open>One of the posts goes on alone for a while.\<close>

lemma reach_run:
  assumes "i < length ps"
  shows "(posts_step ms msgs)\<^sup>*\<^sup>* (s, ps[i := p]) (case run_post k ms (msgs ! i) p s of (q, s') \<Rightarrow> (s', ps[i := q]))"
proof (induction k arbitrary: p s)
  case (Suc k)
  show ?case
  proof (cases "post_step ms (msgs ! i) p s")
    case (Some r)
    obtain q s' where r: "r = (q, s')" by (cases r)
    have "posts_step ms msgs (s, ps[i := p]) (s', (ps[i := p])[i := q])"
      by (rule posts_step.Step) (use assms Some r in simp_all)
    moreover have "(posts_step ms msgs)\<^sup>*\<^sup>* (s', ps[i := q]) (case run_post (Suc k) ms (msgs ! i) p s of (q, s') \<Rightarrow> (s', ps[i := q]))"
      using Suc Some r by simp
    ultimately show ?thesis by (simp add: converse_rtranclp_into_rtranclp)
  qed simp
qed simp

lemma reach_then:
  assumes "posts_reach ms msgs s0 (s, ps)" "i < length ps" "run_post k ms (msgs ! i) (ps ! i) s = (q, s')"
  shows "posts_reach ms msgs s0 (s', ps[i := q])"
  using assms reach_run[OF assms(2), of ms msgs s "ps ! i" k] by (simp add: posts_reach_def)

lemma reach_start: "posts_reach ms msgs s (s, replicate (length msgs) Start)"
  by (simp add: posts_reach_def)

section \<open>Properties\<close>

text \<open>C2: However the posts to a circle interleave, in every reachable state the lock is held by at most one
  of them and is never lost; every post that is over holds a number of its own, above those that
  were there before, and the file of that number has its message, or what a full disk kept of it; and the messages that were
  there before are as they were.\<close>

theorem concurrent_posts_safe:
  assumes "posts_reach ms msgs s0 (s, ps)" "circle_ok ms s0" "lock s0 = 1" "msg_count ms s0 + length msgs \<le> 10000"
  shows "lock s + length (filter critical ps) = 1 \<and>
    (\<forall>i < length ps. \<forall>k. ps ! i = Finished k \<longrightarrow> int (msg_count ms s0) < k \<and>
       map_option text_of (files s (msg_path ms k)) = Some (kept s0 (msg_path ms k) (Marshal_Msg (Content (msgs ! i)))) \<and>
       (\<forall>j < length ps. j \<noteq> i \<longrightarrow> ps ! j \<noteq> Finished k)) \<and>
    (\<forall>k. 1 \<le> k \<and> k \<le> int (msg_count ms s0) \<longrightarrow> files s (msg_path ms k) = files s0 (msg_path ms k))"
proof -
  have inv: "posts_inv ms msgs s0 s ps" by (rule posts_reach_inv[OF assms])
  have kept: "kept s = kept s0" using inv by (intro kept_same) (simp add: posts_inv_def old_law_def)
  have "int (msg_count ms s0) < k \<and> map_option text_of (files s (msg_path ms k)) = Some (kept s0 (msg_path ms k) (Marshal_Msg (Content (msgs ! i)))) \<and>
      (\<forall>j < length ps. j \<noteq> i \<longrightarrow> ps ! j \<noteq> Finished k)" if i: "i < length ps" "ps ! i = Finished k" for i k
  proof -
    have "phase_law ms (msg_count ms s0) (msgs ! i) (ps ! i) s" using inv i(1) by (simp add: posts_inv_def)
    moreover have "ps ! j \<noteq> Finished k" if "j < length ps" "j \<noteq> i" for j
      using distinct_lawD[of ps j i] inv i that by (auto simp: posts_inv_def)
    ultimately show ?thesis using i(2) kept by (auto simp: phase_law_def)
  qed
  then show ?thesis using inv by (simp add: posts_inv_def lock_law_def old_law_def)
qed

lemma all_less_two: "(\<forall>i < Suc (Suc 0). P i) \<longleftrightarrow> P 0 \<and> P (Suc 0)"
  by (auto simp: less_Suc_eq)

lemma example_run: "fst (run_post 7 example_store example_msg Start fresh_world) = Finished 1"
  by code_simp

lemma two_posts_reach:
  "\<exists>s. posts_reach example_store [example_msg, zero_MsgWrap] fresh_world (s, [Finished 1, Start])"
proof -
  obtain q s where q: "run_post 7 example_store example_msg Start fresh_world = (q, s)"
    by (cases "run_post 7 example_store example_msg Start fresh_world")
  have "posts_reach example_store [example_msg, zero_MsgWrap] fresh_world (fresh_world, [Start, Start])"
    using reach_start[of example_store "[example_msg, zero_MsgWrap]"] by (simp add: numeral_2_eq_2)
  from reach_then[OF this, of 0 7 q s] show ?thesis using q example_run by auto
qed

theorem concurrent_posts_safe_witness:
  "\<exists>s :: world. map_option text_of (files s (msg_path example_store 1)) = Some (Marshal_Msg (Content example_msg)) \<and> lock s = 1"
proof -
  obtain s where s: "posts_reach example_store [example_msg, zero_MsgWrap] fresh_world (s, [Finished 1, Start])"
    using two_posts_reach by blast
  have "lock fresh_world = 1" "msg_count example_store fresh_world = 0" "cut fresh_world = (\<lambda>_. None)"
    by (simp_all add: fresh_world_def msg_count_def)
  then have "map_option text_of (files s (msg_path example_store 1)) = Some (Marshal_Msg (Content example_msg)) \<and> lock s = 1"
    using concurrent_posts_safe[OF s fresh_ok(1)] by (simp add: all_less_two)
  then show ?thesis by blast
qed

text \<open>C3: When all posts to a circle are over, whatever their interleaving and whichever of them failed, the
  circle is in order again: as many messages more as posts that succeeded, numbered without a gap, and the lock
  free; and each of them is readable, if the disk took all that was written.\<close>

theorem concurrent_posts_quiescent:
  assumes "posts_reach ms msgs s0 (s, ps)" "circle_ok ms s0" "lock s0 = 1" "msg_count ms s0 + length msgs \<le> 10000"
    "\<forall>p \<in> set ps. \<exists>k e. p = Finished k \<or> p = Failed e" "\<forall>m \<in> set msgs. msg_ok (Content m)"
  shows "lock s = 1 \<and> msg_count ms s = msg_count ms s0 + length (filter (\<lambda>p. \<exists>k. p = Finished k) ps) \<and>
    (\<forall>es. dirs s (circle_dir ms) = Some es \<longrightarrow> entries_ok (msg_count ms s) es) \<and>
    ((\<forall>k. cut s0 (msg_path ms k) = None) \<longrightarrow> circle_ok ms s)"
  by (rule posts_over_ok[OF assms])

theorem concurrent_posts_quiescent_witness:
  "\<exists>s. circle_ok example_store s \<and> msg_count example_store s = 1"
proof -
  obtain q s where q: "run_post 7 example_store example_msg Start fresh_world = (q, s)"
    by (cases "run_post 7 example_store example_msg Start fresh_world")
  have "posts_reach example_store [example_msg] fresh_world (fresh_world, [Start])"
    using reach_start[of example_store "[example_msg]"] by simp
  from reach_then[OF this, of 0 7 q s] have "posts_reach example_store [example_msg] fresh_world (s, [Finished 1])"
    using q example_run by simp
  from concurrent_posts_quiescent[OF this fresh_ok(1)] show ?thesis
    using fresh_ok(3) by (auto simp: fresh_world_def msg_count_def)
qed

lemma run_post_step: "post_step ms mw p s = Some (q, s') \<Longrightarrow> run_post (Suc k) ms mw p s = run_post k ms mw q s'"
  by simp

lemma run_to_Created:
  assumes "circle_ok ms s" "has_room ms s" "lock s = 1"
  obtains n es where "run_post n ms mw Start s = (Created (int (length es) + 1),
      s\<lparr>dirs := (dirs s)(circle_dir ms \<mapsto> enter (slot s (msg_path ms (int (length es) + 1))) (Itoa (int (length es) + 1)) es),
        files := (files s)(msg_path ms (int (length es) + 1) \<mapsto> \<lparr>text_of = [], mtime = now s\<rparr>), lock := 0\<rparr>)"
    "entries_ok (msg_count ms s) es" "length es = msg_count ms s"
proof -
  obtain es s1 where es: "ensure_dir ms s = (Inr (), s1)" "s1 = s\<lparr>dirs := (dirs s)(circle_dir ms \<mapsto> es)\<rparr>"
    "entries_ok (msg_count ms s) es" "length es = msg_count ms s" by (rule ensure_dir_ok[OF assms(1,2)])
  let ?k = "int (length es) + 1"
  let ?s = "s\<lparr>dirs := (dirs s)(circle_dir ms \<mapsto> enter (slot s (msg_path ms ?k)) (Itoa ?k) es),
        files := (files s)(msg_path ms ?k \<mapsto> \<lparr>text_of = [], mtime = now s\<rparr>), lock := 0\<rparr>"
  have room: "length es < 10000" "\<not> refuses s (msg_path ms ?k)" "\<not> refuses s (circle_dir ms)"
    using assms(2) es(4) by (auto simp: has_room_def)
  have recent: "mostRecent es = int (length es)" using mostRecent_entries es(3,4) room(1) by simp
  have rest: "run_post (Suc (Suc (Suc 0))) ms mw Waiting s1 = (Created ?k, ?s)"
    using recent room assms(3) es(2)
    by (simp add: post_step_def receive_def updateCounter_eq wrap64_def maxInt_def os_Create_def Let_def msg_path_def)
  show ?thesis
  proof (cases "dirs s (circle_dir ms)")
    case None
    then have "files s (circle_dir ms) = None" using assms(1) by (simp add: circle_ok_def)
    then have "post_step ms mw Start s = Some (Missing, s)" "post_step ms mw Missing s = Some (Waiting, s1)"
      using None es(1) room by (simp_all add: post_step_def os_Mkdir_def ensure_dir_def)
    then have "run_post (Suc (Suc (Suc (Suc (Suc 0))))) ms mw Start s = run_post (Suc (Suc (Suc 0))) ms mw Waiting s1"
      by (simp only: run_post_step)
    with rest have "run_post (Suc (Suc (Suc (Suc (Suc 0))))) ms mw Start s = (Created ?k, ?s)" by (simp only:)
    then show ?thesis using that es(3,4) by blast
  next
    case (Some es0)
    then have "s1 = s" using es(1) by (simp add: ensure_dir_def)
    then have "post_step ms mw Start s = Some (Waiting, s1)" using Some by (simp add: post_step_def)
    then have "run_post (Suc (Suc (Suc (Suc 0)))) ms mw Start s = run_post (Suc (Suc (Suc 0))) ms mw Waiting s1"
      by (rule run_post_step)
    with rest have "run_post (Suc (Suc (Suc (Suc 0)))) ms mw Start s = (Created ?k, ?s)" by (simp only:)
    then show ?thesis using that es(3,4) by blast
  qed
qed

text \<open>Between the creation of a message file and its writing the message is visible and empty: a reader
  that asks for the last message in that moment is given the new number, and under it an empty
  message.\<close>

theorem half_written_message:
  assumes "circle_ok ms s0" "has_room ms s0" "lock s0 = 1"
  shows "\<exists>s w. posts_reach ms [mw] s0 (s, [Created (int (msg_count ms s0) + 1)]) \<and>
    GetLastMsg ms s = (Inr \<lparr>lastMessage = int (msg_count ms s0) + 1\<rparr>, s) \<and>
    GetMsg ms (int (msg_count ms s0) + 1) s = (Inr w, s) \<and> Content w = zero_Msg"
proof -
  obtain n es where run: "run_post n ms mw Start s0 = (Created (int (length es) + 1),
      s0\<lparr>dirs := (dirs s0)(circle_dir ms \<mapsto> enter (slot s0 (msg_path ms (int (length es) + 1))) (Itoa (int (length es) + 1)) es),
        files := (files s0)(msg_path ms (int (length es) + 1) \<mapsto> \<lparr>text_of = [], mtime = now s0\<rparr>), lock := 0\<rparr>)"
    and es: "entries_ok (msg_count ms s0) es" "length es = msg_count ms s0" by (rule run_to_Created[OF assms])
  let ?es = "enter (slot s0 (msg_path ms (int (length es) + 1))) (Itoa (int (length es) + 1)) es"
  have "posts_reach ms [mw] s0 (s0, [Start])" using reach_start[of ms "[mw]"] by simp
  note reach = reach_then[OF this, of 0 n, simplified, OF run]
  have "msg_count ms s0 < 10000" using assms(2) by (simp add: has_room_def)
  then have "mostRecent ?es = int (length es) + 1"
    using mostRecent_entries[OF enter_entries[OF es(1)]] es(2) by simp
  moreover have "fst (Unmarshal_Msg [] zero_Msg) = zero_Msg" by code_simp
  ultimately show ?thesis using reach es(2) by (intro exI conjI) (auto simp: GetLastMsg_def GetMsg_def wrap_file_def)
qed

theorem half_written_message_witness:
  "\<exists>s w. posts_reach example_store [example_msg] fresh_world (s, [Created 1]) \<and> GetMsg example_store 1 s = (Inr w, s) \<and> Content w = zero_Msg"
proof -
  have "msg_count example_store fresh_world = 0" "lock fresh_world = 1" by (simp_all add: msg_count_def fresh_world_def)
  then show ?thesis using half_written_message[OF fresh_ok(1,2), of example_msg] by auto
qed

text \<open>Two first posts to a new circle can both find its directory missing; then the second \<open>Mkdir\<close> fails
  and that post is answered with an error, although the file system refused nothing.\<close>

theorem first_posts_race:
  assumes "dirs s (circle_dir ms) = None" "files s (circle_dir ms) = None" "\<not> refuses s (circle_dir ms)"
  shows "\<exists>s'. posts_reach ms [mw, mw'] s (s', [Waiting, Failed (Err ''mkdir'')]) \<and> refuses s' = refuses s"
proof -
  let ?s = "s\<lparr>dirs := (dirs s)(circle_dir ms \<mapsto> [])\<rparr>"
  note run = post_step_def os_Mkdir_def
  have "posts_reach ms [mw, mw'] s (s, [Start, Start])"
    using reach_start[of ms "[mw, mw']"] by (simp add: numeral_2_eq_2)
  from reach_then[OF this, of 0 "Suc 0" Missing s] have "posts_reach ms [mw, mw'] s (s, [Missing, Start])"
    using assms by (simp add: run)
  from reach_then[OF this, of 1 "Suc 0" Missing s] have "posts_reach ms [mw, mw'] s (s, [Missing, Missing])"
    using assms by (simp add: run)
  from reach_then[OF this, of 0 "Suc 0" Waiting ?s] have "posts_reach ms [mw, mw'] s (?s, [Waiting, Missing])"
    using assms by (simp add: run)
  from reach_then[OF this, of 1 "Suc 0" "Failed (Err ''mkdir'')" ?s] show ?thesis
    by (intro exI[of _ ?s]) (simp add: run)
qed

theorem first_posts_race_witness:
  "\<exists>s'. posts_reach example_store [example_msg, zero_MsgWrap] fresh_world (s', [Waiting, Failed (Err ''mkdir'')]) \<and>
     refuses s' = refuses fresh_world"
  by (rule first_posts_race) (simp_all add: fresh_world_def)

end
