(* ===== verification/Bson.thy ===== *)
theory Bson
  imports Go_Std "HOL-Library.AList"
begin

text \<open>
  Package bson of the vendored MongoDB driver (src/src/labix.org/v2/mgo/bson): the encoder of
  documents, over a datatype of the Go values that it distinguishes, and the decoder into the
  two generic targets, ordered documents (\<open>bson.D\<close>) and maps (\<open>bson.M\<close>). A panic with a string is
  caught by \<open>Marshal\<close> and \<open>Unmarshal\<close> and returned, so it is an error here; a runtime panic (an
  index or a slice bound) is not caught.
\<close>

section \<open>Values\<close>

record fieldInfo =
  Key :: string
  OmitEmpty :: bool
  MinSize :: bool

text \<open>Floats by their bits. \<open>Uint\<close> stands for the kinds up to Uint32 and \<open>GoInt\<close> for those up to Int32,
  which include the machine integers \<open>uint\<close> and \<open>int\<close>. \<open>Map\<close> is a map in the order in which it is
  visited, \<open>Slice\<close> a slice of other elements, \<open>Struct\<close> the exported fields with their tags. A time is in nanoseconds. Types with methods of their own (\<open>Getter\<close>) and fields
  of an interface type, on which \<open>omitempty\<close> only looks for nil, are left out.\<close>

datatype bson =
    Nil_value
  | Float64 "64 word"
  | String string
  | ObjectId string
  | Symbol string
  | Uint "64 word"
  | Uint64 "64 word"
  | GoInt "64 word"
  | GoInt64 "64 word"
  | MongoTimestamp "64 word"
  | OrderKey "64 word"
  | Bool bool
  | Map "(string \<times> bson) list"
  | D "(string \<times> bson) list"
  | Slice "bson list"
  | Struct "(fieldInfo \<times> bson) list"
  | Bytes "byte list"
  | Raw byte "byte list"
  | Binary byte "byte list"
  | RegEx string string
  | JavaScript string "bson option"
  | Time int
  | Undefined

definition MaxKey :: "64 word" where "MaxKey = 0x7FFFFFFFFFFFFFFF"
definition MinKey :: "64 word" where "MinKey = 0x8000000000000000"

section \<open>Encoding of base types\<close>

definition le32 :: "32 word \<Rightarrow> byte list" where
  "le32 u = [ucast u, ucast (drop_bit 8 u), ucast (drop_bit 16 u), ucast (drop_bit 24 u)]"

definition le64 :: "64 word \<Rightarrow> byte list" where
  "le64 u = [ucast u, ucast (drop_bit 8 u), ucast (drop_bit 16 u), ucast (drop_bit 24 u),
     ucast (drop_bit 32 u), ucast (drop_bit 40 u), ucast (drop_bit 48 u), ucast (drop_bit 56 u)]"

definition addInt32 :: "32 word \<Rightarrow> byte list \<Rightarrow> byte list" where
  "addInt32 v out = out @ le32 v"

definition addInt64 :: "64 word \<Rightarrow> byte list \<Rightarrow> byte list" where
  "addInt64 v out = out @ le64 v"

definition reserveInt32 :: "byte list \<Rightarrow> byte list" where
  "reserveInt32 out = out @ [0, 0, 0, 0]"

definition setInt32 :: "nat \<Rightarrow> 32 word \<Rightarrow> byte list \<Rightarrow> byte list" where
  "setInt32 pos v out = out[pos := le32 v ! 0, pos + 1 := le32 v ! 1, pos + 2 := le32 v ! 2, pos + 3 := le32 v ! 3]"

definition addCStr :: "string \<Rightarrow> byte list \<Rightarrow> byte list" where
  "addCStr s out = out @ bytes_of s @ [0]"

definition addStr :: "string \<Rightarrow> byte list \<Rightarrow> byte list" where
  "addStr s out = addCStr s (addInt32 (of_nat (length s + 1)) out)"

definition addBinary :: "byte \<Rightarrow> byte list \<Rightarrow> byte list \<Rightarrow> byte list" where
  "addBinary subtype v out =
     (if subtype = 2 then addInt32 (of_nat (length v)) (addInt32 (of_nat (length v + 4)) out @ [subtype])
      else addInt32 (of_nat (length v)) out @ [subtype]) @ v"

definition addElemName :: "byte \<Rightarrow> string \<Rightarrow> byte list \<Rightarrow> byte list" where
  "addElemName kind name out = out @ [kind] @ bytes_of name @ [0]"

section \<open>Encoding of elements and documents\<close>

text \<open>At the top a value of one of the struct types of the package is a struct as any other: its
  exported fields are the document (a \<open>time.Time\<close> has none).\<close>

text \<open>Whether a field with \<open>omitempty\<close> is left out. The zero time is the one of year 1.\<close>

definition zero_time :: int where "zero_time = - 62135596800 * 10 ^ 9"

fun isZero :: "bson \<Rightarrow> bool" where
  "isZero (String s) = (s = [])"
| "isZero (ObjectId s) = (s = [])"
| "isZero (Symbol s) = (s = [])"
| "isZero Nil_value = True"
| "isZero (Slice vs) = (vs = [])"
| "isZero (D kvs) = (kvs = [])"
| "isZero (Bytes bs) = (bs = [])"
| "isZero (Map kvs) = (kvs = [])"
| "isZero (GoInt w) = (w = 0)"
| "isZero (GoInt64 w) = (w = 0)"
| "isZero (MongoTimestamp w) = (w = 0)"
| "isZero (OrderKey w) = (w = 0)"
| "isZero (Uint w) = (w = 0)"
| "isZero (Uint64 w) = (w = 0)"
| "isZero (Float64 w) = (w = 0 \<or> w = 0x8000000000000000)"
| "isZero (Bool b) = (\<not> b)"
| "isZero (Time t) = (t = zero_time)"
| "isZero _ = False"

text \<open>The end of a document: its terminator, and its length at the place reserved for it.\<close>

definition close_doc :: "nat \<Rightarrow> byte list go \<Rightarrow> byte list go" where
  "close_doc start r = bindE r (\<lambda>out. Inr (setInt32 start (of_nat (length out + 1 - start)) (out @ [0])))"

definition add_uint :: "string \<Rightarrow> bool \<Rightarrow> 64 word \<Rightarrow> byte list \<Rightarrow> byte list go" where
  "add_uint name small u out =
     (if sint u < 0 then Inl (Err ''BSON has no uint64 type, and value is too large to fit correctly in an int64'')
      else if uint u \<le> 2 ^ 31 - 1 \<and> small then Inr (addInt32 (ucast u) (addElemName 0x10 name out))
      else Inr (addInt64 u (addElemName 0x12 name out)))"

text \<open>A slice of bytes as a document, which only happens at the top.\<close>

fun add_bytes_slice :: "nat \<Rightarrow> byte list \<Rightarrow> byte list \<Rightarrow> byte list go" where
  "add_bytes_slice i [] out = Inr out"
| "add_bytes_slice i (b # bs) out = bindE (add_uint (Itoa (int i)) True (ucast b) out) (\<lambda>out. add_bytes_slice (i + 1) bs out)"

function (sequential) addElem :: "string \<Rightarrow> bool \<Rightarrow> bson \<Rightarrow> byte list \<Rightarrow> byte list go"
  and addDoc :: "bson \<Rightarrow> byte list \<Rightarrow> byte list go"
  and addPairs :: "(string \<times> bson) list \<Rightarrow> byte list \<Rightarrow> byte list go"
  and addSlice :: "nat \<Rightarrow> bson list \<Rightarrow> byte list \<Rightarrow> byte list go"
  and addStruct :: "(fieldInfo \<times> bson) list \<Rightarrow> byte list \<Rightarrow> byte list go" where
  "addElem name minSize v out =
     (case v of
        Nil_value \<Rightarrow> Inr (addElemName 0x0A name out)
      | Float64 w \<Rightarrow> Inr (addInt64 w (addElemName 0x01 name out))
      | String s \<Rightarrow> Inr (addStr s (addElemName 0x02 name out))
      | ObjectId s \<Rightarrow>
          if length s \<noteq> 12 then Inl (Err ''ObjectIDs must be exactly 12 bytes long'')
          else Inr (addElemName 0x07 name out @ bytes_of s)
      | Symbol s \<Rightarrow> Inr (addStr s (addElemName 0x0E name out))
      | Uint u \<Rightarrow> add_uint name True u out
      | Uint64 u \<Rightarrow> add_uint name minSize u out
      | GoInt w \<Rightarrow> Inr (addInt32 (ucast w) (addElemName 0x10 name out))
      | GoInt64 w \<Rightarrow>
          if minSize \<and> - (2 ^ 31) \<le> sint w \<and> sint w \<le> 2 ^ 31 - 1 then Inr (addInt32 (ucast w) (addElemName 0x10 name out))
          else Inr (addInt64 w (addElemName 0x12 name out))
      | MongoTimestamp w \<Rightarrow> Inr (addInt64 w (addElemName 0x11 name out))
      | OrderKey w \<Rightarrow> Inr (addElemName (if w = MaxKey then 0x7F else 0xFF) name out)
      | Bool b \<Rightarrow> Inr (addElemName 0x08 name out @ [if b then 1 else 0])
      | Map kvs \<Rightarrow> addDoc v (addElemName 0x03 name out)
      | D kvs \<Rightarrow> addDoc v (addElemName 0x03 name out)
      | Slice vs \<Rightarrow> addDoc v (addElemName 0x04 name out)
      | Struct fs \<Rightarrow> addDoc v (addElemName 0x03 name out)
      | Bytes bs \<Rightarrow> Inr (addBinary 0 bs (addElemName 0x05 name out))
      | Raw kind data \<Rightarrow> Inr (addElemName (if kind = 0 then 3 else kind) name out @ data)
      | Binary kind data \<Rightarrow> Inr (addBinary kind data (addElemName 0x05 name out))
      | RegEx p opts \<Rightarrow> Inr (addCStr opts (addCStr p (addElemName 0x0B name out)))
      | JavaScript code scope \<Rightarrow>
          (case scope of
             None \<Rightarrow> Inr (addStr code (addElemName 0x0D name out))
           | Some sc \<Rightarrow>
               let out = addElemName 0x0F name out; start = length out in
               bindE (addDoc sc (addStr code (reserveInt32 out)))
                 (\<lambda>out. Inr (setInt32 start (of_nat (length out - start)) out)))
      | Time t \<Rightarrow> Inr (addInt64 (word_of_int (t div 10 ^ 6)) (addElemName 0x09 name out))
      | Undefined \<Rightarrow> Inr (addElemName 0x06 name out))"
| "addDoc v out =
     (case v of
        Raw kind data \<Rightarrow>
          if kind \<noteq> 3 \<and> kind \<noteq> 0 then Inl (Err ''Attempted to unmarshal Raw kind as a document'') else Inr (out @ data)
      | Map kvs \<Rightarrow> close_doc (length out) (addPairs kvs (reserveInt32 out))
      | D kvs \<Rightarrow> close_doc (length out) (addPairs kvs (reserveInt32 out))
      | Slice vs \<Rightarrow> close_doc (length out) (addSlice 0 vs (reserveInt32 out))
      | Struct fs \<Rightarrow> close_doc (length out) (addStruct fs (reserveInt32 out))
      | Bytes bs \<Rightarrow> close_doc (length out) (add_bytes_slice 0 bs (reserveInt32 out))
      | Binary kind data \<Rightarrow> close_doc (length out) (bindE (add_uint ''kind'' True (ucast kind) (reserveInt32 out))
          (\<lambda>out. Inr (addBinary 0 data (addElemName 0x05 ''data'' out))))
      | RegEx p opts \<Rightarrow> close_doc (length out)
          (Inr (addStr opts (addElemName 0x02 ''options'' (addStr p (addElemName 0x02 ''pattern'' (reserveInt32 out))))))
      | JavaScript code scope \<Rightarrow> close_doc (length out)
          (let out = addStr code (addElemName 0x02 ''code'' (reserveInt32 out)) in
           case scope of None \<Rightarrow> Inr (addElemName 0x0A ''scope'' out) | Some sc \<Rightarrow> addElem ''scope'' False sc out)
      | Time t \<Rightarrow> close_doc (length out) (Inr (reserveInt32 out))
      | Undefined \<Rightarrow> close_doc (length out) (Inr (reserveInt32 out))
      | _ \<Rightarrow> Inl (Err ''Can't marshal as a BSON document''))"
| "addPairs [] out = Inr out"
| "addPairs ((k, v) # kvs) out = bindE (addElem k False v out) (\<lambda>out. addPairs kvs out)"
| "addSlice i [] out = Inr out"
| "addSlice i (v # vs) out = bindE (addElem (Itoa (int i)) False v out) (\<lambda>out. addSlice (i + 1) vs out)"
| "addStruct [] out = Inr out"
| "addStruct ((f, v) # fs) out =
     (if OmitEmpty f \<and> isZero v then addStruct fs out
      else bindE (addElem (Key f) (MinSize f) v out) (\<lambda>out. addStruct fs out))"
  by pat_completeness auto
termination
  by (relation "measure (\<lambda>x. case x of
      Inl (Inl (_, _, v, _)) \<Rightarrow> 2 * size v + 1
    | Inl (Inr (v, _)) \<Rightarrow> 2 * size v
    | Inr (Inl (kvs, _)) \<Rightarrow> 2 * size_list (size_prod (\<lambda>_. 0) size) kvs
    | Inr (Inr (Inl (_, vs, _))) \<Rightarrow> 2 * size_list size vs
    | Inr (Inr (Inr (fs, _))) \<Rightarrow> 2 * size_list (size_prod (\<lambda>_. 0) size) fs)") auto

declare addElem.simps [simp del] addDoc.simps [simp del]

definition Marshal :: "bson \<Rightarrow> byte list go" where
  "Marshal v = addDoc v []"

section \<open>Decoding of base types\<close>

text \<open>A reader takes the input and a position and returns a value with the next position.\<close>

type_synonym 'a reader = "byte list \<Rightarrow> int \<Rightarrow> ('a \<times> int) go"

definition corrupted :: "'a go" where
  "corrupted = Inl (Err ''Document is corrupted'')"

definition readByte :: "byte reader" where
  "readByte inp i = (if i + 1 > int (length inp) then corrupted else bindE (idx inp i) (\<lambda>b. Inr (b, i + 1)))"

text \<open>A negative length passes the check and fails in the slice.\<close>

definition readBytes :: "int \<Rightarrow> byte list reader" where
  "readBytes l inp i =
     (if i + l > int (length inp) then corrupted else bindE (slice inp i (i + l)) (\<lambda>b. Inr (b, i + l)))"

definition un32 :: "byte list \<Rightarrow> 32 word" where
  "un32 b = ucast (b ! 0) OR push_bit 8 (ucast (b ! 1)) OR push_bit 16 (ucast (b ! 2)) OR push_bit 24 (ucast (b ! 3))"

definition un64 :: "byte list \<Rightarrow> 64 word" where
  "un64 b = ucast (b ! 0) OR push_bit 8 (ucast (b ! 1)) OR push_bit 16 (ucast (b ! 2)) OR push_bit 24 (ucast (b ! 3)) OR
     push_bit 32 (ucast (b ! 4)) OR push_bit 40 (ucast (b ! 5)) OR push_bit 48 (ucast (b ! 6)) OR push_bit 56 (ucast (b ! 7))"

definition readInt32 :: "32 word reader" where
  "readInt32 inp i = bindE (readBytes 4 inp i) (\<lambda>(b, i). Inr (un32 b, i))"

definition readInt64 :: "64 word reader" where
  "readInt64 inp i = bindE (readBytes 8 inp i) (\<lambda>(b, i). Inr (un64 b, i))"

text \<open>The position of the next zero, or the end of the given part of the input.\<close>

definition find_zero :: "byte list \<Rightarrow> int \<Rightarrow> int \<Rightarrow> int" where
  "find_zero inp e i = i + int (length (takeWhile (\<lambda>b. b \<noteq> 0) (take (nat (e - i)) (drop (nat i) inp))))"

definition readCStr :: "string reader" where
  "readCStr inp i =
     (if i > int (length inp) then Inl (Panic ''index out of range'')
      else let j = find_zero inp (int (length inp)) i in
        if j + 1 > int (length inp) then corrupted else bindE (slice inp i j) (\<lambda>b. Inr (string_of b, j + 1)))"

definition readStr :: "string reader" where
  "readStr inp i =
     bindE (readInt32 inp i) (\<lambda>(l, i).
     bindE (readBytes (sint (l - 1)) inp i) (\<lambda>(b, i).
     bindE (readByte inp i) (\<lambda>(z, i). if z \<noteq> 0 then corrupted else Inr (string_of b, i))))"

definition readBinary :: "(byte \<times> byte list) reader" where
  "readBinary inp i =
     bindE (readInt32 inp i) (\<lambda>(l, i).
     bindE (readByte inp i) (\<lambda>(kind, i).
     bindE (readBytes (sint l) inp i) (\<lambda>(data, i).
     if kind = 2 then bindE (slice data 4 (int (length data))) (\<lambda>data. Inr ((kind, data), i)) else Inr ((kind, data), i))))"

definition readRegEx :: "bson reader" where
  "readRegEx inp i = bindE (readCStr inp i) (\<lambda>(p, i). bindE (readCStr inp i) (\<lambda>(opts, i). Inr (RegEx p opts, i)))"

definition readBool :: "bool reader" where
  "readBool inp i = bindE (readByte inp i) (\<lambda>(b, i). Inr (b = 1, i))"

section \<open>Decoding of elements and documents\<close>

text \<open>The type of nested documents: a map, or ordered elements.\<close>

datatype docType = TypeM | TypeD

definition make_doc :: "docType \<Rightarrow> (string \<times> bson) list \<Rightarrow> bson" where
  "make_doc t kvs = (case t of TypeD \<Rightarrow> D kvs | TypeM \<Rightarrow> Map (foldl (\<lambda>m (k, v). AList.update k v m) [] kvs))"

text \<open>The checks at the start of a document, which yield its end, and at its end. The position is the
  one after the length (the compiler evaluates the call in that expression first).\<close>

definition open_doc :: "int reader" where
  "open_doc inp i =
     bindE (readInt32 inp i) (\<lambda>(l, i). let e = i - 4 + sint l in
       if e \<le> i \<or> e > int (length inp) then corrupted
       else bindE (idx inp (e - 1)) (\<lambda>b. if b \<noteq> 0 then corrupted else Inr (e, i)))"

definition end_doc :: "int \<Rightarrow> ('a \<times> int) go \<Rightarrow> ('a \<Rightarrow> bson) \<Rightarrow> (bson \<times> int) go" where
  "end_doc e r f = bindE r (\<lambda>(x, i). if i + 1 \<noteq> e then corrupted else Inr (f x, i + 1))"

definition before :: "int \<Rightarrow> ('a \<times> int) go \<Rightarrow> ('a \<times> int) go" where
  "before e r = bindE r (\<lambda>(x, i). if i \<ge> e then corrupted else Inr (x, i))"

text \<open>The name of an element of an array is skipped.\<close>

definition skip_name :: "int \<Rightarrow> unit reader" where
  "skip_name e inp i = (let j = find_zero inp e i in if j \<ge> e then corrupted else Inr ((), j + 1))"

definition as_value :: "('a \<Rightarrow> bson) \<Rightarrow> ('a \<times> int) go \<Rightarrow> (bson \<times> int) go" where
  "as_value f r = bindE r (\<lambda>(x, i). Inr (f x, i))"

definition read_binary_value :: "byte \<times> byte list \<Rightarrow> bson" where
  "read_binary_value b = (if fst b = 0 \<or> fst b = 2 then Bytes (snd b) else Binary (fst b) (snd b))"

definition read_time :: "64 word \<Rightarrow> bson" where
  "read_time w = (if sint w = - 62135596800000 then Time zero_time else Time (sint w * 10 ^ 6))"

text \<open>The kinds whose values hold no others.\<close>

definition read_scalar :: "byte \<Rightarrow> bson reader" where
  "read_scalar kind inp i =
     (if kind = 0x01 then as_value Float64 (readInt64 inp i)
      else if kind = 0x02 then as_value String (readStr inp i)
      else if kind = 0x05 then as_value read_binary_value (readBinary inp i)
      else if kind = 0x06 then Inr (Undefined, i)
      else if kind = 0x07 then as_value (\<lambda>b. ObjectId (string_of b)) (readBytes 12 inp i)
      else if kind = 0x08 then as_value Bool (readBool inp i)
      else if kind = 0x09 then as_value read_time (readInt64 inp i)
      else if kind = 0x0A then Inr (Nil_value, i)
      else if kind = 0x0B then readRegEx inp i
      else if kind = 0x0D then as_value (\<lambda>s. JavaScript s None) (readStr inp i)
      else if kind = 0x0E then as_value Symbol (readStr inp i)
      else if kind = 0x10 then as_value (\<lambda>w. GoInt (scast w)) (readInt32 inp i)
      else if kind = 0x11 then as_value MongoTimestamp (readInt64 inp i)
      else if kind = 0x12 then as_value GoInt64 (readInt64 inp i)
      else if kind = 0x7F then Inr (OrderKey MaxKey, i)
      else if kind = 0xFF then Inr (OrderKey MinKey, i)
      else Inl (Err ''Unknown element kind''))"

text \<open>\<open>readElemTo\<close> of a value of type \<open>interface{}\<close>. The first argument is fuel: each call passes on
  one less.\<close>

function (sequential) readElemTo :: "nat \<Rightarrow> docType \<Rightarrow> byte \<Rightarrow> bson reader"
  and readDocWith :: "nat \<Rightarrow> docType \<Rightarrow> int \<Rightarrow> (string \<times> bson) list reader"
  and readSliceDoc :: "nat \<Rightarrow> docType \<Rightarrow> int \<Rightarrow> bson list reader" where
  "readElemTo 0 t kind inp i = Inl Diverge"
| "readElemTo (Suc n) t kind inp i =
     (if kind = 0x03 then
        bindE (open_doc inp i) (\<lambda>(e, i). end_doc e (readDocWith n t e inp i) (make_doc t))
      else if kind = 0x04 then
        bindE (open_doc inp i) (\<lambda>(e, i). end_doc e (readSliceDoc n t e inp i) Slice)
      else if kind = 0x0F then
        bindE (readStr inp (i + 4)) (\<lambda>(code, i).
        bindE (open_doc inp i) (\<lambda>(e, i).
          end_doc e (readDocWith n TypeM e inp i) (\<lambda>kvs. JavaScript code (Some (make_doc TypeM kvs)))))
      else read_scalar kind inp i)"
| "readDocWith 0 t e inp i = Inl Diverge"
| "readDocWith (Suc n) t e inp i =
     bindE (idx inp i) (\<lambda>c. if c = 0 then Inr ([], i)
       else
         bindE (readByte inp i) (\<lambda>(kind, i).
         bindE (before e (readCStr inp i)) (\<lambda>(name, i).
         bindE (before e (readElemTo n t kind inp i)) (\<lambda>(v, i).
         bindE (readDocWith n t e inp i) (\<lambda>(kvs, i). Inr ((name, v) # kvs, i))))))"
| "readSliceDoc 0 t e inp i = Inl Diverge"
| "readSliceDoc (Suc n) t e inp i =
     bindE (idx inp i) (\<lambda>c. if c = 0 then Inr ([], i)
       else
         bindE (readByte inp i) (\<lambda>(kind, i).
         bindE (skip_name e inp i) (\<lambda>(_, i).
         bindE (before e (readElemTo n t kind inp i)) (\<lambda>(v, i).
         bindE (readSliceDoc n t e inp i) (\<lambda>(vs, i). Inr (v # vs, i))))))"
  by pat_completeness auto
termination
  by (relation "measure (\<lambda>x. case x of Inl (n, _) \<Rightarrow> n | Inr (Inl (n, _)) \<Rightarrow> n | Inr (Inr (n, _)) \<Rightarrow> n)") simp_all

declare readElemTo.simps [simp del] readDocWith.simps [simp del] readSliceDoc.simps [simp del]

definition readDocTo :: "nat \<Rightarrow> docType \<Rightarrow> bson reader" where
  "readDocTo n t inp i = bindE (open_doc inp i) (\<lambda>(e, i). end_doc e (readDocWith n t e inp i) (make_doc t))"

text \<open>Into a pointer to a \<open>bson.D\<close> or into a map; what follows the document is not looked at. The fuel
  is more than the number of bytes.\<close>

definition Unmarshal :: "docType \<Rightarrow> byte list \<Rightarrow> bson go" where
  "Unmarshal t inp = bindE (readDocTo (length inp + 1) t inp 0) (\<lambda>(v, _). Inr v)"

end
