(* ===== verification/Bson_Round.thy ===== *)
theory Bson_Round
  imports Bson
begin

text \<open>
  The round trip of the BSON codec: decoding an encoded document gives the document back in the
  generic types of the decoder, which lose the widths and field types of the original.
\<close>

section \<open>What comes back\<close>

text \<open>\<open>norm t minSize v\<close> is the value that the decoder makes of the encoding of \<open>v\<close>, with \<open>t\<close> as the type
  of nested documents. A Go \<open>int\<close> comes back cut to 32 bits, a time cut to milliseconds.\<close>

definition norm_uint :: "bool \<Rightarrow> 64 word \<Rightarrow> bson" where
  "norm_uint small u = (if uint u \<le> 2 ^ 31 - 1 \<and> small then GoInt u else GoInt64 u)"

function (sequential) norm :: "docType \<Rightarrow> bool \<Rightarrow> bson \<Rightarrow> bson"
  and norm_pairs :: "docType \<Rightarrow> (string \<times> bson) list \<Rightarrow> (string \<times> bson) list"
  and norm_slice :: "docType \<Rightarrow> bson list \<Rightarrow> bson list"
  and norm_fields :: "docType \<Rightarrow> (fieldInfo \<times> bson) list \<Rightarrow> (string \<times> bson) list" where
  "norm t ms v =
     (case v of
        Uint u \<Rightarrow> norm_uint True u
      | Uint64 u \<Rightarrow> norm_uint ms u
      | GoInt w \<Rightarrow> GoInt (scast (ucast w :: 32 word))
      | GoInt64 w \<Rightarrow> if ms \<and> - (2 ^ 31) \<le> sint w \<and> sint w \<le> 2 ^ 31 - 1 then GoInt w else GoInt64 w
      | OrderKey w \<Rightarrow> OrderKey (if w = MaxKey then MaxKey else MinKey)
      | Map kvs \<Rightarrow> make_doc t (norm_pairs t kvs)
      | D kvs \<Rightarrow> make_doc t (norm_pairs t kvs)
      | Slice vs \<Rightarrow> Slice (norm_slice t vs)
      | Struct fs \<Rightarrow> make_doc t (norm_fields t fs)
      | Binary kind data \<Rightarrow> if kind = 0 \<or> kind = 2 then Bytes data else Binary kind data
      | JavaScript code (Some sc) \<Rightarrow> JavaScript code (Some (norm TypeM False sc))
      | Time i \<Rightarrow> read_time (word_of_int (i div 10 ^ 6))
      | _ \<Rightarrow> v)"
| "norm_pairs t [] = []"
| "norm_pairs t ((k, v) # kvs) = (k, norm t False v) # norm_pairs t kvs"
| "norm_slice t [] = []"
| "norm_slice t (v # vs) = norm t False v # norm_slice t vs"
| "norm_fields t [] = []"
| "norm_fields t ((f, v) # fs) =
     (if OmitEmpty f \<and> isZero v then norm_fields t fs else (Key f, norm t (MinSize f) v) # norm_fields t fs)"
  by pat_completeness auto
termination
  by (relation "measure (\<lambda>x. case x of
      Inl (Inl (_, _, v)) \<Rightarrow> size v
    | Inl (Inr (_, kvs)) \<Rightarrow> size_list (size_prod (\<lambda>_. 0) size) kvs
    | Inr (Inl (_, vs)) \<Rightarrow> size_list size vs
    | Inr (Inr (_, fs)) \<Rightarrow> size_list (size_prod (\<lambda>_. 0) size) fs)") auto

declare norm.simps [simp del]

text \<open>The values that are encoded as the decoder expects them: names and regular expressions without
  a zero byte (they are terminated by one), no raw bytes, and a map or a struct as the scope of code.\<close>

definition no_nul :: "string \<Rightarrow> bool" where
  "no_nul s \<longleftrightarrow> CHR 0x00 \<notin> set s"

definition is_document :: "bson \<Rightarrow> bool" where
  "is_document v = (case v of Map _ \<Rightarrow> True | D _ \<Rightarrow> True | Struct _ \<Rightarrow> True | _ \<Rightarrow> False)"

function (sequential) clean :: "bson \<Rightarrow> bool"
  and clean_pairs :: "(string \<times> bson) list \<Rightarrow> bool"
  and clean_slice :: "bson list \<Rightarrow> bool"
  and clean_fields :: "(fieldInfo \<times> bson) list \<Rightarrow> bool" where
  "clean v =
     (case v of
        Map kvs \<Rightarrow> clean_pairs kvs
      | D kvs \<Rightarrow> clean_pairs kvs
      | Slice vs \<Rightarrow> clean_slice vs
      | Struct fs \<Rightarrow> clean_fields fs
      | Raw _ _ \<Rightarrow> False
      | RegEx p opts \<Rightarrow> no_nul p \<and> no_nul opts
      | JavaScript code (Some sc) \<Rightarrow> is_document sc \<and> clean sc
      | _ \<Rightarrow> True)"
| "clean_pairs [] = True"
| "clean_pairs ((k, v) # kvs) = (no_nul k \<and> clean v \<and> clean_pairs kvs)"
| "clean_slice [] = True"
| "clean_slice (v # vs) = (clean v \<and> clean_slice vs)"
| "clean_fields [] = True"
| "clean_fields ((f, v) # fs) = (no_nul (Key f) \<and> clean v \<and> clean_fields fs)"
  by pat_completeness auto
termination
  by (relation "measure (\<lambda>x. case x of
      Inl (Inl v) \<Rightarrow> size v
    | Inl (Inr kvs) \<Rightarrow> size_list (size_prod (\<lambda>_. 0) size) kvs
    | Inr (Inl vs) \<Rightarrow> size_list size vs
    | Inr (Inr fs) \<Rightarrow> size_list (size_prod (\<lambda>_. 0) size) fs)") auto

declare clean.simps [simp del]

section \<open>Bytes of words\<close>

lemma un32_le32: "un32 (le32 w) = w"
proof (rule bit_word_eqI)
  fix n assume "n < LENGTH(32)"
  then have n: "n < 32" by simp
  show "bit (un32 (le32 w)) n = bit w n"
    using n by (cases "n < 8"; cases "n < 16"; cases "n < 24")
      (simp_all add: un32_def le32_def bit_or_iff bit_push_bit_iff bit_ucast_iff bit_drop_bit_eq less_diff_conv2 not_less)
qed

lemma un64_le64: "un64 (le64 w) = w"
proof (rule bit_word_eqI)
  fix n assume "n < LENGTH(64)"
  then have n: "n < 64" by simp
  show "bit (un64 (le64 w)) n = bit w n"
    using n by (cases "n < 8"; cases "n < 16"; cases "n < 24"; cases "n < 32"; cases "n < 40"; cases "n < 48"; cases "n < 56")
      (simp_all add: un64_def le64_def bit_or_iff bit_push_bit_iff bit_ucast_iff bit_drop_bit_eq less_diff_conv2 not_less)
qed

lemma length_le [simp]: "length (le32 w) = 4" "length (le64 u) = 8"
  by (simp_all add: le32_def le64_def)

lemma sint_of_nat: "n < 2 ^ 31 \<Longrightarrow> sint (of_nat n :: 32 word) = int n"
  by (simp add: signed_of_nat signed_take_bit_int_eq_self)

section \<open>Readers\<close>

text \<open>The input goes on with \<open>rest\<close> at position \<open>i\<close>; a reader that reads \<open>x\<close> from the bytes \<open>b\<close>.\<close>

definition at :: "byte list \<Rightarrow> int \<Rightarrow> byte list \<Rightarrow> bool" where
  "at inp i rest \<longleftrightarrow> 0 \<le> i \<and> i \<le> int (length inp) \<and> drop (nat i) inp = rest"

definition reads :: "'a reader \<Rightarrow> byte list \<Rightarrow> 'a \<Rightarrow> bool" where
  "reads r b x \<longleftrightarrow> (\<forall>inp i rest. at inp i (b @ rest) \<longrightarrow> r inp i = Inr (x, i + int (length b)))"

lemma readsD: "reads r b x \<Longrightarrow> at inp i (b @ rest) \<Longrightarrow> r inp i = Inr (x, i + int (length b))"
  unfolding reads_def by blast

lemma at_append:
  assumes "at inp i (b @ rest)"
  shows "i + int (length b) + int (length rest) = int (length inp)" "at inp (i + int (length b)) rest"
proof -
  have i: "0 \<le> i" "i \<le> int (length inp)" and d: "drop (nat i) inp = b @ rest" using assms by (simp_all add: at_def)
  have "length inp - nat i = length b + length rest" using arg_cong[OF d, of length] by simp
  then show sum: "i + int (length b) + int (length rest) = int (length inp)" using i by linarith
  have "drop (length b) (drop (nat i) inp) = rest" using d by simp
  then show "at inp (i + int (length b)) rest" using i sum by (simp add: at_def nat_add_distrib add.commute)
qed

lemma at_0 [simp]: "at inp 0 inp"
  by (simp add: at_def)

lemma reads_bind:
  assumes "reads r b x" "reads (g x) c y"
  shows "reads (\<lambda>inp i. bindE (r inp i) (\<lambda>(x, i). g x inp i)) (b @ c) y"
  unfolding reads_def
proof (intro allI impI)
  fix inp i rest assume a: "at inp i ((b @ c) @ rest)"
  have r: "r inp i = Inr (x, i + int (length b))" using readsD[OF assms(1)] a by simp
  have "at inp (i + int (length b)) (c @ rest)" using at_append(2)[of inp i b "c @ rest"] a by simp
  then have "g x inp (i + int (length b)) = Inr (y, i + int (length b) + int (length c))" by (rule readsD[OF assms(2)])
  then show "bindE (r inp i) (\<lambda>(x, i). g x inp i) = Inr (y, i + int (length (b @ c)))" using r by simp
qed

lemma reads_done: "reads (\<lambda>inp i. Inr (x, i)) [] x"
  by (simp add: reads_def)

lemma reads_as_value: "reads r b x \<Longrightarrow> reads (\<lambda>inp i. as_value f (r inp i)) b (f x)"
  by (simp add: reads_def as_value_def)

lemma at_slice:
  assumes "at inp i (b @ rest)"
  shows "slice inp i (i + int (length b)) = Inr b"
proof -
  have "i + int (length b) \<le> int (length inp)" "0 \<le> i" using assms at_append(1)[OF assms] by (auto simp: at_def)
  moreover have "take (length b) (drop (nat i) inp) = b" using assms by (simp add: at_def)
  ultimately show ?thesis by (simp add: slice_def nat_add_distrib)
qed

lemma at_idx: "at inp i (c # rest) \<Longrightarrow> idx inp i = Inr c"
  by (auto simp: at_def idx_def nth_via_drop dest: arg_cong[of _ _ length])

lemma reads_Bytes: "l = int (length b) \<Longrightarrow> reads (readBytes l) b b"
  unfolding reads_def readBytes_def
proof (intro allI impI)
  fix inp i rest assume l: "l = int (length b)" and a: "at inp i (b @ rest)"
  then have "\<not> i + l > int (length inp)" using at_append(1)[OF a] by simp
  then show "(if i + l > int (length inp) then corrupted else bindE (slice inp i (i + l)) (\<lambda>b. Inr (b, i + l))) =
      Inr (b, i + int (length b))" using at_slice[OF a] l by simp
qed

lemma reads_Byte: "reads readByte [c] c"
  unfolding reads_def readByte_def
  using at_append(1)[of _ _ "[_]"] at_idx by fastforce

lemma reads_Int32: "reads readInt32 (le32 w) w"
  using reads_bind[OF reads_Bytes[of 4 "le32 w"], of "\<lambda>b inp i. Inr (un32 b, i)" "[]" w]
  by (simp add: readInt32_def[abs_def] un32_le32 reads_done)

lemma reads_Int64: "reads readInt64 (le64 w) w"
  using reads_bind[OF reads_Bytes[of 8 "le64 w"], of "\<lambda>b inp i. Inr (un64 b, i)" "[]" w]
  by (simp add: readInt64_def[abs_def] un64_le64 reads_done)

lemma bytes_of_no_nul: "no_nul s \<Longrightarrow> b \<in> set (bytes_of s) \<Longrightarrow> b \<noteq> 0"
proof
  assume n: "no_nul s" and b: "b \<in> set (bytes_of s)" "b = 0"
  then obtain c where c: "c \<in> set s" "of_char c = (0 :: byte)" by (auto simp: bytes_of_def)
  have "string_of [of_char c] = [c]" using string_of_bytes_of[of "[c]"] by (simp add: bytes_of_def)
  then have "c = char_of (0 :: nat)" using c(2) by (simp add: string_of_def)
  then have "c = CHR 0x00" by (simp add: char_of_def)
  then show False using n c(1) by (simp add: no_nul_def)
qed

lemma find_zero_at:
  assumes "at inp i (b @ 0 # rest)" "\<forall>c \<in> set b. c \<noteq> 0" "i + int (length b) < e"
  shows "find_zero inp e i = i + int (length b)"
proof -
  have "length b < nat (e - i)" using assms(3) by simp
  then obtain k where k: "nat (e - i) = Suc (length b + k)" by (metis less_iff_Suc_add)
  have "take (nat (e - i)) (drop (nat i) inp) = b @ 0 # take k rest" using assms(1) k by (simp add: at_def)
  then show ?thesis using assms(2) by (simp add: find_zero_def takeWhile_tail)
qed

lemma reads_CStr: "no_nul s \<Longrightarrow> reads readCStr (bytes_of s @ [0]) s"
  unfolding reads_def
proof (intro allI impI)
  fix inp i rest assume n: "no_nul s" and a: "at inp i ((bytes_of s @ [0]) @ rest)"
  have a': "at inp i (bytes_of s @ 0 # rest)" using a by simp
  have len: "i + int (length s) + 1 \<le> int (length inp)" using at_append(1)[OF a'] by simp
  have "find_zero inp (int (length inp)) i = i + int (length (bytes_of s))"
    by (rule find_zero_at[OF a']) (use bytes_of_no_nul[OF n] len in auto)
  moreover have "slice inp i (i + int (length (bytes_of s))) = Inr (bytes_of s)" by (rule at_slice[OF a'])
  moreover have "\<not> i > int (length inp)" using a by (simp add: at_def)
  ultimately show "readCStr inp i = Inr (s, i + int (length (bytes_of s @ [0])))"
    using len by (simp add: readCStr_def Let_def)
qed

lemma reads_Str:
  assumes "length s + 1 < 2 ^ 31"
  shows "reads readStr (le32 (of_nat (length s + 1)) @ bytes_of s @ [0]) s"
  unfolding reads_def
proof (intro allI impI)
  fix inp i rest
  let ?w = "of_nat (length s + 1) :: 32 word"
  assume a: "at inp i ((le32 ?w @ bytes_of s @ [0]) @ rest)"
  have a0: "at inp i (le32 ?w @ (bytes_of s @ [0] @ rest))" using a by simp
  note a1 = at_append(2)[OF a0] note a2 = at_append(2)[OF a1]
  have "sint (?w - 1) = int (length (bytes_of s))" using sint_of_nat[of "length s"] assms by simp
  then show "readStr inp i = Inr (s, i + int (length (le32 ?w @ bytes_of s @ [0])))"
    using readsD[OF reads_Int32 a0] readsD[OF reads_Bytes a1] readsD[OF reads_Byte a2]
    by (simp add: readStr_def)
qed

section \<open>Elements without others\<close>

lemma reads_Bool: "reads (\<lambda>inp i. as_value Bool (readBool inp i)) [if b then 1 else 0] (Bool b)"
  using reads_bind[OF reads_Byte[of "if b then 1 else 0"], of "\<lambda>c inp i. Inr (c = 1, i)" "[]" b]
  by (intro reads_as_value) (simp add: readBool_def[abs_def] reads_done)

lemma reads_RegEx:
  assumes "no_nul p" "no_nul opts"
  shows "reads readRegEx ((bytes_of p @ [0]) @ bytes_of opts @ [0]) (RegEx p opts)"
  unfolding reads_def
proof (intro allI impI)
  fix inp i rest assume a: "at inp i (((bytes_of p @ [0]) @ bytes_of opts @ [0]) @ rest)"
  have a0: "at inp i ((bytes_of p @ [0]) @ ((bytes_of opts @ [0]) @ rest))" using a by simp
  note a1 = at_append(2)[OF a0]
  show "readRegEx inp i = Inr (RegEx p opts, i + int (length ((bytes_of p @ [0]) @ bytes_of opts @ [0])))"
    using readsD[OF reads_CStr[OF assms(1)] a0] readsD[OF reads_CStr[OF assms(2)] a1]
    by (simp add: readRegEx_def)
qed

definition binary_body :: "byte \<Rightarrow> byte list \<Rightarrow> byte list" where
  "binary_body kind data = addBinary kind data []"

lemma addBinary_body: "addBinary kind data out = out @ binary_body kind data"
  by (simp add: binary_body_def addBinary_def addInt32_def)

lemma reads_Binary:
  assumes "length data + 4 < 2 ^ 31"
  shows "reads readBinary (binary_body kind data) (kind, data)"
  unfolding reads_def
proof (intro allI impI)
  fix inp i rest
  let ?b = "if kind = 2 then le32 (of_nat (length data)) @ data else data"
  let ?w = "of_nat (length ?b) :: 32 word"
  have body: "binary_body kind data = le32 ?w @ [kind] @ ?b"
    by (simp add: binary_body_def addBinary_def addInt32_def add.commute)
  assume a: "at inp i (binary_body kind data @ rest)"
  have a0: "at inp i (le32 ?w @ ([kind] @ ?b @ rest))" using a body by simp
  note a1 = at_append(2)[OF a0] note a2 = at_append(2)[OF a1]
  have "sint ?w = int (length ?b)" using assms by (intro sint_of_nat) auto
  note r = readsD[OF reads_Int32 a0] readsD[OF reads_Byte a1] readsD[OF reads_Bytes[OF this] a2]
  show "readBinary inp i = Inr ((kind, data), i + int (length (binary_body kind data)))"
  proof (cases "kind = 2")
    case True
    then show ?thesis using r body by (simp add: readBinary_def slice_def)
  next
    case False
    then show ?thesis using r body by (simp add: readBinary_def)
  qed
qed

text \<open>What the encoder appends, and that the decoder reads it.\<close>

definition elem_ok :: "string \<Rightarrow> bool \<Rightarrow> bson \<Rightarrow> byte list \<Rightarrow> bool" where
  "elem_ok name ms v out \<longleftrightarrow> (\<forall>res. addElem name ms v out = Inr res \<longrightarrow> clean v \<longrightarrow>
     (\<exists>kind body. kind \<noteq> 0 \<and> res = out @ [kind] @ bytes_of name @ [0] @ body \<and>
       (length body < 2 ^ 31 \<longrightarrow> (\<forall>n t. length body < n \<longrightarrow> reads (readElemTo n t kind) body (norm t ms v)))))"

lemma elem_okI:
  assumes "\<And>res. addElem name ms v out = Inr res \<Longrightarrow> clean v \<Longrightarrow>
    \<exists>body. res = addElemName kind name out @ body \<and>
      (length body < 2 ^ 31 \<longrightarrow> (\<forall>n t. length body < n \<longrightarrow> reads (readElemTo n t kind) body (norm t ms v)))"
    and "kind \<noteq> 0"
  shows "elem_ok name ms v out"
  unfolding elem_ok_def
proof (intro allI impI)
  fix res assume "addElem name ms v out = Inr res" "clean v"
  from assms(1)[OF this] obtain body where "res = addElemName kind name out @ body"
    "length body < 2 ^ 31 \<longrightarrow> (\<forall>n t. length body < n \<longrightarrow> reads (readElemTo n t kind) body (norm t ms v))" by blast
  then show "\<exists>kind body. kind \<noteq> 0 \<and> res = out @ [kind] @ bytes_of name @ [0] @ body \<and>
       (length body < 2 ^ 31 \<longrightarrow> (\<forall>n t. length body < n \<longrightarrow> reads (readElemTo n t kind) body (norm t ms v)))"
    using assms(2) by (intro exI[of _ kind] exI[of _ body]) (simp add: addElemName_def)
qed

lemma scalar_ok:
  assumes "\<And>res. addElem name ms v out = Inr res \<Longrightarrow> clean v \<Longrightarrow> \<exists>body. res = addElemName kind name out @ body \<and>
      (length body < 2 ^ 31 \<longrightarrow> (\<forall>t. reads (read_scalar kind) body (norm t ms v)))"
    and "kind \<noteq> 0 \<and> kind \<noteq> 3 \<and> kind \<noteq> 4 \<and> kind \<noteq> 0x0F"
  shows "elem_ok name ms v out"
proof (rule elem_okI)
  fix res assume "addElem name ms v out = Inr res" "clean v"
  from assms(1)[OF this] obtain body where body: "res = addElemName kind name out @ body"
    "length body < 2 ^ 31 \<longrightarrow> (\<forall>t. reads (read_scalar kind) body (norm t ms v))" by blast
  have "readElemTo (Suc n) t kind = read_scalar kind" for n t
    using assms(2) by (simp add: readElemTo.simps fun_eq_iff)
  then have "reads (readElemTo n t kind) body (norm t ms v)" if "length body < 2 ^ 31" "length body < n" for n t
    using body(2) that by (cases n) simp_all
  then show "\<exists>body. res = addElemName kind name out @ body \<and>
      (length body < 2 ^ 31 \<longrightarrow> (\<forall>n t. length body < n \<longrightarrow> reads (readElemTo n t kind) body (norm t ms v)))"
    using body(1) by blast
qed (use assms(2) in simp)

lemma addStr_body: "addStr s out = out @ le32 (of_nat (length s + 1)) @ bytes_of s @ [0]"
  by (simp add: addStr_def addCStr_def addInt32_def)

lemma read_scalar_kinds:
  "read_scalar 1 = (\<lambda>inp i. as_value Float64 (readInt64 inp i))"
  "read_scalar 2 = (\<lambda>inp i. as_value String (readStr inp i))"
  "read_scalar 5 = (\<lambda>inp i. as_value read_binary_value (readBinary inp i))"
  "read_scalar 6 = (\<lambda>inp i. Inr (Undefined, i))"
  "read_scalar 7 = (\<lambda>inp i. as_value (\<lambda>b. ObjectId (string_of b)) (readBytes 12 inp i))"
  "read_scalar 8 = (\<lambda>inp i. as_value Bool (readBool inp i))"
  "read_scalar 9 = (\<lambda>inp i. as_value read_time (readInt64 inp i))"
  "read_scalar 10 = (\<lambda>inp i. Inr (Nil_value, i))"
  "read_scalar 11 = readRegEx"
  "read_scalar 13 = (\<lambda>inp i. as_value (\<lambda>s. JavaScript s None) (readStr inp i))"
  "read_scalar 14 = (\<lambda>inp i. as_value Symbol (readStr inp i))"
  "read_scalar 16 = (\<lambda>inp i. as_value (\<lambda>w. GoInt (scast w)) (readInt32 inp i))"
  "read_scalar 17 = (\<lambda>inp i. as_value MongoTimestamp (readInt64 inp i))"
  "read_scalar 18 = (\<lambda>inp i. as_value GoInt64 (readInt64 inp i))"
  "read_scalar 127 = (\<lambda>inp i. Inr (OrderKey MaxKey, i))"
  "read_scalar 255 = (\<lambda>inp i. Inr (OrderKey MinKey, i))"
  by (simp_all add: read_scalar_def fun_eq_iff)

lemmas scalar_simps = addElem.simps norm.simps read_scalar_kinds reads_done addInt32_def addInt64_def addStr_body

lemma scast_ucast_small:
  assumes "- (2 ^ 31) \<le> sint w" "sint w \<le> 2 ^ 31 - 1"
  shows "scast (ucast (w :: 64 word) :: 32 word) = w"
proof -
  have "sint (ucast w :: 32 word) = signed_take_bit 31 (uint w)" by (simp add: signed_ucast_eq)
  also have "\<dots> = signed_take_bit 31 (take_bit 64 (sint w))" by (simp only: uint_sint) simp
  also have "\<dots> = signed_take_bit 31 (sint w)" by (simp add: signed_take_bit_take_bit)
  also have "\<dots> = sint w" using assms by (intro signed_take_bit_int_eq_self) simp_all
  finally have "sint (ucast w :: 32 word) = sint w" .
  then show ?thesis by (simp add: scast_eq)
qed


lemma scalar_elem_ok:
  "elem_ok name ms Nil_value out" "elem_ok name ms (Float64 w) out" "elem_ok name ms (String s) out"
  "elem_ok name ms (ObjectId s) out" "elem_ok name ms (Symbol s) out" "elem_ok name ms (GoInt w) out"
  "elem_ok name ms (MongoTimestamp w) out" "elem_ok name ms (OrderKey w) out" "elem_ok name ms (Bool b) out"
  "elem_ok name ms (Bytes bs) out" "elem_ok name ms (Binary k bs) out" "elem_ok name ms (RegEx p opts) out"
  "elem_ok name ms (JavaScript s None) out" "elem_ok name ms (Time tm) out" "elem_ok name ms Undefined out"
proof -
  have str: "length (le32 x @ bytes_of s @ [0]) < 2 ^ 31 \<Longrightarrow> length s + 1 < 2 ^ 31" for x by simp
  show "elem_ok name ms Nil_value out" by (rule scalar_ok[where kind = "10"]) (auto simp: scalar_simps)
  show "elem_ok name ms (Float64 w) out"
    by (rule scalar_ok[where kind = "1"]) (auto simp: scalar_simps intro!: reads_as_value reads_Int64)
  show "elem_ok name ms (String s) out"
    by (rule scalar_ok[where kind = "2"]) (use reads_as_value[OF reads_Str[OF str]] in \<open>auto simp: scalar_simps\<close>)
  show "elem_ok name ms (ObjectId s) out"
    by (rule scalar_ok[where kind = "7"])
      (use reads_as_value[OF reads_Bytes[of 12 "bytes_of s"], of "\<lambda>b. ObjectId (string_of b)"] in \<open>auto simp: scalar_simps split: if_splits\<close>)
  show "elem_ok name ms (Symbol s) out"
    by (rule scalar_ok[where kind = "14"]) (use reads_as_value[OF reads_Str[OF str]] in \<open>auto simp: scalar_simps\<close>)
  show "elem_ok name ms (GoInt w) out"
    by (rule scalar_ok[where kind = "16"])
      (use reads_as_value[OF reads_Int32, of "\<lambda>w. GoInt (scast w)"] in \<open>auto simp: scalar_simps\<close>)
  show "elem_ok name ms (MongoTimestamp w) out"
    by (rule scalar_ok[where kind = "17"]) (auto simp: scalar_simps intro!: reads_as_value reads_Int64)
  show "elem_ok name ms (OrderKey w) out"
    by (rule scalar_ok[where kind = "if w = MaxKey then 0x7F else 0xFF"]) (auto simp: scalar_simps)
  show "elem_ok name ms (Bool b) out"
    by (rule scalar_ok[where kind = "8"]) (use reads_Bool[of b] in \<open>auto simp: scalar_simps\<close>)
  show "elem_ok name ms (RegEx p opts) out"
    by (rule scalar_ok[where kind = "11"])
      (use reads_RegEx[of p opts] in \<open>auto simp: scalar_simps addCStr_def clean.simps\<close>)
  show "elem_ok name ms (JavaScript s None) out"
    by (rule scalar_ok[where kind = "13"])
      (use reads_as_value[OF reads_Str[OF str], of _ "\<lambda>s. JavaScript s None"] in \<open>auto simp: scalar_simps\<close>)
  show "elem_ok name ms (Time tm) out"
    by (rule scalar_ok[where kind = "9"]) (auto simp: scalar_simps intro!: reads_as_value reads_Int64)
  show "elem_ok name ms Undefined out" by (rule scalar_ok[where kind = "6"]) (auto simp: scalar_simps)
  have bin: "reads (\<lambda>inp i. as_value read_binary_value (readBinary inp i)) (binary_body k bs) (read_binary_value (k, bs))"
    if "length (binary_body k bs) < 2 ^ 31" for k bs
    by (rule reads_as_value, rule reads_Binary)
      (use that in \<open>simp add: binary_body_def addBinary_def addInt32_def split: if_splits\<close>)
  show "elem_ok name ms (Bytes bs) out"
    by (rule scalar_ok[where kind = "5"])
      (use bin[of 0 bs] in \<open>auto simp: scalar_simps addBinary_body read_binary_value_def\<close>)
  show "elem_ok name ms (Binary k bs) out"
    by (rule scalar_ok[where kind = "5"])
      (use bin[of k bs] in \<open>auto simp: scalar_simps addBinary_body read_binary_value_def\<close>)
qed


lemma elem_ok_int32:
  assumes "\<And>res. addElem name ms v out = Inr res \<Longrightarrow> res = addInt32 (ucast w) (addElemName 16 name out)"
    and "\<And>t. norm t ms v = GoInt (scast (ucast (w :: 64 word) :: 32 word))"
  shows "elem_ok name ms v out"
  by (rule scalar_ok[where kind = 16])
    (use assms reads_as_value[OF reads_Int32, of "\<lambda>w. GoInt (scast w)"] in \<open>auto simp: read_scalar_kinds addInt32_def\<close>)

lemma elem_ok_int64:
  assumes "\<And>res. addElem name ms v out = Inr res \<Longrightarrow> res = addInt64 w (addElemName 18 name out)"
    and "\<And>t. norm t ms v = GoInt64 w"
  shows "elem_ok name ms v out"
  by (rule scalar_ok[where kind = 18])
    (use assms reads_as_value[OF reads_Int64, of GoInt64] in \<open>auto simp: read_scalar_kinds addInt64_def\<close>)

lemma elem_ok_fail: "(\<And>res. addElem name ms v out \<noteq> Inr res) \<Longrightarrow> elem_ok name ms v out"
  by (simp add: elem_ok_def)

lemma elem_ok_Int64: "elem_ok name ms (GoInt64 w) out"
proof (cases "ms \<and> - (2 ^ 31) \<le> sint w \<and> sint w \<le> 2 ^ 31 - 1")
  case True
  then show ?thesis using scast_ucast_small[of w]
    by (intro elem_ok_int32[where w = w]) (simp_all add: addElem.simps norm.simps)
next
  case False
  then show ?thesis by (intro elem_ok_int64[where w = w]) (auto simp: addElem.simps norm.simps)
qed

lemma elem_ok_uint:
  assumes "addElem name ms v out = add_uint name small u out" "\<And>t. norm t ms v = norm_uint small u"
  shows "elem_ok name ms v out"
proof (cases "sint u < 0")
  case True
  then show ?thesis by (intro elem_ok_fail) (simp add: assms add_uint_def)
next
  case neg: False
  show ?thesis
  proof (cases "uint u \<le> 2 ^ 31 - 1 \<and> small")
    case True
    have "sint u \<le> uint u" using order_trans[OF _ uint_ge_0[of u], of "- (2 ^ 63)"] by (simp add: sint_uint signed_take_bit_int_less_eq_self_iff)
    then have "scast (ucast u :: 32 word) = u" using neg True by (intro scast_ucast_small) auto
    then show ?thesis using True neg
      by (intro elem_ok_int32[where w = u]) (simp_all add: assms add_uint_def norm_uint_def)
  next
    case False
    then show ?thesis using neg by (intro elem_ok_int64[where w = u]) (auto simp: assms add_uint_def norm_uint_def)
  qed
qed

lemma elem_ok_uints: "elem_ok name ms (Uint u) out" "elem_ok name ms (Uint64 u) out"
  by (rule elem_ok_uint[where u = u]; simp add: addElem.simps norm.simps)+

section \<open>Documents\<close>

text \<open>A reader of the elements of a document that ends at \<open>e\<close>, before its terminator.\<close>

definition reads_doc :: "(int \<Rightarrow> 'a reader) \<Rightarrow> byte list \<Rightarrow> 'a \<Rightarrow> bool" where
  "reads_doc r b x \<longleftrightarrow> (\<forall>inp i e rest. at inp i (b @ 0 # rest) \<longrightarrow> i + int (length b) < e \<longrightarrow>
     r e inp i = Inr (x, i + int (length b)))"

lemma reads_docD:
  "reads_doc r b x \<Longrightarrow> at inp i (b @ 0 # rest) \<Longrightarrow> i + int (length b) < e \<Longrightarrow> r e inp i = Inr (x, i + int (length b))"
  unfolding reads_doc_def by blast

definition doc_bytes :: "byte list \<Rightarrow> byte list" where
  "doc_bytes b = le32 (of_nat (length b + 5)) @ b @ [0]"

lemma length_doc_bytes [simp]: "length (doc_bytes b) = length b + 5"
  by (simp add: doc_bytes_def)

lemma open_doc_at:
  assumes a: "at inp i (doc_bytes b @ rest)" and len: "length b + 5 < 2 ^ 31"
  shows "open_doc inp i = Inr (i + int (length b) + 5, i + 4)" "at inp (i + 4) (b @ 0 # rest)"
proof -
  let ?w = "of_nat (length b + 5) :: 32 word" and ?e = "i + int (length b) + 5"
  have a0: "at inp i (le32 ?w @ (b @ 0 # rest))" using a by (simp add: doc_bytes_def)
  show a1: "at inp (i + 4) (b @ 0 # rest)" using at_append(2)[OF a0] by simp
  have a2: "at inp (i + 4 + int (length b)) (0 # rest)" by (rule at_append(2)[OF a1])
  have e: "?e \<le> int (length inp)" using at_append(1)[OF a] by simp
  have i: "readInt32 inp i = Inr (?w, i + 4)" using readsD[OF reads_Int32 a0] by simp
  have w: "sint ?w = int (length b) + 5" using sint_of_nat[OF len] by simp
  have z: "idx inp (?e - 1) = Inr 0" using at_idx[OF a2] by (simp add: algebra_simps)
  show "open_doc inp i = Inr (?e, i + 4)"
    unfolding open_doc_def i bindE_simps Let_def split_conv w using e z by (simp add: algebra_simps)
qed

lemma reads_closed:
  assumes r: "reads_doc r b x" and len: "length b + 5 < 2 ^ 31"
  shows "reads (\<lambda>inp i. bindE (open_doc inp i) (\<lambda>(e, i). end_doc e (r e inp i) f)) (doc_bytes b) (f x)"
  unfolding reads_def
proof (intro allI impI)
  fix inp i rest assume a: "at inp i (doc_bytes b @ rest)"
  have "r (i + int (length b) + 5) inp (i + 4) = Inr (x, i + 4 + int (length b))"
    by (rule reads_docD[OF r open_doc_at(2)[OF a len]]) simp
  then show "bindE (open_doc inp i) (\<lambda>(e, i). end_doc e (r e inp i) f) = Inr (f x, i + int (length (doc_bytes b)))"
    using open_doc_at(1)[OF a len] by (simp add: end_doc_def)
qed

lemma at_name:
  assumes "at inp i (kind # bytes_of k @ [0] @ rest)" "no_nul k"
  shows "idx inp i = Inr kind" "readByte inp i = Inr (kind, i + 1)"
    "readCStr inp (i + 1) = Inr (k, i + 2 + int (length k))" "at inp (i + 2 + int (length k)) rest"
    "i + 1 + int (length k) < e \<Longrightarrow> skip_name e inp (i + 1) = Inr ((), i + 2 + int (length k))"
proof -
  have a: "at inp i ([kind] @ (bytes_of k @ [0]) @ rest)" using assms(1) by simp
  have a1: "at inp (i + 1) ((bytes_of k @ [0]) @ rest)" using at_append(2)[OF a] by simp
  show "idx inp i = Inr kind" by (rule at_idx[OF assms(1)])
  show "readByte inp i = Inr (kind, i + 1)" using readsD[OF reads_Byte a] by simp
  show "readCStr inp (i + 1) = Inr (k, i + 2 + int (length k))"
    using readsD[OF reads_CStr[OF assms(2)] a1] by simp
  show "at inp (i + 2 + int (length k)) rest" using at_append(2)[OF a1] by (simp add: algebra_simps)
  have "at inp (i + 1) (bytes_of k @ 0 # rest)" using a1 by simp
  then have "find_zero inp e (i + 1) = i + 1 + int (length (bytes_of k))" if "i + 1 + int (length k) < e"
    by (rule find_zero_at) (use that bytes_of_no_nul[OF assms(2)] in auto)
  then show "i + 1 + int (length k) < e \<Longrightarrow>
      skip_name e inp (i + 1) = Inr ((), i + 2 + int (length k))"
    by (simp add: skip_name_def Let_def)
qed

lemma reads_doc_Nil: "reads_doc (readDocWith (Suc n) t) [] []" "reads_doc (readSliceDoc (Suc n) t) [] []"
  by (auto simp: reads_doc_def readDocWith.simps readSliceDoc.simps at_idx)

lemma reads_doc_Cons:
  assumes "kind \<noteq> 0" "no_nul k" "reads (readElemTo n t kind) body x" "reads_doc (readDocWith n t) b kvs"
  shows "reads_doc (readDocWith (Suc n) t) (kind # bytes_of k @ [0] @ body @ b) ((k, x) # kvs)"
  unfolding reads_doc_def
proof (intro allI impI)
  fix inp i e rest assume a: "at inp i ((kind # bytes_of k @ [0] @ body @ b) @ 0 # rest)"
    and e: "i + int (length (kind # bytes_of k @ [0] @ body @ b)) < e"
  have a0: "at inp i (kind # bytes_of k @ [0] @ (body @ (b @ 0 # rest)))" using a by simp
  note n = at_name[OF a0 assms(2)]
  let ?j = "i + 2 + int (length k)"
  have el: "readElemTo n t kind inp ?j = Inr (x, ?j + int (length body))" by (rule readsD[OF assms(3) n(4)])
  have "readDocWith n t e inp (?j + int (length body)) = Inr (kvs, ?j + int (length body) + int (length b))"
    by (rule reads_docD[OF assms(4) at_append(2)[OF n(4)]]) (use e in simp)
  then show "readDocWith (Suc n) t e inp i = Inr ((k, x) # kvs, i + int (length (kind # bytes_of k @ [0] @ body @ b)))"
    using e assms(1) by (simp add: readDocWith.simps n el before_def)
qed

lemma reads_slice_Cons:
  assumes "kind \<noteq> 0" "no_nul k" "reads (readElemTo n t kind) body x" "reads_doc (readSliceDoc n t) b vs"
  shows "reads_doc (readSliceDoc (Suc n) t) (kind # bytes_of k @ [0] @ body @ b) (x # vs)"
  unfolding reads_doc_def
proof (intro allI impI)
  fix inp i e rest assume a: "at inp i ((kind # bytes_of k @ [0] @ body @ b) @ 0 # rest)"
    and e: "i + int (length (kind # bytes_of k @ [0] @ body @ b)) < e"
  have a0: "at inp i (kind # bytes_of k @ [0] @ (body @ (b @ 0 # rest)))" using a by simp
  note n = at_name[OF a0 assms(2)]
  let ?j = "i + 2 + int (length k)"
  have el: "readElemTo n t kind inp ?j = Inr (x, ?j + int (length body))" by (rule readsD[OF assms(3) n(4)])
  have "readSliceDoc n t e inp (?j + int (length body)) = Inr (vs, ?j + int (length body) + int (length b))"
    by (rule reads_docD[OF assms(4) at_append(2)[OF n(4)]]) (use e in simp)
  then show "readSliceDoc (Suc n) t e inp i = Inr (x # vs, i + int (length (kind # bytes_of k @ [0] @ body @ b)))"
    using e assms(1) by (simp add: readSliceDoc.simps n el before_def)
qed

lemma no_nul_Itoa: "no_nul (Itoa (int i))"
proof -
  have "c \<in> set (nat_to_dec n) \<Longrightarrow> c \<noteq> CHR 0x00" for c n
    using nat_to_dec_no_sign[of c n] by (auto simp: is_digit_def)
  then show ?thesis by (auto simp: no_nul_def Itoa_def)
qed


section \<open>The encoder\<close>

definition small_len :: "byte list \<Rightarrow> bool" where
  "small_len b \<longleftrightarrow> length b + 5 < 2 ^ 31"

definition pairs_ok :: "(string \<times> bson) list \<Rightarrow> byte list \<Rightarrow> bool" where
  "pairs_ok kvs out \<longleftrightarrow> (\<forall>res. addPairs kvs out = Inr res \<longrightarrow> clean_pairs kvs \<longrightarrow>
     (\<exists>b. res = out @ b \<and> (small_len b \<longrightarrow> (\<forall>n t. length b < n \<longrightarrow> reads_doc (readDocWith n t) b (norm_pairs t kvs)))))"

definition fields_ok :: "(fieldInfo \<times> bson) list \<Rightarrow> byte list \<Rightarrow> bool" where
  "fields_ok fs out \<longleftrightarrow> (\<forall>res. addStruct fs out = Inr res \<longrightarrow> clean_fields fs \<longrightarrow>
     (\<exists>b. res = out @ b \<and> (small_len b \<longrightarrow> (\<forall>n t. length b < n \<longrightarrow> reads_doc (readDocWith n t) b (norm_fields t fs)))))"

definition slice_ok :: "nat \<Rightarrow> bson list \<Rightarrow> byte list \<Rightarrow> bool" where
  "slice_ok i vs out \<longleftrightarrow> (\<forall>res. addSlice i vs out = Inr res \<longrightarrow> clean_slice vs \<longrightarrow>
     (\<exists>b. res = out @ b \<and> (small_len b \<longrightarrow> (\<forall>n t. length b < n \<longrightarrow> reads_doc (readSliceDoc n t) b (norm_slice t vs)))))"

definition doc_elems :: "docType \<Rightarrow> bson \<Rightarrow> (string \<times> bson) list" where
  "doc_elems t v = (case v of Map kvs \<Rightarrow> norm_pairs t kvs | D kvs \<Rightarrow> norm_pairs t kvs | Struct fs \<Rightarrow> norm_fields t fs | _ \<Rightarrow> [])"

lemma norm_document: "is_document v \<Longrightarrow> norm t ms v = make_doc t (doc_elems t v)"
  by (cases v) (simp_all add: is_document_def norm.simps doc_elems_def)

definition doc_ok :: "bson \<Rightarrow> byte list \<Rightarrow> bool" where
  "doc_ok v out \<longleftrightarrow> (is_document v \<or> (\<exists>vs. v = Slice vs) \<longrightarrow> (\<forall>res. addDoc v out = Inr res \<longrightarrow> clean v \<longrightarrow>
     (\<exists>b. res = out @ doc_bytes b \<and> (small_len b \<longrightarrow> (\<forall>n t. length b < n \<longrightarrow>
        (if is_document v then reads_doc (readDocWith n t) b (doc_elems t v)
         else \<exists>vs. v = Slice vs \<and> reads_doc (readSliceDoc n t) b (norm_slice t vs)))))))"

lemma set_le32: "setInt32 (length out) w (out @ [a, b, c, d] @ x) = out @ le32 w @ x"
  by (simp add: setInt32_def le32_def list_update_append nth_append)

lemma close_doc_eq: "close_doc (length out) (Inr (reserveInt32 out @ b)) = Inr (out @ doc_bytes b)"
proof -
  have "length ((reserveInt32 out @ b)) + 1 - length out = length b + 5" by (simp add: reserveInt32_def)
  then show ?thesis
    using set_le32[of out "of_nat (length b + 5)" 0 0 0 0 "b @ [0]"]
    by (simp add: close_doc_def doc_bytes_def reserveInt32_def add.commute[of 5])
qed

lemma pair_ok_Cons:
  assumes "elem_ok k False v out" "\<And>x. addElem k False v out = Inr x \<Longrightarrow> pairs_ok kvs x"
  shows "pairs_ok ((k, v) # kvs) out"
  unfolding pairs_ok_def
proof (intro allI impI)
  fix res assume "addPairs ((k, v) # kvs) out = Inr res" and c: "clean_pairs ((k, v) # kvs)"
  then obtain x where x: "addElem k False v out = Inr x" "addPairs kvs x = Inr res" by auto
  obtain kind body where b: "kind \<noteq> 0" "x = out @ [kind] @ bytes_of k @ [0] @ body"
    "length body < 2 ^ 31 \<longrightarrow> (\<forall>n t. length body < n \<longrightarrow> reads (readElemTo n t kind) body (norm t False v))"
    using assms(1) x(1) c unfolding elem_ok_def by auto
  obtain b' where b': "res = x @ b'"
    "small_len b' \<longrightarrow> (\<forall>n t. length b' < n \<longrightarrow> reads_doc (readDocWith n t) b' (norm_pairs t kvs))"
    using assms(2)[OF x(1)] x(2) c unfolding pairs_ok_def by auto
  let ?b = "kind # bytes_of k @ [0] @ body @ b'"
  have "reads_doc (readDocWith n t) ?b (norm_pairs t ((k, v) # kvs))" if "small_len ?b" "length ?b < n" for n t
    using that b b' c by (cases n) (auto simp: small_len_def simp del: append.simps intro!: reads_doc_Cons)
  then show "\<exists>b. res = out @ b \<and> (small_len b \<longrightarrow>
      (\<forall>n t. length b < n \<longrightarrow> reads_doc (readDocWith n t) b (norm_pairs t ((k, v) # kvs))))"
    using b(2) b'(1) by (intro exI[of _ ?b]) simp
qed

lemma field_ok_Cons:
  assumes "\<not> (OmitEmpty f \<and> isZero v) \<Longrightarrow> elem_ok (Key f) (MinSize f) v out"
    and "\<And>x. \<not> (OmitEmpty f \<and> isZero v) \<Longrightarrow> addElem (Key f) (MinSize f) v out = Inr x \<Longrightarrow> fields_ok fs x"
    and "OmitEmpty f \<and> isZero v \<Longrightarrow> fields_ok fs out"
  shows "fields_ok ((f, v) # fs) out"
proof (cases "OmitEmpty f \<and> isZero v")
  case True
  then show ?thesis using assms(3) by (simp add: fields_ok_def)
next
  case omit: False
  show ?thesis
    unfolding fields_ok_def
  proof (intro allI impI)
    fix res assume "addStruct ((f, v) # fs) out = Inr res" and c: "clean_fields ((f, v) # fs)"
    then obtain x where x: "addElem (Key f) (MinSize f) v out = Inr x" "addStruct fs x = Inr res" using omit by auto
    obtain kind body where b: "kind \<noteq> 0" "x = out @ [kind] @ bytes_of (Key f) @ [0] @ body"
      "length body < 2 ^ 31 \<longrightarrow> (\<forall>n t. length body < n \<longrightarrow> reads (readElemTo n t kind) body (norm t (MinSize f) v))"
      using assms(1)[OF omit] x(1) c unfolding elem_ok_def by auto
    obtain b' where b': "res = x @ b'"
      "small_len b' \<longrightarrow> (\<forall>n t. length b' < n \<longrightarrow> reads_doc (readDocWith n t) b' (norm_fields t fs))"
      using assms(2)[OF omit x(1)] x(2) c unfolding fields_ok_def by auto
    let ?b = "kind # bytes_of (Key f) @ [0] @ body @ b'"
    have "reads_doc (readDocWith n t) ?b (norm_fields t ((f, v) # fs))" if "small_len ?b" "length ?b < n" for n t
      using that b b' c omit by (cases n) (auto simp: small_len_def simp del: append.simps intro!: reads_doc_Cons)
    then show "\<exists>b. res = out @ b \<and> (small_len b \<longrightarrow>
        (\<forall>n t. length b < n \<longrightarrow> reads_doc (readDocWith n t) b (norm_fields t ((f, v) # fs))))"
      using b(2) b'(1) by (intro exI[of _ ?b]) simp
  qed
qed

lemma slice_ok_Cons:
  assumes "elem_ok (Itoa (int i)) False v out" "\<And>x. addElem (Itoa (int i)) False v out = Inr x \<Longrightarrow> slice_ok (i + 1) vs x"
  shows "slice_ok i (v # vs) out"
  unfolding slice_ok_def
proof (intro allI impI)
  let ?k = "Itoa (int i)"
  fix res assume "addSlice i (v # vs) out = Inr res" and c: "clean_slice (v # vs)"
  then obtain x where x: "addElem ?k False v out = Inr x" "addSlice (i + 1) vs x = Inr res" by auto
  obtain kind body where b: "kind \<noteq> 0" "x = out @ [kind] @ bytes_of ?k @ [0] @ body"
    "length body < 2 ^ 31 \<longrightarrow> (\<forall>n t. length body < n \<longrightarrow> reads (readElemTo n t kind) body (norm t False v))"
    using assms(1) x(1) c unfolding elem_ok_def by auto
  obtain b' where b': "res = x @ b'"
    "small_len b' \<longrightarrow> (\<forall>n t. length b' < n \<longrightarrow> reads_doc (readSliceDoc n t) b' (norm_slice t vs))"
    using assms(2)[OF x(1)] x(2) c unfolding slice_ok_def by auto
  let ?b = "kind # bytes_of ?k @ [0] @ body @ b'"
  have "reads_doc (readSliceDoc n t) ?b (norm_slice t (v # vs))" if "small_len ?b" "length ?b < n" for n t
    using that b b' c no_nul_Itoa[of i]
    by (cases n) (auto simp: small_len_def simp del: append.simps intro!: reads_slice_Cons)
  then show "\<exists>b. res = out @ b \<and> (small_len b \<longrightarrow>
      (\<forall>n t. length b < n \<longrightarrow> reads_doc (readSliceDoc n t) b (norm_slice t (v # vs))))"
    using b(2) b'(1) by (intro exI[of _ ?b]) simp
qed

lemma nil_ok: "pairs_ok [] out" "fields_ok [] out" "slice_ok i [] out"
proof -
  have n: "0 < n \<Longrightarrow> \<exists>m. n = Suc m" for n :: nat by (rule gr0_implies_Suc)
  show "pairs_ok [] out" "fields_ok [] out" "slice_ok i [] out"
    by (auto simp: pairs_ok_def fields_ok_def slice_ok_def dest!: n intro!: reads_doc_Nil)
qed


lemma doc_ok_Map:
  assumes "addDoc v out = close_doc (length out) (addPairs kvs (reserveInt32 out))" "pairs_ok kvs (reserveInt32 out)"
    and "is_document v" "clean v \<Longrightarrow> clean_pairs kvs" "\<And>t. doc_elems t v = norm_pairs t kvs"
  shows "doc_ok v out"
  unfolding doc_ok_def
proof (intro allI impI)
  fix res assume "addDoc v out = Inr res" and c: "clean v"
  then obtain x where x: "addPairs kvs (reserveInt32 out) = Inr x" "close_doc (length out) (Inr x) = Inr res"
    using assms(1) by (auto simp: close_doc_def)
  obtain b where b: "x = reserveInt32 out @ b"
    "small_len b \<longrightarrow> (\<forall>n t. length b < n \<longrightarrow> reads_doc (readDocWith n t) b (norm_pairs t kvs))"
    using assms(2) x(1) assms(4)[OF c] unfolding pairs_ok_def by blast
  have "res = out @ doc_bytes b" using x(2) b(1) close_doc_eq by simp
  then show "\<exists>b. res = out @ doc_bytes b \<and> (small_len b \<longrightarrow> (\<forall>n t. length b < n \<longrightarrow>
        (if is_document v then reads_doc (readDocWith n t) b (doc_elems t v)
         else \<exists>vs. v = Slice vs \<and> reads_doc (readSliceDoc n t) b (norm_slice t vs))))"
    using b(2) assms(3,5) by auto
qed

lemma doc_ok_Struct:
  assumes "fields_ok fs (reserveInt32 out)"
  shows "doc_ok (Struct fs) out"
  unfolding doc_ok_def
proof (intro allI impI)
  fix res assume "addDoc (Struct fs) out = Inr res" and c: "clean (Struct fs)"
  then obtain x where x: "addStruct fs (reserveInt32 out) = Inr x" "close_doc (length out) (Inr x) = Inr res"
    by (auto simp: close_doc_def addDoc.simps)
  obtain b where b: "x = reserveInt32 out @ b"
    "small_len b \<longrightarrow> (\<forall>n t. length b < n \<longrightarrow> reads_doc (readDocWith n t) b (norm_fields t fs))"
    using assms x(1) c unfolding fields_ok_def clean.simps[of "Struct fs"] by auto
  have "res = out @ doc_bytes b" using x(2) b(1) close_doc_eq by simp
  then show "\<exists>b. res = out @ doc_bytes b \<and> (small_len b \<longrightarrow> (\<forall>n t. length b < n \<longrightarrow>
        (if is_document (Struct fs) then reads_doc (readDocWith n t) b (doc_elems t (Struct fs))
         else \<exists>vs. Struct fs = Slice vs \<and> reads_doc (readSliceDoc n t) b (norm_slice t vs))))"
    using b(2) by (auto simp: is_document_def doc_elems_def)
qed

lemma doc_ok_Slice:
  assumes "slice_ok 0 vs (reserveInt32 out)"
  shows "doc_ok (Slice vs) out"
  unfolding doc_ok_def
proof (intro allI impI)
  fix res assume "addDoc (Slice vs) out = Inr res" and c: "clean (Slice vs)"
  then obtain x where x: "addSlice 0 vs (reserveInt32 out) = Inr x" "close_doc (length out) (Inr x) = Inr res"
    by (auto simp: close_doc_def addDoc.simps)
  obtain b where b: "x = reserveInt32 out @ b"
    "small_len b \<longrightarrow> (\<forall>n t. length b < n \<longrightarrow> reads_doc (readSliceDoc n t) b (norm_slice t vs))"
    using assms x(1) c unfolding slice_ok_def clean.simps[of "Slice vs"] by auto
  have "res = out @ doc_bytes b" using x(2) b(1) close_doc_eq by simp
  then show "\<exists>b. res = out @ doc_bytes b \<and> (small_len b \<longrightarrow> (\<forall>n t. length b < n \<longrightarrow>
        (if is_document (Slice vs) then reads_doc (readDocWith n t) b (doc_elems t (Slice vs))
         else \<exists>ws. Slice vs = Slice ws \<and> reads_doc (readSliceDoc n t) b (norm_slice t ws))))"
    using b(2) by (auto simp: is_document_def)
qed

lemma doc_ok_cases:
  assumes "\<And>kvs. v = Map kvs \<or> v = D kvs \<Longrightarrow> pairs_ok kvs (reserveInt32 out)"
    "\<And>vs. v = Slice vs \<Longrightarrow> slice_ok 0 vs (reserveInt32 out)"
    "\<And>fs. v = Struct fs \<Longrightarrow> fields_ok fs (reserveInt32 out)"
  shows "doc_ok v out"
proof -
  have m: "doc_ok v out" if "v = Map kvs \<or> v = D kvs" for kvs
    by (rule doc_ok_Map[where kvs = kvs])
      (use that assms(1) in \<open>auto simp: addDoc.simps is_document_def clean.simps doc_elems_def\<close>)
  show ?thesis
  proof (cases "is_document v \<or> (\<exists>vs. v = Slice vs)")
    case True
    then show ?thesis by (cases v) (use m doc_ok_Slice doc_ok_Struct assms in \<open>auto simp: is_document_def\<close>)
  next
    case False
    then show ?thesis by (cases v) (auto simp: doc_ok_def is_document_def addDoc.simps clean.simps)
  qed
qed

lemma readDocTo_reads:
  assumes "small_len b" "reads_doc (readDocWith n t) b kvs"
  shows "reads (readDocTo n t) (doc_bytes b) (make_doc t kvs)"
  using reads_closed[OF assms(2), of "make_doc t"] assms(1) by (simp add: readDocTo_def[abs_def] small_len_def)

lemma elem_ok_document:
  assumes "addElem name ms v out = addDoc v (addElemName 3 name out)" "is_document v" "doc_ok v (addElemName 3 name out)"
  shows "elem_ok name ms v out"
proof (rule elem_okI)
  fix res assume "addElem name ms v out = Inr res" "clean v"
  then obtain b where b: "res = addElemName 3 name out @ doc_bytes b"
    "small_len b \<longrightarrow> (\<forall>n t. length b < n \<longrightarrow> reads_doc (readDocWith n t) b (doc_elems t v))"
    using assms unfolding doc_ok_def by auto
  have "reads (readElemTo n t 3) (doc_bytes b) (norm t ms v)" if "length (doc_bytes b) < 2 ^ 31" "length (doc_bytes b) < n" for n t
  proof (cases n)
    case (Suc m)
    have "reads (readDocTo m t) (doc_bytes b) (norm t ms v)"
      unfolding norm_document[OF assms(2)] by (rule readDocTo_reads) (use that Suc b(2) in \<open>auto simp: small_len_def\<close>)
    moreover have "readElemTo n t 3 = readDocTo m t" using Suc by (simp add: readElemTo.simps readDocTo_def fun_eq_iff)
    ultimately show ?thesis by simp
  qed (use that in simp)
  then show "\<exists>body. res = addElemName 3 name out @ body \<and>
      (length body < 2 ^ 31 \<longrightarrow> (\<forall>n t. length body < n \<longrightarrow> reads (readElemTo n t 3) body (norm t ms v)))"
    using b(1) by blast
qed simp

lemma elem_ok_Slice:
  assumes "doc_ok (Slice vs) (addElemName 4 name out)"
  shows "elem_ok name ms (Slice vs) out"
proof (rule elem_okI)
  fix res assume "addElem name ms (Slice vs) out = Inr res" "clean (Slice vs)"
  then obtain b where b: "res = addElemName 4 name out @ doc_bytes b"
    "small_len b \<longrightarrow> (\<forall>n t. length b < n \<longrightarrow> reads_doc (readSliceDoc n t) b (norm_slice t vs))"
    using assms unfolding doc_ok_def addElem.simps by (auto simp: is_document_def)
  have "reads (readElemTo n t 4) (doc_bytes b) (norm t ms (Slice vs))"
    if "length (doc_bytes b) < 2 ^ 31" "length (doc_bytes b) < n" for n t
  proof (cases n)
    case (Suc m)
    have "reads_doc (readSliceDoc m t) b (norm_slice t vs)" using b(2) that Suc by (auto simp: small_len_def)
    from reads_closed[OF this, of Slice] show ?thesis
      using that Suc by (simp add: readElemTo.simps[abs_def] norm.simps)
  qed (use that in simp)
  then show "\<exists>body. res = addElemName 4 name out @ body \<and>
      (length body < 2 ^ 31 \<longrightarrow> (\<forall>n t. length body < n \<longrightarrow> reads (readElemTo n t 4) body (norm t ms (Slice vs))))"
    using b(1) by blast
qed simp

lemma elem_ok_scope:
  assumes doc: "doc_ok sc (addStr code (reserveInt32 (addElemName 15 name out)))"
  shows "elem_ok name ms (JavaScript code (Some sc)) out"
proof (rule elem_okI)
  let ?o = "addElemName 15 name out" and ?str = "le32 (of_nat (length code + 1)) @ bytes_of code @ [0]"
  fix res assume "addElem name ms (JavaScript code (Some sc)) out = Inr res" and c: "clean (JavaScript code (Some sc))"
  then obtain x where x: "addDoc sc (addStr code (reserveInt32 ?o)) = Inr x"
      "res = setInt32 (length ?o) (of_nat (length x - length ?o)) x"
    by (auto simp: addElem.simps Let_def)
  have sc: "is_document sc" "clean sc" using c by (simp_all add: clean.simps[of "JavaScript code (Some sc)"])
  obtain b where b: "x = addStr code (reserveInt32 ?o) @ doc_bytes b"
    "small_len b \<longrightarrow> (\<forall>n t. length b < n \<longrightarrow> reads_doc (readDocWith n t) b (doc_elems t sc))"
    using doc x(1) sc unfolding doc_ok_def by auto
  define w :: "32 word" where "w = of_nat (length x - length ?o)"
  have "x = ?o @ [0, 0, 0, 0] @ (?str @ doc_bytes b)" using b(1) by (simp add: addStr_body reserveInt32_def)
  then have res: "res = ?o @ le32 w @ ?str @ doc_bytes b" using x(2) set_le32[of ?o w] by (simp add: w_def)
  let ?body = "le32 w @ ?str @ doc_bytes b"
  have "reads (readElemTo n t 15) ?body (norm t ms (JavaScript code (Some sc)))"
    if len: "length ?body < 2 ^ 31" "length ?body < n" for n t
    unfolding reads_def
  proof (intro allI impI)
    fix inp i rest assume a: "at inp i (?body @ rest)"
    obtain m where n: "n = Suc m" using len by (cases n) auto
    let ?f = "\<lambda>kvs. JavaScript code (Some (make_doc TypeM kvs))"
    have "reads_doc (readDocWith m TypeM) b (doc_elems TypeM sc)" using b(2) len n by (simp add: small_len_def)
    from reads_closed[OF this, of ?f]
    have d: "reads (\<lambda>inp i. bindE (open_doc inp i) (\<lambda>(e, i). end_doc e (readDocWith m TypeM e inp i) ?f)) (doc_bytes b)
        (?f (doc_elems TypeM sc))" using len by simp
    have a0: "at inp i (le32 w @ (?str @ (doc_bytes b @ rest)))" using a by simp
    have a1: "at inp (i + 4) (?str @ (doc_bytes b @ rest))" using at_append(2)[OF a0] by simp
    note a2 = at_append(2)[OF a1]
    have "length code + 1 < 2 ^ 31" using len by simp
    then show "readElemTo n t 15 inp i = Inr (norm t ms (JavaScript code (Some sc)), i + int (length ?body))"
      using readsD[OF reads_Str a1] readsD[OF d a2] n
      by (simp add: readElemTo.simps norm.simps[of _ _ "JavaScript _ _"] norm_document[OF sc(1)]) (simp add: ac_simps)
  qed
  then show "\<exists>body. res = ?o @ body \<and> (length body < 2 ^ 31 \<longrightarrow>
      (\<forall>n t. length body < n \<longrightarrow> reads (readElemTo n t 15) body (norm t ms (JavaScript code (Some sc)))))"
    using res by blast
qed simp


lemma encoder_ok:
  "elem_ok name ms v out" "doc_ok v' out'" "pairs_ok kvs out2" "slice_ok i vs out3" "fields_ok fs out4"
proof (induction name ms v out and v' out' and kvs out2 and i vs out3 and fs out4
    rule: addElem_addDoc_addPairs_addSlice_addStruct.induct)
  case (1 name ms v out)
  have doc: "elem_ok name ms v out" if "is_document v"
    by (rule elem_ok_document) (use 1 that in \<open>auto simp: is_document_def addElem.simps split: bson.splits\<close>)
  show ?case
  proof (cases v)
    case (JavaScript s sc)
    then show ?thesis using 1 by (cases sc) (auto intro: scalar_elem_ok elem_ok_scope)
  next
    case (Raw k d)
    then show ?thesis by (simp add: elem_ok_def clean.simps)
  qed (use 1 doc in \<open>auto intro: scalar_elem_ok elem_ok_uints elem_ok_Int64 elem_ok_Slice simp: is_document_def\<close>)
next
  case (2 v out)
  then show ?case by (intro doc_ok_cases) auto
next
  case (4 k v kvs out)
  then show ?case by (intro pair_ok_Cons)
next
  case (6 i v vs out)
  then show ?case by (intro slice_ok_Cons)
next
  case (8 f v fs out)
  then show ?case by (intro field_ok_Cons)
qed (simp_all add: nil_ok)


lemma Unmarshal_Marshal_ok:
  assumes "clean v" "is_document v" "Marshal v = Inr b" "length b < 2 ^ 31"
  shows "Unmarshal t (b @ rest) = Inr (norm t False v)"
proof -
  obtain d where d: "b = doc_bytes d"
    "small_len d \<longrightarrow> (\<forall>n t. length d < n \<longrightarrow> reads_doc (readDocWith n t) d (doc_elems t v))"
    using encoder_ok(2)[of v "[]"] assms unfolding doc_ok_def Marshal_def by auto
  let ?n = "length (b @ rest) + 1"
  have "small_len d" using assms(4) d(1) by (simp add: small_len_def)
  moreover have "length d < ?n" using d(1) by simp
  ultimately have "reads (readDocTo ?n t) b (make_doc t (doc_elems t v))"
    using d readDocTo_reads by blast
  then have "readDocTo ?n t (b @ rest) 0 = Inr (norm t False v, int (length b))"
    using readsD[of _ b _ "b @ rest" 0 rest] norm_document[OF assms(2)] by simp
  then show ?thesis by (simp add: Unmarshal_def)
qed

end
