(* ===== verification/Bson_Total.thy ===== *)
theory Bson_Total
  imports Bson_Round
begin

text \<open>
  The decoder returns on every input, with a value, an error or a panic, and stays within it: each
  reader moves forward, and what it does not consume bounds the elements and documents to come.
\<close>

section \<open>Readers move forward\<close>

text \<open>A result that is not divergence and whose position is between \<open>lo\<close> and the end of the input.\<close>

definition forward :: "int \<Rightarrow> byte list \<Rightarrow> ('a \<times> int) go \<Rightarrow> bool" where
  "forward lo inp r \<longleftrightarrow> (case r of Inl d \<Rightarrow> d \<noteq> Diverge | Inr (x, i) \<Rightarrow> lo \<le> i \<and> i \<le> int (length inp))"

lemma forward_simps [simp]:
  "forward lo inp (Inr (x, i)) \<longleftrightarrow> lo \<le> i \<and> i \<le> int (length inp)"
  "forward lo inp (Inl d) \<longleftrightarrow> d \<noteq> Diverge"
  "forward lo inp corrupted"
  by (simp_all add: forward_def corrupted_def)

lemma forward_bind:
  assumes "forward lo inp m" "\<And>x j. m = Inr (x, j) \<Longrightarrow> lo \<le> j \<Longrightarrow> j \<le> int (length inp) \<Longrightarrow> forward lo' inp (f x j)"
  shows "forward lo' inp (bindE m (\<lambda>(x, j). f x j))"
  using assms by (cases m) (auto simp: forward_def)

lemma forward_mono: "forward lo inp r \<Longrightarrow> lo' \<le> lo \<Longrightarrow> forward lo' inp r"
  by (auto simp: forward_def split: sum.splits)

lemma forward_idx: "(\<And>c. idx inp i = Inr c \<Longrightarrow> forward lo inp (f c)) \<Longrightarrow> forward lo inp (bindE (idx inp i) f)"
  by (cases "idx inp i") (auto simp: idx_def split: if_splits)

lemma forward_slice:
  "(\<And>b. lo \<le> hi \<Longrightarrow> forward l inp (f b)) \<Longrightarrow> forward l inp (bindE (slice xs lo hi) f)"
  by (auto simp: slice_def)

lemma forward_as_value: "forward lo inp r \<Longrightarrow> forward lo inp (as_value f r)"
  unfolding as_value_def by (rule forward_bind) auto

lemma forward_before: "forward lo inp r \<Longrightarrow> forward lo inp (before e r)"
  unfolding before_def by (rule forward_bind) auto

lemma forward_Byte: "forward (i + 1) inp (readByte inp i)"
  unfolding readByte_def by (auto intro: forward_idx)

lemma forward_Bytes: "forward (max i (i + l)) inp (readBytes l inp i)"
  unfolding readBytes_def by (auto intro!: forward_slice)

lemma forward_Int32: "forward (i + 4) inp (readInt32 inp i)"
  unfolding readInt32_def by (rule forward_bind[OF forward_Bytes[where i = i and l = 4]]) auto

lemma forward_Int64: "forward (i + 8) inp (readInt64 inp i)"
  unfolding readInt64_def by (rule forward_bind[OF forward_Bytes[where i = i and l = 8]]) auto

lemma find_zero_ge: "i \<le> find_zero inp e i"
  by (simp add: find_zero_def)

lemma forward_CStr: "forward (i + 1) inp (readCStr inp i)"
  unfolding readCStr_def Let_def using find_zero_ge[of i inp "int (length inp)"]
  by (auto intro!: forward_slice)

lemma forward_Str: "forward (i + 5) inp (readStr inp i)"
  unfolding readStr_def
  by (rule forward_bind[OF forward_Int32], rule forward_bind[OF forward_Bytes], rule forward_bind[OF forward_Byte]) auto

lemma forward_Binary: "forward (i + 5) inp (readBinary inp i)"
  unfolding readBinary_def
  by (rule forward_bind[OF forward_Int32], rule forward_bind[OF forward_Byte], rule forward_bind[OF forward_Bytes])
    (auto intro!: forward_slice)

lemma forward_RegEx: "forward i inp (readRegEx inp i)"
  unfolding readRegEx_def by (rule forward_bind[OF forward_CStr], rule forward_bind[OF forward_CStr]) auto

lemma forward_Bool: "forward (i + 1) inp (readBool inp i)"
  unfolding readBool_def by (rule forward_bind[OF forward_Byte]) auto

lemma forward_scalar:
  assumes "i \<le> int (length inp)"
  shows "forward i inp (read_scalar kind inp i)"
proof -
  have "forward i inp (readInt64 inp i)" "forward i inp (readStr inp i)" "forward i inp (readBinary inp i)"
    "forward i inp (readBytes 12 inp i)" "forward i inp (readBool inp i)" "forward i inp (readRegEx inp i)"
    "forward i inp (readInt32 inp i)"
    using forward_mono[OF forward_Int64, of i] forward_mono[OF forward_Str, of i] forward_mono[OF forward_Binary, of i]
      forward_mono[OF forward_Bytes, of i] forward_mono[OF forward_Bool, of i] forward_RegEx
      forward_mono[OF forward_Int32, of i] by auto
  then show ?thesis using assms by (simp add: read_scalar_def forward_as_value)
qed

text \<open>The start of a document also gives an end within the input.\<close>

lemma forward_open: "forward (i + 4) inp (open_doc inp i)"
  unfolding open_doc_def by (rule forward_bind[OF forward_Int32]) (auto simp: Let_def intro!: forward_idx)

lemma open_doc_end: "open_doc inp i = Inr (e, j) \<Longrightarrow> e \<le> int (length inp)"
  by (auto simp: open_doc_def Let_def corrupted_def split: if_splits)

lemma forward_end:
  assumes "forward lo inp r" "e \<le> int (length inp)"
  shows "forward (lo + 1) inp (end_doc e r f)"
  unfolding end_doc_def by (rule forward_bind[OF assms(1)]) (use assms(2) in auto)

lemma forward_skip:
  assumes "e \<le> int (length inp)"
  shows "forward (i + 1) inp (skip_name e inp i)"
  using assms find_zero_ge[of i inp e] by (auto simp: skip_name_def Let_def)

section \<open>The decoder returns\<close>

lemma decoder_forward:
  "i \<le> int (length inp) \<Longrightarrow> int (length inp) - i < int n \<Longrightarrow> forward i inp (readElemTo n t kind inp i)"
  "i \<le> int (length inp) \<Longrightarrow> int (length inp) - i < int n \<Longrightarrow> e \<le> int (length inp) \<Longrightarrow> forward i inp (readDocWith n t e inp i)"
  "i \<le> int (length inp) \<Longrightarrow> int (length inp) - i < int n \<Longrightarrow> e \<le> int (length inp) \<Longrightarrow> forward i inp (readSliceDoc n t e inp i)"
proof (induction n arbitrary: i t kind e)
  case 0
  { case 1 then show ?case by simp
  next case 2 then show ?case by simp
  next case 3 then show ?case by simp }
next
  case (Suc n)
  { case 1
    have d: "forward i inp (bindE (open_doc inp i) (\<lambda>(e, k). end_doc e (readDocWith n t e inp k) (make_doc t)))"
      by (rule forward_bind[OF forward_open], rule forward_mono[OF forward_end[OF Suc.IH(2)]])
        (use 1 open_doc_end in auto)
    have s: "forward i inp (bindE (open_doc inp i) (\<lambda>(e, k). end_doc e (readSliceDoc n t e inp k) Slice))"
      by (rule forward_bind[OF forward_open], rule forward_mono[OF forward_end[OF Suc.IH(3)]])
        (use 1 open_doc_end in auto)
    have j: "forward i inp (bindE (readStr inp (i + 4)) (\<lambda>(code, i). bindE (open_doc inp i)
        (\<lambda>(e, i). end_doc e (readDocWith n TypeM e inp i) (\<lambda>kvs. JavaScript code (Some (make_doc TypeM kvs))))))"
      by (rule forward_bind[OF forward_Str], rule forward_bind[OF forward_open], rule forward_mono[OF forward_end[OF Suc.IH(2)]])
        (use 1 open_doc_end in auto)
    show ?case using d s j forward_scalar[OF 1(1)] by (simp add: readElemTo.simps)
  next
    case 2
    show ?case
      unfolding readDocWith.simps
    proof (rule forward_idx)
      fix c assume "idx inp i = Inr c"
      have "forward i inp (bindE (readByte inp i) (\<lambda>(kind, i).
         bindE (before e (readCStr inp i)) (\<lambda>(name, i).
         bindE (before e (readElemTo n t kind inp i)) (\<lambda>(v, i).
         bindE (readDocWith n t e inp i) (\<lambda>(kvs, i). Inr ((name, v) # kvs, i))))))"
        by (rule forward_bind[OF forward_Byte], rule forward_bind[OF forward_before[OF forward_CStr]],
            rule forward_bind[OF forward_before[OF Suc.IH(1)]], simp, use 2 in simp,
            rule forward_bind[OF Suc.IH(2)]) (use 2 in auto)
      then show "forward i inp (if c = 0 then Inr ([], i) else bindE (readByte inp i) (\<lambda>(kind, i).
         bindE (before e (readCStr inp i)) (\<lambda>(name, i).
         bindE (before e (readElemTo n t kind inp i)) (\<lambda>(v, i).
         bindE (readDocWith n t e inp i) (\<lambda>(kvs, i). Inr ((name, v) # kvs, i))))))" using 2(1) by simp
    qed
  next
    case 3
    show ?case
      unfolding readSliceDoc.simps
    proof (rule forward_idx)
      fix c assume "idx inp i = Inr c"
      have "forward i inp (bindE (readByte inp i) (\<lambda>(kind, i).
         bindE (skip_name e inp i) (\<lambda>(_, i).
         bindE (before e (readElemTo n t kind inp i)) (\<lambda>(v, i).
         bindE (readSliceDoc n t e inp i) (\<lambda>(vs, i). Inr (v # vs, i))))))"
        by (rule forward_bind[OF forward_Byte], rule forward_bind[OF forward_skip[OF 3(3)]],
            rule forward_bind[OF forward_before[OF Suc.IH(1)]], simp, use 3 in simp,
            rule forward_bind[OF Suc.IH(3)]) (use 3 in auto)
      then show "forward i inp (if c = 0 then Inr ([], i) else bindE (readByte inp i) (\<lambda>(kind, i).
         bindE (skip_name e inp i) (\<lambda>(_, i).
         bindE (before e (readElemTo n t kind inp i)) (\<lambda>(v, i).
         bindE (readSliceDoc n t e inp i) (\<lambda>(vs, i). Inr (v # vs, i))))))" using 3(1) by simp
    qed }
qed

lemma readDocTo_forward: "forward 5 inp (readDocTo (length inp + 1) t inp 0)"
  unfolding readDocTo_def
  by (rule forward_bind[OF forward_open], rule forward_mono[OF forward_end[OF decoder_forward(2)]])
    (use open_doc_end in auto)

section \<open>Properties\<close>

text \<open>C30: Decoding always returns: on every input the decoder ends with a value, an error or a panic, and
  its recursion is never deeper than the input is long.\<close>

theorem Unmarshal_returns: "Unmarshal t inp \<noteq> Inl Diverge"
  using readDocTo_forward[of inp t] unfolding Unmarshal_def by (cases "readDocTo (length inp + 1) t inp 0") auto

text \<open>C8: Encoding a document (a map, an ordered document or a struct whose names and expressions have no zero
  byte) and decoding the bytes gives back the document in the generic types, whatever follows it in the
  input. What is lost is in \<open>norm\<close>: fields left out by \<open>omitempty\<close>, the widths of integers, a time below
  the millisecond, and the upper half of a Go \<open>int\<close>.\<close>

theorem Unmarshal_Marshal:
  assumes "clean v" "is_document v" "Marshal v = Inr b" "length b < 2 ^ 31"
  shows "Unmarshal t (b @ rest) = Inr (norm t False v)"
  by (rule Unmarshal_Marshal_ok[OF assms])

definition sample_doc :: bson where
  "sample_doc = D [(''_id'', ObjectId ''abcdefghijkl''), (''n'', Slice [GoInt 7, Bool True]),
     (''s'', Struct [(\<lparr>Key = ''k'', OmitEmpty = True, MinSize = False\<rparr>, String [])])]"

lemma sample_doc_bytes:
  "Marshal sample_doc = Inr [49, 0, 0, 0, 7, 95, 105, 100, 0, 97, 98, 99, 100, 101, 102, 103, 104, 105, 106, 107, 108,
     4, 110, 0, 16, 0, 0, 0, 16, 48, 0, 7, 0, 0, 0, 8, 49, 0, 1, 0, 3, 115, 0, 5, 0, 0, 0, 0, 0]"
  by code_simp

lemma Unmarshal_Marshal_witness:
  "\<exists>b. Marshal sample_doc = Inr b \<and> Unmarshal TypeD b =
     Inr (D [(''_id'', ObjectId ''abcdefghijkl''), (''n'', Slice [GoInt 7, Bool True]), (''s'', D [])])"
proof -
  have "clean sample_doc" "is_document sample_doc" by code_simp+
  from Unmarshal_Marshal[OF this sample_doc_bytes, of TypeD "[]"]
  have "\<exists>b. Marshal sample_doc = Inr b \<and> Unmarshal TypeD b = Inr (norm TypeD False sample_doc)"
    using sample_doc_bytes by simp
  moreover have "norm TypeD False sample_doc =
      D [(''_id'', ObjectId ''abcdefghijkl''), (''n'', Slice [GoInt 7, Bool True]), (''s'', D [])]" by code_simp
  ultimately show ?thesis by simp
qed

text \<open>A document with one string, whose length field is \<open>w\<close>.\<close>

definition string_doc :: "string \<Rightarrow> 32 word \<Rightarrow> byte list \<Rightarrow> byte list" where
  "string_doc k w body = doc_bytes (2 # bytes_of k @ [0] @ le32 w @ body)"

lemma sint_minus_1: "w \<noteq> 0x80000000 \<Longrightarrow> sint (w - 1) = sint (w :: 32 word) - 1"
proof -
  assume w: "w \<noteq> 0x80000000"
  have "sint w \<noteq> - (2 ^ 31)"
  proof
    assume "sint w = - (2 ^ 31)"
    then have "word_of_int (sint w) = (word_of_int (- (2 ^ 31)) :: 32 word)" by simp
    then show False using w by simp
  qed
  moreover have "- (2 ^ 31) \<le> sint w" "sint w < 2 ^ 31" using sint_range_size[of w] by (simp_all add: word_size)
  ultimately have "signed_take_bit 31 (sint w - 1) = sint w - 1" by (intro signed_take_bit_int_eq_self) simp_all
  then show ?thesis by (simp add: sint_word_ariths)
qed

text \<open>A string whose length field is zero or negative makes the decoder panic with a slice bound, which
  \<open>Unmarshal\<close> does not recover, where every other malformed length is a returned error.\<close>

theorem Unmarshal_string_length_panics:
  assumes "no_nul k" "sint w \<le> 0" "w \<noteq> 0x80000000" "length k + length body + 11 < 2 ^ 31"
  shows "Unmarshal t (string_doc k w body) = Inl (Panic ''slice bounds out of range'')"
proof -
  let ?b = "2 # bytes_of k @ [0] @ le32 w @ body" and ?inp = "string_doc k w body" and ?j = "6 + int (length k)"
  have len: "length ?b + 5 < 2 ^ 31" using assms(4) by simp
  have a: "at ?inp 0 (doc_bytes ?b @ [])" by (simp add: string_doc_def)
  note o = open_doc_at[OF a len]
  have a1: "at ?inp (0 + 4) (2 # bytes_of k @ [0] @ (le32 w @ (body @ [0])))" using o(2) by simp
  note n = at_name[OF a1 assms(1)]
  have a4: "at ?inp ?j (le32 w @ (body @ [0]))" using n(4) by simp
  have i: "readInt32 ?inp ?j = Inr (w, ?j + 4)" using readsD[OF reads_Int32 a4] by simp
  have in_end: "?j + 4 \<le> int (length ?inp)" using at_append(1)[OF a4] by simp
  have "sint (w - 1) < 0" using sint_minus_1[OF assms(3)] assms(2) by simp
  then have p: "readBytes (sint (w - 1)) ?inp (?j + 4) = Inl (Panic ''slice bounds out of range'')"
    using in_end by (simp add: readBytes_def slice_def)
  obtain m where m: "length ?inp = Suc m" using in_end by (cases "length ?inp") simp_all
  have el: "readElemTo (length ?inp) t 2 ?inp ?j = Inl (Panic ''slice bounds out of range'')"
    unfolding m using i p by (simp add: readElemTo.simps read_scalar_kinds as_value_def readStr_def)
  show ?thesis
    using o(1) n(1-3) el in_end len
    by (simp add: Unmarshal_def readDocTo_def readDocWith.simps end_doc_def before_def algebra_simps)
qed

lemma Unmarshal_string_length_panics_witness:
  "Unmarshal TypeM (string_doc ''k'' 0 [0]) = Inl (Panic ''slice bounds out of range'')"
  by (rule Unmarshal_string_length_panics) (simp_all add: no_nul_def)

end
