(* ===== verification/StructTags.thy ===== *)
theory StructTags
  imports Bson
begin

text \<open>
  The struct fields of package bson (\<open>getStructInfo\<close> in src/src/labix.org/v2/mgo/bson/bson.go):
  which fields of a struct are encoded, under which keys, with which flags, and by which path of
  field numbers they are reached when structs are inlined. The cache of the results by type is
  transparent and left out.
\<close>

section \<open>Types and fields\<close>

text \<open>A field as reflection shows it, with what \<open>Tag.Get("bson")\<close> yields. Letters are ASCII.\<close>

record struct_field =
  Name :: string
  PkgPath :: string
  Tag :: string
  bson_tag :: string

text \<open>A map with its keys strings or not, a struct, or a type that cannot be inlined.\<close>

datatype go_type = MapT bool | StructT "(struct_field \<times> go_type) list" | OtherT

record fullInfo = fieldInfo +
  Num :: nat
  Inline :: "nat list option"

record structInfo =
  FieldsMap :: "string \<rightharpoonup> fullInfo"
  FieldsList :: "fullInfo list"
  InlineMap :: "nat option"

definition empty_info :: structInfo where
  "empty_info = \<lparr>FieldsMap = Map.empty, FieldsList = [], InlineMap = None\<rparr>"

definition ToLower :: "string \<Rightarrow> string" where
  "ToLower s = map (\<lambda>c. if 65 \<le> (of_char c :: nat) \<and> (of_char c :: nat) \<le> 90 then char_of ((of_char c :: nat) + 32) else c) s"

definition field_tag :: "struct_field \<Rightarrow> string" where
  "field_tag f = (if bson_tag f = [] \<and> strings_Index (Tag f) '':'' < 0 then Tag f else bson_tag f)"

text \<open>The flags after the first comma, and whether \<open>inline\<close> is one. Another one panics, past \<open>Marshal\<close>.\<close>

fun parse_flags :: "string list \<Rightarrow> fullInfo \<Rightarrow> bool \<Rightarrow> (fullInfo \<times> bool) go" where
  "parse_flags [] info inl = Inr (info, inl)"
| "parse_flags (flag # flags) info inl =
     (if flag = ''omitempty'' then parse_flags flags (info\<lparr>OmitEmpty := True\<rparr>) inl
      else if flag = ''minsize'' then parse_flags flags (info\<lparr>MinSize := True\<rparr>) inl
      else if flag = ''inline'' then parse_flags flags info True
      else Inl (Panic ''Unsupported flag''))"

definition add_info :: "fullInfo \<Rightarrow> structInfo \<Rightarrow> structInfo go" where
  "add_info info si =
     (if FieldsMap si (Key info) \<noteq> None then Inl (Err ''Duplicated key'')
      else Inr (si\<lparr>FieldsMap := (FieldsMap si)(Key info \<mapsto> info), FieldsList := FieldsList si @ [info]\<rparr>))"

definition inline_path :: "nat \<Rightarrow> fullInfo \<Rightarrow> fullInfo" where
  "inline_path i finfo = finfo\<lparr>Inline := Some (case Inline finfo of None \<Rightarrow> [i, Num finfo] | Some p \<Rightarrow> i # p)\<rparr>"

definition add_inlined :: "nat \<Rightarrow> fullInfo list \<Rightarrow> structInfo \<Rightarrow> structInfo go" where
  "add_inlined i finfos si = foldE (\<lambda>si finfo. add_info (inline_path i finfo) si) si finfos"

function (sequential) getStructInfo :: "go_type \<Rightarrow> structInfo go"
  and struct_loop :: "nat \<Rightarrow> (struct_field \<times> go_type) list \<Rightarrow> structInfo \<Rightarrow> structInfo go" where
  "getStructInfo st =
     (case st of StructT fs \<Rightarrow> struct_loop 0 fs empty_info | _ \<Rightarrow> Inl (Panic ''reflect: NumField of non-struct type''))"
| "struct_loop i [] si = Inr si"
| "struct_loop i ((f, t) # fs) si =
     (let tag = field_tag f in
      if PkgPath f \<noteq> [] \<or> tag = ''-'' then struct_loop (i + 1) fs si
      else if strings_Index tag ''/'' \<ge> 0 then Inl (Panic ''Replace tag'')
      else let fields = strings_Split (CHR '','') tag in
        bindE (parse_flags (tl fields) \<lparr>Key = [], OmitEmpty = False, MinSize = False, Num = i, Inline = None\<rparr> False) (\<lambda>(info, inl).
        if inl then
          (case t of
             MapT string_keys \<Rightarrow>
               if InlineMap si \<noteq> None then Inl (Err ''Multiple ,inline maps in struct'')
               else if \<not> string_keys then Inl (Err ''Option ,inline needs a map with string keys in struct'')
               else struct_loop (i + 1) fs (si\<lparr>InlineMap := Some i\<rparr>)
           | StructT _ \<Rightarrow>
               bindE (getStructInfo t) (\<lambda>sinfo.
               bindE (add_inlined i (FieldsList sinfo) si) (\<lambda>si. struct_loop (i + 1) fs si))
           | OtherT \<Rightarrow> Inl (Panic ''Option ,inline needs a struct value or map field''))
        else
          bindE (add_info (info\<lparr>Key := (if hd fields \<noteq> [] then hd fields else ToLower (Name f))\<rparr>) si)
            (\<lambda>si. struct_loop (i + 1) fs si)))"
  by pat_completeness auto
termination
  by (relation "measure (\<lambda>x. case x of Inl t \<Rightarrow> size t
      | Inr (_, fs, _) \<Rightarrow> size_list (size_prod (\<lambda>_. 0) size) fs)") auto

declare getStructInfo.simps [simp del] struct_loop.simps(2) [simp del]


section \<open>What an entry says of its field\<close>

definition path :: "fullInfo \<Rightarrow> nat list" where
  "path f = (case Inline f of None \<Rightarrow> [Num f] | Some p \<Rightarrow> p)"

fun field_at :: "go_type \<Rightarrow> nat list \<Rightarrow> (struct_field \<times> go_type) option" where
  "field_at (StructT fs) [i] = (if i < length fs then Some (fs ! i) else None)"
| "field_at (StructT fs) (i # j # p) = (if i < length fs then field_at (snd (fs ! i)) (j # p) else None)"
| "field_at _ _ = None"

definition field_key :: "struct_field \<Rightarrow> string" where
  "field_key g = (let n = hd (strings_Split (CHR '','') (field_tag g)) in if n \<noteq> [] then n else ToLower (Name g))"

definition field_flags :: "struct_field \<Rightarrow> string set" where
  "field_flags g = set (tl (strings_Split (CHR '','') (field_tag g)))"

text \<open>The entry addresses an exported field and has its key and flags.\<close>

definition entry_ok :: "go_type \<Rightarrow> fullInfo \<Rightarrow> bool" where
  "entry_ok st f \<longleftrightarrow> path f \<noteq> [] \<and> (case field_at st (path f) of None \<Rightarrow> False
     | Some (g, _) \<Rightarrow> PkgPath g = [] \<and> field_tag g \<noteq> ''-'' \<and> Key f = field_key g \<and> ''inline'' \<notin> field_flags g \<and>
         (OmitEmpty f \<longleftrightarrow> ''omitempty'' \<in> field_flags g) \<and> (MinSize f \<longleftrightarrow> ''minsize'' \<in> field_flags g))"

definition info_ok :: "go_type \<Rightarrow> structInfo \<Rightarrow> bool" where
  "info_ok st si \<longleftrightarrow> distinct (map Key (FieldsList si)) \<and> FieldsMap si = map_of (map (\<lambda>f. (Key f, f)) (FieldsList si)) \<and>
     list_all (entry_ok st) (FieldsList si) \<and>
     (case InlineMap si of None \<Rightarrow> True | Some n \<Rightarrow> \<exists>g. field_at st [n] = Some (g, MapT True))"

lemma parse_flags_ok:
  "parse_flags flags info inl = Inr (info', inl') \<Longrightarrow>
   (inl' \<longleftrightarrow> inl \<or> ''inline'' \<in> set flags) \<and> (OmitEmpty info' \<longleftrightarrow> OmitEmpty info \<or> ''omitempty'' \<in> set flags) \<and>
   (MinSize info' \<longleftrightarrow> MinSize info \<or> ''minsize'' \<in> set flags) \<and> Num info' = Num info \<and> Inline info' = Inline info"
  by (induction flags info inl rule: parse_flags.induct) (auto split: if_splits)

lemma add_info_ok:
  assumes "info_ok st si" "entry_ok st f" "add_info f si = Inr si'"
  shows "info_ok st si'"
proof -
  have new: "map_of (map (\<lambda>f. (Key f, f)) (FieldsList si)) (Key f) = None" and si': "si' = si\<lparr>FieldsMap := (FieldsMap si)(Key f \<mapsto> f), FieldsList := FieldsList si @ [f]\<rparr>"
    using assms(1,3) by (auto simp: add_info_def info_ok_def split: if_splits)
  then have "Key f \<notin> set (map Key (FieldsList si))" by (simp add: map_of_eq_None_iff image_image)
  moreover have "map_of (map (\<lambda>f. (Key f, f)) (FieldsList si) @ [(Key f, f)]) = (map_of (map (\<lambda>f. (Key f, f)) (FieldsList si)))(Key f \<mapsto> f)"
    using new by (auto simp: fun_eq_iff map_add_def split: option.splits)
  ultimately show ?thesis using assms(1,2) si' by (auto simp: info_ok_def)
qed

lemma path_inline: "path (inline_path i f) = i # path f"
  by (simp add: path_def inline_path_def split: option.splits)

lemma inline_path_entry:
  assumes "entry_ok t f" "i < length fs" "snd (fs ! i) = t"
  shows "entry_ok (StructT fs) (inline_path i f)"
proof -
  have "path f \<noteq> []" using assms(1) by (simp add: entry_ok_def)
  then obtain j p where p: "path f = j # p" by (cases "path f") auto
  have "field_at (StructT fs) (path (inline_path i f)) = field_at t (path f)" using assms(2,3) p by (simp add: path_inline)
  moreover have "Key (inline_path i f) = Key f" "OmitEmpty (inline_path i f) = OmitEmpty f" "MinSize (inline_path i f) = MinSize f"
    by (simp_all add: inline_path_def)
  ultimately show ?thesis using assms(1) by (auto simp: entry_ok_def path_inline split: option.splits)
qed

lemma add_inlined_ok:
  assumes "info_ok (StructT fs) si" "list_all (entry_ok t) finfos" "i < length fs" "snd (fs ! i) = t"
    "add_inlined i finfos si = Inr si'"
  shows "info_ok (StructT fs) si'"
  using assms(1,2,5) unfolding add_inlined_def
proof (induction finfos arbitrary: si)
  case (Cons f finfos)
  then obtain s1 where s1: "add_info (inline_path i f) si = Inr s1"
    "foldE (\<lambda>si finfo. add_info (inline_path i finfo) si) s1 finfos = Inr si'" by auto
  have "entry_ok (StructT fs) (inline_path i f)" using Cons.prems(2) assms(3,4) by (intro inline_path_entry) auto
  then have "info_ok (StructT fs) s1" using add_info_ok[OF Cons.prems(1) _ s1(1)] by simp
  then show ?case using Cons.IH[OF _ _ s1(2)] Cons.prems(2) by simp
qed simp

lemma empty_info_ok: "info_ok st empty_info"
  by (simp add: info_ok_def empty_info_def)

lemma drop_Cons_eq: "x # xs = drop i ys \<Longrightarrow> i < length ys \<and> ys ! i = x \<and> xs = drop (i + 1) ys"
  by (metis Suc_eq_plus1 drop_Suc drop_eq_Nil2 leI list.distinct(1) list.sel(3) nth_via_drop tl_drop)

text \<open>The entry of a field that is not inlined.\<close>

lemma field_entry:
  assumes "i < length fs" "fs ! i = (f, t)" "PkgPath f = []" "field_tag f \<noteq> ''-''"
    "parse_flags (tl (strings_Split (CHR '','') (field_tag f)))
       \<lparr>Key = [], OmitEmpty = False, MinSize = False, Num = i, Inline = None\<rparr> False = Inr (info, False)"
  shows "entry_ok (StructT fs) (info\<lparr>Key := (if hd (strings_Split (CHR '','') (field_tag f)) \<noteq> [] then
      hd (strings_Split (CHR '','') (field_tag f)) else ToLower (Name f))\<rparr>)"
  using parse_flags_ok[OF assms(5)] assms(1-4) by (auto simp: entry_ok_def path_def field_key_def field_flags_def Let_def)

lemma getStructInfo_ok:
  "getStructInfo st = Inr si \<Longrightarrow> info_ok st si"
  "struct_loop i fs acc = Inr si \<Longrightarrow> fs = drop i all \<Longrightarrow> i \<le> length all \<Longrightarrow> info_ok (StructT all) acc \<Longrightarrow> info_ok (StructT all) si"
proof (induction st and i fs acc arbitrary: si and si all rule: getStructInfo_struct_loop.induct)
  case (1 st)
  then show ?case using empty_info_ok by (cases st) (auto simp: getStructInfo.simps)
next
  case (2 i acc)
  then show ?case by simp
next
  case (3 i f t fs acc)
  let ?fields = "strings_Split (CHR '','') (field_tag f)"
  have i: "i < length all" "all ! i = (f, t)" "fs = drop (i + 1) all" "i + 1 \<le> length all"
    using drop_Cons_eq[OF 3(7)] by auto
  note loop = 3(6)[unfolded struct_loop.simps(2) Let_def]
  show ?case
  proof (cases "PkgPath f \<noteq> [] \<or> field_tag f = ''-''")
    case True
    then show ?thesis using loop 3(1)[OF refl True _ i(3,4) 3(9)] by simp
  next
    case f: False
    then have slash: "\<not> 0 \<le> strings_Index (field_tag f) ''/''" using loop by (auto split: if_splits)
    obtain info inl where flags: "parse_flags (tl ?fields)
        \<lparr>Key = [], OmitEmpty = False, MinSize = False, Num = i, Inline = None\<rparr> False = Inr (info, inl)"
      using loop f slash by auto
    note ih = refl f slash refl flags refl
    show ?thesis
    proof (cases inl)
      case False
      then obtain acc' where add: "add_info (info\<lparr>Key := (if hd ?fields \<noteq> [] then hd ?fields else ToLower (Name f))\<rparr>) acc = Inr acc'"
        "struct_loop (i + 1) fs acc' = Inr si" using loop f slash flags by (auto split: if_splits)
      have "entry_ok (StructT all) (info\<lparr>Key := (if hd ?fields \<noteq> [] then hd ?fields else ToLower (Name f))\<rparr>)"
        by (rule field_entry[OF i(1,2)]) (use f flags False in auto)
      then have "info_ok (StructT all) acc'" using add_info_ok[OF 3(9) _ add(1)] by blast
      then show ?thesis using 3(5)[OF ih False add(1,2) i(3,4)] by blast
    next
      case True
      show ?thesis
      proof (cases t)
        case (MapT b)
        then have b: "\<not> InlineMap acc \<noteq> None" "b" and l: "struct_loop (i + 1) fs (acc\<lparr>InlineMap := Some i\<rparr>) = Inr si"
          using loop f slash flags True by (auto split: if_splits)
        have "info_ok (StructT all) (acc\<lparr>InlineMap := Some i\<rparr>)" using 3(9) i(1,2) MapT b(2) by (simp add: info_ok_def)
        then show ?thesis using 3(2)[OF ih True MapT b(1) _ l i(3,4)] b(2) by blast
      next
        case (StructT fs0)
        then obtain inner acc' where inner: "getStructInfo t = Inr inner" "add_inlined i (FieldsList inner) acc = Inr acc'"
          "struct_loop (i + 1) fs acc' = Inr si" using loop f slash flags True by (auto split: if_splits)
        have "info_ok t inner" by (rule 3(3)[OF ih True StructT inner(1)])
        then have "list_all (entry_ok t) (FieldsList inner)" by (simp add: info_ok_def)
        then have "info_ok (StructT all) acc'" using add_inlined_ok[OF 3(9) _ i(1) _ inner(2), of t] i(2) by simp
        then show ?thesis using 3(4)[OF ih True StructT inner i(3,4)] by blast
      next
        case OtherT
        then show ?thesis using loop f slash flags True by auto
      qed
    qed
  qed
qed

section \<open>Properties\<close>

text \<open>C11: A struct type that is accepted has one entry for each key, found under the key; each entry leads, by its
  path of field numbers through inlined structs, to an exported field and has that field's key and
  flags; and the field for the remaining keys is a map with string keys.\<close>

theorem getStructInfo_entries:
  assumes "getStructInfo st = Inr si"
  shows "distinct (map Key (FieldsList si)) \<and> FieldsMap si = map_of (map (\<lambda>f. (Key f, f)) (FieldsList si)) \<and>
    list_all (entry_ok st) (FieldsList si) \<and>
    (case InlineMap si of None \<Rightarrow> True | Some n \<Rightarrow> \<exists>g. field_at st [n] = Some (g, MapT True))"
  using getStructInfo_ok(1)[OF assms] by (simp add: info_ok_def)

definition plain_field :: "string \<Rightarrow> string \<Rightarrow> struct_field" where
  "plain_field name tag = \<lparr>Name = name, PkgPath = [], Tag = tag, bson_tag = tag\<rparr>"

definition sample_struct :: go_type where
  "sample_struct = StructT [(plain_field ''Id'' ''_id,omitempty'', OtherT),
     (plain_field ''Inner'' '',inline'', StructT [(plain_field ''Count'' '',minsize'', OtherT)])]"

lemma sample_tags:
  "strings_Split (CHR '','') '',inline'' = [[], ''inline'']" "strings_Split (CHR '','') ''_id,omitempty'' = [''_id'', ''omitempty'']"
  "strings_Split (CHR '','') '',minsize'' = [[], ''minsize'']" "strings_Index '',inline'' ''/'' = -1"
  "strings_Index ''_id,omitempty'' ''/'' = -1" "strings_Index '',minsize'' ''/'' = -1" "ToLower ''Count'' = ''count''"
  by code_simp+

lemma plain_field_simps [simp]:
  "tag \<noteq> [] \<Longrightarrow> field_tag (plain_field n tag) = tag" "PkgPath (plain_field n tag) = []" "Name (plain_field n tag) = n"
  by (simp_all add: field_tag_def plain_field_def)

lemma sample_struct_info:
  "\<exists>m. getStructInfo sample_struct = Inr \<lparr>FieldsMap = m,
     FieldsList = [\<lparr>Key = ''_id'', OmitEmpty = True, MinSize = False, Num = 0, Inline = None\<rparr>,
       \<lparr>Key = ''count'', OmitEmpty = False, MinSize = True, Num = 0, Inline = Some [1, 0]\<rparr>], InlineMap = None\<rparr>"
  by (simp add: sample_struct_def getStructInfo.simps struct_loop.simps(2) Let_def sample_tags add_info_def empty_info_def
      add_inlined_def inline_path_def)

theorem getStructInfo_entries_witness:
  "\<exists>si. getStructInfo sample_struct = Inr si \<and> distinct (map Key (FieldsList si)) \<and> length (FieldsList si) = 2"
proof -
  obtain si where si: "getStructInfo sample_struct = Inr si" "length (FieldsList si) = 2"
    using sample_struct_info by fastforce
  then show ?thesis using getStructInfo_entries[OF si(1)] by blast
qed

text \<open>The inlined map of a struct that is itself inlined is dropped without an error: neither its entry nor an
  inlined map is left, so what the map holds is not encoded, and other keys are not decoded into it.\<close>

theorem inlined_map_lost:
  "getStructInfo (StructT [(plain_field outer '',inline'', StructT [(plain_field inner '',inline'', MapT True)])]) = Inr empty_info"
  by (simp add: getStructInfo.simps struct_loop.simps(2) Let_def sample_tags add_inlined_def empty_info_def)

end
