(* ===== verification/ObjectIds.thy ===== *)
theory ObjectIds
  imports Go_Std
begin

text \<open>
  Object identifiers of MongoDB (src/src/labix.org/v2/mgo/bson/bson.go): their generation from the
  clock, the machine, the process and a counter, the access to those parts, and their texts in
  hexadecimal and in JSON.
\<close>

section \<open>Hexadecimal decoding\<close>

definition hex_val :: "char \<Rightarrow> nat option" where
  "hex_val c = (let k = of_char c :: nat in
     if 48 \<le> k \<and> k \<le> 57 then Some (k - 48) else if 97 \<le> k \<and> k \<le> 102 then Some (k - 87)
     else if 65 \<le> k \<and> k \<le> 70 then Some (k - 55) else None)"

text \<open>\<open>hex.DecodeString\<close>, None as an error; the callers use the bytes only without one.\<close>

fun hex_decode :: "string \<Rightarrow> byte list option" where
  "hex_decode [] = Some []"
| "hex_decode [c] = None"
| "hex_decode (c # d # s) =
     (case (hex_val c, hex_val d, hex_decode s) of
        (Some x, Some y, Some bs) \<Rightarrow> Some (of_nat (16 * x + y) # bs)
      | _ \<Rightarrow> None)"

section \<open>Identifiers\<close>

type_synonym ObjectId = string

definition be32 :: "32 word \<Rightarrow> byte list" where
  "be32 u = [ucast (drop_bit 24 u), ucast (drop_bit 16 u), ucast (drop_bit 8 u), ucast u]"

definition ObjectIdHex :: "string \<Rightarrow> ObjectId go" where
  "ObjectIdHex s =
     (case hex_decode s of
        Some d \<Rightarrow> if length d \<noteq> 12 then Inl (Panic ''Invalid input to ObjectIdHex'') else Inr (string_of d)
      | None \<Rightarrow> Inl (Panic ''Invalid input to ObjectIdHex''))"

definition IsObjectIdHex :: "string \<Rightarrow> bool" where
  "IsObjectIdHex s = (if length s \<noteq> 24 then False else hex_decode s \<noteq> None)"

text \<open>What a process sees of its surroundings: the host name or an error, random bytes or an error, the clock in
  seconds and the process number; MD5 is a parameter.\<close>

record surroundings =
  hostname :: "string option"
  random3 :: "byte list option"
  unix :: int
  getpid :: int

definition readMachineId :: "(byte list \<Rightarrow> byte list) \<Rightarrow> surroundings \<Rightarrow> byte list go" where
  "readMachineId md5 e =
     (case hostname e of
        None \<Rightarrow> (case random3 e of None \<Rightarrow> Inl (Panic ''cannot get hostname'') | Some r \<Rightarrow> Inr r)
      | Some h \<Rightarrow> let hw = md5 (bytes_of h) in Inr (take 3 hw @ drop (length hw) [0, 0, 0]))"

text \<open>The counter is shared by all goroutines and incremented atomically; it comes back with the identifier.\<close>

definition NewObjectId :: "byte list \<Rightarrow> surroundings \<Rightarrow> 32 word \<Rightarrow> (ObjectId \<times> 32 word) go" where
  "NewObjectId machineId e objectIdCounter =
     bindE (idx machineId 0) (\<lambda>m0.
     bindE (idx machineId 1) (\<lambda>m1.
     bindE (idx machineId 2) (\<lambda>m2.
       let pid = getpid e; i = objectIdCounter + 1 in
       Inr (string_of (be32 (word_of_int (unix e)) @ [m0, m1, m2] @ [word_of_int (pid div 2 ^ 8), word_of_int pid] @
         [ucast (drop_bit 16 i), ucast (drop_bit 8 i), ucast i]), i))))"

definition NewObjectIdWithTime :: "int \<Rightarrow> ObjectId" where
  "NewObjectIdWithTime t = string_of (be32 (word_of_int t) @ replicate 8 0)"

definition Hex :: "ObjectId \<Rightarrow> string" where
  "Hex i = fmt_x (bytes_of i)"

definition String_Id :: "ObjectId \<Rightarrow> string" where
  "String_Id i = ''ObjectIdHex('' @ [CHR 0x22] @ fmt_x (bytes_of i) @ [CHR 0x22] @ '')''"

definition MarshalJSON :: "ObjectId \<Rightarrow> string" where
  "MarshalJSON i = [CHR 0x22] @ fmt_x (bytes_of i) @ [CHR 0x22]"

definition UnmarshalJSON :: "string \<Rightarrow> ObjectId go" where
  "UnmarshalJSON data =
     (if length data \<noteq> 26 \<or> data ! 0 \<noteq> CHR 0x22 \<or> data ! 25 \<noteq> CHR 0x22 then Inl (Err ''Invalid ObjectId in JSON'')
      else case hex_decode (take 24 (drop 1 data)) of
        None \<Rightarrow> Inl (Err ''Invalid ObjectId in JSON'')
      | Some buf \<Rightarrow> Inr (string_of buf))"

definition Valid :: "ObjectId \<Rightarrow> bool" where
  "Valid i \<longleftrightarrow> length i = 12"

definition byteSlice :: "ObjectId \<Rightarrow> int \<Rightarrow> int \<Rightarrow> byte list go" where
  "byteSlice i start stop =
     (if length i \<noteq> 12 then Inl (Panic ''Invalid ObjectId'') else slice (bytes_of i) start stop)"

definition be_val :: "byte list \<Rightarrow> nat" where
  "be_val bs = foldl (\<lambda>n b. 256 * n + unat b) 0 bs"

text \<open>The time in seconds.\<close>

definition Time :: "ObjectId \<Rightarrow> int go" where
  "Time i = bindE (byteSlice i 0 4) (\<lambda>b. Inr (int (be_val b)))"

definition Machine :: "ObjectId \<Rightarrow> byte list go" where
  "Machine i = byteSlice i 4 7"

definition Pid :: "ObjectId \<Rightarrow> 16 word go" where
  "Pid i = bindE (byteSlice i 7 9) (\<lambda>b. Inr (of_nat (be_val b)))"

definition Counter :: "ObjectId \<Rightarrow> 32 word go" where
  "Counter i = bindE (byteSlice i 9 12) (\<lambda>b.
     Inr (push_bit 16 (ucast (b ! 0)) OR push_bit 8 (ucast (b ! 1)) OR ucast (b ! 2)))"

section \<open>Texts\<close>

lemma hex_val_digit: "n < 16 \<Longrightarrow> hex_val (hex_digit n) = Some n"
  by (auto simp: hex_val_def hex_digit_def Let_def)

lemma hex_decode_fmt_x: "hex_decode (fmt_x bs) = Some bs"
proof (induction bs)
  case (Cons b bs)
  have "unat b < 256" using unsigned_less[of b] by simp
  then have "hex_val (hex_digit (unat b div 16)) = Some (unat b div 16)" "hex_val (hex_digit (unat b mod 16)) = Some (unat b mod 16)"
    by (simp_all add: hex_val_digit)
  moreover have "of_nat (16 * (unat b div 16) + unat b mod 16) = b" by simp
  ultimately show ?case using Cons by (simp add: fmt_x_def hex_byte_def)
qed (simp add: fmt_x_def)

lemma hex_decode_length: "hex_decode s = Some bs \<Longrightarrow> length s = 2 * length bs"
  by (induction s arbitrary: bs rule: hex_decode.induct) (auto split: option.splits)

lemma ObjectIdHex_ok: "length i = 12 \<Longrightarrow> ObjectIdHex (Hex i) = Inr i"
  by (simp add: ObjectIdHex_def Hex_def hex_decode_fmt_x)

lemma UnmarshalJSON_ok:
  assumes "length i = 12"
  shows "UnmarshalJSON (MarshalJSON i) = Inr i"
proof -
  have "length (fmt_x (bytes_of i)) = 24" using assms by (simp add: length_fmt_x)
  then show ?thesis by (simp add: UnmarshalJSON_def MarshalJSON_def nth_append hex_decode_fmt_x)
qed

lemma UnmarshalJSON_valid: "UnmarshalJSON s = Inr i \<Longrightarrow> length i = 12"
  using hex_decode_length by (fastforce simp: UnmarshalJSON_def split: if_splits option.splits)

lemma MarshalJSON_invalid: "length i \<noteq> 12 \<Longrightarrow> UnmarshalJSON (MarshalJSON i) = Inl (Err ''Invalid ObjectId in JSON'')"
  by (auto simp: UnmarshalJSON_def MarshalJSON_def length_fmt_x)

section \<open>Parts\<close>

lemma unat_drop: "unat (drop_bit k u) = unat (u :: 32 word) div 2 ^ k"
proof -
  have "take_bit 32 (unat u) = unat u" using unsigned_less[of u, where ?'a = nat] by (simp add: take_bit_nat_eq_self)
  then show ?thesis by (simp add: unsigned_drop_bit_eq flip: drop_bit_eq_div)
qed

lemma unat_byte: "unat (ucast (drop_bit k u) :: byte) = unat (u :: 32 word) div 2 ^ k mod 256"
  by (simp add: unsigned_ucast_eq take_bit_eq_mod unat_drop)

lemma unat_low_byte: "unat (ucast u :: byte) = unat (u :: 32 word) mod 256"
  using unat_byte[of 0 u] by simp

lemma base256:
  fixes n :: nat
  shows "n div 65536 mod 256 * 65536 + n div 256 mod 256 * 256 + n mod 256 = n mod 16777216"
proof -
  have "n mod (256 * 65536) = 256 * (n div 256 mod 65536) + n mod 256" using mod_mult2_eq[of n 256 65536] by simp
  moreover have "n div 256 mod (256 * 256) = 256 * (n div 256 div 256 mod 256) + n div 256 mod 256"
    by (rule mod_mult2_eq)
  ultimately show ?thesis by (simp add: div_mult2_eq[symmetric])
qed

lemma be_val_be32: "be_val (be32 u) = unat u"
proof -
  have "unat u < 2 ^ 32" using unsigned_less[of u] by simp
  then have "unat u div 16777216 mod 256 = unat u div 16777216" by simp
  then have "unat u div 16777216 mod 256 * 16777216 + unat u mod 16777216 = unat u" by simp
  then show ?thesis using base256[of "unat u"] by (simp add: be_val_def be32_def unat_byte unat_low_byte unat_drop)
qed

lemma take_bit_unat: "take_bit n (w :: 32 word) = of_nat (unat w mod 2 ^ n)"
proof -
  have "unat (take_bit n w) = unat w mod 2 ^ n" by (simp only: unsigned_take_bit_eq) (simp add: take_bit_eq_mod)
  then show ?thesis by (metis of_nat_unat ucast_id)
qed

lemma machine_three:
  assumes "length m = 3"
  obtains m0 m1 m2 where "m = [m0, m1, m2]"
  using assms by (auto simp: numeral_3_eq_3 length_Suc_conv)

lemma Pid_bytes: "of_nat (be_val [word_of_int (p div 2 ^ 8), word_of_int p]) = (word_of_int p :: 16 word)"
proof -
  have "int (be_val [word_of_int (p div 2 ^ 8), word_of_int p]) = (p div 256 mod 256) * 256 + p mod 256"
    by (simp add: be_val_def unsigned_of_int take_bit_eq_mod nat_mod_distrib zmod_int)
  also have "\<dots> = p mod 65536" using zmod_zmult2_eq[of 256 p 256] by simp
  finally have "int (be_val [word_of_int (p div 2 ^ 8), word_of_int p]) = p mod 2 ^ 16" by simp
  then have "word_of_int (int (be_val [word_of_int (p div 2 ^ 8), word_of_int p])) = (word_of_int p :: 16 word)"
    by (simp add: word_of_int_eq_iff take_bit_eq_mod)
  then show ?thesis by simp
qed

text \<open>The parts of an identifier that was just generated.\<close>

definition fields_ok :: "byte list \<Rightarrow> surroundings \<Rightarrow> 32 word \<Rightarrow> ObjectId \<Rightarrow> bool" where
  "fields_ok m e i x \<longleftrightarrow> Valid x \<and> Time x = Inr (unix e mod 2 ^ 32) \<and> Machine x = Inr m \<and>
     Pid x = Inr (word_of_int (getpid e)) \<and> Counter x = Inr (of_nat (unat i mod 2 ^ 24))"

lemma NewObjectId_fields_ok:
  assumes "length m = 3"
  obtains x where "NewObjectId m e c = Inr (x, c + 1)" "fields_ok m e (c + 1) x"
proof -
  obtain m0 m1 m2 where m: "m = [m0, m1, m2]" by (rule machine_three[OF assms])
  let ?t = "be32 (word_of_int (unix e))" and ?p = "[word_of_int (getpid e div 2 ^ 8), word_of_int (getpid e)] :: byte list"
    and ?c = "[ucast (drop_bit 16 (c + 1)), ucast (drop_bit 8 (c + 1)), ucast (c + 1)] :: byte list"
  let ?x = "string_of (?t @ m @ ?p @ ?c)"
  have new: "NewObjectId m e c = Inr (?x, c + 1)" by (simp add: NewObjectId_def m idx_def Let_def)
  have len: "length ?x = 12" "length ?t = 4" by (simp_all add: m be32_def)
  have "Time ?x = Inr (unix e mod 2 ^ 32)"
    using len by (simp add: Time_def byteSlice_def slice_def be_val_be32 unsigned_of_int take_bit_eq_mod)
  moreover have "Machine ?x = Inr m" using len by (simp add: Machine_def byteSlice_def slice_def m)
  moreover have "Pid ?x = Inr (word_of_int (getpid e))"
    using len Pid_bytes[of "getpid e"] by (simp add: Pid_def byteSlice_def slice_def m del: of_nat_eq_iff)
  moreover have "Counter ?x = Inr (of_nat (unat (c + 1) mod 2 ^ 24))"
  proof -
    have "push_bit 16 (ucast (?c ! 0)) OR push_bit 8 (ucast (?c ! 1)) OR (ucast (?c ! 2) :: 32 word) = take_bit 24 (c + 1)"
    proof (rule bit_word_eqI)
      fix n assume "n < LENGTH(32)"
      show "bit (push_bit 16 (ucast (?c ! 0)) OR push_bit 8 (ucast (?c ! 1)) OR (ucast (?c ! 2) :: 32 word)) n = bit (take_bit 24 (c + 1)) n"
        by (cases "n < 8"; cases "n < 16")
          (auto simp: bit_or_iff bit_push_bit_iff bit_ucast_iff bit_drop_bit_eq bit_take_bit_iff)
    qed
    also have "\<dots> = of_nat (unat (c + 1) mod 2 ^ 24)" by (rule take_bit_unat)
    finally show ?thesis using len by (simp add: Counter_def byteSlice_def slice_def m)
  qed
  ultimately show ?thesis using that[OF new] len by (simp add: fields_ok_def Valid_def)
qed


section \<open>Properties\<close>

text \<open>The text of an identifier in hexadecimal and in JSON is read back to the identifier, JSON never yields
  another length than 12 bytes, and the JSON text of an identifier of another length is rejected.\<close>

theorem ObjectId_texts:
  "(Valid i \<longleftrightarrow> ObjectIdHex (Hex i) = Inr i) \<and> (Valid i \<longleftrightarrow> UnmarshalJSON (MarshalJSON i) = Inr i) \<and>
   (Valid i \<longleftrightarrow> IsObjectIdHex (Hex i)) \<and> (Valid i \<longleftrightarrow> \<not> UnmarshalJSON (MarshalJSON i) = Inl (Err ''Invalid ObjectId in JSON''))"
  using ObjectIdHex_ok[of i] UnmarshalJSON_ok[of i] MarshalJSON_invalid[of i]
  by (auto simp: Valid_def IsObjectIdHex_def Hex_def length_fmt_x hex_decode_fmt_x ObjectIdHex_def)

text \<open>Calls of \<open>NewObjectId\<close> one after the other, at any times.\<close>

fun new_ids :: "byte list \<Rightarrow> surroundings list \<Rightarrow> 32 word \<Rightarrow> (ObjectId list \<times> 32 word) go" where
  "new_ids m [] c = Inr ([], c)"
| "new_ids m (e # es) c =
     bindE (NewObjectId m e c) (\<lambda>(x, c). bindE (new_ids m es c) (\<lambda>(xs, c). Inr (x # xs, c)))"

lemma new_ids_fields:
  assumes "length m = 3"
  shows "\<exists>xs. new_ids m es c = Inr (xs, c + of_nat (length es)) \<and> length xs = length es \<and>
    (\<forall>k < length es. fields_ok m (es ! k) (c + of_nat (k + 1)) (xs ! k))"
proof (induction es arbitrary: c)
  case (Cons e es)
  obtain x where x: "NewObjectId m e c = Inr (x, c + 1)" "fields_ok m e (c + 1) x"
    by (rule NewObjectId_fields_ok[OF assms])
  obtain xs where xs: "new_ids m es (c + 1) = Inr (xs, c + 1 + of_nat (length es))" "length xs = length es"
    "\<forall>k < length es. fields_ok m (es ! k) (c + 1 + of_nat (k + 1)) (xs ! k)" using Cons by blast
  have "fields_ok m ((e # es) ! k) (c + of_nat (k + 1)) ((x # xs) ! k)" if "k < length (e # es)" for k
    using that x(2) xs(3) by (cases k) (simp_all add: add.assoc)
  then show ?case using x(1) xs(1,2) by (intro exI[of _ "x # xs"]) (simp add: add.assoc)
qed simp

lemma mod_add_distinct:
  fixes a q :: nat
  assumes "j < q" "k < q" "(a + j) mod q = (a + k) mod q"
  shows "j = k"
proof -
  have le: "j = k" if "j \<le> k" "k < q" "(a + j) mod q = (a + k) mod q" for j k
  proof -
    have "q dvd k - j" using mod_eq_dvd_iff_nat[of "a + j" "a + k" q] that by simp
    then show ?thesis using that(1,2) dvd_imp_le[of q "k - j"] by (cases "k - j = 0") auto
  qed
  show ?thesis using le[of j k] le[of k j] assms by (cases "j \<le> k") simp_all
qed

lemma counter_distinct:
  fixes c :: "32 word"
  assumes "j < 2 ^ 24" "k < 2 ^ 24" "unat (c + of_nat (j + 1)) mod 2 ^ 24 = unat (c + of_nat (k + 1)) mod 2 ^ 24"
  shows "j = k"
proof -
  have u: "unat (c + of_nat (n + 1)) mod 2 ^ 24 = (unat c + (n + 1)) mod 2 ^ 24" for n
  proof -
    have "unat (c + of_nat (n + 1)) = (unat c + (n + 1)) mod 2 ^ 32"
      by (simp add: unat_word_ariths unsigned_of_nat take_bit_eq_mod mod_simps)
    then show ?thesis by (simp add: mod_mod_cancel)
  qed
  have "(unat c + 1 + j) mod 2 ^ 24 = (unat c + 1 + k) mod 2 ^ 24" using assms(3) unfolding u by (simp only: ac_simps)
  then show ?thesis by (rule mod_add_distinct[OF assms(1,2)])
qed

text \<open>C32: Every identifier that a process generates carries the second in which it was generated, the machine
  and the process, and any 2 ^ 24 identifiers generated one after the other, at whatever times, are
  pairwise distinct.\<close>

theorem NewObjectId_distinct:
  assumes "length m = 3" "length es \<le> 2 ^ 24"
  shows "\<exists>xs. new_ids m es c = Inr (xs, c + of_nat (length es)) \<and> length xs = length es \<and> distinct xs \<and>
    list_all2 (\<lambda>x e. Valid x \<and> Time x = Inr (unix e mod 2 ^ 32) \<and> Machine x = Inr m \<and> Pid x = Inr (word_of_int (getpid e))) xs es"
proof -
  obtain xs where xs: "new_ids m es c = Inr (xs, c + of_nat (length es))" "length xs = length es"
    "\<forall>k < length es. fields_ok m (es ! k) (c + of_nat (k + 1)) (xs ! k)" using new_ids_fields[OF assms(1)] by blast
  have "j = k" if jk: "j < length xs" "k < length xs" "xs ! j = xs ! k" for j k
  proof (rule counter_distinct)
    have "Counter (xs ! n) = Inr (of_nat (unat (c + of_nat (n + 1)) mod 2 ^ 24))" if "n < length xs" for n
      using xs(2,3) that by (simp add: fields_ok_def)
    then have "(of_nat (unat (c + of_nat (j + 1)) mod 2 ^ 24) :: 32 word) = of_nat (unat (c + of_nat (k + 1)) mod 2 ^ 24)"
      using jk by (metis sum.inject(2))
    then show "unat (c + of_nat (j + 1)) mod 2 ^ 24 = unat (c + of_nat (k + 1)) mod 2 ^ 24"
      by (subst (asm) word_of_nat_eq_iff) (simp add: take_bit_nat_eq_self take_bit_eq_mod)
  qed (use jk xs(2) assms(2) in simp_all)
  then have "distinct xs" by (auto simp: distinct_conv_nth)
  then show ?thesis using xs by (auto simp: list_all2_conv_all_nth fields_ok_def)
qed

theorem NewObjectId_distinct_witness:
  "\<exists>x y. new_ids [1, 2, 3] (replicate 2 \<lparr>hostname = None, random3 = None, unix = 0, getpid = 1\<rparr>) 0 = Inr ([x, y], 2) \<and> x \<noteq> y"
proof -
  let ?es = "replicate 2 \<lparr>hostname = None, random3 = None, unix = 0, getpid = 1\<rparr>"
  obtain xs where "new_ids [1, 2, 3] ?es 0 = Inr (xs, 2)" "length xs = 2" "distinct xs"
    using NewObjectId_distinct[of "[1, 2, 3]" ?es 0] by auto
  then show ?thesis by (auto simp: numeral_2_eq_2 length_Suc_conv)
qed

end
