(* ===== verification/Socket.thy ===== *)
theory Socket
  imports Bson_Round
begin

text \<open>
  The socket of the MongoDB driver (src/src/labix.org/v2/mgo/socket.go): how \<open>Query\<close> writes operations and keeps
  their callbacks, how \<open>readLoop\<close> reads replies and calls them back, and what happens when the socket dies. The
  connection is the list of the bytes written to it, and the list of those that come from it before the error that
  ends them. \<open>'f\<close> stands for callbacks.
\<close>

section \<open>Encoding\<close>

definition sock_addInt32 :: "byte list \<Rightarrow> 32 word \<Rightarrow> byte list" where
  "sock_addInt32 b i = b @ [ucast i, ucast (drop_bit 8 i), ucast (drop_bit 16 i), ucast (drop_bit 24 i)]"

definition sock_addInt64 :: "byte list \<Rightarrow> 64 word \<Rightarrow> byte list" where
  "sock_addInt64 b i = b @ [ucast i, ucast (drop_bit 8 i), ucast (drop_bit 16 i), ucast (drop_bit 24 i),
     ucast (drop_bit 32 i), ucast (drop_bit 40 i), ucast (drop_bit 48 i), ucast (drop_bit 56 i)]"

definition addCString :: "byte list \<Rightarrow> string \<Rightarrow> byte list" where
  "addCString b s = (b @ bytes_of s) @ [0]"

definition addHeader :: "byte list \<Rightarrow> 16 word \<Rightarrow> byte list" where
  "addHeader b opcode = (let i = length b in
     (b @ replicate 16 0)[i + 12 := ucast opcode, i + 13 := ucast (drop_bit 8 opcode)])"

text \<open>A nil document is the empty one.\<close>

definition addBSON :: "byte list \<Rightarrow> bson \<Rightarrow> byte list go" where
  "addBSON b doc = (if doc = Nil_value then Inr (b @ [5, 0, 0, 0, 0]) else bindE (Marshal doc) (\<lambda>data. Inr (b @ data)))"

definition sock_setInt32 :: "byte list \<Rightarrow> nat \<Rightarrow> 32 word \<Rightarrow> byte list" where
  "sock_setInt32 b pos i = b[pos := ucast i, pos + 1 := ucast (drop_bit 8 i), pos + 2 := ucast (drop_bit 16 i), pos + 3 := ucast (drop_bit 24 i)]"

definition getInt32 :: "byte list \<Rightarrow> nat \<Rightarrow> 32 word" where
  "getInt32 b pos = ucast (b ! (pos + 0)) OR push_bit 8 (ucast (b ! (pos + 1))) OR push_bit 16 (ucast (b ! (pos + 2))) OR
     push_bit 24 (ucast (b ! (pos + 3)))"

definition getInt64 :: "byte list \<Rightarrow> nat \<Rightarrow> 64 word" where
  "getInt64 b pos = ucast (b ! (pos + 0)) OR push_bit 8 (ucast (b ! (pos + 1))) OR push_bit 16 (ucast (b ! (pos + 2))) OR
     push_bit 24 (ucast (b ! (pos + 3))) OR push_bit 32 (ucast (b ! (pos + 4))) OR push_bit 40 (ucast (b ! (pos + 5))) OR
     push_bit 48 (ucast (b ! (pos + 6))) OR push_bit 56 (ucast (b ! (pos + 7)))"

section \<open>Operations\<close>

text \<open>\<open>QueryOp\<close> has the collection, the query, skip, limit, the selector, the flags and the callback; \<open>GetMoreOp\<close> the
  collection, the limit, the cursor and the callback; \<open>UpdateOp\<close> the collection, the selector, the update and the
  flags.\<close>

datatype 'f op =
    QueryOp string bson "32 word" "32 word" bson "32 word" "'f option"
  | GetMoreOp string "32 word" "64 word" "'f option"
  | InsertOp string "bson list"
  | UpdateOp string bson bson "32 word"
  | DeleteOp string bson "32 word"
  | KillCursorsOp "64 word list"

fun callback :: "'f op \<Rightarrow> 'f option" where
  "callback (QueryOp c q sk l sel fl f) = f"
| "callback (GetMoreOp c l k f) = f"
| "callback _ = None"

fun opcode :: "'f op \<Rightarrow> 16 word" where
  "opcode (UpdateOp _ _ _ _) = 2001"
| "opcode (InsertOp _ _) = 2002"
| "opcode (QueryOp _ _ _ _ _ _ _) = 2004"
| "opcode (GetMoreOp _ _ _ _) = 2005"
| "opcode (DeleteOp _ _ _) = 2006"
| "opcode (KillCursorsOp _) = 2007"

text \<open>What the cases of the loop in \<open>Query\<close> append.\<close>

fun serialize :: "'f op \<Rightarrow> byte list \<Rightarrow> byte list go" where
  "serialize (UpdateOp collection selector update flags) buf =
     (let buf = sock_addInt32 (addCString (sock_addInt32 (addHeader buf 2001) 0) collection) flags in
      bindE (addBSON buf selector) (\<lambda>buf. addBSON buf update))"
| "serialize (InsertOp collection documents) buf =
     foldE addBSON (addCString (sock_addInt32 (addHeader buf 2002) 0) collection) documents"
| "serialize (QueryOp collection query skip limit selector flags f) buf =
     (let buf = sock_addInt32 (sock_addInt32 (addCString (sock_addInt32 (addHeader buf 2004) flags) collection) skip) limit in
      bindE (addBSON buf query) (\<lambda>buf. if selector \<noteq> Nil_value then addBSON buf selector else Inr buf))"
| "serialize (GetMoreOp collection limit cursorId f) buf =
     Inr (sock_addInt64 (sock_addInt32 (addCString (sock_addInt32 (addHeader buf 2005) 0) collection) limit) cursorId)"
| "serialize (DeleteOp collection selector flags) buf =
     addBSON (sock_addInt32 (addCString (sock_addInt32 (addHeader buf 2006) 0) collection) flags) selector"
| "serialize (KillCursorsOp cursorIds) buf =
     Inr (foldl sock_addInt64 (sock_addInt32 (sock_addInt32 (addHeader buf 2007) 0) (of_nat (length cursorIds))) cursorIds)"

section \<open>The socket\<close>

record authInfo =
  db :: string
  user :: string
  pass :: string

text \<open>\<open>has_server\<close> is whether the pointer to its server is not nil, \<open>logout\<close> what to log out from before the next
  operation.\<close>

record 'f sock =
  nextRequestId :: "32 word"
  replyFuncs :: "32 word \<rightharpoonup> 'f"
  references :: nat
  auth :: "authInfo list"
  logout :: "authInfo list"
  dead :: "string option"
  has_server :: bool
  written :: "byte list"

definition flushLogout :: "'f sock \<Rightarrow> 'f op list \<times> 'f sock" where
  "flushLogout s =
     (map (\<lambda>a. QueryOp (db a @ ''.$cmd'') (Struct [(\<lparr>Key = ''logout'', OmitEmpty = False, MinSize = False\<rparr>, GoInt 1)]) 0 (-1) Nil_value 0 None)
        (logout s),
      s\<lparr>logout := []\<rparr>)"

text \<open>The first entry for which the condition holds, and the list without it.\<close>

fun drop_first :: "('a \<Rightarrow> bool) \<Rightarrow> 'a list \<Rightarrow> 'a list \<times> bool" where
  "drop_first c [] = ([], False)"
| "drop_first c (a # as) = (if c a then (as, True) else let (bs, found) = drop_first c as in (a # bs, found))"

definition dropAuth :: "string \<Rightarrow> 'f sock \<Rightarrow> 'f sock \<times> bool" where
  "dropAuth d s = (let (as, found) = drop_first (\<lambda>a. db a = d) (auth s) in (s\<lparr>auth := as\<rparr>, found))"

definition dropLogout :: "authInfo \<Rightarrow> 'f sock \<Rightarrow> 'f sock \<times> bool" where
  "dropLogout a s = (let (as, found) = drop_first (\<lambda>b. b = a) (logout s) in (s\<lparr>logout := as\<rparr>, found))"

text \<open>The first section of \<open>Login\<close>: whether the socket has that user already, also as one that was to log out.\<close>

definition login_cached :: "authInfo \<Rightarrow> 'f sock \<Rightarrow> bool \<times> 'f sock" where
  "login_cached a s =
     (if a \<in> set (auth s) then (True, s)
      else let (t, found) = dropLogout a s in (found, if found then t\<lparr>auth := auth t @ [a]\<rparr> else t))"

text \<open>The last one, in the callback of the command.\<close>

definition record_auth :: "authInfo \<Rightarrow> 'f sock \<Rightarrow> 'f sock" where
  "record_auth a s = (let t = fst (dropAuth (db a) s) in t\<lparr>auth := auth t @ [a]\<rparr>)"

text \<open>\<open>Login\<close> and its error. Its dialogue with the server ends without a nonce, without a reply to the command, or with a
  reply; the command is sent by \<open>Query\<close> and so comes after the logouts.\<close>

datatype dialogue = NoNonce string | NoReply string | Refused string | Accepted

definition Login :: "authInfo \<Rightarrow> dialogue \<Rightarrow> 'f sock \<Rightarrow> string option \<times> 'f sock" where
  "Login a r s = (case login_cached a s of
     (True, s) \<Rightarrow> (None, s)
   | (False, s) \<Rightarrow>
       (case r of
          NoNonce e \<Rightarrow> (Some e, s)
        | NoReply e \<Rightarrow> (Some e, snd (flushLogout s))
        | Refused e \<Rightarrow> (Some e, record_auth a (snd (flushLogout s)))
        | Accepted \<Rightarrow> (None, record_auth a (snd (flushLogout s)))))"

definition Logout :: "string \<Rightarrow> 'f sock \<Rightarrow> 'f sock" where
  "Logout d s = (case dropAuth d s of
     (t, True) \<Rightarrow> t\<lparr>logout := logout t @ [the (find (\<lambda>a. db a = d) (auth s))]\<rparr>
   | (t, False) \<Rightarrow> t)"

definition LogoutAll :: "'f sock \<Rightarrow> 'f sock" where
  "LogoutAll s = s\<lparr>logout := logout s @ auth s, auth := []\<rparr>"

lemma login_references: "references (snd (login_cached a s)) = references s" "references (record_auth a s) = references s"
  by (simp_all add: login_cached_def record_auth_def dropLogout_def dropAuth_def Let_def split_beta)

lemma Login_references: "references (snd (Login a r s)) = references s"
proof -
  obtain found t where t: "login_cached a s = (found, t)" by fastforce
  then have "references t = references s" using login_references(1)[of a s] by simp
  then show ?thesis by (cases found; cases r) (simp_all add: Login_def t flushLogout_def login_references(2))
qed

text \<open>The loop over the operations: the buffer, and the positions of the operations with a callback.\<close>

definition serialize_op :: "byte list \<times> (nat \<times> 'f) list \<Rightarrow> 'f op \<Rightarrow> (byte list \<times> (nat \<times> 'f) list) go" where
  "serialize_op = (\<lambda>(buf, requests) op. let start = length buf in
     bindE (serialize op buf) (\<lambda>buf.
       Inr (sock_setInt32 buf start (of_nat (length buf - start)),
            requests @ (case callback op of None \<Rightarrow> [] | Some f \<Rightarrow> [(start, f)]))))"

definition enqueue :: "byte list \<times> 32 word \<times> (32 word \<rightharpoonup> 'f) \<Rightarrow> nat \<times> 'f \<Rightarrow> byte list \<times> 32 word \<times> (32 word \<rightharpoonup> 'f)" where
  "enqueue = (\<lambda>(buf, requestId, table) (pos, f). (sock_setInt32 buf (pos + 4) requestId, requestId + 1, table(requestId \<mapsto> f)))"

definition first_id :: "'f sock \<Rightarrow> 32 word" where
  "first_id s = (let requestId = nextRequestId s + 1 in if requestId = 0 then requestId + 1 else requestId)"

text \<open>The result of \<open>Query\<close>: its error, the callbacks that it called with the error of a dead socket, and the socket.
  The first argument is the outcome of \<open>Write\<close>: an error after some of the bytes, or none. \<open>send\<close> is the part with
  the lock.\<close>

type_synonym 'f sending = "go_error option \<times> 'f list \<times> 'f sock"

definition send :: "(nat \<times> string) option \<Rightarrow> 'f sock \<Rightarrow> byte list \<times> (nat \<times> 'f) list \<Rightarrow> 'f sending" where
  "send write s = (\<lambda>(buf, requests).
     case dead s of
       Some e \<Rightarrow> (Some (Err e), map snd requests, s)
     | None \<Rightarrow>
         let requestId = first_id s; (buf, _, table) = foldl enqueue (buf, requestId, replyFuncs s) requests;
             s = s\<lparr>nextRequestId := requestId + of_nat (length requests), replyFuncs := table\<rparr>
         in case write of
              None \<Rightarrow> (None, [], s\<lparr>written := written s @ buf\<rparr>)
            | Some (n, e) \<Rightarrow> (Some (Err e), [], s\<lparr>written := written s @ take n buf\<rparr>))"

definition Query :: "(nat \<times> string) option \<Rightarrow> 'f op list \<Rightarrow> 'f sock \<Rightarrow> 'f sending" where
  "Query write ops s =
     (let (lops, s) = flushLogout s in
      case foldE serialize_op ([], []) (lops @ ops) of
        Inl e \<Rightarrow> (Some e, [], s)
      | Inr r \<Rightarrow> send write s r)"

text \<open>The callbacks that get the error, by their request.\<close>

definition kill :: "string \<Rightarrow> 'f sock \<Rightarrow> (32 word \<rightharpoonup> 'f) \<times> 'f sock" where
  "kill e s = (if dead s \<noteq> None then (Map.empty, s)
     else (replyFuncs s, s\<lparr>dead := Some e, replyFuncs := Map.empty, has_server := False\<rparr>))"

definition InitialAcquire :: "'f sock \<Rightarrow> 'f sock go" where
  "InitialAcquire s =
     (if references s > 0 then Inl (Panic ''Socket acquired out of cache with references'')
      else case dead s of Some e \<Rightarrow> Inl (Err e) | None \<Rightarrow> Inr (s\<lparr>references := references s + 1\<rparr>))"

text \<open>Whether the socket is one of the master; the argument is what its server says.\<close>

definition Acquire :: "bool \<Rightarrow> 'f sock \<Rightarrow> (bool \<times> 'f sock) go" where
  "Acquire serverIsMaster s =
     (if references s = 0 then Inl (Panic ''Socket got non-initial acquire with references == 0'')
      else Inr (dead s = None \<and> serverIsMaster, s\<lparr>references := references s + 1\<rparr>))"

text \<open>Whether the socket is given back to its server. (\<open>LogoutAll\<close> comes in between.)\<close>

definition Release :: "'f sock \<Rightarrow> (bool \<times> 'f sock) go" where
  "Release s =
     (if references s = 0 then Inl (Panic ''socket.Release() with references == 0'')
      else let s = s\<lparr>references := references s - 1\<rparr> in Inr (references s = 0 \<and> has_server s, s))"

section \<open>Replies\<close>

record replyOp =
  r_flags :: "32 word"
  r_cursorId :: "64 word"
  r_firstDoc :: "32 word"
  r_replyDocs :: "32 word"

text \<open>A call of a callback: with an error, or with a reply, the number of a document and the document.\<close>

datatype call = Failed string | Given replyOp int "byte list option"

text \<open>Bytes from the connection, or None when it ends before.\<close>

definition fill :: "nat \<Rightarrow> byte list \<Rightarrow> (byte list \<times> byte list) option" where
  "fill n conn = (if n \<le> length conn then Some (take n conn, drop n conn) else None)"

text \<open>The loop over the documents of a reply: the calls, and what is left in the connection, or why the loop ends.\<close>

function read_docs :: "string \<Rightarrow> replyOp \<Rightarrow> int \<Rightarrow> byte list \<Rightarrow> call list \<times> byte list go" where
  "read_docs eof reply i conn =
     (if i = sint (r_replyDocs reply) then ([], Inr conn)
      else case fill 4 conn of
        None \<Rightarrow> ([], Inl (Err eof))
      | Some (s, conn1) \<Rightarrow>
          let n = sint (getInt32 s 0) in
          if n < 0 then ([], Inl (Panic ''makeslice: len out of range''))
          else if n < 4 then ([], Inl (Panic ''index out of range''))
          else case fill (nat n - 4) conn1 of
            None \<Rightarrow> ([], Inl (Err eof))
          | Some (b, conn2) \<Rightarrow>
              let (calls, r) = read_docs eof reply (i + 1) conn2 in (Given reply i (Some (s @ b)) # calls, r))"
  by pat_completeness auto
termination
  by (relation "measure (\<lambda>(eof, reply, i, conn). length conn)") (auto simp: fill_def split: if_splits)

declare read_docs.simps [simp del]

text \<open>One iteration of \<open>readLoop\<close>, of which an error is for \<open>kill\<close>. The callback is removed after the calls.\<close>

definition read_reply :: "string \<Rightarrow> byte list \<Rightarrow> 'f sock \<Rightarrow> ('f \<times> call) list \<times> 'f sock \<times> byte list go" where
  "read_reply eof conn s =
     (case fill 36 conn of
        None \<Rightarrow> ([], s, Inl (Err eof))
      | Some (p, conn) \<Rightarrow>
          let responseTo = getInt32 p 8; opCode = getInt32 p 12 in
          if opCode \<noteq> 1 then ([], s, Inl (Err ''opcode != 1, corrupted data?''))
          else
            let reply = \<lparr>r_flags = getInt32 p 16, r_cursorId = getInt64 p 20, r_firstDoc = getInt32 p 28, r_replyDocs = getInt32 p 32\<rparr>;
                f = replyFuncs s responseTo;
                (calls, r) = (if f \<noteq> None \<and> r_replyDocs reply = 0 then ([Given reply (-1) None], Inr conn) else read_docs eof reply 0 conn);
                log = (case f of None \<Rightarrow> [] | Some g \<Rightarrow> map (Pair g) calls)
            in case r of
                 Inl e \<Rightarrow> (log, s, Inl e)
               | Inr conn \<Rightarrow> (log, s\<lparr>replyFuncs := (replyFuncs s)(responseTo := None)\<rparr>, Inr conn))"

text \<open>The loop: the calls, and the panic that ends it, or the callbacks that \<open>kill\<close> calls with the error.\<close>

function readLoop :: "string \<Rightarrow> byte list \<Rightarrow> 'f sock \<Rightarrow> ('f \<times> call) list \<times> 'f sock \<times> (32 word \<rightharpoonup> 'f) go" where
  "readLoop eof conn s =
     (case read_reply eof conn s of
        (log, s, Inl (Err e)) \<Rightarrow> let (told, s) = kill e s in (log, s, Inr told)
      | (log, s, Inl e) \<Rightarrow> (log, s, Inl e)
      | (log, s, Inr conn) \<Rightarrow> let (log', s, r) = readLoop eof conn s in (log @ log', s, r))"
  by pat_completeness auto

lemma read_docs_shorter: "read_docs eof reply i conn = (calls, Inr rest) \<Longrightarrow> length rest \<le> length conn"
proof (induction eof reply i conn arbitrary: calls rule: read_docs.induct)
  case (1 eof reply i conn)
  show ?case
    using "1.prems" "1.IH" unfolding read_docs.simps[of eof reply i conn]
    by (force simp: fill_def Let_def split: if_splits prod.splits)
qed

lemma read_reply_shorter: "read_reply eof conn s = (log, t, Inr rest) \<Longrightarrow> length rest < length conn"
  by (auto simp: read_reply_def Let_def fill_def split: if_splits prod.splits option.splits sum.splits dest!: read_docs_shorter)

termination readLoop
  by (relation "measure (\<lambda>(eof, conn, s). length conn)") (auto dest!: read_reply_shorter[OF sym])

declare readLoop.simps [simp del]

end
