(* ===== verification/Queue.thy ===== *)
theory Queue
  imports Prelude
begin

text \<open>
  The ring buffer of the MongoDB driver (src/src/labix.org/v2/mgo/queue.go), in which a cursor keeps
  the documents that have arrived and are not read yet, and its contract as a locale. An element is
  a value of type \<open>interface{}\<close>, with None as nil. The counters are never negative.
\<close>

section \<open>The ring buffer\<close>

record 'a queue =
  elems :: "'a option list"
  nelems :: nat
  popi :: nat
  pushi :: nat

definition new_queue :: "'a queue" where
  "new_queue = \<lparr>elems = [], nelems = 0, popi = 0, pushi = 0\<rparr>"

definition Len :: "'a queue \<Rightarrow> nat" where
  "Len q = nelems q"

text \<open>\<open>copy(dst[at:], src)\<close>.\<close>

definition copy_from :: "nat \<Rightarrow> 'a list \<Rightarrow> 'a list \<Rightarrow> 'a list go" where
  "copy_from pos dst src = bindE (slice dst (int pos) (int (length dst)))
     (\<lambda>d. Inr (take pos dst @ take (length d) src @ drop (length src) d))"

definition newcap :: "nat \<Rightarrow> nat" where
  "newcap curcap = (if curcap = 0 then 8 else if curcap < 1024 then curcap * 2 else curcap + curcap div 4)"

definition expand :: "'a queue \<Rightarrow> 'a queue go" where
  "expand q =
     (let curcap = length (elems q); fresh = replicate (newcap curcap) None in
      if popi q = 0 then
        bindE (copy_from 0 fresh (elems q)) (\<lambda>es. Inr (q\<lparr>pushi := curcap, elems := es\<rparr>))
      else
        let newpopi = newcap curcap - (curcap - popi q) in
        bindE (slice (elems q) 0 (int (popi q))) (\<lambda>front.
        bindE (copy_from 0 fresh front) (\<lambda>es.
        bindE (slice (elems q) (int (popi q)) (int curcap)) (\<lambda>back.
        bindE (copy_from newpopi es back) (\<lambda>es. Inr (q\<lparr>popi := newpopi, elems := es\<rparr>))))))"

definition Push :: "'a option \<Rightarrow> 'a queue \<Rightarrow> 'a queue go" where
  "Push elem q =
     bindE (if nelems q = length (elems q) then expand q else Inr q) (\<lambda>q.
     bindE (upd (elems q) (int (pushi q)) elem) (\<lambda>es.
       Inr (q\<lparr>elems := es, nelems := nelems q + 1, pushi := (pushi q + 1) mod length es\<rparr>)))"

definition Pop :: "'a queue \<Rightarrow> ('a option \<times> 'a queue) go" where
  "Pop q =
     (if nelems q = 0 then Inr (None, q)
      else
        bindE (idx (elems q) (int (popi q))) (\<lambda>elem.
        bindE (upd (elems q) (int (popi q)) None) (\<lambda>es.
          Inr (elem, q\<lparr>elems := es, nelems := nelems q - 1, popi := (popi q + 1) mod length es\<rparr>))))"

section \<open>The elements in order\<close>

text \<open>The cell at distance \<open>i\<close> from the next one to pop.\<close>

definition cell :: "'a queue \<Rightarrow> nat \<Rightarrow> 'a option" where
  "cell q i = elems q ! ((popi q + i) mod length (elems q))"

definition contents :: "'a queue \<Rightarrow> 'a option list" where
  "contents q = map (cell q) [0..<nelems q]"

text \<open>The cells that hold no element are nil, so that the buffer keeps nothing alive.\<close>

definition queue_ok :: "'a queue \<Rightarrow> bool" where
  "queue_ok q \<longleftrightarrow> nelems q \<le> length (elems q) \<and>
     (if elems q = [] then popi q = 0 \<and> pushi q = 0
      else popi q < length (elems q) \<and> pushi q = (popi q + nelems q) mod length (elems q)) \<and>
     (\<forall>i < length (elems q). nelems q \<le> i \<longrightarrow> cell q i = None)"

lemma length_contents [simp]: "length (contents q) = Len q"
  by (simp add: contents_def Len_def)

lemma new_queue_ok: "queue_ok new_queue" "contents new_queue = []"
  by (simp_all add: queue_ok_def new_queue_def contents_def)

section \<open>Growing\<close>

lemma newcap_gt: "n < newcap n"
  by (auto simp: newcap_def)

lemma copy_from_eq:
  "pos + length src \<le> length dst \<Longrightarrow> copy_from pos dst src = Inr (take pos dst @ src @ drop (pos + length src) dst)"
  by (simp add: copy_from_def slice_def add.commute)

text \<open>A full buffer is unrolled so that its free cells are where the next element goes.\<close>

lemma expand_eq:
  assumes "queue_ok q" "nelems q = length (elems q)"
  shows "expand q = Inr (q\<lparr>
      elems := take (popi q) (elems q) @ (if popi q = 0 then elems q else []) @
        replicate (newcap (length (elems q)) - length (elems q)) None @ (if popi q = 0 then [] else drop (popi q) (elems q)),
      popi := (if popi q = 0 then 0 else newcap (length (elems q)) - (length (elems q) - popi q)),
      pushi := (if popi q = 0 then length (elems q) else popi q)\<rparr>)"
proof (cases "popi q = 0")
  case True
  then show ?thesis using newcap_gt[of "length (elems q)"]
    by (simp add: expand_def Let_def copy_from_eq)
next
  case False
  let ?n = "length (elems q)" and ?p = "popi q"
  have q: "?p < ?n" "pushi q = ?p" using assms False by (auto simp: queue_ok_def split: if_splits)
  have c: "copy_from 0 (replicate (newcap ?n) None) (take ?p (elems q)) =
      Inr (take ?p (elems q) @ replicate (newcap ?n - ?p) None)"
    using q newcap_gt[of ?n] by (subst copy_from_eq) auto
  have "copy_from (newcap ?n - (?n - ?p)) (take ?p (elems q) @ replicate (newcap ?n - ?p) None) (drop ?p (elems q)) =
      Inr (take ?p (elems q) @ replicate (newcap ?n - ?n) None @ drop ?p (elems q))"
    using q newcap_gt[of ?n] by (subst copy_from_eq) auto
  then show ?thesis using False q c by (simp add: expand_def Let_def slice_def)
qed


lemma mod_once: "j < n \<Longrightarrow> i < n \<Longrightarrow> (i + j) mod n = (if i + j < n then i + j else i + j - n)" for i j n :: nat
  by (auto simp: le_mod_geq)

lemma expand_ok:
  assumes q: "queue_ok q" and full: "nelems q = length (elems q)"
  obtains q' where "expand q = Inr q'" "queue_ok q'" "contents q' = contents q" "nelems q' < length (elems q')" "nelems q' = nelems q"
proof -
  let ?n = "length (elems q)" and ?p = "popi q"
  let ?N = "newcap ?n"
  obtain q' where q': "expand q = Inr q'" and e: "q' = q\<lparr>
      elems := take ?p (elems q) @ (if ?p = 0 then elems q else []) @ replicate (?N - ?n) None @
        (if ?p = 0 then [] else drop ?p (elems q)),
      popi := (if ?p = 0 then 0 else ?N - (?n - ?p)), pushi := (if ?p = 0 then ?n else ?p)\<rparr>"
    using expand_eq[OF assms] by blast
  have N: "?n < ?N" by (rule newcap_gt)
  have p: "?p < ?n" if "?p \<noteq> 0" using q that by (auto simp: queue_ok_def split: if_splits)
  have len: "length (elems q') = ?N" using N p by (auto simp: e)
  have cells: "cell q' i = (if i < ?n then cell q i else None)" if "i < ?N" for i
  proof (cases "?p = 0")
    case True
    then show ?thesis using that len N by (auto simp: cell_def e nth_append)
  next
    case False
    note p = p[OF False]
    have "popi q' = ?N - (?n - ?p)" using False by (simp add: e)
    then have i: "(popi q' + i) mod ?N = (if i < ?n - ?p then ?N - (?n - ?p) + i else i - (?n - ?p))"
      using mod_once[OF that, of "?N - (?n - ?p)"] p N by auto
    have "cell q i = elems q ! (if i < ?n - ?p then ?p + i else i - (?n - ?p))" if "i < ?n"
    proof -
      have "(?p + i) mod ?n = (if i < ?n - ?p then ?p + i else i - (?n - ?p))" using mod_once[OF that p] p by auto
      then show ?thesis by (simp add: cell_def)
    qed
    moreover have "elems q' ! k = (if k < ?p then elems q ! k else if k < ?p + (?N - ?n) then None else elems q ! (k - (?N - ?n)))"
      if "k < ?N" for k using False p N that by (auto simp: e nth_append)
    ultimately show ?thesis using that p N unfolding cell_def[of q'] len i by (auto simp: add.commute[of i])
  qed
  have n: "nelems q' = ?n" using full by (simp add: e)
  have "contents q' = contents q" unfolding contents_def n full using cells N by simp
  moreover have "queue_ok q'"
    using cells N p len n mod_once[of ?n ?N "?N - (?n - ?p)"] by (auto simp: queue_ok_def e)
  ultimately show ?thesis using that[OF q'] n len N full by simp
qed

section \<open>Operations\<close>

lemma cell_put:
  assumes "queue_ok q" "nelems q < length (elems q)" "i < length (elems q)"
  shows "(elems q)[pushi q := x] ! ((popi q + i) mod length (elems q)) = (if i = nelems q then x else cell q i)"
proof -
  let ?n = "length (elems q)"
  have q: "popi q < ?n" "pushi q = (popi q + nelems q) mod ?n" using assms by (auto simp: queue_ok_def split: if_splits)
  have "(popi q + i) mod ?n = pushi q \<longleftrightarrow> i = nelems q"
    using mod_once[OF assms(3) q(1)] mod_once[OF assms(2) q(1)] q assms(2,3) by auto
  moreover have "pushi q < ?n" unfolding q(2) by (rule mod_less_divisor) (use q(1) in linarith)
  ultimately show ?thesis by (auto simp: cell_def nth_list_update)
qed

lemma Push_ok:
  assumes q: "queue_ok q"
  obtains q' where "Push x q = Inr q'" "queue_ok q'" "contents q' = contents q @ [x]"
proof -
  obtain r where r: "(if nelems q = length (elems q) then expand q else Inr q) = Inr r" "queue_ok r"
      "contents r = contents q" "nelems r < length (elems r)"
  proof (cases "nelems q = length (elems q)")
    case True
    then show ?thesis using expand_ok[OF q True] that by metis
  next
    case False
    then show ?thesis using that[of q] q by (simp add: queue_ok_def)
  qed
  let ?n = "length (elems r)"
  let ?q = "r\<lparr>elems := (elems r)[pushi r := x], nelems := nelems r + 1, pushi := (pushi r + 1) mod ?n\<rparr>"
  have p: "popi r < ?n" "pushi r = (popi r + nelems r) mod ?n" using r(2,4) by (auto simp: queue_ok_def split: if_splits)
  have "pushi r < ?n" unfolding p(2) by (rule mod_less_divisor) (use r(4) in linarith)
  then have push: "Push x q = Inr ?q" using r(1) by (simp add: Push_def upd_def)
  have cells: "cell ?q i = (if i = nelems r then x else cell r i)" if "i < ?n" for i
    using cell_put[OF r(2,4) that] by (simp add: cell_def)
  have "contents ?q = contents r @ [x]" unfolding contents_def using cells r(4) by simp
  moreover have "queue_ok ?q"
    using r(2,4) p cells by (auto simp: queue_ok_def mod_Suc_eq)
  ultimately show ?thesis using that[OF push] r(3) by simp
qed

lemma Pop_ok:
  assumes q: "queue_ok q" and ne: "nelems q \<noteq> 0"
  obtains q' where "Pop q = Inr (hd (contents q), q')" "queue_ok q'" "contents q' = tl (contents q)"
proof -
  let ?n = "length (elems q)"
  let ?q = "q\<lparr>elems := (elems q)[popi q := None], nelems := nelems q - 1, popi := (popi q + 1) mod ?n\<rparr>"
  have p: "popi q < ?n" "pushi q = (popi q + nelems q) mod ?n" "nelems q \<le> ?n"
    using q ne by (auto simp: queue_ok_def split: if_splits)
  have c: "contents q = cell q 0 # map (cell q) [1..<nelems q]" using ne by (simp add: contents_def upt_conv_Cons)
  have pop: "Pop q = Inr (hd (contents q), ?q)" using ne p by (simp add: Pop_def upd_def c cell_def)
  have cells: "cell ?q i = (if i + 1 = ?n then None else cell q (i + 1))" if "i < ?n" for i
  proof -
    have "((popi q + 1) mod ?n + i) mod ?n = (popi q + (i + 1)) mod ?n" by (simp add: mod_simps ac_simps)
    moreover have "(popi q + (i + 1)) mod ?n = popi q \<longleftrightarrow> i + 1 = ?n"
      using mod_once[of "i + 1" ?n "popi q"] p(1) that by (cases "i + 1 = ?n") auto
    moreover have "(popi q + (i + 1)) mod ?n < ?n" by (rule mod_less_divisor) (use p(1) in linarith)
    ultimately show ?thesis using p(1) by (auto simp: cell_def nth_list_update)
  qed
  have "contents ?q = tl (contents q)"
  proof (rule nth_equalityI)
    fix i assume "i < length (contents ?q)"
    then have "i + 1 < nelems q" by (simp add: Len_def)
    then show "contents ?q ! i = tl (contents q) ! i" using cells[of i] p(3) by (simp add: contents_def nth_tl)
  qed (simp add: contents_def)
  moreover have "(popi q + nelems q) mod ?n = (Suc (popi q) mod ?n + nelems q - Suc 0) mod ?n"
    using ne by (cases "nelems q") (simp_all add: mod_simps)
  then have "queue_ok ?q" using q ne p cells by (auto simp: queue_ok_def)
  ultimately show ?thesis using that[OF pop] by simp
qed


section \<open>First in, first out\<close>

text \<open>What a cursor relies on: a queue of values, with what a pop of the empty queue yields.\<close>

datatype 'x queue_op = Enter 'x | Leave

fun run_ops :: "('x \<Rightarrow> 'q \<Rightarrow> 'q go) \<Rightarrow> ('q \<Rightarrow> ('x \<times> 'q) go) \<Rightarrow> 'x queue_op list \<Rightarrow> 'q \<Rightarrow> ('x list \<times> 'q) go" where
  "run_ops push pop [] q = Inr ([], q)"
| "run_ops push pop (Enter x # ops) q = bindE (push x q) (\<lambda>q. run_ops push pop ops q)"
| "run_ops push pop (Leave # ops) q =
     bindE (pop q) (\<lambda>(x, q). bindE (run_ops push pop ops q) (\<lambda>(xs, q). Inr (x # xs, q)))"

fun list_ops :: "'x \<Rightarrow> 'x queue_op list \<Rightarrow> 'x list \<Rightarrow> 'x list \<times> 'x list" where
  "list_ops none [] xs = ([], xs)"
| "list_ops none (Enter x # ops) xs = list_ops none ops (xs @ [x])"
| "list_ops none (Leave # ops) [] = (let (out, rest) = list_ops none ops [] in (none # out, rest))"
| "list_ops none (Leave # ops) (x # xs) = (let (out, rest) = list_ops none ops xs in (x # out, rest))"

locale fifo =
  fixes fresh :: 'q and push :: "'x \<Rightarrow> 'q \<Rightarrow> 'q go" and pop :: "'q \<Rightarrow> ('x \<times> 'q) go" and none :: 'x
    and good :: "'q \<Rightarrow> bool" and items :: "'q \<Rightarrow> 'x list"
  assumes fresh: "good fresh" "items fresh = []"
    and push: "good q \<Longrightarrow> \<exists>q'. push x q = Inr q' \<and> good q' \<and> items q' = items q @ [x]"
    and pop_empty: "good q \<Longrightarrow> items q = [] \<Longrightarrow> pop q = Inr (none, q)"
    and pop: "good q \<Longrightarrow> items q = x # xs \<Longrightarrow> \<exists>q'. pop q = Inr (x, q') \<and> good q' \<and> items q' = xs"
begin

lemma run_from:
  "good q \<Longrightarrow> \<exists>q'. run_ops push pop ops q = Inr (fst (list_ops none ops (items q)), q') \<and> good q' \<and>
     items q' = snd (list_ops none ops (items q))"
proof (induction ops arbitrary: q)
  case (Cons op ops)
  show ?case
  proof (cases op)
    case (Enter x)
    obtain q' where q': "push x q = Inr q'" "good q'" "items q' = items q @ [x]" using push[OF Cons.prems] by blast
    then show ?thesis using Cons.IH[OF q'(2)] Enter by simp
  next
    case Leave
    obtain x q' where q': "pop q = Inr (x, q')" "good q'"
      "list_ops none (Leave # ops) (items q) = (x # fst (list_ops none ops (items q')), snd (list_ops none ops (items q')))"
    proof (cases "items q")
      case Nil
      then show ?thesis using pop_empty[OF Cons.prems Nil] Cons.prems that[of none q] by (simp add: split_beta)
    next
      case (Cons x xs)
      then show ?thesis using pop[OF \<open>good q\<close> Cons] that by (auto simp: split_beta)
    qed
    then show ?thesis using Cons.IH[OF q'(2)] Leave by auto
  qed
qed simp

lemma run_fresh:
  "\<exists>q'. run_ops push pop ops fresh = Inr (fst (list_ops none ops []), q') \<and> good q' \<and> items q' = snd (list_ops none ops [])"
  using run_from[OF fresh(1), of ops] fresh(2) by simp

end

interpretation ring: fifo new_queue Push Pop None queue_ok contents
proof
  show "queue_ok new_queue" "contents new_queue = []" by (simp_all add: new_queue_ok)
next
  fix q :: "'a queue" and x assume "queue_ok q"
  then show "\<exists>q'. Push x q = Inr q' \<and> queue_ok q' \<and> contents q' = contents q @ [x]" using Push_ok by metis
next
  fix q :: "'a queue" assume "queue_ok q" "contents q = []"
  then show "Pop q = Inr (None, q)" by (simp add: contents_def Pop_def)
next
  fix q :: "'a queue" and x xs assume "queue_ok q" "contents q = x # xs"
  moreover from this have "nelems q \<noteq> 0" by (cases "nelems q") (auto simp: contents_def)
  ultimately show "\<exists>q'. Pop q = Inr (x, q') \<and> queue_ok q' \<and> contents q' = xs" using Pop_ok by (metis list.sel(1,3))
qed

text \<open>C12: Whatever is pushed and popped on a new queue, through any growth and wrap-around of the ring, nothing
  panics, the values popped are those of a plain list (nil when it is empty), \<open>Len\<close> is the number of values
  left, and every cell outside them is nil.\<close>

theorem queue_refines_list:
  "\<exists>q. run_ops Push Pop ops new_queue = Inr (fst (list_ops None ops []), q) \<and>
     contents q = snd (list_ops None ops []) \<and> Len q = length (snd (list_ops None ops [])) \<and>
     map (cell q) [Len q..<length (elems q)] = replicate (length (elems q) - Len q) None"
proof -
  obtain q where "run_ops Push Pop ops new_queue = Inr (fst (list_ops None ops []), q)" "queue_ok q"
      "contents q = snd (list_ops None ops [])" using ring.run_fresh by blast
  moreover from this have "map (cell q) [Len q..<length (elems q)] = replicate (length (elems q) - Len q) None"
    by (intro nth_equalityI) (auto simp: queue_ok_def Len_def)
  ultimately show ?thesis by (metis length_contents)
qed

end
