(* ===== verification/Cursor.thy ===== *)
theory Cursor
  imports Queue
begin

text \<open>
  Iteration over the results of a query in the MongoDB driver (src/src/labix.org/v2/mgo/session.go):
  the limits of a query, and the iterator, whose \<open>Next\<close> takes documents from a queue that the
  callback of the socket fills, asks the server for more before the queue is empty, and waits on a
  condition variable when it is. Tailable cursors are left out.
\<close>

section \<open>Limits of a query\<close>

definition int32 :: "int \<Rightarrow> int" where
  "int32 n = sint (word_of_int n :: 32 word)"

record query =
  q_limit :: int
  q_op_limit :: int

definition Batch :: "int \<Rightarrow> query \<Rightarrow> query" where
  "Batch n q = q\<lparr>q_op_limit := int32 (if n = 1 then 2 else n)\<rparr>"

definition Limit :: "int \<Rightarrow> query \<Rightarrow> query" where
  "Limit n q =
     (if n = 1 then q\<lparr>q_limit := 1, q_op_limit := -1\<rparr>
      else if n = - (2 ^ 31) then q\<lparr>q_limit := 2 ^ 31 - 1, q_op_limit := - (2 ^ 31) + 1\<rparr>
      else if n < 0 then q\<lparr>q_limit := int32 (- n), q_op_limit := int32 n\<rparr>
      else q\<lparr>q_limit := int32 n, q_op_limit := int32 n\<rparr>)"

section \<open>The iterator\<close>

datatype iter_err = ErrNotFound | Failure string

text \<open>\<open>locked\<close> is its mutex outside of the methods.\<close>

record 'd iter =
  ierr :: "iter_err option"
  docData :: "'d queue"
  limit :: int
  op_limit :: int
  cursorId :: int
  docsToReceive :: int
  docsBeforeMore :: int
  locked :: bool

text \<open>The iterator that \<open>Iter\<close> makes before it sends the query.\<close>

definition new_iter :: "query \<Rightarrow> 'd iter" where
  "new_iter q = \<lparr>ierr = None, docData = new_queue, limit = q_limit q, op_limit = q_op_limit q, cursorId = 0,
     docsToReceive = 1, docsBeforeMore = 0, locked = False\<rparr>"

text \<open>What the socket calls back with: an error, a reply without documents, or a document with its number, the size
  of its reply and the cursor.\<close>

datatype 'd message = Broken string | Empty int | Doc int int int 'd

text \<open>The first argument is the number of documents that \<open>int(iter.prefetch*float64(rdocs))\<close> stands for.\<close>

definition replyFunc :: "(int \<Rightarrow> int) \<Rightarrow> 'd message \<Rightarrow> 'd iter \<Rightarrow> 'd iter go" where
  "replyFunc prefetch m i =
     (if locked i then Inl Diverge else
      let i = i\<lparr>docsToReceive := docsToReceive i - 1\<rparr> in
      case m of
        Broken e \<Rightarrow> Inr (i\<lparr>ierr := Some (Failure e)\<rparr>)
      | Empty c \<Rightarrow> Inr (if c \<noteq> 0 then i\<lparr>cursorId := c\<rparr> else i\<lparr>ierr := Some ErrNotFound\<rparr>)
      | Doc docNum rdocs c d \<Rightarrow>
          (let i = (if docNum = 0 then
               (let docsToProcess = int (Len (docData i)) + rdocs in
                i\<lparr>docsToReceive := docsToReceive i + (rdocs - 1),
                  docsBeforeMore := (if limit i = 0 \<or> int32 docsToProcess < limit i then docsToProcess - prefetch rdocs else -1),
                  cursorId := c\<rparr>)
             else i)
           in bindE (Push (Some d) (docData i)) (\<lambda>q. Inr (i\<lparr>docData := q\<rparr>))))"

text \<open>
  What happens to an operation given to a socket. \<open>Closed\<close>: the socket is dead, and \<open>Query\<close> calls the callback of
  the operation before it returns the error. \<open>Unsent\<close>: another error.
\<close>

datatype sent = Sent | Closed string | Unsent string

text \<open>
  \<open>Iter\<close>, which keeps the error of the query; the callback may run in between, for \<open>Iter\<close> does not hold the mutex.
\<close>

definition keep_err :: "string option \<Rightarrow> 'd iter \<Rightarrow> 'd iter" where
  "keep_err e i = i\<lparr>ierr := map_option Failure e\<rparr>"

definition Iter :: "string option \<Rightarrow> sent \<Rightarrow> query \<Rightarrow> 'd iter go" where
  "Iter acquire query q =
     (case acquire of Some e \<Rightarrow> Inr (keep_err (Some e) (new_iter q))
      | None \<Rightarrow>
        (case query of
           Sent \<Rightarrow> Inr (keep_err None (new_iter q))
         | Closed e \<Rightarrow> bindE (replyFunc (\<lambda>r. r) (Broken e) (new_iter q)) (\<lambda>i. Inr (keep_err (Some e) i))
         | Unsent e \<Rightarrow> Inr (keep_err (Some e) (new_iter q))))"

text \<open>
  The arguments are the error of acquiring a socket and what becomes of the operation; the result has the limit
  of the request that was sent. The callers hold the mutex, for which the callback waits.
\<close>

definition getMore :: "string option \<Rightarrow> sent \<Rightarrow> 'd iter \<Rightarrow> ('d iter \<times> int option) go" where
  "getMore acquire query i =
     (case acquire of Some e \<Rightarrow> Inr (i\<lparr>ierr := Some (Failure e)\<rparr>, None)
      | None \<Rightarrow>
        let l = int32 (limit i - docsToReceive i - int (Len (docData i)));
            i = (if limit i > 0 \<and> l < op_limit i then i\<lparr>op_limit := l\<rparr> else i)
        in case query of
             Closed e \<Rightarrow> bindE (replyFunc (\<lambda>r. r) (Broken e) (i\<lparr>locked := True\<rparr>)) (\<lambda>i. Inr (i, None))
           | Unsent e \<Rightarrow> Inr (i\<lparr>ierr := Some (Failure e), docsToReceive := docsToReceive i + 1\<rparr>, None)
           | Sent \<Rightarrow> Inr (i\<lparr>docsToReceive := docsToReceive i + 1\<rparr>, Some (op_limit i)))"

text \<open>Whether it succeeds. The operation has no callback.\<close>

definition killCursor :: "string option \<Rightarrow> sent \<Rightarrow> 'd iter \<Rightarrow> bool \<times> 'd iter" where
  "killCursor acquire query i =
     (if cursorId i \<noteq> 0 then
        case (case acquire of Some e \<Rightarrow> Some e | None \<Rightarrow>
                (case query of Sent \<Rightarrow> None | Closed e \<Rightarrow> Some e | Unsent e \<Rightarrow> Some e)) of
          None \<Rightarrow> (True, i\<lparr>cursorId := 0\<rparr>)
        | Some e \<Rightarrow> (False, i\<lparr>ierr := (if ierr i = None \<or> ierr i = Some ErrNotFound then Some (Failure e) else ierr i), cursorId := 0\<rparr>)
      else (True, i))"

text \<open>The condition of the loop of \<open>Next\<close>.\<close>

definition waits :: "'d iter \<Rightarrow> bool" where
  "waits i \<longleftrightarrow> ierr i = None \<and> Len (docData i) = 0 \<and> (docsToReceive i > 0 \<or> cursorId i \<noteq> 0)"

text \<open>A pass of \<open>Next\<close> from where it has the mutex: to the next wait, or to its return with a document, or without
  one. It also says which document it took from the queue, and the limit of the request that it sent.\<close>

datatype 'd outcome = Blocked | Got 'd | Nothing

type_synonym 'd pass = "('d outcome \<times> 'd option \<times> int option \<times> 'd iter) go"

definition deliver_doc :: "('d \<Rightarrow> string option) \<Rightarrow> ('d \<Rightarrow> string option) \<Rightarrow> 'd \<Rightarrow> int option \<Rightarrow> 'd iter \<Rightarrow> 'd pass" where
  "deliver_doc unmarshal checkQueryError d r i =
     (case unmarshal d of
        Some e \<Rightarrow> Inr (Nothing, Some d, r, i\<lparr>ierr := Some (Failure e)\<rparr>)
      | None \<Rightarrow>
        (case checkQueryError d of
           Some e \<Rightarrow> Inr (Nothing, Some d, r, if ierr i = None then i\<lparr>ierr := Some (Failure e)\<rparr> else i)
         | None \<Rightarrow> Inr (Got d, Some d, r, i)))"

definition ask_more :: "string option \<Rightarrow> sent \<Rightarrow> 'd iter \<Rightarrow> ('d iter \<times> int option) go" where
  "ask_more acquire query i =
     (if cursorId i \<noteq> 0 \<and> ierr i = None then
        bindE (if docsBeforeMore i = 0 then getMore acquire query i else Inr (i, None)) (\<lambda>(i, r).
          Inr (i\<lparr>docsBeforeMore := docsBeforeMore i - 1\<rparr>, r))
      else Inr (i, None))"

definition Next :: "('d \<Rightarrow> string option) \<Rightarrow> ('d \<Rightarrow> string option) \<Rightarrow> string option \<Rightarrow> sent \<Rightarrow> 'd iter \<Rightarrow> 'd pass" where
  "Next unmarshal checkQueryError acquire query i =
     (if locked i then Inl Diverge
      else if waits i then
        bindE (if docsToReceive i = 0 then getMore acquire query i else Inr (i, None)) (\<lambda>(i, r).
          Inr (Blocked, None, r, i))
      else
        bindE (Pop (docData i)) (\<lambda>(doc, q).
        let i = i\<lparr>docData := q\<rparr> in
        case doc of
          Some d \<Rightarrow>
            if limit i = 1 then
              (if Len q > 0 then Inl (Panic ''data remains after limit exhausted'')
               else
                 let (ok, i) = killCursor acquire query (i\<lparr>limit := 0, ierr := Some ErrNotFound\<rparr>) in
                 if \<not> ok then Inr (Nothing, Some d, None, i\<lparr>locked := True\<rparr>)
                 else bindE (ask_more acquire query i) (\<lambda>(i, r). deliver_doc unmarshal checkQueryError d r i))
            else
              bindE (ask_more acquire query (if limit i > 0 then i\<lparr>limit := limit i - 1\<rparr> else i))
                (\<lambda>(i, r). deliver_doc unmarshal checkQueryError d r i)
        | None \<Rightarrow>
            if ierr i \<noteq> None then Inr (Nothing, None, None, i)
            else if cursorId i = 0 then Inr (Nothing, None, None, i\<lparr>ierr := Some ErrNotFound\<rparr>)
            else Inl (Panic ''unreachable'')))"

definition Iter_Err :: "'d iter \<Rightarrow> iter_err option go" where
  "Iter_Err i = (if locked i then Inl Diverge else Inr (if ierr i = Some ErrNotFound then None else ierr i))"

definition Iter_Close :: "string option \<Rightarrow> sent \<Rightarrow> 'd iter \<Rightarrow> (iter_err option \<times> 'd iter) go" where
  "Iter_Close acquire query i =
     (if locked i then Inl Diverge
      else let i = snd (killCursor acquire query i) in Inr (if ierr i = Some ErrNotFound then None else ierr i, i))"

section \<open>The iterator, the socket and the server\<close>

text \<open>
  The documents of a reply are handed to the callback one by one, in order, and the replies in the order of the
  requests. \<open>requests\<close> are the limits of those that the server has not answered, \<open>replies\<close> the documents and
  the cursor of those of which nothing was handed on, \<open>arriving\<close> the calls to come of the reply that was begun,
  \<open>rest\<close> the documents of the result that the server has not sent, and \<open>popped\<close> those that \<open>Next\<close> returned.
\<close>

datatype caller = Starting | Idle | Waiting | Woken | Ended

record 'd system =
  it :: "'d iter"
  requests :: "int list"
  replies :: "('d list \<times> int) list"
  arriving :: "'d message list"
  rest :: "'d list"
  popped :: "'d list"
  caller :: caller

definition reply_calls :: "'d list \<Rightarrow> int \<Rightarrow> 'd message list" where
  "reply_calls ds c =
     (if ds = [] then [Empty c] else map (\<lambda>j. Doc (int j) (int (length ds)) c (ds ! j)) [0..<length ds])"

text \<open>
  What a server answers to a request with limit \<open>n\<close>: \<open>k\<close> of the remaining documents and a cursor, 0 for a closed
  one. No limit is 0; a negative one asks for a single batch, and a server may take 1 for -1.
\<close>

definition answers :: "int \<Rightarrow> 'd list \<Rightarrow> nat \<Rightarrow> int \<Rightarrow> bool" where
  "answers n ds k c \<longleftrightarrow> k \<le> length ds \<and> (n \<noteq> 0 \<longrightarrow> int k \<le> \<bar>n\<bar>) \<and> (ds \<noteq> [] \<longrightarrow> k > 0) \<and> (k = 0 \<longrightarrow> c = 0) \<and>
     (n < 0 \<longrightarrow> c = 0) \<and> (c = 0 \<longrightarrow> k = length ds \<or> n < 0 \<or> n = 1)"

definition wake :: "caller \<Rightarrow> caller" where
  "wake c = (if c = Waiting then Woken else c)"

definition after :: "'d outcome \<Rightarrow> caller" where
  "after out = (case out of Blocked \<Rightarrow> Waiting | Got _ \<Rightarrow> Idle | Nothing \<Rightarrow> Ended)"

definition opt_list :: "'a option \<Rightarrow> 'a list" where
  "opt_list x = (case x of None \<Rightarrow> [] | Some y \<Rightarrow> [y])"

text \<open>The steps without faults, for a program that calls \<open>Iter\<close>, and then \<open>Next\<close> until it returns false.\<close>

inductive cursor_step :: "(int \<Rightarrow> int) \<Rightarrow> 'd system \<Rightarrow> 'd system \<Rightarrow> bool" for prefetch where
  serve: "requests s = n # ns \<Longrightarrow> answers n (rest s) k c \<Longrightarrow>
    cursor_step prefetch s (s\<lparr>requests := ns, replies := replies s @ [(take k (rest s), c)], rest := drop k (rest s)\<rparr>)"
| begin_reply: "arriving s = [] \<Longrightarrow> replies s = (ds, c) # rs \<Longrightarrow> reply_calls ds c = m # ms \<Longrightarrow> replyFunc prefetch m (it s) = Inr i \<Longrightarrow>
    cursor_step prefetch s (s\<lparr>replies := rs, arriving := ms, it := i, caller := wake (caller s)\<rparr>)"
| go_on: "arriving s = m # ms \<Longrightarrow> replyFunc prefetch m (it s) = Inr i \<Longrightarrow>
    cursor_step prefetch s (s\<lparr>arriving := ms, it := i, caller := wake (caller s)\<rparr>)"
| started: "caller s = Starting \<Longrightarrow> cursor_step prefetch s (s\<lparr>it := keep_err None (it s), caller := Idle\<rparr>)"
| call: "caller s = Idle \<or> caller s = Woken \<Longrightarrow> Next (\<lambda>_. None) (\<lambda>_. None) None Sent (it s) = Inr (out, d, r, i) \<Longrightarrow>
    cursor_step prefetch s (s\<lparr>it := i, requests := requests s @ opt_list r, popped := popped s @ opt_list d, caller := after out\<rparr>)"

definition start :: "query \<Rightarrow> 'd list \<Rightarrow> 'd system" where
  "start q ds = \<lparr>it = new_iter q, requests = [q_op_limit q], replies = [], arriving = [], rest = ds, popped = [], caller = Starting\<rparr>"

inductive cursor_run :: "(int \<Rightarrow> int) \<Rightarrow> 'd system \<Rightarrow> nat \<Rightarrow> 'd system \<Rightarrow> bool" for prefetch s where
  none: "cursor_run prefetch s 0 s"
| more: "cursor_run prefetch s n t \<Longrightarrow> cursor_step prefetch t u \<Longrightarrow> cursor_run prefetch s (Suc n) u"

section \<open>Errors\<close>

lemma Pop_Some: "Pop q = Inr (Some d, w) \<Longrightarrow> Len q > 0"
  by (auto simp: Pop_def Len_def split: if_splits)

lemma locked_blocks:
  "locked i \<Longrightarrow> Next u c a k i = Inl Diverge" "locked i \<Longrightarrow> Iter_Err i = Inl Diverge" "locked i \<Longrightarrow> Iter_Close a k i = Inl Diverge"
  "locked i \<Longrightarrow> replyFunc p m i = Inl Diverge"
  by (simp_all add: Next_def Iter_Err_def Iter_Close_def replyFunc_def)

text \<open>C28: When \<open>Next\<close> has to ask for more documents before it waits, no failure of the request is reported. On a socket
  that was closed the call never returns: \<open>Query\<close> calls the callback of the iterator, which locks the mutex that
  \<open>Next\<close> holds. When no socket can be acquired the error is kept, but \<open>Next\<close> goes on to wait, with nothing to come
  that could wake it.\<close>

theorem failed_getMore_hangs:
  assumes "\<not> locked i" "ierr i = None" "cursorId i \<noteq> 0" "docsToReceive i = 0" "Len (docData i) = 0"
  shows "Next unmarshal check None (Closed e) i = Inl Diverge \<and>
    Next unmarshal check (Some e) query i = Inr (Blocked, None, None, i\<lparr>ierr := Some (Failure e)\<rparr>)"
  using assms by (simp add: Next_def waits_def getMore_def locked_blocks Let_def)

theorem failed_getMore_hangs_witness:
  "Next (\<lambda>_. None) (\<lambda>_. None) None (Closed ''EOF'') ((new_iter \<lparr>q_limit = 0, q_op_limit = 0\<rparr> :: string iter)\<lparr>cursorId := 7, docsToReceive := 0\<rparr>) = Inl Diverge"
  using failed_getMore_hangs[of "(new_iter \<lparr>q_limit = 0, q_op_limit = 0\<rparr> :: string iter)\<lparr>cursorId := 7, docsToReceive := 0\<rparr>"
      "\<lambda>_. None" "\<lambda>_. None" "''EOF''"]
  by (simp add: new_iter_def new_queue_def Len_def)

text \<open>When the cursor cannot be killed after the last document of a limit, \<open>Next\<close> returns false and drops the document,
  and it keeps the mutex: \<open>Next\<close>, \<open>Err\<close>, \<open>Close\<close> and the callback of the socket never return from then on.\<close>

theorem failed_kill_keeps_mutex:
  assumes "\<not> locked i" "limit i = 1" "cursorId i \<noteq> 0" "Pop (docData i) = Inr (Some d, w)" "Len w = 0"
  shows "\<exists>j. Next unmarshal check (Some e) query i = Inr (Nothing, Some d, None, j) \<and>
    Next u c a k j = Inl Diverge \<and> Iter_Err j = Inl Diverge \<and> Iter_Close a k j = Inl Diverge \<and> replyFunc p m j = Inl Diverge"
  using assms Pop_Some[OF assms(4)] by (simp add: Next_def waits_def killCursor_def Let_def locked_blocks)

definition one_left :: "int \<Rightarrow> string iter" where
  "one_left c = (new_iter \<lparr>q_limit = 1, q_op_limit = -1\<rparr>)\<lparr>cursorId := c, docsToReceive := 0,
     docData := \<lparr>elems = [Some ''doc''], nelems = 1, popi = 0, pushi = 0\<rparr>\<rparr>"

lemma one_left:
  "\<not> locked (one_left c)" "limit (one_left c) = 1" "cursorId (one_left c) = c"
  "Pop (docData (one_left c)) = Inr (Some ''doc'', \<lparr>elems = [None], nelems = 0, popi = 0, pushi = 0\<rparr>)"
  by (simp_all add: one_left_def new_iter_def Pop_def idx_def upd_def)

theorem failed_kill_keeps_mutex_witness:
  "\<exists>j. Next (\<lambda>_. None) (\<lambda>_. None) (Some ''no reachable servers'') Sent (one_left 7) = Inr (Nothing, Some ''doc'', None, j) \<and> Iter_Err j = Inl Diverge"
  using failed_kill_keeps_mutex[of "one_left 7" "''doc''" "\<lparr>elems = [None], nelems = 0, popi = 0, pushi = 0\<rparr>"
      "\<lambda>_. None" "\<lambda>_. None" "''no reachable servers''" Sent "\<lambda>_. None" "\<lambda>_. None" None Sent]
  by (auto simp: one_left Len_def)

text \<open>Two errors are lost. When the document that reaches the limit is the report of a failed query, \<open>Next\<close> returns
  false and \<open>Err\<close> is nil; and an error that the callback gets before \<open>Iter\<close> has stored the result of sending the query
  is overwritten, so that a failed query looks like an empty result.\<close>

theorem errors_lost:
  assumes "\<not> locked i" "limit i = 1" "cursorId i = 0" "Pop (docData i) = Inr (Some d, w)" "Len w = 0"
    and "unmarshal d = None" "check d = Some e"
  shows "(\<exists>j. Next unmarshal check a k i = Inr (Nothing, Some d, None, j) \<and> Iter_Err j = Inr None) \<and>
    (\<exists>r j. replyFunc p (Broken e) (new_iter q) = Inr r \<and>
       Next unmarshal check a k (keep_err None r) = Inr (Nothing, None, None, j) \<and> Iter_Err j = Inr None)"
proof
  show "\<exists>j. Next unmarshal check a k i = Inr (Nothing, Some d, None, j) \<and> Iter_Err j = Inr None"
    using assms Pop_Some[OF assms(4)] by (simp add: Next_def waits_def killCursor_def ask_more_def deliver_doc_def Let_def Iter_Err_def)
  show "\<exists>r j. replyFunc p (Broken e) (new_iter q) = Inr r \<and>
       Next unmarshal check a k (keep_err None r) = Inr (Nothing, None, None, j) \<and> Iter_Err j = Inr None"
    by (simp add: replyFunc_def new_iter_def Next_def waits_def keep_err_def Pop_def new_queue_def Len_def Iter_Err_def Let_def)
qed

theorem errors_lost_witness:
  "\<exists>j. Next (\<lambda>_. None) (\<lambda>_. Some ''unauthorized'') None Sent (one_left 0) = Inr (Nothing, Some ''doc'', None, j) \<and> Iter_Err j = Inr None"
  using errors_lost[of "one_left 0" "''doc''" "\<lparr>elems = [None], nelems = 0, popi = 0, pushi = 0\<rparr>" "\<lambda>_. None" "\<lambda>_. Some ''unauthorized''"
      "''unauthorized''" None Sent]
  by (auto simp: one_left Len_def)

end
