(* ===== verification/Socket_Flow.thy ===== *)
theory Socket_Flow
  imports Socket Cursor
begin

text \<open>
  What \<open>Query\<close> writes and what \<open>readLoop\<close> makes of the bytes of replies: frames with their length, number and
  kind, callbacks under the numbers that the frames carry, and every document of a reply handed to the callback of
  its request, in the order in which the iterator of \<open>Cursor\<close> takes them.
\<close>

section \<open>Frames\<close>

lemma sock_setInt32_eq: "sock_setInt32 b pos i = setInt32 pos i b"
  by (simp add: sock_setInt32_def setInt32_def le32_def)

lemma sock_addInt_eq: "sock_addInt32 b i = b @ le32 i" "sock_addInt64 b k = b @ le64 k"
  by (simp_all add: sock_addInt32_def sock_addInt64_def le32_def le64_def)

lemma getInt32_at: "length xs = pos \<Longrightarrow> getInt32 (xs @ le32 w @ ys) pos = w"
proof -
  have "getInt32 (xs @ le32 w @ ys) (length xs) = un32 (le32 w)" by (simp add: getInt32_def un32_def le32_def nth_append)
  then show "length xs = pos \<Longrightarrow> getInt32 (xs @ le32 w @ ys) pos = w" by (simp add: un32_le32)
qed

lemma getInt64_at: "length xs = pos \<Longrightarrow> getInt64 (xs @ le64 w @ ys) pos = w"
proof -
  have "getInt64 (xs @ le64 w @ ys) (length xs) = un64 (le64 w)" by (simp add: getInt64_def un64_def le64_def nth_append)
  then show "length xs = pos \<Longrightarrow> getInt64 (xs @ le64 w @ ys) pos = w" by (simp add: un64_le64)
qed

text \<open>What follows the header of an operation.\<close>

definition doc_body :: "bson \<Rightarrow> byte list go" where
  "doc_body d = (if d = Nil_value then Inr [5, 0, 0, 0, 0] else Marshal d)"

fun payload :: "'f op \<Rightarrow> byte list go" where
  "payload (UpdateOp c sel change fl) = bindE (doc_body sel) (\<lambda>s. bindE (doc_body change) (\<lambda>u.
     Inr (le32 0 @ bytes_of c @ [0] @ le32 fl @ s @ u)))"
| "payload (InsertOp c ds) = bindE (mapE doc_body ds) (\<lambda>xs. Inr (le32 0 @ bytes_of c @ [0] @ concat xs))"
| "payload (QueryOp c q skip lim sel fl f) = bindE (doc_body q) (\<lambda>x. bindE (if sel \<noteq> Nil_value then doc_body sel else Inr []) (\<lambda>s.
     Inr (le32 fl @ bytes_of c @ [0] @ le32 skip @ le32 lim @ x @ s)))"
| "payload (GetMoreOp c lim k f) = Inr (le32 0 @ bytes_of c @ [0] @ le32 lim @ le64 k)"
| "payload (DeleteOp c sel fl) = bindE (doc_body sel) (\<lambda>s. Inr (le32 0 @ bytes_of c @ [0] @ le32 fl @ s))"
| "payload (KillCursorsOp ks) = Inr (le32 0 @ le32 (of_nat (length ks)) @ concat (map le64 ks))"

definition frame :: "32 word \<Rightarrow> 'f op \<Rightarrow> byte list \<Rightarrow> byte list" where
  "frame i op x = le32 (of_nat (16 + length x)) @ le32 i @ le32 0 @ le32 (ucast (opcode op)) @ x"

lemma addBSON_eq: "addBSON b d = bindE (doc_body d) (\<lambda>x. Inr (b @ x))"
  by (simp add: addBSON_def doc_body_def)

lemma foldE_addBSON: "foldE addBSON b ds = bindE (mapE doc_body ds) (\<lambda>xs. Inr (b @ concat xs))"
  by (induction ds arbitrary: b) (simp_all add: addBSON_eq bindE_assoc)

lemma foldl_addInt64: "foldl sock_addInt64 b ks = b @ concat (map le64 ks)"
  by (induction ks arbitrary: b) (simp_all add: sock_addInt_eq)

lemma le32_ucast16: "le32 (ucast (w :: 16 word)) = [ucast w, ucast (drop_bit 8 w), 0, 0]"
proof -
  have "ucast (drop_bit 16 (ucast w :: 32 word)) = (0 :: byte)" "ucast (drop_bit 24 (ucast w :: 32 word)) = (0 :: byte)"
    "ucast (drop_bit 8 (ucast w :: 32 word)) = (ucast (drop_bit 8 w) :: byte)" "ucast (ucast w :: 32 word) = (ucast w :: byte)"
    by ((rule bit_word_eqI, auto simp: bit_simps dest: bit_imp_le_length)+)
  then show ?thesis by (simp add: le32_def)
qed

lemma le32_0: "le32 0 = [0, 0, 0, 0]"
  by (simp add: le32_def)

lemma addHeader_eq: "addHeader b opc = b @ replicate 12 0 @ le32 (ucast opc)"
  by (simp add: addHeader_def Let_def le32_ucast16 list_update_append eval_nat_numeral)

lemma serialize_eq: "serialize op buf = bindE (payload op) (\<lambda>x. Inr (buf @ replicate 12 0 @ le32 (ucast (opcode op)) @ x))"
  by (cases op) (auto simp: addHeader_eq sock_addInt_eq addCString_def addBSON_eq foldE_addBSON foldl_addInt64 bindE_assoc le32_0
      intro!: bindE_cong)

lemma serialize_op_eq:
  "serialize_op (buf, reqs) op = bindE (payload op) (\<lambda>x. Inr (buf @ frame 0 op x,
     reqs @ (case callback op of None \<Rightarrow> [] | Some f \<Rightarrow> [(length buf, f)])))"
proof -
  have "sock_setInt32 (buf @ replicate 12 0 @ le32 (ucast (opcode op)) @ x) (length buf) (of_nat (16 + length x)) = buf @ frame 0 op x" for x
    using set_le32[of buf "of_nat (16 + length x)" 0 0 0 0 "replicate 8 0 @ le32 (ucast (opcode op)) @ x"]
    by (simp add: sock_setInt32_eq frame_def le32_0 eval_nat_numeral)
  then show ?thesis by (auto simp: serialize_op_def serialize_eq bindE_assoc ac_simps intro!: bindE_cong)
qed

text \<open>The operations with their bodies, numbered.\<close>

fun places :: "nat \<Rightarrow> ('f op \<times> byte list) list \<Rightarrow> (nat \<times> 'f) list" where
  "places n [] = []"
| "places n ((op, x) # r) = (case callback op of None \<Rightarrow> [] | Some f \<Rightarrow> [(n, f)]) @ places (n + length (frame 0 op x)) r"

fun numbered :: "32 word \<Rightarrow> ('f op \<times> byte list) list \<Rightarrow> byte list list" where
  "numbered i [] = []"
| "numbered i ((op, x) # r) = (case callback op of None \<Rightarrow> frame 0 op x # numbered i r | Some f \<Rightarrow> frame i op x # numbered (i + 1) r)"

fun tabled :: "32 word \<Rightarrow> ('f op \<times> byte list) list \<Rightarrow> (32 word \<rightharpoonup> 'f) \<Rightarrow> (32 word \<rightharpoonup> 'f)" where
  "tabled i [] t = t"
| "tabled i ((op, x) # r) t = (case callback op of None \<Rightarrow> tabled i r t | Some f \<Rightarrow> tabled (i + 1) r (t(i \<mapsto> f)))"

lemma foldE_serialize_op:
  "foldE serialize_op (buf, reqs) ops = bindE (mapE payload ops) (\<lambda>xs.
     Inr (buf @ concat (map (\<lambda>(op, x). frame 0 op x) (zip ops xs)), reqs @ places (length buf) (zip ops xs)))"
  by (induction ops arbitrary: buf reqs) (auto simp: serialize_op_eq bindE_assoc intro!: bindE_cong)

lemma set_id: "sock_setInt32 (pre @ frame 0 op x @ post) (length pre + 4) i = pre @ frame i op x @ post"
  using set_le32[of "pre @ le32 (of_nat (16 + length x))" i 0 0 0 0 "le32 0 @ le32 (ucast (opcode op)) @ x @ post"]
  by (simp add: sock_setInt32_eq frame_def le32_0)

lemma enqueue_eq: "enqueue (buf, i, t) (pos, f) = (sock_setInt32 buf (pos + 4) i, i + 1, t(i \<mapsto> f))"
  by (simp add: enqueue_def)

lemma foldl_enqueue:
  "foldl enqueue (pre @ concat (map (\<lambda>(op, x). frame 0 op x) r), i, t) (places (length pre) r) =
     (pre @ concat (numbered i r), i + of_nat (length (places (length pre) r)), tabled i r t)"
proof (induction r arbitrary: pre i t)
  case (Cons p r)
  obtain op x where p: "p = (op, x)" by fastforce
  show ?case
  proof (cases "callback op")
    case None
    then show ?thesis using Cons.IH[of "pre @ frame 0 op x"] by (simp add: p)
  next
    case (Some f)
    have "length (frame 0 op x) = length (frame i op x)" by (simp add: frame_def)
    then show ?thesis using Some Cons.IH[of "pre @ frame i op x" "i + 1" "t(i \<mapsto> f)"]
      by (simp add: p enqueue_eq set_id add.assoc[of i 1] del: fun_upd_apply)
  qed
qed simp

lemma tabled_other: "(\<And>n. n < length r \<Longrightarrow> i \<noteq> k + of_nat n) \<Longrightarrow> tabled k r t i = t i"
proof (induction r arbitrary: k t)
  case (Cons p r)
  obtain op x where p: "p = (op, x)" by fastforce
  have "i \<noteq> k + 1 + of_nat n" "i \<noteq> k + of_nat n" if "n < length r" for n
    using Cons.prems[of "Suc n"] Cons.prems[of n] that by (simp_all add: ac_simps)
  then show ?case using Cons.IH Cons.prems[of 0] by (simp add: p split: option.split)
qed simp

lemma numbered_nth:
  "j < length r \<Longrightarrow> r ! j = (op, x) \<Longrightarrow> length r < 2 ^ 32 \<Longrightarrow> \<exists>i. numbered k r ! j = frame i op x \<and> (callback op = None \<longrightarrow> i = 0) \<and>
     (\<forall>f. callback op = Some f \<longrightarrow> tabled k r t i = Some f)"
proof (induction r arbitrary: j k t)
  case (Cons p r)
  obtain op' x' where p: "p = (op', x')" by fastforce
  have new: "tabled (k + 1) r t' k = t' k" for t'
  proof (rule tabled_other)
    fix n assume "n < length r"
    then have "of_nat (Suc n) \<noteq> (0 :: 32 word)" using Cons.prems(3) by (subst word_of_nat_eq_0_iff) (auto dest: dvd_imp_le)
    then show "k \<noteq> k + 1 + of_nat n" by (simp add: ac_simps)
  qed
  show ?case
  proof (cases j)
    case 0
    then show ?thesis using Cons.prems(2) new by (cases "callback op'") (auto simp: p)
  next
    case (Suc n)
    then show ?thesis using Cons.IH[of n] Cons.prems by (cases "callback op'") (auto simp: p)
  qed
qed simp

lemma length_numbered [simp]: "length (numbered k r) = length r"
  by (induction k r rule: numbered.induct) (auto split: option.split)

lemma Query_eq:
  assumes "dead s = None" "flushLogout s = (lops, s')"
  shows "Query None ops s =
    (case mapE payload (lops @ ops) of Inl e \<Rightarrow> (Some e, [], s')
     | Inr xs \<Rightarrow> (None, [], s'\<lparr>nextRequestId := first_id s' + of_nat (length (places 0 (zip (lops @ ops) xs))),
         replyFuncs := tabled (first_id s') (zip (lops @ ops) xs) (replyFuncs s'), written := written s' @ concat (numbered (first_id s') (zip (lops @ ops) xs))\<rparr>))"
proof (cases "mapE payload (lops @ ops)")
  case (Inl e)
  then show ?thesis using assms(2) by (simp add: Query_def foldE_serialize_op)
next
  case (Inr xs)
  have "dead s' = None" using assms by (auto simp: flushLogout_def)
  then show ?thesis using Inr assms(2) foldl_enqueue[of "[]" "zip (lops @ ops) xs" "first_id s'" "replyFuncs s'"]
    by (simp add: Query_def send_def foldE_serialize_op Let_def)
qed

text \<open>C17: What \<open>Query\<close> writes on a live socket is one frame for each operation, in order, after the operations that log
  out: its length, its number, zero, the kind of the operation and its body. The frame of an operation with a
  callback has a number under which the callback is registered, and the others have number 0.\<close>

theorem Query_frames:
  assumes "dead s = None" "length (logout s) + length ops < 2 ^ 32" "Query None ops s = (None, told, t)"
  shows "\<exists>frames all. all = fst (flushLogout s) @ ops \<and> written t = written s @ concat frames \<and> length frames = length all \<and>
    (\<forall>j < length all. getInt32 (frames ! j) 0 = of_nat (length (frames ! j)) \<and> getInt32 (frames ! j) 8 = 0 \<and>
       getInt32 (frames ! j) 12 = ucast (opcode (all ! j)) \<and> payload (all ! j) = Inr (drop 16 (frames ! j)) \<and>
       (case callback (all ! j) of None \<Rightarrow> getInt32 (frames ! j) 4 = 0
        | Some f \<Rightarrow> replyFuncs t (getInt32 (frames ! j) 4) = Some f))"
proof -
  obtain lops s' where fl: "flushLogout s = (lops, s')" by fastforce
  then have w: "written s' = written s" "length lops = length (logout s)" by (auto simp: flushLogout_def)
  let ?ops = "lops @ ops"
  obtain xs where xs: "mapE payload ?ops = Inr xs" and t: "t = s'\<lparr>nextRequestId := first_id s' + of_nat (length (places 0 (zip ?ops xs))),
      replyFuncs := tabled (first_id s') (zip ?ops xs) (replyFuncs s'), written := written s' @ concat (numbered (first_id s') (zip ?ops xs))\<rparr>"
    using assms(3) unfolding Query_eq[OF assms(1) fl] by (cases "mapE payload ?ops") auto
  have len: "length xs = length ?ops" by (rule mapE_length[OF xs])
  let ?frames = "numbered (first_id s') (zip ?ops xs)"
  have "getInt32 (?frames ! j) 0 = of_nat (length (?frames ! j)) \<and> getInt32 (?frames ! j) 8 = 0 \<and>
       getInt32 (?frames ! j) 12 = ucast (opcode (?ops ! j)) \<and> payload (?ops ! j) = Inr (drop 16 (?frames ! j)) \<and>
       (case callback (?ops ! j) of None \<Rightarrow> getInt32 (?frames ! j) 4 = 0
        | Some f \<Rightarrow> replyFuncs t (getInt32 (?frames ! j) 4) = Some f)" if j: "j < length ?ops" for j
  proof -
    obtain i where i: "?frames ! j = frame i (?ops ! j) (xs ! j)" "callback (?ops ! j) = None \<longrightarrow> i = 0"
        "\<forall>f. callback (?ops ! j) = Some f \<longrightarrow> replyFuncs t i = Some f"
      using numbered_nth[of j "zip ?ops xs" "?ops ! j" "xs ! j" "first_id s'" "replyFuncs s'"] j len assms(2) w(2) by (auto simp: t)
    have p: "payload (?ops ! j) = Inr (xs ! j)" using xs j by (simp only: mapE_Inr_iff list_all2_conv_all_nth)
    let ?l = "le32 (of_nat (16 + length (xs ! j)))" and ?o = "le32 (ucast (opcode (?ops ! j)))"
    have "getInt32 (frame i (?ops ! j) (xs ! j)) 0 = of_nat (16 + length (xs ! j))" "getInt32 (frame i (?ops ! j) (xs ! j)) 4 = i"
      "getInt32 (frame i (?ops ! j) (xs ! j)) 8 = 0" "getInt32 (frame i (?ops ! j) (xs ! j)) 12 = ucast (opcode (?ops ! j))"
      using getInt32_at[of "[]" 0] getInt32_at[of ?l 4 i "le32 0 @ ?o @ xs ! j"] getInt32_at[of "?l @ le32 i" 8 0 "?o @ xs ! j"]
        getInt32_at[of "?l @ le32 i @ le32 0" 12 _ "xs ! j"] by (simp_all add: frame_def)
    moreover have "length (frame i (?ops ! j) (xs ! j)) = 16 + length (xs ! j)" "drop 16 (frame i (?ops ! j) (xs ! j)) = xs ! j"
      by (simp_all add: frame_def)
    ultimately show ?thesis using i p by (auto split: option.split)
  qed
  then show ?thesis using len w(1) by (intro exI[of _ ?frames] exI[of _ ?ops]) (simp add: t fl)
qed

lemma logout_payload: "a \<in> set (fst (flushLogout s)) \<Longrightarrow> \<exists>x. payload a = Inr x"
proof -
  have "Marshal (Struct [(\<lparr>Key = ''logout'', OmitEmpty = False, MinSize = False\<rparr>, GoInt 1)]) =
      Inr [17, 0, 0, 0, 16, 108, 111, 103, 111, 117, 116, 0, 1, 0, 0, 0, 0]" by code_simp
  then show "a \<in> set (fst (flushLogout s)) \<Longrightarrow> \<exists>x. payload a = Inr x" by (auto simp: flushLogout_def doc_body_def)
qed

lemma mapE_Inl: "(\<And>a. a \<in> set xs \<Longrightarrow> \<exists>y. f a = Inr y) \<Longrightarrow> f x = Inl e \<Longrightarrow> mapE f (xs @ [x]) = Inl e"
  by (induction xs) fastforce+

lemma drop_first_not_found: "\<forall>a \<in> set as. \<not> c a \<Longrightarrow> drop_first c as = (as, False)"
  by (induction as) auto

lemma login_uncached: "a \<notin> set (auth s) \<Longrightarrow> a \<notin> set (logout s) \<Longrightarrow> login_cached a s = (False, s)"
proof -
  assume a: "a \<notin> set (auth s)" "a \<notin> set (logout s)"
  have "drop_first (\<lambda>b. b = a) (logout s) = (logout s, False)" by (rule drop_first_not_found) (use a(2) in auto)
  then show ?thesis using a(1) by (simp add: login_cached_def dropLogout_def)
qed

text \<open>C22: A login that the server refuses is an error, and yet the user is recorded as logged in: the same login on the
  same socket succeeds from then on, with the wrong password and without asking the server.\<close>

theorem refused_login_remembered:
  assumes "a \<notin> set (auth s)" "a \<notin> set (logout s)" "Login a (Refused e) s = (err, t)"
  shows "err = Some e \<and> a \<in> set (auth t) \<and> (\<forall>r. Login a r t = (None, t))"
proof -
  have "err = Some e" "a \<in> set (auth t)"
    using assms(3) by (auto simp: Login_def login_uncached[OF assms(1,2)] record_auth_def Let_def)
  then show ?thesis by (simp add: Login_def login_cached_def)
qed

text \<open>An operation that cannot be encoded makes \<open>Query\<close> forget the logouts: nothing is written, and yet the list of
  what to log out from is empty afterwards, so that the next operation runs with the rights of former users of the
  socket.\<close>

theorem failed_query_forgets_logouts:
  assumes "payload op = Inl e"
  shows "Query wr [op] s = (Some e, [], s\<lparr>logout := []\<rparr>)"
proof -
  have "mapE payload (fst (flushLogout s) @ [op]) = Inl e" by (rule mapE_Inl[where f = payload]) (use assms logout_payload in auto)
  then show ?thesis by (simp add: Query_def foldE_serialize_op split_beta) (simp add: flushLogout_def)
qed

section \<open>Replies\<close>

text \<open>A reply on the wire, as the protocol has it, and documents with their length in front.\<close>

record wire_reply =
  w_length :: "32 word"
  w_number :: "32 word"
  w_to :: "32 word"
  w_flags :: "32 word"
  w_cursor :: "64 word"
  w_first :: "32 word"
  w_docs :: "byte list list"

definition wire_header :: "wire_reply \<Rightarrow> byte list" where
  "wire_header w = le32 (w_length w) @ le32 (w_number w) @ le32 (w_to w) @ le32 1 @ le32 (w_flags w) @ le64 (w_cursor w) @
     le32 (w_first w) @ le32 (of_nat (length (w_docs w)))"

definition wire_bytes :: "wire_reply \<Rightarrow> byte list" where
  "wire_bytes w = wire_header w @ concat (w_docs w)"

definition framed :: "byte list \<Rightarrow> bool" where
  "framed d \<longleftrightarrow> 4 \<le> length d \<and> length d < 2 ^ 31 \<and> take 4 d = le32 (of_nat (length d))"

definition reply_ok :: "wire_reply \<Rightarrow> bool" where
  "reply_ok w \<longleftrightarrow> length (w_docs w) < 2 ^ 31 \<and> list_all framed (w_docs w)"

text \<open>What the callback of an iterator makes of a call.\<close>

fun call_message :: "call \<Rightarrow> byte list message" where
  "call_message (Failed e) = Broken e"
| "call_message (Given r j None) = Empty (sint (r_cursorId r))"
| "call_message (Given r j (Some d)) = Doc j (sint (r_replyDocs r)) (sint (r_cursorId r)) d"

definition reply_of :: "wire_reply \<Rightarrow> replyOp" where
  "reply_of w = \<lparr>r_flags = w_flags w, r_cursorId = w_cursor w, r_firstDoc = w_first w, r_replyDocs = of_nat (length (w_docs w))\<rparr>"

definition calls_of :: "wire_reply \<Rightarrow> call list" where
  "calls_of w = (if w_docs w = [] then [Given (reply_of w) (-1) None]
     else map (\<lambda>j. Given (reply_of w) (int j) (Some (w_docs w ! j))) [0..<length (w_docs w)])"

lemma sint_of_length: "n < 2 ^ 31 \<Longrightarrow> sint (of_nat n :: 32 word) = int n"
  using sint_sbintrunc'[of "int n", where 'a = 32] by (simp add: signed_take_bit_int_eq_self)

lemma calls_messages:
  assumes "reply_ok w"
  shows "map call_message (calls_of w) = reply_calls (w_docs w) (sint (w_cursor w))"
  using assms sint_of_length[of "length (w_docs w)"]
  by (auto simp: calls_of_def reply_calls_def reply_of_def reply_ok_def)

lemma read_docs_framed:
  "list_all framed ds \<Longrightarrow> sint (r_replyDocs r) = i + int (length ds) \<Longrightarrow>
   read_docs eof r i (concat ds @ conn) = (map (\<lambda>j. Given r (i + int j) (Some (ds ! j))) [0..<length ds], Inr conn)"
proof (induction ds arbitrary: i)
  case Nil
  then show ?case by (subst read_docs.simps) simp
next
  case (Cons d ds)
  have d: "4 \<le> length d" "length d < 2 ^ 31" "take 4 d = le32 (of_nat (length d))" using Cons.prems(1) by (simp_all add: framed_def)
  have g: "sint (getInt32 (take 4 d) 0) = int (length d)"
    using getInt32_at[of "[]" 0 "of_nat (length d)" "[]"] d(2,3) by (simp add: sint_of_length)
  have i: "fill 4 (d @ concat ds @ conn) = Some (take 4 d, drop 4 d @ concat ds @ conn)"
    "fill (length d - 4) (drop 4 d @ concat ds @ conn) = Some (drop 4 d, concat ds @ conn)" using d(1) by (simp_all add: fill_def)
  have "read_docs eof r (i + 1) (concat ds @ conn) = (map (\<lambda>j. Given r (i + 1 + int j) (Some (ds ! j))) [0..<length ds], Inr conn)"
    using Cons by simp
  moreover have "[0..<Suc (length ds)] = 0 # map Suc [0..<length ds]" by (simp add: upt_conv_Cons map_Suc_upt del: upt_Suc)
  ultimately show ?case using Cons.prems(2) g i d(1)
    by (subst read_docs.simps) (simp add: Let_def nat_diff_distrib comp_def ac_simps del: upt_Suc)
qed

lemma wire_fields:
  "getInt32 (wire_header w) 8 = w_to w" "getInt32 (wire_header w) 12 = 1" "getInt32 (wire_header w) 16 = w_flags w"
  "getInt64 (wire_header w) 20 = w_cursor w" "getInt32 (wire_header w) 28 = w_first w"
  "getInt32 (wire_header w) 32 = of_nat (length (w_docs w))" "length (wire_header w) = 36"
proof -
  let ?a = "le32 (w_length w) @ le32 (w_number w)" and ?n = "le32 (of_nat (length (w_docs w)))"
  let ?b = "?a @ le32 (w_to w)" and ?c = "?a @ le32 (w_to w) @ le32 1"
  show "getInt32 (wire_header w) 8 = w_to w"
    using getInt32_at[of ?a 8 "w_to w" "le32 1 @ le32 (w_flags w) @ le64 (w_cursor w) @ le32 (w_first w) @ ?n"] by (simp add: wire_header_def)
  show "getInt32 (wire_header w) 12 = 1"
    using getInt32_at[of ?b 12 1 "le32 (w_flags w) @ le64 (w_cursor w) @ le32 (w_first w) @ ?n"] by (simp add: wire_header_def)
  show "getInt32 (wire_header w) 16 = w_flags w"
    using getInt32_at[of ?c 16 "w_flags w" "le64 (w_cursor w) @ le32 (w_first w) @ ?n"] by (simp add: wire_header_def)
  show "getInt64 (wire_header w) 20 = w_cursor w"
    using getInt64_at[of "?c @ le32 (w_flags w)" 20 "w_cursor w" "le32 (w_first w) @ ?n"] by (simp add: wire_header_def)
  show "getInt32 (wire_header w) 28 = w_first w"
    using getInt32_at[of "?c @ le32 (w_flags w) @ le64 (w_cursor w)" 28 "w_first w" ?n] by (simp add: wire_header_def)
  show "getInt32 (wire_header w) 32 = of_nat (length (w_docs w))"
    using getInt32_at[of "?c @ le32 (w_flags w) @ le64 (w_cursor w) @ le32 (w_first w)" 32 "of_nat (length (w_docs w))" "[]"] by (simp add: wire_header_def)
  show "length (wire_header w) = 36" by (simp add: wire_header_def)
qed

lemma read_reply_wire:
  assumes "reply_ok w" "replyFuncs s (w_to w) = Some f"
  shows "read_reply eof (wire_bytes w @ conn) s =
    (map (Pair f) (calls_of w), s\<lparr>replyFuncs := (replyFuncs s)(w_to w := None)\<rparr>, Inr conn)"
proof -
  have n: "sint (of_nat (length (w_docs w)) :: 32 word) = int (length (w_docs w))" "length (w_docs w) < 2 ^ 32"
    using assms(1) sint_of_length by (auto simp: reply_ok_def)
  have z: "(of_nat (length (w_docs w)) :: 32 word) = 0 \<longleftrightarrow> w_docs w = []"
    using n(2) by (subst word_of_nat_eq_0_iff) (auto dest: dvd_imp_le)
  have "fill 36 (wire_bytes w @ conn) = Some (wire_header w, concat (w_docs w) @ conn)"
    using wire_fields(7)[of w] by (simp add: fill_def wire_bytes_def)
  moreover have "read_docs eof (reply_of w) 0 (concat (w_docs w) @ conn) =
      (map (\<lambda>j. Given (reply_of w) (int j) (Some (w_docs w ! j))) [0..<length (w_docs w)], Inr conn)"
    using read_docs_framed[of "w_docs w" "reply_of w" 0 eof conn] assms(1) n by (simp add: reply_of_def reply_ok_def)
  ultimately show ?thesis using assms(2) z
    by (simp add: read_reply_def wire_fields Let_def reply_of_def[symmetric] calls_of_def) (simp add: reply_of_def)
qed

text \<open>C16: A stream of replies to different requests, with documents that have their length in front, is taken apart
  into the calls of the callbacks registered for the requests: each gets the documents of its reply in order, as the
  iterator expects them. When the connection ends, each of the other callbacks is told, and the socket is dead.\<close>

theorem readLoop_dispatches:
  assumes "dead s = None" "list_all reply_ok ws" "distinct (map w_to ws)" "set (map w_to ws) \<subseteq> dom (replyFuncs s)"
  shows "readLoop eof (concat (map wire_bytes ws)) s =
      (concat (map (\<lambda>w. map (Pair (the (replyFuncs s (w_to w)))) (calls_of w)) ws),
       s\<lparr>replyFuncs := Map.empty, dead := Some eof, has_server := False\<rparr>, Inr (replyFuncs s |` (- set (map w_to ws)))) \<and>
    (\<forall>w \<in> set ws. map call_message (calls_of w) = reply_calls (w_docs w) (sint (w_cursor w)))"
proof
  show "\<forall>w \<in> set ws. map call_message (calls_of w) = reply_calls (w_docs w) (sint (w_cursor w))"
    using assms(2) calls_messages by (auto simp: list_all_iff)
  show "readLoop eof (concat (map wire_bytes ws)) s =
      (concat (map (\<lambda>w. map (Pair (the (replyFuncs s (w_to w)))) (calls_of w)) ws),
       s\<lparr>replyFuncs := Map.empty, dead := Some eof, has_server := False\<rparr>, Inr (replyFuncs s |` (- set (map w_to ws))))"
    using assms
  proof (induction ws arbitrary: s)
    case Nil
    have "read_reply eof [] s = ([], s, Inl (Err eof))" by (simp add: read_reply_def fill_def)
    then show ?case using Nil by (subst readLoop.simps) (simp add: kill_def restrict_map_def)
  next
    case (Cons w ws)
    obtain f where f: "replyFuncs s (w_to w) = Some f" using Cons.prems(4) by auto
    let ?s = "s\<lparr>replyFuncs := (replyFuncs s)(w_to w := None)\<rparr>"
    have keep: "replyFuncs ?s (w_to v) = replyFuncs s (w_to v)" if "v \<in> set ws" for v
      using imageI[OF that, of w_to] Cons.prems(3) by auto
    have calls: "map (\<lambda>v. map (Pair (the (replyFuncs ?s (w_to v)))) (calls_of v)) ws =
        map (\<lambda>v. map (Pair (the (replyFuncs s (w_to v)))) (calls_of v)) ws"
      using keep by (intro map_cong refl) metis
    have sub: "set (map w_to ws) \<subseteq> dom (replyFuncs ?s)" using Cons.prems(4) keep by (force simp: dom_def)
    have "readLoop eof (concat (map wire_bytes ws)) ?s =
      (concat (map (\<lambda>v. map (Pair (the (replyFuncs ?s (w_to v)))) (calls_of v)) ws),
       ?s\<lparr>replyFuncs := Map.empty, dead := Some eof, has_server := False\<rparr>, Inr (replyFuncs ?s |` (- set (map w_to ws))))"
      by (rule Cons.IH[OF _ _ _ sub]) (use Cons.prems in simp_all)
    then have "readLoop eof (concat (map wire_bytes ws)) ?s =
      (concat (map (\<lambda>v. map (Pair (the (replyFuncs s (w_to v)))) (calls_of v)) ws),
       s\<lparr>replyFuncs := Map.empty, dead := Some eof, has_server := False\<rparr>, Inr ((replyFuncs s)(w_to w := None) |` (- set (map w_to ws))))"
      unfolding calls by (simp del: fun_upd_apply)
    moreover have "(replyFuncs s)(w_to w := None) |` (- set (map w_to ws)) = replyFuncs s |` (- set (map w_to (w # ws)))"
      by (auto simp: restrict_map_def)
    ultimately show ?case using read_reply_wire[of w s f eof "concat (map wire_bytes ws)"] Cons.prems(2) f
      by (subst readLoop.simps) simp
  qed
qed

text \<open>The length in front of a document is trusted: a reply to any request whose first document claims fewer than
  four bytes makes the goroutine panic, and with it the program.\<close>

theorem short_document_panics:
  assumes "reply_ok w" "w_docs w \<noteq> []" "sint n < 4"
  shows "\<exists>e. readLoop eof (wire_header w @ le32 n @ conn) s = ([], s, Inl (Panic e))"
proof -
  have l: "sint (of_nat (length (w_docs w)) :: 32 word) = int (length (w_docs w))" "(of_nat (length (w_docs w)) :: 32 word) \<noteq> 0"
    using assms(1,2) sint_of_length[of "length (w_docs w)"] by (auto simp: reply_ok_def)
  have h: "fill 36 (wire_header w @ le32 n @ conn) = Some (wire_header w, le32 n @ conn)"
    using wire_fields(7)[of w] by (simp add: fill_def)
  have "\<exists>e. read_docs eof (reply_of w) 0 (le32 n @ conn) = ([], Inl (Panic e))"
    using assms(2,3) l(1) getInt32_at[of "[]" 0 n "[]"] by (subst read_docs.simps) (auto simp: fill_def reply_of_def Let_def)
  then obtain e where e: "read_docs eof (reply_of w) 0 (le32 n @ conn) = ([], Inl (Panic e))" by blast
  have "read_reply eof (wire_header w @ le32 n @ conn) s = ([], s, Inl (Panic e))"
    using e l(2) by (cases "replyFuncs s (w_to w)") (simp_all add: read_reply_def h wire_fields Let_def reply_of_def)
  then show ?thesis by (subst readLoop.simps) simp
qed

section \<open>Examples\<close>

definition live :: "(32 word \<rightharpoonup> 'f) \<Rightarrow> 'f sock" where
  "live t = \<lparr>nextRequestId = 0, replyFuncs = t, references = 1, auth = [], logout = [], dead = None, has_server = True, written = []\<rparr>"

theorem Query_frames_witness:
  "\<exists>t frames. Query None [InsertOp ''db.c'' [D [(''n'', GoInt 1)]], GetMoreOp ''db.c'' 2 7 (Some ''f'')] (live Map.empty) = (None, [], t) \<and>
     written t = concat frames \<and> length frames = 2 \<and> replyFuncs t (getInt32 (frames ! 1) 4) = Some ''f''"
proof -
  let ?ops = "[InsertOp ''db.c'' [D [(''n'', GoInt 1)]], GetMoreOp ''db.c'' 2 7 (Some ''f'')]"
  have m: "Marshal (D [(''n'', GoInt 1)]) = Inr [12, 0, 0, 0, 16, 110, 0, 1, 0, 0, 0, 0]" by code_simp
  then have "\<exists>t. Query None ?ops (live Map.empty) = (None, [], t)" by (simp add: Query_eq live_def doc_body_def flushLogout_def)
  then obtain t where t: "Query None ?ops (live Map.empty) = (None, [], t)" by blast
  obtain frames where f: "written t = written (live Map.empty :: string sock) @ concat frames" "length frames = length ?ops"
      "\<forall>j < length ?ops. case callback (?ops ! j) of None \<Rightarrow> getInt32 (frames ! j) 4 = 0 | Some f \<Rightarrow> replyFuncs t (getInt32 (frames ! j) 4) = Some f"
    using Query_frames[of "live Map.empty" ?ops "[]" t] t by (auto simp: live_def flushLogout_def)
  show ?thesis using t f(1,2) f(3)[rule_format, of 1] by (intro exI[of _ t] exI[of _ frames]) (simp add: live_def)
qed

definition two_docs :: wire_reply where
  "two_docs = \<lparr>w_length = 0, w_number = 9, w_to = 1, w_flags = 0, w_cursor = 7, w_first = 0, w_docs = [[5, 0, 0, 0, 0], [5, 0, 0, 0, 0]]\<rparr>"

theorem readLoop_dispatches_witness:
  "\<exists>calls t. readLoop ''EOF'' (wire_bytes two_docs) (live [1 \<mapsto> ''f'', 2 \<mapsto> ''g'']) = (map (Pair ''f'') calls, t, Inr [2 \<mapsto> ''g'']) \<and>
     map call_message calls = [Doc 0 2 7 [5, 0, 0, 0, 0], Doc 1 2 7 [5, 0, 0, 0, 0]]"
proof -
  have ok: "list_all reply_ok [two_docs]" by (simp add: reply_ok_def framed_def two_docs_def le32_def)
  have r: "[1 \<mapsto> ''f'', 2 \<mapsto> ''g''] |` (- {1 :: 32 word}) = [2 \<mapsto> ''g'']" by (auto simp: restrict_map_def)
  have "reply_calls (w_docs two_docs) (sint (w_cursor two_docs)) = [Doc 0 2 7 [5, 0, 0, 0, 0], Doc 1 2 7 [5, 0, 0, 0, 0]]"
    by (simp add: two_docs_def reply_calls_def)
  then show ?thesis
    using readLoop_dispatches[OF _ ok, of "live [1 \<mapsto> ''f'', 2 \<mapsto> ''g'']" "''EOF''"] r
    by (intro exI[of _ "calls_of two_docs"]) (simp add: live_def two_docs_def)
qed

theorem short_document_panics_witness:
  "\<exists>e. readLoop ''EOF'' (wire_header two_docs @ le32 3 @ []) (live Map.empty :: string sock) = ([], live Map.empty, Inl (Panic e))"
  by (rule short_document_panics) (simp_all add: reply_ok_def framed_def two_docs_def le32_def)

theorem failed_query_forgets_logouts_witness:
  "\<exists>t. Query None [DeleteOp ''db.c'' (String ''x'') 0] (live Map.empty\<lparr>logout := [\<lparr>db = ''d'', user = ''u'', pass = ''p''\<rparr>]\<rparr> :: string sock) =
     (Some (Err ''Can't marshal as a BSON document''), [], t) \<and> logout t = [] \<and> written t = []"
proof -
  have "Marshal (String ''x'') = Inl (Err ''Can't marshal as a BSON document'')" by code_simp
  then have "payload (DeleteOp ''db.c'' (String ''x'') 0) = Inl (Err ''Can't marshal as a BSON document'')" by (simp add: doc_body_def)
  from failed_query_forgets_logouts[OF this, of None "live Map.empty\<lparr>logout := [\<lparr>db = ''d'', user = ''u'', pass = ''p''\<rparr>]\<rparr> :: string sock"]
  show ?thesis by (simp add: live_def)
qed

theorem refused_login_remembered_witness:
  "\<exists>t. Login \<lparr>db = ''d'', user = ''u'', pass = ''wrong''\<rparr> (Refused ''auth fails'') (live Map.empty :: string sock) = (Some ''auth fails'', t) \<and>
     Login \<lparr>db = ''d'', user = ''u'', pass = ''wrong''\<rparr> Accepted t = (None, t)"
proof -
  let ?a = "\<lparr>db = ''d'', user = ''u'', pass = ''wrong''\<rparr>" and ?s = "live Map.empty :: string sock"
  obtain err t where r: "Login ?a (Refused ''auth fails'') ?s = (err, t)" by fastforce
  from refused_login_remembered[OF _ _ r] show ?thesis using r by (simp add: live_def)
qed

end
