(* ===== verification/Cursor_Flow.thy ===== *)
theory Cursor_Flow
  imports Cursor
begin

text \<open>
  The iterator, the socket and the server together: the invariant of their steps, and what it gives. A query whose
  limits are those that the builders of a query make (except a batch above the limit) is answered completely, in
  order, after a bounded number of steps, and without a panic.
\<close>

section \<open>The invariant\<close>

fun msg_docs :: "'d message list \<Rightarrow> 'd list" where
  "msg_docs [] = []"
| "msg_docs (Doc _ _ _ d # ms) = d # msg_docs ms"
| "msg_docs (_ # ms) = msg_docs ms"

definition later :: "'d message \<Rightarrow> bool" where
  "later m = (case m of Doc j _ _ _ \<Rightarrow> j > 0 | _ \<Rightarrow> False)"

definition coming :: "'d system \<Rightarrow> nat" where
  "coming s = Len (docData (it s)) + length (arriving s) + length (concat (map fst (replies s)))"

text \<open>With a negative limit the server sends a single batch, of which it chooses the size.\<close>

definition single :: "query \<Rightarrow> bool" where
  "single q \<longleftrightarrow> q_op_limit q < 0 \<and> q_limit q \<noteq> 1"

definition query_ok :: "query \<Rightarrow> bool" where
  "query_ok q \<longleftrightarrow> 0 \<le> q_limit q \<and> q_limit q < 2 ^ 31 \<and> q_op_limit q \<noteq> 1 \<and>
     (q_limit q > 0 \<longrightarrow> q_op_limit q \<noteq> 0 \<and> \<bar>q_op_limit q\<bar> \<le> q_limit q)"

definition covered :: "query \<Rightarrow> 'd system \<Rightarrow> nat \<Rightarrow> bool" where
  "covered q s n \<longleftrightarrow> rest s = [] \<or> single q \<or> (0 < limit (it s) \<and> limit (it s) \<le> int n)"

definition flow_ok :: "'d list \<Rightarrow> 'd system \<Rightarrow> bool" where
  "flow_ok ds s \<longleftrightarrow> queue_ok (docData (it s)) \<and> \<not> locked (it s) \<and> None \<notin> set (contents (docData (it s))) \<and>
     popped s @ map the (contents (docData (it s))) @ msg_docs (arriving s) @ concat (map fst (replies s)) @ rest s = ds \<and>
     list_all later (arriving s)"

definition asked_ok :: "'d system \<Rightarrow> bool" where
  "asked_ok s \<longleftrightarrow> docsToReceive (it s) = int (length (arriving s) + length (replies s) + length (requests s)) \<and>
     length (replies s) + length (requests s) \<le> 1 \<and>
     (\<forall>n \<in> set (requests s). n = op_limit (it s)) \<and>
     (ierr (it s) = None \<longrightarrow> Len (docData (it s)) > 0 \<or> arriving s \<noteq> [] \<longrightarrow> docsBeforeMore (it s) \<ge> 0 \<longrightarrow>
        replies s = [] \<and> requests s = [])"

definition limit_ok :: "query \<Rightarrow> 'd system \<Rightarrow> bool" where
  "limit_ok q s \<longleftrightarrow>
     (if q_limit q = 0 then limit (it s) = 0 \<and> op_limit (it s) = q_op_limit q
      else limit (it s) + int (length (popped s)) = q_limit q \<and> op_limit (it s) \<noteq> 0 \<and> \<bar>op_limit (it s)\<bar> \<le> q_limit q \<and>
        int (coming s) + (\<Sum>n \<leftarrow> requests s. \<bar>n\<bar>) \<le> limit (it s) \<and>
        (replies s \<noteq> [] \<or> requests s \<noteq> [] \<longrightarrow> int (Len (docData (it s)) + length (arriving s)) < limit (it s)) \<and>
        (ierr (it s) = None \<longrightarrow> 0 < limit (it s) \<and>
          (Len (docData (it s)) > 0 \<or> arriving s \<noteq> [] \<longrightarrow> docsBeforeMore (it s) \<ge> 0 \<longrightarrow> int (coming s) < limit (it s))))"

definition close_ok :: "query \<Rightarrow> 'd system \<Rightarrow> bool" where
  "close_ok q s \<longleftrightarrow>
     (op_limit (it s) < 0 \<longrightarrow> cursorId (it s) = 0 \<and> (\<forall>(ds, c) \<in> set (replies s). c = 0)) \<and>
     (\<forall>(ds, c) \<in> set (replies s). (ds = [] \<longrightarrow> c = 0 \<and> rest s = []) \<and> (c = 0 \<longrightarrow> covered q s (coming s))) \<and>
     (ierr (it s) = None \<longrightarrow>
       (op_limit (it s) < 0 \<or> op_limit (it s) = 1 \<longrightarrow> covered q s (coming s + length (requests s))) \<and>
       (cursorId (it s) = 0 \<longrightarrow> replies s = [] \<longrightarrow> requests s = [] \<longrightarrow> covered q s (coming s)))"

definition done_ok :: "query \<Rightarrow> 'd system \<Rightarrow> bool" where
  "done_ok q s \<longleftrightarrow>
     (ierr (it s) \<noteq> None \<longrightarrow> ierr (it s) = Some ErrNotFound \<and> replies s = [] \<and> requests s = [] \<and> arriving s = [] \<and>
        (rest s = [] \<or> single q \<or> q_limit q > 0 \<and> limit (it s) = 0)) \<and>
     (caller s = Starting \<longrightarrow> popped s = [] \<and>
        (ierr (it s) \<noteq> None \<or> replies s \<noteq> [] \<or> requests s \<noteq> [] \<longrightarrow>
          cursorId (it s) = 0 \<and> Len (docData (it s)) = 0 \<and> arriving s = [])) \<and>
     (caller s = Waiting \<longrightarrow> waits (it s) \<and> docsToReceive (it s) > 0) \<and>
     (caller s = Ended \<longrightarrow> ierr (it s) \<noteq> None \<and> Len (docData (it s)) = 0)"

definition cursor_ok :: "query \<Rightarrow> 'd list \<Rightarrow> 'd system \<Rightarrow> bool" where
  "cursor_ok q ds s \<longleftrightarrow> flow_ok ds s \<and> asked_ok s \<and> limit_ok q s \<and> close_ok q s \<and> done_ok q s"

lemmas cursor_ok_defs = cursor_ok_def flow_ok_def asked_ok_def limit_ok_def close_ok_def done_ok_def covered_def coming_def

lemma close_okI:
  assumes "op_limit (it s) < 0 \<Longrightarrow> cursorId (it s) = 0 \<and> (\<forall>(es, c) \<in> set (replies s). c = 0)"
    and "\<And>c. ([], c) \<in> set (replies s) \<Longrightarrow> c = 0 \<and> rest s = []"
    and "\<And>es. (es, 0) \<in> set (replies s) \<Longrightarrow> covered q s (coming s)"
    and "ierr (it s) = None \<Longrightarrow> op_limit (it s) < 0 \<or> op_limit (it s) = 1 \<Longrightarrow> covered q s (coming s + length (requests s))"
    and "ierr (it s) = None \<Longrightarrow> cursorId (it s) = 0 \<Longrightarrow> replies s = [] \<Longrightarrow> requests s = [] \<Longrightarrow> covered q s (coming s)"
  shows "close_ok q s"
  using assms by (auto simp: close_ok_def)

lemma close_okD:
  assumes "close_ok q s"
  shows "op_limit (it s) < 0 \<Longrightarrow> cursorId (it s) = 0 \<and> (\<forall>(es, c) \<in> set (replies s). c = 0)"
    and "([], c) \<in> set (replies s) \<Longrightarrow> c = 0 \<and> rest s = []"
    and "(es, 0) \<in> set (replies s) \<Longrightarrow> covered q s (coming s)"
    and "ierr (it s) = None \<Longrightarrow> op_limit (it s) < 0 \<or> op_limit (it s) = 1 \<Longrightarrow> covered q s (coming s + length (requests s))"
    and "ierr (it s) = None \<Longrightarrow> cursorId (it s) = 0 \<Longrightarrow> replies s = [] \<Longrightarrow> requests s = [] \<Longrightarrow> covered q s (coming s)"
  using assms by (auto simp: close_ok_def)

lemma frame_caller:
  "flow_ok ds (s\<lparr>caller := c\<rparr>) = flow_ok ds s" "asked_ok (s\<lparr>caller := c\<rparr>) = asked_ok s"
  "limit_ok q (s\<lparr>caller := c\<rparr>) = limit_ok q s" "close_ok q (s\<lparr>caller := c\<rparr>) = close_ok q s"
  by (simp_all add: flow_ok_def asked_ok_def limit_ok_def close_ok_def coming_def covered_def)

lemma done_okD:
  assumes "done_ok q s" "ierr (it s) \<noteq> None"
  shows "ierr (it s) = Some ErrNotFound" "replies s = []" "requests s = []" "arriving s = []"
    "rest s = [] \<or> single q \<or> q_limit q > 0 \<and> limit (it s) = 0"
    "caller s = Starting \<Longrightarrow> popped s = []" "caller s = Starting \<Longrightarrow> Len (docData (it s)) = 0" "caller s \<noteq> Waiting"
  using assms unfolding done_ok_def waits_def by metis+

lemma asked_quiet:
  assumes "asked_ok s" "docsToReceive (it s) \<le> 0"
  shows "arriving s = []" "replies s = []" "requests s = []"
proof -
  have "int (length (arriving s) + length (replies s) + length (requests s)) \<le> 0" using assms by (simp add: asked_ok_def)
  then have "length (arriving s) + length (replies s) + length (requests s) = 0" by linarith
  then show "arriving s = []" "replies s = []" "requests s = []" by simp_all
qed

lemma start_ok: "query_ok q \<Longrightarrow> cursor_ok q ds (start q ds)"
proof -
  have "Len new_queue = 0" by (simp add: Len_def new_queue_def)
  then show "query_ok q \<Longrightarrow> cursor_ok q ds (start q ds)"
    by (auto simp: cursor_ok_defs start_def new_iter_def query_ok_def new_queue_ok single_def)
qed

lemma serve_ok:
  assumes "query_ok q" "cursor_ok q ds s" and r: "requests s = n # ns" "answers n (rest s) k c"
  shows "cursor_ok q ds (s\<lparr>requests := ns, replies := replies s @ [(take k (rest s), c)], rest := drop k (rest s)\<rparr>)"
proof -
  let ?s = "s\<lparr>requests := ns, replies := replies s @ [(take k (rest s), c)], rest := drop k (rest s)\<rparr>"
  have o: "ns = []" "replies s = []" "n = op_limit (it s)" using assms by (auto simp: cursor_ok_def asked_ok_def)
  have b: "ierr (it s) = None \<Longrightarrow> Len (docData (it s)) > 0 \<or> arriving s \<noteq> [] \<Longrightarrow> \<not> docsBeforeMore (it s) \<ge> 0"
    using assms by (auto simp: cursor_ok_def asked_ok_def)
  have k: "n \<noteq> 0 \<Longrightarrow> int k \<le> \<bar>n\<bar>" "min (length (rest s)) k = k" using r by (auto simp: answers_def)
  have "flow_ok ds ?s" using assms o by (auto simp: cursor_ok_def flow_ok_def)
  moreover have "asked_ok ?s" using assms o by (auto simp: cursor_ok_def asked_ok_def)
  moreover have "limit_ok q ?s" using assms(2) r(1) o b k
    by (cases "q_limit q = 0") (simp_all add: cursor_ok_def limit_ok_def coming_def)
  moreover have "close_ok q ?s"
  proof (rule close_okI)
    have c: "close_ok q s" using assms(2) by (simp add: cursor_ok_def)
    have e: "ierr (it s) = None" using assms(2) r(1) by (auto simp: cursor_ok_def done_ok_def)
    have n: "covered q ?s (coming ?s)" if "n < 0 \<or> n = 1"
    proof (cases "rest s = []")
      case False
      then have "k > 0" using r(2) by (simp add: answers_def)
      then show ?thesis using close_okD(4)[OF c e] that o r(1) k(2) by (auto simp: covered_def coming_def)
    qed (simp add: covered_def)
    then show "covered q ?s (coming ?s + length (requests ?s))" if "op_limit (it ?s) < 0 \<or> op_limit (it ?s) = 1"
      using that o by (auto simp: covered_def)
    show "covered q ?s (coming ?s)" if "(es, 0) \<in> set (replies ?s)" for es
    proof (cases "n < 0 \<or> n = 1")
      case True
      then show ?thesis by (rule n)
    next
      case False
      then show ?thesis using that o(2) r(2) by (auto simp: answers_def covered_def)
    qed
  qed (use close_okD(1)[of q s] assms(2) r o k in \<open>auto simp: cursor_ok_def answers_def\<close>)
  moreover have "done_ok q ?s" using assms o by (auto simp: cursor_ok_def done_ok_def)
  ultimately show ?thesis by (simp add: cursor_ok_def)
qed

lemma Len_Push: "contents q' = contents q @ [x] \<Longrightarrow> Len q' = Suc (Len q)"
  by (metis length_contents length_append_singleton)

lemma replyFunc_Doc:
  assumes "queue_ok (docData i)" "\<not> locked i"
  obtains q where "queue_ok q" "contents q = contents (docData i) @ [Some d]" "Len q = Suc (Len (docData i))"
    "j \<noteq> 0 \<Longrightarrow> replyFunc p (Doc j r c d) i = Inr (i\<lparr>docsToReceive := docsToReceive i - 1, docData := q\<rparr>)"
    "replyFunc p (Doc 0 r c d) i = Inr (i\<lparr>docsToReceive := docsToReceive i - 1 + (r - 1), docData := q, cursorId := c,
        docsBeforeMore := (if limit i = 0 \<or> int32 (int (Len (docData i)) + r) < limit i
          then int (Len (docData i)) + r - p r else -1)\<rparr>)"
proof -
  obtain q where "Push (Some d) (docData i) = Inr q" "queue_ok q" "contents q = contents (docData i) @ [Some d]"
    using Push_ok[OF assms(1)] by metis
  then show ?thesis using that[of q] assms(2) by (simp add: replyFunc_def Let_def Len_Push)
qed

lemma go_on_ok:
  assumes "cursor_ok q ds s" "arriving s = m # ms" "replyFunc p m (it s) = Inr i"
  shows "cursor_ok q ds (s\<lparr>arriving := ms, it := i, caller := wake (caller s)\<rparr>)"
proof -
  have f: "queue_ok (docData (it s))" "\<not> locked (it s)" "later m" using assms(1,2) by (auto simp: cursor_ok_def flow_ok_def)
  then obtain j r c d where m: "m = Doc j r c d" "j \<noteq> 0" by (auto simp: later_def split: message.splits)
  obtain w where w: "queue_ok w" "contents w = contents (docData (it s)) @ [Some d]" "Len w = Suc (Len (docData (it s)))"
    "i = (it s)\<lparr>docsToReceive := docsToReceive (it s) - 1, docData := w\<rparr>"
    using replyFunc_Doc[OF f(1,2), of d j p r c] assms(3) m by auto
  let ?s = "s\<lparr>arriving := ms, it := i, caller := wake (caller s)\<rparr>"
  have e: "ierr (it s) = None" using assms(1,2) by (auto simp: cursor_ok_def done_ok_def)
  have n: "coming ?s = coming s" using w assms(2) by (simp add: coming_def)
  have v: "covered q ?s l = covered q s l" for l using w by (simp add: covered_def)
  have "flow_ok ds ?s" using assms(1,2) w m by (auto simp: cursor_ok_def flow_ok_def)
  moreover have "asked_ok ?s" using assms(1,2) w by (auto simp: cursor_ok_def asked_ok_def)
  moreover have "limit_ok q ?s" using assms(1,2) w n by (auto simp: cursor_ok_def limit_ok_def)
  moreover have "close_ok q ?s" using assms(1) w n v by (auto simp: cursor_ok_def close_ok_def)
  moreover have "done_ok q ?s" using assms(1,2) w e by (auto simp: cursor_ok_def done_ok_def wake_def)
  ultimately show ?thesis by (simp add: cursor_ok_def)
qed

lemma int32_small: "0 \<le> n \<Longrightarrow> n < 2 ^ 31 \<Longrightarrow> int32 n = n"
  by (simp add: int32_def sint_sbintrunc' signed_take_bit_int_eq_self)

lemma reply_calls_Cons:
  "reply_calls (d # ds) c = Doc 0 (1 + int (length ds)) c d # map (\<lambda>j. Doc (int j) (1 + int (length ds)) c ((d # ds) ! j)) [1..<Suc (length ds)]"
  by (simp add: reply_calls_def upt_conv_Cons del: upt_Suc)

lemma msg_docs_later:
  "msg_docs (map (\<lambda>j. Doc (int j) r c ((d # ds) ! j)) [1..<Suc (length ds)]) = ds"
proof -
  have "msg_docs (map (\<lambda>j. Doc (f j) r c (g j)) js) = map g js" for f :: "nat \<Rightarrow> int" and g js
    by (induction js) auto
  then have "msg_docs (map (\<lambda>j. Doc (int j) r c ((d # ds) ! j)) [1..<Suc (length ds)]) = map ((!) (d # ds)) [1..<Suc (length ds)]" by blast
  also have "\<dots> = ds" by (rule nth_equalityI) (auto simp del: upt_Suc)
  finally show ?thesis .
qed

lemma begin_empty_ok:
  assumes "cursor_ok q ds s" "arriving s = []" "replies s = ([], c) # rs" "replyFunc p (Empty c) (it s) = Inr i"
  shows "cursor_ok q ds (s\<lparr>replies := rs, arriving := [], it := i, caller := wake (caller s)\<rparr>)"
proof -
  have o: "rs = []" "requests s = []" "c = 0" "rest s = []" "\<not> locked (it s)" "ierr (it s) = None"
    using assms(1,3) by (auto simp: cursor_ok_def asked_ok_def close_ok_def flow_ok_def done_ok_def)
  have i: "i = (it s)\<lparr>docsToReceive := docsToReceive (it s) - 1, ierr := Some ErrNotFound\<rparr>"
    using assms(4) o by (simp add: replyFunc_def)
  let ?s = "s\<lparr>replies := rs, arriving := [], it := i, caller := wake (caller s)\<rparr>"
  have "flow_ok ds ?s" using assms(1-3) i o by (auto simp: cursor_ok_def flow_ok_def)
  moreover have "asked_ok ?s" using assms(1-3) i o by (auto simp: cursor_ok_def asked_ok_def)
  moreover have "limit_ok q ?s" using assms(1-3) i o by (auto simp: cursor_ok_def limit_ok_def coming_def)
  moreover have "close_ok q ?s" using assms(1) i o by (auto simp: cursor_ok_def close_ok_def)
  moreover have "done_ok q ?s" using assms(1-3) i o by (auto simp: cursor_ok_def done_ok_def wake_def)
  ultimately show ?thesis by (simp add: cursor_ok_def)
qed

lemma begin_docs_ok:
  assumes q: "query_ok q" and "cursor_ok q ds s" "arriving s = []" "replies s = (d # es, c) # rs" "reply_calls (d # es) c = m # ms" "replyFunc p m (it s) = Inr i"
  shows "cursor_ok q ds (s\<lparr>replies := rs, arriving := ms, it := i, caller := wake (caller s)\<rparr>)"
proof -
  let ?r = "1 + int (length es)" and ?l = "Len (docData (it s))"
  have f: "queue_ok (docData (it s))" "\<not> locked (it s)" using assms(2) by (auto simp: cursor_ok_def flow_ok_def)
  have o: "rs = []" "requests s = []" "ierr (it s) = None"
    using assms(2,4) by (auto simp: cursor_ok_def asked_ok_def done_ok_def)
  have m: "m = Doc 0 ?r c d" and e: "ms = map (\<lambda>j. Doc (int j) ?r c ((d # es) ! j)) [1..<Suc (length es)]"
    using assms(5) by (simp_all add: reply_calls_Cons)
  have "list_all later ms" unfolding e list_all_iff by (auto simp: later_def simp del: upt_Suc)
  moreover have "length ms = length es" unfolding e by (simp del: upt_Suc)
  ultimately have ms: "msg_docs ms = es" "list_all later ms" "length ms = length es"
    using msg_docs_later[of ?r c d es] by (simp_all add: e)
  obtain w where w: "queue_ok w" "contents w = contents (docData (it s)) @ [Some d]" "Len w = Suc ?l"
    and i: "i = (it s)\<lparr>docsToReceive := docsToReceive (it s) - 1 + (?r - 1), docData := w, cursorId := c,
        docsBeforeMore := (if limit (it s) = 0 \<or> int32 (int ?l + ?r) < limit (it s) then int ?l + ?r - p ?r else -1)\<rparr>"
    using replyFunc_Doc[OF f, of d 0 p ?r c] assms(6) m by auto
  let ?s = "s\<lparr>replies := rs, arriving := ms, it := i, caller := wake (caller s)\<rparr>"
  have n: "coming ?s = coming s" using w i assms(3,4) ms o(1) by (simp add: coming_def)
  have small: "int32 (int ?l + ?r) = int (coming s)" if "q_limit q \<noteq> 0"
  proof -
    have "int (coming s) < 2 ^ 31"
      using that q assms(2) by (auto simp: cursor_ok_def limit_ok_def query_ok_def o)
    moreover have "int (coming s) = int ?l + ?r" using assms(3,4) o(1) by (simp add: coming_def)
    ultimately show ?thesis by (simp add: int32_small)
  qed
  have v: "covered q ?s l = covered q s l" for l using i by (simp add: covered_def)
  have "flow_ok ds ?s" using assms(2-4) w i ms o by (auto simp: cursor_ok_def flow_ok_def)
  moreover have "asked_ok ?s" using assms(2-4) w i ms o by (auto simp: cursor_ok_def asked_ok_def)
  moreover have "limit_ok q ?s" using assms(2) w i n small o by (auto simp: cursor_ok_def limit_ok_def)
  moreover have "close_ok q ?s"
  proof (rule close_okI)
    have cl: "close_ok q s" using assms(2) by (simp add: cursor_ok_def)
    show "covered q ?s (coming ?s + length (requests ?s))" if "op_limit (it ?s) < 0 \<or> op_limit (it ?s) = 1"
      using close_okD(4)[OF cl o(3)] that i n v o by simp
    show "covered q ?s (coming ?s)" if "cursorId (it ?s) = 0"
      using close_okD(3)[OF cl] that i n v assms(4) by auto
  qed (use close_okD(1)[of q s] assms(2,4) i o in \<open>auto simp: cursor_ok_def\<close>)
  moreover have "done_ok q ?s" using assms(2-4) w i o by (auto simp: cursor_ok_def done_ok_def wake_def)
  ultimately show ?thesis by (simp add: cursor_ok_def)
qed

lemma started_ok:
  assumes "cursor_ok q ds s" "caller s = Starting" and q: "query_ok q"
  shows "cursor_ok q ds (s\<lparr>it := keep_err None (it s), caller := Idle\<rparr>)"
proof (cases "ierr (it s) = None")
  case True
  then have "s\<lparr>it := keep_err None (it s), caller := Idle\<rparr> = s\<lparr>caller := Idle\<rparr>" by (simp add: keep_err_def)
  moreover have "done_ok q (s\<lparr>caller := Idle\<rparr>)" using True by (simp add: done_ok_def)
  ultimately show ?thesis using assms(1) by (simp add: cursor_ok_def frame_caller)
next
  case False
  let ?s = "s\<lparr>it := keep_err None (it s), caller := Idle\<rparr>"
  have d: "done_ok q s" using assms(1) by (simp add: cursor_ok_def)
  note o = done_okD(2-5)[OF d False] done_okD(6,7)[OF d False assms(2)]
  have l: "limit (it s) = q_limit q" "q_limit q \<ge> 0"
    using assms(1) o q by (auto simp: cursor_ok_def limit_ok_def query_ok_def split: if_splits)
  have "flow_ok ds ?s" using assms(1) by (simp add: cursor_ok_def flow_ok_def keep_err_def)
  moreover have "asked_ok ?s" using assms(1) o by (simp add: cursor_ok_def asked_ok_def keep_err_def)
  moreover have "limit_ok q ?s" using assms(1) o l by (auto simp: cursor_ok_def limit_ok_def keep_err_def coming_def)
  moreover have "close_ok q ?s"
    using close_okD(1)[of q s] assms(1) o l by (intro close_okI) (auto simp: cursor_ok_def keep_err_def covered_def)
  moreover have "done_ok q ?s" using o by (simp add: done_ok_def keep_err_def)
  ultimately show ?thesis by (simp add: cursor_ok_def)
qed

lemma getMore_Sent:
  "getMore None Sent i =
     (let l = int32 (limit i - docsToReceive i - int (Len (docData i)));
          i = (if limit i > 0 \<and> l < op_limit i then i\<lparr>op_limit := l\<rparr> else i)
      in Inr (i\<lparr>docsToReceive := docsToReceive i + 1\<rparr>, Some (op_limit i)))"
  by (simp add: getMore_def Let_def)

lemma covered_mono: "covered q s n \<Longrightarrow> n \<le> m \<Longrightarrow> covered q s m"
  by (auto simp: covered_def)

lemma request_ok:
  assumes s: "cursor_ok q ds s" and q: "query_ok q" and o: "replies s = []" "requests s = []"
    and e: "ierr (it s) = None" "cursorId (it s) \<noteq> 0"
    and b: "docsBeforeMore (it s) < 0 \<or> Len (docData (it s)) = 0 \<and> arriving s = []"
    and l: "q_limit q \<noteq> 0 \<Longrightarrow> int (coming s) < limit (it s)"
    and g: "getMore None Sent (it s) = Inr (i, r)" and c: "caller s \<noteq> Starting" "caller s \<noteq> Waiting"
  shows "cursor_ok q ds (s\<lparr>it := i, requests := opt_list r\<rparr>)" "docsToReceive i > 0" "waits i = waits (it s)"
proof -
  let ?s = "s\<lparr>it := i, requests := opt_list r\<rparr>"
  have D: "docsToReceive (it s) = int (length (arriving s))" using s o by (simp add: cursor_ok_def asked_ok_def)
  have "limit (it s) = 0 \<and> op_limit (it s) = q_op_limit q" if "q_limit q = 0" using s that by (simp add: cursor_ok_def limit_ok_def)
  moreover have "int32 (limit (it s) - docsToReceive (it s) - int (Len (docData (it s)))) = limit (it s) - int (coming s)" if "q_limit q \<noteq> 0"
    using s q that l[OF that] D o by (subst int32_small) (auto simp: cursor_ok_def limit_ok_def query_ok_def coming_def)
  ultimately obtain n where n: "i = (it s)\<lparr>docsToReceive := docsToReceive (it s) + 1, op_limit := n\<rparr>" "r = Some n"
    "q_limit q = 0 \<Longrightarrow> n = op_limit (it s)"
    "q_limit q \<noteq> 0 \<Longrightarrow> n = (if limit (it s) - int (coming s) < op_limit (it s) then limit (it s) - int (coming s) else op_limit (it s))"
    using g l by (cases "q_limit q = 0") (auto simp: getMore_Sent Let_def split: if_splits)
  have op: "\<not> op_limit (it s) < 0" using s e by (auto simp: cursor_ok_def close_ok_def)
  have i: "docData i = docData (it s)" "locked i = locked (it s)" "limit i = limit (it s)" "ierr i = ierr (it s)" "cursorId i = cursorId (it s)"
    "docsBeforeMore i = docsBeforeMore (it s)" "docsToReceive i = docsToReceive (it s) + 1" "op_limit i = n" "opt_list r = [n]"
    using n(1,2) by (simp_all add: opt_list_def)
  have m: "coming ?s = coming s" using i by (simp add: coming_def)
  have v: "covered q ?s l = covered q s l" for l using i by (simp add: covered_def)
  have "flow_ok ds ?s" using s i by (simp add: cursor_ok_def flow_ok_def)
  moreover have "asked_ok ?s" using s i o b D e by (auto simp: cursor_ok_def asked_ok_def)
  moreover have "limit_ok q ?s"
  proof (cases "q_limit q = 0")
    case True
    then show ?thesis using s i n(3) by (simp add: cursor_ok_def limit_ok_def)
  next
    case False
    have t: "limit_ok q s" using s by (simp add: cursor_ok_def)
    then have u: "limit (it s) + int (length (popped s)) = q_limit q" "op_limit (it s) \<noteq> 0" "\<bar>op_limit (it s)\<bar> \<le> q_limit q"
      using False by (simp_all add: limit_ok_def)
    have w: "0 < n" "n \<le> q_limit q" "n \<le> limit (it s) - int (coming s)" using n(4)[OF False] l[OF False] u op by auto
    have "int (Len (docData (it s)) + length (arriving s)) < limit (it s)" using l[OF False] by (simp add: coming_def)
    then show ?thesis unfolding limit_ok_def using False m i u w l[OF False] b by simp
  qed
  moreover have "close_ok q ?s"
  proof (rule close_okI)
    have cl: "close_ok q s" using s by (simp add: cursor_ok_def)
    show "covered q ?s (coming ?s + length (requests ?s))" if "op_limit (it ?s) < 0 \<or> op_limit (it ?s) = 1"
    proof -
      have "n = 1 \<or> n < 0" using that i by auto
      then consider "op_limit (it s) = 1" | "q_limit q \<noteq> 0" "limit (it s) - int (coming s) = 1"
        using n(3,4) op l by (cases "q_limit q = 0") (auto split: if_splits)
      then show ?thesis
      proof cases
        case 1
        then have "covered q s (coming s)" using close_okD(4)[OF cl e(1)] o by simp
        then show ?thesis using v m by (auto intro: covered_mono)
      next
        case 2
        then show ?thesis using v m i by (auto simp: covered_def)
      qed
    qed
    show "cursorId (it ?s) = 0 \<and> (\<forall>(es, c) \<in> set (replies ?s). c = 0)" if "op_limit (it ?s) < 0"
      using that i n(3,4) op l by (cases "q_limit q = 0") (auto split: if_splits)
  qed (use o e i in auto)
  moreover have "done_ok q ?s" using s i e c by (auto simp: cursor_ok_def done_ok_def)
  ultimately show "cursor_ok q ds ?s" by (simp add: cursor_ok_def)
  show "docsToReceive i > 0" using i D by simp
  show "waits i = waits (it s)" using i D e by (simp add: waits_def)
qed

lemma Pop_Cons:
  assumes "queue_ok w" "Len w > 0" "None \<notin> set (contents w)"
  obtains d w' where "Pop w = Inr (Some d, w')" "queue_ok w'" "contents w = Some d # contents w'" "Len w = Suc (Len w')"
proof -
  have ne: "contents w \<noteq> []" using assms(2) by (metis length_contents length_0_conv neq0_conv)
  then obtain d where d: "hd (contents w) = Some d" using assms(3) by (cases "contents w"; cases "hd (contents w)") auto
  have "nelems w \<noteq> 0" using assms(2) by (simp add: Len_def)
  then obtain w' where w': "Pop w = Inr (hd (contents w), w')" "queue_ok w'" "contents w' = tl (contents w)"
    using Pop_ok[OF assms(1)] by metis
  have c: "contents w = Some d # contents w'" using ne d w'(3) by (metis list.collapse)
  then have "length (contents w) = Suc (length (contents w'))" by (rule ssubst) simp
  then show ?thesis using that[OF _ w'(2) c] w'(1) d by simp
qed

definition taken :: "'d \<Rightarrow> 'd iter \<Rightarrow> 'd system \<Rightarrow> 'd system" where
  "taken d i s = s\<lparr>it := i, popped := popped s @ [d], caller := Idle\<rparr>"

lemma taken_flow:
  assumes "flow_ok ds s" "contents (docData (it s)) = Some d # contents w" "queue_ok w" "docData i = w" "\<not> locked i"
  shows "flow_ok ds (taken d i s)"
  using assms unfolding flow_ok_def by (simp add: taken_def)

lemma last_ok:
  assumes s: "cursor_ok q ds s" and q: "query_ok q" and n: "Len (docData (it s)) = Suc (Len w)" and lim: "limit (it s) = 1"
    and w: "queue_ok w" "contents (docData (it s)) = Some d # contents w"
  shows "Len w = 0" "cursor_ok q ds (taken d ((it s)\<lparr>docData := w, limit := 0, ierr := Some ErrNotFound, cursorId := 0\<rparr>) s)"
proof -
  let ?i = "(it s)\<lparr>docData := w, limit := 0, ierr := Some ErrNotFound, cursorId := 0\<rparr>"
  have L: "q_limit q \<noteq> 0" using s lim by (auto simp: cursor_ok_def limit_ok_def split: if_splits)
  then have l: "limit (it s) + int (length (popped s)) = q_limit q" "op_limit (it s) \<noteq> 0" "\<bar>op_limit (it s)\<bar> \<le> q_limit q"
      "int (coming s) + (\<Sum>n \<leftarrow> requests s. \<bar>n\<bar>) \<le> 1" "replies s \<noteq> [] \<or> requests s \<noteq> [] \<longrightarrow> int (Suc (Len w) + length (arriving s)) < 1"
    using s lim n by (auto simp: cursor_ok_def limit_ok_def)
  then have o: "replies s = []" "requests s = []" by auto
  then have "int (Len w + length (arriving s)) \<le> 0" using l(4) n by (simp add: coming_def)
  then have "Len w + length (arriving s) = 0" by linarith
  then have "Len w = 0 \<and> arriving s = []" by simp
  then show z: "Len w = 0" by simp
  have a: "arriving s = []" using \<open>Len w = 0 \<and> arriving s = []\<close> by simp
  have f: "flow_ok ds s" "\<not> locked (it s)" "docsToReceive (it s) = 0" using s o a by (auto simp: cursor_ok_def flow_ok_def asked_ok_def)
  have "flow_ok ds (taken d ?i s)" using taken_flow[OF f(1) w(2,1)] f(2) by simp
  moreover have "asked_ok (taken d ?i s)" using f o a by (simp add: asked_ok_def taken_def)
  moreover have "limit_ok q (taken d ?i s)" using L l o a z lim by (simp add: limit_ok_def taken_def coming_def)
  moreover have "close_ok q (taken d ?i s)" using o by (simp add: close_ok_def taken_def)
  moreover have "done_ok q (taken d ?i s)" using o a L q by (simp add: done_ok_def taken_def query_ok_def)
  ultimately show "cursor_ok q ds (taken d ?i s)" by (simp add: cursor_ok_def)
qed

lemma pop_ok:
  assumes s: "cursor_ok q ds s" and q: "query_ok q" and n: "Len (docData (it s)) = Suc (Len w)" and lim: "limit (it s) \<noteq> 1"
    and w: "queue_ok w" "contents (docData (it s)) = Some d # contents w"
    and b: "b \<ge> 0 \<Longrightarrow> docsBeforeMore (it s) \<ge> 0"
  shows "cursor_ok q ds (taken d ((it s)\<lparr>docData := w, docsBeforeMore := b,
    limit := (if limit (it s) > 0 then limit (it s) - 1 else limit (it s))\<rparr>) s)"
proof -
  let ?l = "if limit (it s) > 0 then limit (it s) - 1 else limit (it s)"
  let ?i = "(it s)\<lparr>docData := w, docsBeforeMore := b, limit := ?l\<rparr>"
  let ?s = "taken d ?i s"
  have f: "flow_ok ds s" "\<not> locked (it s)" using s by (auto simp: cursor_ok_def flow_ok_def)
  have t: "it ?s = ?i" "requests ?s = requests s" "replies ?s = replies s" "arriving ?s = arriving s" "rest ?s = rest s"
    "popped ?s = popped s @ [d]" "caller ?s = Idle" by (simp_all add: taken_def)
  have m: "coming s = Suc (coming ?s)" using n by (simp add: coming_def taken_def)
  have cl: "close_ok q s" using s by (simp add: cursor_ok_def)
  have v: "covered q ?s l" if "covered q s (Suc l)" for l
    using that lim by (auto simp: covered_def taken_def)
  have "flow_ok ds ?s" using taken_flow[OF f(1) w(2,1)] f(2) by simp
  moreover have "asked_ok ?s" using s n b by (auto simp: cursor_ok_def asked_ok_def taken_def)
  moreover have "limit_ok q ?s"
  proof (cases "q_limit q = 0")
    case True
    then show ?thesis using s t by (simp add: cursor_ok_def limit_ok_def)
  next
    case False
    have u: "limit (it s) + int (length (popped s)) = q_limit q" "op_limit (it s) \<noteq> 0" "\<bar>op_limit (it s)\<bar> \<le> q_limit q"
      "int (coming s) + (\<Sum>n \<leftarrow> requests s. \<bar>n\<bar>) \<le> limit (it s)"
      "replies s \<noteq> [] \<or> requests s \<noteq> [] \<longrightarrow> int (Len (docData (it s)) + length (arriving s)) < limit (it s)"
      "ierr (it s) = None \<longrightarrow> docsBeforeMore (it s) \<ge> 0 \<longrightarrow> int (coming s) < limit (it s)"
      using s False n by (simp_all add: cursor_ok_def limit_ok_def)
    have "0 \<le> (\<Sum>n \<leftarrow> requests s. \<bar>n\<bar>)" by (rule sum_list_nonneg) auto
    then have l: "?l = limit (it s) - 1" "1 < limit (it s)" using u(4) m lim by auto
    then show ?thesis unfolding limit_ok_def using False u t m n b by auto
  qed
  moreover have "close_ok q ?s"
  proof (rule close_okI)
    show "covered q ?s (coming ?s + length (requests ?s))" if "ierr (it ?s) = None" "op_limit (it ?s) < 0 \<or> op_limit (it ?s) = 1"
      using close_okD(4)[OF cl] that t m by (intro v) simp
    show "covered q ?s (coming ?s)" if "ierr (it ?s) = None" "cursorId (it ?s) = 0" "replies ?s = []" "requests ?s = []"
      using close_okD(5)[OF cl] that t m by (intro v) simp
    show "covered q ?s (coming ?s)" if "(es, 0) \<in> set (replies ?s)" for es
      using close_okD(3)[OF cl, of es] that t m by (intro v) simp
  qed (use close_okD(1,2)[OF cl] t in auto)
  moreover have "done_ok q ?s"
  proof (cases "ierr (it s) = None")
    case True
    then show ?thesis using t by (simp add: done_ok_def)
  next
    case False
    have d: "done_ok q s" using s by (simp add: cursor_ok_def)
    have "\<not> (q_limit q > 0 \<and> limit (it s) = 0)"
      using s n by (auto simp: cursor_ok_def limit_ok_def coming_def)
    then have "rest s = [] \<or> single q" using done_okD(5)[OF d False] by blast
    then show ?thesis using done_okD(1-4)[OF d False] t by (auto simp: done_ok_def)
  qed
  ultimately show ?thesis by (simp add: cursor_ok_def)
qed

lemma wait_ok:
  assumes "cursor_ok q ds s" "waits (it s)" "docsToReceive (it s) > 0"
  shows "cursor_ok q ds (s\<lparr>caller := Waiting\<rparr>)"
proof -
  have "done_ok q (s\<lparr>caller := Waiting\<rparr>)" using assms by (simp add: done_ok_def waits_def)
  then show ?thesis using assms(1) by (simp add: cursor_ok_def frame_caller)
qed

lemma call_waits:
  assumes s: "cursor_ok q ds s" and q: "query_ok q" and c: "caller s = Idle \<or> caller s = Woken" and w: "waits (it s)"
  obtains r i where "Next (\<lambda>_. None) (\<lambda>_. None) None Sent (it s) = Inr (Blocked, None, r, i)"
    "cursor_ok q ds (s\<lparr>it := i, requests := requests s @ opt_list r, caller := Waiting\<rparr>)" "docData i = docData (it s)"
    "r = None \<and> i = it s \<or> (\<exists>n. r = Some n) \<and> ierr (it s) = None \<and> cursorId (it s) \<noteq> 0 \<and> replies s = [] \<and> requests s = []"
proof (cases "docsToReceive (it s) = 0")
  case False
  have "docsToReceive (it s) \<ge> 0" "\<not> locked (it s)" using s by (simp_all add: cursor_ok_def asked_ok_def flow_ok_def)
  then show ?thesis using that[of None "it s"] wait_ok[OF s w] False w by (simp add: Next_def opt_list_def)
next
  case True
  obtain i r where g: "getMore None Sent (it s) = Inr (i, r)" by (auto simp: getMore_Sent Let_def)
  have o: "replies s = []" "requests s = []" "arriving s = []" "\<not> locked (it s)" "Len (docData (it s)) = 0" "ierr (it s) = None" "cursorId (it s) \<noteq> 0"
    using s True w asked_quiet[of s] by (simp_all add: cursor_ok_def flow_ok_def waits_def)
  moreover have "int (coming s) < limit (it s)" if "q_limit q \<noteq> 0"
    using s that o by (simp add: cursor_ok_def limit_ok_def coming_def)
  ultimately have k: "cursor_ok q ds (s\<lparr>it := i, requests := opt_list r\<rparr>)" "docsToReceive i > 0" "waits i"
    using request_ok[OF s q _ _ _ _ _ _ g] c w by auto
  have "cursor_ok q ds (s\<lparr>it := i, requests := opt_list r, caller := Waiting\<rparr>)" using wait_ok[OF k(1)] k(2,3) by simp
  moreover have "docData i = docData (it s)" "\<exists>n. r = Some n" using g by (auto simp: getMore_Sent Let_def split: if_splits)
  ultimately show ?thesis using that[of r i] True w o g by (simp add: Next_def)
qed

lemma call_pops:
  assumes s: "cursor_ok q ds s" and q: "query_ok q" and c: "caller s = Idle \<or> caller s = Woken" and n: "Len (docData (it s)) > 0"
  obtains d r i where "Next (\<lambda>_. None) (\<lambda>_. None) None Sent (it s) = Inr (Got d, Some d, r, i)"
    "cursor_ok q ds (s\<lparr>it := i, requests := requests s @ opt_list r, popped := popped s @ [d], caller := Idle\<rparr>)"
    "Suc (Len (docData i)) = Len (docData (it s))" "r = None \<and> (ierr i = None \<longrightarrow> ierr (it s) = None \<and> cursorId i = cursorId (it s)) \<or>
      (\<exists>n. r = Some n) \<and> ierr (it s) = None \<and> cursorId (it s) \<noteq> 0 \<and> replies s = [] \<and> requests s = []"
proof -
  have f: "queue_ok (docData (it s))" "\<not> locked (it s)" "None \<notin> set (contents (docData (it s)))" "\<not> waits (it s)"
    using s n by (auto simp: cursor_ok_def flow_ok_def waits_def)
  obtain d w where w: "Pop (docData (it s)) = Inr (Some d, w)" "queue_ok w" "contents (docData (it s)) = Some d # contents w"
    "Len (docData (it s)) = Suc (Len w)" using Pop_Cons[OF f(1) n f(3)] by metis
  note N = Next_def bindE_def ask_more_def deliver_doc_def Let_def opt_list_def
  show ?thesis
  proof (cases "limit (it s) = 1")
    case True
    let ?i = "(it s)\<lparr>docData := w, limit := 0, ierr := Some ErrNotFound, cursorId := 0\<rparr>"
    note last = last_ok[OF s q w(4) True w(2,3)]
    have "Next (\<lambda>_. None) (\<lambda>_. None) None Sent (it s) = Inr (Got d, Some d, None, ?i)"
      using f w True last(1) by (simp add: N killCursor_def)
    then show ?thesis using that[of d None ?i] last(2) w(4) by (simp add: taken_def opt_list_def)
  next
    case False
    let ?l = "if limit (it s) > 0 then limit (it s) - 1 else limit (it s)"
    show ?thesis
    proof (cases "cursorId (it s) \<noteq> 0 \<and> ierr (it s) = None \<and> docsBeforeMore (it s) = 0")
      case True
      let ?j = "(it s)\<lparr>docData := w, docsBeforeMore := -1, limit := ?l\<rparr>"
      have o: "replies s = []" "requests s = []" using s n True by (auto simp: cursor_ok_def asked_ok_def)
      obtain i r where g: "getMore None Sent ?j = Inr (i, r)" by (auto simp: getMore_Sent Let_def)
      have j: "cursor_ok q ds (taken d ?j s)" by (rule pop_ok[OF s q w(4) False w(2,3)]) simp
      have "int (coming (taken d ?j s)) < limit ?j" if "q_limit q \<noteq> 0"
        using s that n w(4) True by (auto simp: cursor_ok_def limit_ok_def coming_def taken_def)
      then have k: "cursor_ok q ds ((taken d ?j s)\<lparr>it := i, requests := opt_list r\<rparr>)" "docData i = w" "\<exists>n. r = Some n"
        using request_ok(1)[OF j q, of i r] o True g by (auto simp: taken_def getMore_Sent Let_def split: if_splits)
      have "Next (\<lambda>_. None) (\<lambda>_. None) None Sent (it s) = Inr (Got d, Some d, r, i)"
        using f w False True g by (auto simp: N getMore_Sent split: if_splits)
      moreover have "(taken d ?j s)\<lparr>it := i, requests := opt_list r\<rparr> =
          s\<lparr>it := i, requests := opt_list r, popped := popped s @ [d], caller := Idle\<rparr>"
        by (cases s) (simp add: taken_def)
      ultimately show ?thesis using that[of d r i] k o w(4) True by simp
    next
      case no: False
      let ?b = "if cursorId (it s) \<noteq> 0 \<and> ierr (it s) = None then docsBeforeMore (it s) - 1 else docsBeforeMore (it s)"
      let ?j = "(it s)\<lparr>docData := w, docsBeforeMore := ?b, limit := ?l\<rparr>"
      have "cursor_ok q ds (taken d ?j s)" by (rule pop_ok[OF s q w(4) False w(2,3)]) (simp split: if_splits)
      moreover have "Next (\<lambda>_. None) (\<lambda>_. None) None Sent (it s) = Inr (Got d, Some d, None, ?j)"
        using f w False no by (auto simp: N)
      ultimately show ?thesis using that[of d None ?j] w(4) by (simp add: taken_def opt_list_def)
    qed
  qed
qed

lemma call_ends:
  assumes s: "cursor_ok q ds s" and q: "query_ok q" and c: "caller s = Idle \<or> caller s = Woken"
    and n: "Len (docData (it s)) = 0" "\<not> waits (it s)"
  obtains i where "Next (\<lambda>_. None) (\<lambda>_. None) None Sent (it s) = Inr (Nothing, None, None, i)"
    "cursor_ok q ds (s\<lparr>it := i, caller := Ended\<rparr>)" "ierr i \<noteq> None"
proof -
  have f: "\<not> locked (it s)" "Pop (docData (it s)) = Inr (None, docData (it s))" "asked_ok s" "done_ok q s" "close_ok q s"
    using s n by (simp_all add: cursor_ok_def flow_ok_def Pop_def Len_def)
  show ?thesis
  proof (cases "ierr (it s) = None")
    case False
    have "done_ok q (s\<lparr>caller := Ended\<rparr>)" using done_okD(1-5)[OF f(4) False] n by (simp add: done_ok_def)
    then have "cursor_ok q ds (s\<lparr>caller := Ended\<rparr>)" using s by (simp add: cursor_ok_def frame_caller)
    then show ?thesis using that[of "it s"] f n False by (simp add: Next_def)
  next
    case True
    let ?i = "(it s)\<lparr>ierr := Some ErrNotFound\<rparr>" and ?s = "s\<lparr>it := (it s)\<lparr>ierr := Some ErrNotFound\<rparr>, caller := Ended\<rparr>"
    have z: "docsToReceive (it s) \<le> 0" "cursorId (it s) = 0" using n True by (auto simp: waits_def)
    note o = asked_quiet[OF f(3) z(1)]
    have "covered q s 0" using close_okD(5)[OF f(5) True z(2) o(2,3)] n(1) o by (simp add: coming_def)
    then have r: "rest s = [] \<or> single q" by (auto simp: covered_def)
    have "flow_ok ds ?s" using s by (simp add: cursor_ok_def flow_ok_def)
    moreover have "asked_ok ?s" using s o by (simp add: cursor_ok_def asked_ok_def)
    moreover have "limit_ok q ?s" using s o n by (auto simp: cursor_ok_def limit_ok_def coming_def)
    moreover have "close_ok q ?s" using f(5) o by (simp add: close_ok_def)
    moreover have "done_ok q ?s" using o r n by (auto simp: done_ok_def)
    ultimately have "cursor_ok q ds ?s" by (simp add: cursor_ok_def)
    moreover have "Next (\<lambda>_. None) (\<lambda>_. None) None Sent (it s) = Inr (Nothing, None, None, ?i)"
      using f(1,2) n z True by (simp add: Next_def)
    ultimately show ?thesis using that[of ?i] by simp
  qed
qed

lemma call_returns:
  assumes s: "cursor_ok q ds s" and q: "query_ok q" and c: "caller s = Idle \<or> caller s = Woken"
  shows "\<exists>out d r i. Next (\<lambda>_. None) (\<lambda>_. None) None Sent (it s) = Inr (out, d, r, i)"
proof -
  consider "waits (it s)" | "Len (docData (it s)) > 0" | "Len (docData (it s)) = 0" "\<not> waits (it s)" by blast
  then show ?thesis using call_waits[OF s q c] call_pops[OF s q c] call_ends[OF s q c] by cases metis+
qed

text \<open>Every call of \<open>Next\<close> comes to a wait, a document or the end, and never to a panic.\<close>

lemma call_ok:
  assumes s: "cursor_ok q ds s" and q: "query_ok q" and c: "caller s = Idle \<or> caller s = Woken"
    and "Next (\<lambda>_. None) (\<lambda>_. None) None Sent (it s) = Inr (out, d, r, i)"
  shows "cursor_ok q ds (s\<lparr>it := i, requests := requests s @ opt_list r, popped := popped s @ opt_list d, caller := after out\<rparr>)"
proof -
  consider "waits (it s)" | "Len (docData (it s)) > 0" | "Len (docData (it s)) = 0" "\<not> waits (it s)" by blast
  then show ?thesis
  proof cases
    case 1
    obtain r' i' where "Next (\<lambda>_. None) (\<lambda>_. None) None Sent (it s) = Inr (Blocked, None, r', i')"
      "cursor_ok q ds (s\<lparr>it := i', requests := requests s @ opt_list r', caller := Waiting\<rparr>)" by (rule call_waits[OF s q c 1])
    then show ?thesis using assms(4) by (simp add: after_def opt_list_def)
  next
    case 2
    obtain d' r' i' where "Next (\<lambda>_. None) (\<lambda>_. None) None Sent (it s) = Inr (Got d', Some d', r', i')"
      "cursor_ok q ds (s\<lparr>it := i', requests := requests s @ opt_list r', popped := popped s @ [d'], caller := Idle\<rparr>)"
      by (rule call_pops[OF s q c 2])
    then show ?thesis using assms(4) by (simp add: after_def opt_list_def)
  next
    case 3
    obtain i' where "Next (\<lambda>_. None) (\<lambda>_. None) None Sent (it s) = Inr (Nothing, None, None, i')"
      "cursor_ok q ds (s\<lparr>it := i', caller := Ended\<rparr>)" by (rule call_ends[OF s q c 3])
    then show ?thesis using assms(4) by (simp add: after_def opt_list_def)
  qed
qed

lemma step_ok:
  assumes "cursor_step p s t" and q: "query_ok q" and s: "cursor_ok q ds s"
  shows "cursor_ok q ds t"
  using assms(1)
proof cases
  case (serve n ns k c)
  then show ?thesis using serve_ok[OF q s] by simp
next
  case (begin_reply es c rs m ms i)
  show ?thesis
  proof (cases es)
    case Nil
    then show ?thesis using begin_reply begin_empty_ok[OF s, of c rs p i] by (simp add: reply_calls_def)
  next
    case (Cons d es')
    then show ?thesis using begin_reply begin_docs_ok[OF q s, of d es' c rs m ms p i] by simp
  qed
next
  case (go_on m ms i)
  then show ?thesis using go_on_ok[OF s] by simp
next
  case started
  then show ?thesis using started_ok[OF s _ q] by simp
next
  case (call out d r i)
  then show ?thesis using call_ok[OF s q] by simp
qed

lemma run_ok:
  assumes "cursor_run p s n t" "query_ok q" "cursor_ok q ds s"
  shows "cursor_ok q ds t"
  using assms by (induction rule: cursor_run.induct) (auto intro: step_ok)

section \<open>Results\<close>

lemma result_of:
  assumes "cursor_ok q ds s" "caller s = Ended" "query_ok q"
  shows "popped s @ rest s = ds" "\<not> single q \<Longrightarrow> popped s = (if q_limit q = 0 then ds else take (nat (q_limit q)) ds)"
    "ierr (it s) = Some ErrNotFound"
proof -
  have d: "done_ok q s" "flow_ok ds s" "limit_ok q s" using assms(1) by (simp_all add: cursor_ok_def)
  have e: "ierr (it s) \<noteq> None" "Len (docData (it s)) = 0" using d(1) assms(2) by (simp_all add: done_ok_def)
  note o = done_okD[OF d(1) e(1)]
  have c: "contents (docData (it s)) = []" using e(2) by (metis length_contents length_0_conv)
  show p: "popped s @ rest s = ds" using d(2) o(2-4) c by (simp add: flow_ok_def)
  show "ierr (it s) = Some ErrNotFound" by (rule o(1))
  assume "\<not> single q"
  then have r: "rest s = [] \<or> q_limit q > 0 \<and> limit (it s) = 0" using o(5) by simp
  have l: "int (length (popped s)) \<le> q_limit q \<and> (limit (it s) = 0 \<longrightarrow> int (length (popped s)) = q_limit q)" if "q_limit q > 0"
    using d(3) that by (auto simp: limit_ok_def)
  show "popped s = (if q_limit q = 0 then ds else take (nat (q_limit q)) ds)"
  proof (cases "q_limit q = 0")
    case False
    then have "q_limit q > 0" using assms(3) by (simp add: query_ok_def)
    then show ?thesis using l p r by (auto simp: take_append)
  qed (use r p in auto)
qed

text \<open>A state without a step has come to the end.\<close>

lemma progress:
  assumes s: "cursor_ok q ds s" and q: "query_ok q" and none: "\<And>t. \<not> cursor_step p s t"
  shows "caller s = Ended"
proof (rule ccontr)
  assume n: "caller s \<noteq> Ended"
  have f: "queue_ok (docData (it s))" "\<not> locked (it s)" using s by (auto simp: cursor_ok_def flow_ok_def)
  have a: "arriving s = []"
  proof (rule ccontr)
    assume "arriving s \<noteq> []"
    then obtain m ms where m: "arriving s = m # ms" by (cases "arriving s") auto
    then have "later m" using s by (auto simp: cursor_ok_def flow_ok_def)
    then obtain j r c d where "m = Doc j r c d" "j \<noteq> 0" by (auto simp: later_def split: message.splits)
    then obtain i where "replyFunc p m (it s) = Inr i" using replyFunc_Doc[OF f, of d j p r c] by metis
    then show False using none cursor_step.go_on[OF m] by blast
  qed
  have r: "replies s = []"
  proof (rule ccontr)
    assume "replies s \<noteq> []"
    then obtain es c rs where r: "replies s = (es, c) # rs" by (cases "replies s") auto
    show False
    proof (cases es)
      case Nil
      then have "replyFunc p (Empty c) (it s) \<noteq> Inl e" for e using f by (simp add: replyFunc_def Let_def)
      then obtain i where "replyFunc p (Empty c) (it s) = Inr i" by (cases "replyFunc p (Empty c) (it s)") auto
      then show False using none cursor_step.begin_reply[OF a r, of "Empty c" "[]"] Nil by (auto simp: reply_calls_def)
    next
      case (Cons d es')
      obtain i where "replyFunc p (Doc 0 (1 + int (length es')) c d) (it s) = Inr i"
        using replyFunc_Doc[OF f, of d 0 p "1 + int (length es')" c] by metis
      then show False using none cursor_step.begin_reply[OF a r] Cons reply_calls_Cons[of d es' c] by metis
    qed
  qed
  have t: "requests s = []"
  proof (rule ccontr)
    assume "requests s \<noteq> []"
    then obtain n ns where n: "requests s = n # ns" by (cases "requests s") auto
    have "n = 0 \<or> \<bar>n\<bar> \<ge> 1" by auto
    then have "\<exists>k c. answers n (rest s) k c"
    proof -
      let ?k = "if n = 0 then length (rest s) else min (nat \<bar>n\<bar>) (length (rest s))"
      have "answers n (rest s) ?k (if ?k = length (rest s) \<or> n < 0 then 0 else 1)"
        by (auto simp: answers_def)
      then show ?thesis by blast
    qed
    then show False using none cursor_step.serve[OF n] by blast
  qed
  have "caller s \<noteq> Waiting" using s a r t by (auto simp: cursor_ok_def done_ok_def asked_ok_def)
  moreover have "caller s \<noteq> Starting" using none cursor_step.started by blast
  ultimately have c: "caller s = Idle \<or> caller s = Woken" using n by (cases "caller s") auto
  then show False using call_returns[OF s q c] none cursor_step.call[OF c] by blast
qed

text \<open>The work that is left.\<close>

definition work :: "'d system \<Rightarrow> nat" where
  "work s = 5 * length (rest s) + 5 * length (concat (map fst (replies s))) + 2 * length (replies s) + 3 * length (requests s) +
     3 * length (arriving s) + Len (docData (it s)) +
     (if cursorId (it s) \<noteq> 0 \<and> ierr (it s) = None \<and> replies s = [] \<and> requests s = [] then 4 else 0) +
     (case caller s of Starting \<Rightarrow> 3 | Idle \<Rightarrow> 2 | Woken \<Rightarrow> 2 | Waiting \<Rightarrow> 1 | Ended \<Rightarrow> 0)"

lemma call_work:
  assumes s: "cursor_ok q ds s" and q: "query_ok q" and c: "caller s = Idle \<or> caller s = Woken"
    and "Next (\<lambda>_. None) (\<lambda>_. None) None Sent (it s) = Inr (out, d, r, i)"
  shows "work (s\<lparr>it := i, requests := requests s @ opt_list r, popped := popped s @ opt_list d, caller := after out\<rparr>) < work s"
proof -
  have two: "(case caller s of Starting \<Rightarrow> 3 | Idle \<Rightarrow> 2 | Woken \<Rightarrow> 2 | Waiting \<Rightarrow> 1 | Ended \<Rightarrow> 0) = (2 :: nat)" using c by auto
  consider "waits (it s)" | "Len (docData (it s)) > 0" | "Len (docData (it s)) = 0" "\<not> waits (it s)" by blast
  then show ?thesis
  proof cases
    case 1
    obtain r' i' where "Next (\<lambda>_. None) (\<lambda>_. None) None Sent (it s) = Inr (Blocked, None, r', i')" "docData i' = docData (it s)"
      "r' = None \<and> i' = it s \<or> (\<exists>n. r' = Some n) \<and> ierr (it s) = None \<and> cursorId (it s) \<noteq> 0 \<and> replies s = [] \<and> requests s = []"
      by (rule call_waits[OF s q c 1])
    then show ?thesis using assms(4) two by (auto simp: work_def after_def opt_list_def)
  next
    case 2
    obtain d' r' i' where "Next (\<lambda>_. None) (\<lambda>_. None) None Sent (it s) = Inr (Got d', Some d', r', i')"
      "Suc (Len (docData i')) = Len (docData (it s))" "r' = None \<and> (ierr i' = None \<longrightarrow> ierr (it s) = None \<and> cursorId i' = cursorId (it s)) \<or>
      (\<exists>n. r' = Some n) \<and> ierr (it s) = None \<and> cursorId (it s) \<noteq> 0 \<and> replies s = [] \<and> requests s = []"
      by (rule call_pops[OF s q c 2])
    then show ?thesis using assms(4) two by (auto simp: work_def after_def opt_list_def)
  next
    case 3
    obtain i' where "Next (\<lambda>_. None) (\<lambda>_. None) None Sent (it s) = Inr (Nothing, None, None, i')"
      "cursor_ok q ds (s\<lparr>it := i', caller := Ended\<rparr>)" "ierr i' \<noteq> None" by (rule call_ends[OF s q c 3])
    then show ?thesis using assms(4) two 3 by (auto simp: work_def after_def opt_list_def cursor_ok_def done_ok_def)
  qed
qed

lemma wake_work: "(case wake c of Starting \<Rightarrow> 3 | Idle \<Rightarrow> 2 | Woken \<Rightarrow> 2 | Waiting \<Rightarrow> 1 | Ended \<Rightarrow> 0) \<le>
    Suc (case c of Starting \<Rightarrow> 3 | Idle \<Rightarrow> 2 | Woken \<Rightarrow> 2 | Waiting \<Rightarrow> 1 | Ended \<Rightarrow> 0)"
  by (cases c) (auto simp: wake_def)

lemma step_work:
  assumes "cursor_step p s t" and q: "query_ok q" and s: "cursor_ok q ds s"
  shows "work t < work s"
  using assms(1)
proof cases
  case (serve n ns k c)
  then have "ns = []" "replies s = []" "k \<le> length (rest s)" using s by (auto simp: cursor_ok_def asked_ok_def answers_def)
  then show ?thesis using serve by (simp add: work_def min_absorb2)
next
  case (begin_reply es c rs m ms i)
  have f: "queue_ok (docData (it s))" "\<not> locked (it s)" "rs = []" "requests s = []"
    using s begin_reply by (auto simp: cursor_ok_def flow_ok_def asked_ok_def)
  show ?thesis
  proof (cases es)
    case Nil
    then have "c = 0" using s begin_reply by (auto simp: cursor_ok_def close_ok_def)
    then show ?thesis using begin_reply f Nil wake_work[of "caller s"] by (auto simp: work_def reply_calls_def replyFunc_def)
  next
    case (Cons d es')
    have "length ms = length es'" using begin_reply Cons by (auto simp: reply_calls_Cons simp del: upt_Suc)
    moreover have "m = Doc 0 (1 + int (length es')) c d" using begin_reply Cons by (simp add: reply_calls_Cons)
    then have "Len (docData i) = Suc (Len (docData (it s)))"
      by (rule_tac replyFunc_Doc[OF f(1,2), of d 1 p "1 + int (length es')" c]) (use begin_reply(5) in auto)
    ultimately show ?thesis using begin_reply f Cons wake_work[of "caller s"] by (simp add: work_def)
  qed
next
  case (go_on m ms i)
  have f: "queue_ok (docData (it s))" "\<not> locked (it s)" "later m" using s go_on by (auto simp: cursor_ok_def flow_ok_def)
  then obtain j r c d where "m = Doc j r c d" "j \<noteq> 0" by (auto simp: later_def split: message.splits)
  then have "Len (docData i) = Suc (Len (docData (it s))) \<and> cursorId i = cursorId (it s) \<and> ierr i = ierr (it s)"
    by (rule_tac replyFunc_Doc[OF f(1,2), of d j p r c]) (use go_on(3) in auto)
  then show ?thesis using go_on wake_work[of "caller s"] by (auto simp: work_def)
next
  case started
  moreover have "cursorId (it s) = 0" if "ierr (it s) \<noteq> None" using s started that by (simp add: cursor_ok_def done_ok_def)
  ultimately show ?thesis by (auto simp: work_def keep_err_def)
next
  case (call out d r i)
  then show ?thesis using call_work[OF s q] by simp
qed

lemma run_work:
  assumes "cursor_run p s n t" "query_ok q" "cursor_ok q ds s"
  shows "n + work t \<le> work s"
  using assms
proof (induction rule: cursor_run.induct)
  case (more n t u)
  then show ?case using step_work[OF more.hyps(2) _ run_ok[OF more.hyps(1)]] by force
qed simp

lemma reached_ok:
  assumes "query_ok q" "cursor_run p (start q ds) n s"
  shows "cursor_ok q ds s"
  using run_ok[OF assms(2,1) start_ok[OF assms(1)]] .

text \<open>The queries that the builders make.\<close>

definition no_limit :: query where
  "no_limit = \<lparr>q_limit = 0, q_op_limit = 0\<rparr>"

lemma int32_id: "- (2 ^ 31) \<le> n \<Longrightarrow> n < 2 ^ 31 \<Longrightarrow> int32 n = n"
  by (simp add: int32_def sint_sbintrunc' signed_take_bit_int_eq_self)

lemma builders_ok:
  "query_ok no_limit" "\<not> single no_limit"
  "0 \<le> m \<Longrightarrow> m < 2 ^ 31 \<Longrightarrow> query_ok (Batch m no_limit) \<and> \<not> single (Batch m no_limit)"
  "0 \<le> n \<Longrightarrow> n < 2 ^ 31 \<Longrightarrow> query_ok (Limit n no_limit) \<and> \<not> single (Limit n no_limit) \<and> q_limit (Limit n no_limit) = n"
  "2 \<le> m \<Longrightarrow> m \<le> n \<Longrightarrow> n < 2 ^ 31 \<Longrightarrow>
     query_ok (Batch m (Limit n no_limit)) \<and> \<not> single (Batch m (Limit n no_limit)) \<and> q_limit (Batch m (Limit n no_limit)) = n"
  by (auto simp: query_ok_def single_def no_limit_def Batch_def Limit_def int32_id)

text \<open>C14: However the answers of the server (any batch sizes it may choose), the callbacks of the socket and the calls
  interleave in a run without faults, the documents that \<open>Next\<close> returned are at any time the first ones of the result, in order, never more
  than the limit; every call of \<open>Next\<close> comes to a wait, a document or the end, without a panic; at most one request
  is unanswered, and the iterator never waits without a document or an answer that is still to come.\<close>

theorem cursor_safe:
  assumes "query_ok q" "cursor_run p (start q ds) n s"
  shows "popped s @ map the (contents (docData (it s))) @ msg_docs (arriving s) @ concat (map fst (replies s)) @ rest s = ds \<and>
    (q_limit q = 0 \<or> int (length (popped s)) \<le> q_limit q) \<and>
    (caller s = Idle \<or> caller s = Woken \<longrightarrow> (\<exists>r. Next (\<lambda>_. None) (\<lambda>_. None) None Sent (it s) = Inr r)) \<and>
    length (requests s) + length (replies s) \<le> 1 \<and>
    (caller s = Waiting \<longrightarrow> requests s \<noteq> [] \<or> replies s \<noteq> [] \<or> arriving s \<noteq> [])"
proof (intro conjI impI)
  have s: "cursor_ok q ds s" by (rule reached_ok[OF assms])
  then show "popped s @ map the (contents (docData (it s))) @ msg_docs (arriving s) @ concat (map fst (replies s)) @ rest s = ds"
    by (simp add: cursor_ok_def flow_ok_def)
  have "0 \<le> (\<Sum>n \<leftarrow> requests s. \<bar>n\<bar>)" by (rule sum_list_nonneg) auto
  then show "q_limit q = 0 \<or> int (length (popped s)) \<le> q_limit q"
    using s by (auto simp: cursor_ok_def limit_ok_def split: if_splits)
  show "length (requests s) + length (replies s) \<le> 1" using s by (simp add: cursor_ok_def asked_ok_def)
  show "requests s \<noteq> [] \<or> replies s \<noteq> [] \<or> arriving s \<noteq> []" if "caller s = Waiting"
    using s that by (auto simp: cursor_ok_def done_ok_def asked_ok_def)
  show "\<exists>r. Next (\<lambda>_. None) (\<lambda>_. None) None Sent (it s) = Inr r" if "caller s = Idle \<or> caller s = Woken"
    using call_returns[OF s assms(1) that] by blast
qed

text \<open>Steps go on until the end, and there are not many.\<close>

lemma bounded:
  assumes "query_ok q" "cursor_run p (start q ds) n s"
  shows "n \<le> 5 * length ds + 6"
proof -
  have "work (start q ds) = 5 * length ds + 6" by (simp add: work_def start_def new_iter_def new_queue_def Len_def)
  then show ?thesis using run_work[OF assms(2,1) start_ok[OF assms(1)]] by simp
qed

lemma reaches_end:
  assumes q: "query_ok q"
  obtains n s where "cursor_run p (start q ds) n s" "caller s = Ended"
proof -
  have "\<exists>m s. cursor_run p (start q ds) m s \<and> (caller s = Ended \<or> m = n)" for n
  proof (induction n)
    case 0
    then show ?case using cursor_run.none by blast
  next
    case (Suc n)
    then obtain m s where s: "cursor_run p (start q ds) m s" "caller s = Ended \<or> m = n" by blast
    then show ?case using progress[OF reached_ok[OF q s(1)] q] cursor_run.more by metis
  qed
  from this[of "5 * length ds + 7"] show ?thesis using that bounded[OF q] by force
qed

text \<open>C15: Iterating ends: no run without faults has more than five steps for each document of the result and six more, and as long
  as \<open>Next\<close> has not returned false some step of the server, the socket or the caller is possible.\<close>

theorem cursor_terminates:
  assumes "query_ok q" "cursor_run p (start q ds) n s"
  shows "n \<le> 5 * length ds + 6 \<and> (caller s = Ended \<or> (\<exists>t. cursor_step p s t))"
  using bounded[OF assms] progress[OF reached_ok[OF assms] assms(1)] by blast

text \<open>C13: In a run without faults (of the socket or of the decoding), when \<open>Next\<close> returns false it has returned the whole result, or as many documents as the limit says, and
  \<open>Err\<close> is nil; a negative limit gives the documents of a single batch.\<close>

theorem cursor_complete:
  assumes "query_ok q" "cursor_run p (start q ds) n s" "caller s = Ended"
  shows "Iter_Err (it s) = Inr None \<and> prefix (popped s) ds \<and>
    (single q \<or> popped s = (if q_limit q = 0 then ds else take (nat (q_limit q)) ds))"
proof -
  have s: "cursor_ok q ds s" by (rule reached_ok[OF assms(1,2)])
  then have "\<not> locked (it s)" by (simp add: cursor_ok_def flow_ok_def)
  then have "Iter_Err (it s) = Inr None" using result_of(3)[OF s assms(3,1)] by (simp add: Iter_Err_def)
  moreover have "prefix (popped s) ds" using result_of(1)[OF s assms(3,1)] by (metis prefixI)
  ultimately show ?thesis using result_of(2)[OF s assms(3,1)] by blast
qed

section \<open>A batch above the limit\<close>

lemma run_trans: "cursor_run p t m u \<Longrightarrow> cursor_run p s n t \<Longrightarrow> \<exists>k. cursor_run p s k u"
  by (induction rule: cursor_run.induct) (auto intro: cursor_run.more)

text \<open>The iterator has \<open>es\<close> in its queue, and will not ask for more.\<close>

definition holds :: "'d list \<Rightarrow> int \<Rightarrow> 'd iter \<Rightarrow> bool" where
  "holds es l i \<longleftrightarrow> queue_ok (docData i) \<and> contents (docData i) = map Some es \<and> \<not> locked i \<and> ierr i = None \<and>
     limit i = l \<and> docsBeforeMore i < 0"

lemma deliver_all:
  "list_all later (arriving s) \<Longrightarrow> holds es l (it s) \<Longrightarrow> caller s = Idle \<Longrightarrow>
   \<exists>n t. cursor_run p s n t \<and> holds (es @ msg_docs (arriving s)) l (it t) \<and> caller t = Idle"
proof (induction "arriving s" arbitrary: s es)
  case Nil
  then show ?case using cursor_run.none by (metis append_Nil2 msg_docs.simps(1))
next
  case (Cons m ms)
  then have "later m" by (metis list.pred_inject(2))
  then obtain j r c d where m: "m = Doc j r c d" "j \<noteq> 0" by (auto simp: later_def split: message.splits)
  obtain w where w: "queue_ok w" "contents w = map Some (es @ [d])"
    "replyFunc p m (it s) = Inr ((it s)\<lparr>docsToReceive := docsToReceive (it s) - 1, docData := w\<rparr>)"
    using replyFunc_Doc[of "it s" d j p r c] Cons.prems(2) m by (auto simp: holds_def)
  let ?i = "(it s)\<lparr>docsToReceive := docsToReceive (it s) - 1, docData := w\<rparr>"
  let ?s = "s\<lparr>arriving := ms, it := ?i, caller := wake (caller s)\<rparr>"
  have st: "cursor_step p s ?s" by (rule cursor_step.go_on[OF Cons.hyps(2)[symmetric] w(3)])
  have "list_all later (arriving ?s)" using Cons.prems(1) unfolding Cons.hyps(2)[symmetric] by simp
  then obtain n t where "cursor_run p ?s n t" "holds ((es @ [d]) @ msg_docs ms) l (it t)" "caller t = Idle"
    using Cons.hyps(1)[of ?s "es @ [d]"] Cons.prems w by (auto simp: holds_def wake_def)
  moreover from this(1) obtain k where "cursor_run p s k t" using run_trans[OF _ cursor_run.more[OF cursor_run.none st]] by blast
  moreover have "arriving s = Doc j r c d # ms" using m Cons.hyps(2) by simp
  ultimately show ?case by (intro exI[of _ k] exI[of _ t]) simp
qed

lemma pop_down:
  "limit (it s) = int (Suc j) \<Longrightarrow> holds es (limit (it s)) (it s) \<Longrightarrow> length es > Suc j \<Longrightarrow> caller s = Idle \<Longrightarrow>
   \<exists>n t. cursor_run p s n t \<and> caller t = Idle \<and> Next (\<lambda>_. None) (\<lambda>_. None) None Sent (it t) = Inl (Panic ''data remains after limit exhausted'')"
proof (induction j arbitrary: s es)
  case (0 s es)
  have h: "queue_ok (docData (it s))" "Len (docData (it s)) > 0" "None \<notin> set (contents (docData (it s)))" "contents (docData (it s)) = map Some es"
      "\<not> locked (it s)" "\<not> waits (it s)"
    using 0 length_contents[of "docData (it s)"] by (auto simp: holds_def waits_def simp del: length_contents)
  obtain d w where w: "Pop (docData (it s)) = Inr (Some d, w)" "contents (docData (it s)) = Some d # contents w"
    by (rule Pop_Cons[OF h(1-3)])
  have "length (contents w) + 1 = length es" using w(2) h(4) by (metis Suc_eq_plus1 length_Cons length_map)
  then have "Len w > 0" using 0 by simp
  then have "Next (\<lambda>_. None) (\<lambda>_. None) None Sent (it s) = Inl (Panic ''data remains after limit exhausted'')"
    using 0 h w by (simp add: Next_def)
  then show ?case using 0 cursor_run.none by blast
next
  case (Suc j s es)
  have h: "queue_ok (docData (it s))" "Len (docData (it s)) > 0" "None \<notin> set (contents (docData (it s)))" "contents (docData (it s)) = map Some es"
      "\<not> locked (it s)" "\<not> waits (it s)" "ierr (it s) = None" "docsBeforeMore (it s) < 0"
    using Suc.prems length_contents[of "docData (it s)"] by (auto simp: holds_def waits_def simp del: length_contents)
  obtain d w where w: "Pop (docData (it s)) = Inr (Some d, w)" "queue_ok w" "contents (docData (it s)) = Some d # contents w"
    by (rule Pop_Cons[OF h(1-3)])
  let ?i = "(it s)\<lparr>docData := w, limit := int (Suc j),
    docsBeforeMore := if cursorId (it s) \<noteq> 0 then docsBeforeMore (it s) - 1 else docsBeforeMore (it s)\<rparr>"
  let ?s = "s\<lparr>it := ?i, requests := requests s @ opt_list None, popped := popped s @ opt_list (Some d), caller := after (Got d)\<rparr>"
  have "Next (\<lambda>_. None) (\<lambda>_. None) None Sent (it s) = Inr (Got d, Some d, None, ?i)"
    using Suc.prems(1) h w by (simp add: Next_def ask_more_def deliver_doc_def Let_def)
  then have st: "cursor_step p s ?s" using cursor_step.call[OF disjI1[OF Suc.prems(4)]] by blast
  have "contents w = map Some (tl es)" using w(3) h(4) by (cases es) auto
  then have "holds (tl es) (limit ?i) ?i" using h w by (simp add: holds_def)
  moreover have "length (tl es) > Suc j" using Suc.prems(3) by simp
  ultimately obtain n t where "cursor_run p ?s n t" "caller t = Idle"
    "Next (\<lambda>_. None) (\<lambda>_. None) None Sent (it t) = Inl (Panic ''data remains after limit exhausted'')"
    using Suc.IH[of ?s "tl es"] by (auto simp: after_def)
  then show ?case using run_trans[OF _ cursor_run.more[OF cursor_run.none st]] by blast
qed

text \<open>C27: A batch size above the limit, as in \<open>Limit(1).Batch(10)\<close>, makes \<open>Next\<close> panic: when the result has more documents
  than the limit, the server may send one more than it in the first batch, and the call that would return the last
  document finds one that remains.\<close>

theorem batch_above_limit_panics:
  fixes ds :: "'a list"
  assumes "1 \<le> l" "l < m" "m < 2 ^ 31" "l < int (length ds)"
  shows "\<exists>n s. cursor_run p (start (Batch m (Limit l no_limit)) ds) n s \<and> caller s = Idle \<and>
    Next (\<lambda>_. None) (\<lambda>_. None) None Sent (it s) = Inl (Panic ''data remains after limit exhausted'')"
proof -
  let ?q = "Batch m (Limit l no_limit)" and ?k = "nat l + 1"
  define s0 where "s0 = (start ?q ds)\<lparr>it := keep_err None (it (start ?q ds)), caller := Idle\<rparr>"
  have q: "q_limit ?q = l" "q_op_limit ?q = m"
    using assms by (auto simp: Batch_def Limit_def no_limit_def int32_id)
  have s0: "it s0 = new_iter ?q" "requests s0 = [m]" "replies s0 = []" "arriving s0 = []" "rest s0 = ds" "caller s0 = Idle"
    using q by (simp_all add: s0_def start_def keep_err_def new_iter_def)
  have r0: "cursor_step p (start ?q ds) s0" unfolding s0_def by (rule cursor_step.started) (simp add: start_def)
  define c where "c = (if length ds = ?k then 0 else 1 :: int)"
  define s1 where "s1 = s0\<lparr>requests := [], replies := [(take ?k ds, c)], rest := drop ?k ds\<rparr>"
  have "answers m ds ?k c" using assms by (auto simp: answers_def c_def)
  then have r1: "cursor_step p s0 s1" using cursor_step.serve[of s0 m "[]" ?k c p] s0 by (simp add: s1_def)
  obtain d es where es0: "take ?k ds = d # es" using assms(1,4) by (cases "take ?k ds") auto
  moreover have "length (take ?k ds) = nat l + 1" using assms(1,4) by simp
  ultimately have es: "take ?k ds = d # es" "length es = nat l" by simp_all
  have rc: "reply_calls (d # es) c = Doc 0 (1 + l) c d # map (\<lambda>j. Doc (int j) (1 + l) c ((d # es) ! j)) [1..<Suc (length es)]"
    using reply_calls_Cons[of d es c] es(2) assms(1) by simp
  let ?ms = "map (\<lambda>j. Doc (int j) (1 + l) c ((d # es) ! j)) [1..<Suc (length es)]"
  have "Len (new_queue :: 'a queue) = 0" by (simp add: Len_def new_queue_def)
  then have "\<not> int32 (int (Len (new_queue :: 'a queue)) + (1 + l)) < l" using assms int32_id[of "1 + l"] by simp
  moreover have n: "queue_ok (docData (it s1))" "\<not> locked (it s1)" "contents (docData (it s1)) = []" "docData (it s1) = new_queue"
      "limit (it s1) = l" "ierr (it s1) = None"
    using s0 q new_queue_ok by (simp_all add: s1_def new_iter_def)
  moreover obtain w where "queue_ok w" "contents w = contents (docData (it s1)) @ [Some d]"
    and f: "replyFunc p (Doc 0 (1 + l) c d) (it s1) = Inr ((it s1)\<lparr>docsToReceive := docsToReceive (it s1) - 1 + (1 + l - 1),
        docData := w, cursorId := c, docsBeforeMore := (if limit (it s1) = 0 \<or> int32 (int (Len (docData (it s1))) + (1 + l)) < limit (it s1)
          then int (Len (docData (it s1))) + (1 + l) - p (1 + l) else -1)\<rparr>)"
    by (rule replyFunc_Doc[OF n(1,2), of d 0 p "1 + l" c])
  moreover define i where "i = (it s1)\<lparr>docsToReceive := docsToReceive (it s1) - 1 + (1 + l - 1),
        docData := w, cursorId := c, docsBeforeMore := (if limit (it s1) = 0 \<or> int32 (int (Len (docData (it s1))) + (1 + l)) < limit (it s1)
          then int (Len (docData (it s1))) + (1 + l) - p (1 + l) else -1)\<rparr>"
  ultimately have i: "replyFunc p (Doc 0 (1 + l) c d) (it s1) = Inr i" "holds [d] l i"
    using assms(1) by (simp_all add: holds_def)
  define s2 where "s2 = s1\<lparr>replies := [], arriving := ?ms, it := i, caller := wake (caller s1)\<rparr>"
  have r2: "cursor_step p s1 s2" unfolding s2_def
    by (rule cursor_step.begin_reply[OF _ _ rc i(1)]) (simp_all add: s1_def s0 es[simplified])
  have s2: "it s2 = i" "arriving s2 = ?ms" "caller s2 = Idle" by (simp_all add: s2_def s1_def s0 wake_def)
  have "list_all later (arriving s2)" unfolding s2 list_all_iff by (auto simp: later_def simp del: upt_Suc)
  then obtain n3 s3 where r3: "cursor_run p s2 n3 s3" "holds ([d] @ msg_docs ?ms) l (it s3)" "caller s3 = Idle"
    using deliver_all[of s2 "[d]" l p] i(2) s2 by metis
  have h: "holds (d # es) l (it s3)" using r3(2) msg_docs_later[of "1 + l" c d es] by simp
  then have "limit (it s3) = int (Suc (nat l - 1))" using assms(1) by (simp add: holds_def)
  moreover have "length (d # es) > Suc (nat l - 1)" using es(2) assms(1) by simp
  moreover have "holds (d # es) (limit (it s3)) (it s3)" using h by (simp add: holds_def)
  ultimately obtain n t where t: "cursor_run p s3 n t" "caller t = Idle"
      "Next (\<lambda>_. None) (\<lambda>_. None) None Sent (it t) = Inl (Panic ''data remains after limit exhausted'')"
    using pop_down[OF _ _ _ r3(3)] by blast
  have "cursor_run p (start ?q ds) (Suc (Suc (Suc 0))) s2" by (intro cursor_run.more[OF _ r2] cursor_run.more[OF _ r1] cursor_run.more[OF _ r0] cursor_run.none)
  then show ?thesis using run_trans[OF r3(1)] run_trans[OF t(1)] t(2,3) by blast
qed

text \<open>The queries of the witnesses.\<close>

theorem cursor_safe_witness:
  "\<exists>n s. cursor_run (\<lambda>r. r div 4) (start (Limit 2 no_limit) [10, 20, 30 :: int]) n s \<and> caller s = Ended \<and>
    popped s @ map the (contents (docData (it s))) @ msg_docs (arriving s) @ concat (map fst (replies s)) @ rest s = [10, 20, 30] \<and>
    int (length (popped s)) \<le> 2"
proof -
  have q: "query_ok (Limit 2 no_limit)" "q_limit (Limit 2 no_limit) = 2" using builders_ok(4)[of 2] by simp_all
  obtain n s where s: "cursor_run (\<lambda>r. r div 4) (start (Limit 2 no_limit) [10, 20, 30 :: int]) n s" "caller s = Ended"
    by (rule reaches_end[OF q(1)])
  show ?thesis using s cursor_safe[OF q(1) s(1)] q(2) by (intro exI[of _ n] exI[of _ s]) simp
qed

theorem cursor_terminates_witness:
  "\<exists>n s. cursor_run (\<lambda>r. r) (start (Batch 2 no_limit) ''abc'') n s \<and> n \<le> 21 \<and> caller s = Ended"
proof -
  have q: "query_ok (Batch 2 no_limit)" using builders_ok(3)[of 2] by simp
  obtain n s where s: "cursor_run (\<lambda>r. r) (start (Batch 2 no_limit) ''abc'') n s" "caller s = Ended"
    by (rule reaches_end[OF q])
  show ?thesis using s cursor_terminates[OF q s(1)] by (intro exI[of _ n] exI[of _ s]) simp
qed

theorem cursor_complete_witness:
  "\<exists>n s. cursor_run (\<lambda>r. r div 4) (start (Batch 2 (Limit 3 no_limit)) ''abcde'') n s \<and> popped s = ''abc'' \<and> Iter_Err (it s) = Inr None"
proof -
  have q: "query_ok (Batch 2 (Limit 3 no_limit))" "\<not> single (Batch 2 (Limit 3 no_limit))" "q_limit (Batch 2 (Limit 3 no_limit)) = 3"
    using builders_ok(5)[of 2 3] by simp_all
  obtain n s where s: "cursor_run (\<lambda>r. r div 4) (start (Batch 2 (Limit 3 no_limit)) ''abcde'') n s" "caller s = Ended"
    by (rule reaches_end[OF q(1)])
  show ?thesis using s(1) cursor_complete[OF q(1) s] q(2,3) by (intro exI[of _ n] exI[of _ s]) simp
qed

theorem batch_above_limit_panics_witness:
  "\<exists>n s. cursor_run (\<lambda>r. r div 4) (start (Batch 10 (Limit 1 no_limit)) ''ab'') n s \<and> caller s = Idle \<and>
    Next (\<lambda>_. None) (\<lambda>_. None) None Sent (it s) = Inl (Panic ''data remains after limit exhausted'')"
  by (rule batch_above_limit_panics) simp_all

end
