(* ===== verification/Pool.thy ===== *)
theory Pool
  imports Socket "HOL-Library.Multiset"
begin

text \<open>
  The connections of a server of the cluster (src/src/labix.org/v2/mgo/server.go): the sockets that are alive, and the
  cache of those that nobody uses. The calls of any number of goroutines are cut where they give up a lock, and their
  sections interleave. What is shown: a socket is never handed to two users at once, none of the panics on the number
  of references is reached, and a socket in the cache has no credentials; but the limit on connections can be
  exceeded.
\<close>

section \<open>The server\<close>

record 'f pool =
  socks :: "nat \<Rightarrow> 'f sock"
  made :: nat
  unusedSockets :: "nat list"
  liveSockets :: "nat list"
  closed :: bool
  abended :: bool

text \<open>The first section of \<open>AcquireSocket\<close>: an error, a socket from the cache, or the decision to connect.\<close>

datatype acquisition = Refusal string | Cached nat | Connecting

definition acquire_begin :: "int \<Rightarrow> 'f pool \<Rightarrow> acquisition \<times> 'f pool" where
  "acquire_begin limit p =
     (if closed p then (Refusal ''server was closed'', p)
      else let n = length (unusedSockets p) in
        if limit > 0 \<and> int (length (liveSockets p)) - int n \<ge> limit then (Refusal ''per-server connection limit reached'', p)
        else if n > 0 then (Cached (unusedSockets p ! (n - 1)), p\<lparr>unusedSockets := take (n - 1) (unusedSockets p)\<rparr>)
        else (Connecting, p))"

text \<open>\<open>newSocket\<close>, whose socket has one reference.\<close>

definition newSocket :: "'f sock" where
  "newSocket = \<lparr>nextRequestId = 0, replyFuncs = Map.empty, references = 1, auth = [], logout = [], dead = None, has_server = True,
     written = []\<rparr>"

definition Connect :: "'f pool \<Rightarrow> nat \<times> 'f pool" where
  "Connect p = (made p, p\<lparr>socks := (socks p)(made p := newSocket), made := made p + 1\<rparr>)"

text \<open>The last section, for a new socket; whether it is the caller's.\<close>

definition register :: "nat \<Rightarrow> 'f pool \<Rightarrow> bool \<times> 'f pool" where
  "register i p = (if closed p then (False, p) else (True, p\<lparr>liveSockets := liveSockets p @ [i]\<rparr>))"

definition RecycleSocket :: "nat \<Rightarrow> 'f pool \<Rightarrow> 'f pool" where
  "RecycleSocket i p = (if \<not> closed p then p\<lparr>unusedSockets := unusedSockets p @ [i]\<rparr> else p)"

fun removeSocket :: "nat list \<Rightarrow> nat \<Rightarrow> nat list" where
  "removeSocket [] i = []"
| "removeSocket (s # ss) i = (if s = i then ss else s # removeSocket ss i)"

definition AbendSocket :: "nat \<Rightarrow> 'f pool \<Rightarrow> 'f pool" where
  "AbendSocket i p =
     (let p = p\<lparr>abended := True\<rparr> in
      if closed p then p
      else p\<lparr>liveSockets := removeSocket (liveSockets p) i, unusedSockets := removeSocket (unusedSockets p) i\<rparr>)"

text \<open>The first section of \<open>Close\<close>, and the sockets that it then closes.\<close>

definition close_server :: "'f pool \<Rightarrow> nat list \<times> 'f pool" where
  "close_server p = (liveSockets p, p\<lparr>closed := True, liveSockets := [], unusedSockets := []\<rparr>)"

section \<open>Interleavings\<close>

text \<open>
  What calls have still to do: \<open>Initial\<close> and \<open>Register\<close> in \<open>AcquireSocket\<close>, \<open>Clean\<close> and \<open>Recycle\<close> in \<open>Release\<close> (\<open>Clean\<close> with
  whether the socket had its server), \<open>Abend\<close> in \<open>kill\<close>. \<open>held\<close> counts the references that the users of a socket have.
  A socket can be killed at any time (\<open>die\<close>), also by \<open>Close\<close>, and operations can be sent over it at any time, as
  \<open>newSocket\<close> does. The sections of a login are steps of their own, for a user that holds the socket.
\<close>

datatype todo = Initial nat | Register nat | Clean nat bool | Recycle nat | Abend nat

record 'f world =
  pool :: "'f pool"
  todos :: "todo multiset"
  held :: "nat \<Rightarrow> nat"

definition put :: "nat \<Rightarrow> 'f sock \<Rightarrow> 'f world \<Rightarrow> 'f world" where
  "put i s w = w\<lparr>pool := (pool w)\<lparr>socks := (socks (pool w))(i := s)\<rparr>\<rparr>"

definition sock_of :: "nat \<Rightarrow> 'f world \<Rightarrow> 'f sock" where
  "sock_of i w = socks (pool w) i"

definition let_go :: "nat \<Rightarrow> bool \<Rightarrow> 'f sock \<Rightarrow> todo multiset" where
  "let_go i recycled s = (if references s = 0 then {#Clean i recycled#} else {#})"

inductive pool_step :: "'f world \<Rightarrow> 'f world \<Rightarrow> bool" where
  cached: "acquire_begin l (pool w) = (Cached i, p) \<Longrightarrow> pool_step w (w\<lparr>pool := p, todos := add_mset (Initial i) (todos w)\<rparr>)"
| connect: "acquire_begin l (pool w) = (Connecting, p) \<Longrightarrow> Connect p = (i, p') \<Longrightarrow>
    pool_step w (w\<lparr>pool := p', todos := add_mset (Register i) (todos w)\<rparr>)"
| initial: "todos w = add_mset (Initial i) ts \<Longrightarrow> InitialAcquire (sock_of i w) = Inr s \<Longrightarrow>
    pool_step w ((put i s w)\<lparr>todos := ts, held := (held w)(i := held w i + 1)\<rparr>)"
| initial_dead: "todos w = add_mset (Initial i) ts \<Longrightarrow> InitialAcquire (sock_of i w) = Inl (Err e) \<Longrightarrow> pool_step w (w\<lparr>todos := ts\<rparr>)"
| registered: "todos w = add_mset (Register i) ts \<Longrightarrow> register i (pool w) = (True, p) \<Longrightarrow>
    pool_step w (w\<lparr>pool := p, todos := ts, held := (held w)(i := held w i + 1)\<rparr>)"
| refused: "todos w = add_mset (Register i) ts \<Longrightarrow> register i (pool w) = (False, p) \<Longrightarrow> Release (sock_of i w) = Inr (b, s) \<Longrightarrow>
    pool_step w ((put i s w)\<lparr>todos := let_go i b s + ts\<rparr>)"
| again: "held w i > 0 \<Longrightarrow> Acquire m (sock_of i w) = Inr (b, s) \<Longrightarrow> pool_step w ((put i s w)\<lparr>held := (held w)(i := held w i + 1)\<rparr>)"
| release: "held w i > 0 \<Longrightarrow> Release (sock_of i w) = Inr (b, s) \<Longrightarrow>
    pool_step w ((put i s w)\<lparr>held := (held w)(i := held w i - 1), todos := let_go i b s + todos w\<rparr>)"
| clean: "todos w = add_mset (Clean i b) ts \<Longrightarrow>
    pool_step w ((put i (LogoutAll (sock_of i w)) w)\<lparr>todos := (if b then {#Recycle i#} else {#}) + ts\<rparr>)"
| recycle: "todos w = add_mset (Recycle i) ts \<Longrightarrow> pool_step w (w\<lparr>pool := RecycleSocket i (pool w), todos := ts\<rparr>)"
| login: "held w i > 0 \<Longrightarrow> login_cached a (sock_of i w) = (found, s) \<Longrightarrow> pool_step w (put i s w)"
| logged_in: "held w i > 0 \<Longrightarrow> pool_step w (put i (record_auth a (sock_of i w)) w)"
| logging_out: "held w i > 0 \<Longrightarrow> pool_step w (put i (Logout d (sock_of i w)) w)"
| query: "i < made (pool w) \<Longrightarrow> Query wr ops (sock_of i w) = (e, fs, s) \<Longrightarrow> pool_step w (put i s w)"
| die: "i < made (pool w) \<Longrightarrow> kill x (sock_of i w) = (fs, s) \<Longrightarrow>
    pool_step w ((put i s w)\<lparr>todos := (if abend \<and> dead (sock_of i w) = None then {#Abend i#} else {#}) + todos w\<rparr>)"
| abend: "todos w = add_mset (Abend i) ts \<Longrightarrow> pool_step w (w\<lparr>pool := AbendSocket i (pool w), todos := ts\<rparr>)"
| close: "close_server (pool w) = (is, p) \<Longrightarrow> pool_step w (w\<lparr>pool := p\<rparr>)"

definition fresh_world :: "'f world" where
  "fresh_world = \<lparr>pool = \<lparr>socks = (\<lambda>_. newSocket\<lparr>references := 0\<rparr>), made = 0, unusedSockets = [], liveSockets = [], closed = False, abended = False\<rparr>,
     todos = {#}, held = (\<lambda>_. 0)\<rparr>"

inductive pool_reach :: "'f world \<Rightarrow> bool" where
  fresh: "pool_reach fresh_world"
| further: "pool_reach v \<Longrightarrow> pool_step v w \<Longrightarrow> pool_reach w"

section \<open>The invariant\<close>

text \<open>The places where a socket can wait for its next user.\<close>

definition parked :: "'f world \<Rightarrow> nat \<Rightarrow> nat" where
  "parked w i = count (todos w) (Initial i) + count (todos w) (Recycle i) + count_list (unusedSockets (pool w)) i"

definition leaving :: "'f world \<Rightarrow> nat \<Rightarrow> nat" where
  "leaving w i = count (todos w) (Register i) + count (todos w) (Clean i True) + count (todos w) (Clean i False)"

definition sock_ok :: "'f world \<Rightarrow> nat \<Rightarrow> bool" where
  "sock_ok w i \<longleftrightarrow> references (sock_of i w) = held w i + count (todos w) (Register i) \<and>
     parked w i + leaving w i + min 1 (held w i) \<le> 1 \<and> (i \<ge> made (pool w) \<longrightarrow> parked w i + leaving w i + held w i = 0) \<and>
     (parked w i > 0 \<longrightarrow> auth (sock_of i w) = [])"

lemma kill_fields: "references (snd (kill x s)) = references s" "auth (snd (kill x s)) = auth s"
  by (auto simp: kill_def)

lemma send_fields: "references (snd (snd (send wr s r))) = references s" "auth (snd (snd (send wr s r))) = auth s"
  by (cases r; cases "dead s"; cases wr; simp add: send_def Let_def split_beta)+

lemma Query_fields: "references (snd (snd (Query wr ops s))) = references s" "auth (snd (snd (Query wr ops s))) = auth s"
  by (simp_all add: Query_def flushLogout_def send_fields split: sum.split)

lemma Logout_references: "references (Logout d s) = references s"
  by (auto simp: Logout_def dropAuth_def Let_def split: prod.splits bool.splits)

lemma count_removeSocket: "count_list (removeSocket xs i) j \<le> count_list xs j"
  by (induction xs) auto

lemma count_last: "xs \<noteq> [] \<Longrightarrow> count_list xs j = count_list (take (length xs - 1) xs) j + (if xs ! (length xs - 1) = j then 1 else 0)"
  by (cases xs rule: rev_cases) auto

lemma put_simps [simp]:
  "todos (put i s w) = todos w" "held (put i s w) = held w" "unusedSockets (pool (put i s w)) = unusedSockets (pool w)"
  "made (pool (put i s w)) = made (pool w)" "sock_of j (put i s w) = (if j = i then s else sock_of j w)"
  by (auto simp: put_def sock_of_def)

lemma sock_of_update [simp]: "sock_of j (w\<lparr>todos := ts\<rparr>) = sock_of j w" "sock_of j (w\<lparr>held := h\<rparr>) = sock_of j w"
  by (simp_all add: sock_of_def)

lemma fresh_world_ok: "sock_ok fresh_world i"
  by (simp add: sock_ok_def fresh_world_def sock_of_def parked_def leaving_def)

lemma acquire_Cached:
  "acquire_begin l p = (Cached i, p') \<Longrightarrow> unusedSockets p \<noteq> [] \<and> i = unusedSockets p ! (length (unusedSockets p) - 1) \<and>
     p' = p\<lparr>unusedSockets := take (length (unusedSockets p) - 1) (unusedSockets p)\<rparr>"
  by (simp add: acquire_begin_def Let_def split: if_splits)

lemma acquire_Connecting: "acquire_begin l p = (Connecting, p') \<Longrightarrow> p' = p"
  by (simp add: acquire_begin_def Let_def split: if_splits)

text \<open>A step that leaves a socket in place.\<close>

lemma sock_ok_same:
  assumes "sock_ok v j" "references (sock_of j w) = references (sock_of j v)" "auth (sock_of j w) = auth (sock_of j v)"
    "held w j = held v j" "made (pool v) \<le> made (pool w)" "count (todos w) (Register j) = count (todos v) (Register j)"
    "parked w j \<le> parked v j" "leaving w j \<le> leaving v j"
  shows "sock_ok w j"
  using assms by (auto simp: sock_ok_def)

lemma step_cached:
  assumes "acquire_begin l (pool v) = (Cached i, p)" "sock_ok v j"
  shows "sock_ok (v\<lparr>pool := p, todos := add_mset (Initial i) (todos v)\<rparr>) j"
proof -
  have p: "unusedSockets (pool v) \<noteq> []" "i = unusedSockets (pool v) ! (length (unusedSockets (pool v)) - 1)"
    "p = (pool v)\<lparr>unusedSockets := take (length (unusedSockets (pool v)) - 1) (unusedSockets (pool v))\<rparr>"
    using acquire_Cached[OF assms(1)] by simp_all
  show ?thesis
    by (rule sock_ok_same[OF assms(2)]) (use count_last[OF p(1), of j] p(2) in \<open>simp_all add: p(3) sock_of_def parked_def leaving_def\<close>)
qed

lemma step_connect:
  assumes "Connect (pool v) = (i, p)" "sock_ok v j"
  shows "sock_ok (v\<lparr>pool := p, todos := add_mset (Register i) (todos v)\<rparr>) j"
  using assms by (cases "j = made (pool v)") (auto simp: Connect_def sock_ok_def sock_of_def parked_def leaving_def newSocket_def)

lemma step_initial:
  assumes "todos v = add_mset (Initial i) ts" "InitialAcquire (sock_of i v) = Inr s" "sock_ok v j"
  shows "sock_ok ((put i s v)\<lparr>todos := ts, held := (held v)(i := held v i + 1)\<rparr>) j"
proof -
  have s: "s = (sock_of i v)\<lparr>references := references (sock_of i v) + 1\<rparr>" "references (sock_of i v) = 0"
    using assms(2) by (auto simp: InitialAcquire_def split: if_splits option.splits)
  show ?thesis using assms(1,3) s(2) by (cases "j = i") (auto simp: s(1) sock_ok_def parked_def leaving_def)
qed

lemma step_registered:
  assumes "todos v = add_mset (Register i) ts" "register i (pool v) = (True, p)" "sock_ok v j"
  shows "sock_ok (v\<lparr>pool := p, todos := ts, held := (held v)(i := held v i + 1)\<rparr>) j"
proof -
  have p: "p = (pool v)\<lparr>liveSockets := liveSockets (pool v) @ [i]\<rparr>" using assms(2) by (simp add: register_def split: if_splits)
  show ?thesis using assms(1,3) by (cases "j = i") (auto simp: p sock_ok_def sock_of_def parked_def leaving_def)
qed

lemma Release_Inr:
  "Release s = Inr (b, t) \<Longrightarrow> references s > 0 \<and> t = s\<lparr>references := references s - 1\<rparr>"
  by (auto simp: Release_def Let_def split: if_splits)

lemma step_refused:
  assumes "todos v = add_mset (Register i) ts" "Release (sock_of i v) = Inr (b, s)" "sock_ok v j"
  shows "sock_ok ((put i s v)\<lparr>todos := let_go i b s + ts\<rparr>) j"
proof -
  have s: "references (sock_of i v) > 0" "references s = references (sock_of i v) - 1" "auth s = auth (sock_of i v)"
    using Release_Inr[OF assms(2)] by simp_all
  show ?thesis using assms(1,3) s by (cases "j = i"; cases b) (auto simp: let_go_def sock_ok_def parked_def leaving_def)
qed

lemma step_release:
  assumes "held v i > 0" "Release (sock_of i v) = Inr (b, s)" "sock_ok v j"
  shows "sock_ok ((put i s v)\<lparr>held := (held v)(i := held v i - 1), todos := let_go i b s + todos v\<rparr>) j"
proof -
  have s: "references (sock_of i v) > 0" "references s = references (sock_of i v) - 1" "auth s = auth (sock_of i v)"
    using Release_Inr[OF assms(2)] by simp_all
  show ?thesis using assms(1,3) s by (cases "j = i"; cases b) (auto simp: let_go_def sock_ok_def parked_def leaving_def)
qed

lemma step_clean:
  assumes "todos v = add_mset (Clean i b) ts" "sock_ok v j"
  shows "sock_ok ((put i (LogoutAll (sock_of i v)) v)\<lparr>todos := (if b then {#Recycle i#} else {#}) + ts\<rparr>) j"
  using assms by (cases "j = i"; cases b) (auto simp: LogoutAll_def sock_ok_def parked_def leaving_def)

lemma step_recycle:
  assumes "todos v = add_mset (Recycle i) ts" "sock_ok v j"
  shows "sock_ok (v\<lparr>pool := RecycleSocket i (pool v), todos := ts\<rparr>) j"
  using assms(1) by (intro sock_ok_same[OF assms(2)]) (auto simp: RecycleSocket_def sock_of_def parked_def leaving_def)

lemma step_put:
  assumes "sock_ok v j" "references s = references (sock_of i v)" "held v i > 0"
  shows "sock_ok (put i s v) j"
  using assms by (cases "j = i") (auto simp: sock_ok_def parked_def leaving_def)

lemma step_abend:
  assumes "todos v = add_mset (Abend i) ts" "sock_ok v j"
  shows "sock_ok (v\<lparr>pool := AbendSocket i (pool v), todos := ts\<rparr>) j"
  using assms(1) count_removeSocket[of "unusedSockets (pool v)" i j]
  by (intro sock_ok_same[OF assms(2)]) (auto simp: AbendSocket_def Let_def sock_of_def parked_def leaving_def)

lemma step_die:
  assumes "kill x (sock_of i v) = (fs, s)" "sock_ok v j"
  shows "sock_ok ((put i s v)\<lparr>todos := (if c then {#Abend i#} else {#}) + todos v\<rparr>) j"
  using kill_fields[of x "sock_of i v"] assms(1) by (intro sock_ok_same[OF assms(2)]) (auto simp: parked_def leaving_def)

lemma step_sock_ok:
  assumes "pool_step v w" "\<And>j. sock_ok v j"
  shows "sock_ok w j"
  using assms(1)
proof cases
  case (cached l i p)
  then show ?thesis using step_cached[OF _ assms(2)] by simp
next
  case (connect l p i p')
  then show ?thesis using step_connect[OF _ assms(2)] acquire_Connecting[of l "pool v" p] by simp
next
  case (initial i ts s)
  then show ?thesis using step_initial[OF _ _ assms(2)] by simp
next
  case (initial_dead i ts e)
  then show ?thesis using sock_ok_same[OF assms(2)[of j], of w] by (simp add: parked_def leaving_def)
next
  case (registered i ts p)
  then show ?thesis using step_registered[OF _ _ assms(2)] by simp
next
  case (refused i ts p b s)
  then show ?thesis using step_refused[OF _ _ assms(2)] by simp
next
  case (again i m b s)
  then have "s = (sock_of i v)\<lparr>references := references (sock_of i v) + 1\<rparr>" by (simp add: Acquire_def split: if_splits)
  then show ?thesis using again(1,2) assms(2)[of j] by (cases "j = i") (auto simp: sock_ok_def parked_def leaving_def)
next
  case (release i b s)
  then show ?thesis using step_release[OF _ _ assms(2)] by simp
next
  case (clean i b ts)
  then show ?thesis using step_clean[OF _ assms(2)] by simp
next
  case (recycle i ts)
  then show ?thesis using step_recycle[OF _ assms(2)] by simp
next
  case (login i a found s)
  then show ?thesis using step_put[OF assms(2)[of j], of s i] login_references(1)[of a "sock_of i v"] by simp
next
  case (logged_in i a)
  then show ?thesis using step_put[OF assms(2) login_references(2)] by simp
next
  case (logging_out i d)
  then show ?thesis using step_put[OF assms(2) Logout_references] by simp
next
  case (query i wr ops e fs s)
  then show ?thesis using sock_ok_same[OF assms(2)[of j], of w] Query_fields[of wr ops "sock_of i v"] by (simp add: parked_def leaving_def)
next
  case (die i x fs s abend)
  then show ?thesis using step_die[OF _ assms(2)] by simp
next
  case (abend i ts)
  then show ?thesis using step_abend[OF _ assms(2)] by simp
next
  case (close ids p)
  then show ?thesis using sock_ok_same[OF assms(2)[of j], of w] by (auto simp: close_server_def parked_def leaving_def sock_of_def)
qed

lemma reach_sock_ok: "pool_reach w \<Longrightarrow> sock_ok w i"
  by (induction arbitrary: i rule: pool_reach.induct) (blast intro: fresh_world_ok step_sock_ok)+

lemma distinct_by_count: "(\<And>i. count_list xs i \<le> 1) \<Longrightarrow> distinct xs"
proof (induction xs)
  case (Cons x xs)
  have "count_list xs i \<le> 1" for i using Cons.prems[of i] by (simp split: if_splits)
  moreover have "count_list xs x = 0" using Cons.prems[of x] by simp
  ultimately show ?case using Cons.IH by (simp add: count_list_0_iff)
qed simp

text \<open>C18: However the calls interleave, a socket in the cache has no user and no credentials and is there once; one that
  was taken out of the cache is for a single caller, whose \<open>InitialAcquire\<close> does not panic; and neither \<open>Acquire\<close> nor
  \<open>Release\<close> panics for a socket that has users.\<close>

theorem pool_safe:
  assumes "pool_reach w"
  shows "distinct (unusedSockets (pool w)) \<and>
    (\<forall>i \<in> set (unusedSockets (pool w)). held w i = 0 \<and> references (sock_of i w) = 0 \<and> auth (sock_of i w) = [] \<and> Initial i \<notin># todos w) \<and>
    (\<forall>i. Initial i \<in># todos w \<longrightarrow> held w i = 0 \<and> count (todos w) (Initial i) = 1 \<and> (\<forall>e. InitialAcquire (sock_of i w) \<noteq> Inl (Panic e))) \<and>
    (\<forall>i. held w i > 0 \<longrightarrow> references (sock_of i w) = held w i \<and> (\<exists>r. Acquire m (sock_of i w) = Inr r) \<and> (\<exists>r. Release (sock_of i w) = Inr r))"
proof (intro conjI ballI allI impI)
  have ok: "references (sock_of i w) = held w i + count (todos w) (Register i)" "parked w i + leaving w i + min 1 (held w i) \<le> 1"
    "parked w i > 0 \<Longrightarrow> auth (sock_of i w) = []" for i
    using reach_sock_ok[OF assms, of i] by (simp_all add: sock_ok_def)
  have "count_list (unusedSockets (pool w)) i \<le> 1" for i using ok(2)[of i] by (simp add: parked_def)
  then show "distinct (unusedSockets (pool w))" by (simp add: distinct_by_count)
  have idle: "held w i = 0" "count (todos w) (Register i) = 0" if "parked w i > 0" for i
    using ok(2)[of i] that by (cases "held w i"; simp add: leaving_def)+
  {
    fix i assume "i \<in> set (unusedSockets (pool w))"
    then have c: "count_list (unusedSockets (pool w)) i > 0" by (metis count_list_0_iff gr0I)
    then have p: "parked w i > 0" by (simp add: parked_def)
    show "held w i = 0" "references (sock_of i w) = 0" "auth (sock_of i w) = []" using idle[OF p] ok(1,3)[of i] p by simp_all
    show "Initial i \<notin># todos w" using c ok(2)[of i] by (auto simp: parked_def not_in_iff)
  }
  {
    fix i assume "Initial i \<in># todos w"
    then have c: "count (todos w) (Initial i) > 0" by simp
    then have p: "parked w i > 0" by (simp add: parked_def)
    show "held w i = 0" by (rule idle(1)[OF p])
    show "count (todos w) (Initial i) = 1" using c ok(2)[of i] unfolding parked_def by linarith
    fix e
    show "InitialAcquire (sock_of i w) \<noteq> Inl (Panic e)" using idle[OF p] ok(1)[of i] by (simp add: InitialAcquire_def split: option.split)
  }
  {
    fix i assume h: "held w i > 0"
    then show r: "references (sock_of i w) = held w i" using ok(1,2)[of i] by (cases "held w i") (auto simp: leaving_def)
    show "\<exists>r. Acquire m (sock_of i w) = Inr r" "\<exists>r. Release (sock_of i w) = Inr r"
      using r h by (simp_all add: Acquire_def Release_def Let_def)
  }
qed

text \<open>The limit on the connections in use does not hold when two goroutines connect at once, for a new socket is
  only counted once it is connected: with a limit of one, both get a socket.\<close>

theorem connection_limit_exceeded:
  "\<exists>(v :: 'f world) (w :: 'f world). pool_reach v \<and> acquire_begin 1 (pool v) = (Connecting, pool v) \<and> Register 0 \<in># todos v \<and>
     pool_reach w \<and> held w 0 = 1 \<and> held w 1 = 1 \<and> liveSockets (pool w) = [0, 1] \<and> unusedSockets (pool w) = []"
proof -
  define v :: "'f world" where "v = fresh_world\<lparr>pool := snd (Connect (pool fresh_world)), todos := {#Register 0#}\<rparr>"
  define u where "u = v\<lparr>pool := snd (Connect (pool v)), todos := {#Register 1, Register 0#}\<rparr>"
  define t where "t = u\<lparr>pool := snd (register 0 (pool u)), todos := {#Register 1#}, held := (held u)(0 := held u 0 + 1)\<rparr>"
  define w where "w = t\<lparr>pool := snd (register 1 (pool t)), todos := {#}, held := (held t)(1 := held t 1 + 1)\<rparr>"
  note D = v_def u_def t_def w_def fresh_world_def Connect_def register_def acquire_begin_def
  have "pool_step fresh_world v"
    using pool_step.connect[of 1 fresh_world "pool fresh_world" 0 "snd (Connect (pool fresh_world))"] by (simp add: v_def fresh_world_def Connect_def acquire_begin_def)
  moreover have a: "acquire_begin 1 (pool v) = (Connecting, pool v)" by (simp add: D)
  moreover have "pool_step v u"
    using pool_step.connect[OF a, of 1 "snd (Connect (pool v))"] by (simp add: D)
  moreover have "pool_step u t"
    using pool_step.registered[of u 0 "{#Register 1#}" "snd (register 0 (pool u))"] by (simp add: D)
  moreover have "pool_step t w"
    using pool_step.registered[of t 1 "{#}" "snd (register 1 (pool t))"] by (simp add: D)
  ultimately have "pool_reach v" "pool_reach w" using pool_reach.intros by metis+
  then show ?thesis using a by (intro exI[of _ v] exI[of _ w]) (simp add: D)
qed

theorem pool_safe_witness:
  "\<exists>w :: string world. pool_reach w \<and> held w 0 = 1 \<and> references (sock_of 0 w) = 1 \<and> (\<exists>r. Release (sock_of 0 w) = Inr r)"
proof -
  obtain w :: "string world" where w: "pool_reach w" "held w 0 = 1" using connection_limit_exceeded by blast
  then show ?thesis using pool_safe[OF w(1)] by (intro exI[of _ w]) simp
qed

end
