(* ===== verification/Session_Flow.thy ===== *)
theory Session_Flow
  imports Session
begin

text \<open>
  The references of the sockets that sessions share are balanced: no call panics for want of one, and closed sessions leave
  none behind. A session that wrote keeps to its connection; one whose new master dies before it is reserved panics.
\<close>

section \<open>Balance\<close>

definition keeps :: "session \<Rightarrow> nat \<Rightarrow> nat" where
  "keeps s i = (if masterSocket s = Some i then 1 else 0) + (if slaveSocket s = Some i then 1 else 0)"

definition refs :: "'f net \<Rightarrow> nat \<Rightarrow> nat" where
  "refs n i = references (n i)"

text \<open>A call that takes references for the session and \<open>u\<close> for the caller.\<close>

definition moves :: "session \<times> 'f net \<Rightarrow> (nat \<Rightarrow> nat) \<Rightarrow> session \<times> 'f net \<Rightarrow> bool" where
  "moves = (\<lambda>(s, n) u (s', n'). \<forall>j. refs n' j + keeps s j = refs n j + keeps s' j + u j)"

lemma acquire_ref_Inr: "acquire_ref m i n = Inr (b, n') \<Longrightarrow> refs n i > 0 \<and> refs n' = (refs n)(i := refs n i + 1)"
  by (auto simp: acquire_ref_def Acquire_def refs_def split: if_splits)

lemma acquire_ref_ok: "refs n i > 0 \<Longrightarrow> \<exists>b n'. acquire_ref m i n = Inr (b, n')"
  by (simp add: acquire_ref_def Acquire_def refs_def)

lemma release_ref_Inr: "release_ref i n = Inr n' \<Longrightarrow> refs n i > 0 \<and> refs n' = (refs n)(i := refs n i - 1)"
  by (auto simp: release_ref_def Release_def refs_def LogoutAll_def Let_def split: if_splits)

lemma release_ref_ok: "refs n i > 0 \<Longrightarrow> \<exists>n'. release_ref i n = Inr n'"
  by (simp add: release_ref_def Release_def refs_def Let_def)

lemma acquire_opt_Inr: "acquire_opt r n = Inr n' \<Longrightarrow> refs n' = (\<lambda>j. refs n j + (if r = Some j then 1 else 0))"
  by (auto simp: acquire_opt_def split: option.splits dest!: acquire_ref_Inr)

lemma release_opt_Inr: "release_opt r n = Inr n' \<Longrightarrow> refs n = (\<lambda>j. refs n' j + (if r = Some j then 1 else 0))"
  by (cases r) (auto simp: release_opt_def dest!: release_ref_Inr intro!: ext)

lemma release_opt_ok: "(\<And>i. r = Some i \<Longrightarrow> refs n i > 0) \<Longrightarrow> \<exists>n'. release_opt r n = Inr n'"
  by (cases r) (auto simp: release_opt_def release_ref_ok)

lemma acquire_opt_ok: "(\<And>i. r = Some i \<Longrightarrow> refs n i > 0) \<Longrightarrow> \<exists>n'. acquire_opt r n = Inr n'"
proof (cases r)
  case (Some i)
  assume "\<And>i. r = Some i \<Longrightarrow> refs n i > 0"
  then have "refs n i > 0" using Some by simp
  from acquire_ref_ok[OF this] obtain b n' where "acquire_ref False i n = Inr (b, n')" by blast
  then show ?thesis by (simp add: acquire_opt_def Some)
qed (simp add: acquire_opt_def)

lemma unsetSocket_moves: "unsetSocket (s, n) = Inr (s', n') \<Longrightarrow> moves (s, n) (\<lambda>_. 0) (s', n') \<and> keeps s' = (\<lambda>_. 0) \<and> has_cluster s' = has_cluster s"
  by (auto simp: unsetSocket_def moves_def keeps_def dest!: release_opt_Inr)

lemma unsetSocket_ok: "(\<And>i. keeps s i \<le> refs n i) \<Longrightarrow> \<exists>v. unsetSocket (s, n) = Inr v"
proof -
  assume h: "\<And>i. keeps s i \<le> refs n i"
  have "refs n i > 0" if "masterSocket s = Some i" for i using h[of i] that by (simp add: keeps_def)
  then obtain n' where n': "release_opt (masterSocket s) n = Inr n'" using release_opt_ok by blast
  have "refs n' i > 0" if "slaveSocket s = Some i" for i
    using h[of i] that release_opt_Inr[OF n'] by (simp add: keeps_def split: if_splits)
  then obtain n'' where "release_opt (slaveSocket s) n' = Inr n''" using release_opt_ok by blast
  then show ?thesis using n' by (simp add: unsetSocket_def)
qed

lemma holds_update [simp]:
  "keeps (s\<lparr>slaveOk := b\<rparr>) = keeps s" "keeps (s\<lparr>consistency := c\<rparr>) = keeps s" "keeps (s\<lparr>has_cluster := b\<rparr>) = keeps s"
  "keeps (s\<lparr>safeOp := x\<rparr>) = keeps s" "keeps (s\<lparr>s_auth := y\<rparr>) = keeps s"
  by (simp_all add: keeps_def fun_eq_iff)

lemma setSocket_moves:
  "setSocket m i (s, n) = Inr (s', n') \<Longrightarrow> moves (s, n) (\<lambda>_. 0) (s', n') \<and> has_cluster s' = has_cluster s \<and> consistency s' = consistency s"
  by (auto simp: setSocket_def moves_def keeps_def dest!: acquire_ref_Inr split: if_splits)

text \<open>A session that is closed keeps nothing.\<close>

definition sane :: "session \<Rightarrow> bool" where
  "sane s \<longleftrightarrow> (has_cluster s \<or> masterSocket s = None \<and> slaveSocket s = None)"

definition balanced :: "'f conns \<Rightarrow> bool" where
  "balanced w \<longleftrightarrow> (\<forall>i. refs (net w) i = users w i + sum_list (map (\<lambda>s. keeps s i) (sessions w))) \<and> (\<forall>s \<in> set (sessions w). sane s)"

lemma sum_list_update: "k < length xs \<Longrightarrow> sum_list (map f (xs[k := y])) + f (xs ! k) = sum_list (map f xs) + (f y :: nat)"
  by (induction xs arbitrary: k) (auto split: nat.split)

lemma balanced_update:
  assumes "balanced w" "k < length (sessions w)" "moves (at_session k w) u (s, n)" "sane s"
  shows "balanced ((set_session k (s, n) w)\<lparr>users := (\<lambda>i. users w i + u i)\<rparr>)"
proof -
  have "refs n i = users w i + u i + sum_list (map (\<lambda>s. keeps s i) ((sessions w)[k := s]))" for i
  proof -
    have "refs n i + keeps (sessions w ! k) i = refs (net w) i + keeps s i + u i" using assms(3) by (simp add: moves_def at_session_def)
    moreover have "refs (net w) i = users w i + sum_list (map (\<lambda>s. keeps s i) (sessions w))" using assms(1) by (simp add: balanced_def)
    ultimately show ?thesis using sum_list_update[OF assms(2), of "\<lambda>s. keeps s i" s] by linarith
  qed
  moreover have "\<forall>t \<in> set ((sessions w)[k := s]). sane t" using assms(1,4) set_update_subset_insert[of "sessions w" k s] by (auto simp: balanced_def)
  ultimately show ?thesis by (simp add: balanced_def set_session_def)
qed

lemma balanced_session:
  assumes "balanced w" "k < length (sessions w)" "moves (at_session k w) (\<lambda>_. 0) v" "sane (fst v)"
  shows "balanced (set_session k v w)"
  using balanced_update[OF assms(1,2), of "\<lambda>_. 0" "fst v" "snd v"] assms(3,4) by (simp add: set_session_def split_beta)

lemma balanced_use:
  assumes "balanced w" "k < length (sessions w)" "moves (at_session k w) (\<lambda>j. if j = i then 1 else 0) (s, n)" "sane s"
  shows "balanced (use i (set_session k (s, n) w))"
proof -
  have "use i (set_session k (s, n) w) = (set_session k (s, n) w)\<lparr>users := (\<lambda>j. users w j + (if j = i then 1 else 0))\<rparr>"
    by (auto simp: use_def set_session_def fun_eq_iff)
  then show ?thesis using balanced_update[OF assms] by simp
qed

lemma held_refs: "balanced w \<Longrightarrow> k < length (sessions w) \<Longrightarrow> keeps (sessions w ! k) i + users w i \<le> refs (net w) i"
proof -
  assume b: "balanced w" "k < length (sessions w)"
  have "keeps (sessions w ! k) i \<le> sum_list (map (\<lambda>s. keeps s i) (sessions w))"
    using b(2) by (intro member_le_sum_list) simp_all
  then show ?thesis using b(1) by (simp add: balanced_def)
qed

lemma unsetSocket_step:
  assumes "unsetSocket (s, n) = Inr (s', n')" "keeps s = keeps t"
  shows "moves (t, n) (\<lambda>_. 0) (s', n')" "sane s'"
proof -
  have "masterSocket s' = None" "slaveSocket s' = None" using assms(1) by (auto simp: unsetSocket_def)
  then show "sane s'" by (simp add: sane_def)
  show "moves (t, n) (\<lambda>_. 0) (s', n')" using unsetSocket_moves[OF assms(1)] assms(2) by (simp add: moves_def)
qed

lemma moves_same: "keeps s = keeps s' \<Longrightarrow> moves (s, n) (\<lambda>_. 0) (s', n)"
  by (simp add: moves_def)

lemma Refresh_moves: "Refresh (s, n) = Inr (s', n') \<Longrightarrow> moves (s, n) (\<lambda>_. 0) (s', n') \<and> sane s'"
  using unsetSocket_step[of "s\<lparr>slaveOk := (consistency s \<noteq> Strong)\<rparr>" n s' n' s] by (simp add: Refresh_def)

lemma SetMode_moves:
  assumes "SetMode c r (s, n) = Inr (s', n')" "sane s"
  shows "moves (s, n) (\<lambda>_. 0) (s', n') \<and> sane s'"
proof (cases r)
  case True
  then show ?thesis using unsetSocket_step[of "s\<lparr>consistency := c, slaveOk := (c \<noteq> Strong)\<rparr>" n s' n' s] assms(1) by (simp add: SetMode_def Let_def)
next
  case False
  then have "n' = n" "keeps s = keeps s'" "sane s'" using assms by (auto simp: SetMode_def Let_def sane_def split: if_splits)
  then show ?thesis using moves_same by simp
qed

lemma Session_Close_moves:
  assumes "Session_Close (s, n) = Inr (s', n')" "sane s"
  shows "moves (s, n) (\<lambda>_. 0) (s', n') \<and> sane s'"
proof (cases "has_cluster s")
  case True
  then obtain t where t: "unsetSocket (s, n) = Inr (t, n')" "s' = t\<lparr>has_cluster := False\<rparr>" using assms(1) by (auto simp: Session_Close_def)
  then have "masterSocket t = None" "slaveSocket t = None" by (auto simp: unsetSocket_def)
  then show ?thesis using unsetSocket_step(1)[OF t(1) refl] t(2) by (simp add: sane_def moves_def)
next
  case False
  then show ?thesis using assms by (auto simp: Session_Close_def intro: moves_same)
qed

lemma copySession_Inr:
  "copySession a (s, n) = Inr (s', n') \<Longrightarrow> (\<forall>j. refs n' j = refs n j + keeps s' j) \<and> has_cluster s' \<and> keeps s' = keeps s"
  by (auto simp: copySession_def keeps_def dest!: acquire_opt_Inr split: if_splits)

lemma copySession_ok:
  assumes "has_cluster s" "\<And>i. keeps s i \<le> refs n i"
  shows "\<exists>v. copySession a (s, n) = Inr v"
proof -
  have "refs n i > 0" if "masterSocket s = Some i" for i using assms(2)[of i] that by (simp add: keeps_def)
  then obtain n' where n': "acquire_opt (masterSocket s) n = Inr n'" using acquire_opt_ok by blast
  have "refs n' i > 0" if "slaveSocket s = Some i" for i
    using assms(2)[of i] that acquire_opt_Inr[OF n'] by (simp add: keeps_def)
  then obtain n'' where "acquire_opt (slaveSocket s) n' = Inr n''" using acquire_opt_ok by blast
  then show ?thesis using n' assms(1) by (simp add: copySession_def)
qed

lemma Login_dead: "dead (snd (Login a r k)) = dead k"
  by (cases r) (simp_all add: Login_def login_cached_def record_auth_def dropLogout_def dropAuth_def flushLogout_def Let_def split_beta split: bool.split)

lemma socketLogin_dead: "dead (snd (socketLogin talk as k)) = dead k"
proof (induction as arbitrary: k)
  case (Cons a as)
  obtain e t where t: "Login a (talk a) k = (e, t)" by fastforce
  then have "dead t = dead k" using Login_dead[of a "talk a" k] by simp
  then show ?case using Cons by (simp add: t split: option.split)
qed simp

lemma socketLogin_references: "references (snd (socketLogin talk as k)) = references k"
proof (induction as arbitrary: k)
  case (Cons a as)
  obtain e t where t: "Login a (talk a) k = (e, t)" by fastforce
  then have "references t = references k" using Login_references[of a "talk a" k] by simp
  then show ?case using Cons by (simp add: t split: option.split)
qed simp

definition one :: "nat \<Rightarrow> nat \<Rightarrow> nat" where
  "one i j = (if j = i then 1 else 0)"

lemma reserved_socket_kept: "reserved_socket ok s = Some i \<Longrightarrow> keeps s i > 0"
  by (auto simp: reserved_socket_def keeps_def split: option.splits if_splits)

lemma acquire_locked_moves:
  assumes "acquire_locked ok c talk m (s, n) = Inr (r, s', n')" "sane s" "case c of Inl _ \<Rightarrow> True | Inr (i, d) \<Rightarrow> refs n i = 0 \<and> references d = 1"
  shows "moves (s, n) (case r of Inl _ \<Rightarrow> (\<lambda>_. 0) | Inr i \<Rightarrow> one i) (s', n') \<and> sane s'"
proof (cases "reserved_socket ok s")
  case (Some i)
  then obtain b where "acquire_ref False i n = Inr (b, n')" "r = Inr i" "s' = s" using assms(1) by (auto simp: acquire_locked_def)
  then show ?thesis using acquire_ref_Inr[of False i n b n'] assms(2) by (simp add: moves_def one_def)
next
  case None
  then have h: "has_cluster s" using assms(1) by (auto simp: acquire_locked_def split: if_splits)
  show ?thesis
  proof (cases c)
    case (Inl e)
    then show ?thesis using assms(1,2) None h by (auto simp: acquire_locked_def moves_def)
  next
    case (Inr p)
    obtain i d where p: "p = (i, d)" by fastforce
    have i: "refs n i = 0" "references d = 1" using assms(3) by (simp_all add: Inr p)
    obtain e k where k: "socketLogin talk (s_auth s) d = (e, k)" by fastforce
    then have "references k = 1" using socketLogin_references[of talk "s_auth s" d] i(2) by simp
    then have n: "refs (n(i := k)) = (\<lambda>j. refs n j + one i j)" using i(1) by (auto simp: refs_def one_def)
    show ?thesis
    proof (cases e)
      case (Some x)
      then have "release_ref i (n(i := k)) = Inr n'" "r = Inl (Err x)" "s' = s" using assms(1) None h k by (auto simp: acquire_locked_def Inr p)
      then show ?thesis using release_ref_Inr[of i "n(i := k)" n'] assms(2) unfolding n by (simp add: moves_def one_def)
    next
      case None': None
      obtain t where t: "(if consistency s \<noteq> Eventual \<or> slaveSocket s \<noteq> None then setSocket m i (s, n(i := k)) else Inr (s, n(i := k))) = Inr (t, n')"
          "r = Inr i" "keeps s' = keeps t" "has_cluster s' = has_cluster t"
        using assms(1) None None' h k by (auto simp: acquire_locked_def Inr p split: if_splits)
      have "moves (s, n(i := k)) (\<lambda>_. 0) (t, n') \<and> has_cluster t"
        using t(1) setSocket_moves[of m i s "n(i := k)" t n'] h by (auto simp: moves_same split: if_splits)
      then show ?thesis using t(2-4) unfolding moves_def prod.case n by (auto simp: sane_def)
    qed
  qed
qed

lemma logout_opt_refs [simp]: "refs (logout_opt d r n) = refs n"
  by (auto simp: logout_opt_def refs_def Logout_def dropAuth_def Let_def fun_eq_iff split: option.split prod.splits bool.splits)

lemma Database_Logout_moves:
  assumes "Database_Logout d (s, n) = (s', n')" "sane s"
  shows "moves (s, n) (\<lambda>_. 0) (s', n') \<and> sane s'"
  using assms by (auto simp: Database_Logout_def moves_def sane_def split: prod.splits if_splits)

lemma logouts_refs: "refs (foldl (\<lambda>n a. logout_opt (db a) x (logout_opt (db a) y n)) n as) = refs n"
  by (induction as arbitrary: n) simp_all

lemma Session_LogoutAll_moves:
  assumes "Session_LogoutAll (s, n) = (s', n')" "sane s"
  shows "moves (s, n) (\<lambda>_. 0) (s', n') \<and> sane s'"
  using assms by (auto simp: Session_LogoutAll_def moves_def sane_def logouts_refs)

lemma balanced_sane: "balanced w \<Longrightarrow> k < length (sessions w) \<Longrightarrow> sane (sessions w ! k)"
  by (simp add: balanced_def)

text \<open>A call of a session that takes no reference for its caller.\<close>

lemma balanced_call:
  assumes "balanced w" "k < length (sessions w)" "moves (sessions w ! k, net w) (\<lambda>_. 0) (fst v, snd v) \<and> sane (fst v)"
  shows "balanced (set_session k v w)"
  using balanced_session[OF assms(1,2)] assms(3) by (simp add: at_session_def)

lemma one_use: "(\<lambda>j. if j = i then 1 else 0) = one i"
  by (simp add: one_def fun_eq_iff)

lemma step_balanced:
  assumes "session_step v w" "balanced v"
  shows "balanced w"
  using assms(1)
proof cases
  case (fast k ok i n)
  let ?s = "sessions v ! k"
  obtain b where "reserved_socket ok ?s = Some i" and a: "acquire_ref False i (net v) = Inr (b, n)"
    using fast(3) by (auto simp: acquire_reserved_def at_session_def split: option.splits)
  then have "moves (at_session k v) (\<lambda>j. if j = i then 1 else 0) (?s, n)" using acquire_ref_Inr[OF a] by (simp add: moves_def at_session_def)
  from balanced_use[OF assms(2) fast(2) this balanced_sane[OF assms(2) fast(2)]]
  show ?thesis by (simp add: fast(1) set_session_def list_update_id)
next
  case (slow k i d ok talk m j s n)
  have "moves (sessions v ! k, net v) (one j) (s, n) \<and> sane s"
    using acquire_locked_moves[of ok "Inr (i, d)" talk m "sessions v ! k" "net v" "Inr j" s n] slow(3-5) balanced_sane[OF assms(2) slow(2)]
    by (simp add: at_session_def refs_def)
  then show ?thesis using balanced_use[OF assms(2) slow(2), of j s n] by (simp add: slow(1) at_session_def one_use)
next
  case (slow_error k c ok talk m e s n)
  have "case c of Inl _ \<Rightarrow> True | Inr (i, d) \<Rightarrow> refs (net v) i = 0 \<and> references d = 1" using slow_error(3) unfolding refs_def .
  from acquire_locked_moves[OF slow_error(4)[unfolded at_session_def] balanced_sane[OF assms(2) slow_error(2)] this]
  show ?thesis using balanced_call[OF assms(2) slow_error(2), of "(s, n)"] by (simp add: slow_error(1))
next
  case (done_with i n)
  have "refs n = (refs (net v))(i := refs (net v) i - 1)" using release_ref_Inr[OF done_with(3)] by simp
  then show ?thesis using assms(2) done_with(2) by (auto simp: done_with(1) balanced_def)
next
  case (refresh k u)
  then show ?thesis using balanced_call[OF assms(2) refresh(2), of u] Refresh_moves[of "sessions v ! k" "net v" "fst u" "snd u"] by (simp add: at_session_def)
next
  case (set_mode k c r u)
  then show ?thesis using balanced_call[OF assms(2) set_mode(2), of u] SetMode_moves[of c r "sessions v ! k" "net v" "fst u" "snd u"]
      balanced_sane[OF assms(2) set_mode(2)] by (simp add: at_session_def)
next
  case (copied k a s n)
  have "\<forall>j. refs n j = refs (net v) j + keeps s j" "has_cluster s" using copySession_Inr[of a "sessions v ! k" "net v" s n] copied(3) by (simp_all add: at_session_def)
  then show ?thesis using assms(2) by (simp add: copied(1) balanced_def sane_def)
next
  case (closed k u)
  then show ?thesis using balanced_call[OF assms(2) closed(2), of u] Session_Close_moves[of "sessions v ! k" "net v" "fst u" "snd u"]
      balanced_sane[OF assms(2) closed(2)] by (simp add: at_session_def)
next
  case (safety k x)
  then show ?thesis using balanced_call[OF assms(2) safety(2)] balanced_sane[OF assms(2) safety(2)] by (simp add: moves_def sane_def)
next
  case (logged_in k a)
  then show ?thesis using balanced_call[OF assms(2) logged_in(2)] balanced_sane[OF assms(2) logged_in(2)] by (simp add: moves_def sane_def remember_login_def)
next
  case (logged_out k d)
  obtain s n where u: "Database_Logout d (sessions v ! k, net v) = (s, n)" by fastforce
  show ?thesis using balanced_call[OF assms(2) logged_out(2), of "(s, n)"] Database_Logout_moves[OF u balanced_sane[OF assms(2) logged_out(2)]]
    by (simp add: at_session_def u logged_out(1))
next
  case (all_logged_out k)
  obtain s n where u: "Session_LogoutAll (sessions v ! k, net v) = (s, n)" by fastforce
  show ?thesis using balanced_call[OF assms(2) all_logged_out(2), of "(s, n)"] Session_LogoutAll_moves[OF u balanced_sane[OF assms(2) all_logged_out(2)]]
    by (simp add: at_session_def u all_logged_out(1))
next
  case (other d i)
  then have "refs (net w) = refs (net v)" by (simp add: refs_def fun_eq_iff)
  then show ?thesis using assms(2) other(1) by (simp add: balanced_def)
qed

lemma reach_balanced: "session_reach w \<Longrightarrow> balanced w"
proof (induction rule: session_reach.induct)
  case (dialed n c a)
  then show ?case by (simp add: balanced_def refs_def newSession_def keeps_def sane_def)
next
  case (onwards v w)
  then show ?case by (blast intro: step_balanced)
qed

text \<open>C19: However the calls of sessions interleave, a socket has as many references as it has users and sessions that reserve it:
  no call panics on the number of references, and when all sessions are closed only the users are left.\<close>

theorem references_balanced:
  assumes "session_reach w"
  shows "(\<forall>i. references (net w i) = users w i + sum_list (map (\<lambda>s. keeps s i) (sessions w))) \<and>
    (\<forall>i. users w i > 0 \<longrightarrow> (\<exists>n. release_ref i (net w) = Inr n)) \<and>
    (\<forall>k < length (sessions w). (\<exists>v. Refresh (at_session k w) = Inr v) \<and> (\<exists>v. Session_Close (at_session k w) = Inr v) \<and>
       (has_cluster (sessions w ! k) \<longrightarrow> (\<exists>v. copySession a (at_session k w) = Inr v)) \<and>
       (\<forall>r. acquire_reserved ok (at_session k w) = Some r \<longrightarrow> (\<exists>x. r = Inr x))) \<and>
    ((\<forall>s \<in> set (sessions w). \<not> has_cluster s) \<longrightarrow> (\<forall>i. references (net w i) = users w i))"
proof (intro conjI allI impI)
  have b: "balanced w" by (rule reach_balanced[OF assms])
  fix i
  show r: "references (net w i) = users w i + sum_list (map (\<lambda>s. keeps s i) (sessions w))" using b by (simp add: balanced_def refs_def)
  show "\<exists>n. release_ref i (net w) = Inr n" if "users w i > 0" by (rule release_ref_ok) (use r that in \<open>simp add: refs_def\<close>)
  show "references (net w i) = users w i" if "\<forall>s \<in> set (sessions w). \<not> has_cluster s"
  proof -
    have "\<forall>s \<in> set (sessions w). keeps s i = 0" using b that by (auto simp: balanced_def sane_def keeps_def)
    then have "sum_list (map (\<lambda>s. keeps s i) (sessions w)) = 0" by simp
    then show ?thesis using r by simp
  qed
next
  fix k assume k: "k < length (sessions w)"
  note h = held_refs[OF reach_balanced[OF assms] k]
  have le: "keeps (sessions w ! k) i \<le> refs (net w) i" for i using h[of i] by simp
  show "\<exists>v. Refresh (at_session k w) = Inr v" using unsetSocket_ok[of "(sessions w ! k)\<lparr>slaveOk := (consistency (sessions w ! k) \<noteq> Strong)\<rparr>" "net w"] le
    by (simp add: Refresh_def at_session_def)
  obtain s n where "unsetSocket (sessions w ! k, net w) = Inr (s, n)" using unsetSocket_ok[of "sessions w ! k" "net w"] le by fastforce
  then show "\<exists>v. Session_Close (at_session k w) = Inr v" by (simp add: Session_Close_def at_session_def)
  show "\<exists>v. copySession a (at_session k w) = Inr v" if "has_cluster (sessions w ! k)"
    using copySession_ok[OF that le] by (simp add: at_session_def)
  show "\<exists>x. r = Inr x" if a: "acquire_reserved ok (at_session k w) = Some r" for r
  proof -
    obtain i where i: "reserved_socket ok (sessions w ! k) = Some i" "r = bindE (acquire_ref False i (net w)) (\<lambda>(_, n). Inr (i, n))"
      using a by (cases "reserved_socket ok (sessions w ! k)") (simp_all add: acquire_reserved_def at_session_def)
    have "refs (net w) i > 0" using reserved_socket_kept[OF i(1)] le[of i] by simp
    from acquire_ref_ok[OF this, of False] show ?thesis by (auto simp: i(2))
  qed
qed

section \<open>Consistency\<close>

text \<open>C20: In the stronger modes a write pins the master: once a session acquired a socket for a write, and it is a live one of the
  master, every further operation, reads included, uses this socket, and the session stays as it is.\<close>

theorem writes_pin_the_master:
  assumes "masterSocket s = None" "consistency s \<noteq> Eventual" "dead d = None" "acquire_locked False (Inr (i, d)) talk True (s, n) = Inr (Inr j, s', n')"
  shows "j = i \<and> masterSocket s' = Some i \<and> (consistency s = Monotonic \<longrightarrow> \<not> slaveOk s') \<and>
    (\<forall>ok c talk m n r t n'. acquire_locked ok c talk m (s', n) = Inr (r, t, n') \<longrightarrow> r = Inr i \<and> t = s')"
proof -
  have r: "reserved_socket False s = None" using assms(1) by (simp add: reserved_socket_def)
  obtain e k where k: "socketLogin talk (s_auth s) d = (e, k)" by fastforce
  then have dk: "dead k = None" using socketLogin_dead[of talk "s_auth s" d] assms(3) by simp
  have e: "e = None" using assms(4) r k by (auto simp: acquire_locked_def split: if_splits option.splits)
  have h: "has_cluster s" using assms(4) r by (auto simp: acquire_locked_def split: if_splits)
  obtain t v where t': "setSocket True i (s, n(i := k)) = Inr (t, v)"
    using assms(2,4) r k e h by (cases "setSocket True i (s, n(i := k))") (auto simp: acquire_locked_def)
  then have "j = i \<and> s' = (if consistency t = Monotonic then t\<lparr>slaveOk := False\<rparr> else t)"
    using assms(2,4) r k e h by (simp add: acquire_locked_def)
  with t' have t: "setSocket True i (s, n(i := k)) = Inr (t, v)" "j = i" "s' = (if consistency t = Monotonic then t\<lparr>slaveOk := False\<rparr> else t)" by simp_all
  have m: "masterSocket t = Some i" "consistency t = consistency s" using t(1) dk assms(1)
    by (cases "references k > 0"; auto simp: setSocket_def acquire_ref_def Acquire_def)+
  then have m': "masterSocket s' = Some i" by (simp add: t(3))
  then have "reserved_socket ok s' = Some i" for ok by (simp add: reserved_socket_def)
  then have p: "\<forall>ok c talk m n r u n'. acquire_locked ok c talk m (s', n) = Inr (r, u, n') \<longrightarrow> r = Inr i \<and> u = s'"
    by (auto simp: acquire_locked_def)
  have "consistency s = Monotonic \<longrightarrow> \<not> slaveOk s'" using m(2) t(3) by simp
  with p m' t(2) show ?thesis by simp
qed

section \<open>What goes wrong\<close>

definition blank :: "nat \<Rightarrow> string option \<Rightarrow> 'f sock" where
  "blank r e = \<lparr>nextRequestId = 0, replyFuncs = Map.empty, references = r, auth = [], logout = [], dead = e, has_server = (e = None), written = []\<rparr>"

text \<open>A connection to the master that dies before the session has reserved it ends the program, if the session has read from a
  slave: it is taken for another one of a slave. (The same goes for two such connections in the strong mode.)\<close>

lemma dying_connections_panic:
  "\<exists>w. session_reach w \<and> consistency (sessions w ! 0) = Monotonic \<and> masterSocket (sessions w ! 0) = None \<and> references (net w 1) = 0 \<and>
     acquire_locked False (Inr (1, blank 1 (Some ''EOF''))) talk m (at_session 0 w) =
       Inl (Panic ''setSocket(slave) with existing slave socket reserved'')"
proof -
  define v where "v = \<lparr>sessions = [newSession Monotonic None], net = (\<lambda>_. blank 0 None) :: 'a net, users = (\<lambda>_. 0)\<rparr>"
  define s where "s = (newSession Monotonic None)\<lparr>slaveSocket := Some 0\<rparr>"
  define n where "n = (net v)(0 := blank (Suc (Suc 0)) None)"
  have "session_reach v" unfolding v_def by (rule dialed) (simp add: blank_def)
  moreover have "session_step v (use 0 (set_session 0 (s, n) v))"
    by (rule slow[of 0 v 0 "blank 1 None" True _ False])
      (simp_all add: v_def s_def n_def blank_def newSession_def acquire_locked_def reserved_socket_def at_session_def setSocket_def acquire_ref_def Acquire_def)
  ultimately have "session_reach (use 0 (set_session 0 (s, n) v))" by (rule onwards)
  then show ?thesis
    by (intro exI[of _ "use 0 (set_session 0 (s, n) v)"])
      (simp add: v_def s_def n_def blank_def newSession_def use_def set_session_def acquire_locked_def reserved_socket_def at_session_def setSocket_def acquire_ref_def Acquire_def)
qed

text \<open>A second login on a database is not recorded: the sockets to come are logged in as the first user.\<close>

lemma second_login_not_recorded:
  assumes "b \<in> set (s_auth s)" "db b = db a" "user b \<noteq> user a" "distinct (map db (s_auth s))"
  shows "b \<in> set (s_auth (remember_login a s)) \<and> a \<notin> set (s_auth (remember_login a s))"
proof -
  have "a \<notin> set (s_auth s)"
  proof
    assume "a \<in> set (s_auth s)"
    then have "a = b" using assms(1,2,4) by (auto simp: distinct_map dest: inj_onD)
    then show False using assms(3) by simp
  qed
  then show ?thesis using assms(1,2) by (auto simp: remember_login_def)
qed

section \<open>Safe writes\<close>

fun no_stricter :: "ack option \<Rightarrow> ack option \<Rightarrow> bool" where
  "no_stricter None w = True"
| "no_stricter (Some (AckCount i)) (Some (AckCount j)) = (i \<le> j)"
| "no_stricter (Some (AckCount i)) (Some (AckMode m)) = True"
| "no_stricter (Some (AckMode m)) (Some (AckMode k)) = True"
| "no_stricter (Some v) w = False"

text \<open>\<open>EnsureSafe\<close> takes the stricter choice of each setting, and never switches the checks off; a mode counts as
  stricter than a number of servers.\<close>

theorem ensureSafe_never_weakens:
  "\<exists>cmd'. ensureSafe (Some s) (Some cmd) = Some cmd' \<and> no_stricter (W cmd) (W cmd') \<and> no_stricter (ack_of s) (W cmd') \<and>
     (FSync cmd' = (FSync cmd \<or> safe_FSync s)) \<and> (J cmd \<or> safe_J s \<longrightarrow> J cmd' \<or> FSync cmd') \<and>
     WTimeout cmd' = (if safe_WTimeout s > 0 then min (safe_WTimeout s) (WTimeout cmd) else WTimeout cmd)"
  by (cases "W cmd"; cases "the (W cmd)") (auto simp: ensureSafe_def ack_of_def Let_def min_def)

section \<open>Witnesses\<close>

theorem writes_pin_the_master_witness:
  "\<exists>s' n'. acquire_locked False (Inr (0, blank 1 None)) (\<lambda>_. Accepted) True (newSession Monotonic None, (\<lambda>_. blank 0 None :: string sock)) = Inr (Inr 0, s', n') \<and>
     masterSocket s' = Some 0 \<and> \<not> slaveOk s'"
proof -
  have "\<exists>s' n'. acquire_locked False (Inr (0, blank 1 None)) (\<lambda>_. Accepted) True (newSession Monotonic None, (\<lambda>_. blank 0 None :: string sock)) = Inr (Inr 0, s', n')"
    by (simp add: blank_def newSession_def acquire_locked_def reserved_socket_def setSocket_def acquire_ref_def Acquire_def)
  then obtain s' n' where r: "acquire_locked False (Inr (0, blank 1 None)) (\<lambda>_. Accepted) True (newSession Monotonic None, (\<lambda>_. blank 0 None :: string sock)) = Inr (Inr 0, s', n')" by blast
  have "masterSocket (newSession Monotonic None) = None" "consistency (newSession Monotonic None) = Monotonic" "dead (blank 1 None :: string sock) = None"
    by (simp_all add: newSession_def blank_def)
  then have p: "masterSocket s' = Some 0 \<and> (consistency (newSession Monotonic None) = Monotonic \<longrightarrow> \<not> slaveOk s')"
    using writes_pin_the_master[OF _ _ _ r] by (metis mode.distinct(1))
  have "masterSocket s' = Some 0 \<and> \<not> slaveOk s'" using p by (simp add: newSession_def)
  with r show ?thesis by blast
qed

theorem references_balanced_witness:
  "\<exists>w :: string conns. session_reach w \<and> references (net w 0) = Suc (Suc 0) \<and> users w 0 = 1 \<and> (\<exists>n. release_ref 0 (net w) = Inr n)"
proof -
  define v where "v = \<lparr>sessions = [newSession Strong None], net = (\<lambda>_. blank 0 None) :: string net, users = (\<lambda>_. 0)\<rparr>"
  define s where "s = (newSession Strong None)\<lparr>masterSocket := Some 0\<rparr>"
  define n where "n = (net v)(0 := blank (Suc (Suc 0)) None)"
  have "session_reach v" unfolding v_def by (rule dialed) (simp add: blank_def)
  moreover have "session_step v (use 0 (set_session 0 (s, n) v))"
    by (rule slow[of 0 v 0 "blank 1 None" True _ True])
      (simp_all add: v_def s_def n_def blank_def newSession_def acquire_locked_def reserved_socket_def at_session_def setSocket_def acquire_ref_def Acquire_def)
  ultimately have r: "session_reach (use 0 (set_session 0 (s, n) v))" by (rule onwards)
  have u: "references (net (use 0 (set_session 0 (s, n) v)) 0) = Suc (Suc 0)" "users (use 0 (set_session 0 (s, n) v)) 0 = 1"
    by (simp_all add: v_def n_def blank_def use_def set_session_def)
  then show ?thesis using references_balanced[OF r] r by (intro exI[of _ "use 0 (set_session 0 (s, n) v)"]) simp
qed

end
