(* ===== verification/Servers.thy ===== *)
theory Servers
  imports Prelude "HOL-Library.List_Lexorder" "HOL-Library.Char_ord" "HOL-Library.Multiset"
begin

text \<open>
  The list of the servers of a cluster, sorted by address and searched by bisection, and the choice of the server for
  an operation (src/src/labix.org/v2/mgo/server.go).
\<close>

section \<open>Sorted lists of servers\<close>

text \<open>\<open>pingValue\<close> is in nanoseconds; \<open>live\<close> and \<open>unused\<close> count the sockets.\<close>

record server =
  ResolvedAddr :: string
  is_master :: bool
  pingValue :: int
  live :: nat
  unused :: nat

text \<open>\<open>sort.Search\<close> on the indices from \<open>i\<close> to \<open>j\<close>.\<close>

function bisect :: "(nat \<Rightarrow> bool) \<Rightarrow> nat \<Rightarrow> nat \<Rightarrow> nat" where
  "bisect f i j = (if i < j then let h = (i + j) div 2 in if \<not> f h then bisect f (h + 1) j else bisect f i h else i)"
  by pat_completeness auto
termination by (relation "measure (\<lambda>(f, i, j). j - i)") auto

declare bisect.simps [simp del]

definition slice_Search :: "string \<Rightarrow> server list \<Rightarrow> nat \<times> bool" where
  "slice_Search resolvedAddr s =
     (let n = length s; i = bisect (\<lambda>i. ResolvedAddr (s ! i) \<ge> resolvedAddr) 0 n in (i, i \<noteq> n \<and> ResolvedAddr (s ! i) = resolvedAddr))"

definition Search :: "string \<Rightarrow> server list \<Rightarrow> server option" where
  "Search resolvedAddr servers = (case slice_Search resolvedAddr servers of (i, ok) \<Rightarrow> if ok then Some (servers ! i) else None)"

definition Add :: "server \<Rightarrow> server list \<Rightarrow> server list" where
  "Add s servers = sort_key ResolvedAddr (servers @ [s])"

definition Remove :: "server \<Rightarrow> server list \<Rightarrow> server option \<times> server list" where
  "Remove other servers = (case slice_Search (ResolvedAddr other) servers of
     (i, True) \<Rightarrow> (Some (servers ! i), take i servers @ drop (i + 1) servers)
   | (i, False) \<Rightarrow> (None, servers))"

section \<open>The time to a server\<close>

text \<open>A round of \<open>pinger\<close>, with the time that the request took: the value of the server is the longest time in the window.\<close>

record pings =
  pingWindow :: "int list"
  pingIndex :: nat
  pingCount :: "32 word"

definition no_pings :: pings where
  "no_pings = \<lparr>pingWindow = replicate 6 0, pingIndex = 0, pingCount = 0\<rparr>"

definition ping_round :: "int \<Rightarrow> pings \<Rightarrow> int \<times> pings" where
  "ping_round delay p =
     (let window = (pingWindow p)[pingIndex p := delay]; count = pingCount p + 1;
          max = foldl (\<lambda>max i. if window ! i > max then window ! i else max) 0 [0..<min (length window) (unat count)]
      in (max, \<lparr>pingWindow = window, pingIndex = (pingIndex p + 1) mod length window, pingCount = count\<rparr>))"

section \<open>The choice of a server\<close>

definition better :: "server \<Rightarrow> server \<Rightarrow> bool" where
  "better new best =
     (if is_master new \<noteq> is_master best then is_master best
      else if pingValue new < pingValue best - 15 * 10 ^ 6 then True
      else int (live new) - int (unused new) < int (live best) - int (unused best))"

definition MostAvailable :: "server list \<Rightarrow> server go" where
  "MostAvailable servers = (case servers of
     [] \<Rightarrow> Inl (Panic ''MostAvailable: can't be used on empty server list'')
   | s # ss \<Rightarrow> Inr (foldl (\<lambda>best new. if better new best then new else best) s ss))"

section \<open>Results\<close>

lemma bisect_ok:
  assumes "i \<le> j" "\<And>k. k < i \<Longrightarrow> \<not> f k" "\<And>k. j \<le> k \<Longrightarrow> k < n \<Longrightarrow> f k" "\<And>k l. k \<le> l \<Longrightarrow> l < n \<Longrightarrow> f k \<Longrightarrow> f l" "j \<le> n"
  shows "bisect f i j \<le> j \<and> (\<forall>k < bisect f i j. \<not> f k) \<and> (\<forall>k. bisect f i j \<le> k \<longrightarrow> k < n \<longrightarrow> f k)"
  using assms
proof (induction f i j rule: bisect.induct)
  case (1 f i j)
  show ?case
  proof (cases "i < j")
    case False
    then have "i = j" using 1(3) by simp
    moreover have "bisect f i j = i" by (subst bisect.simps) (use False in simp)
    ultimately have "bisect f i j = i" "i = j" by simp_all
    then show ?thesis using 1(4,5) by simp
  next
    case True
    let ?h = "(i + j) div 2"
    have h: "i \<le> ?h" "?h < j" using True by auto
    show ?thesis
    proof (cases "f ?h")
      case False
      have lower: "\<not> f k" if "k < ?h + 1" for k
      proof
        assume "f k"
        from 1(6)[OF _ _ this, of ?h] that h(2) 1(7) False show False by simp
      qed
      have "?h + 1 \<le> j" using h(2) by simp
      then have "bisect f (?h + 1) j \<le> j \<and> (\<forall>k < bisect f (?h + 1) j. \<not> f k) \<and> (\<forall>k. bisect f (?h + 1) j \<le> k \<longrightarrow> k < n \<longrightarrow> f k)"
        by (rule 1(1)[OF True refl False _ lower 1(5) 1(6) 1(7)])
      moreover have "bisect f i j = bisect f (?h + 1) j" using True False by (simp add: bisect.simps[of f i j] Let_def)
      ultimately show ?thesis by simp
    next
      case f: True
      have upper: "f k" if "?h \<le> k" "k < n" for k using 1(6)[OF that f] .
      have nn: "\<not> \<not> f ?h" and le: "?h \<le> n" using f h(2) 1(7) by simp_all
      have "bisect f i ?h \<le> ?h \<and> (\<forall>k < bisect f i ?h. \<not> f k) \<and> (\<forall>k. bisect f i ?h \<le> k \<longrightarrow> k < n \<longrightarrow> f k)"
        by (rule 1(2)[OF True refl nn h(1) 1(4) upper 1(6) le])
      moreover have "bisect f i j = bisect f i ?h" using True f by (simp add: bisect.simps[of f i j] Let_def)
      ultimately show ?thesis using h(2) by simp
    qed
  qed
qed

lemma search_ok:
  assumes "sorted (map ResolvedAddr s)" "slice_Search a s = (i, ok)"
  shows "i \<le> length s" "\<And>k. k < i \<Longrightarrow> ResolvedAddr (s ! k) < a" "\<And>k. i \<le> k \<Longrightarrow> k < length s \<Longrightarrow> a \<le> ResolvedAddr (s ! k)"
    "ok \<longleftrightarrow> i < length s \<and> ResolvedAddr (s ! i) = a"
proof -
  let ?f = "\<lambda>i. ResolvedAddr (s ! i) \<ge> a"
  have "?f l" if "k \<le> l" "l < length s" "?f k" for k l
    using sorted_nth_mono[OF assms(1), of k l] that by simp
  then have b: "bisect ?f 0 (length s) \<le> length s \<and> (\<forall>k < bisect ?f 0 (length s). \<not> ?f k) \<and>
      (\<forall>k. bisect ?f 0 (length s) \<le> k \<longrightarrow> k < length s \<longrightarrow> ?f k)"
    by (intro bisect_ok) auto
  have i: "i = bisect ?f 0 (length s)" "ok \<longleftrightarrow> i \<noteq> length s \<and> ResolvedAddr (s ! i) = a" using assms(2) by (auto simp: slice_Search_def Let_def)
  have c: "i \<le> length s" "\<forall>k<i. \<not> ?f k" "\<forall>k. i \<le> k \<longrightarrow> k < length s \<longrightarrow> ?f k" using b unfolding i(1) by blast+
  show "i \<le> length s" by (rule c(1))
  show "ResolvedAddr (s ! k) < a" if "k < i" for k using c(2) that unfolding not_le by blast
  show "a \<le> ResolvedAddr (s ! k)" if "i \<le> k" "k < length s" for k using c(3) that by blast
  have "i \<noteq> length s \<longleftrightarrow> i < length s" using c(1) by linarith
  then show "ok \<longleftrightarrow> i < length s \<and> ResolvedAddr (s ! i) = a" unfolding i(2) by simp
qed

lemma Search_find:
  assumes "sorted (map ResolvedAddr s)"
  shows "Search a s = find (\<lambda>x. ResolvedAddr x = a) s"
proof -
  obtain i ok where r: "slice_Search a s = (i, ok)" by fastforce
  note f = search_ok[OF assms r]
  show ?thesis
  proof (cases ok)
    case True
    then have "i < length s" "ResolvedAddr (s ! i) = a" using f(4) by simp_all
    moreover have "ResolvedAddr (s ! j) \<noteq> a" if "j < i" for j using f(2)[OF that] by (rule less_imp_neq)
    ultimately have "find (\<lambda>x. ResolvedAddr x = a) s = Some (s ! i)" unfolding find_Some_iff by (intro exI[of _ i]) simp
    then show ?thesis using True r by (simp add: Search_def)
  next
    case False
    have "ResolvedAddr (s ! k) \<noteq> a" if "k < length s" for k
    proof (cases "k < i")
      case True
      then show ?thesis using f(2)[of k] by simp
    next
      case k: False
      have "ResolvedAddr (s ! i) \<le> ResolvedAddr (s ! k)" using sorted_nth_mono[OF assms, of i k] k that by simp
      moreover have "a \<le> ResolvedAddr (s ! i)" "ResolvedAddr (s ! i) \<noteq> a" using f(3)[of i] f(4) False k that by auto
      ultimately show ?thesis by auto
    qed
    then have "find (\<lambda>x. ResolvedAddr x = a) s = None" by (auto simp: find_None_iff in_set_conv_nth)
    then show ?thesis using False r by (simp add: Search_def)
  qed
qed

lemma Add_sorted: "sorted (map ResolvedAddr (Add s ss))" "mset (Add s ss) = add_mset s (mset ss)"
  by (simp_all add: Add_def)

lemma Remove_ok:
  assumes "sorted (map ResolvedAddr ss)" "distinct (map ResolvedAddr ss)"
  shows "snd (Remove s ss) = filter (\<lambda>x. ResolvedAddr x \<noteq> ResolvedAddr s) ss" "fst (Remove s ss) = Search (ResolvedAddr s) ss"
    "sorted (map ResolvedAddr (snd (Remove s ss)))"
proof -
  obtain i ok where r: "slice_Search (ResolvedAddr s) ss = (i, ok)" by fastforce
  note f = search_ok[OF assms(1) r]
  show "fst (Remove s ss) = Search (ResolvedAddr s) ss" using r by (cases ok) (simp_all add: Remove_def Search_def)
  show "snd (Remove s ss) = filter (\<lambda>x. ResolvedAddr x \<noteq> ResolvedAddr s) ss"
  proof (cases ok)
    case True
    then have i: "i < length ss" "ResolvedAddr (ss ! i) = ResolvedAddr s" using f(4) by auto
    have "ss = take i ss @ ss ! i # drop (Suc i) ss" using i(1) by (rule id_take_nth_drop)
    then have d: "distinct (map ResolvedAddr (take i ss @ ss ! i # drop (Suc i) ss))" using assms(2) by metis
    have "filter (\<lambda>x. ResolvedAddr x \<noteq> ResolvedAddr s) (take i ss @ ss ! i # drop (Suc i) ss) = take i ss @ drop (Suc i) ss"
    proof -
      have "\<forall>x \<in> set (take i ss) \<union> set (drop (Suc i) ss). ResolvedAddr x \<noteq> ResolvedAddr s" using d i(2) by (auto simp: image_iff)
      then show ?thesis using i(2) by (simp add: filter_id_conv)
    qed
    then show ?thesis using True r i(1) id_take_nth_drop[OF i(1)] by (simp add: Remove_def)
  next
    case False
    then have "Search (ResolvedAddr s) ss = None" using r by (simp add: Search_def)
    then have "\<forall>x \<in> set ss. ResolvedAddr x \<noteq> ResolvedAddr s" by (simp add: Search_find[OF assms(1)] find_None_iff)
    then show ?thesis using False r by (simp add: Remove_def filter_id_conv)
  qed
  then show "sorted (map ResolvedAddr (snd (Remove s ss)))" by (simp add: sorted_filter assms(1))
qed

lemma fold_better:
  "foldl (\<lambda>best new. if better new best then new else best) s ss \<in> insert s (set ss) \<and>
   ((\<exists>x \<in> insert s (set ss). \<not> is_master x) \<longrightarrow> \<not> is_master (foldl (\<lambda>best new. if better new best then new else best) s ss))"
proof (induction ss arbitrary: s)
  case (Cons x ss)
  show ?case
  proof (cases "better x s")
    case True
    then have "is_master x \<Longrightarrow> is_master s" by (simp add: better_def split: if_splits)
    then show ?thesis using Cons[of x] True by auto
  next
    case False
    then have "is_master s \<Longrightarrow> is_master x" by (simp add: better_def split: if_splits)
    then show ?thesis using Cons[of s] False by auto
  qed
qed simp

text \<open>What the list stands for: a server for each address.\<close>

definition servers_map :: "server list \<Rightarrow> (string \<rightharpoonup> server)" where
  "servers_map ss = map_of (map (\<lambda>s. (ResolvedAddr s, s)) ss)"

definition servers_ok :: "server list \<Rightarrow> bool" where
  "servers_ok ss \<longleftrightarrow> sorted (map ResolvedAddr ss) \<and> distinct (map ResolvedAddr ss)"

lemma find_servers_map: "find (\<lambda>x. ResolvedAddr x = a) ss = servers_map ss a"
  by (induction ss) (auto simp: servers_map_def)

lemma servers_map_filter: "servers_map (filter (\<lambda>x. ResolvedAddr x \<noteq> a) ss) = (servers_map ss)(a := None)"
  by (induction ss) (auto simp: servers_map_def)

lemma servers_map_None: "servers_map ss a = None \<longleftrightarrow> a \<notin> ResolvedAddr ` set ss"
  by (auto simp: servers_map_def map_of_eq_None_iff image_image)

lemma servers_map_Some: "distinct (map ResolvedAddr ss) \<Longrightarrow> servers_map ss a = Some x \<longleftrightarrow> x \<in> set ss \<and> ResolvedAddr x = a"
  unfolding servers_map_def by (subst map_of_eq_Some_iff) (auto simp: comp_def)

lemma Add_keys: "distinct (map ResolvedAddr (Add s ss)) \<longleftrightarrow> distinct (map ResolvedAddr (s # ss))"
proof -
  have "mset (map ResolvedAddr (Add s ss)) = mset (map ResolvedAddr (s # ss))" using Add_sorted(2)[of s ss] by simp
  then show ?thesis by (rule mset_eq_imp_distinct_iff)
qed

lemma Add_ok:
  assumes "servers_ok ss" "servers_map ss (ResolvedAddr s) = None"
  shows "servers_ok (Add s ss)" "servers_map (Add s ss) = (servers_map ss)(ResolvedAddr s \<mapsto> s)"
proof -
  have d: "distinct (map ResolvedAddr ss)" "distinct (map ResolvedAddr (s # ss))" "distinct (map ResolvedAddr (Add s ss))"
    using assms unfolding Add_keys servers_ok_def servers_map_None by auto
  show "servers_ok (Add s ss)" using d(3) Add_sorted(1) by (simp add: servers_ok_def)
  have m: "set (Add s ss) = insert s (set ss)" by (simp add: Add_def)
  show "servers_map (Add s ss) = (servers_map ss)(ResolvedAddr s \<mapsto> s)"
  proof
    fix a
    have "servers_map (Add s ss) a = Some x \<longleftrightarrow> ((servers_map ss)(ResolvedAddr s \<mapsto> s)) a = Some x" for x
      using d(2) unfolding servers_map_Some[OF d(3)] m by (auto simp: servers_map_Some[OF d(1)] image_iff)
    then show "servers_map (Add s ss) a = ((servers_map ss)(ResolvedAddr s \<mapsto> s)) a" by (metis not_Some_eq)
  qed
qed

text \<open>C21: The sorted list of servers is a map from addresses to servers: bisection finds the server of an address if there
  is one, \<open>Remove\<close> takes it out and returns it, and adding a server of a new address puts it in, in order.\<close>

theorem servers_refine_map:
  assumes "servers_ok ss"
  shows "Search a ss = servers_map ss a \<and>
    fst (Remove s ss) = servers_map ss (ResolvedAddr s) \<and> servers_map (snd (Remove s ss)) = (servers_map ss)(ResolvedAddr s := None) \<and>
    servers_ok (snd (Remove s ss)) \<and>
    (servers_map ss (ResolvedAddr s) = None \<longrightarrow> servers_ok (Add s ss) \<and> servers_map (Add s ss) = (servers_map ss)(ResolvedAddr s \<mapsto> s))"
proof (intro conjI impI)
  have so: "sorted (map ResolvedAddr ss)" and di: "distinct (map ResolvedAddr ss)" using assms by (simp_all add: servers_ok_def)
  note r = Remove_ok[OF so di, of s]
  show "Search a ss = servers_map ss a" by (simp add: Search_find[OF so] find_servers_map)
  show "fst (Remove s ss) = servers_map ss (ResolvedAddr s)" by (simp add: r(2) Search_find[OF so] find_servers_map)
  show "servers_map (snd (Remove s ss)) = (servers_map ss)(ResolvedAddr s := None)" by (simp add: r(1) servers_map_filter)
  show "servers_ok (snd (Remove s ss))" unfolding servers_ok_def using r(3) distinct_map_filter[OF di] by (simp add: r(1))
qed (use Add_ok[OF assms] in simp_all)

text \<open>\<open>MostAvailable\<close> panics for no servers and otherwise returns one of them, and not the master when there is a slave.\<close>

theorem MostAvailable_prefers_slaves:
  "case MostAvailable ss of
     Inl e \<Rightarrow> ss = []
   | Inr s \<Rightarrow> s \<in> set ss \<and> (is_master s \<longrightarrow> (\<forall>x \<in> set ss. is_master x))"
proof (cases ss)
  case (Cons s ts)
  then show ?thesis using fold_better[of s ts] by (auto simp: MostAvailable_def)
qed (simp add: MostAvailable_def)

section \<open>The window of times\<close>

definition pings_of :: "int list \<Rightarrow> pings \<Rightarrow> bool" where
  "pings_of ds p \<longleftrightarrow> length (pingWindow p) = 6 \<and> pingIndex p = length ds mod 6 \<and> pingCount p = of_nat (length ds) \<and>
     (\<forall>j < length ds. length ds \<le> j + 6 \<longrightarrow> pingWindow p ! (j mod 6) = ds ! j)"

lemma mod6_apart: "j < n \<Longrightarrow> n + 1 \<le> j + 6 \<Longrightarrow> j mod 6 \<noteq> n mod (6 :: nat)"
proof
  assume j: "j < n" "n + 1 \<le> j + 6" "j mod 6 = n mod 6"
  then have "6 dvd n - j" using mod_eq_dvd_iff_nat[of j n 6] by simp
  moreover have "0 < n - j" "n - j < 6" using j(1,2) by linarith+
  ultimately show False using nat_dvd_not_less by blast
qed

lemma ping_round_pings: "pings_of ds p \<Longrightarrow> pings_of (ds @ [d]) (snd (ping_round d p))"
proof -
  assume p: "pings_of ds p"
  have "(pingWindow p)[length ds mod 6 := d] ! (j mod 6) = (ds @ [d]) ! j" if j: "j < length (ds @ [d])" "length (ds @ [d]) \<le> j + 6" for j
  proof (cases "j = length ds")
    case False
    then show ?thesis using j p mod6_apart[of j "length ds"] by (simp add: pings_of_def nth_append)
  qed (use p in \<open>simp add: pings_of_def\<close>)
  then show ?thesis using p by (simp add: pings_of_def ping_round_def Let_def mod_Suc_eq)
qed

lemma window_last:
  assumes "length w = 6" "\<forall>j < length ds. length ds \<le> j + 6 \<longrightarrow> w ! (j mod 6) = ds ! j"
  shows "set (map ((!) w) [0..<min 6 (length ds)]) = set (drop (length ds - 6) ds)"
proof (intro equalityI subsetI)
  fix x assume "x \<in> set (map ((!) w) [0..<min 6 (length ds)])"
  then obtain i where i: "i < 6" "i < length ds" "x = w ! i" by auto
  let ?j = "i + 6 * ((length ds - 1 - i) div 6)"
  have j: "?j < length ds" "length ds \<le> ?j + 6" "?j mod 6 = i" proof -
    have "6 * ((length ds - 1 - i) div 6) \<le> length ds - 1 - i" by (rule times_div_less_eq_dividend)
    moreover have "length ds - 1 - i < 6 + 6 * ((length ds - 1 - i) div 6)" by (rule dividend_less_times_div) simp
    ultimately show "?j < length ds" "length ds \<le> ?j + 6" using i(2) by linarith+
    show "?j mod 6 = i" using i(1) by simp
  qed
  then have "x = ds ! ?j" using assms(2) i(3) by metis
  then have x: "x = drop (length ds - 6) ds ! (?j - (length ds - 6))" using j(2) by simp
  have "?j - (length ds - 6) < length (drop (length ds - 6) ds)" unfolding length_drop by (rule diff_less_mono) (use j in linarith)+
  then show "x \<in> set (drop (length ds - 6) ds)" unfolding x by (rule nth_mem)
next
  fix x assume "x \<in> set (drop (length ds - 6) ds)"
  then obtain k where k: "k < length ds - (length ds - 6)" "x = ds ! (length ds - 6 + k)" by (auto simp: in_set_conv_nth)
  let ?j = "length ds - 6 + k"
  have j: "?j < length ds" "length ds \<le> ?j + 6" using k(1) by linarith+
  then have "x = w ! (?j mod 6)" using assms(2) k(2) by simp
  moreover have "?j mod 6 < min 6 (length ds)" using le_less_trans[OF mod_less_eq_dividend j(1), of 6] by simp
  ultimately show "x \<in> set (map ((!) w) [0..<min 6 (length ds)])" by auto
qed

lemma foldl_greater: "foldl (\<lambda>max i. if f i > max then f i else max) (m :: int) xs = foldl max m (map f xs)"
  by (induction xs arbitrary: m) (auto simp: max_def)

lemma foldl_max: "foldl max (m :: int) xs = Max (insert m (set xs))"
proof (induction xs arbitrary: m)
  case (Cons x xs)
  then show ?case by (cases "xs = []") (simp_all add: Max_insert[of "set xs"] max.assoc max.left_commute)
qed simp

definition ping_rounds :: "int list \<Rightarrow> int \<times> pings" where
  "ping_rounds ds = foldl (\<lambda>(_, p) d. ping_round d p) (0, no_pings) ds"

lemma ping_rounds_pings: "pings_of ds (snd (ping_rounds ds))"
proof (induction ds rule: rev_induct)
  case Nil
  show ?case by (simp add: ping_rounds_def no_pings_def pings_of_def)
next
  case (snoc d ds)
  then show ?case using ping_round_pings[of ds _ d] by (simp add: ping_rounds_def split_beta)
qed

text \<open>As long as the count of rounds does not wrap around, the time that is recorded for a server is the longest of the
  last six.\<close>

theorem ping_longest_of_last_six:
  assumes "ds \<noteq> []" "\<forall>d \<in> set ds. d \<ge> 0" "length ds < 2 ^ 32"
  shows "fst (ping_rounds ds) = Max (set (drop (length ds - 6) ds))"
proof -
  obtain es d where ds: "ds = es @ [d]" using assms(1) by (metis rev_exhaust)
  obtain m p where es: "ping_rounds es = (m, p)" by fastforce
  then have p: "pings_of ds (snd (ping_round d p))" using ping_rounds_pings[of ds] by (simp add: ds ping_rounds_def)
  let ?w = "pingWindow (snd (ping_round d p))" and ?c = "pingCount (snd (ping_round d p))"
  have c: "unat ?c = length ds" using p assms(3) by (simp add: pings_of_def unat_of_nat)
  have l: "length ?w = 6" using p by (simp add: pings_of_def)
  have "fst (ping_rounds ds) = fst (ping_round d p)" using es by (simp add: ds ping_rounds_def)
  also have "\<dots> = foldl max 0 (map ((!) ?w) [0..<min 6 (length ds)])"
    using c l by (simp add: ping_round_def Let_def foldl_greater)
  also have "\<dots> = Max (insert 0 (set (drop (length ds - 6) ds)))"
    unfolding foldl_max using window_last[OF l] p by (simp add: pings_of_def)
  also have "\<dots> = Max (set (drop (length ds - 6) ds))"
  proof -
    have "length ds > 0" using assms(1) by simp
    then have "drop (length ds - 6) ds \<noteq> []" by (simp add: not_le)
    then obtain x where x: "x \<in> set (drop (length ds - 6) ds)" by (meson list.set_sel(1))
    then have "0 \<le> x" using assms(2) in_set_dropD by metis
    then have "0 \<le> Max (set (drop (length ds - 6) ds))" using Max_ge[OF finite_set x] by (rule order_trans)
    moreover have "set (drop (length ds - 6) ds) \<noteq> {}" by (metis empty_iff x)
    ultimately show ?thesis by (simp add: Max_insert)
  qed
  finally show ?thesis .
qed

section \<open>Witnesses\<close>

definition at_address :: "string \<Rightarrow> server" where
  "at_address a = \<lparr>ResolvedAddr = a, is_master = False, pingValue = 0, live = 0, unused = 0\<rparr>"

theorem servers_refine_map_witness:
  "Search ''b'' [at_address ''a'', at_address ''b''] = Some (at_address ''b'') \<and>
     servers_map (Add (at_address ''A'') [at_address ''a'', at_address ''b'']) ''A'' = Some (at_address ''A'')"
proof -
  have ok: "servers_ok [at_address ''a'', at_address ''b'']"
    by (simp add: servers_ok_def at_address_def less_eq_list_code less_eq_char_simp)
  have "servers_map [at_address ''a'', at_address ''b''] (ResolvedAddr (at_address ''A'')) = None"
    by (simp add: servers_map_def at_address_def)
  then have "servers_map (Add (at_address ''A'') [at_address ''a'', at_address ''b'']) ''A'' = Some (at_address ''A'')"
    using servers_refine_map[OF ok, of _ "at_address ''A''"] by (simp add: at_address_def)
  then show ?thesis using servers_refine_map[OF ok, of "''b''"] by (simp add: servers_map_def at_address_def)
qed

theorem ping_longest_of_last_six_witness: "fst (ping_rounds [9, 1, 5, 2, 2, 3, 4]) = 5"
  using ping_longest_of_last_six[of "[9, 1, 5, 2, 2, 3, 4]"] by simp

end
