(* ===== verification/GridFS.thy ===== *)
theory GridFS
  imports Bson "HOL-Library.Signed_Division"
begin

text \<open>
  Files in the database (src/src/labix.org/v2/mgo/gridfs.go). A file that is written is cut into chunks, which goroutines
  insert into the database; a file that is read fetches its chunks one by one and the next one in advance. Lengths
  and offsets are integers: a file of \<open>2 ^ 63\<close> bytes is out of reach. One caller uses a file at a time; its goroutines
  run whenever they can.
\<close>

section \<open>Files\<close>

datatype gfsFileMode = Closed | Reading | Writing

record gfsFile =
  Id :: bson
  ChunkSize :: int
  UploadDate :: int
  Length :: int
  MD5 :: string
  Filename :: string
  ContentType :: string
  Metadata :: "byte list option"

type_synonym answer = "byte list \<times> go_error option"

text \<open>\<open>wsum\<close> is what the hash has been given, \<open>rcache\<close> the number of the chunk that is fetched in advance with what the
  database answers. \<open>inserting\<close> are the goroutines of \<open>insertChunk\<close>, by the chunks that they insert.\<close>

record GridFile =
  mode :: gfsFileMode
  err :: "go_error option"
  chunk :: int
  offset :: int
  wpending :: int
  wbuf :: "byte list"
  wsum :: "byte list"
  rbuf :: "byte list"
  rcache :: "(int \<times> answer) option"
  doc :: gfsFile
  inserting :: "(int \<times> byte list) list"

text \<open>The collections: the chunks of the file by their numbers, and the documents of files.\<close>

record gfs =
  Chunks :: "int \<rightharpoonup> byte list"
  Files :: "gfsFile list"

type_synonym world = "GridFile \<times> gfs"

definition newFile :: GridFile where
  "newFile = \<lparr>mode = Closed, err = None, chunk = 0, offset = 0, wpending = 0, wbuf = [], wsum = [], rbuf = [], rcache = None,
     doc = \<lparr>Id = Nil_value, ChunkSize = 0, UploadDate = 0, Length = 0, MD5 = [], Filename = [], ContentType = [], Metadata = None\<rparr>,
     inserting = []\<rparr>"

definition Create :: "bson \<Rightarrow> string \<Rightarrow> GridFile" where
  "Create newId name = newFile\<lparr>mode := Writing,
     doc := (doc newFile)\<lparr>Id := newId, ChunkSize := 256 * 1024, Filename := name\<rparr>\<rparr>"

text \<open>\<open>Open\<close> and \<open>OpenId\<close>, with what the database answers.\<close>

definition Open :: "go_error + gfsFile \<Rightarrow> GridFile go" where
  "Open r = (case r of Inl e \<Rightarrow> Inl e | Inr d \<Rightarrow> Inr (newFile\<lparr>mode := Reading, doc := d\<rparr>))"

definition assertMode :: "gfsFileMode \<Rightarrow> GridFile \<Rightarrow> unit go" where
  "assertMode m f = (if mode f = m then Inr () else case mode f of
     Writing \<Rightarrow> Inl (Panic ''GridFile is open for writing'')
   | Reading \<Rightarrow> Inl (Panic ''GridFile is open for reading'')
   | Closed \<Rightarrow> Inl (Panic ''GridFile is closed''))"

definition on_doc :: "(gfsFile \<Rightarrow> gfsFile) \<Rightarrow> GridFile \<Rightarrow> GridFile go" where
  "on_doc g f = bindE (assertMode Writing f) (\<lambda>_. Inr (f\<lparr>doc := g (doc f)\<rparr>))"

definition SetChunkSize :: "int \<Rightarrow> GridFile \<Rightarrow> GridFile go" where
  "SetChunkSize bytes = on_doc (\<lambda>d. d\<lparr>ChunkSize := bytes\<rparr>)"

definition SetId :: "bson \<Rightarrow> GridFile \<Rightarrow> GridFile go" where
  "SetId i = on_doc (\<lambda>d. d\<lparr>Id := i\<rparr>)"

definition SetName :: "string \<Rightarrow> GridFile \<Rightarrow> GridFile go" where
  "SetName name = on_doc (\<lambda>d. d\<lparr>Filename := name\<rparr>)"

definition SetContentType :: "string \<Rightarrow> GridFile \<Rightarrow> GridFile go" where
  "SetContentType ctype = on_doc (\<lambda>d. d\<lparr>ContentType := ctype\<rparr>)"

text \<open>The data of a metadata that cannot be encoded is nil, which is stored when the file has an error already.\<close>

definition SetMeta :: "bson \<Rightarrow> GridFile \<Rightarrow> GridFile go" where
  "SetMeta metadata f = bindE (assertMode Writing f) (\<lambda>_.
     case Marshal metadata of
       Inl (Err e) \<Rightarrow> Inr (if err f = None then f\<lparr>err := Some (Err e)\<rparr> else f\<lparr>doc := (doc f)\<lparr>Metadata := Some []\<rparr>\<rparr>)
     | Inl e \<Rightarrow> Inl e
     | Inr data \<Rightarrow> Inr (f\<lparr>doc := (doc f)\<lparr>Metadata := Some data\<rparr>\<rparr>))"

section \<open>Writing\<close>

text \<open>
  The end of a goroutine: which of those that run, and the error of its insertion. They end between the calls, and
  during a call where it waits for them. A call takes the groups of goroutines that end before each of its wakeups;
  when these are used up it is still waiting, \<open>Diverge\<close>.
\<close>

type_synonym ending = "nat \<times> go_error option"

definition finish :: "world \<Rightarrow> ending \<Rightarrow> world" where
  "finish = (\<lambda>(f, g) (k, e).
     if inserting f = [] then (f, g)
     else let j = k mod length (inserting f); (n, data) = inserting f ! j;
              f = f\<lparr>wpending := wpending f - 1, inserting := take j (inserting f) @ drop (Suc j) (inserting f)\<rparr>
          in (if e \<noteq> None \<and> err f = None then f\<lparr>err := e\<rparr> else f,
              if e = None then g\<lparr>Chunks := (Chunks g)(n \<mapsto> data)\<rparr> else g))"

definition wakeup :: "ending list \<Rightarrow> world \<Rightarrow> world" where
  "wakeup es w = foldl finish w es"

text \<open>The wait of \<open>insertChunk\<close>; whether it returns there.\<close>

fun hold_on :: "ending list list \<Rightarrow> world \<Rightarrow> (bool \<times> ending list list \<times> world) go" where
  "hold_on ws w =
     (if ChunkSize (doc (fst w)) * wpending (fst w) \<ge> 1024 * 1024 then
        (case ws of
           [] \<Rightarrow> Inl Diverge
         | es # ws \<Rightarrow> let w = wakeup es w in if err (fst w) \<noteq> None then Inr (True, ws, w) else hold_on ws w)
      else Inr (False, ws, w))"

declare hold_on.simps [simp del]

text \<open>The document of a chunk. Its own identifier is a new one of twelve bytes, whichever they are.\<close>

definition gfsChunk :: "bson \<Rightarrow> int \<Rightarrow> byte list \<Rightarrow> bson" where
  "gfsChunk files_id n data = Struct
     [(\<lparr>Key = ''_id'', OmitEmpty = False, MinSize = False\<rparr>, ObjectId (replicate 12 CHR ''i'')),
      (\<lparr>Key = ''files_id'', OmitEmpty = False, MinSize = False\<rparr>, files_id),
      (\<lparr>Key = ''n'', OmitEmpty = False, MinSize = False\<rparr>, GoInt (word_of_int n)),
      (\<lparr>Key = ''data'', OmitEmpty = False, MinSize = False\<rparr>, Bytes data)]"

definition insertChunk :: "byte list \<Rightarrow> ending list list \<Rightarrow> world \<Rightarrow> (ending list list \<times> world) go" where
  "insertChunk data ws = (\<lambda>(f, g). let n = chunk f; f = f\<lparr>chunk := n + 1, wsum := wsum f @ data\<rparr> in
     bindE (hold_on ws (f, g)) (\<lambda>(early, ws, (f, g)).
       if early then Inr (ws, (f, g))
       else let f = f\<lparr>wpending := wpending f + 1\<rparr> in
         case Marshal (gfsChunk (Id (doc f)) n data) of
           Inl (Err e) \<Rightarrow> Inr (ws, (f\<lparr>err := Some (Err e)\<rparr>, g))
         | Inl e \<Rightarrow> Inl e
         | Inr _ \<Rightarrow> Inr (ws, (f\<lparr>inserting := inserting f @ [(n, data)]\<rparr>, g))))"

text \<open>The loop over the whole chunks, for a chunk size that was read before it.\<close>

partial_function (option) flush_chunks ::
  "int \<Rightarrow> byte list \<Rightarrow> ending list list \<Rightarrow> world \<Rightarrow> (byte list \<times> ending list list \<times> world) go option" where
  "flush_chunks chunkSize data ws w =
     (if int (length data) > chunkSize then
        (case bindE (slice data 0 chunkSize) (\<lambda>d. insertChunk d ws w) of
           Inl e \<Rightarrow> Some (Inl e)
         | Inr (ws, w) \<Rightarrow> flush_chunks chunkSize (drop (nat chunkSize) data) ws w)
      else Some (Inr (data, ws, w)))"

text \<open>What comes before it: the buffer is filled up and inserted.\<close>

definition flush_wbuf :: "byte list \<Rightarrow> ending list list \<Rightarrow> world \<Rightarrow> (byte list \<times> ending list list \<times> world) go" where
  "flush_wbuf data ws = (\<lambda>(f, g).
     if wbuf f \<noteq> [] then
       let missing = min (ChunkSize (doc f) - int (length (wbuf f))) (int (length data)) in
       bindE (slice data 0 missing) (\<lambda>d.
         let f = f\<lparr>wbuf := wbuf f @ d\<rparr> in
         bindE (insertChunk (wbuf f) ws (f, g)) (\<lambda>(ws, (f, g)). Inr (drop (nat missing) data, ws, (f\<lparr>wbuf := []\<rparr>, g))))
     else Inr (data, ws, (f, g)))"

type_synonym wrote = "int \<times> go_error option \<times> ending list list \<times> world"

definition Write :: "byte list \<Rightarrow> ending list list \<Rightarrow> world \<Rightarrow> wrote go" where
  "Write data ws = (\<lambda>(f, g). bindE (assertMode Writing f) (\<lambda>_.
     if err f \<noteq> None then Inr (0, err f, ws, (f, g))
     else let n = int (length data); f = f\<lparr>doc := (doc f)\<lparr>Length := Length (doc f) + n\<rparr>\<rparr>; chunkSize = ChunkSize (doc f) in
       if int (length (wbuf f)) + n < chunkSize then Inr (n, None, ws, (f\<lparr>wbuf := wbuf f @ data\<rparr>, g))
       else
         bindE (flush_wbuf data ws (f, g))
           (\<lambda>(data, ws, w).
              bindE (returned (flush_chunks chunkSize data ws w)) (\<lambda>(data, ws, (f, g)).
                Inr (n, err f, ws, (f\<lparr>wbuf := wbuf f @ data\<rparr>, g))))))"

text \<open>The wait of \<open>insertFile\<close>.\<close>

fun await :: "ending list list \<Rightarrow> world \<Rightarrow> (ending list list \<times> world) go" where
  "await ws w = (if wpending (fst w) > 0 then (case ws of [] \<Rightarrow> Inl Diverge | es # ws \<Rightarrow> await ws (wakeup es w)) else Inr (ws, w))"

declare await.simps [simp del]

text \<open>The hash, the time, and the error of the insertion of the document are arguments.\<close>

definition insertFile :: "(byte list \<Rightarrow> string) \<Rightarrow> int \<Rightarrow> go_error option \<Rightarrow> ending list list \<Rightarrow> world \<Rightarrow> (ending list list \<times> world) go" where
  "insertFile md5 now inserted ws w = (let hexsum = md5 (wsum (fst w)) in
     bindE (await ws w) (\<lambda>(ws, (f, g)).
       Inr (ws, if err f = None then
           let f = f\<lparr>doc := (doc f)\<lparr>UploadDate := now, MD5 := hexsum\<rparr>, err := inserted\<rparr> in
           (f, if inserted = None then g\<lparr>Files := Files g @ [doc f]\<rparr> else g)
         else (f, g))))"

definition Close :: "(byte list \<Rightarrow> string) \<Rightarrow> int \<Rightarrow> go_error option \<Rightarrow> ending list list \<Rightarrow> world \<Rightarrow> (go_error option \<times> world) go" where
  "Close md5 now inserted ws = (\<lambda>(f, g).
     bindE (case mode f of
         Writing \<Rightarrow> bindE (if wbuf f \<noteq> [] then bindE (insertChunk (wbuf f) ws (f, g)) (\<lambda>(ws, (f, g)). Inr (ws, (f\<lparr>wbuf := []\<rparr>, g)))
                          else Inr (ws, (f, g)))
                     (\<lambda>(ws, w). bindE (insertFile md5 now inserted ws w) (\<lambda>(ws, w). Inr w))
       | Reading \<Rightarrow> Inr (f\<lparr>rcache := None\<rparr>, g)
       | Closed \<Rightarrow> Inr (f, g))
       (\<lambda>(f, g). Inr (err f, (f\<lparr>mode := Closed\<rparr>, g))))"

section \<open>Reading\<close>

text \<open>\<open>fetch\<close> is what the database answers for the number of a chunk while the call runs: the data, which is nil with an
  error, and the error.\<close>

definition getChunk :: "(int \<Rightarrow> answer) \<Rightarrow> GridFile \<Rightarrow> answer \<times> GridFile" where
  "getChunk fetch f =
     (let r = (case rcache f of Some (n, a) \<Rightarrow> if n = chunk f then a else fetch (chunk f) | None \<Rightarrow> fetch (chunk f));
          f = f\<lparr>rcache := None, chunk := chunk f + 1\<rparr>
      in (r, if chunk f * ChunkSize (doc f) < Length (doc f) then f\<lparr>rcache := Some (chunk f, fetch (chunk f))\<rparr> else f))"

text \<open>The loop of \<open>Read\<close>, with the space that is left in the buffer and what is in it.\<close>

partial_function (option) read_loop :: "(int \<Rightarrow> answer) \<Rightarrow> nat \<Rightarrow> byte list \<Rightarrow> GridFile \<Rightarrow> (answer \<times> GridFile) option" where
  "read_loop fetch m b f =
     (let i = min m (length (rbuf f)); b = b @ take i (rbuf f); f = f\<lparr>offset := offset f + int i, rbuf := drop i (rbuf f)\<rparr> in
      if i = m \<or> offset f = Length (doc f) then Some ((b, None), f)
      else case getChunk fetch f of ((data, e), f) \<Rightarrow>
        let f = f\<lparr>rbuf := data\<rparr> in
        case e of None \<Rightarrow> read_loop fetch (m - i) b f | Some e \<Rightarrow> Some ((b, Some e), f))"

text \<open>\<open>Read\<close> for a buffer of \<open>n\<close> bytes: what is read into it.\<close>

definition Read :: "(int \<Rightarrow> answer) \<Rightarrow> nat \<Rightarrow> GridFile \<Rightarrow> (answer \<times> GridFile) go" where
  "Read fetch n f = bindE (assertMode Reading f) (\<lambda>_.
     if offset f = Length (doc f) then Inr (([], Some (Err ''EOF'')), f)
     else returned (map_option Inr (read_loop fetch n [] f)))"

definition Seek :: "(int \<Rightarrow> answer) \<Rightarrow> int \<Rightarrow> int \<Rightarrow> GridFile \<Rightarrow> ((int \<times> go_error option) \<times> GridFile) go" where
  "Seek fetch off whence f =
     bindE (if whence = 0 then Inr off else if whence = 1 then Inr (off + offset f) else if whence = 2 then Inr (off + Length (doc f))
            else Inl (Panic ''Unsupported whence value'')) (\<lambda>off.
       if off > Length (doc f) then Inr ((offset f, Some (Err ''Seek past end of file'')), f)
       else if ChunkSize (doc f) = 0 then Inl (Panic ''integer divide by zero'')
       else let n = off sdiv ChunkSize (doc f) in
         if n + 1 = chunk f \<and> off \<ge> offset f then
           bindE (slice (rbuf f) (off - offset f) (int (length (rbuf f)))) (\<lambda>r. Inr ((off, None), f\<lparr>rbuf := r, offset := off\<rparr>))
         else case getChunk fetch (f\<lparr>offset := off, chunk := n, rbuf := []\<rparr>) of
           ((data, Some e), f) \<Rightarrow> Inr ((off, Some e), f\<lparr>rbuf := data\<rparr>)
         | ((data, None), f) \<Rightarrow>
             bindE (slice data (off - n * ChunkSize (doc f)) (int (length data))) (\<lambda>r. Inr ((off, None), f\<lparr>rbuf := r\<rparr>)))"

end
