(* ===== verification/GridFS_Flow.thy ===== *)
theory GridFS_Flow
  imports GridFS
begin

text \<open>
  What a file in the database holds. When \<open>Close\<close> returns no error, the chunks and the document are those of what was
  written, however the writes were cut and whenever the goroutines ended; it does return when the database works. A
  reader of such a file is a position in it.
\<close>

section \<open>Chunks\<close>

definition piece :: "nat \<Rightarrow> byte list \<Rightarrow> int \<Rightarrow> byte list" where
  "piece c xs n = take c (drop (nat n * c) xs)"

definition chunks_of :: "nat \<Rightarrow> byte list \<Rightarrow> int \<rightharpoonup> byte list" where
  "chunks_of c xs n = (if 0 \<le> n \<and> n * int c < int (length xs) then Some (piece c xs n) else None)"

lemma piece_append: "nat n * c + c \<le> length xs \<Longrightarrow> piece c (xs @ ys) n = piece c xs n"
  by (simp add: piece_def)

lemma take_piece: "take (k * c) xs @ piece c xs (int k) = take (Suc k * c) xs"
  by (simp add: piece_def take_add[symmetric] add.commute)

text \<open>The chunks below \<open>k\<close> are in the database or on their way.\<close>

definition held :: "nat \<Rightarrow> byte list \<Rightarrow> int \<Rightarrow> world \<Rightarrow> bool" where
  "held c xs k = (\<lambda>(f, g). wpending f = int (length (inserting f)) \<and>
     (\<forall>(n, d) \<in> set (inserting f). 0 \<le> n \<and> n < k \<and> d = piece c xs n) \<and>
     (\<forall>n d. Chunks g n = Some d \<longrightarrow> 0 \<le> n \<and> n < k \<and> d = piece c xs n) \<and>
     (\<forall>n. 0 \<le> n \<longrightarrow> n < k \<longrightarrow> n \<in> dom (Chunks g) \<or> n \<in> fst ` set (inserting f)))"

lemma held_cong: "wpending f' = wpending f \<Longrightarrow> inserting f' = inserting f \<Longrightarrow> held c xs k (f', g) = held c xs k (f, g)"
  by (simp add: held_def)

lemma held_append: "held c xs k w \<Longrightarrow> nat k * c \<le> length xs \<Longrightarrow> held c (xs @ ys) k w"
proof -
  assume h: "held c xs k w" "nat k * c \<le> length xs"
  have "piece c (xs @ ys) n = piece c xs n" if "0 \<le> n" "n < k" for n
  proof (rule piece_append)
    have "nat n * c + c = (nat n + 1) * c" by simp
    also have "\<dots> \<le> nat k * c" by (rule mult_le_mono1) (use that in linarith)
    finally show "nat n * c + c \<le> length xs" using h(2) by simp
  qed
  then show ?thesis using h(1) by (fastforce simp: held_def split: prod.splits)
qed

lemma held_snoc:
  assumes "held c xs k (f, g)" "0 \<le> k" "d = piece c xs k"
  shows "held c xs (k + 1) (f\<lparr>wpending := wpending f + 1, inserting := inserting f @ [(k, d)]\<rparr>, g)"
proof -
  have h: "wpending f = int (length (inserting f))" "\<forall>(n, d) \<in> set (inserting f). 0 \<le> n \<and> n < k \<and> d = piece c xs n"
    "\<forall>n d. Chunks g n = Some d \<longrightarrow> 0 \<le> n \<and> n < k \<and> d = piece c xs n"
    "\<forall>m. 0 \<le> m \<longrightarrow> m < k \<longrightarrow> m \<in> dom (Chunks g) \<or> m \<in> fst ` set (inserting f)"
    using assms(1) unfolding held_def prod.case by blast+
  have "m \<in> dom (Chunks g) \<or> m = k \<or> m \<in> fst ` set (inserting f)" if "0 \<le> m" "m < k + 1" for m
    using h(4) that by (cases "m = k") auto
  then show ?thesis unfolding held_def prod.case using h(1-3) assms(2,3) by force
qed

section \<open>The ends of goroutines\<close>

text \<open>What ends of goroutines and waits leave alone.\<close>

definition frame :: "world \<Rightarrow> world \<Rightarrow> bool" where
  "frame = (\<lambda>(f, g) (f', g'). mode f' = mode f \<and> chunk f' = chunk f \<and> wbuf f' = wbuf f \<and> wsum f' = wsum f \<and> doc f' = doc f \<and>
     Files g' = Files g \<and> (err f' = None \<longrightarrow> err f = None))"

lemma frame_refl [simp]: "frame w w"
  by (auto simp: frame_def)

lemma frame_trans: "frame u v \<Longrightarrow> frame v w \<Longrightarrow> frame u w"
  by (cases u; cases v; cases w) (auto simp: frame_def)

lemma finish_frame: "frame w (finish w e)"
  by (cases w; cases e) (auto simp: frame_def finish_def Let_def split: prod.split)

lemma wakeup_frame: "frame w (wakeup es w)"
proof (induction es arbitrary: w)
  case (Cons e es)
  then show ?case using frame_trans[OF finish_frame, of w e "wakeup es (finish w e)"] by (simp add: wakeup_def)
qed (simp add: wakeup_def)

lemma finish_held:
  assumes "held c xs k (f, g)" "finish (f, g) (j, e) = (f', g')" "err f' = None"
  shows "held c xs k (f', g')"
proof (cases "inserting f = []")
  case True
  then show ?thesis using assms by (simp add: finish_def)
next
  case False
  let ?j = "j mod length (inserting f)" and ?rest = "take (j mod length (inserting f)) (inserting f) @ drop (Suc (j mod length (inserting f))) (inserting f)"
  obtain n d where nd: "inserting f ! ?j = (n, d)" by fastforce
  have lt: "?j < length (inserting f)" using False by simp
  then have i: "inserting f = take ?j (inserting f) @ (n, d) # drop (Suc ?j) (inserting f)" using id_take_nth_drop[OF lt] nd by simp
  then have s: "set (inserting f) = insert (n, d) (set ?rest)" by (metis Un_insert_right list.simps(15) set_append)
  have l: "int (length ?rest) = int (length (inserting f)) - 1" using lt by simp
  have e: "e = None" using assms(2,3) False nd by (auto simp: finish_def Let_def split: if_splits)
  then have f': "wpending f' = wpending f - 1" "inserting f' = ?rest" "g' = g\<lparr>Chunks := (Chunks g)(n \<mapsto> d)\<rparr>"
    using assms(2) False nd by (auto simp: finish_def Let_def)
  have h0: "wpending f = int (length (inserting f))" "\<forall>(n, d) \<in> set (inserting f). 0 \<le> n \<and> n < k \<and> d = piece c xs n"
    "\<forall>n d. Chunks g n = Some d \<longrightarrow> 0 \<le> n \<and> n < k \<and> d = piece c xs n"
    "\<forall>m. 0 \<le> m \<longrightarrow> m < k \<longrightarrow> m \<in> dom (Chunks g) \<or> m \<in> fst ` set (inserting f)"
    using assms(1) unfolding held_def prod.case by blast+
  note h = h0(1) h0(2)[unfolded s] h0(3) h0(4)[unfolded s]
  show ?thesis unfolding held_def prod.case f'
  proof (intro conjI)
    show "wpending f - 1 = int (length ?rest)" using h(1) l by simp
    show "\<forall>(n, d) \<in> set ?rest. 0 \<le> n \<and> n < k \<and> d = piece c xs n" using h(2) by blast
    show "\<forall>m x. Chunks (g\<lparr>Chunks := (Chunks g)(n \<mapsto> d)\<rparr>) m = Some x \<longrightarrow> 0 \<le> m \<and> m < k \<and> x = piece c xs m" using h(2,3) by auto
    show "\<forall>m. 0 \<le> m \<longrightarrow> m < k \<longrightarrow> m \<in> dom (Chunks (g\<lparr>Chunks := (Chunks g)(n \<mapsto> d)\<rparr>)) \<or> m \<in> fst ` set ?rest" using h(4) by auto
  qed
qed

text \<open>A property that holds as long as there is no error.\<close>

definition held_if :: "nat \<Rightarrow> byte list \<Rightarrow> int \<Rightarrow> world \<Rightarrow> bool" where
  "held_if c xs k w \<longleftrightarrow> (err (fst w) = None \<longrightarrow> held c xs k w)"

lemma finish_held_if: "held_if c xs k w \<Longrightarrow> held_if c xs k (finish w e)"
proof -
  assume h: "held_if c xs k w"
  obtain f g where w: "w = (f, g)" by fastforce
  obtain j x where e: "e = (j, x)" by fastforce
  obtain f' g' where r: "finish (f, g) (j, x) = (f', g')" by fastforce
  have "err f' = None \<Longrightarrow> err f = None" using finish_frame[of "(f, g)" "(j, x)"] unfolding r frame_def by auto
  then show ?thesis using h finish_held[OF _ r] by (auto simp: held_if_def w e r)
qed

lemma wakeup_held_if: "held_if c xs k w \<Longrightarrow> held_if c xs k (wakeup es w)"
  by (induction es arbitrary: w) (simp_all add: wakeup_def finish_held_if)

lemma hold_on_ok:
  "hold_on ws w = Inr (early, ws', w') \<Longrightarrow> frame w w' \<and> (early \<longrightarrow> err (fst w') \<noteq> None) \<and> (held_if c xs k w \<longrightarrow> held_if c xs k w')"
proof (induction ws arbitrary: w)
  case Nil
  then show ?case by (simp add: hold_on.simps[of "[]"] split: if_splits)
next
  case (Cons es ws)
  note f = wakeup_frame[of w es] and h = wakeup_held_if[of c xs k w es]
  show ?case
  proof (cases "ChunkSize (doc (fst w)) * wpending (fst w) \<ge> 1024 * 1024 \<and> err (fst (wakeup es w)) = None")
    case True
    then have "hold_on ws (wakeup es w) = Inr (early, ws', w')" using Cons.prems by (simp add: hold_on.simps[of "es # ws"] Let_def)
    from Cons.IH[OF this] show ?thesis using f h frame_trans by blast
  next
    case False
    then show ?thesis using Cons.prems f h by (auto simp: hold_on.simps[of "es # ws"] Let_def split: if_splits)
  qed
qed

lemma await_ok:
  "await ws w = Inr (ws', w') \<Longrightarrow> frame w w' \<and> wpending (fst w') \<le> 0 \<and> (held_if c xs k w \<longrightarrow> held_if c xs k w')"
proof (induction ws arbitrary: w)
  case Nil
  then show ?case by (simp add: await.simps[of "[]"] split: if_splits)
next
  case (Cons es ws)
  note f = wakeup_frame[of w es] and h = wakeup_held_if[of c xs k w es]
  show ?case
  proof (cases "wpending (fst w) > 0")
    case True
    then have "await ws (wakeup es w) = Inr (ws', w')" using Cons.prems by (simp add: await.simps[of "es # ws"])
    from Cons.IH[OF this] show ?thesis using f h frame_trans by blast
  next
    case False
    then show ?thesis using Cons.prems by (simp add: await.simps[of "es # ws"])
  qed
qed

section \<open>Writing\<close>

lemma insertChunk_ok:
  assumes "insertChunk data ws (f, g) = Inr (ws', (f', g'))" "held_if c xs (chunk f) (f, g)"
    "err f = None \<Longrightarrow> data = piece c xs (chunk f) \<and> 0 \<le> chunk f"
  shows "frame (f\<lparr>chunk := chunk f + 1, wsum := wsum f @ data\<rparr>, g) (f', g') \<and> held_if c xs (chunk f + 1) (f', g')"
proof -
  let ?f = "f\<lparr>chunk := chunk f + 1, wsum := wsum f @ data\<rparr>"
  obtain early vs u h where r: "hold_on ws (?f, g) = Inr (early, vs, (u, h))"
    using assms(1) by (auto simp: insertChunk_def Let_def split: prod.splits)
  have "held_if c xs (chunk f) (?f, g)" using assms(2) by (simp add: held_if_def held_def)
  then have o: "frame (?f, g) (u, h)" "early \<longrightarrow> err u \<noteq> None" "held_if c xs (chunk f) (u, h)" using hold_on_ok[OF r] by auto
  show ?thesis
  proof (cases early)
    case True
    then have "f' = u" "g' = h" using assms(1) r by (simp_all add: insertChunk_def Let_def)
    then show ?thesis using True o(1,2) by (auto simp: held_if_def)
  next
    case False
    let ?m = "Marshal (gfsChunk (Id (doc u)) (chunk f) data)"
    consider (bad) e where "?m = Inl (Err e)" | (good) x where "?m = Inr x"
      using assms(1) r False by (auto simp: insertChunk_def Let_def split: sum.splits go_error.splits)
    then show ?thesis
    proof cases
      case bad
      then show ?thesis using assms(1) r False o(1) by (auto simp: insertChunk_def Let_def frame_def held_if_def)
    next
      case good
      then have f': "f' = u\<lparr>wpending := wpending u + 1, inserting := inserting u @ [(chunk f, data)]\<rparr>" "g' = h"
        using assms(1) r False by (simp_all add: insertChunk_def Let_def)
      have "err u = None \<Longrightarrow> err f = None" using o(1) by (simp add: frame_def)
      then have "err u = None \<Longrightarrow> held c xs (chunk f + 1) (f', g')"
        using o(3) assms(3) held_snoc[of c xs "chunk f" u h data] by (simp add: f' held_if_def)
      then show ?thesis using o(1) by (auto simp: f' frame_def held_if_def)
    qed
  qed
qed

text \<open>Between chunks: the content is \<open>xs\<close>, of which \<open>rest\<close> is still to be cut.\<close>

definition going :: "nat \<Rightarrow> byte list \<Rightarrow> byte list \<Rightarrow> world \<Rightarrow> bool" where
  "going c xs rest = (\<lambda>(f, g). err f = None \<longrightarrow> 0 \<le> chunk f \<and> nat (chunk f) * c \<le> length xs \<and> rest = drop (nat (chunk f) * c) xs \<and>
     wsum f = take (nat (chunk f) * c) xs \<and> held c xs (chunk f) (f, g))"

definition static :: "world \<Rightarrow> world \<Rightarrow> bool" where
  "static = (\<lambda>(f, g) (f', g'). mode f' = mode f \<and> wbuf f' = wbuf f \<and> doc f' = doc f \<and> Files g' = Files g \<and> (err f' = None \<longrightarrow> err f = None))"

lemma static_refl [simp]: "static w w"
  by (simp add: static_def split: prod.split)

lemma static_trans: "static u v \<Longrightarrow> static v w \<Longrightarrow> static u w"
  by (auto simp: static_def)

lemma insert_piece:
  assumes "insertChunk data ws (f, g) = Inr (ws', (f', g'))" "going c xs rest (f, g)" "data = take c rest"
  shows "static (f, g) (f', g')" "err f' = None \<Longrightarrow> chunk f' = chunk f + 1 \<and> 0 \<le> chunk f \<and> wsum f' = take (nat (chunk f) * c + c) xs \<and> held c xs (chunk f + 1) (f', g')"
proof -
  have p: "err f = None \<Longrightarrow> data = piece c xs (chunk f) \<and> 0 \<le> chunk f" using assms(2,3) by (simp add: going_def piece_def)
  have "held_if c xs (chunk f) (f, g)" using assms(2) by (simp add: going_def held_if_def)
  from insertChunk_ok[OF assms(1) this p]
  have o: "frame (f\<lparr>chunk := chunk f + 1, wsum := wsum f @ data\<rparr>, g) (f', g')" "held_if c xs (chunk f + 1) (f', g')" by auto
  show "static (f, g) (f', g')" using o(1) by (simp add: frame_def static_def)
  assume e: "err f' = None"
  then have "err f = None" using o(1) by (simp add: frame_def)
  then have "0 \<le> chunk f" "wsum f = take (nat (chunk f) * c) xs" "data = take c (drop (nat (chunk f) * c) xs)"
    using assms(2,3) by (simp_all add: going_def)
  then show "chunk f' = chunk f + 1 \<and> 0 \<le> chunk f \<and> wsum f' = take (nat (chunk f) * c + c) xs \<and> held c xs (chunk f + 1) (f', g')"
    using o e by (simp add: frame_def held_if_def take_add)
qed

lemma insert_full:
  assumes "insertChunk (take c rest) ws (f, g) = Inr (ws', (f', g'))" "going c xs rest (f, g)" "c \<le> length rest"
  shows "going c xs (drop c rest) (f', g')"
proof -
  note o = insert_piece[OF assms(1,2) refl]
  have "err f' = None \<Longrightarrow> err f = None" using o(1) by (simp add: static_def)
  then show ?thesis using o(2) assms(2,3) by (auto simp: going_def nat_add_distrib add.commute)
qed

lemma flush_chunks_ok:
  assumes "c > 0"
  shows "flush_chunks (int c) data ws w = Some (Inr (rest, ws', w')) \<Longrightarrow> going c xs data w \<Longrightarrow> static w w' \<and> going c xs rest w' \<and> length rest \<le> c"
proof (induction "length data" arbitrary: data ws w rule: less_induct)
  case less
  show ?case
  proof (cases "length data > c")
    case False
    then show ?thesis using less.prems by (auto simp: flush_chunks.simps[of _ data])
  next
    case True
    then have s: "slice data 0 (int c) = Inr (take c data)" by (simp add: slice_def)
    obtain vs u where r: "insertChunk (take c data) ws w = Inr (vs, u)" "flush_chunks (int c) (drop c data) vs u = Some (Inr (rest, ws', w'))"
      using less.prems(1) True s by (auto simp: flush_chunks.simps[of _ data] split: sum.splits)
    obtain f g f' g' where w: "w = (f, g)" "u = (f', g')" by fastforce
    have "static w u" using insert_piece(1)[OF r(1)[unfolded w] less.prems(2)[unfolded w] refl] by (simp add: w)
    moreover have "going c xs (drop c data) u" using insert_full[OF r(1)[unfolded w] less.prems(2)[unfolded w]] True by (simp add: w)
    moreover have "length (drop c data) < length data" using True assms by simp
    ultimately show ?thesis using less.hyps r(2) static_trans by blast
  qed
qed

lemma going_append: "going c xs rest w \<Longrightarrow> going c (xs @ ys) (rest @ ys) w"
  by (auto simp: going_def held_append split: prod.split)

lemma going_wbuf [simp]: "going c xs rest (f\<lparr>wbuf := b\<rparr>, g) = going c xs rest (f, g)" "going c xs rest (f\<lparr>doc := d\<rparr>, g) = going c xs rest (f, g)"
  by (simp_all add: going_def held_def)

lemma flush_wbuf_ok:
  assumes "flush_wbuf data ws (f, g) = Inr (data', ws', (f', g'))" "going c xs (wbuf f @ data) (f, g)" "ChunkSize (doc f) = int c"
    "length (wbuf f) \<le> c" "c \<le> length (wbuf f) + length data"
  shows "going c xs data' (f', g')" "wbuf f' = []" "static (f\<lparr>wbuf := []\<rparr>, g) (f', g')"
proof -
  have "going c xs data' (f', g') \<and> wbuf f' = [] \<and> static (f\<lparr>wbuf := []\<rparr>, g) (f', g')"
  proof (cases "wbuf f = []")
    case True
    then show ?thesis using assms(1,2) by (auto simp: flush_wbuf_def static_def)
  next
    case False
    let ?m = "c - length (wbuf f)"
    have m: "min (ChunkSize (doc f) - int (length (wbuf f))) (int (length data)) = int ?m" using assms(3-5) by simp
    have s: "slice data 0 (int ?m) = Inr (take ?m data)" using assms(5) by (simp add: slice_def)
    obtain u where u: "insertChunk (wbuf f @ take ?m data) ws (f\<lparr>wbuf := wbuf f @ take ?m data\<rparr>, g) = Inr (ws', (u, g'))"
        "data' = drop ?m data" "f' = u\<lparr>wbuf := []\<rparr>"
      using assms(1) False unfolding flush_wbuf_def prod.case m s Let_def by auto
    have t: "wbuf f @ take ?m data = take c (wbuf f @ data)" "drop c (wbuf f @ data) = drop ?m data" using assms(4) by simp_all
    have go: "going c xs (wbuf f @ data) (f\<lparr>wbuf := wbuf f @ take ?m data\<rparr>, g)" using assms(2) by simp
    have "static (f\<lparr>wbuf := wbuf f @ take ?m data\<rparr>, g) (u, g')" using insert_piece(1)[OF u(1) go t(1)] .
    moreover have "going c xs (drop ?m data) (u, g')" using insert_full[OF u(1)[unfolded t(1)]] go assms(5) unfolding t by simp
    ultimately show ?thesis by (auto simp: u(2,3) static_def)
  qed
  then show "going c xs data' (f', g')" "wbuf f' = []" "static (f\<lparr>wbuf := []\<rparr>, g) (f', g')" by simp_all
qed

text \<open>What holds between the calls for a file with content \<open>xs\<close>.\<close>

definition open_file :: "nat \<Rightarrow> gfsFile \<Rightarrow> byte list \<Rightarrow> world \<Rightarrow> bool" where
  "open_file c d xs = (\<lambda>(f, g). mode f = Writing \<and> ChunkSize d = int c \<and>
     (err f = None \<longrightarrow> Files g = [] \<and> doc f = d\<lparr>Length := int (length xs)\<rparr> \<and> length (wbuf f) \<le> c \<and> going c xs (wbuf f) (f, g)))"

lemma Write_ok:
  assumes "c > 0" "Write data ws w = Inr (n, e, ws', w')" "open_file c d xs w"
  shows "open_file c d (xs @ data) w' \<and> (e = None \<longleftrightarrow> err (fst w') = None)"
proof -
  obtain f g where w: "w = (f, g)" by fastforce
  have m: "mode f = Writing" "ChunkSize d = int c" using assms(3) by (simp_all add: open_file_def w)
  show ?thesis
  proof (cases "err f = None")
    case False
    then have "w' = w" "e \<noteq> None" using assms(2) m by (auto simp: Write_def w assertMode_def)
    then show ?thesis using False m by (auto simp: open_file_def w)
  next
    case None: True
    let ?n = "int (length data)"
    define F where "F = f\<lparr>doc := (doc f)\<lparr>Length := Length (doc f) + ?n\<rparr>\<rparr>"
    have o: "Files g = []" "doc f = d\<lparr>Length := int (length xs)\<rparr>" "length (wbuf f) \<le> c" "going c xs (wbuf f) (f, g)"
      using assms(3) None by (simp_all add: open_file_def w)
    have F: "mode F = Writing" "doc F = d\<lparr>Length := int (length (xs @ data))\<rparr>" "wbuf F = wbuf f" "err F = None"
      using o(2) m None by (simp_all add: F_def)
    have go: "going c (xs @ data) (wbuf f @ data) (F, g)" using going_append[OF o(4)] by (simp add: F_def)
    show ?thesis
    proof (cases "int (length (wbuf f)) + ?n < int c")
      case True
      then have "w' = (F\<lparr>wbuf := wbuf f @ data\<rparr>, g)" "e = None"
        using assms(2) m None o(2) by (auto simp: Write_def w assertMode_def F_def Let_def)
      then show ?thesis using True go F o(1) m(2) by (simp add: open_file_def del: append_assoc)
    next
      case False
      then have ge: "c \<le> length (wbuf F) + length data" "length (wbuf F) \<le> c" using o(3) F(3) by simp_all
      obtain data' us f' g' rest u h where r: "flush_wbuf data ws (F, g) = Inr (data', us, (f', g'))"
          "returned (flush_chunks (int c) data' us (f', g')) = Inr (rest, ws', (u, h))" "e = err u" "w' = (u\<lparr>wbuf := wbuf u @ rest\<rparr>, h)"
        using assms(2) m None False o(2) by (auto simp: Write_def w assertMode_def F_def Let_def)
      have cs: "ChunkSize (doc F) = int c" using F(2) m(2) by simp
      note b = flush_wbuf_ok[OF r(1) _ cs ge(2,1), of "xs @ data"]
      have b: "going c (xs @ data) data' (f', g')" "wbuf f' = []" "static (F\<lparr>wbuf := []\<rparr>, g) (f', g')"
        using b go F(3) by simp_all
      have "flush_chunks (int c) data' us (f', g') = Some (Inr (rest, ws', (u, h)))" using r(2) by (cases "flush_chunks (int c) data' us (f', g')") (simp_all add: returned_def)
      from flush_chunks_ok[OF assms(1) this b(1)]
      have l: "static (f', g') (u, h)" "going c (xs @ data) rest (u, h)" "length rest \<le> c" by simp_all
      have "mode u = Writing" "wbuf u = []" "doc u = doc F" "Files h = []" using l(1) b(2,3) F(1) o(1) by (simp_all add: static_def)
      then show ?thesis using l(2,3) m(2) F(2) r(3,4) by (simp add: open_file_def)
    qed
  qed
qed

text \<open>A run of writes, with goroutines that end in between; the errors of the writes are ignored.\<close>

datatype wop = WriteOp "byte list" | Endings "ending list"

fun run_writes :: "wop list \<Rightarrow> ending list list \<Rightarrow> world \<Rightarrow> (ending list list \<times> world) go" where
  "run_writes [] ws w = Inr (ws, w)"
| "run_writes (WriteOp data # ops) ws w = bindE (Write data ws w) (\<lambda>(n, e, ws, w). run_writes ops ws w)"
| "run_writes (Endings es # ops) ws w = run_writes ops ws (wakeup es w)"

fun content :: "wop list \<Rightarrow> byte list" where
  "content [] = []"
| "content (WriteOp data # ops) = data @ content ops"
| "content (Endings es # ops) = content ops"

lemma going_frame:
  assumes "going c xs rest w" "frame w w'" "held_if c xs (chunk (fst w)) w'"
  shows "going c xs rest w'"
  using assms by (auto simp: going_def frame_def held_if_def split: prod.splits)

lemma wakeup_going: "going c xs rest w \<Longrightarrow> going c xs rest (wakeup es w)"
proof -
  assume g: "going c xs rest w"
  then have "held_if c xs (chunk (fst w)) w" by (auto simp: going_def held_if_def split: prod.splits)
  then show ?thesis using going_frame[OF g wakeup_frame] wakeup_held_if by blast
qed

lemma wakeup_open: "open_file c d xs w \<Longrightarrow> open_file c d xs (wakeup es w)"
proof -
  assume o: "open_file c d xs w"
  obtain f g f' g' where w: "w = (f, g)" "wakeup es w = (f', g')" by fastforce
  have fr: "frame (f, g) (f', g')" using wakeup_frame[of w es] unfolding w(2) unfolding w(1) .
  have "err f' = None \<Longrightarrow> err f = None" using fr by (simp add: frame_def)
  then have "err f' = None \<Longrightarrow> going c xs (wbuf f) (f', g')"
    using o wakeup_going[of c xs "wbuf f" "(f, g)" es] w unfolding open_file_def by simp
  moreover have "wakeup es (f, g) = (f', g')" using w by simp
  ultimately show ?thesis using o fr unfolding w(1) by (auto simp: open_file_def frame_def)
qed

lemma run_writes_ok:
  assumes "c > 0"
  shows "run_writes ops ws w = Inr (ws', w') \<Longrightarrow> open_file c d xs w \<Longrightarrow> open_file c d (xs @ content ops) w'"
proof (induction ops ws w arbitrary: xs rule: run_writes.induct)
  case (2 data ops ws w)
  then obtain n e vs v where r: "Write data ws w = Inr (n, e, vs, v)" "run_writes ops vs v = Inr (ws', w')" by auto
  from Write_ok[OF assms r(1) 2(3)] have "open_file c d (xs @ data) v" by simp
  from 2(1)[OF r(1) _ _ _ r(2) this] show ?case by simp
next
  case (3 es ops ws w)
  then show ?case using wakeup_open by simp
qed simp

lemma held_done:
  assumes "held c xs k (f, g)" "wpending f \<le> 0" "0 \<le> k" "length xs \<le> nat k * c" "k = 0 \<or> (nat k - 1) * c < length xs"
  shows "Chunks g = chunks_of c xs"
proof
  fix n
  have h: "inserting f = []" "\<And>n d. Chunks g n = Some d \<Longrightarrow> 0 \<le> n \<and> n < k \<and> d = piece c xs n" "\<And>n. 0 \<le> n \<Longrightarrow> n < k \<Longrightarrow> n \<in> dom (Chunks g)"
    using assms(1,2) by (auto simp: held_def)
  have "0 \<le> n \<and> n < k \<longleftrightarrow> 0 \<le> n \<and> n * int c < int (length xs)"
  proof (intro iffI conjI)
    assume n: "0 \<le> n \<and> n < k"
    have "nat n * c \<le> (nat k - 1) * c" by (rule mult_le_mono1) (use n in linarith)
    then have "nat n * c < length xs" using assms(5) n by linarith
    then have "int (nat n * c) < int (length xs)" by (simp only: of_nat_less_iff)
    then show "n * int c < int (length xs)" using n by simp
  next
    assume n: "0 \<le> n \<and> n * int c < int (length xs)"
    have "int (length xs) \<le> int (nat k * c)" using assms(4) by (simp only: of_nat_le_iff)
    then have "n * int c < k * int c" using n assms(3) by simp
    then show "n < k" by (simp add: mult_less_cancel_right)
  qed simp_all
  then show "Chunks g n = chunks_of c xs n"
    using h(2)[of n] h(3)[of n] by (cases "Chunks g n") (auto simp: chunks_of_def dom_def)
qed

text \<open>The document of a file.\<close>

definition file_doc :: "(byte list \<Rightarrow> string) \<Rightarrow> int \<Rightarrow> gfsFile \<Rightarrow> byte list \<Rightarrow> gfsFile" where
  "file_doc md5 now d xs = d\<lparr>UploadDate := now, Length := int (length xs), MD5 := md5 xs\<rparr>"

lemma insertFile_ok:
  assumes "insertFile md5 now ins ws (f, g) = Inr (ws', (f', g'))" "err f' = None" "err f = None \<Longrightarrow> held c xs k (f, g) \<and> wsum f = xs" "0 \<le> k"
    "length xs \<le> nat k * c" "k = 0 \<or> (nat k - 1) * c < length xs" "Files g = []" "doc f = d\<lparr>Length := int (length xs)\<rparr>"
  shows "g' = \<lparr>Chunks = chunks_of c xs, Files = [file_doc md5 now d xs]\<rparr>"
proof -
  obtain u h where r: "await ws (f, g) = Inr (ws', (u, h))" using assms(1) by (auto simp: insertFile_def Let_def)
  have u: "err u = None" "ins = None" "g' = h\<lparr>Files := Files h @ [(doc u)\<lparr>UploadDate := now, MD5 := md5 (wsum f)\<rparr>]\<rparr>"
    using assms(1,2) r by (auto simp: insertFile_def Let_def split: if_splits)
  have a: "frame (f, g) (u, h)" "wpending u \<le> 0" "held_if c xs k (f, g) \<Longrightarrow> held_if c xs k (u, h)" using await_ok[OF r] by auto
  have f: "err f = None" using a(1) u(1) by (simp add: frame_def)
  then have "held c xs k (u, h)" using a(3) assms(3) u(1) by (simp add: held_if_def)
  then have "Chunks h = chunks_of c xs" using held_done a(2) assms(4-6) by blast
  moreover have "Files h = []" "doc u = d\<lparr>Length := int (length xs)\<rparr>" using a(1) assms(7,8) by (simp_all add: frame_def)
  ultimately show ?thesis using assms(3)[OF f] by (cases h) (simp add: u(3) file_doc_def)
qed

lemma insertFile_err: "insertFile md5 now ins ws (f, g) = Inr (ws', (f', g')) \<Longrightarrow> err f' = None \<Longrightarrow> err f = None"
proof -
  assume i: "insertFile md5 now ins ws (f, g) = Inr (ws', (f', g'))" and e: "err f' = None"
  obtain u h where r: "await ws (f, g) = Inr (ws', (u, h))" using i by (auto simp: insertFile_def Let_def)
  then have "err u = None" using i e by (auto simp: insertFile_def Let_def split: if_splits)
  then show "err f = None" using await_ok[OF r, of undefined undefined undefined] by (simp add: frame_def)
qed

lemma Close_ok:
  assumes "c > 0" "open_file c d xs (f, g)" "Close md5 now ins ws (f, g) = Inr (None, (f', g'))"
  shows "g' = \<lparr>Chunks = chunks_of c xs, Files = [file_doc md5 now d xs]\<rparr>"
proof -
  have m: "mode f = Writing" using assms(2) by (simp add: open_file_def)
  show ?thesis
  proof (cases "wbuf f = []")
    case True
    obtain vs v where r: "insertFile md5 now ins ws (f, g) = Inr (vs, (v, g'))" "err v = None"
      using assms(3) m True by (auto simp: Close_def)
    have o: "Files g = []" "doc f = d\<lparr>Length := int (length xs)\<rparr>" "going c xs [] (f, g)" "err f = None"
      using assms(2) insertFile_err[OF r] True by (simp_all add: open_file_def)
    have g: "0 \<le> chunk f" "length xs = nat (chunk f) * c" "held c xs (chunk f) (f, g) \<and> wsum f = xs"
      using o(3,4) by (simp_all add: going_def)
    have "chunk f = 0 \<or> (nat (chunk f) - 1) * c < length xs"
      using assms(1) g(1,2) by (cases "nat (chunk f)") auto
    then show ?thesis using insertFile_ok[OF r g(3,1)] g(2) o(1,2) by simp
  next
    case False
    obtain us u h vs v where r: "insertChunk (wbuf f) ws (f, g) = Inr (us, (u, h))"
        "insertFile md5 now ins us (u\<lparr>wbuf := []\<rparr>, h) = Inr (vs, (v, g'))" "err v = None"
      using assms(3) m False by (auto simp: Close_def)
    have eu: "err u = None" using insertFile_err[OF r(2,3)] by simp
    have e: "err f = None"
    proof (rule ccontr)
      assume n: "err f \<noteq> None"
      
      from insertChunk_ok[OF r(1), of c xs] n have "frame (f\<lparr>chunk := chunk f + 1, wsum := wsum f @ wbuf f\<rparr>, g) (u, h)" by (simp add: held_if_def)
      then show False using n eu by (simp add: frame_def)
    qed
    have o: "Files g = []" "doc f = d\<lparr>Length := int (length xs)\<rparr>" "going c xs (wbuf f) (f, g)" "length (wbuf f) \<le> c"
      using assms(2) e by (simp_all add: open_file_def)
    have g: "0 \<le> chunk f" "nat (chunk f) * c \<le> length xs" "wbuf f = drop (nat (chunk f) * c) xs" using o(3) e by (simp_all add: going_def)
    have t: "wbuf f = take c (wbuf f)" using o(4) by simp
    have le: "length xs \<le> nat (chunk f) * c + c" "nat (chunk f) * c < length xs" using o(4) False unfolding g(3) by simp_all
    note i = insert_piece[OF r(1) o(3) t]
    have k: "wsum u = xs" "held c xs (chunk f + 1) (u, h)" using i(2)[OF eu] le(1) by simp_all
    have st: "Files h = []" "doc u = d\<lparr>Length := int (length xs)\<rparr>" using i(1) o(1,2) by (simp_all add: static_def)
    have n: "nat (chunk f + 1) = Suc (nat (chunk f))" using g(1) by simp
    have "held c xs (chunk f + 1) (u\<lparr>wbuf := []\<rparr>, h) \<and> wsum (u\<lparr>wbuf := []\<rparr>) = xs" using k by (simp add: held_def)
    from insertFile_ok[OF r(2,3) this] show ?thesis using g(1) le st by (simp add: n)
  qed
qed

section \<open>What is stored\<close>

definition no_files :: gfs where
  "no_files = \<lparr>Chunks = Map.empty, Files = []\<rparr>"

lemma Create_open:
  assumes "c > 0" "SetChunkSize (int c) (Create i name) = Inr f"
  shows "open_file c (doc f) [] (f, no_files)" "doc f = (doc newFile)\<lparr>Id := i, ChunkSize := int c, Filename := name\<rparr>"
  using assms by (auto simp: SetChunkSize_def on_doc_def assertMode_def Create_def newFile_def open_file_def going_def held_def no_files_def)

text \<open>C24: When \<open>Close\<close> returns no error after any writes, whatever happened to the goroutines that insert the chunks and whenever
  they ended, then the database holds exactly the chunks of what was written, all of the chunk size but the last, and a
  document with the length and the hash of it.\<close>

theorem closed_file_is_stored:
  assumes "c > 0" "SetChunkSize (int c) (Create i name) = Inr f" "run_writes ops ws (f, no_files) = Inr (ws', w)"
    "Close md5 now ins ws' w = Inr (None, (f', g'))"
  shows "Chunks g' = chunks_of c (content ops) \<and> Files g' = [file_doc md5 now (doc f) (content ops)]"
proof -
  obtain u h where w: "w = (u, h)" by fastforce
  have "open_file c (doc f) (content ops) (u, h)" using run_writes_ok[OF assms(1,3) Create_open(1)[OF assms(1,2)]] by (simp add: w)
  from Close_ok[OF assms(1) this assms(4)[unfolded w]] show ?thesis by simp
qed

section \<open>Writing does not get stuck\<close>

text \<open>Before each wakeup at least one goroutine ends, and all of them insert their chunks.\<close>

definition clean :: "ending list \<Rightarrow> bool" where
  "clean es \<longleftrightarrow> list_all (\<lambda>(k, e). e = None) es \<and> es \<noteq> []"

text \<open>There are wakeups for the goroutines that run and for \<open>n\<close> more.\<close>

definition live :: "nat \<Rightarrow> ending list list \<Rightarrow> world \<Rightarrow> bool" where
  "live n ws = (\<lambda>(f, g). err f = None \<and> wpending f = int (length (inserting f)) \<and> list_all clean ws \<and>
     length (inserting f) + n \<le> length ws \<and> (\<exists>s. Id (doc f) = ObjectId s \<and> length s = 12))"

lemma live_update [simp]:
  "live n ws (f\<lparr>wbuf := b\<rparr>, g) = live n ws (f, g)" "live n ws (f\<lparr>chunk := k\<rparr>, g) = live n ws (f, g)"
  "live n ws (f\<lparr>wsum := b\<rparr>, g) = live n ws (f, g)" "live n ws (f\<lparr>doc := (doc f)\<lparr>Length := l\<rparr>\<rparr>, g) = live n ws (f, g)"
  by (simp_all add: live_def)

lemma live_mono: "live m ws w \<Longrightarrow> n \<le> m \<Longrightarrow> live n ws w"
  by (auto simp: live_def)

text \<open>The number of goroutines, of which one less runs after an end.\<close>

definition running :: "world \<Rightarrow> nat" where
  "running w = length (inserting (fst w))"

lemma length_one_less: "xs \<noteq> [] \<Longrightarrow> length (take (k mod length xs) xs @ drop (Suc (k mod length xs)) xs) = length xs - 1"
proof -
  assume "xs \<noteq> []"
  then have "k mod length xs < length xs" by simp
  then show ?thesis by (simp add: min_absorb2)
qed

lemma finish_running: "running (finish w (k, e)) = running w - 1"
  by (cases w) (simp add: running_def finish_def Let_def length_one_less split: prod.split del: length_append)

lemma finish_live: "live n ws w \<Longrightarrow> live n ws (finish w (k, None))"
proof -
  assume l: "live n ws w"
  obtain f g where w: "w = (f, g)" by fastforce
  show ?thesis
  proof (cases "inserting f = []")
    case True
    then show ?thesis using l by (simp add: w finish_def)
  next
    case False
    then obtain m where m: "length (inserting f) = Suc m" by (cases "inserting f") simp_all
    obtain f' g' where r: "finish (f, g) (k, None) = (f', g')" by fastforce
    have "err f' = err f" "wpending f' = wpending f - 1" "doc f' = doc f" using r False by (auto simp: finish_def Let_def split: prod.splits)
    moreover have "length (inserting f') = m" using finish_running[of "(f, g)" k None] m by (simp add: running_def r)
    ultimately show ?thesis using l m by (simp add: w r live_def)
  qed
qed

lemma wakeup_live:
  "list_all (\<lambda>(k, e). e = None) es \<Longrightarrow> live n ws w \<Longrightarrow> live n ws (wakeup es w) \<and> running (wakeup es w) = running w - length es"
proof (induction es arbitrary: w)
  case (Cons x es)
  obtain k where x: "x = (k, None)" using Cons.prems(1) by (cases x) auto
  have "live n ws (finish w (k, None))" "list_all (\<lambda>(k, e). e = None) es" using Cons.prems finish_live by simp_all
  from Cons.IH[OF this(2,1)] show ?case by (simp add: wakeup_def x finish_running)
qed (simp add: wakeup_def)

lemma clean_wakeup:
  assumes "live n (es # ws) w" "running w > 0"
  shows "live n ws (wakeup es w)"
proof -
  have c: "list_all (\<lambda>(k, e). e = None) es" "es \<noteq> []" using assms(1) by (auto simp: live_def clean_def split: prod.splits)
  then have l: "length es > 0" by simp
  have w: "live n (es # ws) (wakeup es w)" "running (wakeup es w) = running w - length es" using wakeup_live[OF c(1) assms(1)] by auto
  have "running w + n \<le> Suc (length ws)" using assms(1) by (auto simp: live_def running_def split: prod.splits)
  then have "running (wakeup es w) + n \<le> length ws" using w(2) l assms(2) by linarith
  then show ?thesis using w(1) by (auto simp: live_def running_def split: prod.splits)
qed

lemma hold_on_live: "live n ws w \<Longrightarrow> \<exists>ws' w'. hold_on ws w = Inr (False, ws', w') \<and> live n ws' w'"
proof (induction ws arbitrary: w)
  case Nil
  then show ?case by (auto simp: hold_on.simps[of "[]"] live_def split: prod.splits)
next
  case (Cons es ws)
  show ?case
  proof (cases "ChunkSize (doc (fst w)) * wpending (fst w) \<ge> 1024 * 1024")
    case True
    then have "running w > 0" using Cons.prems by (cases "inserting (fst w)") (auto simp: live_def running_def split: prod.splits)
    then have l: "live n ws (wakeup es w)" by (rule clean_wakeup[OF Cons.prems])
    then have "err (fst (wakeup es w)) = None" by (auto simp: live_def split: prod.splits)
    then show ?thesis using Cons.IH[OF l] True by (simp add: hold_on.simps[of "es # ws"] Let_def)
  next
    case False
    then show ?thesis using Cons.prems by (simp add: hold_on.simps[of "es # ws"])
  qed
qed

lemma await_live: "live n ws w \<Longrightarrow> \<exists>ws' w'. await ws w = Inr (ws', w') \<and> live n ws' w'"
proof (induction ws arbitrary: w)
  case Nil
  then show ?case by (auto simp: await.simps[of "[]"] live_def split: prod.splits)
next
  case (Cons es ws)
  show ?case
  proof (cases "wpending (fst w) > 0")
    case True
    then have "running w > 0" using Cons.prems by (auto simp: live_def running_def split: prod.splits)
    then have l: "live n ws (wakeup es w)" by (rule clean_wakeup[OF Cons.prems])
    then show ?thesis using Cons.IH[OF l] True by (simp add: await.simps[of "es # ws"])
  next
    case False
    then show ?thesis using Cons.prems by (simp add: await.simps[of "es # ws"])
  qed
qed

lemma Marshal_chunk: "length s = 12 \<Longrightarrow> \<exists>x. Marshal (gfsChunk (ObjectId s) n data) = Inr x"
  by (simp add: Marshal_def gfsChunk_def addDoc.simps addElem.simps close_doc_def)

lemma insertChunk_live:
  assumes "live (Suc n) ws (f, g)"
  shows "\<exists>ws' w'. insertChunk data ws (f, g) = Inr (ws', w') \<and> live n ws' w'"
proof -
  have "live (Suc n) ws (f\<lparr>chunk := chunk f + 1, wsum := wsum f @ data\<rparr>, g)" using assms by (simp add: live_def)
  from hold_on_live[OF this] obtain us u h where
    h: "hold_on ws (f\<lparr>chunk := chunk f + 1, wsum := wsum f @ data\<rparr>, g) = Inr (False, us, (u, h))" "live (Suc n) us (u, h)" by fastforce
  then obtain s where s: "Id (doc u) = ObjectId s" "length s = 12" by (auto simp: live_def)
  then obtain x where "Marshal (gfsChunk (ObjectId s) (chunk f) data) = Inr x" using Marshal_chunk by blast
  then show ?thesis using h s by (simp add: insertChunk_def Let_def live_def)
qed

lemma flush_chunks_live:
  "c > 0 \<Longrightarrow> live (length data + n) ws w \<Longrightarrow>
     \<exists>rest ws' w'. flush_chunks (int c) data ws w = Some (Inr (rest, ws', w')) \<and> live (length rest + n) ws' w'"
proof (induction "length data" arbitrary: data ws w rule: less_induct)
  case less
  show ?case
  proof (cases "length data > c")
    case False
    then show ?thesis using less.prems by (simp add: flush_chunks.simps[of _ data])
  next
    case True
    let ?d = "drop c data"
    obtain f g where w: "w = (f, g)" by fastforce
    have lt: "length ?d < length data" using True less.prems(1) by simp
    have "live (Suc (length ?d + n)) ws w" by (rule live_mono[OF less.prems(2)]) (use lt in simp)
    then obtain us u where i: "insertChunk (take c data) ws w = Inr (us, u)" "live (length ?d + n) us u" using insertChunk_live w by blast
    have s: "slice data 0 (int c) = Inr (take c data)" using True by (simp add: slice_def)
    show ?thesis using less.hyps[OF lt less.prems(1) i(2)] True i(1) s by (simp add: flush_chunks.simps[of _ data])
  qed
qed

lemma flush_wbuf_live:
  assumes "live (length (wbuf f) + length data + n) ws (f, g)" "ChunkSize (doc f) = int c"
    "length (wbuf f) \<le> c" "c \<le> length (wbuf f) + length data"
  shows "\<exists>data' ws' f' g'. flush_wbuf data ws (f, g) = Inr (data', ws', (f', g')) \<and> live (length data' + n) ws' (f', g')"
proof (cases "wbuf f = []")
  case True
  then show ?thesis using assms(1) by (simp add: flush_wbuf_def)
next
  case False
  let ?m = "c - length (wbuf f)"
  have m: "min (ChunkSize (doc f) - int (length (wbuf f))) (int (length data)) = int ?m" using assms(2-4) by simp
  have s: "slice data 0 (int ?m) = Inr (take ?m data)" using assms(4) by (simp add: slice_def)
  have "length (wbuf f) > 0" using False by simp
  then have "Suc (length (drop ?m data) + n) \<le> length (wbuf f) + length data + n" unfolding length_drop by linarith
  then have "live (Suc (length (drop ?m data) + n)) ws (f\<lparr>wbuf := wbuf f @ take ?m data\<rparr>, g)"
    using live_mono[OF assms(1), of "Suc (length (drop ?m data) + n)"] by simp
  then obtain us u h where i: "insertChunk (wbuf f @ take ?m data) ws (f\<lparr>wbuf := wbuf f @ take ?m data\<rparr>, g) = Inr (us, (u, h))"
      "live (length (drop ?m data) + n) us (u, h)" using insertChunk_live by fast
  show ?thesis unfolding flush_wbuf_def prod.case m s Let_def using False i by simp
qed

lemma Write_live:
  assumes "c > 0" "open_file c d xs (f, g)" "live (length (wbuf f) + length data + n) ws (f, g)"
  shows "\<exists>l e ws' f' g'. Write data ws (f, g) = Inr (l, e, ws', (f', g')) \<and> live (length (wbuf f') + n) ws' (f', g')"
proof -
  have e: "err f = None" using assms(3) by (simp add: live_def)
  then have o: "mode f = Writing" "doc f = d\<lparr>Length := int (length xs)\<rparr>" "length (wbuf f) \<le> c" "ChunkSize (doc f) = int c" "going c xs (wbuf f) (f, g)"
    using assms(2) by (simp_all add: open_file_def)
  let ?f = "f\<lparr>doc := (doc f)\<lparr>Length := Length (doc f) + int (length data)\<rparr>\<rparr>"
  show ?thesis
  proof (cases "int (length (wbuf f)) + int (length data) < int c")
    case True
    then show ?thesis using e o(1,4) assms(3) by (simp add: Write_def assertMode_def Let_def)
  next
    case False
    then have ge: "c \<le> length (wbuf ?f) + length data" "length (wbuf ?f) \<le> c" "ChunkSize (doc ?f) = int c" using o(3,4) by simp_all
    have l: "live (length (wbuf ?f) + length data + n) ws (?f, g)" using assms(3) by simp
    obtain data' us u h where f: "flush_wbuf data ws (?f, g) = Inr (data', us, (u, h))" "live (length data' + n) us (u, h)"
      using flush_wbuf_live[OF l ge(3,2,1)] by blast
    have go: "going c (xs @ data) (wbuf ?f @ data) (?f, g)" using going_append[OF o(5)] by simp
    obtain rest vs v k where r: "flush_chunks (int c) data' us (u, h) = Some (Inr (rest, vs, (v, k)))" "live (length rest + n) vs (v, k)"
      using flush_chunks_live[OF assms(1) f(2)] by fastforce
    have "static (u, h) (v, k)" using flush_chunks_ok[OF assms(1) r(1) flush_wbuf_ok(1)[OF f(1) go ge(3,2,1)]] by simp
    then have "wbuf v = []" using flush_wbuf_ok(2)[OF f(1) go ge(3,2,1)] by (simp add: static_def)
    then show ?thesis using False e o(1,4) f(1) r by (simp add: Write_def assertMode_def Let_def)
  qed
qed

text \<open>No insertion fails between the calls either.\<close>

fun faultless :: "wop list \<Rightarrow> bool" where
  "faultless [] = True"
| "faultless (WriteOp data # ops) = faultless ops"
| "faultless (Endings es # ops) = (list_all (\<lambda>(k, e). e = None) es \<and> faultless ops)"

lemma run_writes_live:
  assumes "c > 0"
  shows "faultless ops \<Longrightarrow> open_file c d xs w \<Longrightarrow> live (length (wbuf (fst w)) + length (content ops)) ws w \<Longrightarrow>
    \<exists>ws' w'. run_writes ops ws w = Inr (ws', w') \<and> live (length (wbuf (fst w'))) ws' w'"
proof (induction ops ws w arbitrary: xs rule: run_writes.induct)
  case (2 data ops ws w)
  obtain f g where w: "w = (f, g)" by fastforce
  have "live (length (wbuf f) + length data + length (content ops)) ws (f, g)" using "2.prems"(3) by (simp add: w add.assoc)
  from Write_live[OF assms "2.prems"(2)[unfolded w] this] obtain l e us u h where
    r: "Write data ws (f, g) = Inr (l, e, us, (u, h))" "live (length (wbuf u) + length (content ops)) us (u, h)" by blast
  have "open_file c d (xs @ data) (u, h)" using Write_ok[OF assms r(1) "2.prems"(2)[unfolded w]] by simp
  from "2.IH"[OF r(1)[folded w] _ _ _ _ this] show ?case using r "2.prems"(1) by (simp add: w)
next
  case (3 es ops ws w)
  have e: "list_all (\<lambda>(k, e). e = None) es" "faultless ops" using "3.prems"(1) by simp_all
  have "wbuf (fst (wakeup es w)) = wbuf (fst w)" using wakeup_frame[of w es] by (auto simp: frame_def split: prod.splits)
  then show ?case using "3.IH"[OF e(2) wakeup_open[OF "3.prems"(2)]] wakeup_live[OF e(1) "3.prems"(3)] by simp
qed auto

lemma insertFile_live: "live n ws w \<Longrightarrow> \<exists>ws' w'. insertFile md5 now None ws w = Inr (ws', w') \<and> err (fst w') = None"
proof -
  assume "live n ws w"
  then obtain us u h where a: "await ws w = Inr (us, (u, h))" "live n us (u, h)" using await_live by fastforce
  then show ?thesis by (simp add: insertFile_def Let_def live_def)
qed

lemma Close_live:
  assumes "live (length (wbuf f)) ws (f, g)" "mode f = Writing"
  shows "\<exists>w'. Close md5 now None ws (f, g) = Inr (None, w')"
proof -
  have "\<exists>us u h. (if wbuf f \<noteq> [] then bindE (insertChunk (wbuf f) ws (f, g)) (\<lambda>(ws, (f, g)). Inr (ws, (f\<lparr>wbuf := []\<rparr>, g)))
      else Inr (ws, (f, g))) = Inr (us, (u, h)) \<and> live 0 us (u, h)"
  proof (cases "wbuf f = []")
    case True
    then show ?thesis using assms(1) by simp
  next
    case False
    then have "live (Suc 0) ws (f, g)" using live_mono[OF assms(1), of "Suc 0"] by (cases "wbuf f") simp_all
    from insertChunk_live[OF this] show ?thesis using False by fastforce
  qed
  then obtain us u h where r: "(if wbuf f \<noteq> [] then bindE (insertChunk (wbuf f) ws (f, g)) (\<lambda>(ws, (f, g)). Inr (ws, (f\<lparr>wbuf := []\<rparr>, g)))
      else Inr (ws, (f, g))) = Inr (us, (u, h))" "live 0 us (u, h)" by blast
  obtain vs v k where "insertFile md5 now None us (u, h) = Inr (vs, (v, k))" "err v = None" using insertFile_live[OF r(2)] by fastforce
  then show ?thesis using r(1) assms(2) by (simp add: Close_def)
qed

lemma writes_end:
  assumes "c > 0" "length s = 12" "SetChunkSize (int c) (Create (ObjectId s) name) = Inr f" "faultless ops" "list_all clean ws"
    "length (content ops) \<le> length ws"
  shows "\<exists>ws' w w'. run_writes ops ws (f, no_files) = Inr (ws', w) \<and> Close md5 now None ws' w = Inr (None, w')"
proof -
  note o = Create_open[OF assms(1,3)]
  have f: "f = (Create (ObjectId s) name)\<lparr>doc := doc f\<rparr>" using assms(3) by (auto simp: SetChunkSize_def on_doc_def)
  have "live (length (wbuf f) + length (content ops)) ws (f, no_files)"
    using assms(2,5,6) o(2) by (subst (1 2) f) (simp add: live_def Create_def newFile_def)
  from run_writes_live[OF assms(1,4) o(1), of ws] this obtain ws' u h where
    r: "run_writes ops ws (f, no_files) = Inr (ws', (u, h))" "live (length (wbuf u)) ws' (u, h)" by fastforce
  have "mode u = Writing" using run_writes_ok[OF assms(1) r(1) o(1)] by (simp add: open_file_def)
  from Close_live[OF r(2) this] show ?thesis using r(1) by blast
qed

text \<open>C25: When the database inserts every chunk and a goroutine ends before each wakeup, the writes and \<open>Close\<close> return, without an
  error, with as many wakeups as there are bytes, and then the chunks and the document are in the database.\<close>

theorem writes_complete:
  assumes "c > 0" "length s = 12" "SetChunkSize (int c) (Create (ObjectId s) name) = Inr f" "faultless ops" "list_all clean ws"
    "length (content ops) \<le> length ws"
  shows "\<exists>ws' w f' g'. run_writes ops ws (f, no_files) = Inr (ws', w) \<and> Close md5 now None ws' w = Inr (None, (f', g')) \<and>
    g' = \<lparr>Chunks = chunks_of c (content ops), Files = [file_doc md5 now (doc f) (content ops)]\<rparr>"
proof -
  obtain ws' u h f' g' where r: "run_writes ops ws (f, no_files) = Inr (ws', (u, h))" "Close md5 now None ws' (u, h) = Inr (None, (f', g'))"
    using writes_end[OF assms, of md5 now] by fastforce
  have "open_file c (doc f) (content ops) (u, h)" using run_writes_ok[OF assms(1) r(1) Create_open(1)[OF assms(1,3)]] by simp
  from Close_ok[OF assms(1) this r(2)] show ?thesis using r by blast
qed

end
