(* ===== verification/GridFS_Read.thy ===== *)
theory GridFS_Read
  imports GridFS_Flow
begin

text \<open>
  The reader of a stored file is a position in its content, for buffers and offsets of any size: \<open>Read\<close> returns what is
  there and moves on, \<open>Seek\<close> moves. So what was written is read back. Then what goes wrong: offsets before the start, the
  end of a file of whole chunks, a fetch that fails, an identifier that cannot be encoded and a chunk size of zero.
\<close>

section \<open>The reader\<close>

text \<open>What the database answers for the chunks of a stored file.\<close>

definition serves :: "nat \<Rightarrow> byte list \<Rightarrow> (int \<Rightarrow> answer) \<Rightarrow> bool" where
  "serves c xs fetch \<longleftrightarrow> (\<forall>n d. chunks_of c xs n = Some d \<longrightarrow> fetch n = (d, None))"

definition cache_ok :: "nat \<Rightarrow> byte list \<Rightarrow> GridFile \<Rightarrow> bool" where
  "cache_ok c xs f \<longleftrightarrow> (\<forall>n a. rcache f = Some (n, a) \<longrightarrow> 0 \<le> n \<and> a = (piece c xs n, None))"

definition reader :: "nat \<Rightarrow> byte list \<Rightarrow> nat \<Rightarrow> nat \<Rightarrow> GridFile \<Rightarrow> bool" where
  "reader c xs pos k f \<longleftrightarrow> mode f = Reading \<and> ChunkSize (doc f) = int c \<and> Length (doc f) = int (length xs) \<and> offset f = int pos \<and>
     pos \<le> length xs \<and> chunk f = int k \<and> pos \<le> k * c \<and> (k - 1) * c \<le> pos \<and> rbuf f = drop pos (take (k * c) xs) \<and> cache_ok c xs f"

lemma chunks_of_Some: "k * c < length xs \<Longrightarrow> chunks_of c xs (int k) = Some (piece c xs (int k))"
proof -
  assume "k * c < length xs"
  then have "int (k * c) < int (length xs)" by (simp only: of_nat_less_iff)
  then show ?thesis by (simp add: chunks_of_def)
qed

lemma getChunk_ok:
  assumes "serves c xs fetch" "cache_ok c xs f" "chunk f = int k" "k * c < length xs" "ChunkSize (doc f) = int c" "Length (doc f) = int (length xs)"
  shows "\<exists>r. getChunk fetch f = ((piece c xs (int k), None), f\<lparr>chunk := int k + 1, rcache := r\<rparr>) \<and> cache_ok c xs (f\<lparr>chunk := int k + 1, rcache := r\<rparr>)"
proof -
  have k: "fetch (int k) = (piece c xs (int k), None)" using assms(1) chunks_of_Some[OF assms(4)] by (simp add: serves_def)
  have now: "(case rcache f of Some (n, a) \<Rightarrow> if n = chunk f then a else fetch (chunk f) | None \<Rightarrow> fetch (chunk f)) = (piece c xs (int k), None)"
    using assms(2,3) k by (auto simp: cache_ok_def split: option.split)
  have e: "(int k + 1) * int c < int (length xs) \<longleftrightarrow> Suc k * c < length xs"
    by (subst of_nat_less_iff[where 'a = int, symmetric]) (simp add: algebra_simps)
  have g: "getChunk fetch f = ((piece c xs (int k), None),
      f\<lparr>chunk := int k + 1, rcache := if Suc k * c < length xs then Some (int k + 1, fetch (int k + 1)) else None\<rparr>)"
    unfolding getChunk_def now Let_def using e assms(3,5,6) by simp
  have "fetch (int k + 1) = (piece c xs (int k + 1), None)" if "Suc k * c < length xs"
    using assms(1) chunks_of_Some[OF that] by (simp add: serves_def add.commute)
  then show ?thesis using g by (auto simp: cache_ok_def)
qed

lemma piece_drop: "piece c xs (int k) = drop (k * c) (take (Suc k * c) xs)"
  by (simp add: piece_def drop_take add.commute)

lemma read_loop_ok:
  assumes "c > 0" "serves c xs fetch"
  shows "reader c xs pos k f \<Longrightarrow>
    \<exists>f' k'. read_loop fetch m b f = Some ((b @ take m (drop pos xs), None), f') \<and> reader c xs (min (pos + m) (length xs)) k' f'"
proof (induction "length xs - k * c" arbitrary: pos k m b f rule: less_induct)
  case less
  define i where "i = min m (length (rbuf f))"
  define g where "g = f\<lparr>offset := offset f + int i, rbuf := drop i (rbuf f)\<rparr>"
  have r: "rbuf f = drop pos (take (k * c) xs)" "pos \<le> length xs" "pos \<le> k * c" "(k - 1) * c \<le> pos"
    and o: "offset f = int pos" "Length (doc f) = int (length xs)" "ChunkSize (doc f) = int c" "chunk f = int k" "cache_ok c xs f" "mode f = Reading"
    using less.prems by (simp_all add: reader_def)
  have l: "length (rbuf f) = min (k * c) (length xs) - pos" by (simp add: r(1) min.commute)
  have i: "pos + i \<le> length xs" "pos + i \<le> k * c" "i \<le> m" using l r(2,3) by (auto simp: i_def)
  have tk: "take i (rbuf f) = take i (drop pos xs)" using i(2) by (simp add: r(1) drop_take min_def)
  have g: "reader c xs (pos + i) k g" unfolding reader_def
    using r(4) o i by (simp add: g_def r(1) cache_ok_def add.commute)
  have body: "read_loop fetch m b f = (if i = m \<or> offset g = Length (doc g) then Some ((b @ take i (rbuf f), None), g)
      else case getChunk fetch g of ((data, e), h) \<Rightarrow> let h = h\<lparr>rbuf := data\<rparr> in
        case e of None \<Rightarrow> read_loop fetch (m - i) (b @ take i (rbuf f)) h | Some e \<Rightarrow> Some ((b @ take i (rbuf f), Some e), h))"
    by (subst read_loop.simps) (unfold Let_def i_def[symmetric] g_def[symmetric], rule refl)
  consider (full) "i = m" | (eof) "i \<noteq> m" "pos + i = length xs" | (more) "i \<noteq> m" "pos + i < length xs" using i(1) by linarith
  then show ?case
  proof cases
    case full
    then show ?thesis using g i(1) tk by (auto simp: body)
  next
    case eof
    then have "offset g = Length (doc g)" using o by (simp add: g_def)
    moreover have "take i (drop pos xs) = take m (drop pos xs)" using eof i(3) by simp
    moreover have "min (pos + m) (length xs) = pos + i" using eof i(3) by simp
    ultimately show ?thesis using g by (auto simp: body tk)
  next
    case more
    have at: "pos + i = k * c" "k * c < length xs" using more l r(2,3) by (auto simp: i_def min_def split: if_splits)
    obtain x where x: "getChunk fetch g = ((piece c xs (int k), None), g\<lparr>chunk := int k + 1, rcache := x\<rparr>)"
        "cache_ok c xs (g\<lparr>chunk := int k + 1, rcache := x\<rparr>)"
      using getChunk_ok[OF assms(2), of g k] g at(2) by (auto simp: reader_def)
    let ?h = "g\<lparr>chunk := int k + 1, rcache := x, rbuf := piece c xs (int k)\<rparr>"
    have "reader c xs (k * c) (Suc k) ?h" using g x(2) at by (simp add: reader_def piece_drop cache_ok_def)
    moreover have "length xs - Suc k * c < length xs - k * c" using at(2) assms(1) by simp
    ultimately obtain f' k' where f': "read_loop fetch (m - i) (b @ take i (rbuf f)) ?h = Some (((b @ take i (rbuf f)) @ take (m - i) (drop (k * c) xs), None), f')"
        "reader c xs (min (k * c + (m - i)) (length xs)) k' f'" using less.hyps by blast
    have "offset g \<noteq> Length (doc g)" using more o by (simp add: g_def)
    then have "read_loop fetch m b f = Some (((b @ take i (rbuf f)) @ take (m - i) (drop (k * c) xs), None), f')"
      using more(1) x(1) f'(1) by (simp add: body)
    moreover have "take i (drop pos xs) @ take (m - i) (drop (k * c) xs) = take m (drop pos xs)"
      using i(3) at(1) by (metis add.commute drop_drop le_add_diff_inverse take_add)
    moreover have "k * c + (m - i) = pos + m" using at(1) i(3) by simp
    ultimately show ?thesis using f'(2) by (auto simp: tk)
  qed
qed

section \<open>A file as a position\<close>

datatype request = ReadReq nat | SeekReq int int
datatype response = Got answer | At "int \<times> go_error option"

fun perform :: "(int \<Rightarrow> answer) \<Rightarrow> request \<Rightarrow> GridFile \<Rightarrow> (response \<times> GridFile) go" where
  "perform fetch (ReadReq n) f = bindE (Read fetch n f) (\<lambda>(a, f). Inr (Got a, f))"
| "perform fetch (SeekReq off whence) f = bindE (Seek fetch off whence f) (\<lambda>(p, f). Inr (At p, f))"

definition target :: "byte list \<Rightarrow> nat \<Rightarrow> int \<Rightarrow> int \<Rightarrow> int" where
  "target xs pos off whence = off + (if whence = 0 then 0 else if whence = 1 then int pos else int (length xs))"

fun respond_at :: "byte list \<Rightarrow> nat \<Rightarrow> request \<Rightarrow> response \<times> nat" where
  "respond_at xs pos (ReadReq n) =
     (Got (if pos = length xs then ([], Some (Err ''EOF'')) else (take n (drop pos xs), None)), min (pos + n) (length xs))"
| "respond_at xs pos (SeekReq off whence) = (let t = target xs pos off whence in
     if t > int (length xs) then (At (int pos, Some (Err ''Seek past end of file'')), pos) else (At (t, None), nat t))"

text \<open>Offsets before the start, and the end of a file of whole chunks, are not among the requests.\<close>

fun proper :: "nat \<Rightarrow> byte list \<Rightarrow> nat \<Rightarrow> request \<Rightarrow> bool" where
  "proper c xs pos (ReadReq n) = True"
| "proper c xs pos (SeekReq off whence) = (whence \<in> {0, 1, 2} \<and> (let t = target xs pos off whence in
     t > int (length xs) \<or> 0 \<le> t \<and> \<not> (t = int (length xs) \<and> c dvd length xs)))"

lemma Read_ok:
  assumes "c > 0" "serves c xs fetch" "reader c xs pos k f"
  shows "\<exists>f' k'. perform fetch (ReadReq n) f = Inr (fst (respond_at xs pos (ReadReq n)), f') \<and> reader c xs (snd (respond_at xs pos (ReadReq n))) k' f'"
proof (cases "pos = length xs")
  case True
  then show ?thesis using assms(3) by (auto simp: Read_def assertMode_def reader_def)
next
  case False
  obtain f' k' where r: "read_loop fetch n [] f = Some (([] @ take n (drop pos xs), None), f')" "reader c xs (min (pos + n) (length xs)) k' f'"
    using read_loop_ok[OF assms, of n "[]"] by blast
  have "Read fetch n f = Inr ((take n (drop pos xs), None), f')" using assms(3) False r(1) by (simp add: Read_def assertMode_def reader_def)
  then show ?thesis using False r(2) by auto
qed

lemma slice_end: "i \<le> length xs \<Longrightarrow> slice xs (int i) (int (length xs)) = Inr (drop i xs)"
  by (simp add: slice_def)

lemma sdiv_int: "int t sdiv int c = int (t div c)"
  by (simp add: signed_divide_int_def zdiv_int sgn_if)

lemma Seek_inside:
  assumes "c > 0" "serves c xs fetch" "reader c xs pos k f" "whence \<in> {0, 1, 2}" "target xs pos off whence = int t" "t \<le> length xs"
    "t div c * c < length xs"
  shows "\<exists>f' k'. Seek fetch off whence f = Inr ((int t, None), f') \<and> reader c xs t k' f'"
proof -
  have r: "rbuf f = drop pos (take (k * c) xs)" "pos \<le> length xs" "pos \<le> k * c" "(k - 1) * c \<le> pos"
    and o: "offset f = int pos" "Length (doc f) = int (length xs)" "ChunkSize (doc f) = int c" "chunk f = int k" "cache_ok c xs f" "mode f = Reading"
    using assms(3) by (simp_all add: reader_def)
  have off: "(if whence = 0 then Inr off else if whence = 1 then Inr (off + offset f) else if whence = 2 then Inr (off + Length (doc f))
      else Inl (Panic ''Unsupported whence value'')) = Inr (int t)" using assms(4,5) o(1,2) by (auto simp: target_def)
  let ?n = "t div c"
  have t: "?n * c \<le> t" "t < Suc ?n * c" using assms(1) dividend_less_div_times[of c t] by (simp_all add: add.commute)
  show ?thesis
  proof (cases "Suc ?n = k \<and> pos \<le> t")
    case True
    have "t - pos \<le> length (rbuf f)" using True t(2) assms(6) by (auto simp: r(1))
    then have "slice (rbuf f) (int t - int pos) (int (length (rbuf f))) = Inr (drop (t - pos) (rbuf f))" using True by (auto simp: slice_def nat_diff_distrib)
    then have "Seek fetch off whence f = Inr ((int t, None), f\<lparr>rbuf := drop (t - pos) (rbuf f), offset := int t\<rparr>)"
      unfolding Seek_def off using True assms(1,6) o by (simp add: sdiv_int)
    moreover have "reader c xs t k (f\<lparr>rbuf := drop (t - pos) (rbuf f), offset := int t\<rparr>)"
      using True t assms(6) o by (auto simp: reader_def r(1) cache_ok_def)
    ultimately show ?thesis by blast
  next
    case False
    let ?g = "f\<lparr>offset := int t, chunk := int ?n, rbuf := []\<rparr>"
    obtain x where x: "getChunk fetch ?g = ((piece c xs (int ?n), None), ?g\<lparr>chunk := int ?n + 1, rcache := x\<rparr>)"
        "cache_ok c xs (?g\<lparr>chunk := int ?n + 1, rcache := x\<rparr>)"
      using getChunk_ok[OF assms(2), of ?g ?n] assms(7) o by (auto simp: cache_ok_def)
    let ?p = "piece c xs (int ?n)"
    have "t - ?n * c \<le> c" "t - ?n * c \<le> length xs - ?n * c" using t assms(6) by (simp_all add: diff_le_mono)
    then have le: "t - ?n * c \<le> length ?p" by (simp add: piece_def)
    have eq: "int t - int ?n * int c = int (t - ?n * c)" using of_nat_diff[OF t(1), where 'a = int] by simp
    have s: "slice ?p (int t - int ?n * int c) (int (length ?p)) = Inr (drop (t - ?n * c) ?p)" unfolding eq by (rule slice_end[OF le])
    have d: "drop (t - ?n * c) ?p = drop t (take (Suc ?n * c) xs)" using t(1) by (simp add: piece_drop)
    have ne: "\<not> (int ?n + 1 = int k \<and> int pos \<le> int t)" using False by auto
    have "Seek fetch off whence f = Inr ((int t, None), ?g\<lparr>chunk := int ?n + 1, rcache := x, rbuf := drop (t - ?n * c) ?p\<rparr>)"
      unfolding Seek_def off using ne assms(1,6) o x(1) s by (cases "int ?n + 1 = int k") (simp_all add: sdiv_int Let_def)
    moreover have "reader c xs t (Suc ?n) (?g\<lparr>chunk := int ?n + 1, rcache := x, rbuf := drop (t - ?n * c) ?p\<rparr>)"
      unfolding reader_def d using t assms(6) o x(2) by (simp add: cache_ok_def)
    ultimately show ?thesis by blast
  qed
qed

lemma Seek_past:
  assumes "reader c xs pos k f" "whence \<in> {0, 1, 2}" "target xs pos off whence > int (length xs)"
  shows "Seek fetch off whence f = Inr ((int pos, Some (Err ''Seek past end of file'')), f)"
proof -
  have o: "offset f = int pos" "Length (doc f) = int (length xs)" using assms(1) by (simp_all add: reader_def)
  have "(if whence = 0 then Inr off else if whence = 1 then Inr (off + offset f) else if whence = 2 then Inr (off + Length (doc f))
      else Inl (Panic ''Unsupported whence value'')) = Inr (target xs pos off whence)" using assms(2) o by (auto simp: target_def)
  then show ?thesis using assms(3) o by (simp add: Seek_def)
qed

lemma perform_ok:
  assumes "c > 0" "serves c xs fetch" "reader c xs pos k f" "proper c xs pos r"
  shows "\<exists>f' k'. perform fetch r f = Inr (fst (respond_at xs pos r), f') \<and> reader c xs (snd (respond_at xs pos r)) k' f'"
proof (cases r)
  case (ReadReq n)
  then show ?thesis using Read_ok[OF assms(1-3)] by simp
next
  case (SeekReq off whence)
  let ?t = "target xs pos off whence"
  have w: "whence \<in> {0, 1, 2}" and t: "?t > int (length xs) \<or> 0 \<le> ?t \<and> \<not> (?t = int (length xs) \<and> c dvd length xs)"
    using assms(4) by (simp_all add: SeekReq Let_def)
  show ?thesis
  proof (cases "?t > int (length xs)")
    case True
    then show ?thesis using Seek_past[OF assms(3) w True] assms(3) by (auto simp: SeekReq Let_def)
  next
    case False
    then obtain u where u: "?t = int u" "u \<le> length xs" "u = length xs \<longrightarrow> \<not> c dvd length xs" using t by (cases ?t) auto
    have "u div c * c \<le> u" by simp
    moreover have "u = length xs \<Longrightarrow> u div c * c \<noteq> u" using u(3) by (metis dvd_triv_right)
    ultimately have "u div c * c < length xs" using u(2) by linarith
    from Seek_inside[OF assms(1-3) w u(1,2) this] obtain f' k' where
      "Seek fetch off whence f = Inr ((int u, None), f')" "reader c xs u k' f'" by blast
    then show ?thesis using u(1,2) by (auto simp: SeekReq Let_def)
  qed
qed

fun run_reads :: "(int \<Rightarrow> answer) \<Rightarrow> request list \<Rightarrow> GridFile \<Rightarrow> (response list \<times> GridFile) go" where
  "run_reads fetch [] f = Inr ([], f)"
| "run_reads fetch (r # rs) f = bindE (perform fetch r f) (\<lambda>(x, f). bindE (run_reads fetch rs f) (\<lambda>(xs, f). Inr (x # xs, f)))"

fun responses :: "byte list \<Rightarrow> nat \<Rightarrow> request list \<Rightarrow> response list" where
  "responses xs pos [] = []"
| "responses xs pos (r # rs) = fst (respond_at xs pos r) # responses xs (snd (respond_at xs pos r)) rs"

fun all_proper :: "nat \<Rightarrow> byte list \<Rightarrow> nat \<Rightarrow> request list \<Rightarrow> bool" where
  "all_proper c xs pos [] = True"
| "all_proper c xs pos (r # rs) = (proper c xs pos r \<and> all_proper c xs (snd (respond_at xs pos r)) rs)"

lemma run_reads_ok:
  assumes "c > 0" "serves c xs fetch"
  shows "reader c xs pos k f \<Longrightarrow> all_proper c xs pos rs \<Longrightarrow> \<exists>f'. run_reads fetch rs f = Inr (responses xs pos rs, f')"
proof (induction rs arbitrary: pos k f)
  case (Cons r rs)
  then have "proper c xs pos r" by simp
  from perform_ok[OF assms Cons.prems(1) this] obtain f' k' where
    f': "perform fetch r f = Inr (fst (respond_at xs pos r), f')" "reader c xs (snd (respond_at xs pos r)) k' f'" by blast
  obtain f'' where "run_reads fetch rs f' = Inr (responses xs (snd (respond_at xs pos r)) rs, f'')"
    using Cons.IH[OF f'(2)] Cons.prems(2) by auto
  then show ?case using f'(1) by simp
qed simp

lemma Open_reader: "ChunkSize d = int c \<Longrightarrow> Open (Inr (file_doc md5 now d xs)) = Inr f \<Longrightarrow> reader c xs 0 0 f"
  by (auto simp: Open_def reader_def newFile_def file_doc_def cache_ok_def)

text \<open>C23: What was written is read back: when \<open>Close\<close> returned no error, a reader that opens the file is a position in the bytes
  that were written. Reads of any size return the bytes from there on and the end of file at the end, and seeks move the
  position, but for offsets before the start and the end of a file of whole chunks.\<close>

theorem written_file_reads_back:
  assumes "c > 0" "SetChunkSize (int c) (Create i name) = Inr f" "run_writes ops ws (f, no_files) = Inr (ws', w)"
    "Close md5 now ins ws' w = Inr (None, (f', g'))" "Open (Inr (last (Files g'))) = Inr r"
    "\<forall>n d. Chunks g' n = Some d \<longrightarrow> fetch n = (d, None)" "all_proper c (content ops) 0 rs"
  shows "\<exists>r'. run_reads fetch rs r = Inr (responses (content ops) 0 rs, r')"
proof -
  note o = Create_open[OF assms(1,2)]
  obtain u h where w: "w = (u, h)" by fastforce
  have "open_file c (doc f) (content ops) (u, h)" using run_writes_ok[OF assms(1,3) o(1)] by (simp add: w)
  from Close_ok[OF assms(1) this assms(4)[unfolded w]]
  have g: "Chunks g' = chunks_of c (content ops)" "Files g' = [file_doc md5 now (doc f) (content ops)]" by simp_all
  have "Open (Inr (file_doc md5 now (doc f) (content ops))) = Inr r" using assms(5) g(2) by simp
  then have "reader c (content ops) 0 0 r" by (rule Open_reader[rotated]) (simp add: o(2))
  moreover have "serves c (content ops) fetch" using assms(6) unfolding serves_def g(1) .
  ultimately show ?thesis using run_reads_ok[OF assms(1) _ _ assms(7)] by blast
qed

section \<open>What goes wrong\<close>

lemma read_loop_fails:
  assumes "rbuf f = []" "n > 0" "offset f \<noteq> Length (doc f)" "getChunk fetch f = ((x, Some e), f')"
  shows "read_loop fetch n [] f = Some (([], Some e), f'\<lparr>rbuf := x\<rparr>)"
proof -
  have f: "f\<lparr>rbuf := []\<rparr> = f" using assms(1) by (cases f) simp
  show ?thesis using assms by (subst read_loop.simps) (simp add: Let_def f)
qed

lemma read_loop_more:
  assumes "rbuf f = []" "n > 0" "offset f \<noteq> Length (doc f)" "getChunk fetch f = ((x, None), f')"
  shows "read_loop fetch n [] f = read_loop fetch n [] (f'\<lparr>rbuf := x\<rparr>)"
proof -
  have f: "f\<lparr>rbuf := []\<rparr> = f" using assms(1) by (cases f) simp
  show ?thesis using assms by (subst read_loop.simps) (simp add: Let_def f)
qed

text \<open>C26: A failed fetch makes a reader lose a chunk: \<open>Read\<close> returns the error, and the next \<open>Read\<close> returns bytes of the chunk after it
  as if they were the ones at the offset, without an error.\<close>

theorem failed_read_skips_chunk:
  assumes "c > 0" "reader c xs (k * c) k f" "rcache f = None" "0 < n" "n \<le> c" "(k + 1) * c + n \<le> length xs"
    "fetch (int k) = ([], Some e)" "\<forall>m d. m \<noteq> int k \<longrightarrow> chunks_of c xs m = Some d \<longrightarrow> fetch m = (d, None)"
  shows "\<exists>f' f''. Read fetch n f = Inr (([], Some e), f') \<and> offset f' = int (k * c) \<and>
    Read fetch n f' = Inr ((take n (drop ((k + 1) * c) xs), None), f'')"
proof -
  have o: "offset f = int (k * c)" "Length (doc f) = int (length xs)" "ChunkSize (doc f) = int c" "chunk f = int k" "mode f = Reading" "rbuf f = []"
    using assms(2) by (simp_all add: reader_def)
  have lt: "Suc k * c < length xs" "k * c < length xs" using assms(4,6) by simp_all
  then have "int (Suc k * c) < int (length xs)" by (simp only: of_nat_less_iff)
  then have ltc: "(int k + 1) * int c < int (length xs)" by (simp add: algebra_simps)
  let ?p = "piece c xs (int k + 1)"
  have p: "fetch (int k + 1) = (?p, None)" using assms(8) chunks_of_Some[OF lt(1)] by (simp add: add.commute)
  define f1 where "f1 = f\<lparr>chunk := int k + 1, rcache := Some (int k + 1, (?p, None)), rbuf := []\<rparr>"
  have g1: "getChunk fetch f = (([], Some e), f\<lparr>chunk := int k + 1, rcache := Some (int k + 1, (?p, None))\<rparr>)"
    using o assms(3,7) p ltc by (simp add: getChunk_def Let_def)
  have ne: "offset f \<noteq> Length (doc f)" unfolding o(1,2) of_nat_eq_iff using lt(2) by simp
  have "Read fetch n f = Inr (([], Some e), f1)"
    using read_loop_fails[OF o(6) assms(4) ne g1] ne o(5) by (simp add: Read_def assertMode_def f1_def)
  moreover have "offset f1 = int (k * c)" using o(1) by (simp add: f1_def)
  moreover have "\<exists>f2. Read fetch n f1 = Inr ((take n ?p, None), f2)"
  proof -
    obtain r where g2: "getChunk fetch f1 = ((?p, None), f1\<lparr>chunk := int k + 2, rcache := r\<rparr>)"
    proof
      show "getChunk fetch f1 = ((?p, None), f1\<lparr>chunk := int k + 2,
          rcache := if (int k + 2) * int c < int (length xs) then Some (int k + 2, fetch (int k + 2)) else None\<rparr>)"
        using o(2,3) by (simp add: getChunk_def f1_def Let_def add.commute)
    qed
    have "n \<le> length ?p" using assms(5,6) by (simp add: piece_def nat_add_distrib add.commute)
    then have "\<exists>f2. read_loop fetch n [] (f1\<lparr>chunk := int k + 2, rcache := r, rbuf := ?p\<rparr>) = Some ((take n ?p, None), f2)"
      by (subst read_loop.simps) (simp add: Let_def min_absorb1)
    moreover have f1: "rbuf f1 = []" "offset f1 \<noteq> Length (doc f1)" "mode f1 = Reading" using o(5) ne by (simp_all add: f1_def)
    ultimately show ?thesis using read_loop_more[OF f1(1) assms(4) f1(2) g2] f1(2,3) by (auto simp: Read_def assertMode_def)
  qed
  moreover have "take n ?p = take n (drop ((k + 1) * c) xs)" using assms(5) by (simp add: piece_def nat_add_distrib add.commute)
  ultimately show ?thesis by metis
qed

text \<open>The end of a file of whole chunks is a chunk that does not exist.\<close>

lemma seek_to_end_fails:
  assumes "c > 0" "reader c xs pos k f" "c dvd length xs" "k \<le> length xs div c" "fetch (int (length xs div c)) = ([], Some e)"
    "rcache f = None"
  shows "\<exists>f'. Seek fetch 0 2 f = Inr ((int (length xs), Some e), f')"
proof -
  have o: "offset f = int pos" "Length (doc f) = int (length xs)" "ChunkSize (doc f) = int c" "chunk f = int k"
    using assms(2) by (simp_all add: reader_def)
  let ?n = "length xs div c"
  obtain g where g: "getChunk fetch (f\<lparr>offset := int (length xs), chunk := int ?n, rbuf := []\<rparr>) = (([], Some e), g)"
    using assms(5,6) by (simp add: getChunk_def Let_def)
  have "int ?n + 1 \<noteq> int k" using assms(4) by simp
  then show ?thesis using assms(1) o g by (simp add: Seek_def Let_def sdiv_int)
qed

text \<open>An offset before the start is a slice bound out of range.\<close>

lemma negative_seek_panics:
  assumes "reader c xs pos k f" "- int c < off" "off < 0" "fetch 0 = (d, None)" "rcache f = None"
  shows "Seek fetch off 0 f = Inl (Panic ''slice bounds out of range'')"
proof -
  have o: "offset f = int pos" "Length (doc f) = int (length xs)" "ChunkSize (doc f) = int c" using assms(1) by (simp_all add: reader_def)
  have n: "off sdiv int c = 0" using assms(2,3) by (simp add: signed_divide_int_def sgn_if)
  obtain g where g: "getChunk fetch (f\<lparr>offset := off, chunk := 0, rbuf := []\<rparr>) = ((d, None), g)"
    using assms(4,5) by (simp add: getChunk_def Let_def)
  show ?thesis using assms(2,3) o n g by (simp add: Seek_def Let_def slice_def)
qed

lemma await_stuck: "inserting f = [] \<Longrightarrow> wpending f > 0 \<Longrightarrow> await ws (f, g) = Inl Diverge"
proof (induction ws)
  case (Cons es ws)
  have "wakeup es (f, g) = (f, g)" using Cons.prems(1) by (induction es) (auto simp: wakeup_def finish_def)
  then show ?case using Cons by (simp add: await.simps[of "es # ws"])
qed (simp add: await.simps[of "[]"])

text \<open>When the document of a chunk cannot be encoded, for the identifier that was given to the file, its insertion is counted and
  never ends: \<open>Close\<close> does not return.\<close>

theorem unencodable_id_hangs_Close:
  assumes "c > 0" "SetChunkSize (int c) (Create i name) = Inr f" "\<forall>n d. \<exists>e. Marshal (gfsChunk i n d) = Inl (Err e)" "data \<noteq> []" "length data < c"
  shows "\<exists>f'. Write data [] (f, no_files) = Inr (int (length data), None, [], (f', no_files)) \<and> (\<forall>ws. Close md5 now ins ws (f', no_files) = Inl Diverge)"
proof -
  have f: "f = (Create i name)\<lparr>doc := (doc newFile)\<lparr>Id := i, ChunkSize := int c, Filename := name\<rparr>\<rparr>"
    using assms(2) by (auto simp: SetChunkSize_def on_doc_def assertMode_def Create_def)
  let ?f = "f\<lparr>doc := (doc f)\<lparr>Length := int (length data)\<rparr>, wbuf := data\<rparr>"
  have w: "Write data [] (f, no_files) = Inr (int (length data), None, [], (?f, no_files))"
    using assms(5) by (simp add: Write_def f assertMode_def Create_def newFile_def Let_def)
  obtain e where e: "Marshal (gfsChunk i 0 data) = Inl (Err e)" using assms(3) by blast
  have ins: "\<exists>u. insertChunk data ws (?f, no_files) = Inr (ws, (u, no_files)) \<and> inserting u = [] \<and> wpending u = 1" for ws
    using e by (simp add: insertChunk_def Let_def hold_on.simps f Create_def newFile_def)
  have "Close md5 now ins ws (?f, no_files) = Inl Diverge" for ws
  proof -
    obtain u where u: "insertChunk data ws (?f, no_files) = Inr (ws, (u, no_files))" "inserting u = []" "wpending u = 1" using ins by blast
    have "await ws (u\<lparr>wbuf := []\<rparr>, no_files) = Inl Diverge" by (rule await_stuck) (simp_all add: u)
    moreover have "mode ?f = Writing" "wbuf ?f = data" by (simp_all add: f Create_def)
    ultimately show ?thesis using assms(4) u(1) unfolding Close_def by (simp add: insertFile_def Let_def)
  qed
  then show ?thesis using w by blast
qed

text \<open>A chunk size of zero, which \<open>SetChunkSize\<close> takes, makes \<open>Write\<close> insert empty chunks forever.\<close>

lemma insertChunk_zero:
  "ChunkSize (doc (fst w)) = 0 \<Longrightarrow> Id (doc (fst w)) = ObjectId s \<Longrightarrow> length s = 12 \<Longrightarrow>
     \<exists>u g. insertChunk data ws w = Inr (ws, (u, g)) \<and> doc u = doc (fst w)"
proof -
  assume w: "ChunkSize (doc (fst w)) = 0" "Id (doc (fst w)) = ObjectId s" "length s = 12"
  obtain f g where fg: "w = (f, g)" by fastforce
  obtain x where "Marshal (gfsChunk (ObjectId s) (chunk f) data) = Inr x" using Marshal_chunk[OF w(3)] by blast
  then show ?thesis using w by (simp add: fg insertChunk_def Let_def hold_on.simps)
qed

definition empty_chunks :: "int \<Rightarrow> byte list \<Rightarrow> world \<Rightarrow> string \<Rightarrow> bool" where
  "empty_chunks c data w s \<longleftrightarrow>
     c = 0 \<and> data \<noteq> [] \<and> ChunkSize (doc (fst w)) = 0 \<and> Id (doc (fst w)) = ObjectId s \<and> length s = 12"

lemma flush_chunks_zero: "flush_chunks c data ws w = Some r \<Longrightarrow> \<not> empty_chunks c data w s"
proof (rule flush_chunks.raw_induct[where P = "\<lambda>c data ws w r. \<not> empty_chunks c data w s"])
  fix flush :: "int \<Rightarrow> byte list \<Rightarrow> ending list list \<Rightarrow> world \<Rightarrow> (byte list \<times> ending list list \<times> world) go option" and c data ws w r
  assume IH: "\<And>c data ws w r. flush c data ws w = Some r \<Longrightarrow> \<not> empty_chunks c data w s"
    and r: "(if c < int (length data)
      then case bindE (slice data 0 c) (\<lambda>d. insertChunk d ws w) of Inl e \<Rightarrow> Some (Inl e) | Inr (ws, w) \<Rightarrow> flush c (drop (nat c) data) ws w
      else Some (Inr (data, ws, w))) = Some r"
  show "\<not> empty_chunks c data w s"
  proof
    assume a: "empty_chunks c data w s"
    obtain u g where i: "insertChunk [] ws w = Inr (ws, (u, g))" "doc u = doc (fst w)" using insertChunk_zero[of w s "[]" ws] a unfolding empty_chunks_def by blast
    then have "flush 0 data ws (u, g) = Some r" using r a by (simp add: slice_def empty_chunks_def)
    from IH[OF this] show False using a i(2) by (simp add: empty_chunks_def)
  qed
qed

lemma zero_chunk_size_diverges:
  assumes "SetChunkSize 0 (Create (ObjectId s) name) = Inr f" "data \<noteq> []" "length s = 12"
  shows "Write data ws (f, no_files) = Inl Diverge"
proof -
  have f: "f = (Create (ObjectId s) name)\<lparr>doc := (doc newFile)\<lparr>Id := ObjectId s, ChunkSize := 0, Filename := name\<rparr>\<rparr>"
    using assms(1) by (auto simp: SetChunkSize_def on_doc_def assertMode_def Create_def)
  let ?f = "f\<lparr>doc := (doc f)\<lparr>Length := int (length data)\<rparr>\<rparr>"
  have "empty_chunks 0 data (?f, no_files) s" using assms(2,3) by (simp add: empty_chunks_def f)
  then have "flush_chunks 0 data ws (?f, no_files) = None"
    using flush_chunks_zero by (cases "flush_chunks 0 data ws (?f, no_files)") blast+
  then show ?thesis by (simp add: Write_def f assertMode_def Create_def newFile_def flush_wbuf_def Let_def returned_def)
qed

section \<open>Witnesses\<close>

definition sample_id :: string where
  "sample_id = replicate 12 CHR ''x''"

definition sample_file :: "nat \<Rightarrow> GridFile" where
  "sample_file c = (Create (ObjectId sample_id) ''f'')\<lparr>doc := (doc newFile)\<lparr>Id := ObjectId sample_id, ChunkSize := int c, Filename := ''f''\<rparr>\<rparr>"

lemma sample_file_ok: "SetChunkSize (int c) (Create (ObjectId sample_id) ''f'') = Inr (sample_file c)"
  by (simp add: SetChunkSize_def on_doc_def assertMode_def Create_def sample_file_def)

lemma sample_ends: "list_all clean (replicate n [(0, None)])"
  by (induction n) (simp_all add: clean_def)

lemma sample_run:
  "\<exists>ws' w f' g'. run_writes [WriteOp [1, 2, 3], Endings [(0, None)]] (replicate 3 [(0, None)]) (sample_file 2, no_files) = Inr (ws', w) \<and>
     Close (\<lambda>_. ''d'') 7 None ws' w = Inr (None, (f', g'))"
proof -
  have "\<exists>ws' w w'. run_writes [WriteOp [1, 2, 3], Endings [(0, None)]] (replicate 3 [(0, None)]) (sample_file 2, no_files) = Inr (ws', w) \<and>
      Close (\<lambda>_. ''d'') 7 None ws' w = Inr (None, w')"
    by (rule writes_end[OF _ _ sample_file_ok]) (simp_all only: sample_ends sample_id_def, simp_all)
  then show ?thesis by fastforce
qed

theorem closed_file_is_stored_witness:
  "\<exists>ws' w f' g'. run_writes [WriteOp [1, 2, 3], Endings [(0, None)]] (replicate 3 [(0, None)]) (sample_file 2, no_files) = Inr (ws', w) \<and>
     Close (\<lambda>_. ''d'') 7 None ws' w = Inr (None, (f', g')) \<and> Chunks g' 0 = Some [1, 2] \<and> Chunks g' 1 = Some [3] \<and> Chunks g' 2 = None \<and>
     map Length (Files g') = [3]"
proof -
  obtain ws' w f' g' where r: "run_writes [WriteOp [1, 2, 3], Endings [(0, None)]] (replicate 3 [(0, None)]) (sample_file 2, no_files) = Inr (ws', w)"
    "Close (\<lambda>_. ''d'') 7 None ws' w = Inr (None, (f', g'))" using sample_run by blast
  from closed_file_is_stored[OF _ sample_file_ok r]
  have "Chunks g' = chunks_of 2 [1, 2, 3]" "Files g' = [file_doc (\<lambda>_. ''d'') 7 (doc (sample_file 2)) [1, 2, 3]]" by simp_all
  then have "Chunks g' 0 = Some [1, 2] \<and> Chunks g' 1 = Some [3] \<and> Chunks g' 2 = None \<and> map Length (Files g') = [3]"
    by (simp add: chunks_of_def piece_def file_doc_def)
  then show ?thesis using r by (intro exI[of _ ws'] exI[of _ w] exI[of _ f'] exI[of _ g']) (simp only: simp_thms)
qed

theorem writes_complete_witness:
  "\<exists>ws' w f' g'. run_writes [WriteOp [1, 2, 3], Endings [(0, None)]] (replicate 3 [(0, None)]) (sample_file 2, no_files) = Inr (ws', w) \<and>
     Close (\<lambda>_. ''d'') 7 None ws' w = Inr (None, (f', g')) \<and> Chunks g' 1 = Some [3]"
proof -
  have "\<exists>ws' w f' g'. run_writes [WriteOp [1, 2, 3], Endings [(0, None)]] (replicate 3 [(0, None)]) (sample_file 2, no_files) = Inr (ws', w) \<and>
     Close (\<lambda>_. ''d'') 7 None ws' w = Inr (None, (f', g')) \<and>
     g' = \<lparr>Chunks = chunks_of 2 (content [WriteOp [1, 2, 3], Endings [(0, None)]]), Files = [file_doc (\<lambda>_. ''d'') 7 (doc (sample_file 2)) (content [WriteOp [1, 2, 3], Endings [(0, None)]])]\<rparr>"
    by (rule writes_complete[OF _ _ sample_file_ok]) (simp_all only: sample_ends sample_id_def, simp_all)
  then show ?thesis by (fastforce simp: chunks_of_def piece_def simp del: run_writes.simps)
qed

theorem written_file_reads_back_witness:
  "\<exists>ws' w f' g' r r'. run_writes [WriteOp [1, 2, 3], Endings [(0, None)]] (replicate 3 [(0, None)]) (sample_file 2, no_files) = Inr (ws', w) \<and>
     Close (\<lambda>_. ''d'') 7 None ws' w = Inr (None, (f', g')) \<and> Open (Inr (last (Files g'))) = Inr r \<and>
     run_reads (\<lambda>n. case Chunks g' n of Some d \<Rightarrow> (d, None) | None \<Rightarrow> ([], Some (Err ''not found'')))
       [ReadReq 2, SeekReq 1 0, ReadReq 5, ReadReq 1] r =
     Inr ([Got ([1, 2], None), At (1, None), Got ([2, 3], None), Got ([], Some (Err ''EOF''))], r')"
proof -
  obtain ws' w f' g' where r: "run_writes [WriteOp [1, 2, 3], Endings [(0, None)]] (replicate 3 [(0, None)]) (sample_file 2, no_files) = Inr (ws', w)"
    "Close (\<lambda>_. ''d'') 7 None ws' w = Inr (None, (f', g'))" using sample_run by blast
  let ?fetch = "\<lambda>n. case Chunks g' n of Some d \<Rightarrow> (d, None) | None \<Rightarrow> ([], Some (Err ''not found''))"
  obtain u where u: "Open (Inr (last (Files g'))) = Inr u" by (simp add: Open_def)
  have "\<forall>n d. Chunks g' n = Some d \<longrightarrow> ?fetch n = (d, None)" by simp
  from written_file_reads_back[OF _ sample_file_ok r u this, of "[ReadReq 2, SeekReq 1 0, ReadReq 5, ReadReq 1]"]
  have "\<exists>r'. run_reads ?fetch [ReadReq 2, SeekReq 1 0, ReadReq 5, ReadReq 1] u =
      Inr ([Got ([1, 2], None), At (1, None), Got ([2, 3], None), Got ([], Some (Err ''EOF''))], r')"
    by (simp add: target_def Let_def)
  then show ?thesis using r u by blast
qed

theorem failed_read_skips_chunk_witness:
  "\<exists>f f' f''. Open (Inr (file_doc (\<lambda>_. ''d'') 7 (doc (sample_file 2)) [1, 2, 3, 4])) = Inr f \<and>
     Read (\<lambda>n. if n = 0 then ([], Some (Err ''timeout'')) else ([3, 4], None)) 2 f = Inr (([], Some (Err ''timeout'')), f') \<and>
     Read (\<lambda>n. if n = 0 then ([], Some (Err ''timeout'')) else ([3, 4], None)) 2 f' = Inr (([3, 4], None), f'')"
proof -
  obtain f where o: "Open (Inr (file_doc (\<lambda>_. ''d'') 7 (doc (sample_file 2)) [1, 2, 3, 4])) = Inr f" by (simp add: Open_def)
  have r: "reader 2 [1, 2, 3, 4] (0 * 2) 0 f" using Open_reader[OF _ o, of 2] by (simp add: sample_file_def)
  have c: "rcache f = None" using o by (auto simp: Open_def newFile_def)
  let ?fetch = "\<lambda>n. if n = 0 then ([], Some (Err ''timeout'')) else ([3, 4 :: byte], None)"
  have "\<forall>m d. m \<noteq> int 0 \<longrightarrow> chunks_of 2 [1, 2, 3, 4] m = Some d \<longrightarrow> ?fetch m = (d, None)"
  proof (intro allI impI)
    fix m d assume m: "m \<noteq> int 0" "chunks_of 2 [1, 2, 3, 4 :: byte] m = Some d"
    then have "m = 1" by (simp add: chunks_of_def split: if_splits)
    then show "?fetch m = (d, None)" using m(2) by (simp add: chunks_of_def piece_def)
  qed
  from failed_read_skips_chunk[OF _ r c _ _ _ _ this, of 2 "Err ''timeout''"] show ?thesis using o by auto
qed

theorem unencodable_id_hangs_Close_witness:
  "\<exists>f f'. SetChunkSize 2 (Create (ObjectId ''short'') ''f'') = Inr f \<and> Write [1] [] (f, no_files) = Inr (1, None, [], (f', no_files)) \<and>
     Close (\<lambda>_. ''d'') 7 None [] (f', no_files) = Inl Diverge"
proof -
  obtain f where f: "SetChunkSize (int 2) (Create (ObjectId ''short'') ''f'') = Inr f" by (simp add: SetChunkSize_def on_doc_def assertMode_def Create_def)
  have "\<forall>n d. \<exists>e. Marshal (gfsChunk (ObjectId ''short'') n d) = Inl (Err e)"
    by (simp add: Marshal_def gfsChunk_def addDoc.simps addElem.simps close_doc_def)
  from unencodable_id_hangs_Close[OF _ f this, of "[1]" "\<lambda>_. ''d''" 7 None] show ?thesis using f by auto
qed

end
