(* ===== verification/Spec2Isabelle.thy ===== *)
theory Spec2Isabelle
  imports Client Posting Raster Bson_Total StructTags ObjectIds Socket_Flow Cursor_Flow Pool Session_Flow Servers GridFS_Read
begin

text \<open>
  A verification library of Muteswan: an anonymous message board in which a circle is shared by
  its text (name, server, UUID and key), a server stores encrypted messages under the hash of that
  text, and clients post and read them through Tor. The paths below are under src/ of the
  repository, whose Go code is in src/src/.

  \<^bold>\<open>The program.\<close> \<open>server.go\<close> answers HTTP requests and keeps messages in one of three backends
  behind an interface; a channel serves as a lock for two of them. \<open>mtsnclient/mtsnclient.go\<close> is the library
  of the clients: circles, keys, padding and encryption. \<open>goclient.go\<close> is a client for the command
  line, \<open>muteswan-webclient/app/controllers/app.go\<close> one in the browser. Server and clients draw QR codes of
  circles with the package \<open>github.com/qpliu/qrencode-go/qrencode\<close>, and the MongoDB backend uses the driver
  \<open>labix.org/v2/mgo\<close>, of which the codec and the data structures are modelled.

  \<^bold>\<open>Foundations.\<close> \<open>Prelude\<close> has the result of Go code (\<open>'a go\<close>: a value, an error that is returned, a panic,
  or no return at all), checked indices and slices, bytes and strings. \<open>Go_Std\<close> has what the code uses of
  the packages strings, strconv, fmt and base64, \<open>JSON\<close> and \<open>JSON_Round\<close> what it uses of encoding/json with a
  round trip of the printer and the parser; \<open>JSON_Valid\<close> shows that the strings of a text that the parser takes are valid UTF-8.

  \<^bold>\<open>Server.\<close> \<open>Wire\<close> has the three structs on the wire, with the matching of JSON names to fields. \<open>Store\<close> has
  the interface \<open>MtsnStore\<close> as a record of actions on a state, and its contract as the locale \<open>mtsn_store\<close>: the
  numbers of the messages count from 1, reading changes nothing, a post that finds room appends. \<open>FileStore\<close>
  is the file backend over a world of directories and files, whose disk may refuse a new file or keep only a part of
  what is written, and an interpretation of that contract;
  \<open>MongoStore\<close> the MongoDB backend and the expiry goroutine over a parameter for the database, with what
  MongoDB documents, collection by collection, as a predicate and an instance in memory that satisfies it; \<open>TiedotStore\<close> the tiedot
  backend, over a parameter as well. \<open>Server\<close> has the handlers, the regular expressions and the dispatch of
  requests, and interprets the locale of a served store;
  what is posted is served under the next number, with both of these backends. In these theories requests run one after the
  other. \<open>Posting\<close> cuts the post of the file backend at its system calls and lets any number of posts
  interleave: an inductive step relation with an invariant (the lock is held once at most and not lost,
  numbers are distinct, no message is lost), the state after all of them, and two races.

  \<^bold>\<open>Clients.\<close> \<open>Circle\<close> has circles, their parser and printer, key and IV data, padding and encryption over
  parameters for SHA-1 and for the AES block functions, of which only that decryption inverts encryption
  is used. \<open>Client\<close> has both clients over a parameter for the HTTP transport, and runs them against the
  model of the server: what is posted comes back.

  \<^bold>\<open>QR codes.\<close> \<open>Bits\<close> and \<open>Grids\<close> have the three implementations of bit vectors and of grids with a locale for
  each interface; \<open>GField\<close>, \<open>GFPoly\<close>, \<open>Horner\<close> the field of 256 elements, polynomials over it and the error
  correction bytes; \<open>Version\<close> the tables of versions and block sizes; \<open>Content\<close> modes, content bits and
  padding with a decoder as the reference; \<open>Interleave\<close> blocks; \<open>Bch\<close> type and version information; \<open>QRGrid\<close>,
  \<open>Drawing\<close>, \<open>Placement\<close>, \<open>Symbol\<close> the drawing of a symbol and a reader that gets the data back; \<open>Penalty\<close>
  the choice of the mask; \<open>Encode\<close> the entry points; \<open>Raster\<close> text and pictures.

  \<^bold>\<open>MongoDB driver.\<close> \<open>Bson\<close> has the encoder and the decoder of package bson; \<open>Bson_Round\<close> shows by induction on
  the encoder that the decoder reads every element that it writes; \<open>Bson_Total\<close> that the decoder always
  returns. \<open>StructTags\<close> has the entries of struct types, \<open>ObjectIds\<close> object identifiers, \<open>Queue\<close> the ring buffer
  of a cursor, with the locale \<open>fifo\<close> for what the cursor relies on. \<open>Cursor\<close> has the iterator over the results of a query
  (\<open>Iter\<close>, \<open>Next\<close>, the callback and the requests for more of \<open>session.go\<close>), a relation of the steps that the server, the
  socket and the caller make in any order, and what goes wrong when a request fails; \<open>Cursor_Flow\<close> the invariant of
  these steps: the documents come in order and completely or up to the limit, without a panic, in a bounded number
  of steps, for every query that the builders make except a batch above the limit, which panics.
  \<open>Socket\<close> has the bytes that \<open>socket.go\<close> writes for operations and the loop that reads replies and calls back, and
  \<open>Socket_Flow\<close> what is in the frames, under which numbers callbacks are registered, and that each of them gets the
  documents of its own reply, in the order that \<open>Cursor\<close> assumes; also the users that are logged in on a socket, with
  a login and a logout that go wrong. \<open>Pool\<close> has the cache of sockets of \<open>server.go\<close> and its calls from any number of
  goroutines, cut at their locks: an invariant over the references, the sections that are left to do and the cache
  shows that no socket has two users by accident. \<open>Session\<close> has the sessions of \<open>session.go\<close>: the sockets that they
  reserve for their mode and share with their copies, their credentials, and the safety of writes; \<open>Session_Flow\<close>
  shows that the references of the sockets are balanced under any interleaving of calls, and that a write keeps the
  reads after it on the connection to the master. \<open>Servers\<close> has the sorted list of servers, which is a map, the choice
  of a server, and the times that \<open>pinger\<close> records. \<open>GridFS\<close> has the files of \<open>gridfs.go\<close>: writing in chunks that goroutines
  insert, whose ends a call takes as an argument, and reading with the next chunk fetched in advance; \<open>GridFS_Flow\<close>
  shows that a file that was closed without an error is stored, and that this is so when the database works;
  \<open>GridFS_Read\<close> that a reader is a position in what was written, and what goes wrong when a fetch fails.

  \<^bold>\<open>Bounds and fuel.\<close> A run of the iterator has at most \<open>5 * n + 6\<close> steps for a result of \<open>n\<close> documents, shown by a
  measure of the work that is left. Loops that are not structural are \<open>function\<close>s with a measure. The decoder of \<open>Bson\<close>
  recurses on fuel, one more than the number of bytes; \<open>Unmarshal_returns\<close> shows that this is enough for
  every input, because each call consumes a byte before the next one. A write in \<open>GridFS\<close> takes a list of wakeups,
  of which as many as there are bytes are enough (\<open>writes_complete\<close>). \<open>run_post\<close> in \<open>Posting\<close> takes the seven steps
  that a post has at most. Loops of the QR code that end for reasons of their own (a rejected mask, the
  search for a version) are shown to return where they are used. Machine integers are words of their
  width in the codec, the field and the packed vectors; the message numbers of \<open>server.go\<close> are integers with
  the one overflow that they can have (\<open>wrap64\<close>). The runs of \<open>Cursor_Flow\<close> are those without faults. The theorems on the file backend assume a circle of at most
  ten thousand messages, the number of directory entries that the code reads, and \<open>PostMsg_overwrites\<close> shows
  what happens beyond.

  \<^bold>\<open>Not modelled.\<close> Of \<open>server.go\<close> the flags and the opening of databases in \<open>main\<close>. The collections and commands of mgo, the cluster,
  the nonces of authentication, tailable cursors, the removal of files and transactions: they are driven by the network and by the answers of
  a server that is not in the repository, or not used by the program. In package bson, decoding into
  typed structs and the methods \<open>GetBSON\<close> and \<open>SetBSON\<close>, which depend on reflection and on code of the caller.
  PNG encoding, SHA-1, AES, MD5, the SOCKS proxy, the web framework and the two databases are
  parameters, because their code is not in the repository. The Android client is not Go.
\<close>

end
